(* ===== verification/Kprelude.thy ===== *)
theory Kprelude
  imports "HOL-Library.Word"
begin

text \<open>
  Shared vocabulary of the development: the machine integer types of
  \<^verbatim>\<open>kernel/types.h\<close>, the limits of \<^verbatim>\<open>kernel/param.h\<close>, the outcome of
  kernel code that may panic, little-endian encodings, the byte-addressed physical memory with
  its 8-byte accesses, and the arithmetic of naturally aligned regions that the page allocator,
  the page tables and the user heap rest on.
\<close>

unbundle bit_operations_syntax

section \<open>Machine integers (kernel/types.h) and limits (kernel/param.h)\<close>

type_synonym u8 = "8 word"
type_synonym u16 = "16 word"
type_synonym u32 = "32 word"
type_synonym u64 = "64 word"

abbreviation (input) NPROC :: nat where "NPROC \<equiv> 64"
abbreviation (input) NOFILE :: nat where "NOFILE \<equiv> 16"
abbreviation (input) NFILE :: nat where "NFILE \<equiv> 100"
abbreviation (input) NINODE :: nat where "NINODE \<equiv> 50"
abbreviation (input) MAXOPBLOCKS :: nat where "MAXOPBLOCKS \<equiv> 10"
abbreviation (input) LOGBLOCKS :: nat where "LOGBLOCKS \<equiv> 30"
abbreviation (input) NBUF :: nat where "NBUF \<equiv> 30"

section \<open>Kernel code that may panic\<close>

text \<open>\<open>panic(s)\<close> stops the machine, so a call returns a value or panics with its message.\<close>

datatype 'a outcome = Panic string | Ret 'a

fun obind :: "'a outcome \<Rightarrow> ('a \<Rightarrow> 'b outcome) \<Rightarrow> 'b outcome" where
  "obind (Panic e) f = Panic e"
| "obind (Ret x) f = f x"

fun returns :: "'a outcome \<Rightarrow> bool" where
  "returns (Panic e) = False"
| "returns (Ret x) = True"

lemma obind_eq_Ret [simp]: "obind m f = Ret y \<longleftrightarrow> (\<exists>x. m = Ret x \<and> f x = Ret y)"
  by (cases m) auto

lemma obind_eq_Panic:
  "obind m f = Panic e \<longleftrightarrow> m = Panic e \<or> (\<exists>x. m = Ret x \<and> f x = Panic e)"
  by (cases m) auto

lemma returns_iff: "returns m \<longleftrightarrow> (\<exists>x. m = Ret x)"
  by (cases m) auto

section \<open>Lists\<close>

lemma find_SomeD: "List.find P xs = Some x \<Longrightarrow> x \<in> set xs \<and> P x"
  by (auto simp: find_Some_iff)

section \<open>Little-endian encodings\<close>

fun word_of_bytes :: "u8 list \<Rightarrow> 'a::len word" where
  "word_of_bytes [] = 0"
| "word_of_bytes (b # bs) = ucast b OR push_bit 8 (word_of_bytes bs)"

definition bytes_of :: "nat \<Rightarrow> 'a::len word \<Rightarrow> u8 list" where
  "bytes_of n w = map (\<lambda>i. ucast (drop_bit (8 * i) w)) [0..<n]"

lemma length_bytes_of [simp]: "length (bytes_of n w) = n"
  by (simp add: bytes_of_def)

lemma nth_bytes_of [simp]: "i < n \<Longrightarrow> bytes_of n w ! i = ucast (drop_bit (8 * i) w)"
  by (simp add: bytes_of_def)

lemma bit_word_of_bytes:
  "bit (word_of_bytes bs :: 'a::len word) k \<longleftrightarrow>
     k < LENGTH('a) \<and> k div 8 < length bs \<and> bit (bs ! (k div 8)) (k mod 8)"
proof (induction bs arbitrary: k)
  case Nil
  then show ?case by simp
next
  case (Cons b bs)
  show ?case
  proof (cases "k < 8")
    case True
    then show ?thesis by (auto simp: bit_simps)
  next
    case False
    then have "k div 8 = Suc ((k - 8) div 8)" "(k - 8) mod 8 = k mod 8"
      by (simp_all add: le_div_geq le_mod_geq)
    with False Cons.IH [of "k - 8"] show ?thesis
      by (auto simp: bit_simps dest: bit_imp_le_length)
  qed
qed

lemma word_of_bytes_of [simp]:
  assumes "LENGTH('a) = 8 * n"
  shows "word_of_bytes (bytes_of n w) = (w :: 'a::len word)"
proof (rule bit_word_eqI)
  fix k assume k: "k < LENGTH('a)"
  with assms have "k div 8 < n" by auto
  moreover have "8 * (k div 8) + k mod 8 = k" by simp
  ultimately show "bit (word_of_bytes (bytes_of n w) :: 'a word) k = bit w k"
    using k by (simp add: bit_word_of_bytes bytes_of_def bit_simps)
qed

section \<open>Naturally aligned regions\<close>

text \<open>
  The bytes of a region of size \<open>2^k\<close> at \<open>a\<close> are the \<open>x\<close> with \<open>x - a < 2^k\<close>
  (the subtraction wraps). When \<open>a\<close> is a multiple of the size, they are the addresses
  that agree with \<open>a\<close> above bit \<open>k\<close>, so two such regions are equal or disjoint.
\<close>

definition aligned :: "nat \<Rightarrow> u64 \<Rightarrow> bool" where
  "aligned k a \<longleftrightarrow> unat a mod 2 ^ k = 0"

lemma unat64_less: "unat (x :: u64) < 2 ^ 64"
  using unsigned_less [of x] by simp

lemma unat_ucast_up [simp]:
  "LENGTH('a::len) \<le> LENGTH('b::len) \<Longrightarrow> unat (ucast (x :: 'a word) :: 'b word) = unat x"
proof -
  assume le: "LENGTH('a) \<le> LENGTH('b)"
  have "unat x < 2 ^ LENGTH('a)" by (rule unsigned_less)
  also have "\<dots> \<le> 2 ^ LENGTH('b)" using le by simp
  finally show ?thesis by (simp add: unsigned_ucast_eq take_bit_nat_eq_self)
qed

lemma unat_of_nat64: "i < 2 ^ 64 \<Longrightarrow> unat (of_nat i :: u64) = i"
  by (simp add: unat_of_nat)

lemma unat_u32_less: "unat (n :: u32) < 2 ^ 32"
  using unsigned_less [of n] by simp

lemma unat_add_nowrap: "unat (a :: u64) + unat b < 2 ^ 64 \<Longrightarrow> unat (a + b) = unat a + unat b"
  using unat_add_lem [of a b] by simp

lemma unat_minus1_u64: "unat (- 1 :: u64) = 2 ^ 64 - 1"
  by (simp add: unsigned_minus_1_eq_mask mask_eq_exp_minus_1)

lemma addr_eq_iff:
  assumes "i < 2 ^ 64"
  shows "x = d + of_nat i \<longleftrightarrow> unat (x - d :: u64) = i"
proof
  assume "x = d + of_nat i"
  then show "unat (x - d) = i" using assms by (simp add: unat_of_nat64)
next
  assume "unat (x - d) = i"
  then have "x - d = of_nat i"
    using unat_of_nat64 [OF assms] by (intro word_unat_eq_iff [THEN iffD2]) simp
  then show "x = d + of_nat i" by (metis add.commute diff_add_cancel)
qed

lemma aligned_0 [simp]: "aligned k 0"
  by (simp add: aligned_def)

lemma aligned_region:
  assumes "aligned k a" "k < 64"
  shows "unat (x - a) < 2 ^ k \<longleftrightarrow> unat x div 2 ^ k = unat a div 2 ^ k"
proof -
  let ?K = "2 ^ k :: nat"
  have dvd: "?K dvd unat a" using assms(1) by (simp add: aligned_def mod_eq_0_iff_dvd)
  have dvd64: "?K dvd 2 ^ 64" using assms(2) by (intro le_imp_power_dvd) simp
  have a64: "unat a < 2 ^ 64" "unat x < 2 ^ 64" by (rule unat64_less)+
  have top: "unat a + ?K \<le> 2 ^ 64"
  proof -
    obtain q r where q: "unat a = ?K * q" and r: "(2::nat) ^ 64 = ?K * r"
      using dvd dvd64 by (auto elim!: dvdE)
    have "q < r" using a64(1) q r by (metis nat_mult_less_cancel_disj)
    then have "?K * q + ?K \<le> ?K * r" by (metis Suc_leI mult_Suc_right add.commute mult_le_mono2)
    then show ?thesis using q r by simp
  qed
  have da: "?K * (unat a div ?K) = unat a" using dvd by simp
  show ?thesis
  proof (cases "a \<le> x")
    case True
    then have ge: "unat a \<le> unat x" by (simp add: word_le_nat_alt)
    have "unat (x - a) = unat x - unat a" using True by (rule unat_sub)
    moreover have "unat x - unat a < ?K \<longleftrightarrow> unat x div ?K = unat a div ?K"
    proof
      assume "unat x - unat a < ?K"
      then have "unat x = ?K * (unat a div ?K) + (unat x - unat a)" "unat x - unat a < ?K"
        using ge da by auto
      then show "unat x div ?K = unat a div ?K" by (metis div_mult_self4 div_less power_not_zero
            zero_neq_numeral add_0 add.right_neutral add.commute)
    next
      assume "unat x div ?K = unat a div ?K"
      then have "unat x = unat a + unat x mod ?K"
        by (metis da mult_div_mod_eq)
      then show "unat x - unat a < ?K"
        by (metis diff_add_inverse mod_less_divisor zero_less_numeral zero_less_power)
    qed
    ultimately show ?thesis by simp
  next
    case False
    then have lt: "unat x < unat a" by (simp add: word_le_nat_alt)
    have "unat (x - a) = 2 ^ 64 + unat x - unat a"
      using lt by (simp add: unat_sub_if' word_le_nat_alt)
    then have "\<not> unat (x - a) < ?K" using top by linarith
    moreover have "unat x div ?K \<noteq> unat a div ?K"
    proof
      assume "unat x div ?K = unat a div ?K"
      then have "unat a \<le> unat x" by (metis da div_times_less_eq_dividend mult.commute)
      then show False using lt by simp
    qed
    ultimately show ?thesis by simp
  qed
qed

lemma aligned_inj:
  assumes "aligned k a" "aligned k b" "unat a div 2 ^ k = unat b div 2 ^ k"
  shows "a = b"
proof -
  have "unat a = 2 ^ k * (unat a div 2 ^ k)" "unat b = 2 ^ k * (unat b div 2 ^ k)"
    using assms(1,2) by (simp_all add: aligned_def mod_eq_0_iff_dvd)
  then show ?thesis using assms(3) by (metis word_unat_eq_iff)
qed

lemma aligned_disjoint:
  assumes "aligned k a" "aligned k b" "a \<noteq> b" "k < 64" "unat (x - a) < 2 ^ k"
  shows "\<not> unat (x - b) < 2 ^ k"
  using assms aligned_inj [of k a b] by (auto simp: aligned_region)

lemma aligned_sub:
  assumes "aligned j a" "aligned k p" "j \<le> k" "k < 64"
    and "unat (x - a) < 2 ^ j" "unat (a - p) < 2 ^ k"
  shows "unat (x - p) < 2 ^ k"
proof -
  have eq: "unat x div 2 ^ j = unat a div 2 ^ j" "unat a div 2 ^ k = unat p div 2 ^ k"
    using assms aligned_region [of j a x] aligned_region [of k p a] by auto
  obtain d where k: "k = j + d" using assms(3) le_Suc_ex by blast
  have "unat x div 2 ^ k = unat a div 2 ^ k"
    using eq(1) by (simp add: k power_add div_mult2_eq)
  then show ?thesis using eq(2) assms(2,4) by (simp add: aligned_region)
qed

section \<open>Physical memory: bytes, and 64-bit little-endian accesses\<close>

type_synonym mem = "u64 \<Rightarrow> u8"

definition rd_bytes :: "mem \<Rightarrow> u64 \<Rightarrow> nat \<Rightarrow> u8 list" where
  "rd_bytes m a n = map (\<lambda>i. m (a + of_nat i)) [0..<n]"

definition wr_bytes :: "mem \<Rightarrow> u64 \<Rightarrow> u8 list \<Rightarrow> mem" where
  "wr_bytes m a bs = (\<lambda>x. if unat (x - a) < length bs then bs ! unat (x - a) else m x)"

definition load64 :: "mem \<Rightarrow> u64 \<Rightarrow> u64" where
  "load64 m a = word_of_bytes (rd_bytes m a 8)"

definition store64 :: "mem \<Rightarrow> u64 \<Rightarrow> u64 \<Rightarrow> mem" where
  "store64 m a v = wr_bytes m a (bytes_of 8 v)"

lemma length_rd_bytes [simp]: "length (rd_bytes m a n) = n"
  by (simp add: rd_bytes_def)

lemma nth_rd_bytes [simp]: "i < n \<Longrightarrow> rd_bytes m a n ! i = m (a + of_nat i)"
  by (simp add: rd_bytes_def)

lemma wr_bytes_apply:
  "wr_bytes m a bs x = (if unat (x - a) < length bs then bs ! unat (x - a) else m x)"
  by (simp add: wr_bytes_def)

lemma rd_wr_bytes:
  assumes "length bs = n" "n \<le> 2 ^ 64"
  shows "rd_bytes (wr_bytes m a bs) a n = bs"
proof (rule nth_equalityI)
  fix i assume "i < length (rd_bytes (wr_bytes m a bs) a n)"
  then have i: "i < n" by simp
  then have "i < 2 ^ LENGTH(64)" using assms(2) by simp
  then have "unat (of_nat i :: u64) = i" by (simp add: unat_of_nat)
  then show "rd_bytes (wr_bytes m a bs) a n ! i = bs ! i"
    using i assms(1) by (simp add: wr_bytes_def)
qed (use assms in simp)

lemma rd_bytes_cong:
  assumes "n \<le> 2 ^ 64" "\<And>x. unat (x - a) < n \<Longrightarrow> m x = m' x"
  shows "rd_bytes m a n = rd_bytes m' a n"
proof (rule nth_equalityI)
  fix i assume "i < length (rd_bytes m a n)"
  then have i: "i < n" by simp
  then have "i < 2 ^ LENGTH(64)" using assms(1) by simp
  then have "unat (of_nat i :: u64) = i" by (simp add: unat_of_nat)
  then have "unat ((a + of_nat i) - a) < n" using i by simp
  then show "rd_bytes m a n ! i = rd_bytes m' a n ! i" using i assms(2) by simp
qed simp

lemma load64_store64 [simp]: "load64 (store64 m a v) a = v"
  by (simp add: load64_def store64_def rd_wr_bytes)

lemma load64_cong:
  "(\<And>x. unat (x - a) < 8 \<Longrightarrow> m x = m' x) \<Longrightarrow> load64 m a = load64 m' a"
  unfolding load64_def by (rule arg_cong [of _ _ word_of_bytes]) (rule rd_bytes_cong, simp_all)

lemma store64_outside: "\<not> unat (x - a) < 8 \<Longrightarrow> store64 m a v x = m x"
  by (simp add: store64_def wr_bytes_def)

lemma load64_store64_other:
  assumes "aligned 3 a" "aligned 3 b" "a \<noteq> b"
  shows "load64 (store64 m a v) b = load64 m b"
proof (rule load64_cong)
  fix x assume "unat (x - b) < 8"
  then have "\<not> unat (x - a) < 8" using aligned_disjoint [of 3 b a x] assms by simp
  then show "store64 m a v x = m x" by (rule store64_outside)
qed

lemma load64_zero: "(\<And>x. unat (x - a) < 8 \<Longrightarrow> m x = 0) \<Longrightarrow> load64 m a = 0"
proof -
  assume "\<And>x. unat (x - a) < 8 \<Longrightarrow> m x = 0"
  then have "load64 m a = load64 (\<lambda>_. 0) a" by (intro load64_cong) simp
  also have "\<dots> = 0" by (simp add: load64_def rd_bytes_def upt_rec)
  finally show ?thesis .
qed

end
