(* ===== verification/Ring.thy ===== *)
theory Ring
  imports Kprelude
begin

text \<open>
  Ring buffers with free-running 32-bit counters, as the pipe and the console keep them, and the
  interface both give to their clients: a bounded queue of bytes. The counters wrap at
  \<open>2^32\<close>, which is harmless because the buffer size divides \<open>2^32\<close>.
\<close>

section \<open>Bounded queues of bytes\<close>

datatype qop = Put u8 | Get

text \<open>
  Clients run operations in any order; an operation on a full or empty queue is not run (its
  caller sleeps). The result is the queue, the bytes put and the bytes got.
\<close>

fun run_ops :: "('s \<Rightarrow> bool) \<Rightarrow> ('s \<Rightarrow> bool) \<Rightarrow> (u8 \<Rightarrow> 's \<Rightarrow> 's) \<Rightarrow> ('s \<Rightarrow> u8 \<times> 's) \<Rightarrow>
    qop list \<Rightarrow> 's \<Rightarrow> 's \<times> u8 list \<times> u8 list" where
  "run_ops full emp put get [] s = (s, [], [])"
| "run_ops full emp put get (Put c # ops) s =
     (if full s then run_ops full emp put get ops s
      else case run_ops full emp put get ops (put c s) of (s', i, out) \<Rightarrow> (s', c # i, out))"
| "run_ops full emp put get (Get # ops) s =
     (if emp s then run_ops full emp put get ops s
      else case get s of (c, s1) \<Rightarrow>
        case run_ops full emp put get ops s1 of (s', i, out) \<Rightarrow> (s', i, c # out))"

locale byte_queue =
  fixes inv :: "'s \<Rightarrow> bool" and q :: "'s \<Rightarrow> u8 list" and cap :: nat
    and full :: "'s \<Rightarrow> bool" and emp :: "'s \<Rightarrow> bool"
    and put :: "u8 \<Rightarrow> 's \<Rightarrow> 's" and get :: "'s \<Rightarrow> u8 \<times> 's"
  assumes bounded: "inv s \<Longrightarrow> length (q s) \<le> cap"
    and full_iff: "inv s \<Longrightarrow> full s \<longleftrightarrow> length (q s) = cap"
    and emp_iff: "inv s \<Longrightarrow> emp s \<longleftrightarrow> q s = []"
    and put_law: "inv s \<Longrightarrow> \<not> full s \<Longrightarrow> inv (put c s) \<and> q (put c s) = q s @ [c]"
    and get_law: "inv s \<Longrightarrow> \<not> emp s \<Longrightarrow> get s = (c, s') \<Longrightarrow> inv s' \<and> q s = c # q s'"
begin

lemma not_both: "inv s \<Longrightarrow> 0 < cap \<Longrightarrow> \<not> (full s \<and> emp s)"
  by (auto simp: full_iff emp_iff)

text \<open>Whatever the interleaving, bytes come out in the order they went in, none lost or doubled.\<close>

lemma fifo:
  "inv s \<Longrightarrow> run_ops full emp put get ops s = (s', i, out) \<Longrightarrow>
     inv s' \<and> q s @ i = out @ q s' \<and> length (q s') \<le> cap"
proof (induction ops arbitrary: s s' i out)
  case Nil
  then show ?case using bounded by simp
next
  case (Cons op ops)
  show ?case
  proof (cases op)
    case (Put c)
    show ?thesis
    proof (cases "full s")
      case True
      then show ?thesis using Cons Put by simp
    next
      case False
      obtain s2 i2 out2 where r: "run_ops full emp put get ops (put c s) = (s2, i2, out2)"
        by (metis surj_pair)
      have p: "inv (put c s)" "q (put c s) = q s @ [c]" using put_law [OF Cons.prems(1) False] by auto
      from Cons.IH [OF p(1) r] show ?thesis using Cons.prems(2) Put False r p(2) by auto
    qed
  next
    case Get
    show ?thesis
    proof (cases "emp s")
      case True
      then show ?thesis using Cons Get by simp
    next
      case False
      obtain c s1 where g: "get s = (c, s1)" by fastforce
      obtain s2 i2 out2 where r: "run_ops full emp put get ops s1 = (s2, i2, out2)"
        by (metis surj_pair)
      have p: "inv s1" "q s = c # q s1" using get_law [OF Cons.prems(1) False g] by auto
      from Cons.IH [OF p(1) r] show ?thesis using Cons.prems(2) Get False g r p(2) by auto
    qed
  qed
qed

end

section \<open>The ring\<close>

text \<open>The bytes between the counters \<open>r\<close> and \<open>w\<close> of an array \<open>d\<close> of \<open>n\<close> bytes.\<close>

definition ring :: "nat \<Rightarrow> u8 list \<Rightarrow> u32 \<Rightarrow> u32 \<Rightarrow> u8 list" where
  "ring n d r w = map (\<lambda>i. d ! (unat (r + of_nat i) mod n)) [0..<unat (w - r)]"

lemma length_ring [simp]: "length (ring n d r w) = unat (w - r)"
  by (simp add: ring_def)

lemma ring_empty_iff [simp]: "ring n d r w = [] \<longleftrightarrow> r = w"
  by (auto simp: ring_def unat_eq_zero)

lemma ring_same [simp]: "ring n d r r = []"
  by simp

lemma unat_plus_mod:
  assumes "n dvd 2 ^ 32"
  shows "unat (r + of_nat i :: u32) mod n = (unat r + i) mod n"
proof -
  have "unat (r + of_nat i) = (unat r + i) mod 2 ^ 32"
    by (simp add: unat_word_ariths unat_of_nat mod_simps)
  then show ?thesis using assms by (simp add: mod_mod_cancel)
qed

lemma slots_differ:
  assumes "n dvd 2 ^ 32" "i < k" "k < n"
  shows "unat (r + of_nat i :: u32) mod n \<noteq> unat (r + of_nat k) mod n"
proof
  assume "unat (r + of_nat i :: u32) mod n = unat (r + of_nat k) mod n"
  then have "(unat r + k) mod n = (unat r + i) mod n" by (simp add: unat_plus_mod [OF assms(1)])
  then have "n dvd (unat r + k) - (unat r + i)"
    using assms(2) by (subst (asm) mod_eq_dvd_iff_nat) auto
  then have "n \<le> k - i" using assms(2) by (intro dvd_imp_le) auto
  then show False using assms(3) by simp
qed

lemma unat_Suc_diff: "n < 2 ^ 32 \<Longrightarrow> unat (w - r) < n \<Longrightarrow> unat (w + 1 - r) = Suc (unat (w - r :: u32))"
proof -
  assume "n < 2 ^ 32" "unat (w - r) < n"
  then have "unat ((w - r) + 1) = unat (w - r) + 1" using unat_add_lem [of "w - r" 1] by simp
  then show ?thesis by (simp add: diff_add_eq)
qed

lemma ring_put:
  assumes "n dvd 2 ^ 32" "n < 2 ^ 32" "length d = n" "unat (w - r) < n"
  shows "ring n (d[unat w mod n := c]) r (w + 1) = ring n d r w @ [c]"
proof (rule nth_equalityI)
  note k = unat_Suc_diff [OF assms(2,4)]
  show "length (ring n (d[unat w mod n := c]) r (w + 1)) = length (ring n d r w @ [c])"
    using k by simp
  fix i assume "i < length (ring n (d[unat w mod n := c]) r (w + 1))"
  then have i: "i \<le> unat (w - r)" using k by simp
  have w: "w = r + of_nat (unat (w - r))" by simp
  show "ring n (d[unat w mod n := c]) r (w + 1) ! i = (ring n d r w @ [c]) ! i"
  proof (cases "i = unat (w - r)")
    case True
    have "unat w mod n < length d" using assms(3,4) by simp
    then show ?thesis using k True by (simp add: ring_def nth_append del: upt_Suc)
  next
    case False
    then have "i < unat (w - r)" using i by simp
    then have "unat (r + of_nat i) mod n \<noteq> unat w mod n"
      using slots_differ [OF assms(1), of i "unat (w - r)" r] assms(4) by simp
    then show ?thesis using k \<open>i < unat (w - r)\<close> by (simp add: ring_def nth_append del: upt_Suc)
  qed
qed

lemma ring_get:
  assumes "r \<noteq> w"
  shows "ring n d r w = d ! (unat r mod n) # ring n d (r + 1) w"
proof -
  have "unat (w - r) \<noteq> 0" using assms by (simp add: unat_eq_zero)
  then have k: "unat (w - r) = Suc (unat (w - (r + 1)))"
    using unat_minus_one [of "w - r"] assms by (simp add: diff_diff_eq)
  show ?thesis
    unfolding ring_def k by (simp add: upt_conv_Cons map_Suc_upt [symmetric] add.assoc del: upt_Suc)
qed

text \<open>Three counters, as in the console: \<open>r\<close> to \<open>w\<close> is committed, \<open>w\<close> to \<open>e\<close> is being edited.\<close>

lemma ring_split:
  assumes "unat (w - r) \<le> unat (e - r)"
  shows "ring n d r e = ring n d r w @ ring n d w e"
proof (rule nth_equalityI)
  have "e - w = (e - r) - (w - r)" by simp
  then have ew: "unat (e - w) = unat (e - r) - unat (w - r)"
    using assms unat_sub [of "w - r" "e - r"] by (simp add: word_le_nat_alt)
  show "length (ring n d r e) = length (ring n d r w @ ring n d w e)" using ew assms by simp
  fix i assume i: "i < length (ring n d r e)"
  show "ring n d r e ! i = (ring n d r w @ ring n d w e) ! i"
  proof (cases "i < unat (w - r)")
    case False
    then have "of_nat i = of_nat (unat (w - r)) + (of_nat (i - unat (w - r)) :: u32)"
      by (metis le_add_diff_inverse not_less of_nat_add)
    then have "r + of_nat i = w + of_nat (i - unat (w - r))" by simp
    then show ?thesis using False i ew by (simp add: ring_def nth_append add.commute)
  qed (use i in \<open>simp add: ring_def nth_append\<close>)
qed

lemma ring_unput:
  assumes "r \<noteq> w"
  shows "ring n d r (w - 1) = butlast (ring n d r w)" "last (ring n d r w) = d ! (unat (w - 1) mod n)"
proof -
  have k: "unat (w - r) = Suc (unat (w - 1 - r))"
    using unat_minus_one [of "w - r"] assms by (simp add: diff_right_commute unat_eq_zero)
      (metis Suc_pred eq_iff_diff_eq_0 unat_gt_0)
  then have "ring n d r w = ring n d r (w - 1) @ [d ! (unat (w - 1) mod n)]"
    by (simp add: ring_def)
  then show "ring n d r (w - 1) = butlast (ring n d r w)" "last (ring n d r w) = d ! (unat (w - 1) mod n)"
    by simp_all
qed

end
