(* ===== verification/Pipe.thy ===== *)
theory Pipe
  imports Ring
begin

text \<open>
  \<^verbatim>\<open>kernel/pipe.c\<close>. A call of \<open>pipewrite\<close> or \<open>piperead\<close> holds \<open>pi->lock\<close>
  except while it sleeps, so it is modelled as a sequence of atomic segments: a segment runs until
  the call returns or sleeps on a channel, and a sleeping call continues with another segment from
  the index it had reached. User memory is reached through the parameters \<open>uin\<close> (one byte of
  \<open>copyin\<close>) and \<open>uout\<close> (one byte of \<open>copyout\<close>), which may change the memory \<open>'m\<close>;
  \<open>kl i\<close> is what \<open>killed(pr)\<close> returns at index \<open>i\<close>.
\<close>

section \<open>Definitions\<close>

abbreviation (input) PIPESIZE :: nat where "PIPESIZE \<equiv> 512"

record pipe =
  data :: "u8 list"
  nread :: u32
  nwrite :: u32
  readopen :: int
  writeopen :: int

datatype pchan = Chan_nread | Chan_nwrite

text \<open>How a segment ends: asleep on a channel at an index, or returned a value.\<close>

datatype pstatus = Asleep pchan nat | Done int

fun pipewrite_from :: "(nat \<Rightarrow> bool) \<Rightarrow> (u64 \<Rightarrow> 'm \<Rightarrow> u8 option \<times> 'm) \<Rightarrow> u64 \<Rightarrow> nat \<Rightarrow> nat \<Rightarrow>
    pipe \<Rightarrow> 'm \<Rightarrow> pstatus \<times> pipe \<times> 'm \<times> pchan list" where
  "pipewrite_from kl uin addr i 0 pi m = (Done (int i), pi, m, [Chan_nread])"
| "pipewrite_from kl uin addr i (Suc k) pi m =
     (if readopen pi = 0 \<or> kl i then (Done (-1), pi, m, [])
      else if nwrite pi = nread pi + 512 then (Asleep Chan_nwrite i, pi, m, [Chan_nread])
      else case uin (addr + of_nat i) m of
        (None, m1) \<Rightarrow> (Done (int i), pi, m1, [Chan_nread])
      | (Some ch, m1) \<Rightarrow> pipewrite_from kl uin addr (Suc i) k
          (pi\<lparr>data := (data pi)[unat (nwrite pi mod 512) := ch], nwrite := nwrite pi + 1\<rparr>) m1)"

definition pipewrite :: "(nat \<Rightarrow> bool) \<Rightarrow> (u64 \<Rightarrow> 'm \<Rightarrow> u8 option \<times> 'm) \<Rightarrow> u64 \<Rightarrow> int \<Rightarrow>
    pipe \<Rightarrow> 'm \<Rightarrow> pstatus \<times> pipe \<times> 'm \<times> pchan list" where
  "pipewrite kl uin addr n pi m = pipewrite_from kl uin addr 0 (nat n) pi m"

fun piperead_from :: "(u64 \<Rightarrow> u8 \<Rightarrow> 'm \<Rightarrow> bool \<times> 'm) \<Rightarrow> u64 \<Rightarrow> nat \<Rightarrow> nat \<Rightarrow>
    pipe \<Rightarrow> 'm \<Rightarrow> pstatus \<times> pipe \<times> 'm \<times> pchan list" where
  "piperead_from uout addr i 0 pi m = (Done (int i), pi, m, [Chan_nwrite])"
| "piperead_from uout addr i (Suc k) pi m =
     (if nread pi = nwrite pi then (Done (int i), pi, m, [Chan_nwrite])
      else let ch = data pi ! unat (nread pi mod 512);
               pi1 = pi\<lparr>nread := nread pi + 1\<rparr>
           in case uout (addr + of_nat i) ch m of
                (False, m1) \<Rightarrow> (Done (int i), pi1, m1, [Chan_nwrite])
              | (True, m1) \<Rightarrow> piperead_from uout addr (Suc i) k pi1 m1)"

text \<open>The wait loop of \<open>piperead\<close> starts over after every wakeup.\<close>

definition piperead :: "(nat \<Rightarrow> bool) \<Rightarrow> (u64 \<Rightarrow> u8 \<Rightarrow> 'm \<Rightarrow> bool \<times> 'm) \<Rightarrow> u64 \<Rightarrow> int \<Rightarrow>
    pipe \<Rightarrow> 'm \<Rightarrow> pstatus \<times> pipe \<times> 'm \<times> pchan list" where
  "piperead kl uout addr n pi m =
     (if nread pi = nwrite pi \<and> writeopen pi \<noteq> 0
      then if kl 0 then (Done (-1), pi, m, []) else (Asleep Chan_nread 0, pi, m, [])
      else piperead_from uout addr 0 (nat n) pi m)"

text \<open>\<open>pipeclose\<close>: the pipe, whether its page is freed, and the channel woken.\<close>

definition pipeclose :: "bool \<Rightarrow> pipe \<Rightarrow> pipe \<times> bool \<times> pchan" where
  "pipeclose writable pi =
     (let (pi1, ch) = (if writable then (pi\<lparr>writeopen := 0\<rparr>, Chan_nread)
                       else (pi\<lparr>readopen := 0\<rparr>, Chan_nwrite))
      in (pi1, readopen pi1 = 0 \<and> writeopen pi1 = 0, ch))"

text \<open>The fields \<open>pipealloc\<close> sets; the data array keeps what the page held.\<close>

definition pipe_init :: "u8 list \<Rightarrow> pipe" where
  "pipe_init junk = \<lparr>data = junk, nread = 0, nwrite = 0, readopen = 1, writeopen = 1\<rparr>"

section \<open>The abstract pipe\<close>

text \<open>A bounded list of bytes and the two open flags.\<close>

record apipe =
  queue :: "u8 list"
  ropen :: bool
  wopen :: bool

definition pipe_ok :: "pipe \<Rightarrow> bool" where
  "pipe_ok pi \<longleftrightarrow> length (data pi) = PIPESIZE \<and> unat (nwrite pi - nread pi) \<le> PIPESIZE"

definition contents :: "pipe \<Rightarrow> u8 list" where
  "contents pi = ring PIPESIZE (data pi) (nread pi) (nwrite pi)"

definition abs_pipe :: "pipe \<Rightarrow> apipe" where
  "abs_pipe pi = \<lparr>queue = contents pi, ropen = (readopen pi \<noteq> 0), wopen = (writeopen pi \<noteq> 0)\<rparr>"

fun awrite :: "(nat \<Rightarrow> bool) \<Rightarrow> (u64 \<Rightarrow> 'm \<Rightarrow> u8 option \<times> 'm) \<Rightarrow> u64 \<Rightarrow> nat \<Rightarrow> nat \<Rightarrow>
    apipe \<Rightarrow> 'm \<Rightarrow> pstatus \<times> apipe \<times> 'm" where
  "awrite kl uin addr i 0 a m = (Done (int i), a, m)"
| "awrite kl uin addr i (Suc k) a m =
     (if \<not> ropen a \<or> kl i then (Done (-1), a, m)
      else if length (queue a) = PIPESIZE then (Asleep Chan_nwrite i, a, m)
      else case uin (addr + of_nat i) m of
        (None, m1) \<Rightarrow> (Done (int i), a, m1)
      | (Some ch, m1) \<Rightarrow> awrite kl uin addr (Suc i) k (a\<lparr>queue := queue a @ [ch]\<rparr>) m1)"

fun aread :: "(u64 \<Rightarrow> u8 \<Rightarrow> 'm \<Rightarrow> bool \<times> 'm) \<Rightarrow> u64 \<Rightarrow> nat \<Rightarrow> nat \<Rightarrow>
    apipe \<Rightarrow> 'm \<Rightarrow> pstatus \<times> apipe \<times> 'm" where
  "aread uout addr i 0 a m = (Done (int i), a, m)"
| "aread uout addr i (Suc k) a m =
     (case queue a of
        [] \<Rightarrow> (Done (int i), a, m)
      | ch # rest \<Rightarrow>
          (case uout (addr + of_nat i) ch m of
             (False, m1) \<Rightarrow> (Done (int i), a\<lparr>queue := rest\<rparr>, m1)
           | (True, m1) \<Rightarrow> aread uout addr (Suc i) k (a\<lparr>queue := rest\<rparr>) m1))"

section \<open>One byte in, one byte out\<close>

definition pput :: "u8 \<Rightarrow> pipe \<Rightarrow> pipe" where
  "pput ch pi = pi\<lparr>data := (data pi)[unat (nwrite pi mod 512) := ch], nwrite := nwrite pi + 1\<rparr>"

definition pget :: "pipe \<Rightarrow> u8 \<times> pipe" where
  "pget pi = (data pi ! unat (nread pi mod 512), pi\<lparr>nread := nread pi + 1\<rparr>)"

lemma unat_mod512: "unat (x mod 512 :: u32) = unat x mod 512"
  by (simp add: unat_mod_distrib)

lemma dvd512: "(512 :: nat) dvd 2 ^ 32"
  by (simp add: dvd_def exI [of _ "2 ^ 23"])

lemma pipe_full_iff: "nwrite pi = nread pi + 512 \<longleftrightarrow> length (contents pi) = PIPESIZE"
proof -
  have "nwrite pi = nread pi + 512 \<longleftrightarrow> nwrite pi - nread pi = 512" by (metis add.commute diff_add_cancel add_diff_cancel_left')
  also have "\<dots> \<longleftrightarrow> unat (nwrite pi - nread pi) = 512" by (simp add: word_unat_eq_iff)
  finally show ?thesis by (simp add: contents_def)
qed

lemma pput_ok:
  assumes "pipe_ok pi" "nwrite pi \<noteq> nread pi + 512"
  shows "pipe_ok (pput ch pi) \<and> contents (pput ch pi) = contents pi @ [ch]"
proof -
  have lt: "unat (nwrite pi - nread pi) < 512"
    using assms pipe_full_iff [of pi] by (auto simp: pipe_ok_def contents_def)
  then have "unat (nwrite pi + 1 - nread pi) = Suc (unat (nwrite pi - nread pi))"
    by (intro unat_Suc_diff [of 512]) auto
  then show ?thesis
    using assms(1) lt ring_put [OF dvd512, of "data pi" "nwrite pi" "nread pi" ch]
    by (simp add: pipe_ok_def contents_def pput_def unat_mod512)
qed

lemma pget_ok:
  assumes "pipe_ok pi" "nread pi \<noteq> nwrite pi"
  shows "pipe_ok (snd (pget pi)) \<and> contents pi = fst (pget pi) # contents (snd (pget pi))"
proof -
  have c: "contents pi = data pi ! (unat (nread pi) mod 512) # ring 512 (data pi) (nread pi + 1) (nwrite pi)"
    using ring_get [OF assms(2)] by (simp add: contents_def)
  then have "length (contents pi) = Suc (unat (nwrite pi - (nread pi + 1)))" by simp
  then show ?thesis using c assms(1) by (simp add: pipe_ok_def contents_def pget_def unat_mod512)
qed

interpretation pipe_queue: byte_queue pipe_ok contents PIPESIZE
  "\<lambda>pi. nwrite pi = nread pi + 512" "\<lambda>pi. nread pi = nwrite pi" pput pget
proof
  fix s c s'
  show "pipe_ok s \<Longrightarrow> length (contents s) \<le> PIPESIZE" by (simp add: pipe_ok_def contents_def)
  show "pipe_ok s \<Longrightarrow> (nwrite s = nread s + 512) = (length (contents s) = PIPESIZE)"
    by (rule pipe_full_iff)
  show "pipe_ok s \<Longrightarrow> (nread s = nwrite s) = (contents s = [])" by (simp add: contents_def)
  show "pipe_ok s \<Longrightarrow> nwrite s \<noteq> nread s + 512 \<Longrightarrow> pipe_ok (pput c s) \<and> contents (pput c s) = contents s @ [c]"
    by (rule pput_ok)
  show "pipe_ok s \<Longrightarrow> nread s \<noteq> nwrite s \<Longrightarrow> pget s = (c, s') \<Longrightarrow> pipe_ok s' \<and> contents s = c # contents s'"
    using pget_ok [of s] by simp
qed

section \<open>Refinement\<close>

lemma pipewrite_from_refines:
  "pipe_ok pi \<Longrightarrow> pipewrite_from kl uin addr i k pi m = (st, pi', m', ws) \<Longrightarrow>
     awrite kl uin addr i k (abs_pipe pi) m = (st, abs_pipe pi', m') \<and> pipe_ok pi'"
proof (induction k arbitrary: i pi m)
  case 0
  then show ?case by simp
next
  case (Suc k)
  note full = pipe_full_iff [of pi]
  show ?case
  proof (cases "readopen pi = 0 \<or> kl i \<or> nwrite pi = nread pi + 512")
    case True
    then show ?thesis using Suc.prems full by (auto simp: abs_pipe_def split: if_splits)
  next
    case False
    then have nf: "nwrite pi \<noteq> nread pi + 512" by simp
    note pp = pput_ok [OF Suc.prems(1) nf]
    have ap: "abs_pipe (pput ch pi) = (abs_pipe pi)\<lparr>queue := queue (abs_pipe pi) @ [ch]\<rparr>" for ch
      using pp by (simp add: abs_pipe_def) (simp add: pput_def)
    obtain r m1 where u: "uin (addr + of_nat i) m = (r, m1)" by fastforce
    show ?thesis
    proof (cases r)
      case None
      then show ?thesis using Suc.prems False full u by (auto simp: abs_pipe_def)
    next
      case (Some ch)
      have "pipewrite_from kl uin addr (Suc i) k (pput ch pi) m1 = (st, pi', m', ws)"
        using Suc.prems(2) False u Some by (simp add: pput_def)
      from Suc.IH [OF _ this] pp have "awrite kl uin addr (Suc i) k (abs_pipe (pput ch pi)) m1 = (st, abs_pipe pi', m')
          \<and> pipe_ok pi'" by blast
      then show ?thesis using False full u Some ap by (simp add: abs_pipe_def)
    qed
  qed
qed

lemma piperead_from_refines:
  "pipe_ok pi \<Longrightarrow> piperead_from uout addr i k pi m = (st, pi', m', ws) \<Longrightarrow>
     aread uout addr i k (abs_pipe pi) m = (st, abs_pipe pi', m') \<and> pipe_ok pi'"
proof (induction k arbitrary: i pi m)
  case 0
  then show ?case by simp
next
  case (Suc k)
  show ?case
  proof (cases "nread pi = nwrite pi")
    case True
    then have "contents pi = []" by (simp add: contents_def)
    then show ?thesis using Suc.prems True by (auto simp: abs_pipe_def)
  next
    case False
    note g = pget_ok [OF Suc.prems(1) False]
    let ?p1 = "snd (pget pi)" and ?ch = "fst (pget pi)"
    have ap: "abs_pipe ?p1 = (abs_pipe pi)\<lparr>queue := contents ?p1\<rparr>"
      by (simp add: abs_pipe_def) (simp add: pget_def)
    have q: "queue (abs_pipe pi) = ?ch # contents ?p1" using g by (simp add: abs_pipe_def)
    obtain ok m1 where u: "uout (addr + of_nat i) ?ch m = (ok, m1)" by fastforce
    have step: "piperead_from uout addr i (Suc k) pi m =
        (if ok then piperead_from uout addr (Suc i) k ?p1 m1 else (Done (int i), ?p1, m1, [Chan_nwrite]))"
      using False u by (cases ok) (simp_all add: pget_def)
    show ?thesis
    proof (cases ok)
      case True
      then have "piperead_from uout addr (Suc i) k ?p1 m1 = (st, pi', m', ws)" using Suc.prems(2) step by simp
      from Suc.IH [OF _ this] g show ?thesis using q u ap True by simp
    next
      case False
      then show ?thesis using Suc.prems(2) step q u ap g by simp
    qed
  qed
qed

text \<open>
  C15. The ring buffer with its wrapping counters implements the abstract pipe: a segment of
  \<open>pipewrite\<close> or \<open>piperead\<close> does to the bounded list of bytes, to user memory and to the
  caller exactly what the abstract operation does, and keeps the counters at most
  \<open>PIPESIZE\<close> apart.
\<close>

theorem pipe_refines_queue:
  assumes "pipe_ok pi"
  shows "(case pipewrite kl uin addr n pi m of (st, pi', m', ws) \<Rightarrow>
      awrite kl uin addr 0 (nat n) (abs_pipe pi) m = (st, abs_pipe pi', m') \<and> pipe_ok pi')
    \<and> (case piperead kl uout addr n pi m of (st, pi', m', ws) \<Rightarrow>
      (if queue (abs_pipe pi) = [] \<and> wopen (abs_pipe pi)
       then (if kl 0 then Done (-1) else Asleep Chan_nread 0, abs_pipe pi, m)
       else aread uout addr 0 (nat n) (abs_pipe pi) m) = (st, abs_pipe pi', m') \<and> pipe_ok pi')"
proof (rule conjI)
  show "case pipewrite kl uin addr n pi m of (st, pi', m', ws) \<Rightarrow>
      awrite kl uin addr 0 (nat n) (abs_pipe pi) m = (st, abs_pipe pi', m') \<and> pipe_ok pi'"
    using pipewrite_from_refines [OF assms] by (fastforce simp: pipewrite_def split: prod.split)
  have e: "queue (abs_pipe pi) = [] \<longleftrightarrow> nread pi = nwrite pi" by (simp add: abs_pipe_def contents_def)
  have w: "wopen (abs_pipe pi) \<longleftrightarrow> writeopen pi \<noteq> 0" by (simp add: abs_pipe_def)
  show "case piperead kl uout addr n pi m of (st, pi', m', ws) \<Rightarrow>
      (if queue (abs_pipe pi) = [] \<and> wopen (abs_pipe pi)
       then (if kl 0 then Done (-1) else Asleep Chan_nread 0, abs_pipe pi, m)
       else aread uout addr 0 (nat n) (abs_pipe pi) m) = (st, abs_pipe pi', m') \<and> pipe_ok pi'"
    unfolding e w using piperead_from_refines [OF assms, of uout addr 0 "nat n" m] assms
    by (auto simp: piperead_def split: prod.splits)
qed

section \<open>Everything that can happen to a pipe\<close>

text \<open>
  The pipe with the bytes accepted from writers and the bytes handed to readers so far. Any
  process may run a segment of a write (from any index, also when resumed), a read, or close an
  end; \<open>src\<close> is the writer's user memory, \<open>None\<close> where \<open>copyin\<close> fails.
\<close>

definition log_in :: "(u64 \<Rightarrow> u8 option) \<Rightarrow> u64 \<Rightarrow> u8 list \<Rightarrow> u8 option \<times> u8 list" where
  "log_in src a l = (case src a of None \<Rightarrow> (None, l) | Some c \<Rightarrow> (Some c, l @ [c]))"

definition log_out :: "u64 \<Rightarrow> u8 \<Rightarrow> u8 list \<Rightarrow> bool \<times> u8 list" where
  "log_out a c l = (True, l @ [c])"

inductive pipe_reach :: "pipe \<Rightarrow> u8 list \<Rightarrow> u8 list \<Rightarrow> bool" where
  start: "length junk = PIPESIZE \<Longrightarrow> pipe_reach (pipe_init junk) [] []"
| write_seg: "pipe_reach pi i out \<Longrightarrow>
    pipewrite_from kl (log_in src) addr j k pi i = (st, pi', i', ws) \<Longrightarrow> pipe_reach pi' i' out"
| read_seg: "pipe_reach pi i out \<Longrightarrow>
    piperead kl log_out addr n pi out = (st, pi', out', ws) \<Longrightarrow> pipe_reach pi' i out'"
| close_end: "pipe_reach pi i out \<Longrightarrow> pipeclose w pi = (pi', fr, ch) \<Longrightarrow> pipe_reach pi' i out"

lemma awrite_log:
  "awrite kl (log_in src) addr j k a l = (st, a', l') \<Longrightarrow> \<exists>bs. l' = l @ bs \<and> queue a' = queue a @ bs"
proof (induction k arbitrary: j a l)
  case (Suc k)
  show ?case
  proof (cases "ropen a \<and> \<not> kl j \<and> length (queue a) \<noteq> PIPESIZE")
    case True
    show ?thesis
    proof (cases "src (addr + of_nat j)")
      case None
      then show ?thesis using Suc.prems True by (auto simp: log_in_def)
    next
      case (Some c)
      then have u: "log_in src (addr + of_nat j) l = (Some c, l @ [c])" by (simp add: log_in_def)
      have "awrite kl (log_in src) addr (Suc j) k (a\<lparr>queue := queue a @ [c]\<rparr>) (l @ [c]) = (st, a', l')"
        using Suc.prems True u by simp
      from Suc.IH [OF this] show ?thesis by auto
    qed
  qed (use Suc.prems in \<open>auto split: if_splits\<close>)
qed simp

lemma aread_log:
  "aread log_out addr j k a l = (st, a', l') \<Longrightarrow> \<exists>bs. l' = l @ bs \<and> queue a = bs @ queue a'"
proof (induction k arbitrary: j a l)
  case (Suc k)
  show ?case
  proof (cases "queue a")
    case (Cons c rest)
    have u: "log_out (addr + of_nat j) c l = (True, l @ [c])" by (simp add: log_out_def)
    have "aread log_out addr (Suc j) k (a\<lparr>queue := rest\<rparr>) (l @ [c]) = (st, a', l')"
      using Suc.prems Cons u by simp
    from Suc.IH [OF this] show ?thesis using Cons by auto
  qed (use Suc.prems in auto)
qed simp

lemma pipe_reach_ok: "pipe_reach pi i out \<Longrightarrow> pipe_ok pi \<and> i = out @ contents pi"
proof (induction rule: pipe_reach.induct)
  case (start junk)
  then show ?case by (simp add: pipe_ok_def pipe_init_def contents_def)
next
  case (write_seg pi i out kl src addr j k st pi' i' ws)
  then have "awrite kl (log_in src) addr j k (abs_pipe pi) i = (st, abs_pipe pi', i')" "pipe_ok pi'"
    using pipewrite_from_refines [OF _ write_seg.hyps(2)] by auto
  moreover obtain bs where "i' = i @ bs" "queue (abs_pipe pi') = queue (abs_pipe pi) @ bs"
    using awrite_log [OF calculation(1)] by blast
  ultimately show ?case using write_seg.IH by (simp add: abs_pipe_def)
next
  case (read_seg pi i out kl addr n st pi' out' ws)
  show ?case
  proof (cases "nread pi = nwrite pi \<and> writeopen pi \<noteq> 0")
    case False
    then have "piperead_from log_out addr 0 (nat n) pi out = (st, pi', out', ws)"
      using read_seg.hyps by (auto simp: piperead_def)
    from piperead_from_refines [OF _ this]
    have "aread log_out addr 0 (nat n) (abs_pipe pi) out = (st, abs_pipe pi', out')" "pipe_ok pi'"
      using read_seg.IH by auto
    moreover obtain bs where "out' = out @ bs" "queue (abs_pipe pi) = bs @ queue (abs_pipe pi')"
      using aread_log [OF calculation(1)] by blast
    ultimately show ?thesis using read_seg.IH by (simp add: abs_pipe_def)
  qed (use read_seg in \<open>auto simp: piperead_def split: if_splits\<close>)
next
  case (close_end pi i out w pi' fr ch)
  then show ?case by (auto simp: pipeclose_def pipe_ok_def contents_def Let_def split: if_splits)
qed

text \<open>
  Whatever writers, readers and closers do, in any interleaving of their segments, the bytes
  accepted from writers are the bytes delivered to readers followed by the bytes in the pipe: a
  pipe loses, duplicates and reorders nothing, and never holds more than \<open>PIPESIZE\<close> bytes.
\<close>

theorem pipe_fifo:
  assumes "pipe_reach pi i out"
  shows "i = out @ contents pi \<and> length (contents pi) \<le> PIPESIZE"
  using pipe_reach_ok [OF assms] pipe_queue.bounded by blast




section \<open>Concrete instances\<close>

theorem pipe_refines_queue_witness:
  "case pipewrite (\<lambda>_. False) (\<lambda>a m. (Some (ucast a), m)) 5 3
      \<lparr>data = replicate 512 0, nread = - 2, nwrite = - 1, readopen = 1, writeopen = 1\<rparr> () of
     (st, pi', m', ws) \<Rightarrow> st = Done 3 \<and> queue (abs_pipe pi') = [0, 5, 6, 7]"
proof -
  let ?p = "\<lparr>data = replicate 512 0, nread = - 2, nwrite = - 1, readopen = 1, writeopen = 1\<rparr>"
  have 3: "nat 3 = Suc (Suc (Suc 0))" by simp
  have ok: "pipe_ok ?p" by (simp add: pipe_ok_def)
  have "contents ?p = [0]" by (simp add: contents_def ring_def upt_rec)
  then have "awrite (\<lambda>_. False) (\<lambda>a m. (Some (ucast a), m)) 5 0 (nat 3) (abs_pipe ?p) () =
      (Done 3, (abs_pipe ?p)\<lparr>queue := [0, 5, 6, 7]\<rparr>, ())"
    unfolding 3 by (simp add: abs_pipe_def)
  moreover obtain st pi' m' ws where
    r: "pipewrite (\<lambda>_. False) (\<lambda>a m. (Some (ucast a), m)) 5 3 ?p () = (st, pi', m', ws)"
    by (metis surj_pair)
  moreover have "awrite (\<lambda>_. False) (\<lambda>a m. (Some (ucast a), m)) 5 0 (nat 3) (abs_pipe ?p) () = (st, abs_pipe pi', m')"
    using pipe_refines_queue [OF ok, of "\<lambda>_. False" "\<lambda>a m. (Some (ucast a), m)" 5 3 "()"]
    unfolding r by simp
  ultimately have "st = Done 3" "abs_pipe pi' = (abs_pipe ?p)\<lparr>queue := [0, 5, 6, 7]\<rparr>" by auto
  then show ?thesis using r by simp
qed

theorem pipe_fifo_witness:
  "\<exists>pi. pipe_reach pi [1, 2] [] \<and> contents pi = [1, 2]"
proof -
  let ?p = "pipe_init (replicate 512 0)"
  have "pipe_reach ?p [] []" by (rule pipe_reach.start) simp
  moreover have "\<exists>st pi' ws. pipewrite_from (\<lambda>_. False) (log_in (\<lambda>a. Some (ucast a))) 1 0 2 ?p [] = (st, pi', [1, 2], ws)"
    unfolding Suc_1 [symmetric] by (simp add: log_in_def pipe_init_def)
  ultimately obtain pi' where r: "pipe_reach pi' [1, 2] []" using pipe_reach.write_seg by blast
  then show ?thesis using pipe_fifo [OF r] by auto
qed


end
