(* ===== verification/Console.thy ===== *)
theory Console
  imports Pipe
begin

text \<open>
  \<^verbatim>\<open>kernel/console.c\<close> and \<^verbatim>\<open>kernel/uart.c\<close>: the line discipline of console
  input and the transmit path. The input buffer is a ring with three counters: \<open>r\<close> to \<open>w\<close>
  holds committed lines, \<open>w\<close> to \<open>e\<close> the line being edited. As in the pipe, a call that
  may sleep is a sequence of atomic segments.
\<close>

section \<open>Definitions: the UART\<close>

text \<open>
  The driver's \<open>tx_busy\<close>, the bytes written to the transmit register so far, the input bytes
  waiting in the device, and whether the device reports an idle transmitter.
\<close>

record uart =
  tx_busy :: int
  thr :: "u8 list"
  rhr :: "u8 list"
  tx_idle :: bool

text \<open>\<open>uartinit\<close> as the sequence of its register writes.\<close>

definition uartinit :: "(nat \<times> u8) list" where
  "uartinit = [(1, 0), (3, 0x80), (0, 3), (1, 0), (3, 3), (2, 1 OR 6), (1, 2 OR 1)]"

fun uartwrite_from :: "u8 list \<Rightarrow> nat \<Rightarrow> uart \<Rightarrow> nat option \<times> uart" where
  "uartwrite_from [] i u = (None, u)"
| "uartwrite_from (b # bs) i u =
     (if tx_busy u \<noteq> 0 then (Some i, u)
      else uartwrite_from bs (Suc i) (u\<lparr>thr := thr u @ [b], tx_busy := 1\<rparr>))"

text \<open>\<open>None\<close>: returned; \<open>Some i\<close>: asleep on \<open>tx_chan\<close> with byte \<open>i\<close> next.\<close>

definition uartwrite :: "u8 list \<Rightarrow> uart \<Rightarrow> nat option \<times> uart" where
  "uartwrite buf u = uartwrite_from buf 0 u"

definition uartputc_sync :: "int \<Rightarrow> uart \<Rightarrow> uart" where
  "uartputc_sync c u = u\<lparr>thr := thr u @ [of_int c]\<rparr>"

definition uartgetc :: "uart \<Rightarrow> int \<times> uart" where
  "uartgetc u = (case rhr u of [] \<Rightarrow> (-1, u) | b # bs \<Rightarrow> (uint b, u\<lparr>rhr := bs\<rparr>))"

section \<open>Definitions: the console\<close>

abbreviation (input) BACKSPACE :: int where "BACKSPACE \<equiv> 0x100"
abbreviation (input) INPUT_BUF_SIZE :: nat where "INPUT_BUF_SIZE \<equiv> 128"

record cons =
  buf :: "u8 list"
  rix :: u32
  wix :: u32
  eix :: u32

definition consputc :: "int \<Rightarrow> uart \<Rightarrow> uart" where
  "consputc c u =
     (if c = BACKSPACE then uartputc_sync 8 (uartputc_sync 32 (uartputc_sync 8 u)) else uartputc_sync c u)"

text \<open>The kill-line loop; \<open>e - w\<close> iterations at most.\<close>

fun kill_loop :: "nat \<Rightarrow> cons \<Rightarrow> uart \<Rightarrow> cons \<times> uart" where
  "kill_loop 0 cs u = (cs, u)"
| "kill_loop (Suc k) cs u =
     (if eix cs \<noteq> wix cs \<and> buf cs ! unat ((eix cs - 1) mod 128) \<noteq> 10
      then kill_loop k (cs\<lparr>eix := eix cs - 1\<rparr>) (consputc BACKSPACE u)
      else (cs, u))"

datatype cevent = Procdump | Wake_readers

definition consoleintr :: "int \<Rightarrow> cons \<Rightarrow> uart \<Rightarrow> cons \<times> uart \<times> cevent list" where
  "consoleintr c cs u =
     (if c = 16 then (cs, u, [Procdump])
      else if c = 21
      then (case kill_loop (unat (eix cs - wix cs)) cs u of (cs1, u1) \<Rightarrow> (cs1, u1, []))
      else if c = 8 \<or> c = 127
      then (if eix cs \<noteq> wix cs then (cs\<lparr>eix := eix cs - 1\<rparr>, consputc BACKSPACE u, []) else (cs, u, []))
      else if c \<noteq> 0 \<and> eix cs - rix cs < 128
      then let c1 = (if c = 13 then 10 else c);
               u1 = consputc c1 u;
               cs1 = cs\<lparr>buf := (buf cs)[unat (eix cs mod 128) := of_int c1], eix := eix cs + 1\<rparr>
           in if c1 = 10 \<or> c1 = 4 \<or> eix cs1 - rix cs1 = 128
              then (cs1\<lparr>wix := eix cs1\<rparr>, u1, [Wake_readers])
              else (cs1, u1, [])
      else (cs, u, []))"

text \<open>\<open>uartintr\<close>: the transmitter part, then every waiting input byte.\<close>

fun uartintr_input :: "nat \<Rightarrow> cons \<Rightarrow> uart \<Rightarrow> cons \<times> uart \<times> cevent list" where
  "uartintr_input 0 cs u = (cs, u, [])"
| "uartintr_input (Suc k) cs u =
     (case uartgetc u of (c, u1) \<Rightarrow>
        if c = -1 then (cs, u1, [])
        else case consoleintr c cs u1 of (cs2, u2, ev) \<Rightarrow>
          case uartintr_input k cs2 u2 of (cs3, u3, ev3) \<Rightarrow> (cs3, u3, ev @ ev3))"

definition uartintr :: "cons \<Rightarrow> uart \<Rightarrow> cons \<times> uart \<times> cevent list" where
  "uartintr cs u =
     (let u1 = (if tx_idle u then u\<lparr>tx_busy := 0\<rparr> else u)
      in uartintr_input (Suc (length (rhr u1))) cs u1)"

text \<open>A segment of \<open>consoleread\<close>: \<open>i\<close> bytes done, \<open>k\<close> still wanted.\<close>

datatype cstatus = CAsleep nat | CDone int

fun consoleread_from :: "(nat \<Rightarrow> bool) \<Rightarrow> (u64 \<Rightarrow> u8 \<Rightarrow> 'm \<Rightarrow> bool \<times> 'm) \<Rightarrow> u64 \<Rightarrow> nat \<Rightarrow> nat \<Rightarrow>
    cons \<Rightarrow> 'm \<Rightarrow> cstatus \<times> cons \<times> 'm" where
  "consoleread_from kl uout dst i 0 cs m = (CDone (int i), cs, m)"
| "consoleread_from kl uout dst i (Suc k) cs m =
     (if rix cs = wix cs
      then if kl i then (CDone (-1), cs, m) else (CAsleep i, cs, m)
      else let c = buf cs ! unat (rix cs mod 128);
               cs1 = cs\<lparr>rix := rix cs + 1\<rparr>
           in if c = 4
              then (CDone (int i), if 0 < i then cs1\<lparr>rix := rix cs1 - 1\<rparr> else cs1, m)
              else case uout (dst + of_nat i) c m of
                (False, m1) \<Rightarrow> (CDone (int i), cs1, m1)
              | (True, m1) \<Rightarrow>
                  if c = 10 then (CDone (int (Suc i)), cs1, m1)
                  else consoleread_from kl uout dst (Suc i) k cs1 m1)"

definition consoleread :: "(nat \<Rightarrow> bool) \<Rightarrow> (u64 \<Rightarrow> u8 \<Rightarrow> 'm \<Rightarrow> bool \<times> 'm) \<Rightarrow> u64 \<Rightarrow> int \<Rightarrow>
    cons \<Rightarrow> 'm \<Rightarrow> cstatus \<times> cons \<times> 'm" where
  "consoleread kl uout dst n cs m = consoleread_from kl uout dst 0 (nat n) cs m"

text \<open>
  \<open>consolewrite\<close> hands the user buffer to \<open>uartwrite\<close> in chunks of at most 32 bytes: the
  chunks, up to the first that \<open>either_copyin\<close> (parameter \<open>ucopy\<close>) fails to read, and the
  value returned.
\<close>

function consolewrite_chunks :: "(u64 \<Rightarrow> nat \<Rightarrow> u8 list option) \<Rightarrow> u64 \<Rightarrow> nat \<Rightarrow> nat \<Rightarrow> u8 list list \<times> nat" where
  "consolewrite_chunks ucopy src i n =
     (if i < n
      then let nn = min 32 (n - i)
           in case ucopy (src + of_nat i) nn of
                None \<Rightarrow> ([], i)
              | Some bs \<Rightarrow> (case consolewrite_chunks ucopy src (i + nn) n of (cs, r) \<Rightarrow> (bs # cs, r))
      else ([], i))"
  by pat_completeness auto
termination by (relation "measure (\<lambda>(_, _, i, n). n - i)") auto

definition consolewrite :: "(u64 \<Rightarrow> nat \<Rightarrow> u8 list option) \<Rightarrow> u64 \<Rightarrow> int \<Rightarrow> u8 list list \<times> int" where
  "consolewrite ucopy src n =
     (case consolewrite_chunks ucopy src 0 (nat n) of (cs, r) \<Rightarrow> (cs, int r))"

declare consolewrite_chunks.simps [simp del]

section \<open>The line discipline\<close>

text \<open>What the console means: the committed bytes and the line being edited.\<close>

definition committed :: "cons \<Rightarrow> u8 list" where
  "committed cs = ring INPUT_BUF_SIZE (buf cs) (rix cs) (wix cs)"

definition editing :: "cons \<Rightarrow> u8 list" where
  "editing cs = ring INPUT_BUF_SIZE (buf cs) (wix cs) (eix cs)"

definition cons_ok :: "cons \<Rightarrow> bool" where
  "cons_ok cs \<longleftrightarrow> length (buf cs) = INPUT_BUF_SIZE \<and> unat (wix cs - rix cs) \<le> unat (eix cs - rix cs)
     \<and> unat (eix cs - rix cs) \<le> INPUT_BUF_SIZE \<and> 10 \<notin> set (editing cs)"

definition ldisc :: "int \<Rightarrow> u8 list \<times> u8 list \<Rightarrow> u8 list \<times> u8 list" where
  "ldisc c l = (case l of (d, ed) \<Rightarrow>
     if c = 16 then (d, ed)
     else if c = 21 then (d, [])
     else if c = 8 \<or> c = 127 then (d, butlast ed)
     else if c \<noteq> 0 \<and> length d + length ed < INPUT_BUF_SIZE
     then let ed1 = ed @ [of_int (if c = 13 then 10 else c)]
          in if c = 13 \<or> c = 10 \<or> c = 4 \<or> length d + length ed1 = INPUT_BUF_SIZE
             then (d @ ed1, []) else (d, ed1)
     else (d, ed))"

lemma dvd128: "(128 :: nat) dvd 2 ^ 32"
  by (simp add: dvd_def exI [of _ "2 ^ 25"])

lemma unat_mod128: "unat (x mod 128 :: u32) = unat x mod 128"
  by (simp add: unat_mod_distrib)

lemma ew_nat: "unat (wix cs - rix cs) \<le> unat (eix cs - rix cs) \<Longrightarrow>
   unat (eix cs - wix cs) = unat (eix cs - rix cs) - unat (wix cs - rix cs)"
proof -
  assume a: "unat (wix cs - rix cs) \<le> unat (eix cs - rix cs)"
  have "eix cs - wix cs = (eix cs - rix cs) - (wix cs - rix cs)" by simp
  then show ?thesis using a unat_sub [of "wix cs - rix cs" "eix cs - rix cs"] by (simp add: word_le_nat_alt)
qed

lemma total_bytes: "cons_ok cs \<Longrightarrow> length (committed cs) + length (editing cs) = unat (eix cs - rix cs)"
  using ew_nat [of cs] by (simp add: cons_ok_def committed_def editing_def)

lemma store_char:
  fixes b :: u8
  assumes ok: "cons_ok cs" and lt: "unat (eix cs - rix cs) < 128"
  defines "cs1 \<equiv> cs\<lparr>buf := (buf cs)[unat (eix cs mod 128) := b], eix := eix cs + 1\<rparr>"
  shows "committed cs1 = committed cs" "editing cs1 = editing cs @ [b]"
    "unat (eix cs1 - rix cs1) = Suc (unat (eix cs - rix cs))"
    "length (buf cs1) = 128" "unat (wix cs1 - rix cs1) \<le> unat (eix cs1 - rix cs1)"
proof -
  have len: "length (buf cs) = 128" and le: "unat (wix cs - rix cs) \<le> unat (eix cs - rix cs)"
    using ok by (auto simp: cons_ok_def)
  have lt2: "unat (eix cs - wix cs) < 128" using ew_nat [OF le] lt by simp
  show e1: "unat (eix cs1 - rix cs1) = Suc (unat (eix cs - rix cs))"
    using unat_Suc_diff [of 128 "eix cs" "rix cs"] lt by (simp add: cs1_def)
  show "length (buf cs1) = 128" using len by (simp add: cs1_def)
  show le1: "unat (wix cs1 - rix cs1) \<le> unat (eix cs1 - rix cs1)" using e1 le by (simp add: cs1_def)
  have put: "ring 128 (buf cs1) x (eix cs1) = ring 128 (buf cs) x (eix cs) @ [b]"
    if "unat (eix cs - x) < 128" for x
    using ring_put [OF dvd128 _ len that, of b] by (simp add: cs1_def unat_mod128)
  show ed: "editing cs1 = editing cs @ [b]" using put [OF lt2] by (simp add: editing_def) (simp add: cs1_def)
  have "ring 128 (buf cs1) (rix cs) (eix cs1) = committed cs1 @ editing cs1"
    using ring_split [OF le1] by (simp add: committed_def editing_def) (simp add: cs1_def)
  moreover have "ring 128 (buf cs) (rix cs) (eix cs) = committed cs @ editing cs"
    using ring_split [OF le] by (simp add: committed_def editing_def)
  ultimately show "committed cs1 = committed cs" using put [OF lt] ed by simp
qed

lemma erase_char:
  assumes ok: "cons_ok cs" and ne: "eix cs \<noteq> wix cs"
  defines "cs1 \<equiv> cs\<lparr>eix := eix cs - 1\<rparr>"
  shows "cons_ok cs1" "committed cs1 = committed cs" "editing cs1 = butlast (editing cs)"
    "unat (eix cs - wix cs) = Suc (unat (eix cs1 - wix cs1))"
    "buf cs ! unat ((eix cs - 1) mod 128) \<noteq> 10"
proof -
  have le: "unat (wix cs - rix cs) \<le> unat (eix cs - rix cs)" using ok by (simp add: cons_ok_def)
  note u = ring_unput [of "wix cs" "eix cs" 128 "buf cs", OF ne [symmetric]]
  show ed: "editing cs1 = butlast (editing cs)" using u(1) by (simp add: editing_def cs1_def)
  show "committed cs1 = committed cs" by (simp add: committed_def cs1_def)
  have "editing cs \<noteq> []" using ne by (simp add: editing_def)
  then have l: "length (editing cs) = Suc (length (editing cs1))" using ed by simp
  then show "unat (eix cs - wix cs) = Suc (unat (eix cs1 - wix cs1))" by (simp add: editing_def)
  have "last (editing cs) \<in> set (editing cs)" using \<open>editing cs \<noteq> []\<close> by simp
  then show "buf cs ! unat ((eix cs - 1) mod 128) \<noteq> 10"
    using u(2) ok by (auto simp: cons_ok_def editing_def unat_mod128)
  have "10 \<notin> set (editing cs1)" using ok ed in_set_butlastD by (fastforce simp: cons_ok_def)
  moreover have "unat (eix cs1 - rix cs1) = unat (eix cs - rix cs) - 1"
  proof -
    have "rix cs \<noteq> eix cs" using ne le by (auto simp: unat_eq_zero)
    then show ?thesis using unat_minus_one [of "eix cs - rix cs"] by (simp add: cs1_def diff_right_commute)
  qed
  moreover have "unat (wix cs - rix cs) < unat (eix cs - rix cs)"
    using ew_nat [OF le] l le by (simp add: editing_def)
  ultimately show "cons_ok cs1" using ok by (auto simp: cons_ok_def cs1_def)
qed

lemma kill_loop_spec:
  "cons_ok cs \<Longrightarrow> k = unat (eix cs - wix cs) \<Longrightarrow>
     cons_ok (fst (kill_loop k cs u)) \<and> committed (fst (kill_loop k cs u)) = committed cs
     \<and> editing (fst (kill_loop k cs u)) = []"
proof (induction k arbitrary: cs u)
  case 0
  then show ?case by (simp add: editing_def unat_eq_zero)
next
  case (Suc k)
  then have ne: "eix cs \<noteq> wix cs" by auto
  note e = erase_char [OF Suc.prems(1) ne]
  then show ?case using Suc.IH [OF e(1)] Suc.prems(2) ne by auto
qed

text \<open>
  C33. The console implements the line discipline: on every input byte the committed and the edited
  bytes change as the abstract discipline says (erase, kill, carriage return, end of file, forced
  commit when the buffer is full), never more than \<open>INPUT_BUF_SIZE\<close> bytes are held, and the
  counters keep their order across wrap-around. Readers are woken exactly when bytes are committed.
\<close>

theorem consoleintr_line_discipline:
  assumes ok: "cons_ok cs" and c: "0 \<le> c" "c < 256"
  shows "case consoleintr c cs u of (cs', u', ev) \<Rightarrow>
    cons_ok cs' \<and> (committed cs', editing cs') = ldisc c (committed cs, editing cs)
    \<and> (Wake_readers \<in> set ev \<longleftrightarrow> committed cs' \<noteq> committed cs)"
proof -
  note T = total_bytes [OF ok]
  consider "c = 16" | "c = 21" | "c = 8 \<or> c = 127" |
    (chr) "c \<noteq> 16" "c \<noteq> 21" "c \<noteq> 8" "c \<noteq> 127" by blast
  then show ?thesis
  proof cases
    assume "c = 16"
    then show ?thesis using ok by (simp add: consoleintr_def ldisc_def)
  next
    assume "c = 21"
    then show ?thesis using kill_loop_spec [OF ok refl, of u]
      by (auto simp: consoleintr_def ldisc_def split: prod.split)
  next
    assume c8: "c = 8 \<or> c = 127"
    show ?thesis
    proof (cases "eix cs = wix cs")
      case True
      then have "editing cs = []" by (simp add: editing_def)
      then show ?thesis using c8 ok True by (auto simp: consoleintr_def ldisc_def)
    next
      case False
      then show ?thesis using c8 erase_char [OF ok False] by (auto simp: consoleintr_def ldisc_def)
    qed
  next
    case chr
    show ?thesis
    proof (cases "c \<noteq> 0 \<and> unat (eix cs - rix cs) < 128")
      case False
      then have "\<not> (c \<noteq> 0 \<and> eix cs - rix cs < 128)" by (simp add: word_less_nat_alt)
      then show ?thesis using chr False T ok by (auto simp: consoleintr_def ldisc_def)
    next
      case True
      let ?c1 = "if c = 13 then 10 else c"
      let ?cs1 = "cs\<lparr>buf := (buf cs)[unat (eix cs mod 128) := of_int ?c1], eix := eix cs + 1\<rparr>"
      note st = store_char [OF ok conjunct2 [OF True], of "of_int ?c1"]
      have lt: "eix cs - rix cs < 128" using True by (simp add: word_less_nat_alt)
      have full: "eix ?cs1 - rix ?cs1 = 128 \<longleftrightarrow> length (committed cs) + length (editing cs) + 1 = 128"
        using st(3) T by (simp add: word_unat_eq_iff [of _ 128])
      let ?fin = "c = 13 \<or> c = 10 \<or> c = 4 \<or> length (committed cs) + length (editing cs) + 1 = 128"
      have run: "consoleintr c cs u = (if ?fin then (?cs1\<lparr>wix := eix ?cs1\<rparr>, consputc ?c1 u, [Wake_readers])
          else (?cs1, consputc ?c1 u, []))"
        using chr True lt full by (auto simp: consoleintr_def Let_def)
      have ld: "ldisc c (committed cs, editing cs) =
          (if ?fin then (committed cs @ editing cs @ [of_int ?c1], []) else (committed cs, editing cs @ [of_int ?c1]))"
        using chr True T by (auto simp: ldisc_def Let_def)
      show ?thesis
      proof (cases ?fin)
        case e: True
        have "ring 128 (buf ?cs1) (rix ?cs1) (eix ?cs1) = committed ?cs1 @ editing ?cs1"
          using ring_split [OF st(5)] by (simp only: committed_def editing_def)
        then have "committed (?cs1\<lparr>wix := eix ?cs1\<rparr>) = committed cs @ editing cs @ [of_int ?c1]"
          using st(1,2) by (simp add: committed_def [of "_\<lparr>wix := _\<rparr>"])
        moreover have "editing (?cs1\<lparr>wix := eix ?cs1\<rparr>) = []" by (simp add: editing_def)
        moreover have "cons_ok (?cs1\<lparr>wix := eix ?cs1\<rparr>)"
          using st(3,4) True calculation(2) by (simp add: cons_ok_def)
        ultimately show ?thesis unfolding run ld if_P [OF e] by simp
      next
        case ne: False
        have "of_int c \<noteq> (10 :: u8)" using ne c by (simp add: word_uint_eq_iff uint_word_of_int)
        then have "cons_ok ?cs1" using st ok True ne by (simp add: cons_ok_def)
        then show ?thesis unfolding run ld if_not_P [OF ne] using st(1,2) by simp
      qed
    qed
  qed
qed

section \<open>Reading lines\<close>

text \<open>\<open>consoleread\<close> over the list of committed bytes.\<close>

fun aread_line :: "(nat \<Rightarrow> bool) \<Rightarrow> (u64 \<Rightarrow> u8 \<Rightarrow> 'm \<Rightarrow> bool \<times> 'm) \<Rightarrow> u64 \<Rightarrow> nat \<Rightarrow> nat \<Rightarrow>
    u8 list \<Rightarrow> 'm \<Rightarrow> cstatus \<times> u8 list \<times> 'm" where
  "aread_line kl uout dst i 0 d m = (CDone (int i), d, m)"
| "aread_line kl uout dst i (Suc k) [] m = (if kl i then CDone (-1) else CAsleep i, [], m)"
| "aread_line kl uout dst i (Suc k) (c # d) m =
     (if c = 4 then (CDone (int i), if 0 < i then c # d else d, m)
      else case uout (dst + of_nat i) c m of
        (False, m1) \<Rightarrow> (CDone (int i), d, m1)
      | (True, m1) \<Rightarrow> if c = 10 then (CDone (int (Suc i)), d, m1)
                      else aread_line kl uout dst (Suc i) k d m1)"

lemma take_char:
  assumes ok: "cons_ok cs" and ne: "rix cs \<noteq> wix cs"
  defines "cs1 \<equiv> cs\<lparr>rix := rix cs + 1\<rparr>"
  shows "cons_ok cs1" "committed cs = buf cs ! unat (rix cs mod 128) # committed cs1" "editing cs1 = editing cs"
proof -
  show c: "committed cs = buf cs ! unat (rix cs mod 128) # committed cs1"
    using ring_get [OF ne] by (simp add: committed_def cs1_def unat_mod128)
  show e: "editing cs1 = editing cs" by (simp add: editing_def cs1_def)
  have "rix cs \<noteq> eix cs" using ok ne by (auto simp: cons_ok_def unat_eq_zero)
  then have "unat (eix cs1 - rix cs1) = unat (eix cs - rix cs) - 1"
      "unat (wix cs1 - rix cs1) = unat (wix cs - rix cs) - 1"
    using ne unat_minus_one [of "eix cs - rix cs"] unat_minus_one [of "wix cs - rix cs"]
    by (simp_all add: cs1_def diff_diff_eq)
  then show "cons_ok cs1" using ok e by (auto simp: cons_ok_def cs1_def)
qed

lemma consoleread_from_refines:
  "cons_ok cs \<Longrightarrow> consoleread_from kl uout dst i k cs m = (st, cs', m') \<Longrightarrow>
     aread_line kl uout dst i k (committed cs) m = (st, committed cs', m')
     \<and> cons_ok cs' \<and> editing cs' = editing cs"
proof (induction k arbitrary: i cs m)
  case (Suc k)
  show ?case
  proof (cases "rix cs = wix cs")
    case True
    then have "committed cs = []" by (simp add: committed_def)
    then show ?thesis using Suc.prems True by (auto split: if_splits)
  next
    case False
    note t = take_char [OF Suc.prems(1) False]
    let ?c = "buf cs ! unat (rix cs mod 128)"
    let ?cs1 = "cs\<lparr>rix := rix cs + 1\<rparr>"
    have bk: "?cs1\<lparr>rix := rix ?cs1 - 1\<rparr> = cs" by simp
    obtain b m1 where u: "uout (dst + of_nat i) ?c m = (b, m1)" by fastforce
    show ?thesis
    proof (cases "?c \<noteq> 4 \<and> b \<and> ?c \<noteq> 10")
      case True
      then have "consoleread_from kl uout dst (Suc i) k ?cs1 m1 = (st, cs', m')"
        using Suc.prems(2) False u by (simp add: Let_def)
      from Suc.IH [OF t(1) this] show ?thesis using t True u by simp
    next
      case no: False
      show ?thesis
        using Suc.prems False no u t bk by (cases b) (auto simp: Let_def split: if_splits)
    qed
  qed
qed simp

lemma aread_line_log:
  "aread_line kl log_out dst i k d l = (st, d', l') \<Longrightarrow>
     \<exists>out eof. l' = l @ out \<and> d = out @ eof @ d' \<and> (eof = [] \<or> eof = [4] \<and> out = [] \<and> i = 0)
       \<and> 10 \<notin> set (butlast out) \<and> 4 \<notin> set out \<and> length out \<le> k
       \<and> (case st of CDone r \<Rightarrow> r = -1 \<or> r = int (i + length out) | CAsleep j \<Rightarrow> j = i + length out \<and> d' = [])"
proof (induction kl "log_out :: u64 \<Rightarrow> u8 \<Rightarrow> u8 list \<Rightarrow> bool \<times> u8 list" dst i k d l rule: aread_line.induct)
  case (3 kl dst i k c d l)
  show ?case
  proof (cases "c = 4 \<or> c = 10")
    case True
    then show ?thesis using 3(2) by (auto simp: log_out_def split: if_splits)
  next
    case False
    have u: "log_out (dst + of_nat i) c l = (True, l @ [c])" by (simp add: log_out_def)
    have "aread_line kl log_out dst (Suc i) k d (l @ [c]) = (st, d', l')" using 3(2) False u by simp
    from 3(1) [OF _ u [symmetric] _ _ this] False obtain out eof where
      ob: "l' = (l @ [c]) @ out" "d = out @ eof @ d'" "eof = []" "10 \<notin> set (butlast out)" "4 \<notin> set out"
        "length out \<le> k"
        "case st of CDone r \<Rightarrow> r = -1 \<or> r = int (Suc i + length out) | CAsleep j \<Rightarrow> j = Suc i + length out \<and> d' = []"
      by auto
    then show ?thesis using False
      by (intro exI [of _ "c # out"] exI [of _ "[]"]) (auto split: cstatus.splits)
  qed
qed (auto split: if_splits)

text \<open>
  A read of the console takes a prefix of the committed bytes in order, at most the number
  asked for and at most one line; an end-of-file mark ends the read, is consumed only when the read
  returns nothing else, and is never delivered. The line being edited is not visible to readers.
\<close>

theorem consoleread_returns_line:
  assumes "cons_ok cs" "consoleread kl log_out dst n cs [] = (st, cs', out)"
  shows "cons_ok cs' \<and> editing cs' = editing cs \<and>
    (\<exists>eof. committed cs = out @ eof @ committed cs' \<and> (eof = [] \<or> eof = [4] \<and> out = []))
    \<and> 10 \<notin> set (butlast out) \<and> 4 \<notin> set out \<and> length out \<le> nat n
    \<and> (case st of CDone r \<Rightarrow> r = -1 \<or> r = int (length out)
       | CAsleep j \<Rightarrow> j = length out \<and> committed cs' = [])"
proof -
  have r: "aread_line kl log_out dst 0 (nat n) (committed cs) [] = (st, committed cs', out)"
      "cons_ok cs'" "editing cs' = editing cs"
    using consoleread_from_refines [OF assms(1), of kl log_out dst 0 "nat n" "[]"] assms(2)
    by (auto simp: consoleread_def)
  show ?thesis using aread_line_log [OF r(1)] r(2,3) by (cases st) auto
qed

section \<open>Transmission\<close>

lemma uartwrite_from_spec:
  "uartwrite_from bs i u = (r, u') \<Longrightarrow>
     \<exists>sent rest. bs = sent @ rest \<and> thr u' = thr u @ sent \<and> length sent \<le> 1
       \<and> r = (if rest = [] then None else Some (i + length sent)) \<and> rhr u' = rhr u
       \<and> (rest \<noteq> [] \<longrightarrow> tx_busy u' \<noteq> 0) \<and> (tx_busy u \<noteq> 0 \<longrightarrow> sent = [])
       \<and> (tx_busy u = 0 \<and> bs \<noteq> [] \<longrightarrow> length sent = 1)"
proof (cases bs)
  case (Cons b cs)
  assume a: "uartwrite_from bs i u = (r, u')"
  show ?thesis
  proof (cases "tx_busy u = 0")
    case True
    then have "r = (if cs = [] then None else Some (Suc i))" "u' = u\<lparr>thr := thr u @ [b], tx_busy := 1\<rparr>"
      using a Cons by (cases cs; simp)+
    then show ?thesis using Cons True by (intro exI [of _ "[b]"] exI [of _ cs]) simp
  next
    case False
    then show ?thesis using a Cons by (intro exI [of _ "[]"] exI [of _ bs]) auto
  qed
qed auto

lemma consolewrite_chunks_spec:
  "i \<le> n \<Longrightarrow> consolewrite_chunks ucopy src i n = (cs, r) \<Longrightarrow>
     i \<le> r \<and> r \<le> n \<and> (\<forall>c \<in> set cs. \<exists>a k. ucopy a k = Some c \<and> k \<le> 32)"
proof (induction ucopy src i n arbitrary: cs r rule: consolewrite_chunks.induct)
  case (1 ucopy src i n)
  show ?case
  proof (cases "i < n")
    case True
    let ?nn = "min 32 (n - i)"
    show ?thesis
    proof (cases "ucopy (src + of_nat i) ?nn")
      case None
      then show ?thesis using 1(2,3) True by (simp add: consolewrite_chunks.simps [of ucopy src i])
    next
      case (Some bs)
      obtain cs2 r2 where r2: "consolewrite_chunks ucopy src (i + ?nn) n = (cs2, r2)" by fastforce
      have "cs = bs # cs2" "r = r2"
        using 1(3) True Some r2 by (simp_all add: consolewrite_chunks.simps [of ucopy src i])
      moreover have "i + ?nn \<le> r2 \<and> r2 \<le> n \<and> (\<forall>c \<in> set cs2. \<exists>a k. ucopy a k = Some c \<and> k \<le> 32)"
        by (rule 1(1) [OF True refl Some _ r2]) (use True in simp)
      moreover have "\<exists>a k. ucopy a k = Some bs \<and> k \<le> 32" using Some by (metis min.cobounded1)
      ultimately show ?thesis by auto
    qed
  qed (use 1(2,3) in \<open>auto simp: consolewrite_chunks.simps [of ucopy src n n]\<close>)
qed

section \<open>Concrete instances\<close>

text \<open>A console whose read counter is about to wrap, with one committed line and \<open>a\<close> typed.\<close>

definition demo_cons :: cons where
  "demo_cons = \<lparr>buf = (replicate 128 0)[126 := 104, 127 := 10, 0 := 97], rix = - 2, wix = 0, eix = 1\<rparr>"

lemma demo_cons: "cons_ok demo_cons" "committed demo_cons = [104, 10]" "editing demo_cons = [97]"
proof -
  have i: "[0..<2] = [0, 1 :: nat]" "[0..<1] = [0 :: nat]" by (simp_all add: upt_rec)
  have m1: "unat (- 1 :: u32) mod 128 = 127" "unat (- 2 :: u32) mod 128 = 126"
    by (simp_all add: unsigned_minus_1_eq_mask mask_eq_exp_minus_1)
  show c: "committed demo_cons = [104, 10]" by (simp add: committed_def ring_def demo_cons_def i nth_list_update m1)
  show e: "editing demo_cons = [97]" by (simp add: editing_def ring_def demo_cons_def)
  show "cons_ok demo_cons" using e by (simp add: cons_ok_def demo_cons_def)
qed

definition demo_uart :: uart where
  "demo_uart = \<lparr>tx_busy = 0, thr = [], rhr = [], tx_idle = True\<rparr>"

theorem consoleintr_line_discipline_witness:
  "case consoleintr 13 demo_cons demo_uart of (cs', u', ev) \<Rightarrow>
     committed cs' = [104, 10, 97, 10] \<and> editing cs' = [] \<and> Wake_readers \<in> set ev"
  using consoleintr_line_discipline [OF demo_cons(1), of 13 demo_uart]
  by (auto simp: ldisc_def demo_cons Let_def split: prod.splits)

theorem consoleread_returns_line_witness:
  "\<exists>st cs' out. consoleread (\<lambda>_. False) log_out 0 10 demo_cons [] = (st, cs', out)
     \<and> cons_ok cs' \<and> editing cs' = [97]"
proof -
  obtain st cs' out where r: "consoleread (\<lambda>_. False) log_out 0 10 demo_cons [] = (st, cs', out)"
    by (metis surj_pair)
  from consoleread_returns_line [OF demo_cons(1) r] r show ?thesis using demo_cons(3) by auto
qed

end
