(* ===== verification/Locks.thy ===== *)
theory Locks
  imports Kprelude
begin

text \<open>
  \<^verbatim>\<open>kernel/spinlock.c\<close> and \<^verbatim>\<open>kernel/sleeplock.c\<close>. Spin locks are a step
  relation over any number of CPUs at the grain of the single memory operations of
  \<open>acquire\<close> and \<open>release\<close>, because their correctness is about interleavings. The nesting of
  interrupt disabling is per CPU and sequential. Sleep locks are operations under the spin lock
  that protects them.
\<close>

section \<open>Disabling interrupts\<close>

text \<open>The fields of \<open>struct cpu\<close> that matter, and the interrupt-enable bit of the CPU.\<close>

record cpu =
  noff :: int
  intena :: bool
  intr :: bool

definition push_off :: "cpu \<Rightarrow> cpu" where
  "push_off c =
     (let old = intr c;
          c1 = c\<lparr>intr := False\<rparr>;
          c2 = (if noff c1 = 0 then c1\<lparr>intena := old\<rparr> else c1)
      in c2\<lparr>noff := noff c2 + 1\<rparr>)"

definition pop_off :: "cpu \<Rightarrow> cpu outcome" where
  "pop_off c =
     (if intr c then Panic ''pop_off - interruptible''
      else if noff c < 1 then Panic ''pop_off''
      else let c1 = c\<lparr>noff := noff c - 1\<rparr>
           in Ret (if noff c1 = 0 \<and> intena c1 then c1\<lparr>intr := True\<rparr> else c1))"

datatype off_op = Push | Pop

fun run_off :: "off_op list \<Rightarrow> cpu \<Rightarrow> cpu outcome" where
  "run_off [] c = Ret c"
| "run_off (Push # ops) c = run_off ops (push_off c)"
| "run_off (Pop # ops) c = obind (pop_off c) (run_off ops)"

text \<open>A well-nested sequence, as the lock code makes it.\<close>

inductive nested :: "off_op list \<Rightarrow> bool" where
  nested_Nil: "nested []"
| nested_wrap: "nested xs \<Longrightarrow> nested ys \<Longrightarrow> nested (Push # xs @ Pop # ys)"

definition cpu_ok :: "cpu \<Rightarrow> bool" where
  "cpu_ok c \<longleftrightarrow> 0 \<le> noff c \<and> (0 < noff c \<longrightarrow> \<not> intr c)"

lemma run_off_append: "run_off (xs @ ys) c = obind (run_off xs c) (run_off ys)"
proof (induction xs c rule: run_off.induct)
  case (3 ops c)
  then show ?case by (cases "pop_off c") auto
qed auto

lemma nested_run:
  "nested ops \<Longrightarrow> cpu_ok c \<Longrightarrow>
     \<exists>c'. run_off ops c = Ret c' \<and> noff c' = noff c \<and> intr c' = intr c \<and> cpu_ok c'
       \<and> (0 < noff c \<longrightarrow> intena c' = intena c)"
proof (induction arbitrary: c rule: nested.induct)
  case (nested_wrap xs ys)
  have po: "cpu_ok (push_off c)" "noff (push_off c) = noff c + 1" "\<not> intr (push_off c)"
      "intena (push_off c) = (if noff c = 0 then intr c else intena c)"
    using nested_wrap.prems by (auto simp: push_off_def cpu_ok_def Let_def)
  obtain c1 where c1: "run_off xs (push_off c) = Ret c1" "noff c1 = noff c + 1" "\<not> intr c1" "cpu_ok c1"
      "intena c1 = intena (push_off c)"
    using nested_wrap.IH(1) [OF po(1)] po nested_wrap.prems by (auto simp: cpu_ok_def)
  let ?c2 = "c1\<lparr>noff := noff c, intr := (noff c = 0 \<and> intr c)\<rparr>"
  have nn: "0 \<le> noff c" "0 < noff c \<longrightarrow> \<not> intr c" using nested_wrap.prems by (auto simp: cpu_ok_def)
  have "pop_off c1 = Ret ?c2" using c1(2,3,5) po(4) nn by (auto simp: pop_off_def Let_def)
  moreover have "cpu_ok ?c2" "(noff c = 0 \<and> intr c) = intr c" using nn by (auto simp: cpu_ok_def)
  ultimately obtain c2 where c2: "pop_off c1 = Ret c2" "noff c2 = noff c" "intr c2 = intr c" "cpu_ok c2"
      "intena c2 = intena c1"
    by fastforce
  obtain c3 where "run_off ys c2 = Ret c3" "noff c3 = noff c2" "intr c3 = intr c2" "cpu_ok c3"
      "0 < noff c2 \<longrightarrow> intena c3 = intena c2"
    using nested_wrap.IH(2) [OF c2(4)] by auto
  then show ?case using c1 c2 po(4) by (auto simp: run_off_append)
qed simp

section \<open>Spin locks\<close>

text \<open>
  Where a CPU is in \<open>acquire\<close> or \<open>release\<close> of one lock: \<open>Checked\<close> after the
  \<open>holding\<close> test of \<open>acquire\<close> (spinning on the atomic swap), \<open>Swapped\<close> once the swap
  returned 0, \<open>Holding\<close> after \<open>lk->cpu = mycpu()\<close>, \<open>Clearing\<close> after \<open>release\<close>
  set \<open>lk->cpu = 0\<close>. \<open>Stuck\<close> is a panic.
\<close>

datatype lpc = Outside | Checked | Swapped | Holding | Clearing | Stuck

record spinlock =
  locked :: u32
  lkcpu :: "nat option"

definition initlock :: spinlock where
  "initlock = \<lparr>locked = 0, lkcpu = None\<rparr>"

definition holding :: "nat \<Rightarrow> spinlock \<Rightarrow> bool" where
  "holding c lk \<longleftrightarrow> locked lk \<noteq> 0 \<and> lkcpu lk = Some c"

text \<open>\<open>step_cpu c lk pc\<close>: the next memory operation of CPU \<open>c\<close>.\<close>

fun step_cpu :: "nat \<Rightarrow> spinlock \<Rightarrow> lpc \<Rightarrow> spinlock \<times> lpc" where
  "step_cpu c lk Outside = (if holding c lk then (lk, Stuck) else (lk, Checked))"
| "step_cpu c lk Checked =
     (if locked lk \<noteq> 0 then (lk\<lparr>locked := 1\<rparr>, Checked) else (lk\<lparr>locked := 1\<rparr>, Swapped))"
| "step_cpu c lk Swapped = (lk\<lparr>lkcpu := Some c\<rparr>, Holding)"
| "step_cpu c lk Holding = (if \<not> holding c lk then (lk, Stuck) else (lk\<lparr>lkcpu := None\<rparr>, Clearing))"
| "step_cpu c lk Clearing = (lk\<lparr>locked := 0\<rparr>, Outside)"
| "step_cpu c lk Stuck = (lk, Stuck)"

inductive spin_reach :: "spinlock \<Rightarrow> (nat \<Rightarrow> lpc) \<Rightarrow> bool" where
  boot: "spin_reach initlock (\<lambda>_. Outside)"
| tick: "spin_reach lk pc \<Longrightarrow> step_cpu c lk (pc c) = (lk', p') \<Longrightarrow> spin_reach lk' (pc(c := p'))"

definition owns :: "lpc \<Rightarrow> bool" where
  "owns p \<longleftrightarrow> p = Swapped \<or> p = Holding \<or> p = Clearing"

definition owners :: "(nat \<Rightarrow> lpc) \<Rightarrow> nat set" where
  "owners pc = {c. owns (pc c)}"

definition holders :: "(nat \<Rightarrow> lpc) \<Rightarrow> nat set" where
  "holders pc = {c. pc c = Holding}"

definition spin_inv :: "spinlock \<Rightarrow> (nat \<Rightarrow> lpc) \<Rightarrow> bool" where
  "spin_inv lk pc \<longleftrightarrow> (\<forall>c. pc c \<noteq> Stuck) \<and> set_option (lkcpu lk) = holders pc
     \<and> (if locked lk = 0 then owners pc = {} else \<exists>c. owners pc = {c})"

lemma owners_upd: "owners (pc(c := p)) = (if owns p then insert c (owners pc) else owners pc - {c})"
  by (auto simp: owners_def)

lemma holders_upd: "holders (pc(c := p)) = (if p = Holding then insert c (holders pc) else holders pc - {c})"
  by (auto simp: holders_def)

lemma holders_owners: "holders pc \<subseteq> owners pc"
  by (auto simp: holders_def owners_def owns_def)

lemma spin_inv_step:
  assumes inv: "spin_inv lk pc" and st: "step_cpu c lk (pc c) = (lk', p')"
  shows "spin_inv lk' (pc(c := p'))"
proof -
  have ns: "\<And>a. pc a \<noteq> Stuck" and cp: "set_option (lkcpu lk) = holders pc"
    and lk: "if locked lk = 0 then owners pc = {} else \<exists>c. owners pc = {c}"
    using inv by (auto simp: spin_inv_def)
  have c_in: "c \<in> owners pc \<longleftrightarrow> owns (pc c)" "c \<in> holders pc \<longleftrightarrow> pc c = Holding"
    by (auto simp: owners_def holders_def)
  have one: "owns (pc c) \<Longrightarrow> locked lk \<noteq> 0 \<and> owners pc = {c}"
    using lk c_in by (auto split: if_splits)
  have "lkcpu lk = Some c \<longleftrightarrow> pc c = Holding" using cp [symmetric] c_in(2) by (cases "lkcpu lk") auto
  then have hold: "holding c lk \<longleftrightarrow> pc c = Holding" using one by (auto simp: holding_def owns_def)
  note U = spin_inv_def owners_upd holders_upd owns_def
  show ?thesis
  proof (cases "pc c")
    case Outside
    then have "lk' = lk" "p' = Checked" using st hold by auto
    moreover have "c \<notin> owners pc" "c \<notin> holders pc" using c_in Outside by (auto simp: owns_def)
    ultimately show ?thesis using ns cp lk by (simp add: U)
  next
    case Checked
    then have c_out: "c \<notin> owners pc" "c \<notin> holders pc" using c_in by (auto simp: owns_def)
    show ?thesis
    proof (cases "locked lk = 0")
      case True
      then have "p' = Swapped" "lk' = lk\<lparr>locked := 1\<rparr>" "owners pc = {}" using st Checked lk by auto
      then show ?thesis using cp ns c_out by (auto simp: U)
    next
      case False
      then have "p' = Checked" "lk' = lk\<lparr>locked := 1\<rparr>" using st Checked by auto
      then show ?thesis using False ns cp lk c_out by (simp add: U)
    qed
  next
    case Swapped
    then have "p' = Holding" "lk' = lk\<lparr>lkcpu := Some c\<rparr>" using st by auto
    moreover have "locked lk \<noteq> 0" "owners pc = {c}" "holders pc = {}"
      using one holders_owners [of pc] c_in(2) Swapped by (auto simp: owns_def)
    ultimately show ?thesis using ns by (auto simp: U)
  next
    case Holding
    then have "p' = Clearing" "lk' = lk\<lparr>lkcpu := None\<rparr>" using st hold by auto
    moreover have "locked lk \<noteq> 0" "owners pc = {c}" "holders pc = {c}"
      using one holders_owners [of pc] c_in(2) Holding by (auto simp: owns_def)
    ultimately show ?thesis using ns by (auto simp: U)
  next
    case Clearing
    then have "p' = Outside" "lk' = lk\<lparr>locked := 0\<rparr>" using st by auto
    moreover have "owners pc = {c}" "holders pc = {}"
      using one holders_owners [of pc] c_in(2) Clearing by (auto simp: owns_def)
    ultimately show ?thesis using ns cp by (auto simp: U)
  qed (use ns in simp)
qed

lemma spin_reach_inv: "spin_reach lk pc \<Longrightarrow> spin_inv lk pc"
proof (induction rule: spin_reach.induct)
  case boot
  then show ?case by (simp add: spin_inv_def initlock_def owners_def holders_def owns_def)
next
  case (tick lk pc c lk' p')
  then show ?case using spin_inv_step by blast
qed

text \<open>
  C8. For any number of CPUs and any interleaving of the memory operations of \<open>acquire\<close> and
  \<open>release\<close>, at most one CPU is between the successful swap and the final store, and neither the
  \<open>panic("acquire")\<close> nor the \<open>panic("release")\<close> test ever fires.
\<close>

theorem spinlock_mutual_exclusion:
  assumes "spin_reach lk pc"
  shows "(\<forall>c d. owns (pc c) \<longrightarrow> owns (pc d) \<longrightarrow> c = d) \<and> (\<forall>c. pc c \<noteq> Stuck)
    \<and> (\<forall>c. holding c lk \<longleftrightarrow> pc c = Holding)"
proof -
  have inv: "\<And>a. pc a \<noteq> Stuck" "set_option (lkcpu lk) = holders pc"
      "if locked lk = 0 then owners pc = {} else \<exists>c. owners pc = {c}"
    using spin_reach_inv [OF assms] by (auto simp: spin_inv_def)
  have "c = d" if "owns (pc c)" "owns (pc d)" for c d
  proof -
    have "c \<in> owners pc" "d \<in> owners pc" using that by (auto simp: owners_def)
    then show ?thesis using inv(3) by (auto split: if_splits)
  qed
  moreover have "holding c lk \<longleftrightarrow> pc c = Holding" for c
  proof -
    have "c \<in> holders pc \<longleftrightarrow> pc c = Holding" by (simp add: holders_def)
    then have "lkcpu lk = Some c \<longleftrightarrow> pc c = Holding" using inv(2) [symmetric] by (cases "lkcpu lk") auto
    moreover have "pc c = Holding \<Longrightarrow> locked lk \<noteq> 0"
      using inv(3) by (auto simp: owners_def owns_def split: if_splits)
    ultimately show ?thesis by (auto simp: holding_def)
  qed
  ultimately show ?thesis using inv(1) by blast
qed

text \<open>
  A well-nested sequence of \<open>push_off\<close> and \<open>pop_off\<close> never panics and leaves the
  interrupt state and the nesting depth as it found them.
\<close>

theorem push_pop_off_restores:
  assumes "nested ops" "cpu_ok c"
  shows "\<exists>c'. run_off ops c = Ret c' \<and> noff c' = noff c \<and> intr c' = intr c"
  using nested_run [OF assms] by blast

section \<open>Sleep locks\<close>

text \<open>
  What a kernel call does as a whole: it returns, panics, or goes to sleep inside; the state at
  that moment is kept, because other processes run on from it.
\<close>

datatype ('s, 'a) kcall = KRet 'a 's | KPanic string | KSleep 's

fun kbind :: "('s, 'a) kcall \<Rightarrow> ('a \<Rightarrow> 's \<Rightarrow> ('s, 'b) kcall) \<Rightarrow> ('s, 'b) kcall" where
  "kbind (KRet x s) f = f x s"
| "kbind (KPanic e) f = KPanic e"
| "kbind (KSleep s) f = KSleep s"

lemma kbind_eq_KRet [simp]: "kbind m f = KRet y t \<longleftrightarrow> (\<exists>x s. m = KRet x s \<and> f x s = KRet y t)"
  by (cases m) auto

record sleeplock =
  slocked :: u32
  spid :: int

definition initsleeplock :: sleeplock where
  "initsleeplock = \<lparr>slocked = 0, spid = 0\<rparr>"

text \<open>One pass of \<open>acquiresleep\<close> under \<open>lk->lk\<close>: \<open>None\<close> when it sleeps.\<close>

definition acquiresleep :: "int \<Rightarrow> sleeplock \<Rightarrow> sleeplock option" where
  "acquiresleep pid lk = (if slocked lk \<noteq> 0 then None else Some (lk\<lparr>slocked := 1, spid := pid\<rparr>))"

definition releasesleep :: "sleeplock \<Rightarrow> sleeplock" where
  "releasesleep lk = lk\<lparr>slocked := 0, spid := 0\<rparr>"

definition holdingsleep :: "int \<Rightarrow> sleeplock \<Rightarrow> bool" where
  "holdingsleep pid lk \<longleftrightarrow> slocked lk \<noteq> 0 \<and> spid lk = pid"

text \<open>Processes take and release one sleep lock in any order; only the holder releases it.\<close>

inductive sleep_reach :: "sleeplock \<Rightarrow> int set \<Rightarrow> bool" where
  sl_init: "sleep_reach initsleeplock {}"
| sl_take: "sleep_reach lk hs \<Longrightarrow> acquiresleep pid lk = Some lk' \<Longrightarrow> sleep_reach lk' (insert pid hs)"
| sl_give: "sleep_reach lk hs \<Longrightarrow> pid \<in> hs \<Longrightarrow> sleep_reach (releasesleep lk) (hs - {pid})"

lemma sleeplock_holder:
  assumes "sleep_reach lk hs"
  shows "hs = (if slocked lk = 0 then {} else {spid lk})"
  using assms
proof (induction rule: sleep_reach.induct)
  case sl_init
  then show ?case by (simp add: initsleeplock_def)
next
  case (sl_take lk hs pid lk')
  then show ?case by (auto simp: acquiresleep_def split: if_splits)
next
  case (sl_give lk hs pid)
  then show ?case by (auto simp: releasesleep_def split: if_splits)
qed

section \<open>Concrete instances\<close>

theorem spinlock_mutual_exclusion_witness:
  "\<exists>lk pc. spin_reach lk pc \<and> pc 0 = Checked \<and> \<not> holding 0 lk"
proof -
  have "spin_reach initlock ((\<lambda>_. Outside)(0 := Checked))"
    by (rule spin_reach.tick [OF spin_reach.boot, of 0]) (simp add: holding_def initlock_def)
  moreover from spinlock_mutual_exclusion [OF this] have "\<not> holding 0 initlock" by simp
  ultimately show ?thesis by (intro exI [of _ initlock] exI [of _ "(\<lambda>_. Outside)(0 := Checked)"]) simp
qed

theorem push_pop_off_restores_witness:
  "\<exists>c'. run_off [Push, Push, Pop, Pop] \<lparr>noff = 0, intena = False, intr = True\<rparr> = Ret c' \<and> intr c'"
proof -
  have "nested [Push, Pop]" using nested_wrap [OF nested_Nil nested_Nil] by simp
  then have "nested [Push, Push, Pop, Pop]" using nested_wrap [OF _ nested_Nil] by fastforce
  from push_pop_off_restores [OF this, of "\<lparr>noff = 0, intena = False, intr = True\<rparr>"]
  show ?thesis by (auto simp: cpu_ok_def)
qed

end
