(* ===== verification/Bio.thy ===== *)
theory Bio
  imports Locks
begin

text \<open>
  \<^verbatim>\<open>kernel/bio.c\<close>: the buffer cache. The \<open>NBUF\<close> buffers and the list head are records
  with \<open>prev\<close> and \<open>next\<close> links, indexed by number; the head has index \<open>NBUF\<close>. The disk is
  what \<open>virtio_disk_rw\<close> reads and writes, with the sequence of its writes kept for reasoning
  about crashes. Each body under \<open>bcache.lock\<close> is atomic; waiting for the sleep lock of a buffer
  is the result \<open>KSleep\<close>.
\<close>

section \<open>Definitions\<close>

record buf =
  valid :: bool
  dev :: u32
  blockno :: u32
  lock :: sleeplock
  refcnt :: u32
  prv :: nat
  nxt :: nat
  bdata :: "u8 list"

record bcache =
  bufs :: "nat \<Rightarrow> buf"
  disk :: "u32 \<Rightarrow> u8 list"
  dwrites :: "(u32 \<times> u8 list) list"

abbreviation (input) HEAD :: nat where "HEAD \<equiv> 30"
abbreviation (input) ROOTDEV :: u32 where "ROOTDEV \<equiv> 1"
abbreviation (input) BSIZE :: nat where "BSIZE \<equiv> 1024"

text \<open>\<open>b->next = head.next; b->prev = &head; head.next->prev = b; head.next = b\<close>\<close>

definition insert_front :: "nat \<Rightarrow> (nat \<Rightarrow> buf) \<Rightarrow> (nat \<Rightarrow> buf)" where
  "insert_front b f =
     (let f1 = f(b := (f b)\<lparr>nxt := nxt (f HEAD)\<rparr>);
          f2 = f1(b := (f1 b)\<lparr>prv := HEAD\<rparr>);
          n = nxt (f2 HEAD);
          f3 = f2(n := (f2 n)\<lparr>prv := b\<rparr>)
      in f3(HEAD := (f3 HEAD)\<lparr>nxt := b\<rparr>))"

text \<open>\<open>b->next->prev = b->prev; b->prev->next = b->next\<close>\<close>

definition unlink :: "nat \<Rightarrow> (nat \<Rightarrow> buf) \<Rightarrow> (nat \<Rightarrow> buf)" where
  "unlink b f =
     (let n = nxt (f b);
          f1 = f(n := (f n)\<lparr>prv := prv (f b)\<rparr>);
          p = prv (f1 b)
      in f1(p := (f1 p)\<lparr>nxt := nxt (f1 b)\<rparr>))"

fun binit_loop :: "nat \<Rightarrow> nat \<Rightarrow> (nat \<Rightarrow> buf) \<Rightarrow> (nat \<Rightarrow> buf)" where
  "binit_loop b 0 f = f"
| "binit_loop b (Suc k) f =
     binit_loop (Suc b) k (let g = insert_front b f in g(b := (g b)\<lparr>lock := initsleeplock\<rparr>))"

definition binit :: "bcache \<Rightarrow> bcache" where
  "binit bc =
     bc\<lparr>bufs := binit_loop 0 NBUF
       ((bufs bc)(HEAD := (bufs bc HEAD)\<lparr>prv := HEAD, nxt := HEAD\<rparr>))\<rparr>"

text \<open>The two scans of \<open>bget\<close>; the list has \<open>NBUF\<close> nodes before the head comes round.\<close>

fun scan_cached :: "nat \<Rightarrow> (nat \<Rightarrow> buf) \<Rightarrow> nat \<Rightarrow> u32 \<Rightarrow> u32 \<Rightarrow> nat option" where
  "scan_cached 0 f b d bno = None"
| "scan_cached (Suc k) f b d bno =
     (if b = HEAD then None
      else if dev (f b) = d \<and> blockno (f b) = bno then Some b
      else scan_cached k f (nxt (f b)) d bno)"

fun scan_unused :: "nat \<Rightarrow> (nat \<Rightarrow> buf) \<Rightarrow> nat \<Rightarrow> nat option" where
  "scan_unused 0 f b = None"
| "scan_unused (Suc k) f b =
     (if b = HEAD then None
      else if refcnt (f b) = 0 then Some b
      else scan_unused k f (prv (f b)))"

definition upd :: "nat \<Rightarrow> (buf \<Rightarrow> buf) \<Rightarrow> bcache \<Rightarrow> bcache" where
  "upd b g bc = bc\<lparr>bufs := (bufs bc)(b := g (bufs bc b))\<rparr>"

text \<open>\<open>acquiresleep(&b->lock); return b\<close>\<close>

definition lockbuf :: "int \<Rightarrow> nat \<Rightarrow> bcache \<Rightarrow> (bcache, nat) kcall" where
  "lockbuf pid b bc =
     (case acquiresleep pid (lock (bufs bc b)) of
        None \<Rightarrow> KSleep bc
      | Some l \<Rightarrow> KRet b (upd b (lock_update (\<lambda>_. l)) bc))"

definition bget :: "int \<Rightarrow> u32 \<Rightarrow> u32 \<Rightarrow> bcache \<Rightarrow> (bcache, nat) kcall" where
  "bget pid d bno bc =
     (case scan_cached NBUF (bufs bc) (nxt (bufs bc HEAD)) d bno of
        Some b \<Rightarrow> lockbuf pid b (upd b (\<lambda>x. x\<lparr>refcnt := refcnt x + 1\<rparr>) bc)
      | None \<Rightarrow>
          (case scan_unused NBUF (bufs bc) (prv (bufs bc HEAD)) of
             Some b \<Rightarrow> lockbuf pid b
               (upd b (\<lambda>x. x\<lparr>dev := d, blockno := bno, valid := False, refcnt := 1\<rparr>) bc)
           | None \<Rightarrow> KPanic ''bget: no buffers''))"

text \<open>\<open>virtio_disk_rw(b, write)\<close> as the data transfer it performs.\<close>

definition disk_rw :: "nat \<Rightarrow> bool \<Rightarrow> bcache \<Rightarrow> bcache" where
  "disk_rw b write bc =
     (let bno = blockno (bufs bc b)
      in if write
         then bc\<lparr>disk := (disk bc)(bno := bdata (bufs bc b)),
                 dwrites := dwrites bc @ [(bno, bdata (bufs bc b))]\<rparr>
         else upd b (\<lambda>x. x\<lparr>bdata := disk bc bno\<rparr>) bc)"

definition bread :: "int \<Rightarrow> u32 \<Rightarrow> u32 \<Rightarrow> bcache \<Rightarrow> (bcache, nat) kcall" where
  "bread pid d bno bc =
     kbind (bget pid d bno bc) (\<lambda>b bc1.
       if \<not> valid (bufs bc1 b)
       then KRet b (upd b (\<lambda>x. x\<lparr>valid := True\<rparr>) (disk_rw b False bc1))
       else KRet b bc1)"

definition bwrite :: "int \<Rightarrow> nat \<Rightarrow> bcache \<Rightarrow> (bcache, unit) kcall" where
  "bwrite pid b bc =
     (if \<not> holdingsleep pid (lock (bufs bc b)) then KPanic ''bwrite''
      else KRet () (disk_rw b True bc))"

definition brelse :: "int \<Rightarrow> nat \<Rightarrow> bcache \<Rightarrow> (bcache, unit) kcall" where
  "brelse pid b bc =
     (if \<not> holdingsleep pid (lock (bufs bc b)) then KPanic ''brelse''
      else let bc1 = upd b (\<lambda>x. x\<lparr>lock := releasesleep (lock x)\<rparr>) bc;
               bc2 = upd b (\<lambda>x. x\<lparr>refcnt := refcnt x - 1\<rparr>) bc1
           in KRet () (if refcnt (bufs bc2 b) = 0
                       then bc2\<lparr>bufs := insert_front b (unlink b (bufs bc2))\<rparr>
                       else bc2))"

definition bpin :: "nat \<Rightarrow> bcache \<Rightarrow> bcache" where
  "bpin b bc = upd b (\<lambda>x. x\<lparr>refcnt := refcnt x + 1\<rparr>) bc"

definition bunpin :: "nat \<Rightarrow> bcache \<Rightarrow> bcache" where
  "bunpin b bc = upd b (\<lambda>x. x\<lparr>refcnt := refcnt x - 1\<rparr>) bc"

section \<open>The doubly linked list\<close>

text \<open>Following \<open>f\<close> from \<open>a\<close> visits \<open>xs\<close> and ends at \<open>z\<close>.\<close>

fun chain :: "(nat \<Rightarrow> nat) \<Rightarrow> nat \<Rightarrow> nat list \<Rightarrow> nat \<Rightarrow> bool" where
  "chain f a [] z \<longleftrightarrow> f a = z"
| "chain f a (x # xs) z \<longleftrightarrow> f a = x \<and> chain f x xs z"

definition dll :: "(nat \<Rightarrow> buf) \<Rightarrow> nat list \<Rightarrow> bool" where
  "dll f l \<longleftrightarrow> distinct (HEAD # l) \<and> chain (\<lambda>i. nxt (f i)) HEAD l HEAD \<and> chain (\<lambda>i. prv (f i)) HEAD (rev l) HEAD"

lemma chain_append:
  "chain f a (xs @ y # ys) z \<longleftrightarrow> chain f a xs y \<and> chain f y ys z"
  by (induction xs arbitrary: a) auto

lemma chain_cong: "(\<And>i. i \<in> set (a # xs) \<Longrightarrow> f i = g i) \<Longrightarrow> chain f a xs z = chain g a xs z"
  by (induction xs arbitrary: a) auto

text \<open>Redirecting the last link of a chain.\<close>

lemma chain_redirect:
  assumes "distinct (a # xs)" "chain f a xs z" "g (last (a # xs)) = z'"
    and "\<And>i. i \<in> set (a # xs) \<Longrightarrow> i \<noteq> last (a # xs) \<Longrightarrow> g i = f i"
  shows "chain g a xs z'"
  using assms
proof (induction xs arbitrary: a)
  case (Cons x xs)
  have "last (x # xs) \<in> set (x # xs)" by (rule last_in_set) simp
  then have "a \<noteq> last (x # xs)" using Cons.prems(1) by (metis distinct.simps(2))
  then have "g a = x" using Cons.prems by auto
  moreover have "chain g x xs z'" by (rule Cons.IH) (use Cons.prems in auto)
  ultimately show ?case by simp
qed simp

lemma chain_last: "chain f a xs z \<Longrightarrow> f (last (a # xs)) = z"
  by (induction xs arbitrary: a) auto

text \<open>Taking one node out of a cyclic chain by redirecting its predecessor.\<close>

lemma chain_remove:
  assumes d: "distinct (h # xs @ b # ys)" and c: "chain f h (xs @ b # ys) h"
    and g: "g (last (h # xs)) = f b" "\<And>i. i \<noteq> last (h # xs) \<Longrightarrow> i \<noteq> b \<Longrightarrow> g i = f i"
  shows "chain g h (xs @ ys) h"
proof -
  define p where "p = last (h # xs)"
  have c1: "chain f h xs b" and c2: "chain f b ys h" using c by (auto simp: chain_append)
  have "last (h # xs) \<in> set (h # xs)" by (rule last_in_set) simp
  then have lb: "p \<in> set (h # xs)" by (simp only: p_def)
  note gp = g [folded p_def]
  have red: "chain g h xs z" if "g p = z" for z
    by (rule chain_redirect [of h xs f b g z, folded p_def]) (use d gp c1 that in auto)
  show ?thesis
  proof (cases ys)
    case Nil
    then show ?thesis using red [of h] gp(1) c2 by simp
  next
    case (Cons y ys')
    have "chain g y ys' h = chain f y ys' h"
    proof (rule chain_cong)
      fix i assume "i \<in> set (y # ys')"
      then have "i \<noteq> p" "i \<noteq> b" using lb d Cons by auto
      then show "g i = f i" by (rule gp(2))
    qed
    then show ?thesis using red [of y] gp(1) c2 Cons by (simp add: chain_append)
  qed
qed

lemma last_rev_Cons: "last (h # rev ys) = hd (ys @ [h])"
  by (cases ys) auto

lemma dll_neighbours:
  assumes "dll f (xs @ b # ys)"
  shows "prv (f b) = last (HEAD # xs)" "nxt (f b) = hd (ys @ [HEAD])" "nxt (f b) \<noteq> b" "prv (f b) \<noteq> b"
proof -
  have c: "chain (\<lambda>i. nxt (f i)) b ys HEAD" "chain (\<lambda>i. prv (f i)) b (rev xs) HEAD"
    and d: "distinct (HEAD # xs @ b # ys)"
    using assms by (auto simp: dll_def chain_append)
  show p: "prv (f b) = last (HEAD # xs)" using c(2) by (cases xs rule: rev_cases) auto
  show n: "nxt (f b) = hd (ys @ [HEAD])" using c(1) by (cases ys) auto
  show "nxt (f b) \<noteq> b" using n d by (cases ys) auto
  show "prv (f b) \<noteq> b" using p d by (cases xs rule: rev_cases) auto
qed

lemma unlink_links:
  assumes "nxt (f b) \<noteq> b" "prv (f b) \<noteq> b"
  shows "nxt (unlink b f i) = (if i = prv (f b) then nxt (f b) else nxt (f i))"
    "prv (unlink b f i) = (if i = nxt (f b) then prv (f b) else prv (f i))"
  using assms by (auto simp: unlink_def Let_def)

lemma dll_unlink:
  assumes "dll f (xs @ b # ys)"
  shows "dll (unlink b f) (xs @ ys)"
proof -
  note nb = dll_neighbours [OF assms]
  note ul = unlink_links [of f b, OF nb(3,4)]
  have d: "distinct (HEAD # xs @ b # ys)" and c: "chain (\<lambda>i. nxt (f i)) HEAD (xs @ b # ys) HEAD"
      "chain (\<lambda>i. prv (f i)) HEAD (rev ys @ b # rev xs) HEAD"
    using assms by (auto simp: dll_def)
  have "chain (\<lambda>i. nxt (unlink b f i)) HEAD (xs @ ys) HEAD"
    by (rule chain_remove [OF d c(1)]) (auto simp: ul nb(1))
  moreover have "chain (\<lambda>i. prv (unlink b f i)) HEAD (rev ys @ rev xs) HEAD"
    by (rule chain_remove [OF _ c(2)]) (use d in \<open>auto simp: ul nb(2) last_rev_Cons simp del: last.simps\<close>)
  ultimately show ?thesis using d by (simp add: dll_def)
qed

lemma insert_links:
  assumes "b \<noteq> HEAD" "nxt (f HEAD) \<noteq> b"
  shows "nxt (insert_front b f i) = (if i = HEAD then b else if i = b then nxt (f HEAD) else nxt (f i))"
    "prv (insert_front b f i) = (if i = b then HEAD else if i = nxt (f HEAD) then b else prv (f i))"
  using assms by (auto simp: insert_front_def Let_def)

lemma dll_insert_front:
  assumes l: "dll f l" and b: "b \<notin> set l" "b \<noteq> HEAD"
  shows "dll (insert_front b f) (b # l)"
proof -
  have d: "distinct (HEAD # l)" and c: "chain (\<lambda>i. nxt (f i)) HEAD l HEAD"
      "chain (\<lambda>i. prv (f i)) HEAD (rev l) HEAD"
    using l by (auto simp: dll_def)
  have n: "nxt (f HEAD) = hd (l @ [HEAD])" using c(1) by (cases l) auto
  then have nb: "nxt (f HEAD) \<noteq> b" using b by (cases l) auto
  note il = insert_links [of b f, OF b(2) nb]
  have "chain (\<lambda>i. nxt (insert_front b f i)) b l HEAD"
  proof (cases l)
    case Nil
    then show ?thesis using il b n by simp
  next
    case (Cons y l')
    have "chain (\<lambda>i. nxt (insert_front b f i)) y l' HEAD = chain (\<lambda>i. nxt (f i)) y l' HEAD"
      by (rule chain_cong) (use d b Cons in \<open>auto simp: il\<close>)
    then show ?thesis using c(1) Cons il b n by auto
  qed
  moreover have "chain (\<lambda>i. prv (insert_front b f i)) HEAD (rev l) b"
    by (rule chain_redirect [OF _ c(2)]) (use d b n nb in \<open>auto simp: il last_rev_Cons simp del: last.simps\<close>)
  ultimately show ?thesis using d b il by (auto simp: dll_def chain_append)
qed

text \<open>Only the links change.\<close>

lemma links_only:
  "insert_front b f i = (f i)\<lparr>nxt := nxt (insert_front b f i), prv := prv (insert_front b f i)\<rparr>"
  "unlink b f i = (f i)\<lparr>nxt := nxt (unlink b f i), prv := prv (unlink b f i)\<rparr>"
  by (auto simp: insert_front_def unlink_def Let_def)

lemma dll_cong: "(\<And>i. nxt (f i) = nxt (g i) \<and> prv (f i) = prv (g i)) \<Longrightarrow> dll f l = dll g l"
  by (simp add: dll_def)

section \<open>The scans\<close>

lemma scan_cached_eq:
  "chain (\<lambda>i. nxt (f i)) a l HEAD \<Longrightarrow> HEAD \<notin> set l \<Longrightarrow> length l \<le> k \<Longrightarrow>
     scan_cached k f (nxt (f a)) d bno = List.find (\<lambda>i. dev (f i) = d \<and> blockno (f i) = bno) l"
proof (induction l arbitrary: a k)
  case Nil
  then show ?case by (cases k) auto
next
  case (Cons x l)
  then show ?case by (cases k) auto
qed

lemma scan_unused_eq:
  "chain (\<lambda>i. prv (f i)) a l HEAD \<Longrightarrow> HEAD \<notin> set l \<Longrightarrow> length l \<le> k \<Longrightarrow>
     scan_unused k f (prv (f a)) = List.find (\<lambda>i. refcnt (f i) = 0) l"
proof (induction l arbitrary: a k)
  case Nil
  then show ?case by (cases k) auto
next
  case (Cons x l)
  then show ?case by (cases k) auto
qed

section \<open>The cache invariant and the contents it stands for\<close>

text \<open>
  \<open>l\<close> is the list from most to least recently used. No two buffers hold the same block of a real
  device (device 0 marks buffers never used), valid buffers hold blocks of the one disk, and an
  unused buffer is unlocked and, if valid, equal to the disk.
\<close>

definition bc_inv :: "bcache \<Rightarrow> nat list \<Rightarrow> bool" where
  "bc_inv bc l \<longleftrightarrow> dll (bufs bc) l \<and> set l = {..<NBUF}
     \<and> (\<forall>i < NBUF. \<forall>j < NBUF. dev (bufs bc i) = dev (bufs bc j) \<longrightarrow> blockno (bufs bc i) = blockno (bufs bc j) \<longrightarrow>
          i = j \<or> dev (bufs bc i) = 0)
     \<and> (\<forall>i < NBUF. valid (bufs bc i) \<longrightarrow> dev (bufs bc i) = ROOTDEV)
     \<and> (\<forall>i < NBUF. refcnt (bufs bc i) = 0 \<longrightarrow> slocked (lock (bufs bc i)) = 0
          \<and> (valid (bufs bc i) \<longrightarrow> bdata (bufs bc i) = disk bc (blockno (bufs bc i))))"

text \<open>The contents of a block as the kernel sees it: the valid cached copy, else the disk.\<close>

definition holds_block :: "bcache \<Rightarrow> u32 \<Rightarrow> nat \<Rightarrow> bool" where
  "holds_block bc bno i \<longleftrightarrow> dev (bufs bc i) = ROOTDEV \<and> blockno (bufs bc i) = bno \<and> valid (bufs bc i)"

definition lcontent :: "bcache \<Rightarrow> u32 \<Rightarrow> u8 list" where
  "lcontent bc bno =
     (case List.find (holds_block bc bno) [0..<NBUF] of Some i \<Rightarrow> bdata (bufs bc i) | None \<Rightarrow> disk bc bno)"

lemma bc_inv_unique:
  assumes "bc_inv bc l" "i < NBUF" "j < NBUF" "dev (bufs bc i) = ROOTDEV" "dev (bufs bc j) = ROOTDEV"
    "blockno (bufs bc i) = blockno (bufs bc j)"
  shows "i = j"
proof -
  have "dev (bufs bc i) = dev (bufs bc j)" using assms by simp
  then have "i = j \<or> dev (bufs bc i) = 0" using assms(1-3,6) unfolding bc_inv_def by blast
  then show ?thesis using assms(4) by simp
qed

lemma lcontent_cached: "bc_inv bc l \<Longrightarrow> i < NBUF \<Longrightarrow> holds_block bc bno i \<Longrightarrow> lcontent bc bno = bdata (bufs bc i)"
proof -
  assume a: "bc_inv bc l" "i < NBUF" "holds_block bc bno i"
  then have "List.find (holds_block bc bno) [0..<NBUF] \<noteq> None" by (auto simp: find_None_iff)
  then obtain j where j: "List.find (holds_block bc bno) [0..<NBUF] = Some j" by blast
  then have "j < NBUF" "holds_block bc bno j" by (auto simp: find_Some_iff)
  then have "i = j" using bc_inv_unique [OF a(1,2), of j] a(3) by (simp add: holds_block_def)
  then show ?thesis using j by (simp add: lcontent_def)
qed

lemma lcontent_uncached: "(\<And>i. i < NBUF \<Longrightarrow> \<not> holds_block bc bno i) \<Longrightarrow> lcontent bc bno = disk bc bno"
proof -
  assume "\<And>i. i < NBUF \<Longrightarrow> \<not> holds_block bc bno i"
  then have "List.find (holds_block bc bno) [0..<NBUF] = None" by (auto simp: find_None_iff)
  then show ?thesis by (simp add: lcontent_def)
qed

text \<open>Two states of the cache that agree on the valid buffers and the disk.\<close>

lemma lcontent_cong:
  assumes "\<And>i. i < NBUF \<Longrightarrow> holds_block bc' bno i = holds_block bc bno i"
    "\<And>i. i < NBUF \<Longrightarrow> holds_block bc bno i \<Longrightarrow> bdata (bufs bc' i) = bdata (bufs bc i)"
    "disk bc' bno = disk bc bno"
  shows "lcontent bc' bno = lcontent bc bno"
proof -
  have "List.find (holds_block bc' bno) [0..<NBUF] = List.find (holds_block bc bno) [0..<NBUF]"
    by (rule find_cong) (use assms(1) in auto)
  moreover have "bdata (bufs bc' i) = bdata (bufs bc i)"
    if "List.find (holds_block bc bno) [0..<NBUF] = Some i" for i
    using that assms(2) by (auto simp: find_Some_iff)
  ultimately show ?thesis using assms(3) by (simp add: lcontent_def split: option.split)
qed

lemma bufs_upd [simp]: "bufs (upd b g bc) i = (if i = b then g (bufs bc b) else bufs bc i)"
  "disk (upd b g bc) = disk bc" "dwrites (upd b g bc) = dwrites bc"
  by (simp_all add: upd_def)

text \<open>Where \<open>bget\<close> finds the buffer: the cached one, or the least recently used unused one.\<close>

lemma bget_scans:
  assumes "bc_inv bc l"
  shows "scan_cached NBUF (bufs bc) (nxt (bufs bc HEAD)) d bno =
      List.find (\<lambda>i. dev (bufs bc i) = d \<and> blockno (bufs bc i) = bno) l"
    "scan_unused NBUF (bufs bc) (prv (bufs bc HEAD)) = List.find (\<lambda>i. refcnt (bufs bc i) = 0) (rev l)"
proof -
  have d: "dll (bufs bc) l" "set l = {..<NBUF}" using assms by (auto simp: bc_inv_def)
  then have n: "HEAD \<notin> set l" "distinct l" by (auto simp: dll_def)
  then have len: "length l = NBUF" using distinct_card [of l] d(2) by simp
  show "scan_cached NBUF (bufs bc) (nxt (bufs bc HEAD)) d bno =
      List.find (\<lambda>i. dev (bufs bc i) = d \<and> blockno (bufs bc i) = bno) l"
    by (rule scan_cached_eq) (use d n len in \<open>auto simp: dll_def\<close>)
  show "scan_unused NBUF (bufs bc) (prv (bufs bc HEAD)) = List.find (\<lambda>i. refcnt (bufs bc i) = 0) (rev l)"
    by (rule scan_unused_eq) (use d n len in \<open>auto simp: dll_def\<close>)
qed

lemma dll_upd: "(\<And>x. nxt (g x) = nxt x \<and> prv (g x) = prv x) \<Longrightarrow> dll (bufs (upd b g bc)) l = dll (bufs bc) l"
  by (rule dll_cong) simp

text \<open>Replacing one buffer keeps the invariant when its key stays unique and it is in use or clean.\<close>

lemma bc_inv_upd:
  assumes inv: "bc_inv bc l" and bc': "bufs bc' = (bufs bc)(i := b')" "disk bc' = disk bc"
    and links: "nxt b' = nxt (bufs bc i)" "prv b' = prv (bufs bc i)"
    and key: "\<And>j. j < NBUF \<Longrightarrow> j \<noteq> i \<Longrightarrow> dev (bufs bc j) = dev b' \<Longrightarrow> blockno (bufs bc j) = blockno b' \<Longrightarrow> dev b' = 0"
    and real: "valid b' \<Longrightarrow> dev b' = ROOTDEV"
    and use: "refcnt b' = 0 \<Longrightarrow> slocked (lock b') = 0 \<and> (valid b' \<longrightarrow> bdata b' = disk bc (blockno b'))"
  shows "bc_inv bc' l"
proof -
  have "dll (bufs bc') l" using inv dll_cong [of "bufs bc'" "bufs bc" l] bc'(1) links by (simp add: bc_inv_def)
  moreover have "set l = {..<NBUF}" using inv by (simp add: bc_inv_def)
  moreover have "j = k \<or> dev (bufs bc' j) = 0"
    if "j < NBUF" "k < NBUF" "dev (bufs bc' j) = dev (bufs bc' k)" "blockno (bufs bc' j) = blockno (bufs bc' k)" for j k
  proof -
    have old: "dev (bufs bc j) = dev (bufs bc k) \<Longrightarrow> blockno (bufs bc j) = blockno (bufs bc k) \<Longrightarrow>
        j = k \<or> dev (bufs bc j) = 0"
      using inv that(1,2) unfolding bc_inv_def by blast
    show ?thesis using that old key [of j] key [of k] by (auto simp: bc'(1) split: if_splits)
  qed
  moreover have "dev (bufs bc' j) = ROOTDEV" if "j < NBUF" "valid (bufs bc' j)" for j
  proof (cases "j = i")
    case True
    then show ?thesis using real that bc' by simp
  next
    case False
    then show ?thesis using inv that bc' unfolding bc_inv_def by simp
  qed
  moreover have "slocked (lock (bufs bc' j)) = 0
      \<and> (valid (bufs bc' j) \<longrightarrow> bdata (bufs bc' j) = disk bc' (blockno (bufs bc' j)))"
    if j: "j < NBUF" "refcnt (bufs bc' j) = 0" for j
  proof (cases "j = i")
    case True
    then show ?thesis using use j bc' by simp
  next
    case False
    then show ?thesis using inv j bc' unfolding bc_inv_def by simp
  qed
  ultimately show ?thesis unfolding bc_inv_def by blast
qed

text \<open>What \<open>bread\<close> guarantees to its caller.\<close>

definition bread_post :: "int \<Rightarrow> u32 \<Rightarrow> bcache \<Rightarrow> nat list \<Rightarrow> nat \<Rightarrow> bcache \<Rightarrow> bool" where
  "bread_post pid bno bc l i bc' \<longleftrightarrow> i < NBUF \<and> bc_inv bc' l \<and> holds_block bc' bno i
     \<and> bdata (bufs bc' i) = lcontent bc bno \<and> holdingsleep pid (lock (bufs bc' i)) \<and> refcnt (bufs bc' i) \<noteq> 0
     \<and> (\<forall>b. lcontent bc' b = lcontent bc b) \<and> disk bc' = disk bc \<and> dwrites bc' = dwrites bc
     \<and> (\<forall>j. j \<noteq> i \<longrightarrow> bufs bc' j = bufs bc j)
     \<and> refcnt (bufs bc' i) = refcnt (bufs bc i) + 1
     \<and> (if refcnt (bufs bc i) = 0 then bdata (bufs bc' i) = disk bc bno
        else dev (bufs bc i) = ROOTDEV \<and> blockno (bufs bc i) = bno)"

lemma bread_hit:
  assumes inv: "bc_inv bc l" and i: "i < NBUF" "dev (bufs bc i) = ROOTDEV" "blockno (bufs bc i) = bno"
    and small: "refcnt (bufs bc i) + 1 \<noteq> 0" and unl: "slocked (lock (bufs bc i)) = 0"
  shows "\<exists>bc'. bread pid ROOTDEV bno bc = KRet i bc' \<and> bread_post pid bno bc l i bc'"
proof -
  let ?b = "bufs bc i"
  let ?l = "(lock ?b)\<lparr>slocked := 1, spid := pid\<rparr>"
  define b' where "b' = ?b\<lparr>refcnt := refcnt ?b + 1, lock := ?l, valid := True,
    bdata := (if valid ?b then bdata ?b else disk bc bno)\<rparr>"
  define bc' where "bc' = upd i (\<lambda>_. b') bc"
  have find: "List.find (\<lambda>j. dev (bufs bc j) = ROOTDEV \<and> blockno (bufs bc j) = bno) l = Some i"
  proof -
    have "i \<in> set l" using inv i(1) by (simp add: bc_inv_def)
    then have "List.find (\<lambda>j. dev (bufs bc j) = ROOTDEV \<and> blockno (bufs bc j) = bno) l \<noteq> None"
      using i by (auto simp: find_None_iff)
    then obtain j where j: "List.find (\<lambda>j. dev (bufs bc j) = ROOTDEV \<and> blockno (bufs bc j) = bno) l = Some j"
      by blast
    then have "j \<in> set l" "dev (bufs bc j) = ROOTDEV" "blockno (bufs bc j) = bno" by (auto simp: find_Some_iff)
    then show ?thesis using bc_inv_unique [OF inv i(1), of j] inv i j by (simp add: bc_inv_def)
  qed
  have run: "bread pid ROOTDEV bno bc = KRet i bc'"
    using find unl i(3)
    by (auto simp: bread_def bget_def bget_scans(1) [OF inv] lockbuf_def acquiresleep_def upd_def disk_rw_def
        bc'_def b'_def Let_def fun_eq_iff)
  have b'_same: "dev b' = dev ?b" "blockno b' = blockno ?b" "nxt b' = nxt ?b" "prv b' = prv ?b"
    by (simp_all add: b'_def)
  have inv': "bc_inv bc' l"
  proof (rule bc_inv_upd [OF inv, of bc' i b'])
    show "dev b' = 0" if "j < NBUF" "j \<noteq> i" "dev (bufs bc j) = dev b'" "blockno (bufs bc j) = blockno b'" for j
      using bc_inv_unique [OF inv i(1) that(1)] that b'_same i by simp
    show "refcnt b' = 0 \<Longrightarrow> slocked (lock b') = 0 \<and> (valid b' \<longrightarrow> bdata b' = disk bc (blockno b'))"
      using small by (simp add: b'_def)
  qed (simp_all add: bc'_def upd_def b'_same i)
  have hb: "holds_block bc' bno i" using i by (simp add: holds_block_def bc'_def b'_def)
  have data: "bdata (bufs bc' i) = lcontent bc bno"
  proof (cases "valid ?b")
    case True
    then show ?thesis using lcontent_cached [OF inv i(1), of bno] i by (simp add: holds_block_def bc'_def b'_def)
  next
    case False
    have "\<not> holds_block bc bno j" if "j < NBUF" for j
    proof
      assume "holds_block bc bno j"
      then have "dev (bufs bc j) = ROOTDEV" "blockno (bufs bc j) = bno" "valid (bufs bc j)"
        by (simp_all add: holds_block_def)
      then show False using bc_inv_unique [OF inv i(1) that i(2)] i(3) False by simp
    qed
    then show ?thesis using lcontent_uncached [of bc bno] False by (simp add: bc'_def b'_def)
  qed
  have lc: "lcontent bc' b = lcontent bc b" for b
  proof (cases "b = bno")
    case True
    then show ?thesis using lcontent_cached [OF inv' i(1) hb] data by simp
  next
    case False
    then show ?thesis by (intro lcontent_cong) (auto simp: holds_block_def bc'_def b'_same i)
  qed
  have cl: "lcontent bc bno = disk bc bno" if "refcnt ?b = 0"
  proof -
    have "valid ?b \<Longrightarrow> bdata ?b = disk bc bno" using inv i that unfolding bc_inv_def by simp
    then show ?thesis using data by (simp add: bc'_def b'_def split: if_splits)
  qed
  show ?thesis
    using run inv' hb data lc i small cl
    by (auto simp: bread_post_def bc'_def b'_def holdingsleep_def)
qed

lemma bread_miss:
  assumes inv: "bc_inv bc l" and miss: "\<And>j. j < NBUF \<Longrightarrow> dev (bufs bc j) = ROOTDEV \<Longrightarrow> blockno (bufs bc j) \<noteq> bno"
    and lru: "List.find (\<lambda>j. refcnt (bufs bc j) = 0) (rev l) = Some i"
  shows "\<exists>bc'. bread pid ROOTDEV bno bc = KRet i bc' \<and> bread_post pid bno bc l i bc'"
proof -
  let ?b = "bufs bc i"
  have setl: "set l = {..<NBUF}" using inv by (simp add: bc_inv_def)
  have "i \<in> set l" and i2: "refcnt ?b = 0" using find_SomeD [OF lru] by simp_all
  then have i: "i < NBUF" "refcnt ?b = 0" using setl by simp_all
  have unl: "slocked (lock ?b) = 0" and clean: "valid ?b \<Longrightarrow> bdata ?b = disk bc (blockno ?b)"
    using inv i unfolding bc_inv_def by simp_all
  define b' where "b' = ?b\<lparr>dev := ROOTDEV, blockno := bno, valid := True, refcnt := 1,
    lock := (lock ?b)\<lparr>slocked := 1, spid := pid\<rparr>, bdata := disk bc bno\<rparr>"
  define bc' where "bc' = upd i (\<lambda>_. b') bc"
  have none: "List.find (\<lambda>j. dev (bufs bc j) = ROOTDEV \<and> blockno (bufs bc j) = bno) l = None"
    using miss setl by (auto simp: find_None_iff)
  have run: "bread pid ROOTDEV bno bc = KRet i bc'"
    using unl
    by (simp add: bread_def bget_def bget_scans [OF inv] none lru lockbuf_def acquiresleep_def upd_def disk_rw_def
        bc'_def b'_def Let_def fun_eq_iff)
  have inv': "bc_inv bc' l"
  proof (rule bc_inv_upd [OF inv, of bc' i b'])
    show "dev b' = 0" if "j < NBUF" "j \<noteq> i" "dev (bufs bc j) = dev b'" "blockno (bufs bc j) = blockno b'" for j
      using miss [OF that(1)] that by (simp add: b'_def)
  qed (simp_all add: bc'_def upd_def b'_def)
  have hb: "holds_block bc' bno i" by (simp add: holds_block_def bc'_def b'_def)
  have un: "lcontent bc bno = disk bc bno" by (rule lcontent_uncached) (use miss in \<open>auto simp: holds_block_def\<close>)
  have lc: "lcontent bc' b = lcontent bc b" for b
  proof (cases "b = bno")
    case True
    then show ?thesis using lcontent_cached [OF inv' i(1) hb] un by (simp add: bc'_def b'_def)
  next
    case nb: False
    have other: "holds_block bc' b j \<longleftrightarrow> holds_block bc b j \<and> j \<noteq> i" for j
      using nb by (simp add: holds_block_def bc'_def b'_def)
    show ?thesis
    proof (cases "holds_block bc b i")
      case True
      then have "lcontent bc b = disk bc b"
        using lcontent_cached [OF inv i(1) True] clean by (simp add: holds_block_def)
      moreover have "\<not> holds_block bc' b j" if "j < NBUF" for j
      proof
        assume "holds_block bc' b j"
        then have j: "holds_block bc b j" "j \<noteq> i" using other by simp_all
        then show False using bc_inv_unique [OF inv i(1) that] True by (simp add: holds_block_def)
      qed
      ultimately show ?thesis using lcontent_uncached [of bc' b] by (simp add: bc'_def)
    next
      case False
      then show ?thesis by (intro lcontent_cong) (auto simp: other, auto simp: bc'_def)
    qed
  qed
  show ?thesis
    using run inv' hb un lc i by (auto simp: bread_post_def bc'_def b'_def holdingsleep_def)
qed

lemma bread_spec:
  assumes inv: "bc_inv bc l" and small: "\<forall>i < NBUF. refcnt (bufs bc i) + 1 \<noteq> 0"
  shows "case bread pid ROOTDEV bno bc of
      KRet i bc' \<Rightarrow> bread_post pid bno bc l i bc'
    | KSleep bc' \<Rightarrow> \<exists>i < NBUF. dev (bufs bc i) = ROOTDEV \<and> blockno (bufs bc i) = bno \<and> slocked (lock (bufs bc i)) \<noteq> 0
    | KPanic e \<Rightarrow> (\<forall>i < NBUF. refcnt (bufs bc i) \<noteq> 0
        \<and> \<not> (dev (bufs bc i) = ROOTDEV \<and> blockno (bufs bc i) = bno))"
proof -
  have setl: "set l = {..<NBUF}" using inv by (simp add: bc_inv_def)
  show ?thesis
  proof (cases "\<exists>i < NBUF. dev (bufs bc i) = ROOTDEV \<and> blockno (bufs bc i) = bno")
    case True
    then obtain i where i: "i < NBUF" "dev (bufs bc i) = ROOTDEV" "blockno (bufs bc i) = bno" by blast
    show ?thesis
    proof (cases "slocked (lock (bufs bc i)) = 0")
      case unl: True
      obtain bc' where "bread pid ROOTDEV bno bc = KRet i bc'" "bread_post pid bno bc l i bc'"
        using bread_hit [OF inv i _ unl] small i(1) by blast
      then show ?thesis by simp
    next
      case False
      have "List.find (\<lambda>j. dev (bufs bc j) = ROOTDEV \<and> blockno (bufs bc j) = bno) l \<noteq> None"
        using i setl by (auto simp: find_None_iff)
      then obtain j where j: "List.find (\<lambda>j. dev (bufs bc j) = ROOTDEV \<and> blockno (bufs bc j) = bno) l = Some j" by blast
      from find_SomeD [OF this] have "j = i" using bc_inv_unique [OF inv i(1), of j] setl i by simp
      then have "bread pid ROOTDEV bno bc = KSleep (upd i (\<lambda>x. x\<lparr>refcnt := refcnt x + 1\<rparr>) bc)"
        using j False by (simp add: bread_def bget_def bget_scans(1) [OF inv] lockbuf_def acquiresleep_def)
      then show ?thesis using i False by auto
    qed
  next
    case miss: False
    show ?thesis
    proof (cases "List.find (\<lambda>j. refcnt (bufs bc j) = 0) (rev l)")
      case None
      have "List.find (\<lambda>j. dev (bufs bc j) = ROOTDEV \<and> blockno (bufs bc j) = bno) l = None"
        using miss setl by (auto simp: find_None_iff)
      then have "bread pid ROOTDEV bno bc = KPanic ''bget: no buffers''"
        using None by (simp add: bread_def bget_def bget_scans [OF inv])
      then show ?thesis using None miss setl by (auto simp: find_None_iff)
    next
      case (Some i)
      have "\<exists>bc'. bread pid ROOTDEV bno bc = KRet i bc' \<and> bread_post pid bno bc l i bc'"
        by (rule bread_miss [OF inv _ Some]) (use miss in blast)
      then show ?thesis by auto
    qed
  qed
qed

section \<open>Properties\<close>

text \<open>
  C25. \<open>bread\<close> returns a locked, valid buffer with the current contents of the block, and does not
  change the contents of any block: a hit returns the one cached copy, a miss recycles an unused
  buffer whose contents are on disk. It sleeps only when the cached copy is locked, and panics only
  when the block is not cached and every buffer is in use.
\<close>

theorem bread_correct:
  assumes inv: "bc_inv bc l" and small: "\<forall>i < NBUF. refcnt (bufs bc i) + 1 \<noteq> 0"
  shows "case bread pid ROOTDEV bno bc of
      KRet i bc' \<Rightarrow> bread_post pid bno bc l i bc'
    | KSleep bc' \<Rightarrow> \<exists>i < NBUF. dev (bufs bc i) = ROOTDEV \<and> blockno (bufs bc i) = bno \<and> slocked (lock (bufs bc i)) \<noteq> 0
    | KPanic e \<Rightarrow> (\<forall>i < NBUF. refcnt (bufs bc i) \<noteq> 0
        \<and> \<not> (dev (bufs bc i) = ROOTDEV \<and> blockno (bufs bc i) = bno))"
  by (rule bread_spec [OF assms])

lemma move_front_links:
  assumes "dll f l" "b \<in> set l"
  shows "dll (insert_front b (unlink b f)) (b # remove1 b l)"
proof -
  obtain xs ys where l: "l = xs @ b # ys" using assms(2) split_list by metis
  have d: "distinct (HEAD # l)" using assms(1) by (simp add: dll_def)
  have r: "remove1 b l = xs @ ys" using d l by (simp add: remove1_append)
  have "dll (unlink b f) (xs @ ys)" using dll_unlink assms(1) l by simp
  then show ?thesis unfolding r using d l by (intro dll_insert_front) auto
qed

lemma insert_front_fields:
  "dev (insert_front b f i) = dev (f i)" "blockno (insert_front b f i) = blockno (f i)"
  "valid (insert_front b f i) = valid (f i)" "refcnt (insert_front b f i) = refcnt (f i)"
  "lock (insert_front b f i) = lock (f i)" "bdata (insert_front b f i) = bdata (f i)"
  by (subst links_only(1), simp)+

lemma unlink_fields:
  "dev (unlink b f i) = dev (f i)" "blockno (unlink b f i) = blockno (f i)"
  "valid (unlink b f i) = valid (f i)" "refcnt (unlink b f i) = refcnt (f i)"
  "lock (unlink b f i) = lock (f i)" "bdata (unlink b f i) = bdata (f i)"
  by (subst links_only(2), simp)+

lemma move_front_fields:
  "dev (insert_front b (unlink b f) i) = dev (f i)" "blockno (insert_front b (unlink b f) i) = blockno (f i)"
  "valid (insert_front b (unlink b f) i) = valid (f i)" "refcnt (insert_front b (unlink b f) i) = refcnt (f i)"
  "lock (insert_front b (unlink b f) i) = lock (f i)" "bdata (insert_front b (unlink b f) i) = bdata (f i)"
  by (simp_all add: insert_front_fields unlink_fields)

text \<open>Buffers that differ in links, lock and reference count only, and in links only.\<close>

definition same_key :: "buf \<Rightarrow> buf \<Rightarrow> bool" where
  "same_key x y \<longleftrightarrow> valid x = valid y \<and> dev x = dev y \<and> blockno x = blockno y \<and> bdata x = bdata y"

definition same_use :: "buf \<Rightarrow> buf \<Rightarrow> bool" where
  "same_use x y \<longleftrightarrow> refcnt x = refcnt y \<and> lock x = lock y"

lemma brelse_spec:
  assumes inv: "bc_inv bc l" and i: "i < NBUF" "refcnt (bufs bc i) \<noteq> 0" "holdingsleep pid (lock (bufs bc i))"
    and clean: "refcnt (bufs bc i) = 1 \<Longrightarrow> valid (bufs bc i) \<Longrightarrow> bdata (bufs bc i) = disk bc (blockno (bufs bc i))"
  shows "\<exists>bc'. brelse pid i bc = KRet () bc'
    \<and> bc_inv bc' (if refcnt (bufs bc i) = 1 then i # remove1 i l else l)
    \<and> (\<forall>b. lcontent bc' b = lcontent bc b) \<and> disk bc' = disk bc
    \<and> refcnt (bufs bc' i) = refcnt (bufs bc i) - 1 \<and> slocked (lock (bufs bc' i)) = 0
    \<and> dwrites bc' = dwrites bc \<and> (\<forall>j. same_key (bufs bc' j) (bufs bc j) \<and> (j \<noteq> i \<longrightarrow> same_use (bufs bc' j) (bufs bc j)))"
proof -
  let ?b = "bufs bc i"
  define b' where "b' = ?b\<lparr>lock := releasesleep (lock ?b), refcnt := refcnt ?b - 1\<rparr>"
  define bc2 where "bc2 = upd i (\<lambda>_. b') bc"
  have one: "refcnt ?b - 1 = 0 \<longleftrightarrow> refcnt ?b = 1" by simp
  have inv2: "bc_inv bc2 l"
  proof (rule bc_inv_upd [OF inv, of bc2 i b'])
    show "dev b' = 0" if "j < NBUF" "j \<noteq> i" "dev (bufs bc j) = dev b'" "blockno (bufs bc j) = blockno b'" for j
      using inv i(1) that unfolding bc_inv_def b'_def by auto
    show "refcnt b' = 0 \<Longrightarrow> slocked (lock b') = 0 \<and> (valid b' \<longrightarrow> bdata b' = disk bc (blockno b'))"
      using clean one by (simp add: b'_def releasesleep_def)
    show "valid b' \<Longrightarrow> dev b' = ROOTDEV" using inv i(1) unfolding bc_inv_def by (simp add: b'_def)
  qed (simp_all add: bc2_def upd_def b'_def)
  have lc2: "lcontent bc2 b = lcontent bc b" for b
    by (rule lcontent_cong) (auto simp: holds_block_def bc2_def b'_def)
  define bc' where "bc' = (if refcnt ?b = 1 then bc2\<lparr>bufs := insert_front i (unlink i (bufs bc2))\<rparr> else bc2)"
  have run: "brelse pid i bc = KRet () bc'"
    using i(3) one by (simp add: brelse_def bc'_def bc2_def b'_def upd_def Let_def)
  have il: "i \<in> set l" using inv i(1) by (simp add: bc_inv_def)
  have "bc_inv bc' (if refcnt ?b = 1 then i # remove1 i l else l)"
  proof (cases "refcnt ?b = 1")
    case True
    have "dll (bufs bc') (i # remove1 i l)"
      using move_front_links [OF _ il, of "bufs bc2"] inv2 True by (simp add: bc'_def bc_inv_def)
    moreover have "set (i # remove1 i l) = {..<NBUF}"
      using inv il by (auto simp: bc_inv_def dll_def set_remove1_eq)
    ultimately show ?thesis using inv2 True unfolding bc_inv_def
      by (simp add: bc'_def move_front_fields)
  qed (use inv2 in \<open>simp add: bc'_def\<close>)
  moreover have "lcontent bc' b = lcontent bc b" for b
    unfolding lc2 [symmetric] by (rule lcontent_cong) (auto simp: bc'_def holds_block_def move_front_fields)
  ultimately show ?thesis
    using run by (auto simp: bc'_def move_front_fields bc2_def b'_def releasesleep_def same_key_def same_use_def)
qed

text \<open>
  \<open>brelse\<close> by the holder unlocks the buffer, drops one reference and, with the last one, moves
  the buffer to the front of the LRU list; the cache invariant and the contents of every block stay.
  Dropping the last reference to a modified buffer would lose data, so it must be clean.
\<close>

theorem brelse_correct:
  assumes inv: "bc_inv bc l" and i: "i < NBUF" "refcnt (bufs bc i) \<noteq> 0" "holdingsleep pid (lock (bufs bc i))"
    and clean: "refcnt (bufs bc i) = 1 \<Longrightarrow> valid (bufs bc i) \<Longrightarrow> bdata (bufs bc i) = disk bc (blockno (bufs bc i))"
  shows "\<exists>bc'. brelse pid i bc = KRet () bc'
    \<and> bc_inv bc' (if refcnt (bufs bc i) = 1 then i # remove1 i l else l)
    \<and> (\<forall>b. lcontent bc' b = lcontent bc b) \<and> disk bc' = disk bc
    \<and> refcnt (bufs bc' i) = refcnt (bufs bc i) - 1 \<and> slocked (lock (bufs bc' i)) = 0"
  using brelse_spec [OF assms] by blast

lemma binit_loop_spec:
  "dll f l \<Longrightarrow> \<forall>i. i \<ge> b \<longrightarrow> i \<notin> set l \<Longrightarrow> b + k \<le> HEAD \<Longrightarrow>
     dll (binit_loop b k f) (rev [b..<b + k] @ l)
     \<and> (\<forall>i. dev (binit_loop b k f i) = dev (f i) \<and> blockno (binit_loop b k f i) = blockno (f i)
          \<and> valid (binit_loop b k f i) = valid (f i) \<and> refcnt (binit_loop b k f i) = refcnt (f i)
          \<and> (b \<le> i \<and> i < b + k \<longrightarrow> slocked (lock (binit_loop b k f i)) = 0)
          \<and> (slocked (lock (f i)) = 0 \<longrightarrow> slocked (lock (binit_loop b k f i)) = 0))"
proof (induction k arbitrary: b f l)
  case (Suc k)
  define g where "g = insert_front b f"
  define h where "h = g(b := (g b)\<lparr>lock := initsleeplock\<rparr>)"
  have "dll g (b # l)" unfolding g_def by (rule dll_insert_front) (use Suc.prems in auto)
  then have dh: "dll h (b # l)" using dll_cong [of h g] by (simp add: h_def)
  have fields: "dev (h i) = dev (f i)" "blockno (h i) = blockno (f i)" "valid (h i) = valid (f i)"
      "refcnt (h i) = refcnt (f i)" "slocked (lock (f i)) = 0 \<longrightarrow> slocked (lock (h i)) = 0"
      "slocked (lock (h b)) = 0" for i
    by (simp_all add: h_def g_def insert_front_fields initsleeplock_def)
  have pre: "\<forall>i. Suc b \<le> i \<longrightarrow> i \<notin> set (b # l)" "Suc b + k \<le> HEAD" using Suc.prems(2,3) by auto
  note IH = Suc.IH [OF dh pre]
  have run: "binit_loop b (Suc k) f = binit_loop (Suc b) k h" by (simp add: Let_def h_def g_def)
  have upt: "rev [b..<b + Suc k] @ l = rev [Suc b..<Suc b + k] @ b # l" by (simp add: upt_rec [of b])
  have "slocked (lock (binit_loop (Suc b) k h i)) = 0" if "b \<le> i" "i < b + Suc k" for i
    using IH fields(6) that by (cases "i = b") auto
  then show ?case unfolding run upt using IH fields by simp
qed auto

lemma binit_inv:
  assumes "\<forall>i < NBUF. dev (bufs bc i) = 0 \<and> \<not> valid (bufs bc i)"
  shows "bc_inv (binit bc) (rev [0..<NBUF]) \<and> (\<forall>b. lcontent (binit bc) b = disk bc b)"
proof -
  let ?f = "(bufs bc)(HEAD := (bufs bc HEAD)\<lparr>prv := HEAD, nxt := HEAD\<rparr>)"
  have B: "bufs (binit bc) = binit_loop 0 NBUF ?f" "disk (binit bc) = disk bc" by (simp_all add: binit_def)
  have "dll ?f []" by (simp add: dll_def)
  from binit_loop_spec [OF this, of 0 NBUF] have
    S: "dll (bufs (binit bc)) (rev [0..<NBUF])"
      "\<And>i. dev (bufs (binit bc) i) = dev (?f i)" "\<And>i. valid (bufs (binit bc) i) = valid (?f i)"
      "\<And>i. i < NBUF \<Longrightarrow> slocked (lock (bufs (binit bc) i)) = 0"
    unfolding B(1) by auto
  have z: "dev (bufs (binit bc) i) = 0" "\<not> valid (bufs (binit bc) i)" if "i < NBUF" for i
    using S(2,3) assms that by simp_all
  have "bc_inv (binit bc) (rev [0..<NBUF])"
    unfolding bc_inv_def using S(1,4) z by (simp add: atLeast0LessThan)
  moreover have "lcontent (binit bc) b = disk bc b" for b
    using lcontent_uncached [of "binit bc" b] z(2) B(2) by (simp add: holds_block_def)
  ultimately show ?thesis by blast
qed

text \<open>
  \<open>binit\<close> links all buffers into one circular list and establishes the cache invariant; the
  cache then stands for the disk.
\<close>

theorem binit_establishes:
  assumes "\<forall>i < NBUF. dev (bufs bc i) = 0 \<and> \<not> valid (bufs bc i)"
  shows "bc_inv (binit bc) (rev [0..<NBUF]) \<and> (\<forall>b. lcontent (binit bc) b = disk bc b)"
  using binit_inv [OF assms] .

section \<open>Concrete instances\<close>

text \<open>A fresh cache over a disk whose block \<open>b\<close> starts with the low byte of \<open>b\<close>.\<close>

definition blank_buf :: buf where
  "blank_buf = \<lparr>valid = False, dev = 0, blockno = 0, lock = initsleeplock, refcnt = 0, prv = 0, nxt = 0, bdata = []\<rparr>"

definition demo_bc :: bcache where
  "demo_bc = binit \<lparr>bufs = \<lambda>_. blank_buf, disk = \<lambda>b. [ucast b], dwrites = []\<rparr>"

lemma demo_bc: "bc_inv demo_bc (rev [0..<NBUF])" "lcontent demo_bc b = [ucast b]"
    "i < NBUF \<Longrightarrow> dev (bufs demo_bc i) = 0" "i < NBUF \<Longrightarrow> refcnt (bufs demo_bc i) = 0"
    "i < NBUF \<Longrightarrow> \<not> valid (bufs demo_bc i)"
proof -
  let ?bc = "\<lparr>bufs = \<lambda>_. blank_buf, disk = \<lambda>b. [ucast b], dwrites = []\<rparr>"
  show "bc_inv demo_bc (rev [0..<NBUF])" "lcontent demo_bc b = [ucast b]"
    using binit_inv [of ?bc] by (simp_all add: demo_bc_def blank_buf_def)
  let ?f = "(bufs ?bc)(HEAD := (bufs ?bc HEAD)\<lparr>prv := HEAD, nxt := HEAD\<rparr>)"
  have d: "dll ?f []" by (simp add: dll_def)
  have "bufs demo_bc = binit_loop 0 NBUF ?f" by (simp add: demo_bc_def binit_def)
  then show "i < NBUF \<Longrightarrow> dev (bufs demo_bc i) = 0" "i < NBUF \<Longrightarrow> refcnt (bufs demo_bc i) = 0"
      "i < NBUF \<Longrightarrow> \<not> valid (bufs demo_bc i)"
    using binit_loop_spec [OF d, of 0 NBUF] by (auto simp: blank_buf_def)
qed

theorem bread_correct_witness: "\<exists>i bc'. bread 7 ROOTDEV 5 demo_bc = KRet i bc' \<and> bdata (bufs bc' i) = [5]"
proof -
  have small: "\<forall>i < NBUF. refcnt (bufs demo_bc i) + 1 \<noteq> 0" by (simp add: demo_bc(4))
  note B = bread_correct [OF demo_bc(1) small, of 7 5]
  show ?thesis
  proof (cases "bread 7 ROOTDEV 5 demo_bc")
    case (KRet i bc')
    then show ?thesis using B demo_bc(2) by (simp add: bread_post_def)
  next
    case (KPanic e)
    then show ?thesis using B demo_bc(4) by (auto dest: spec [of _ 0])
  next
    case (KSleep bc')
    then show ?thesis using B demo_bc(3) by auto
  qed
qed

theorem brelse_correct_witness:
  "\<exists>bc'. brelse 7 0 (upd 0 (\<lambda>x. x\<lparr>refcnt := 1, lock := \<lparr>slocked = 1, spid = 7\<rparr>\<rparr>) demo_bc) = KRet () bc'
     \<and> refcnt (bufs bc' 0) = 0"
proof -
  let ?bc = "upd 0 (\<lambda>x. x\<lparr>refcnt := 1, lock := \<lparr>slocked = 1, spid = 7\<rparr>\<rparr>) demo_bc"
  have "bc_inv ?bc (rev [0..<NBUF])"
  proof (rule bc_inv_upd [OF demo_bc(1)])
    show "bufs ?bc = (bufs demo_bc)(0 := (bufs demo_bc 0)\<lparr>refcnt := 1, lock := \<lparr>slocked = 1, spid = 7\<rparr>\<rparr>)"
      by (simp add: upd_def)
  qed (simp_all add: demo_bc(3,5))
  from brelse_correct [OF this, of 0 7] show ?thesis by (auto simp: holdingsleep_def demo_bc(5))
qed

theorem binit_establishes_witness: "lcontent demo_bc 9 = [9]"
  unfolding demo_bc_def using binit_establishes [of "\<lparr>bufs = \<lambda>_. blank_buf, disk = \<lambda>b. [ucast b], dwrites = []\<rparr>"]
  by (simp add: blank_buf_def)

end
