(* ===== verification/Log.thy ===== *)
theory Log
  imports Bio
begin

text \<open>
  \<^verbatim>\<open>kernel/log.c\<close>: the redo log that makes file system operations atomic across crashes.
  The log runs on the buffer cache of \<^verbatim>\<open>Bio\<close>; the order in which blocks reach the disk is
  the trace \<open>dwrites\<close> of the cache state. A crash keeps a prefix of that trace.
\<close>

section \<open>Definitions\<close>

text \<open>\<open>struct log\<close> without its lock; \<open>lh_block\<close> is the array of \<open>LOGBLOCKS\<close> numbers.\<close>

record logst =
  lstart :: u32
  outstanding :: int
  committing :: bool
  lh_n :: nat
  lh_block :: "u32 list"

text \<open>The header block: \<open>int n\<close>, then the block numbers, little-endian.\<close>

definition head_n :: "u8 list \<Rightarrow> u32" where
  "head_n d = word_of_bytes (take 4 d)"

definition head_block :: "u8 list \<Rightarrow> nat \<Rightarrow> u32" where
  "head_block d i = word_of_bytes (take 4 (drop (4 + 4 * i) d))"

definition put_head :: "nat \<Rightarrow> u32 list \<Rightarrow> u8 list \<Rightarrow> u8 list" where
  "put_head n bs d = bytes_of 4 (of_nat n :: u32) @ concat (map (bytes_of 4) (take n bs)) @ drop (4 + 4 * n) d"

text \<open>One iteration of \<open>install_trans\<close>.\<close>

definition install_one :: "int \<Rightarrow> bool \<Rightarrow> u32 \<Rightarrow> nat \<Rightarrow> u32 \<Rightarrow> bcache \<Rightarrow> (bcache, unit) kcall" where
  "install_one pid recovering start tail bno bc =
     kbind (bread pid ROOTDEV (start + of_nat tail + 1) bc) (\<lambda>lbuf bc1.
     kbind (bread pid ROOTDEV bno bc1) (\<lambda>dbuf bc2.
     kbind (bwrite pid dbuf (upd dbuf (\<lambda>x. x\<lparr>bdata := bdata (bufs bc2 lbuf)\<rparr>) bc2)) (\<lambda>_ bc3.
     kbind (brelse pid lbuf (if recovering then bc3 else bunpin dbuf bc3)) (\<lambda>_ bc4.
     brelse pid dbuf bc4))))"

fun install_loop :: "int \<Rightarrow> bool \<Rightarrow> u32 \<Rightarrow> nat \<Rightarrow> u32 list \<Rightarrow> bcache \<Rightarrow> (bcache, unit) kcall" where
  "install_loop pid recovering start tail [] bc = KRet () bc"
| "install_loop pid recovering start tail (b # bs) bc =
     kbind (install_one pid recovering start tail b bc) (\<lambda>_ bc1.
       install_loop pid recovering start (Suc tail) bs bc1)"

definition install_trans :: "int \<Rightarrow> bool \<Rightarrow> logst \<Rightarrow> bcache \<Rightarrow> (bcache, unit) kcall" where
  "install_trans pid recovering lg bc =
     install_loop pid recovering (lstart lg) 0 (take (lh_n lg) (lh_block lg)) bc"

text \<open>The loop of \<open>read_head\<close> fills the first \<open>n\<close> entries of the array.\<close>

definition read_head :: "int \<Rightarrow> logst \<Rightarrow> bcache \<Rightarrow> (bcache, logst) kcall" where
  "read_head pid lg bc =
     kbind (bread pid ROOTDEV (lstart lg) bc) (\<lambda>b bc1.
       let d = bdata (bufs bc1 b); n = unat (head_n d);
           lg1 = lg\<lparr>lh_n := n, lh_block := map (head_block d) [0..<n] @ drop n (lh_block lg)\<rparr>
       in kbind (brelse pid b bc1) (\<lambda>_ bc2. KRet lg1 bc2))"

definition write_head :: "int \<Rightarrow> logst \<Rightarrow> bcache \<Rightarrow> (bcache, unit) kcall" where
  "write_head pid lg bc =
     kbind (bread pid ROOTDEV (lstart lg) bc) (\<lambda>b bc1.
     kbind (bwrite pid b (upd b (\<lambda>x. x\<lparr>bdata := put_head (lh_n lg) (lh_block lg) (bdata x)\<rparr>) bc1)) (\<lambda>_ bc2.
     brelse pid b bc2))"

definition recover_from_log :: "int \<Rightarrow> logst \<Rightarrow> bcache \<Rightarrow> (bcache, logst) kcall" where
  "recover_from_log pid lg bc =
     kbind (read_head pid lg bc) (\<lambda>lg1 bc1.
     kbind (install_trans pid True lg1 bc1) (\<lambda>_ bc2.
     let lg2 = lg1\<lparr>lh_n := 0\<rparr>
     in kbind (write_head pid lg2 bc2) (\<lambda>_ bc3. KRet lg2 bc3)))"

definition initlog :: "int \<Rightarrow> u32 \<Rightarrow> logst \<Rightarrow> bcache \<Rightarrow> (bcache, logst) kcall" where
  "initlog pid logstart lg bc = recover_from_log pid (lg\<lparr>lstart := logstart\<rparr>) bc"

text \<open>One pass of the loop of \<open>begin_op\<close>: \<open>None\<close> when it sleeps.\<close>

definition begin_op :: "logst \<Rightarrow> logst option" where
  "begin_op lg =
     (if committing lg then None
      else if int (lh_n lg) + (outstanding lg + 1) * 10 > 30 then None
      else Some (lg\<lparr>outstanding := outstanding lg + 1\<rparr>))"

text \<open>One iteration of \<open>write_log\<close>.\<close>

definition log_copy :: "int \<Rightarrow> u32 \<Rightarrow> nat \<Rightarrow> u32 \<Rightarrow> bcache \<Rightarrow> (bcache, unit) kcall" where
  "log_copy pid start tail bno bc =
     kbind (bread pid ROOTDEV (start + of_nat tail + 1) bc) (\<lambda>to bc1.
     kbind (bread pid ROOTDEV bno bc1) (\<lambda>from bc2.
     kbind (bwrite pid to (upd to (\<lambda>x. x\<lparr>bdata := bdata (bufs bc2 from)\<rparr>) bc2)) (\<lambda>_ bc3.
     kbind (brelse pid from bc3) (\<lambda>_ bc4.
     brelse pid to bc4))))"

fun write_log_loop :: "int \<Rightarrow> u32 \<Rightarrow> nat \<Rightarrow> u32 list \<Rightarrow> bcache \<Rightarrow> (bcache, unit) kcall" where
  "write_log_loop pid start tail [] bc = KRet () bc"
| "write_log_loop pid start tail (b # bs) bc =
     kbind (log_copy pid start tail b bc) (\<lambda>_ bc1. write_log_loop pid start (Suc tail) bs bc1)"

definition write_log :: "int \<Rightarrow> logst \<Rightarrow> bcache \<Rightarrow> (bcache, unit) kcall" where
  "write_log pid lg bc = write_log_loop pid (lstart lg) 0 (take (lh_n lg) (lh_block lg)) bc"

definition commit :: "int \<Rightarrow> logst \<Rightarrow> bcache \<Rightarrow> (bcache, logst) kcall" where
  "commit pid lg bc =
     (if lh_n lg > 0
      then kbind (write_log pid lg bc) (\<lambda>_ bc1.
           kbind (write_head pid lg bc1) (\<lambda>_ bc2.
           kbind (install_trans pid False lg bc2) (\<lambda>_ bc3.
           let lg1 = lg\<lparr>lh_n := 0\<rparr>
           in kbind (write_head pid lg1 bc3) (\<lambda>_ bc4. KRet lg1 bc4))))
      else KRet lg bc)"

text \<open>
  \<open>end_op\<close>: the part under \<open>log.lock\<close>, which decides whether to commit, and the whole
  operation, in which \<open>commit\<close> runs without the lock but with \<open>committing\<close> set.
\<close>

definition end_op_locked :: "logst \<Rightarrow> (logst \<times> bool) outcome" where
  "end_op_locked lg =
     (let lg1 = lg\<lparr>outstanding := outstanding lg - 1\<rparr>
      in if committing lg1 then Panic ''log.committing''
         else if outstanding lg1 = 0 then Ret (lg1\<lparr>committing := True\<rparr>, True)
         else Ret (lg1, False))"

definition end_op :: "int \<Rightarrow> logst \<Rightarrow> bcache \<Rightarrow> (bcache, logst) kcall" where
  "end_op pid lg bc =
     (case end_op_locked lg of
        Panic e \<Rightarrow> KPanic e
      | Ret (lg1, do_commit) \<Rightarrow>
          if do_commit
          then kbind (commit pid lg1 bc) (\<lambda>lg2 bc2. KRet (lg2\<lparr>committing := False\<rparr>) bc2)
          else KRet lg1 bc)"

text \<open>The search of \<open>log_write\<close>: the index of the block, or \<open>n\<close>.\<close>

fun absorb_index :: "u32 list \<Rightarrow> nat \<Rightarrow> nat \<Rightarrow> u32 \<Rightarrow> nat" where
  "absorb_index bs i 0 bno = i"
| "absorb_index bs i (Suc k) bno = (if bs ! i = bno then i else absorb_index bs (Suc i) k bno)"

definition log_write :: "nat \<Rightarrow> logst \<Rightarrow> bcache \<Rightarrow> (logst \<times> bcache) outcome" where
  "log_write b lg bc =
     (if lh_n lg \<ge> LOGBLOCKS then Panic ''too big a transaction''
      else if outstanding lg < 1 then Panic ''log_write outside of trans''
      else let bno = blockno (bufs bc b);
               i = absorb_index (lh_block lg) 0 (lh_n lg) bno;
               lg1 = lg\<lparr>lh_block := (lh_block lg)[i := bno]\<rparr>
           in Ret (if i = lh_n lg then (lg1\<lparr>lh_n := lh_n lg + 1\<rparr>, bpin b bc) else (lg1, bc)))"

section \<open>The header block\<close>

lemma concat_bytes_nth:
  "i < length bs \<Longrightarrow> take 4 (drop (4 * i) (concat (map (bytes_of 4) bs) @ d)) = bytes_of 4 (bs ! i :: u32)"
proof (induction bs arbitrary: i)
  case (Cons b bs)
  show ?case
  proof (cases i)
    case (Suc j)
    then have "drop (4 * i) (concat (map (bytes_of 4) (b # bs)) @ d) = drop (4 * j) (concat (map (bytes_of 4) bs) @ d)"
      by simp
    then show ?thesis using Cons Suc by simp
  qed simp
qed simp

lemma head_roundtrip:
  assumes "n \<le> length bs" "n < 2 ^ 32"
  shows "unat (head_n (put_head n bs d)) = n" "i < n \<Longrightarrow> head_block (put_head n bs d) i = bs ! i"
proof -
  have "unat (of_nat n :: u32) = n" using assms(2) by (simp add: unat_of_nat)
  then show "unat (head_n (put_head n bs d)) = n" by (simp add: head_n_def put_head_def)
  assume i: "i < n"
  then have "i < length (take n bs)" using assms(1) by simp
  from concat_bytes_nth [OF this, of "drop (4 + 4 * n) d"]
  show "head_block (put_head n bs d) i = bs ! i"
    using i by (simp add: head_block_def put_head_def)
qed

section \<open>The log on a quiet buffer cache\<close>

text \<open>
  Between operations no buffer is locked. The log needs two buffers at a time, so at least two must
  be unused (all others may be pinned by the transaction).
\<close>

definition two_free :: "bcache \<Rightarrow> bool" where
  "two_free bc \<longleftrightarrow> (\<exists>x < NBUF. \<exists>y < NBUF. x \<noteq> y \<and> refcnt (bufs bc x) = 0 \<and> refcnt (bufs bc y) = 0)"

definition refs_ok :: "bcache \<Rightarrow> bool" where
  "refs_ok bc \<longleftrightarrow> two_free bc \<and> (\<forall>i < NBUF. unat (refcnt (bufs bc i)) < 2 ^ 31)"

definition ready :: "bcache \<Rightarrow> bool" where
  "ready bc \<longleftrightarrow> (\<exists>l. bc_inv bc l) \<and> refs_ok bc \<and> (\<forall>i < NBUF. slocked (lock (bufs bc i)) = 0)"

lemma ready_refs: "ready bc \<Longrightarrow> refs_ok bc"
  by (simp add: ready_def)

text \<open>How many references a block has.\<close>

definition pins :: "bcache \<Rightarrow> u32 \<Rightarrow> nat" where
  "pins bc b = (\<Sum>i < NBUF. if dev (bufs bc i) = ROOTDEV \<and> blockno (bufs bc i) = b then unat (refcnt (bufs bc i)) else 0)"

lemma pins_same:
  assumes "\<And>i. i < NBUF \<Longrightarrow> refcnt (bufs bc' i) = refcnt (bufs bc i)"
    and "\<And>i. i < NBUF \<Longrightarrow> refcnt (bufs bc i) \<noteq> 0 \<Longrightarrow>
      dev (bufs bc' i) = dev (bufs bc i) \<and> blockno (bufs bc' i) = blockno (bufs bc i)"
  shows "pins bc' b = pins bc b"
  unfolding pins_def
proof (rule sum.cong [OF refl])
  fix i assume "i \<in> {..<NBUF}"
  then show "(if dev (bufs bc' i) = ROOTDEV \<and> blockno (bufs bc' i) = b then unat (refcnt (bufs bc' i)) else 0) =
      (if dev (bufs bc i) = ROOTDEV \<and> blockno (bufs bc i) = b then unat (refcnt (bufs bc i)) else 0)"
    using assms [of i] by (cases "refcnt (bufs bc i) = 0") auto
qed

text \<open>Dropping one reference of the buffer that holds \<open>b\<close>.\<close>

lemma pins_drop:
  assumes j: "j < NBUF" "dev (bufs bc j) = ROOTDEV" "blockno (bufs bc j) = b" "refcnt (bufs bc j) \<noteq> 0"
    and bc': "bufs bc' = (bufs bc)(j := (bufs bc j)\<lparr>refcnt := refcnt (bufs bc j) - 1\<rparr>)"
  shows "pins bc' c = (if c = b then pins bc c - 1 else pins bc c)"
proof -
  let ?t = "\<lambda>bc i. if dev (bufs bc i) = ROOTDEV \<and> blockno (bufs bc i) = c then unat (refcnt (bufs bc i)) else 0"
  have sp: "pins bc0 c = ?t bc0 j + (\<Sum>i \<in> {..<NBUF} - {j}. ?t bc0 i)" for bc0
    unfolding pins_def by (rule sum.remove) (use j(1) in auto)
  have rest: "(\<Sum>i \<in> {..<NBUF} - {j}. ?t bc' i) = (\<Sum>i \<in> {..<NBUF} - {j}. ?t bc i)"
    by (rule sum.cong) (auto simp: bc')
  have "unat (refcnt (bufs bc j) - 1) = unat (refcnt (bufs bc j)) - 1" "0 < unat (refcnt (bufs bc j))"
    using j(4) unat_minus_one [of "refcnt (bufs bc j)"] by (simp_all add: unat_gt_0)
  then have "?t bc' j = (if c = b then ?t bc j - 1 else ?t bc j)" "c = b \<Longrightarrow> 0 < ?t bc j"
    using j bc' by auto
  then show ?thesis unfolding sp [of bc'] sp [of bc] rest by auto
qed

lemma bread_gets:
  assumes inv: "bc_inv bc l" and small: "\<forall>i < NBUF. unat (refcnt (bufs bc i)) + 1 < 2 ^ 32"
    and unl: "\<And>i. i < NBUF \<Longrightarrow> dev (bufs bc i) = ROOTDEV \<Longrightarrow> blockno (bufs bc i) = bno \<Longrightarrow> slocked (lock (bufs bc i)) = 0"
    and av: "\<exists>i < NBUF. refcnt (bufs bc i) = 0"
  obtains i bc' where "bread pid ROOTDEV bno bc = KRet i bc'" "bread_post pid bno bc l i bc'"
proof (cases "\<exists>i < NBUF. dev (bufs bc i) = ROOTDEV \<and> blockno (bufs bc i) = bno")
  case True
  then obtain i where i: "i < NBUF" "dev (bufs bc i) = ROOTDEV" "blockno (bufs bc i) = bno" by blast
  have "refcnt (bufs bc i) + 1 \<noteq> 0"
  proof
    assume "refcnt (bufs bc i) + 1 = 0"
    then have "refcnt (bufs bc i) = - 1" by (simp add: eq_neg_iff_add_eq_0)
    moreover have "unat (refcnt (bufs bc i)) + 1 < 2 ^ 32" using small i(1) by blast
    ultimately show False by (simp add: unsigned_minus_1_eq_mask mask_eq_exp_minus_1)
  qed
  then show ?thesis using bread_hit [OF inv i _ unl [OF i]] that by blast
next
  case False
  have "set l = {..<NBUF}" using inv by (simp add: bc_inv_def)
  then have "List.find (\<lambda>j. refcnt (bufs bc j) = 0) (rev l) \<noteq> None" using av by (auto simp: find_None_iff)
  then obtain i where lru: "List.find (\<lambda>j. refcnt (bufs bc j) = 0) (rev l) = Some i" by blast
  have "\<exists>bc'. bread pid ROOTDEV bno bc = KRet i bc' \<and> bread_post pid bno bc l i bc'"
    by (rule bread_miss [OF inv _ lru]) (use False in blast)
  then show ?thesis using that by blast
qed

text \<open>Overwriting a held buffer and writing it to disk.\<close>

lemma write_held:
  fixes d :: "u8 list"
  assumes inv: "bc_inv bc l" and i: "i < NBUF" "holds_block bc a i" "refcnt (bufs bc i) \<noteq> 0"
  defines "bc' \<equiv> disk_rw i True (upd i (\<lambda>x. x\<lparr>bdata := d\<rparr>) bc)"
  shows "bc_inv bc' l" "lcontent bc' = (lcontent bc)(a := d)" "disk bc' = (disk bc)(a := d)"
    "dwrites bc' = dwrites bc @ [(a, d)]" "bufs bc' = (bufs bc)(i := (bufs bc i)\<lparr>bdata := d\<rparr>)"
proof -
  have h: "dev (bufs bc i) = ROOTDEV" "blockno (bufs bc i) = a" "valid (bufs bc i)"
    using i(2) by (auto simp: holds_block_def)
  show bf: "bufs bc' = (bufs bc)(i := (bufs bc i)\<lparr>bdata := d\<rparr>)"
    and ds: "disk bc' = (disk bc)(a := d)" and "dwrites bc' = dwrites bc @ [(a, d)]"
    by (simp_all add: bc'_def disk_rw_def upd_def Let_def h)
  have uniq: "j = i" if "j < NBUF" "valid (bufs bc j)" "blockno (bufs bc j) = a" for j
  proof -
    have "dev (bufs bc j) = ROOTDEV" using inv that(1,2) unfolding bc_inv_def by blast
    then show ?thesis using bc_inv_unique [OF inv that(1) i(1)] h that(3) by simp
  qed
  have dl: "dll (bufs bc') l" using inv dll_cong [of "bufs bc'" "bufs bc" l] bf by (simp add: bc_inv_def)
  have fields: "dev (bufs bc' j) = dev (bufs bc j)" "blockno (bufs bc' j) = blockno (bufs bc j)"
      "valid (bufs bc' j) = valid (bufs bc j)" "refcnt (bufs bc' j) = refcnt (bufs bc j)"
      "lock (bufs bc' j) = lock (bufs bc j)" "j \<noteq> i \<Longrightarrow> bdata (bufs bc' j) = bdata (bufs bc j)" for j
    by (simp_all add: bf)
  have cl: "slocked (lock (bufs bc' j)) = 0 \<and> (valid (bufs bc' j) \<longrightarrow> bdata (bufs bc' j) = disk bc' (blockno (bufs bc' j)))"
    if j: "j < NBUF" "refcnt (bufs bc' j) = 0" for j
  proof -
    have "j \<noteq> i" using j(2) i(3) by (auto simp: fields)
    moreover have "slocked (lock (bufs bc j)) = 0 \<and> (valid (bufs bc j) \<longrightarrow> bdata (bufs bc j) = disk bc (blockno (bufs bc j)))"
      using inv j unfolding fields bc_inv_def by blast
    ultimately show ?thesis using uniq [OF j(1)] by (auto simp: fields ds)
  qed
  show inv': "bc_inv bc' l"
    using inv dl cl unfolding bc_inv_def fields by blast
  show "lcontent bc' = (lcontent bc)(a := d)"
  proof
    fix b
    show "lcontent bc' b = ((lcontent bc)(a := d)) b"
    proof (cases "b = a")
      case True
      then show ?thesis using lcontent_cached [OF inv' i(1), of a] h by (simp add: holds_block_def fields bf)
    next
      case False
      have "lcontent bc' b = lcontent bc b"
        by (rule lcontent_cong) (use False h in \<open>auto simp: holds_block_def bf ds\<close>)
      then show ?thesis using False by simp
    qed
  qed
qed

text \<open>
  The cache while a process holds the buffers \<open>S\<close>, compared with the ready cache \<open>bc0\<close> it
  started from: one more reference on each buffer of \<open>S\<close>, and no buffer that was in use has
  changed its block.
\<close>

definition held :: "int \<Rightarrow> bcache \<Rightarrow> bcache \<Rightarrow> nat set \<Rightarrow> bool" where
  "held pid bc0 bc S \<longleftrightarrow> (\<exists>l. bc_inv bc l) \<and> S \<subseteq> {..<NBUF} \<and>
     (\<forall>k < NBUF. (if k \<in> S then holdingsleep pid (lock (bufs bc k)) \<and> refcnt (bufs bc k) = refcnt (bufs bc0 k) + 1
          else slocked (lock (bufs bc k)) = 0 \<and> refcnt (bufs bc k) = refcnt (bufs bc0 k))
        \<and> (refcnt (bufs bc0 k) \<noteq> 0 \<longrightarrow>
            dev (bufs bc k) = dev (bufs bc0 k) \<and> blockno (bufs bc k) = blockno (bufs bc0 k)))"

lemma heldD:
  assumes "held pid bc0 bc S" "k < NBUF"
  shows "k \<in> S \<Longrightarrow> holdingsleep pid (lock (bufs bc k))" "k \<in> S \<Longrightarrow> refcnt (bufs bc k) = refcnt (bufs bc0 k) + 1"
    "k \<notin> S \<Longrightarrow> slocked (lock (bufs bc k)) = 0" "k \<notin> S \<Longrightarrow> refcnt (bufs bc k) = refcnt (bufs bc0 k)"
    "refcnt (bufs bc0 k) \<noteq> 0 \<Longrightarrow> dev (bufs bc k) = dev (bufs bc0 k) \<and> blockno (bufs bc k) = blockno (bufs bc0 k)"
proof -
  note h = assms(1) [unfolded held_def, THEN conjunct2, THEN conjunct2, rule_format, OF assms(2)]
  show "k \<in> S \<Longrightarrow> holdingsleep pid (lock (bufs bc k))" "k \<in> S \<Longrightarrow> refcnt (bufs bc k) = refcnt (bufs bc0 k) + 1"
    "k \<notin> S \<Longrightarrow> slocked (lock (bufs bc k)) = 0" "k \<notin> S \<Longrightarrow> refcnt (bufs bc k) = refcnt (bufs bc0 k)"
    "refcnt (bufs bc0 k) \<noteq> 0 \<Longrightarrow> dev (bufs bc k) = dev (bufs bc0 k) \<and> blockno (bufs bc k) = blockno (bufs bc0 k)"
    using h by simp_all
qed

lemma held_S: "held pid bc0 bc S \<Longrightarrow> k \<in> S \<Longrightarrow> k < NBUF"
  by (auto simp: held_def)

lemma refcnt_Suc: "refs_ok bc \<Longrightarrow> k < NBUF \<Longrightarrow> unat (refcnt (bufs bc k) + 1) = unat (refcnt (bufs bc k)) + 1"
proof -
  assume "refs_ok bc" "k < NBUF"
  then have "unat (refcnt (bufs bc k)) < 2 ^ 31" by (simp add: refs_ok_def)
  then show ?thesis using unat_add_lem [of "refcnt (bufs bc k)" 1] by simp
qed

lemma refcnt_Suc_nonzero: "refs_ok bc \<Longrightarrow> k < NBUF \<Longrightarrow> refcnt (bufs bc k) + 1 \<noteq> 0"
  using refcnt_Suc [of bc k] by (metis Suc_eq_plus1 nat.distinct(1) unat_0)

lemma held_start: "ready bc \<Longrightarrow> held pid bc bc {}"
  by (simp add: ready_def held_def)

lemma held_end:
  assumes "refs_ok bc0" "held pid bc0 bc {}"
  shows "ready bc" "pins bc = pins bc0"
proof -
  have r: "refcnt (bufs bc k) = refcnt (bufs bc0 k)" "slocked (lock (bufs bc k)) = 0" if "k < NBUF" for k
    using heldD(3,4) [OF assms(2) that] by simp_all
  have "two_free bc" using assms(1) r(1) unfolding refs_ok_def two_free_def by metis
  then show "ready bc" using assms r unfolding ready_def refs_ok_def held_def by simp
  show "pins bc = pins bc0"
    by (rule ext, rule pins_same) (use r heldD(5) [OF assms(2)] in auto)
qed

lemma held_bread:
  assumes rd: "refs_ok bc0" and h: "held pid bc0 bc S"
    and b: "\<And>k. k \<in> S \<Longrightarrow> dev (bufs bc k) = ROOTDEV \<Longrightarrow> blockno (bufs bc k) \<noteq> b"
    and av: "\<exists>k < NBUF. k \<notin> S \<and> refcnt (bufs bc0 k) = 0"
  obtains i bc' where "bread pid ROOTDEV b bc = KRet i bc'" "i \<notin> S" "i < NBUF" "held pid bc0 bc' (insert i S)"
    "holds_block bc' b i" "bdata (bufs bc' i) = lcontent bc b"
    "lcontent bc' = lcontent bc" "disk bc' = disk bc" "dwrites bc' = dwrites bc"
    "\<And>k. k \<noteq> i \<Longrightarrow> bufs bc' k = bufs bc k" "refcnt (bufs bc0 i) = 0 \<Longrightarrow> bdata (bufs bc' i) = disk bc b"
proof -
  obtain l where inv: "bc_inv bc l" using h by (auto simp: held_def)
  note hd = heldD [OF h]
  have small: "\<forall>k < NBUF. unat (refcnt (bufs bc k)) + 1 < 2 ^ 32"
  proof (intro allI impI)
    fix k assume k: "k < NBUF"
    have "unat (refcnt (bufs bc0 k)) < 2 ^ 31" using rd k by (simp add: refs_ok_def)
    then show "unat (refcnt (bufs bc k)) + 1 < 2 ^ 32"
      using hd(2,4) [OF k] refcnt_Suc [OF rd k] by (cases "k \<in> S") simp_all
  qed
  have unl: "slocked (lock (bufs bc k)) = 0" if "k < NBUF" "dev (bufs bc k) = ROOTDEV" "blockno (bufs bc k) = b" for k
    using hd(3) [OF that(1)] b [of k] that by blast
  have av': "\<exists>k < NBUF. refcnt (bufs bc k) = 0" using av hd(4) by metis
  obtain i bc' where r: "bread pid ROOTDEV b bc = KRet i bc'" and p: "bread_post pid b bc l i bc'"
    using bread_gets [OF inv small unl av'] by blast
  note P = p [unfolded bread_post_def]
  have iS: "i \<notin> S"
  proof
    assume iS: "i \<in> S"
    have i: "i < NBUF" using P by blast
    then have "refcnt (bufs bc i) \<noteq> 0" using hd(2) [OF i iS] refcnt_Suc_nonzero [OF rd i] by simp
    then have "dev (bufs bc i) = ROOTDEV \<and> blockno (bufs bc i) = b" using P by simp
    then show False using b [OF iS] by blast
  qed
  have rc: "refcnt (bufs bc i) = refcnt (bufs bc0 i)" using hd(4) [OF _ iS] P by blast
  have key: "dev (bufs bc' i) = dev (bufs bc0 i) \<and> blockno (bufs bc' i) = blockno (bufs bc0 i)"
    if "refcnt (bufs bc0 i) \<noteq> 0"
    using that rc P hd(5) [of i] by (simp add: holds_block_def)
  have "held pid bc0 bc' (insert i S)"
    unfolding held_def
  proof (intro conjI allI impI)
    show "\<exists>l. bc_inv bc' l" using P by blast
    show "insert i S \<subseteq> {..<NBUF}" using P held_S [OF h] by auto
    fix k assume k: "k < NBUF"
    show "if k \<in> insert i S then holdingsleep pid (lock (bufs bc' k)) \<and> refcnt (bufs bc' k) = refcnt (bufs bc0 k) + 1
        else slocked (lock (bufs bc' k)) = 0 \<and> refcnt (bufs bc' k) = refcnt (bufs bc0 k)"
      using hd(1-4) [OF k] P rc by (cases "k = i") simp_all
    assume u: "refcnt (bufs bc0 k) \<noteq> 0"
    show "dev (bufs bc' k) = dev (bufs bc0 k)" "blockno (bufs bc' k) = blockno (bufs bc0 k)"
      using key hd(5) [OF k u] u P by (cases "k = i"; simp)+
  qed
  moreover have "bdata (bufs bc' i) = disk bc b" if z: "refcnt (bufs bc0 i) = 0"
  proof -
    have "if refcnt (bufs bc i) = 0 then bdata (bufs bc' i) = disk bc b
        else dev (bufs bc i) = ROOTDEV \<and> blockno (bufs bc i) = b"
      using P by blast
    then show ?thesis using z rc by simp
  qed
  moreover have "lcontent bc' = lcontent bc" using P by blast
  ultimately show ?thesis using that [OF r iS] P by blast
qed

lemma bread_first:
  assumes rd: "ready bc"
  obtains i bc' where "bread pid ROOTDEV b bc = KRet i bc'" "i < NBUF" "held pid bc bc' {i}"
    "holds_block bc' b i" "bdata (bufs bc' i) = lcontent bc b"
    "lcontent bc' = lcontent bc" "disk bc' = disk bc" "dwrites bc' = dwrites bc"
    "refcnt (bufs bc i) = 0 \<Longrightarrow> bdata (bufs bc' i) = disk bc b"
proof -
  have av: "\<exists>k < NBUF. k \<notin> {} \<and> refcnt (bufs bc k) = 0" using rd unfolding ready_def refs_ok_def two_free_def by blast
  show ?thesis by (rule held_bread [OF ready_refs [OF rd] held_start [OF rd, of pid] _ av, of b]) (auto intro: that)
qed

lemma held_same:
  assumes h: "held pid bc0 bc S" and inv: "bc_inv bc' l"
    and f: "\<And>k. k < NBUF \<Longrightarrow> dev (bufs bc' k) = dev (bufs bc k) \<and> blockno (bufs bc' k) = blockno (bufs bc k)
      \<and> refcnt (bufs bc' k) = refcnt (bufs bc k) \<and> lock (bufs bc' k) = lock (bufs bc k)"
  shows "held pid bc0 bc' S"
  using h inv f unfolding held_def by auto

lemma held_write:
  fixes d :: "u8 list"
  assumes rd: "refs_ok bc0" and h: "held pid bc0 bc S" and i: "i \<in> S" "holds_block bc a i"
  obtains bc' where "bwrite pid i (upd i (\<lambda>x. x\<lparr>bdata := d\<rparr>) bc) = KRet () bc'" "held pid bc0 bc' S"
    "lcontent bc' = (lcontent bc)(a := d)" "disk bc' = (disk bc)(a := d)"
    "dwrites bc' = dwrites bc @ [(a, d)]" "bufs bc' = (bufs bc)(i := (bufs bc i)\<lparr>bdata := d\<rparr>)"
proof -
  obtain l where inv: "bc_inv bc l" using h by (auto simp: held_def)
  have ib: "i < NBUF" using held_S [OF h i(1)] .
  have nz: "refcnt (bufs bc i) \<noteq> 0" using heldD(2) [OF h ib i(1)] refcnt_Suc_nonzero [OF rd ib] by simp
  note W = write_held [OF inv ib i(2) nz, of d]
  have "held pid bc0 (disk_rw i True (upd i (\<lambda>x. x\<lparr>bdata := d\<rparr>) bc)) S"
    by (rule held_same [OF h W(1)]) (simp add: W(5))
  moreover have "bwrite pid i (upd i (\<lambda>x. x\<lparr>bdata := d\<rparr>) bc) = KRet () (disk_rw i True (upd i (\<lambda>x. x\<lparr>bdata := d\<rparr>) bc))"
    using heldD(1) [OF h ib i(1)] by (simp add: bwrite_def)
  ultimately show ?thesis using that W by blast
qed

lemma held_brelse:
  assumes rd: "refs_ok bc0" and h: "held pid bc0 bc S" and i: "i \<in> S"
    and clean: "refcnt (bufs bc0 i) = 0 \<Longrightarrow> bdata (bufs bc i) = disk bc (blockno (bufs bc i))"
  obtains bc' where "brelse pid i bc = KRet () bc'" "held pid bc0 bc' (S - {i})"
    "lcontent bc' = lcontent bc" "disk bc' = disk bc" "dwrites bc' = dwrites bc"
    "\<And>k. same_key (bufs bc' k) (bufs bc k)"
proof -
  obtain l where inv: "bc_inv bc l" using h by (auto simp: held_def)
  have ib: "i < NBUF" using held_S [OF h i(1)] .
  note hi = heldD(1,2) [OF h ib i]
  have nz: "refcnt (bufs bc i) \<noteq> 0" using hi refcnt_Suc_nonzero [OF rd ib] by simp
  have cl: "refcnt (bufs bc i) = 1 \<Longrightarrow> valid (bufs bc i) \<Longrightarrow> bdata (bufs bc i) = disk bc (blockno (bufs bc i))"
    using clean hi(2) by simp
  from brelse_spec [OF inv ib nz hi(1) cl] obtain bc' where
    r: "brelse pid i bc = KRet () bc'" "bc_inv bc' (if refcnt (bufs bc i) = 1 then i # remove1 i l else l)"
      "\<forall>b. lcontent bc' b = lcontent bc b" "disk bc' = disk bc" "dwrites bc' = dwrites bc"
      "refcnt (bufs bc' i) = refcnt (bufs bc i) - 1" "slocked (lock (bufs bc' i)) = 0"
      "\<forall>j. same_key (bufs bc' j) (bufs bc j) \<and> (j \<noteq> i \<longrightarrow> same_use (bufs bc' j) (bufs bc j))"
    by blast
  have "held pid bc0 bc' (S - {i})"
    unfolding held_def
  proof (intro conjI allI impI)
    show "\<exists>l. bc_inv bc' l" using r(2) by blast
    show "S - {i} \<subseteq> {..<NBUF}" using held_S [OF h] by auto
    fix k assume k: "k < NBUF"
    show "if k \<in> S - {i} then holdingsleep pid (lock (bufs bc' k)) \<and> refcnt (bufs bc' k) = refcnt (bufs bc0 k) + 1
        else slocked (lock (bufs bc' k)) = 0 \<and> refcnt (bufs bc' k) = refcnt (bufs bc0 k)"
      using heldD(1-4) [OF h k] r(6-8) hi(2) by (cases "k = i") (simp_all add: same_use_def)
    assume u: "refcnt (bufs bc0 k) \<noteq> 0"
    show "dev (bufs bc' k) = dev (bufs bc0 k)" "blockno (bufs bc' k) = blockno (bufs bc0 k)"
      using heldD(5) [OF h k u] r(8) by (simp_all add: same_key_def)
  qed
  then show ?thesis using that [of bc'] r by (auto simp: fun_eq_iff)
qed

text \<open>One iteration of \<open>write_log\<close>: the block goes to its log slot, in the cache and on disk.\<close>

lemma log_copy_spec:
  assumes rd: "ready bc" and ne: "start + of_nat tail + 1 \<noteq> bno"
  defines "a \<equiv> start + of_nat tail + 1"
  obtains bc' where "log_copy pid start tail bno bc = KRet () bc'" "ready bc'"
    "lcontent bc' = (lcontent bc)(a := lcontent bc bno)" "disk bc' = (disk bc)(a := lcontent bc bno)"
    "dwrites bc' = dwrites bc @ [(a, lcontent bc bno)]" "pins bc' = pins bc"
proof -
  note rf = ready_refs [OF rd]
  obtain x y where xy: "x < NBUF" "y < NBUF" "x \<noteq> y" "refcnt (bufs bc x) = 0" "refcnt (bufs bc y) = 0"
    using rd unfolding ready_def refs_ok_def two_free_def by blast
  obtain i bc1 where b1: "bread pid ROOTDEV a bc = KRet i bc1" "i < NBUF" "held pid bc bc1 {i}"
      "holds_block bc1 a i" "lcontent bc1 = lcontent bc" "disk bc1 = disk bc" "dwrites bc1 = dwrites bc"
    using bread_first [OF rd, of pid a] by metis
  have nb: "\<And>k. k \<in> {i} \<Longrightarrow> dev (bufs bc1 k) = ROOTDEV \<Longrightarrow> blockno (bufs bc1 k) \<noteq> bno"
    using b1(4) ne by (auto simp: holds_block_def a_def)
  have av: "\<exists>k < NBUF. k \<notin> {i} \<and> refcnt (bufs bc k) = 0" using xy by (metis singletonD)
  obtain j bc2 where b2: "bread pid ROOTDEV bno bc1 = KRet j bc2" "j \<notin> {i}" "held pid bc bc2 (insert j {i})"
      "holds_block bc2 bno j" "bdata (bufs bc2 j) = lcontent bc1 bno" "lcontent bc2 = lcontent bc1"
      "disk bc2 = disk bc1" "dwrites bc2 = dwrites bc1" "\<And>k. k \<noteq> j \<Longrightarrow> bufs bc2 k = bufs bc1 k"
      "refcnt (bufs bc j) = 0 \<Longrightarrow> bdata (bufs bc2 j) = disk bc1 bno"
    using held_bread [OF rf b1(3) nb av] by metis
  let ?d = "lcontent bc bno"
  have d: "bdata (bufs bc2 j) = ?d" using b2(5) b1(5) by simp
  have hi: "holds_block bc2 a i" using b1(4) b2(2,9) by (simp add: holds_block_def)
  obtain bc3 where b3: "bwrite pid i (upd i (\<lambda>x. x\<lparr>bdata := ?d\<rparr>) bc2) = KRet () bc3" "held pid bc bc3 (insert j {i})"
      "lcontent bc3 = (lcontent bc2)(a := ?d)" "disk bc3 = (disk bc2)(a := ?d)"
      "dwrites bc3 = dwrites bc2 @ [(a, ?d)]" "bufs bc3 = (bufs bc2)(i := (bufs bc2 i)\<lparr>bdata := ?d\<rparr>)"
    using held_write [OF rf b2(3) _ hi, of ?d] by blast
  have bj: "blockno (bufs bc3 j) = bno" "bdata (bufs bc3 j) = bdata (bufs bc2 j)"
    using b2(2,4) b3(6) by (auto simp: holds_block_def)
  have cj: "bdata (bufs bc3 j) = disk bc3 (blockno (bufs bc3 j))" if "refcnt (bufs bc j) = 0"
    unfolding bj b3(4) using b2(7,10) that ne by (simp add: a_def)
  obtain bc4 where b4: "brelse pid j bc3 = KRet () bc4" "held pid bc bc4 (insert j {i} - {j})"
      "lcontent bc4 = lcontent bc3" "disk bc4 = disk bc3" "dwrites bc4 = dwrites bc3"
      "\<And>k. same_key (bufs bc4 k) (bufs bc3 k)"
    using held_brelse [OF rf b3(2) _ cj] by blast
  have h4: "held pid bc bc4 {i}" using b4(2) b2(2) by (simp add: insert_Diff_if)
  have "bdata (bufs bc4 i) = ?d" "blockno (bufs bc4 i) = a"
    using b4(6) [of i] hi b3(6) by (auto simp: same_key_def holds_block_def)
  then have ci: "bdata (bufs bc4 i) = disk bc4 (blockno (bufs bc4 i))" using b4(4) b3(4) by simp
  obtain bc5 where b5: "brelse pid i bc4 = KRet () bc5" "held pid bc bc5 ({i} - {i})"
      "lcontent bc5 = lcontent bc4" "disk bc5 = disk bc4" "dwrites bc5 = dwrites bc4"
    using held_brelse [OF rf h4 _ ci] by blast
  have "log_copy pid start tail bno bc = KRet () bc5"
    unfolding log_copy_def a_def [symmetric] using b1(1) b2(1) b3(1) b4(1) b5(1) d by simp
  moreover have "held pid bc bc5 {}" using b5(2) by simp
  ultimately show ?thesis
    using that held_end [OF rf] b1 b2 b3 b4 b5 by simp
qed

text \<open>Unpinning a held buffer, seen against the same change to the starting state.\<close>

lemma held_unpin:
  assumes rf: "refs_ok bc0" and h: "held pid bc0 bc S" and j: "j \<in> S" "refcnt (bufs bc0 j) \<noteq> 0"
  shows "refs_ok (bunpin j bc0)" "held pid (bunpin j bc0) (bunpin j bc) S"
proof -
  have jb: "j < NBUF" using held_S [OF h j(1)] .
  have dec: "unat (refcnt (bufs bc0 j) - 1) = unat (refcnt (bufs bc0 j)) - 1"
    using unat_minus_one j(2) by blast
  show "refs_ok (bunpin j bc0)"
    unfolding refs_ok_def
  proof (intro conjI allI impI)
    obtain x y where "x < NBUF" "y < NBUF" "x \<noteq> y" "refcnt (bufs bc0 x) = 0" "refcnt (bufs bc0 y) = 0"
      using rf unfolding refs_ok_def two_free_def by blast
    moreover then have "x \<noteq> j" "y \<noteq> j" using j(2) by auto
    ultimately show "two_free (bunpin j bc0)" unfolding two_free_def bunpin_def by auto
    fix i assume i: "i < NBUF"
    then have "unat (refcnt (bufs bc0 i)) < 2 ^ 31" using rf by (simp add: refs_ok_def)
    then show "unat (refcnt (bufs (bunpin j bc0) i)) < 2 ^ 31" using dec by (auto simp: bunpin_def)
  qed
  obtain l where inv: "bc_inv bc l" using h by (auto simp: held_def)
  note hj = heldD(1,2) [OF h jb j(1)]
  have "bc_inv (bunpin j bc) l"
  proof (rule bc_inv_upd [OF inv])
    let ?b = "(bufs bc j)\<lparr>refcnt := refcnt (bufs bc j) - 1\<rparr>"
    show "bufs (bunpin j bc) = (bufs bc)(j := ?b)" by (simp add: bunpin_def upd_def)
    show "dev ?b = 0" if "k < NBUF" "k \<noteq> j" "dev (bufs bc k) = dev ?b" "blockno (bufs bc k) = blockno ?b" for k
      using inv jb that unfolding bc_inv_def by simp blast
    show "valid ?b \<Longrightarrow> dev ?b = ROOTDEV" using inv jb unfolding bc_inv_def by simp
    show "refcnt ?b = 0 \<Longrightarrow> slocked (lock ?b) = 0 \<and> (valid ?b \<longrightarrow> bdata ?b = disk bc (blockno ?b))"
      using hj(2) j(2) by simp
  qed (simp_all add: bunpin_def)
  then show "held pid (bunpin j bc0) (bunpin j bc) S"
    using h j unfolding held_def by (auto simp: bunpin_def)
qed

lemma pins_pos: "0 < pins bc b \<Longrightarrow> \<exists>k < NBUF. dev (bufs bc k) = ROOTDEV \<and> blockno (bufs bc k) = b \<and> refcnt (bufs bc k) \<noteq> 0"
proof (rule ccontr)
  assume p: "0 < pins bc b" and n: "\<not> (\<exists>k < NBUF. dev (bufs bc k) = ROOTDEV \<and> blockno (bufs bc k) = b \<and> refcnt (bufs bc k) \<noteq> 0)"
  then have "pins bc b = 0" unfolding pins_def by (intro sum.neutral) auto
  then show False using p by simp
qed

text \<open>One iteration of \<open>install_trans\<close>: the log slot goes to its home block.\<close>

lemma install_one_spec:
  assumes rd: "ready bc" and ne: "start + of_nat tail + 1 \<noteq> bno" and pn: "\<not> recovering \<Longrightarrow> 0 < pins bc bno"
  defines "a \<equiv> start + of_nat tail + 1"
  obtains bc' where "install_one pid recovering start tail bno bc = KRet () bc'" "ready bc'"
    "lcontent bc' = (lcontent bc)(bno := lcontent bc a)" "disk bc' = (disk bc)(bno := lcontent bc a)"
    "dwrites bc' = dwrites bc @ [(bno, lcontent bc a)]"
    "pins bc' = (if recovering then pins bc else (pins bc)(bno := pins bc bno - 1))"
proof -
  note rf = ready_refs [OF rd]
  obtain x y where xy: "x < NBUF" "y < NBUF" "x \<noteq> y" "refcnt (bufs bc x) = 0" "refcnt (bufs bc y) = 0"
    using rd unfolding ready_def refs_ok_def two_free_def by blast
  obtain i bc1 where b1: "bread pid ROOTDEV a bc = KRet i bc1" "i < NBUF" "held pid bc bc1 {i}"
      "holds_block bc1 a i" "bdata (bufs bc1 i) = lcontent bc a" "lcontent bc1 = lcontent bc" "disk bc1 = disk bc"
      "dwrites bc1 = dwrites bc" "refcnt (bufs bc i) = 0 \<Longrightarrow> bdata (bufs bc1 i) = disk bc a"
    using bread_first [OF rd, of pid a] by metis
  have nb: "\<And>k. k \<in> {i} \<Longrightarrow> dev (bufs bc1 k) = ROOTDEV \<Longrightarrow> blockno (bufs bc1 k) \<noteq> bno"
    using b1(4) ne by (auto simp: holds_block_def a_def)
  have av: "\<exists>k < NBUF. k \<notin> {i} \<and> refcnt (bufs bc k) = 0" using xy by (metis singletonD)
  obtain j bc2 where b2: "bread pid ROOTDEV bno bc1 = KRet j bc2" "j \<notin> {i}" "j < NBUF" "held pid bc bc2 (insert j {i})"
      "holds_block bc2 bno j" "lcontent bc2 = lcontent bc1" "disk bc2 = disk bc1" "dwrites bc2 = dwrites bc1"
      "\<And>k. k \<noteq> j \<Longrightarrow> bufs bc2 k = bufs bc1 k"
    using held_bread [OF rf b1(3) nb av] by metis
  let ?d = "lcontent bc a"
  have bi: "bufs bc2 i = bufs bc1 i" using b2(2,9) by simp
  then have d: "bdata (bufs bc2 i) = ?d" using b1(5) by simp
  obtain bc3 where b3: "bwrite pid j (upd j (\<lambda>x. x\<lparr>bdata := ?d\<rparr>) bc2) = KRet () bc3" "held pid bc bc3 (insert j {i})"
      "lcontent bc3 = (lcontent bc2)(bno := ?d)" "disk bc3 = (disk bc2)(bno := ?d)"
      "dwrites bc3 = dwrites bc2 @ [(bno, ?d)]" "bufs bc3 = (bufs bc2)(j := (bufs bc2 j)\<lparr>bdata := ?d\<rparr>)"
    using held_write [OF rf b2(4) _ b2(5), of ?d] by blast
  define bc0 where "bc0 = (if recovering then bc else bunpin j bc)"
  define bc3' where "bc3' = (if recovering then bc3 else bunpin j bc3)"
  have pj: "dev (bufs bc j) = ROOTDEV" "blockno (bufs bc j) = bno" "refcnt (bufs bc j) \<noteq> 0" if nr: "\<not> recovering"
  proof -
    obtain k where k: "k < NBUF" "dev (bufs bc k) = ROOTDEV" "blockno (bufs bc k) = bno" "refcnt (bufs bc k) \<noteq> 0"
      using pins_pos [OF pn [OF nr]] by blast
    have "dev (bufs bc2 k) = ROOTDEV" "blockno (bufs bc2 k) = bno" using heldD(5) [OF b2(4) k(1,4)] k by simp_all
    moreover obtain l where "bc_inv bc2 l" using b2(4) by (auto simp: held_def)
    ultimately have "k = j" using bc_inv_unique [of bc2 l k j] k(1) b2(3,5) by (simp add: holds_block_def)
    then show "dev (bufs bc j) = ROOTDEV" "blockno (bufs bc j) = bno" "refcnt (bufs bc j) \<noteq> 0" using k by simp_all
  qed
  have rf0: "refs_ok bc0" and h3: "held pid bc0 bc3' (insert j {i})"
    using held_unpin [OF rf b3(2), of j] pj(3) rf b3(2) by (simp_all add: bc0_def bc3'_def)
  have pins0: "pins bc0 = (if recovering then pins bc else (pins bc)(bno := pins bc bno - 1))"
  proof (cases recovering)
    case False
    have "pins (bunpin j bc) c = (if c = bno then pins bc c - 1 else pins bc c)" for c
      by (rule pins_drop [OF b2(3) pj [OF False]]) (simp add: bunpin_def upd_def)
    then show ?thesis using False by (auto simp: bc0_def fun_eq_iff)
  qed (simp add: bc0_def)
  have same3: "bdata (bufs bc3' k) = bdata (bufs bc3 k)" "blockno (bufs bc3' k) = blockno (bufs bc3 k)"
      "disk bc3' = disk bc3" "dwrites bc3' = dwrites bc3" for k
    by (simp_all add: bc3'_def bunpin_def)
  have lc3: "lcontent bc3' = lcontent bc3"
    by (rule ext, rule lcontent_cong) (auto simp: bc3'_def bunpin_def holds_block_def)
  have ri: "refcnt (bufs bc0 i) = refcnt (bufs bc i)" using b2(2) by (simp add: bc0_def bunpin_def)
  have ci: "bdata (bufs bc3' i) = disk bc3' (blockno (bufs bc3' i))" if "refcnt (bufs bc0 i) = 0"
  proof -
    have "bufs bc3 i = bufs bc1 i" using b3(6) bi b2(2) by auto
    moreover have "bdata (bufs bc1 i) = disk bc a" using b1(9) that ri by simp
    ultimately show ?thesis
      unfolding same3 b3(4) using b1(4,7) b2(7) ne by (simp add: holds_block_def a_def)
  qed
  obtain bc4 where b4: "brelse pid i bc3' = KRet () bc4" "held pid bc0 bc4 (insert j {i} - {i})"
      "lcontent bc4 = lcontent bc3'" "disk bc4 = disk bc3'" "dwrites bc4 = dwrites bc3'"
      "\<And>k. same_key (bufs bc4 k) (bufs bc3' k)"
    using held_brelse [OF rf0 h3 _ ci] by blast
  have h4: "held pid bc0 bc4 {j}" using b4(2) b2(2) by (simp add: insert_Diff_if)
  have cj: "bdata (bufs bc4 j) = disk bc4 (blockno (bufs bc4 j))"
    using b4(4) b4(6) [of j] b2(5) b3(4,6) same3 by (simp add: same_key_def holds_block_def)
  obtain bc5 where b5: "brelse pid j bc4 = KRet () bc5" "held pid bc0 bc5 ({j} - {j})"
      "lcontent bc5 = lcontent bc4" "disk bc5 = disk bc4" "dwrites bc5 = dwrites bc4"
    using held_brelse [OF rf0 h4 _ cj] by blast
  have "install_one pid recovering start tail bno bc = KRet () bc5"
    unfolding install_one_def a_def [symmetric] using b1(1) b2(1) b3(1) b4(1) b5(1) d by (simp add: bc3'_def)
  moreover have "held pid bc0 bc5 {}" using b5(2) by simp
  ultimately show ?thesis
    using that held_end [OF rf0] b1 b2 b3 b4 b5 lc3 same3 pins0 by simp
qed

lemma write_head_spec:
  fixes lg :: logst
  assumes rd: "ready bc"
  defines "d \<equiv> put_head (lh_n lg) (lh_block lg) (lcontent bc (lstart lg))"
  obtains bc' where "write_head pid lg bc = KRet () bc'" "ready bc'"
    "lcontent bc' = (lcontent bc)(lstart lg := d)" "disk bc' = (disk bc)(lstart lg := d)"
    "dwrites bc' = dwrites bc @ [(lstart lg, d)]" "pins bc' = pins bc"
proof -
  note rf = ready_refs [OF rd]
  let ?a = "lstart lg"
  obtain i bc1 where b1: "bread pid ROOTDEV ?a bc = KRet i bc1" "i < NBUF" "held pid bc bc1 {i}"
      "holds_block bc1 ?a i" "bdata (bufs bc1 i) = lcontent bc ?a" "lcontent bc1 = lcontent bc" "disk bc1 = disk bc"
      "dwrites bc1 = dwrites bc"
    using bread_first [OF rd, of pid ?a] by metis
  obtain bc2 where b2: "bwrite pid i (upd i (\<lambda>x. x\<lparr>bdata := d\<rparr>) bc1) = KRet () bc2" "held pid bc bc2 {i}"
      "lcontent bc2 = (lcontent bc1)(?a := d)" "disk bc2 = (disk bc1)(?a := d)"
      "dwrites bc2 = dwrites bc1 @ [(?a, d)]" "bufs bc2 = (bufs bc1)(i := (bufs bc1 i)\<lparr>bdata := d\<rparr>)"
    using held_write [OF rf b1(3) _ b1(4), of d] by blast
  have ci: "bdata (bufs bc2 i) = disk bc2 (blockno (bufs bc2 i))"
    using b2(4,6) b1(4) by (simp add: holds_block_def)
  obtain bc3 where b3: "brelse pid i bc2 = KRet () bc3" "held pid bc bc3 ({i} - {i})"
      "lcontent bc3 = lcontent bc2" "disk bc3 = disk bc2" "dwrites bc3 = dwrites bc2"
    using held_brelse [OF rf b2(2) _ ci] by blast
  have "upd i (\<lambda>x. x\<lparr>bdata := put_head (lh_n lg) (lh_block lg) (bdata x)\<rparr>) bc1 = upd i (\<lambda>x. x\<lparr>bdata := d\<rparr>) bc1"
    using b1(5) by (simp add: upd_def d_def)
  then have "write_head pid lg bc = KRet () bc3"
    unfolding write_head_def using b1(1) b2(1) b3(1) by simp
  moreover have "held pid bc bc3 {}" using b3(2) by simp
  ultimately show ?thesis using that held_end [OF rf] b1 b2 b3 by simp
qed

lemma read_head_spec:
  fixes lg :: logst
  assumes rd: "ready bc"
  defines "d \<equiv> lcontent bc (lstart lg)"
  obtains bc' where "read_head pid lg bc = KRet (lg\<lparr>lh_n := unat (head_n d),
      lh_block := map (head_block d) [0..<unat (head_n d)] @ drop (unat (head_n d)) (lh_block lg)\<rparr>) bc'"
    "ready bc'" "lcontent bc' = lcontent bc" "disk bc' = disk bc" "dwrites bc' = dwrites bc"
proof -
  note rf = ready_refs [OF rd]
  let ?a = "lstart lg"
  obtain i bc1 where b1: "bread pid ROOTDEV ?a bc = KRet i bc1" "i < NBUF" "held pid bc bc1 {i}"
      "holds_block bc1 ?a i" "bdata (bufs bc1 i) = d" "lcontent bc1 = lcontent bc" "disk bc1 = disk bc"
      "dwrites bc1 = dwrites bc" "refcnt (bufs bc i) = 0 \<Longrightarrow> bdata (bufs bc1 i) = disk bc ?a"
    using bread_first [OF rd, of pid ?a] unfolding d_def by metis
  have ci: "bdata (bufs bc1 i) = disk bc1 (blockno (bufs bc1 i))" if "refcnt (bufs bc i) = 0"
    using b1(4,7,9) that by (simp add: holds_block_def)
  obtain bc2 where b2: "brelse pid i bc1 = KRet () bc2" "held pid bc bc2 ({i} - {i})"
      "lcontent bc2 = lcontent bc1" "disk bc2 = disk bc1" "dwrites bc2 = dwrites bc1"
    using held_brelse [OF rf b1(3) _ ci] by blast
  have "held pid bc bc2 {}" using b2(2) by simp
  then show ?thesis
    using that [of bc2] held_end [OF rf] b1 b2 by (simp add: read_head_def Let_def)
qed

end
