(* ===== verification/Logcrash.thy ===== *)
theory Logcrash
  imports Log
begin

text \<open>
  The write-ahead log as a protocol: what order of disk writes a commit makes (\<open>log_device\<close>, an
  interface the buffer cache provides), that recovery after a crash at any point of a commit gives the
  old or the new contents of all blocks, and that log space is never exceeded.
\<close>

section \<open>The interface the log needs\<close>

fun each_block :: "(nat \<Rightarrow> u32 \<Rightarrow> 's \<Rightarrow> ('s, unit) kcall) \<Rightarrow> nat \<Rightarrow> u32 list \<Rightarrow> 's \<Rightarrow> ('s, unit) kcall" where
  "each_block f t [] s = KRet () s"
| "each_block f t (b # bs) s = kbind (f t b s) (\<lambda>_ s1. each_block f (Suc t) bs s1)"

fun apply_writes :: "(u32 \<Rightarrow> u8 list) \<Rightarrow> (u32 \<times> u8 list) list \<Rightarrow> u32 \<Rightarrow> u8 list" where
  "apply_writes d [] = d"
| "apply_writes d (w # ws) = apply_writes (d(fst w := snd w)) ws"

lemma apply_writes_append: "apply_writes d (xs @ ys) = apply_writes (apply_writes d xs) ys"
  by (induction xs arbitrary: d) auto

lemma apply_writes_other: "b \<notin> fst ` set ws \<Longrightarrow> apply_writes d ws b = d b"
  by (induction ws arbitrary: d) auto

lemma apply_writes_at:
  "distinct (map fst ws) \<Longrightarrow> (b, x) \<in> set ws \<Longrightarrow> apply_writes d ws b = x"
proof (induction ws arbitrary: d)
  case (Cons w ws)
  show ?case
  proof (cases "w = (b, x)")
    case True
    then have "b \<notin> fst ` set ws" using Cons.prems(1) by auto
    then show ?thesis using True by (simp add: apply_writes_other)
  qed (use Cons in auto)
qed simp

definition save_writes :: "u32 \<Rightarrow> nat \<Rightarrow> u32 list \<Rightarrow> (u32 \<Rightarrow> u8 list) \<Rightarrow> (u32 \<times> u8 list) list" where
  "save_writes h t bs lc = map (\<lambda>(k, b). (h + of_nat k + 1, lc b)) (enumerate t bs)"

definition home_writes :: "u32 \<Rightarrow> nat \<Rightarrow> u32 list \<Rightarrow> (u32 \<Rightarrow> u8 list) \<Rightarrow> (u32 \<times> u8 list) list" where
  "home_writes h t bs lc = map (\<lambda>(k, b). (b, lc (h + of_nat k + 1))) (enumerate t bs)"

lemma save_writes_Cons: "save_writes h t (b # bs) lc = (h + of_nat t + 1, lc b) # save_writes h (Suc t) bs lc"
  by (simp add: save_writes_def)

lemma home_writes_Cons: "home_writes h t (b # bs) lc = (b, lc (h + of_nat t + 1)) # home_writes h (Suc t) bs lc"
  by (simp add: home_writes_def)

lemma save_writes_cong: "(\<And>b. b \<in> set bs \<Longrightarrow> lc b = lc' b) \<Longrightarrow> save_writes h t bs lc = save_writes h t bs lc'"
  by (induction bs arbitrary: t) (auto simp: save_writes_Cons, simp add: save_writes_def)

lemma home_writes_cong:
  "(\<And>k. k < t + length bs \<Longrightarrow> lc (h + of_nat k + 1) = lc' (h + of_nat k + 1)) \<Longrightarrow>
     home_writes h t bs lc = home_writes h t bs lc'"
  unfolding home_writes_def by (rule map_cong) (auto simp: in_set_enumerate_eq)

text \<open>
  A device with a cached view \<open>lc\<close>, a disk \<open>dk\<close>, the trace \<open>tr\<close> of writes and references
  \<open>pn\<close>. \<open>copy\<close> saves a block in log slot \<open>t\<close>, \<open>inst\<close> brings a slot home, \<open>head\<close> writes the
  header block \<open>h\<close>.
\<close>

locale log_device =
  fixes h :: u32
    and rdy :: "'s \<Rightarrow> bool" and lc dk :: "'s \<Rightarrow> u32 \<Rightarrow> u8 list"
    and tr :: "'s \<Rightarrow> (u32 \<times> u8 list) list" and pn :: "'s \<Rightarrow> u32 \<Rightarrow> nat"
    and copy :: "nat \<Rightarrow> u32 \<Rightarrow> 's \<Rightarrow> ('s, unit) kcall"
    and inst :: "bool \<Rightarrow> nat \<Rightarrow> u32 \<Rightarrow> 's \<Rightarrow> ('s, unit) kcall"
    and head :: "nat \<Rightarrow> u32 list \<Rightarrow> 's \<Rightarrow> ('s, unit) kcall"
  assumes copy_law: "rdy s \<Longrightarrow> h + of_nat t + 1 \<noteq> b \<Longrightarrow>
      \<exists>s'. copy t b s = KRet () s' \<and> rdy s' \<and> pn s' = pn s \<and> lc s' = (lc s)(h + of_nat t + 1 := lc s b)
        \<and> dk s' = (dk s)(h + of_nat t + 1 := lc s b) \<and> tr s' = tr s @ [(h + of_nat t + 1, lc s b)]"
    and inst_law: "rdy s \<Longrightarrow> h + of_nat t + 1 \<noteq> b \<Longrightarrow> (\<not> rec \<longrightarrow> 0 < pn s b) \<Longrightarrow>
      \<exists>s'. inst rec t b s = KRet () s' \<and> rdy s' \<and> lc s' = (lc s)(b := lc s (h + of_nat t + 1))
        \<and> dk s' = (dk s)(b := lc s (h + of_nat t + 1)) \<and> tr s' = tr s @ [(b, lc s (h + of_nat t + 1))]
        \<and> pn s' = (if rec then pn s else (pn s)(b := pn s b - 1))"
    and head_law: "rdy s \<Longrightarrow>
      \<exists>s'. head n bs s = KRet () s' \<and> rdy s' \<and> pn s' = pn s \<and> lc s' = (lc s)(h := put_head n bs (lc s h))
        \<and> dk s' = (dk s)(h := put_head n bs (lc s h)) \<and> tr s' = tr s @ [(h, put_head n bs (lc s h))]"
begin

text \<open>\<open>write_log\<close> and \<open>install_trans\<close> as the writes they make.\<close>

lemma copy_all:
  "rdy s \<Longrightarrow> (\<And>b k. b \<in> set bs \<Longrightarrow> k < t + length bs \<Longrightarrow> h + of_nat k + 1 \<noteq> b) \<Longrightarrow>
     \<exists>s'. each_block copy t bs s = KRet () s' \<and> rdy s' \<and> pn s' = pn s
       \<and> lc s' = apply_writes (lc s) (save_writes h t bs (lc s))
       \<and> dk s' = apply_writes (dk s) (save_writes h t bs (lc s))
       \<and> tr s' = tr s @ save_writes h t bs (lc s)"
proof (induction bs arbitrary: t s)
  case Nil
  then show ?case by (simp add: save_writes_def)
next
  case (Cons b bs)
  have ne: "h + of_nat t + 1 \<noteq> b" using Cons.prems(2) [of b t] by simp
  obtain s1 where s1: "copy t b s = KRet () s1" "rdy s1" "pn s1 = pn s" "lc s1 = (lc s)(h + of_nat t + 1 := lc s b)"
      "dk s1 = (dk s)(h + of_nat t + 1 := lc s b)" "tr s1 = tr s @ [(h + of_nat t + 1, lc s b)]"
    using copy_law [OF Cons.prems(1) ne] by blast
  have "lc s1 c = lc s c" if "c \<in> set bs" for c using s1(4) Cons.prems(2) [of c t] that by auto
  then have sw: "save_writes h (Suc t) bs (lc s1) = save_writes h (Suc t) bs (lc s)"
    by (rule save_writes_cong)
  have "\<exists>s'. each_block copy (Suc t) bs s1 = KRet () s' \<and> rdy s' \<and> pn s' = pn s1
       \<and> lc s' = apply_writes (lc s1) (save_writes h (Suc t) bs (lc s1))
       \<and> dk s' = apply_writes (dk s1) (save_writes h (Suc t) bs (lc s1))
       \<and> tr s' = tr s1 @ save_writes h (Suc t) bs (lc s1)"
    by (rule Cons.IH [OF s1(2)]) (use Cons.prems(2) in auto)
  then show ?case using s1 sw by (auto simp: save_writes_Cons)
qed

lemma inst_all:
  "rdy s \<Longrightarrow> (\<And>b k. b \<in> set bs \<Longrightarrow> k < t + length bs \<Longrightarrow> h + of_nat k + 1 \<noteq> b) \<Longrightarrow>
     (\<not> rec \<longrightarrow> distinct bs \<and> (\<forall>b \<in> set bs. 0 < pn s b)) \<Longrightarrow>
     \<exists>s'. each_block (inst rec) t bs s = KRet () s' \<and> rdy s'
       \<and> lc s' = apply_writes (lc s) (home_writes h t bs (lc s))
       \<and> dk s' = apply_writes (dk s) (home_writes h t bs (lc s))
       \<and> tr s' = tr s @ home_writes h t bs (lc s)"
proof (induction bs arbitrary: t s)
  case Nil
  then show ?case by (simp add: home_writes_def)
next
  case (Cons b bs)
  have ne: "h + of_nat t + 1 \<noteq> b" using Cons.prems(2) [of b t] by simp
  have pb: "\<not> rec \<longrightarrow> 0 < pn s b" using Cons.prems(3) by simp
  obtain s1 where s1: "inst rec t b s = KRet () s1" "rdy s1" "lc s1 = (lc s)(b := lc s (h + of_nat t + 1))"
      "dk s1 = (dk s)(b := lc s (h + of_nat t + 1))" "tr s1 = tr s @ [(b, lc s (h + of_nat t + 1))]"
      "pn s1 = (if rec then pn s else (pn s)(b := pn s b - 1))"
    using inst_law [OF Cons.prems(1) ne pb] by blast
  have "lc s1 (h + of_nat k + 1) = lc s (h + of_nat k + 1)" if "k < Suc t + length bs" for k
    using s1(3) Cons.prems(2) [of b k] that by auto
  then have sw: "home_writes h (Suc t) bs (lc s1) = home_writes h (Suc t) bs (lc s)"
    by (rule home_writes_cong)
  have "\<exists>s'. each_block (inst rec) (Suc t) bs s1 = KRet () s' \<and> rdy s'
       \<and> lc s' = apply_writes (lc s1) (home_writes h (Suc t) bs (lc s1))
       \<and> dk s' = apply_writes (dk s1) (home_writes h (Suc t) bs (lc s1))
       \<and> tr s' = tr s1 @ home_writes h (Suc t) bs (lc s1)"
    by (rule Cons.IH [OF s1(2)]) (use Cons.prems(2,3) s1(6) in auto)
  then show ?case using s1 sw by (auto simp: home_writes_Cons)
qed

end

text \<open>The log slots are distinct and different from the header.\<close>

lemma slot_inj32: "k < 2 ^ 32 \<Longrightarrow> m < 2 ^ 32 \<Longrightarrow> h + of_nat k + 1 = h + of_nat m + (1 :: u32) \<Longrightarrow> k = m"
proof -
  assume a: "k < 2 ^ 32" "m < 2 ^ 32" "h + of_nat k + 1 = h + of_nat m + (1 :: u32)"
  then have "unat (of_nat k :: u32) = unat (of_nat m :: u32)" by simp
  then show ?thesis using a(1,2) by (simp add: unat_of_nat)
qed

lemma slot_not_head: "k < 2 ^ 31 \<Longrightarrow> h + of_nat k + 1 \<noteq> (h :: u32)"
proof
  assume k: "k < 2 ^ 31" "h + of_nat k + 1 = h"
  then have "of_nat (Suc k) = (0 :: u32)" by (simp add: add.assoc add.commute)
  moreover have "unat (of_nat (Suc k) :: u32) = Suc k" using k(1) by (simp add: unat_of_nat del: of_nat_Suc)
  ultimately show False by simp
qed

lemma save_writes_at:
  assumes "length bs < 2 ^ 31" "k < length bs"
  shows "apply_writes d (save_writes h 0 bs lc) (h + of_nat k + 1) = lc (bs ! k)"
proof (rule apply_writes_at)
  have "inj_on (\<lambda>k. h + of_nat k + 1) {0..<length bs}"
    using slot_inj32 [of _ _ h] assms(1) by (intro inj_onI) auto
  moreover have "map fst (save_writes h 0 bs lc) = map (\<lambda>k. h + of_nat k + 1) [0..<length bs]"
    by (rule nth_equalityI) (simp_all add: save_writes_def nth_enumerate_eq)
  ultimately show "distinct (map fst (save_writes h 0 bs lc))" by (simp add: distinct_map)
  show "(h + of_nat k + 1, lc (bs ! k)) \<in> set (save_writes h 0 bs lc)"
    using assms(2) by (force simp: save_writes_def in_set_enumerate_eq)
qed

lemma fst_save_writes: "fst ` set (save_writes h 0 bs lc) = (\<lambda>k. h + of_nat k + 1) ` {..<length bs}"
  by (force simp: save_writes_def in_set_enumerate_eq)

lemma head_not_saved: "length bs < 2 ^ 31 \<Longrightarrow> h \<notin> fst ` set (save_writes h 0 bs lc)"
proof
  assume n: "length bs < 2 ^ 31" and "h \<in> fst ` set (save_writes h 0 bs lc)"
  then obtain k where k: "k < length bs" "h = h + of_nat k + 1" unfolding fst_save_writes by blast
  then show False using slot_not_head [of k h] n by simp
qed

lemma home_after_save:
  assumes "length bs < 2 ^ 31"
  shows "home_writes h 0 bs ((apply_writes lc (save_writes h 0 bs lc))(h := x)) = map (\<lambda>b. (b, lc b)) bs"
proof (rule nth_equalityI)
  fix k assume "k < length (home_writes h 0 bs ((apply_writes lc (save_writes h 0 bs lc))(h := x)))"
  then have k: "k < length bs" by (simp add: home_writes_def)
  then have "h + of_nat k + 1 \<noteq> h" using slot_not_head assms by auto
  then show "home_writes h 0 bs ((apply_writes lc (save_writes h 0 bs lc))(h := x)) ! k = map (\<lambda>b. (b, lc b)) bs ! k"
    using k save_writes_at [OF assms k] by (simp add: home_writes_def nth_enumerate_eq)
qed (simp add: home_writes_def)

text \<open>The blocks of the log: the header and the slots that \<open>n\<close> logged blocks need.\<close>

definition log_area :: "u32 \<Rightarrow> nat \<Rightarrow> u32 set" where
  "log_area h n = insert h ((\<lambda>k. h + of_nat k + 1) ` {..<n})"

context log_device
begin

text \<open>All the writes of a commit, in order.\<close>

lemma commit_writes:
  assumes rd: "rdy s" and n: "length bs < 2 ^ 31" and bs: "distinct bs" "\<forall>b \<in> set bs. 0 < pn s b"
    and area: "set bs \<inter> log_area h (length bs) = {}"
  shows "\<exists>s1 s2 s3 s4. each_block copy 0 bs s = KRet () s1 \<and> head n1 bs1 s1 = KRet () s2
    \<and> each_block (inst False) 0 bs s2 = KRet () s3 \<and> head n2 bs2 s3 = KRet () s4 \<and> rdy s4
    \<and> (\<exists>x. tr s4 = tr s @ save_writes h 0 bs (lc s) @ [(h, put_head n1 bs1 (lc s h))]
        @ map (\<lambda>b. (b, lc s b)) bs @ [(h, put_head n2 bs2 x)])"
proof -
  have av: "h + of_nat k + 1 \<noteq> b" if "b \<in> set bs" "k < 0 + length bs" for b k
    using area that by (auto simp: log_area_def)
  obtain s1 where s1: "each_block copy 0 bs s = KRet () s1" "rdy s1" "pn s1 = pn s"
      "lc s1 = apply_writes (lc s) (save_writes h 0 bs (lc s))" "tr s1 = tr s @ save_writes h 0 bs (lc s)"
    using copy_all [OF rd av] by blast
  obtain s2 where s2: "head n1 bs1 s1 = KRet () s2" "rdy s2" "pn s2 = pn s1"
      "lc s2 = (lc s1)(h := put_head n1 bs1 (lc s1 h))" "tr s2 = tr s1 @ [(h, put_head n1 bs1 (lc s1 h))]"
    using head_law [OF s1(2)] by blast
  have "h \<notin> fst ` set (save_writes h 0 bs (lc s))" using head_not_saved [OF n] .
  then have lh: "lc s1 h = lc s h" using s1(4) by (simp add: apply_writes_other)
  have pb: "\<not> False \<longrightarrow> distinct bs \<and> (\<forall>b \<in> set bs. 0 < pn s2 b)" using bs s1(3) s2(3) by simp
  obtain s3 where s3: "each_block (inst False) 0 bs s2 = KRet () s3" "rdy s3" "tr s3 = tr s2 @ home_writes h 0 bs (lc s2)"
    using inst_all [OF s2(2) av pb] by blast
  obtain s4 where s4: "head n2 bs2 s3 = KRet () s4" "rdy s4" "tr s4 = tr s3 @ [(h, put_head n2 bs2 (lc s3 h))]"
    using head_law [OF s3(2)] by blast
  have "home_writes h 0 bs (lc s2) = map (\<lambda>b. (b, lc s b)) bs"
    using home_after_save [OF n] s1(4) s2(4) by simp
  then show ?thesis using s1 s2 s3 s4 lh by auto
qed

text \<open>Recovery installs what the header names and clears the header.\<close>

lemma recovery_writes:
  assumes rd: "rdy s" and area: "set bs \<inter> log_area h (length bs) = {}"
  shows "\<exists>s1 s2. each_block (inst True) 0 bs s = KRet () s1 \<and> head n2 bs2 s1 = KRet () s2 \<and> rdy s2
    \<and> (\<exists>x. dk s2 = (apply_writes (dk s) (home_writes h 0 bs (lc s)))(h := put_head n2 bs2 x))"
proof -
  have av: "h + of_nat k + 1 \<noteq> b" if "b \<in> set bs" "k < 0 + length bs" for b k
    using area that by (auto simp: log_area_def)
  obtain s1 where s1: "each_block (inst True) 0 bs s = KRet () s1" "rdy s1"
      "dk s1 = apply_writes (dk s) (home_writes h 0 bs (lc s))"
    using inst_all [OF rd av, where rec = True] by blast
  obtain s2 where "head n2 bs2 s1 = KRet () s2" "rdy s2" "dk s2 = (dk s1)(h := put_head n2 bs2 (lc s1 h))"
    using head_law [OF s1(2)] by blast
  then show ?thesis using s1 by auto
qed

end

section \<open>Crashes\<close>

text \<open>The blocks the header on a disk names, and what recovery makes of the disk.\<close>

definition logged :: "u32 \<Rightarrow> (u32 \<Rightarrow> u8 list) \<Rightarrow> u32 list" where
  "logged h d = map (head_block (d h)) [0..<unat (head_n (d h))]"

definition recovered :: "u32 \<Rightarrow> (u32 \<Rightarrow> u8 list) \<Rightarrow> u32 \<Rightarrow> u8 list" where
  "recovered h d = apply_writes d (home_writes h 0 (logged h d) d)"

lemma home_writes_Nil [simp]: "home_writes h t [] lc = []"
  by (simp add: home_writes_def)

lemma recovered_empty: "head_n (d h) = 0 \<Longrightarrow> recovered h d = d \<and> logged h d = []"
  by (simp add: recovered_def logged_def)

lemma fst_home_writes: "fst ` set (home_writes h t bs lc) = set bs"
proof -
  have "map fst (home_writes h t bs lc) = bs"
    by (rule nth_equalityI) (simp_all add: home_writes_def nth_enumerate_eq)
  then show ?thesis by (metis set_map)
qed

text \<open>
  The disk after a crash inside a commit. \<open>dd\<close> is the disk before, \<open>lc\<close> the cached view that
  is being committed, \<open>bs\<close> the logged blocks.
\<close>

lemma crash_recovers:
  fixes dd lc :: "u32 \<Rightarrow> u8 list"
  assumes n: "length bs = n" "n < 2 ^ 31" "n \<le> length bs1" "take n bs1 = bs" and dist: "distinct bs"
    and area: "set bs \<inter> log_area h n = {}"
    and hd0: "head_n (dd h) = 0" and same: "\<And>b. b \<notin> set bs \<Longrightarrow> b \<notin> A \<Longrightarrow> lc b = dd b"
    and A: "log_area h n \<subseteq> A"
    and T: "T = save_writes h 0 bs lc @ [(h, put_head n bs1 x)] @ map (\<lambda>b. (b, lc b)) bs @ [(h, put_head 0 bs2 y)]"
  shows "logged h (apply_writes dd (take k T)) \<in> {[], bs} \<and>
    ((\<forall>b. b \<notin> A \<longrightarrow> recovered h (apply_writes dd (take k T)) b = dd b)
    \<or> (\<forall>b. b \<notin> A \<longrightarrow> recovered h (apply_writes dd (take k T)) b = lc b))"
proof -
  let ?W1 = "save_writes h 0 bs lc"
  let ?H = "(h, put_head n bs1 x)"
  let ?W2 = "map (\<lambda>b. (b, lc b)) bs"
  have l1: "length ?W1 = n" using n by (simp add: save_writes_def)
  have f1: "fst ` set ?W1 \<subseteq> log_area h n" "h \<notin> fst ` set ?W1"
    using n head_not_saved [of bs h lc] by (auto simp: fst_save_writes log_area_def)
  have hh: "h \<in> log_area h n" by (simp add: log_area_def)
  have f2: "fst ` set (take j ?W2) \<subseteq> set bs" for j
    by (auto dest: in_set_takeD)
  have "k \<le> n \<or> (\<exists>j. k = Suc n + j \<and> j \<le> n) \<or> Suc n + n < k" by presburger
  then consider (before) "k \<le> n" | (middle) j where "k = Suc n + j" "j \<le> n" | (after) "Suc n + n < k"
    by blast
  then show ?thesis
  proof cases
    case before
    have tk: "take k T = take k ?W1" using before l1 by (simp add: T)
    have "fst ` set (take k ?W1) \<subseteq> fst ` set ?W1" by (meson image_mono set_take_subset)
    then have oth: "apply_writes dd (take k T) b = dd b" if "b \<notin> fst ` set ?W1" for b
      unfolding tk using that by (intro apply_writes_other) blast
    have "recovered h (apply_writes dd (take k T)) = apply_writes dd (take k T) \<and> logged h (apply_writes dd (take k T)) = []"
      using oth [OF f1(2)] hd0 by (intro recovered_empty) simp
    then show ?thesis using oth f1(1) A by auto
  next
    case middle
    let ?D = "apply_writes dd (take k T)"
    have "take k T = ?W1 @ ?H # take j ?W2" using middle l1 n(1) by (simp add: T)
    then have D: "?D = apply_writes ((apply_writes dd ?W1)(h := put_head n bs1 x)) (take j ?W2)"
      by (simp add: apply_writes_append)
    have oth: "?D b = ((apply_writes dd ?W1)(h := put_head n bs1 x)) b" if "b \<notin> set bs" for b
      unfolding D using f2 [of j] that by (intro apply_writes_other) blast
    have "?D h = put_head n bs1 x" using oth [of h] area hh by auto
    moreover have "bs1 ! i = bs ! i" if "i < n" for i using n(4) that by (metis nth_take)
    ultimately have hd: "unat (head_n (?D h)) = n" "map (head_block (?D h)) [0..<n] = bs"
      using head_roundtrip [where n = n and bs = bs1 and d = x] n by (auto intro!: nth_equalityI)
    have sl: "?D (h + of_nat t + 1) = lc (bs ! t)" if "t < n" for t
    proof -
      have "h + of_nat t + 1 \<in> log_area h n" using that by (auto simp: log_area_def)
      then have "h + of_nat t + 1 \<notin> set bs" using area by auto
      moreover have "h + of_nat t + 1 \<noteq> h" using slot_not_head [of t h] that n(2) by simp
      ultimately show ?thesis using oth save_writes_at [of bs t dd h lc] that n by simp
    qed
    have "home_writes h 0 bs ?D = ?W2"
      by (rule nth_equalityI) (use sl n(1) in \<open>simp_all add: home_writes_def nth_enumerate_eq\<close>)
    moreover have lg: "logged h ?D = bs" using hd by (simp add: logged_def)
    ultimately have R: "recovered h ?D = apply_writes ?D ?W2" by (simp add: recovered_def)
    have "recovered h ?D b = lc b" if "b \<notin> A" for b
    proof (cases "b \<in> set bs")
      case True
      then show ?thesis unfolding R by (intro apply_writes_at) (use dist in \<open>auto simp: comp_def\<close>)
    next
      case False
      then have "recovered h ?D b = ?D b" unfolding R by (intro apply_writes_other) auto
      also have "\<dots> = dd b" using oth [OF False] that A hh f1(1) apply_writes_other [of b ?W1 dd] by auto
      finally show ?thesis using same False that by simp
    qed
    then show ?thesis using lg by blast
  next
    case after
    have "take k T = T" using after l1 n(1) by (simp add: T)
    then have D: "apply_writes dd (take k T) =
        (apply_writes ((apply_writes dd ?W1)(h := put_head n bs1 x)) ?W2)(h := put_head 0 bs2 y)"
      by (simp add: T apply_writes_append)
    have "unat (head_n (put_head 0 bs2 y)) = 0" by (rule head_roundtrip) simp_all
    then have RL: "recovered h (apply_writes dd (take k T)) = apply_writes dd (take k T)
        \<and> logged h (apply_writes dd (take k T)) = []"
      by (intro recovered_empty) (simp add: D unat_eq_zero)
    note R = conjunct1 [OF RL]
    have "recovered h (apply_writes dd (take k T)) b = lc b" if "b \<notin> A" for b
    proof -
      have bh: "b \<noteq> h" using that hh A by auto
      show ?thesis
      proof (cases "b \<in> set bs")
        case True
        have "apply_writes ((apply_writes dd ?W1)(h := put_head n bs1 x)) ?W2 b = lc b"
          by (rule apply_writes_at) (use dist True in \<open>auto simp: comp_def\<close>)
        then show ?thesis unfolding R unfolding D using bh by simp
      next
        case False
        then have "apply_writes ((apply_writes dd ?W1)(h := put_head n bs1 x)) ?W2 b =
            ((apply_writes dd ?W1)(h := put_head n bs1 x)) b"
          by (intro apply_writes_other) auto
        also have "\<dots> = dd b" using bh that A f1(1) apply_writes_other [of b ?W1 dd] by auto
        finally show ?thesis unfolding R unfolding D using bh same [OF False that] by simp
      qed
    qed
    then show ?thesis using RL by blast
  qed
qed

section \<open>The log on the buffer cache\<close>

abbreviation (input) log_at :: "u32 \<Rightarrow> nat \<Rightarrow> u32 list \<Rightarrow> logst" where
  "log_at h n bs \<equiv> \<lparr>lstart = h, outstanding = 0, committing = False, lh_n = n, lh_block = bs\<rparr>"

interpretation bio_log: log_device h ready lcontent disk dwrites pins "log_copy pid h"
  "\<lambda>rec. install_one pid rec h" "\<lambda>n bs. write_head pid (log_at h n bs)" for h pid
proof
  fix s t b n bs rec
  show "ready s \<Longrightarrow> h + of_nat t + 1 \<noteq> b \<Longrightarrow>
      \<exists>s'. log_copy pid h t b s = KRet () s' \<and> ready s' \<and> pins s' = pins s \<and> lcontent s' = (lcontent s)(h + of_nat t + 1 := lcontent s b)
        \<and> disk s' = (disk s)(h + of_nat t + 1 := lcontent s b) \<and> dwrites s' = dwrites s @ [(h + of_nat t + 1, lcontent s b)]"
    using log_copy_spec [of s h t b pid] by metis
  show "ready s \<Longrightarrow> h + of_nat t + 1 \<noteq> b \<Longrightarrow> (\<not> rec \<longrightarrow> 0 < pins s b) \<Longrightarrow>
      \<exists>s'. install_one pid rec h t b s = KRet () s' \<and> ready s' \<and> lcontent s' = (lcontent s)(b := lcontent s (h + of_nat t + 1))
        \<and> disk s' = (disk s)(b := lcontent s (h + of_nat t + 1)) \<and> dwrites s' = dwrites s @ [(b, lcontent s (h + of_nat t + 1))]
        \<and> pins s' = (if rec then pins s else (pins s)(b := pins s b - 1))"
    using install_one_spec [of s h t b rec pid] by metis
  show "ready s \<Longrightarrow>
      \<exists>s'. write_head pid (log_at h n bs) s = KRet () s' \<and> ready s' \<and> pins s' = pins s
        \<and> lcontent s' = (lcontent s)(h := put_head n bs (lcontent s h))
        \<and> disk s' = (disk s)(h := put_head n bs (lcontent s h)) \<and> dwrites s' = dwrites s @ [(h, put_head n bs (lcontent s h))]"
    using write_head_spec [of s pid "log_at h n bs"] by fastforce
qed

lemma write_log_loop_each: "write_log_loop pid h t bs = each_block (log_copy pid h) t bs"
proof (induction bs arbitrary: t)
  case (Cons b bs)
  show ?case by (rule ext) (simp add: Cons.IH)
qed (simp add: fun_eq_iff)

lemma install_loop_each: "install_loop pid rec h t bs = each_block (install_one pid rec h) t bs"
proof (induction bs arbitrary: t)
  case (Cons b bs)
  show ?case by (rule ext) (simp add: Cons.IH)
qed (simp add: fun_eq_iff)

lemmas loops_each = write_log_loop_each install_loop_each

lemma write_head_at: "write_head pid lg bc = write_head pid (log_at (lstart lg) (lh_n lg) (lh_block lg)) bc"
  by (simp add: write_head_def)

text \<open>
  A log state ready to commit: the logged blocks are distinct, pinned in the cache and outside the
  log area; every other block is on disk as cached; the header on disk is empty.
\<close>

definition commit_ready :: "logst \<Rightarrow> bcache \<Rightarrow> bool" where
  "commit_ready lg bc \<longleftrightarrow> ready bc \<and> lh_n lg \<le> LOGBLOCKS \<and> length (lh_block lg) = LOGBLOCKS
     \<and> distinct (take (lh_n lg) (lh_block lg))
     \<and> (\<forall>b \<in> set (take (lh_n lg) (lh_block lg)). 0 < pins bc b \<and> b \<notin> log_area (lstart lg) LOGBLOCKS)
     \<and> (\<forall>b. b \<notin> set (take (lh_n lg) (lh_block lg)) \<longrightarrow> b \<notin> log_area (lstart lg) LOGBLOCKS \<longrightarrow> lcontent bc b = disk bc b)
     \<and> head_n (disk bc (lstart lg)) = 0"

lemma log_area_mono: "m \<le> n \<Longrightarrow> log_area h m \<subseteq> log_area h n"
  by (auto simp: log_area_def)

lemma commit_spec:
  assumes cr: "commit_ready lg bc" and n: "0 < lh_n lg"
  defines "bs \<equiv> take (lh_n lg) (lh_block lg)"
  shows "\<exists>bc' x y. commit pid lg bc = KRet (lg\<lparr>lh_n := 0\<rparr>) bc' \<and> ready bc'
    \<and> dwrites bc' = dwrites bc @ save_writes (lstart lg) 0 bs (lcontent bc) @ [(lstart lg, put_head (lh_n lg) (lh_block lg) x)]
        @ map (\<lambda>b. (b, lcontent bc b)) bs @ [(lstart lg, put_head 0 (lh_block lg) y)]"
proof -
  let ?h = "lstart lg"
  have len: "length bs = lh_n lg" "length bs < 2 ^ 31" using cr by (auto simp: commit_ready_def bs_def)
  have area: "set bs \<inter> log_area ?h (length bs) = {}"
    using cr log_area_mono [of "length bs" LOGBLOCKS ?h] len(1) by (auto simp: commit_ready_def bs_def)
  have rd: "ready bc" and di: "distinct bs" and pn: "\<forall>b \<in> set bs. 0 < pins bc b"
    using cr by (auto simp: commit_ready_def bs_def)
  obtain s1 s2 s3 s4 y where S: "each_block (log_copy pid ?h) 0 bs bc = KRet () s1"
      "write_head pid (log_at ?h (lh_n lg) (lh_block lg)) s1 = KRet () s2"
      "each_block (install_one pid False ?h) 0 bs s2 = KRet () s3"
      "write_head pid (log_at ?h 0 (lh_block lg)) s3 = KRet () s4" "ready s4"
      "dwrites s4 = dwrites bc @ save_writes ?h 0 bs (lcontent bc) @ [(?h, put_head (lh_n lg) (lh_block lg) (lcontent bc ?h))]
        @ map (\<lambda>b. (b, lcontent bc b)) bs @ [(?h, put_head 0 (lh_block lg) y)]"
    using bio_log.commit_writes [OF rd len(2) di pn area, of pid "lh_n lg" "lh_block lg" 0 "lh_block lg"] by blast
  have "commit pid lg bc = KRet (lg\<lparr>lh_n := 0\<rparr>) s4"
    using n S write_head_at [of pid lg] write_head_at [of pid "lg\<lparr>lh_n := 0\<rparr>"]
    by (simp add: commit_def write_log_def install_trans_def loops_each bs_def [symmetric] Let_def)
  then show ?thesis using S(5,6) by blast
qed

lemma recover_spec:
  assumes rd: "ready rc" "lcontent rc = disk rc"
    and area: "set (logged (lstart lg) (disk rc)) \<inter> log_area (lstart lg) (length (logged (lstart lg) (disk rc))) = {}"
  shows "\<exists>lg' rc'. recover_from_log pid lg rc = KRet lg' rc' \<and> ready rc' \<and> lh_n lg' = 0
    \<and> (\<forall>b. b \<noteq> lstart lg \<longrightarrow> disk rc' b = recovered (lstart lg) (disk rc) b)"
proof -
  let ?h = "lstart lg"
  let ?d = "disk rc (lstart lg)"
  let ?n = "unat (head_n ?d)"
  define lg1 where "lg1 = lg\<lparr>lh_n := ?n, lh_block := map (head_block ?d) [0..<?n] @ drop ?n (lh_block lg)\<rparr>"
  obtain r1 where r1: "read_head pid lg rc = KRet lg1 r1" "ready r1" "lcontent r1 = lcontent rc" "disk r1 = disk rc"
    using read_head_spec [OF rd(1), of pid lg] rd(2) by (metis lg1_def)
  have bs: "take (lh_n lg1) (lh_block lg1) = logged ?h (disk rc)" by (simp add: lg1_def logged_def)
  obtain s1 s2 x where S: "each_block (install_one pid True ?h) 0 (logged ?h (disk rc)) r1 = KRet () s1"
      "write_head pid (log_at ?h 0 (lh_block lg1)) s1 = KRet () s2" "ready s2"
      "disk s2 = (apply_writes (disk r1) (home_writes ?h 0 (logged ?h (disk rc)) (lcontent r1)))(?h := put_head 0 (lh_block lg1) x)"
    using bio_log.recovery_writes [OF r1(2) area, of pid 0 "lh_block lg1"] by blast
  have "recover_from_log pid lg rc = KRet (lg1\<lparr>lh_n := 0\<rparr>) s2"
    using r1(1) S(1,2) bs write_head_at [of pid "lg1\<lparr>lh_n := 0\<rparr>"]
    by (simp add: recover_from_log_def install_trans_def loops_each Let_def) (simp add: lg1_def)
  moreover have "disk s2 b = recovered ?h (disk rc) b" if "b \<noteq> ?h" for b
    using S(4) r1(3,4) rd(2) that by (simp add: recovered_def)
  ultimately show ?thesis using S(3) by (intro exI [of _ "lg1\<lparr>lh_n := 0\<rparr>"] exI [of _ s2]) simp
qed

text \<open>
  C1. Crash atomicity. Cut the power after any number of the disk writes of a commit and reboot:
  recovery terminates, and every block outside the log area then has either its contents from before
  the transaction or its contents from after it, all of them the same way.
\<close>

theorem commit_crash_atomic:
  assumes cr: "commit_ready lg bc" and c: "commit pid lg bc = KRet lg' bc'"
    and rc: "ready rc" "lcontent rc = disk rc"
    and crash: "disk rc = apply_writes (disk bc) (take k (drop (length (dwrites bc)) (dwrites bc')))"
    and lg2: "lstart lg2 = lstart lg"
  shows "\<exists>lg3 rc'. recover_from_log pid2 lg2 rc = KRet lg3 rc' \<and> lh_n lg3 = 0
    \<and> ((\<forall>b. b \<notin> log_area (lstart lg) LOGBLOCKS \<longrightarrow> disk rc' b = disk bc b)
      \<or> (\<forall>b. b \<notin> log_area (lstart lg) LOGBLOCKS \<longrightarrow> disk rc' b = lcontent bc b))"
proof -
  define bs where "bs = take (lh_n lg) (lh_block lg)"
  let ?h = "lstart lg"
  let ?n = "lh_n lg"
  have C: "length bs = ?n" "?n < 2 ^ 31" "?n \<le> length (lh_block lg)" "distinct bs" "head_n (disk bc ?h) = 0"
      "?n \<le> LOGBLOCKS"
    using cr by (auto simp: commit_ready_def bs_def)
  have big: "log_area ?h ?n \<subseteq> log_area ?h LOGBLOCKS" using log_area_mono C(6) by blast
  have area: "set bs \<inter> log_area ?h ?n = {}" using cr big by (auto simp: commit_ready_def bs_def)
  let ?T = "drop (length (dwrites bc)) (dwrites bc')"
  have same: "lcontent bc b = disk bc b" if "b \<notin> set bs" "b \<notin> log_area ?h LOGBLOCKS" for b
    using cr that unfolding commit_ready_def bs_def by blast
  have R: "logged ?h (disk rc) \<in> {[], bs} \<and>
    ((\<forall>b. b \<notin> log_area ?h LOGBLOCKS \<longrightarrow> recovered ?h (disk rc) b = disk bc b)
    \<or> (\<forall>b. b \<notin> log_area ?h LOGBLOCKS \<longrightarrow> recovered ?h (disk rc) b = lcontent bc b))"
  proof (cases "?n = 0")
    case True
    then have "bc' = bc" using c by (simp add: commit_def)
    then have "disk rc = disk bc" using crash by simp
    then show ?thesis using recovered_empty [of "disk bc" ?h] C(5) by auto
  next
    case False
    then have "0 < lh_n lg" by simp
    from commit_spec [OF cr this, of pid] obtain x y where
      T: "?T = save_writes ?h 0 bs (lcontent bc) @ [(?h, put_head ?n (lh_block lg) x)]
        @ map (\<lambda>b. (b, lcontent bc b)) bs @ [(?h, put_head 0 (lh_block lg) y)]"
      using c by (auto simp: bs_def)
    show ?thesis
      unfolding crash
      by (rule crash_recovers [where dd = "disk bc" and lc = "lcontent bc" and bs = bs and h = ?h,
            OF C(1-3) bs_def [symmetric] C(4) area C(5) same big T])
  qed
  have la: "set (logged (lstart lg2) (disk rc)) \<inter> log_area (lstart lg2) (length (logged (lstart lg2) (disk rc))) = {}"
    using R area C(1) lg2 by auto
  obtain lg3 rc' where "recover_from_log pid2 lg2 rc = KRet lg3 rc'" "lh_n lg3 = 0"
      "\<forall>b. b \<noteq> ?h \<longrightarrow> disk rc' b = recovered ?h (disk rc) b"
    using recover_spec [OF rc la, of pid2] unfolding lg2 by blast
  moreover have "b \<noteq> ?h" if "b \<notin> log_area ?h LOGBLOCKS" for b using that by (auto simp: log_area_def)
  ultimately show ?thesis using R by metis
qed

section \<open>Log space\<close>

lemma absorb_index_spec:
  "i + k \<le> length bs \<Longrightarrow> i \<le> absorb_index bs i k bno \<and> absorb_index bs i k bno \<le> i + k
     \<and> (\<forall>m. i \<le> m \<and> m < absorb_index bs i k bno \<longrightarrow> bs ! m \<noteq> bno)
     \<and> (absorb_index bs i k bno < i + k \<longrightarrow> bs ! absorb_index bs i k bno = bno)"
proof (induction k arbitrary: i)
  case (Suc k)
  show ?case
  proof (cases "bs ! i = bno")
    case False
    have "Suc i \<le> absorb_index bs (Suc i) k bno \<and> absorb_index bs (Suc i) k bno \<le> Suc i + k
       \<and> (\<forall>m. Suc i \<le> m \<and> m < absorb_index bs (Suc i) k bno \<longrightarrow> bs ! m \<noteq> bno)
       \<and> (absorb_index bs (Suc i) k bno < Suc i + k \<longrightarrow> bs ! absorb_index bs (Suc i) k bno = bno)"
      by (rule Suc.IH) (use Suc.prems in simp)
    then show ?thesis using False by (auto simp: le_Suc_eq Suc_le_eq dest: le_neq_implies_less)
  qed auto
qed auto

text \<open>\<open>log_write\<close> records the block once: absorbed when present, appended and pinned when not.\<close>

lemma log_write_spec:
  fixes b :: nat and bc :: bcache
  assumes n: "lh_n lg < LOGBLOCKS" "1 \<le> outstanding lg" "length (lh_block lg) = LOGBLOCKS"
    and d: "distinct (take (lh_n lg) (lh_block lg))"
  defines "bno \<equiv> blockno (bufs bc b)"
  obtains lg' where
    "log_write b lg bc = Ret (lg', if bno \<in> set (take (lh_n lg) (lh_block lg)) then bc else bpin b bc)"
    "take (lh_n lg') (lh_block lg') = (if bno \<in> set (take (lh_n lg) (lh_block lg)) then take (lh_n lg) (lh_block lg)
       else take (lh_n lg) (lh_block lg) @ [bno])"
    "outstanding lg' = outstanding lg" "committing lg' = committing lg" "lstart lg' = lstart lg"
    "length (lh_block lg') = LOGBLOCKS"
    "lh_n lg' = lh_n lg + (if bno \<in> set (take (lh_n lg) (lh_block lg)) then 0 else 1)"
proof -
  define i where "i = absorb_index (lh_block lg) 0 (lh_n lg) bno"
  have I: "i \<le> lh_n lg" "\<And>m. m < i \<Longrightarrow> lh_block lg ! m \<noteq> bno" "i < lh_n lg \<Longrightarrow> lh_block lg ! i = bno"
    using absorb_index_spec [of 0 "lh_n lg" "lh_block lg" bno] n unfolding i_def by auto
  have mem: "bno \<in> set (take (lh_n lg) (lh_block lg)) \<longleftrightarrow> i < lh_n lg"
  proof
    assume "bno \<in> set (take (lh_n lg) (lh_block lg))"
    then obtain m where "m < lh_n lg" "lh_block lg ! m = bno" by (auto simp: in_set_conv_nth)
    then show "i < lh_n lg" using I(1) I(2) [of m] by (metis le_neq_implies_less)
  next
    assume "i < lh_n lg"
    then show "bno \<in> set (take (lh_n lg) (lh_block lg))"
      using I(3) n by (auto simp: in_set_conv_nth intro!: exI [of _ i])
  qed
  have run: "log_write b lg bc = Ret (if i = lh_n lg
      then (lg\<lparr>lh_block := (lh_block lg)[i := bno], lh_n := lh_n lg + 1\<rparr>, bpin b bc)
      else (lg\<lparr>lh_block := (lh_block lg)[i := bno]\<rparr>, bc))"
    using n by (simp add: log_write_def i_def bno_def Let_def)
  show ?thesis
  proof (cases "i = lh_n lg")
    case True
    then have "take (lh_n lg + 1) ((lh_block lg)[i := bno]) = take (lh_n lg) (lh_block lg) @ [bno]"
      using n by (simp add: take_Suc_conv_app_nth)
    then show ?thesis using that run True mem n by simp
  next
    case False
    then have lt: "i < lh_n lg" using I(1) by simp
    then have "lg\<lparr>lh_block := (lh_block lg)[i := bno]\<rparr> = lg" using I(3) [symmetric] by simp
    then have "log_write b lg bc = Ret (lg, bc)" unfolding run using False by (simp only: if_False)
    then show ?thesis using that [of lg] mem lt n(3) by simp
  qed
qed

text \<open>
  Everything concurrent operations can do to the log: \<open>us\<close> lists, for each operation between
  \<open>begin_op\<close> and \<open>end_op\<close>, how many \<open>log_write\<close>s it has made. An operation makes at most
  \<open>MAXOPBLOCKS\<close> of them.
\<close>

inductive log_run :: "logst \<Rightarrow> nat list \<Rightarrow> bool" where
  lr_boot: "lh_n lg = 0 \<Longrightarrow> outstanding lg = 0 \<Longrightarrow> \<not> committing lg \<Longrightarrow> length (lh_block lg) = LOGBLOCKS \<Longrightarrow> log_run lg []"
| lr_begin: "log_run lg us \<Longrightarrow> begin_op lg = Some lg' \<Longrightarrow> log_run lg' (0 # us)"
| lr_write: "log_run lg us \<Longrightarrow> i < length us \<Longrightarrow> us ! i < MAXOPBLOCKS \<Longrightarrow> log_write b lg bc = Ret (lg', bc') \<Longrightarrow>
    log_run lg' (us[i := Suc (us ! i)])"
| lr_end: "log_run lg us \<Longrightarrow> i < length us \<Longrightarrow> end_op_locked lg = Ret (lg', c) \<Longrightarrow>
    log_run lg' (take i us @ drop (Suc i) us)"
| lr_commit: "log_run lg us \<Longrightarrow> committing lg \<Longrightarrow> log_run (lg\<lparr>lh_n := 0, committing := False\<rparr>) us"

definition budget :: "nat list \<Rightarrow> nat" where
  "budget us = sum_list (map (\<lambda>u. MAXOPBLOCKS - u) us)"

definition log_inv :: "logst \<Rightarrow> nat list \<Rightarrow> bool" where
  "log_inv lg us \<longleftrightarrow> outstanding lg = int (length us) \<and> length (lh_block lg) = LOGBLOCKS
     \<and> lh_n lg + budget us \<le> LOGBLOCKS \<and> (committing lg \<longrightarrow> us = []) \<and> distinct (take (lh_n lg) (lh_block lg))"

lemma budget_split: "i < length us \<Longrightarrow> budget us = MAXOPBLOCKS - us ! i + budget (take i us @ drop (Suc i) us)"
  by (subst id_take_nth_drop [of i us]) (simp_all add: budget_def)

lemma budget_write: "i < length us \<Longrightarrow> us ! i < MAXOPBLOCKS \<Longrightarrow> budget us = Suc (budget (us[i := Suc (us ! i)]))"
proof -
  assume a: "i < length us" "us ! i < MAXOPBLOCKS"
  have "take i (us[i := Suc (us ! i)]) @ drop (Suc i) (us[i := Suc (us ! i)]) = take i us @ drop (Suc i) us"
    by simp
  then show ?thesis using budget_split [of i us] budget_split [of i "us[i := Suc (us ! i)]"] a by simp
qed

lemma budget_le: "budget us \<le> length us * MAXOPBLOCKS"
  by (induction us) (auto simp: budget_def)

lemma log_run_inv: "log_run lg us \<Longrightarrow> log_inv lg us"
proof (induction rule: log_run.induct)
  case (lr_boot lg)
  then show ?case by (simp add: log_inv_def budget_def)
next
  case (lr_begin lg us lg')
  then have b: "\<not> committing lg" "int (lh_n lg) + (outstanding lg + 1) * 10 \<le> 30" "lg' = lg\<lparr>outstanding := outstanding lg + 1\<rparr>"
    by (auto simp: begin_op_def split: if_splits)
  then have "lh_n lg + budget (0 # us) \<le> LOGBLOCKS"
    using lr_begin.IH budget_le [of us] by (simp add: log_inv_def budget_def)
  then show ?case using lr_begin.IH b by (simp add: log_inv_def)
next
  case (lr_write lg us i b bc lg' bc')
  note inv = lr_write.IH [unfolded log_inv_def]
  have bw: "budget us = Suc (budget (us[i := Suc (us ! i)]))" using budget_write lr_write.hyps by blast
  have n: "lh_n lg < LOGBLOCKS" "1 \<le> outstanding lg" using inv bw lr_write.hyps by auto
  from log_write_spec [OF n(1,2), of b bc] obtain lg2 where
    "log_write b lg bc = Ret (lg2, if blockno (bufs bc b) \<in> set (take (lh_n lg) (lh_block lg)) then bc else bpin b bc)"
    "take (lh_n lg2) (lh_block lg2) = (if blockno (bufs bc b) \<in> set (take (lh_n lg) (lh_block lg)) then take (lh_n lg) (lh_block lg)
       else take (lh_n lg) (lh_block lg) @ [blockno (bufs bc b)])"
    "outstanding lg2 = outstanding lg" "committing lg2 = committing lg" "length (lh_block lg2) = LOGBLOCKS"
    "lh_n lg2 = lh_n lg + (if blockno (bufs bc b) \<in> set (take (lh_n lg) (lh_block lg)) then 0 else 1)"
    using inv by metis
  then show ?case using inv bw lr_write.hyps by (auto simp: log_inv_def split: if_splits)
next
  case (lr_end lg us i lg' c)
  note inv = lr_end.IH [unfolded log_inv_def]
  have f: "outstanding lg' = outstanding lg - 1" "lh_n lg' = lh_n lg" "lh_block lg' = lh_block lg"
      "committing lg' \<longrightarrow> outstanding lg' = 0 \<or> committing lg"
    using lr_end.hyps(3) by (auto simp: end_op_locked_def Let_def split: if_splits)
  have "budget (take i us @ drop (Suc i) us) \<le> budget us" using budget_split lr_end.hyps(2) by simp
  then show ?case using inv f lr_end.hyps(2) by (auto simp: log_inv_def)
next
  case (lr_commit lg us)
  then show ?case by (auto simp: log_inv_def)
qed

text \<open>
  C7. Log space is reserved before it is used: however \<open>begin_op\<close>, \<open>log_write\<close> and
  \<open>end_op\<close> of concurrent operations interleave, an operation that stays within
  \<open>MAXOPBLOCKS\<close> writes never meets \<open>panic("too big a transaction")\<close>, the log never holds more
  than \<open>LOGBLOCKS\<close> blocks or a block twice, and no operation runs while a commit does.
\<close>

theorem log_never_overflows:
  assumes "log_run lg us"
  shows "lh_n lg \<le> LOGBLOCKS \<and> distinct (take (lh_n lg) (lh_block lg)) \<and> (committing lg \<longrightarrow> us = [])
    \<and> (\<forall>i < length us. us ! i < MAXOPBLOCKS \<longrightarrow> returns (log_write b lg bc))
    \<and> (us \<noteq> [] \<longrightarrow> returns (end_op_locked lg))"
proof -
  note inv = log_run_inv [OF assms, unfolded log_inv_def]
  have "returns (log_write b lg bc)" if i: "i < length us" "us ! i < MAXOPBLOCKS" for i
  proof -
    have "lh_n lg < LOGBLOCKS" "\<not> outstanding lg < 1" using inv budget_write [OF i] i(1) by auto
    then show ?thesis by (auto simp: log_write_def Let_def)
  qed
  moreover have "returns (end_op_locked lg)" if "us \<noteq> []"
    using inv that by (auto simp: end_op_locked_def Let_def)
  ultimately show ?thesis using inv by auto
qed

text \<open>
  A commit of a consistent transaction terminates without panic or deadlock, whatever the state
  of the cache, as long as two buffers are unused; it leaves the log empty.
\<close>

theorem commit_returns:
  assumes "commit_ready lg bc"
  shows "\<exists>bc'. commit pid lg bc = KRet (lg\<lparr>lh_n := 0\<rparr>) bc' \<and> ready bc'"
proof (cases "lh_n lg = 0")
  case True
  then have "lg\<lparr>lh_n := 0\<rparr> = lg" by simp
  then show ?thesis using True assms by (simp add: commit_def commit_ready_def)
next
  case False
  then show ?thesis using commit_spec [OF assms, of pid] by auto
qed

section \<open>A concrete transaction\<close>

definition log_bc :: "(u32 \<Rightarrow> u8 list) \<Rightarrow> bcache" where
  "log_bc d = binit \<lparr>bufs = \<lambda>_. blank_buf, disk = d, dwrites = []\<rparr>"

definition zero_disk :: "u32 \<Rightarrow> u8 list" where
  "zero_disk b = replicate 1024 0"

lemma log_bc: "bc_inv (log_bc d) (rev [0..<NBUF])" "lcontent (log_bc d) = d" "disk (log_bc d) = d" "dwrites (log_bc d) = []"
    "i < NBUF \<Longrightarrow> dev (bufs (log_bc d) i) = 0" "i < NBUF \<Longrightarrow> refcnt (bufs (log_bc d) i) = 0"
    "i < NBUF \<Longrightarrow> \<not> valid (bufs (log_bc d) i)" "i < NBUF \<Longrightarrow> slocked (lock (bufs (log_bc d) i)) = 0"
proof -
  let ?bc = "\<lparr>bufs = \<lambda>_. blank_buf, disk = d, dwrites = []\<rparr>"
  show inv: "bc_inv (log_bc d) (rev [0..<NBUF])" and "lcontent (log_bc d) = d"
    using binit_inv [of ?bc] by (auto simp: log_bc_def blank_buf_def)
  show "disk (log_bc d) = d" "dwrites (log_bc d) = []" by (simp_all add: log_bc_def binit_def)
  let ?f = "(bufs ?bc)(HEAD := (bufs ?bc HEAD)\<lparr>prv := HEAD, nxt := HEAD\<rparr>)"
  have e: "dll ?f []" by (simp add: dll_def)
  have "bufs (log_bc d) = binit_loop 0 NBUF ?f" by (simp add: log_bc_def binit_def)
  then show "i < NBUF \<Longrightarrow> dev (bufs (log_bc d) i) = 0" and rf: "i < NBUF \<Longrightarrow> refcnt (bufs (log_bc d) i) = 0"
      and "i < NBUF \<Longrightarrow> \<not> valid (bufs (log_bc d) i)" and "i < NBUF \<Longrightarrow> slocked (lock (bufs (log_bc d) i)) = 0"
    using binit_loop_spec [OF e, of 0 NBUF] by (auto simp: blank_buf_def)
qed

lemma log_bc_ready: "ready (log_bc d)"
proof -
  have "two_free (log_bc d)" unfolding two_free_def by (rule exI [of _ 0], simp add: log_bc(6), rule exI [of _ 1]) (simp add: log_bc(6))
  then show ?thesis using log_bc(1,6,8) by (auto simp: ready_def refs_ok_def)
qed

text \<open>Block 100 changed in the cache and not yet on disk.\<close>

definition tx_bc :: bcache where
  "tx_bc = upd 0 (\<lambda>x. x\<lparr>valid := True, dev := ROOTDEV, blockno := 100, refcnt := 1, bdata := [42]\<rparr>) (log_bc zero_disk)"

definition tx_log :: logst where
  "tx_log = log_at 2 1 (100 # replicate 29 0)"

lemma tx_bc: "bc_inv tx_bc (rev [0..<NBUF])" "lcontent tx_bc = zero_disk(100 := [42])" "disk tx_bc = zero_disk"
    "ready tx_bc" "pins tx_bc 100 = 1"
proof -
  show inv: "bc_inv tx_bc (rev [0..<NBUF])"
  proof (rule bc_inv_upd [OF log_bc(1) [of zero_disk]])
    show "bufs tx_bc = (bufs (log_bc zero_disk))(0 := (bufs (log_bc zero_disk) 0)
      \<lparr>valid := True, dev := ROOTDEV, blockno := 100, refcnt := 1, bdata := [42]\<rparr>)"
      by (simp add: tx_bc_def upd_def)
  qed (auto simp: tx_bc_def log_bc(5))
  show d: "disk tx_bc = zero_disk" by (simp add: tx_bc_def log_bc(3))
  have h: "holds_block tx_bc b i \<longleftrightarrow> i = 0 \<and> b = 100" if "i < NBUF" for b i
    using that log_bc(7) by (auto simp: holds_block_def tx_bc_def)
  show "lcontent tx_bc = zero_disk(100 := [42])"
  proof
    fix b
    show "lcontent tx_bc b = (zero_disk(100 := [42])) b"
    proof (cases "b = 100")
      case True
      then have "lcontent tx_bc b = bdata (bufs tx_bc 0)" using lcontent_cached [OF inv, of 0 b] h [of 0 b] by simp
      then show ?thesis using True by (simp add: tx_bc_def)
    qed (use lcontent_uncached [of tx_bc b] h d in simp)
  qed
  have "two_free tx_bc" unfolding two_free_def
    by (rule exI [of _ 1], simp add: log_bc(6) tx_bc_def, rule exI [of _ 2]) (simp add: log_bc(6))
  then show "ready tx_bc" using inv log_bc(6,8) by (auto simp: ready_def refs_ok_def tx_bc_def)
  have "pins tx_bc 100 = (\<Sum>i < NBUF. if i = 0 then 1 else 0)"
    unfolding pins_def by (rule sum.cong) (auto simp: tx_bc_def log_bc(5))
  then show "pins tx_bc 100 = 1" by (simp add: sum.delta)
qed

lemma zero_head: "head_n (replicate 1024 0) = 0"
  by code_simp

lemma tx_ready: "commit_ready tx_log tx_bc"
proof -
  have "100 \<notin> log_area 2 LOGBLOCKS"
  proof
    assume "100 \<in> log_area 2 LOGBLOCKS"
    then obtain k where k: "k < 30" "(100 :: u32) = 2 + of_nat k + 1" by (auto simp: log_area_def)
    then have "unat (of_nat k :: u32) = unat (97 :: u32)" by (simp add: algebra_simps)
    then show False using k(1) by (simp add: unat_of_nat)
  qed
  then show ?thesis using tx_bc zero_head by (simp add: commit_ready_def tx_log_def zero_disk_def)
qed

theorem commit_returns_witness: "\<exists>bc'. commit 7 tx_log tx_bc = KRet (tx_log\<lparr>lh_n := 0\<rparr>) bc' \<and> ready bc'"
  using commit_returns [OF tx_ready] .

text \<open>The power fails after the second write, the header: recovery installs block 100.\<close>

theorem commit_crash_atomic_witness:
  "\<exists>lg' bc' lg3 rc'. commit 7 tx_log tx_bc = KRet lg' bc'
    \<and> recover_from_log 8 tx_log (log_bc (apply_writes (disk tx_bc) (take 2 (drop (length (dwrites tx_bc)) (dwrites bc'))))) = KRet lg3 rc'
    \<and> lh_n lg3 = 0 \<and> ((\<forall>b. b \<notin> log_area 2 LOGBLOCKS \<longrightarrow> disk rc' b = disk tx_bc b)
      \<or> (\<forall>b. b \<notin> log_area 2 LOGBLOCKS \<longrightarrow> disk rc' b = lcontent tx_bc b))"
proof -
  have "0 < lh_n tx_log" by (simp add: tx_log_def)
  then obtain bc' where c: "commit 7 tx_log tx_bc = KRet (tx_log\<lparr>lh_n := 0\<rparr>) bc'"
    using commit_spec [OF tx_ready, of 7] by blast
  have l: "lstart tx_log = 2" by (simp add: tx_log_def)
  show ?thesis
    using commit_crash_atomic [OF tx_ready c log_bc_ready _ _ refl, of _ 2 8] c unfolding log_bc(2,3) l by blast
qed

text \<open>An operation has begun on an empty log.\<close>

theorem log_never_overflows_witness:
  "log_run ((log_at 2 0 (replicate 30 0))\<lparr>outstanding := 1\<rparr>) [0]
    \<and> returns (log_write 0 ((log_at 2 0 (replicate 30 0))\<lparr>outstanding := 1\<rparr>) tx_bc)"
proof -
  have "log_run (log_at 2 0 (replicate 30 0)) []" by (rule lr_boot) simp_all
  then have r: "log_run ((log_at 2 0 (replicate 30 0))\<lparr>outstanding := 1\<rparr>) [0]"
    by (rule lr_begin) (simp add: begin_op_def)
  have "(0::nat) < length [0::nat]" "[0::nat] ! 0 < MAXOPBLOCKS" by simp_all
  then show ?thesis using log_never_overflows [OF r, of 0 tx_bc] r by blast
qed

end
