(* ===== verification/Fs.thy ===== *)
theory Fs
  imports Logcrash
begin

text \<open>
  \<^verbatim>\<open>kernel/fs.c\<close>: block allocator, inodes, file contents, directories and path names.
  The code reaches the disk only through \<open>bread\<close>, \<open>log_write\<close> and \<open>brelse\<close>; here these
  are operations of a block store: the contents of every block as the cache shows them, the blocks
  whose buffers the caller holds, and the log. \<^verbatim>\<open>Fsdisk\<close> shows that the buffer cache and
  the log implement it. Inodes in the table are named by their index; \<open>NULL\<close> is \<open>None\<close>. There is
  one disk, so the block operations have no device argument. Copies to and from memory
  (\<open>either_copyout\<close>, \<open>either_copyin\<close>) are arguments.
\<close>

section \<open>On-disk format (fs.h)\<close>

record superblock =
  magic :: u32
  sbsize :: u32
  nblocks :: u32
  ninodes :: u32
  nlog :: u32
  logstart :: u32
  inodestart :: u32
  bmapstart :: u32

abbreviation (input) FSMAGIC :: u32 where "FSMAGIC \<equiv> 0x10203040"
abbreviation (input) NDIRECT :: nat where "NDIRECT \<equiv> 12"
abbreviation (input) NINDIRECT :: nat where "NINDIRECT \<equiv> 256"
abbreviation (input) IPB :: nat where "IPB \<equiv> 16"
abbreviation (input) BPB :: nat where "BPB \<equiv> 8192"
abbreviation (input) DIRSIZ :: nat where "DIRSIZ \<equiv> 14"
abbreviation (input) ROOTINO :: u32 where "ROOTINO \<equiv> 1"
abbreviation (input) T_DIR :: u16 where "T_DIR \<equiv> 1"
abbreviation (input) T_FILE :: u16 where "T_FILE \<equiv> 2"
abbreviation (input) T_DEVICE :: u16 where "T_DEVICE \<equiv> 3"

definition get_le :: "nat \<Rightarrow> nat \<Rightarrow> u8 list \<Rightarrow> 'a::len word" where
  "get_le off n d = word_of_bytes (take n (drop off d))"

definition put_bytes :: "nat \<Rightarrow> u8 list \<Rightarrow> u8 list \<Rightarrow> u8 list" where
  "put_bytes off bs d = take off d @ bs @ drop (off + length bs) d"

definition superblock_of :: "u8 list \<Rightarrow> superblock" where
  "superblock_of d = \<lparr>magic = get_le 0 4 d, sbsize = get_le 4 4 d, nblocks = get_le 8 4 d, ninodes = get_le 12 4 d,
     nlog = get_le 16 4 d, logstart = get_le 20 4 d, inodestart = get_le 24 4 d, bmapstart = get_le 28 4 d\<rparr>"

text \<open>\<open>struct inode\<close>: the part in memory only, then the copy of \<open>struct dinode\<close>.\<close>

record dinode =
  itype :: u16
  imajor :: u16
  iminor :: u16
  nlink :: u16
  isize :: u32
  addrs :: "u32 list"

record inode = dinode +
  idev :: u32
  inum :: u32
  iref :: int
  ilk :: sleeplock
  ivalid :: bool

definition get_dinode :: "nat \<Rightarrow> u8 list \<Rightarrow> dinode" where
  "get_dinode k d =
     (let o0 = 64 * k
      in \<lparr>itype = get_le o0 2 d, imajor = get_le (o0 + 2) 2 d, iminor = get_le (o0 + 4) 2 d,
          nlink = get_le (o0 + 6) 2 d, isize = get_le (o0 + 8) 4 d,
          addrs = map (\<lambda>i. get_le (o0 + 12 + 4 * i) 4 d) [0..<NDIRECT + 1]\<rparr>)"

definition dinode_bytes :: "('a dinode_scheme) \<Rightarrow> u8 list" where
  "dinode_bytes ip = bytes_of 2 (itype ip) @ bytes_of 2 (imajor ip) @ bytes_of 2 (iminor ip) @ bytes_of 2 (nlink ip)
     @ bytes_of 4 (isize ip) @ concat (map (bytes_of 4) (addrs ip))"

definition put_dinode :: "nat \<Rightarrow> 'a dinode_scheme \<Rightarrow> u8 list \<Rightarrow> u8 list" where
  "put_dinode k ip d = put_bytes (64 * k) (dinode_bytes ip) d"

definition IBLOCK :: "u32 \<Rightarrow> superblock \<Rightarrow> u32" where
  "IBLOCK i s = i div 16 + inodestart s"

definition BBLOCK :: "u32 \<Rightarrow> superblock \<Rightarrow> u32" where
  "BBLOCK b s = b div 8192 + bmapstart s"

section \<open>The block store\<close>

record fsst =
  sb :: superblock
  blk :: "u32 \<Rightarrow> u8 list"
  bheld :: "u32 list"
  flog :: logst
  itab :: "inode list"

text \<open>\<open>bread\<close>: a second \<open>bread\<close> of a block the caller holds would wait for itself.\<close>

definition getblk :: "u32 \<Rightarrow> fsst \<Rightarrow> (fsst, u8 list) kcall" where
  "getblk b st = (if b \<in> set (bheld st) then KSleep st else KRet (blk st b) (st\<lparr>bheld := b # bheld st\<rparr>))"

definition putblk :: "u32 \<Rightarrow> fsst \<Rightarrow> (fsst, unit) kcall" where
  "putblk b st = (if b \<in> set (bheld st) then KRet () (st\<lparr>bheld := removeAll b (bheld st)\<rparr>) else KPanic ''brelse'')"

text \<open>An assignment to \<open>bp->data\<close>, and \<open>log_write(bp)\<close>.\<close>

definition setblk :: "u32 \<Rightarrow> (u8 list \<Rightarrow> u8 list) \<Rightarrow> fsst \<Rightarrow> fsst" where
  "setblk b f st = st\<lparr>blk := (blk st)(b := f (blk st b))\<rparr>"

definition logblk :: "u32 \<Rightarrow> fsst \<Rightarrow> (fsst, unit) kcall" where
  "logblk b st =
     (let lg = flog st
      in if lh_n lg \<ge> LOGBLOCKS then KPanic ''too big a transaction''
         else if outstanding lg < 1 then KPanic ''log_write outside of trans''
         else let i = absorb_index (lh_block lg) 0 (lh_n lg) b;
                  lg1 = lg\<lparr>lh_block := (lh_block lg)[i := b]\<rparr>
              in KRet () (st\<lparr>flog := (if i = lh_n lg then lg1\<lparr>lh_n := lh_n lg + 1\<rparr> else lg1)\<rparr>))"

section \<open>Blocks\<close>

definition readsb :: "fsst \<Rightarrow> (fsst, unit) kcall" where
  "readsb st =
     kbind (getblk 1 st) (\<lambda>d st1.
       putblk 1 (st1\<lparr>sb := superblock_of d\<rparr>))"

definition bzero :: "u32 \<Rightarrow> fsst \<Rightarrow> (fsst, unit) kcall" where
  "bzero bno st =
     kbind (getblk bno st) (\<lambda>_ st1.
     kbind (logblk bno (setblk bno (\<lambda>_. replicate BSIZE 0) st1)) (\<lambda>_ st2.
     putblk bno st2))"

text \<open>Bit \<open>bi\<close> of a bitmap block; \<open>m = 1 << (bi % 8)\<close>.\<close>

definition bmask :: "nat \<Rightarrow> u8" where
  "bmask bi = push_bit (bi mod 8) 1"

definition bit_used :: "u8 list \<Rightarrow> nat \<Rightarrow> bool" where
  "bit_used d bi \<longleftrightarrow> (d ! (bi div 8)) AND bmask bi \<noteq> 0"

definition mark_bit :: "nat \<Rightarrow> u8 list \<Rightarrow> u8 list" where
  "mark_bit bi d = d[bi div 8 := (d ! (bi div 8)) OR bmask bi]"

definition unmark_bit :: "nat \<Rightarrow> u8 list \<Rightarrow> u8 list" where
  "unmark_bit bi d = d[bi div 8 := (d ! (bi div 8)) AND NOT (bmask bi)]"

text \<open>The inner loop of \<open>balloc\<close>, with \<open>k\<close> bits of the block left.\<close>

fun balloc_bits :: "u8 list \<Rightarrow> nat \<Rightarrow> nat \<Rightarrow> nat \<Rightarrow> nat \<Rightarrow> nat option" where
  "balloc_bits d b sz bi 0 = None"
| "balloc_bits d b sz bi (Suc k) =
     (if b + bi < sz
      then if \<not> bit_used d bi then Some bi else balloc_bits d b sz (Suc bi) k
      else None)"

function balloc_loop :: "nat \<Rightarrow> nat \<Rightarrow> fsst \<Rightarrow> (fsst, u32) kcall" where
  "balloc_loop sz b st =
     (if b < sz
      then let bb = BBLOCK (of_nat b) (sb st)
           in kbind (getblk bb st) (\<lambda>d st1.
                case balloc_bits d b sz 0 BPB of
                  Some bi \<Rightarrow>
                    kbind (logblk bb (setblk bb (mark_bit bi) st1)) (\<lambda>_ st2.
                    kbind (putblk bb st2) (\<lambda>_ st3.
                    kbind (bzero (of_nat (b + bi)) st3) (\<lambda>_ st4.
                    KRet (of_nat (b + bi)) st4)))
                | None \<Rightarrow> kbind (putblk bb st1) (\<lambda>_ st2. balloc_loop sz (b + BPB) st2))
      else KRet 0 st)"
  by pat_completeness auto
termination by (relation "measure (\<lambda>(sz, b, st). sz - b)") auto

definition balloc :: "fsst \<Rightarrow> (fsst, u32) kcall" where
  "balloc st = balloc_loop (unat (sbsize (sb st))) 0 st"

definition bfree :: "u32 \<Rightarrow> fsst \<Rightarrow> (fsst, unit) kcall" where
  "bfree b st =
     (let bb = BBLOCK b (sb st); bi = unat (b mod 8192)
      in kbind (getblk bb st) (\<lambda>d st1.
           if \<not> bit_used d bi then KPanic ''freeing free block''
           else kbind (logblk bb (setblk bb (unmark_bit bi) st1)) (\<lambda>_ st2.
                putblk bb st2)))"

section \<open>Inodes\<close>

definition upd_inode :: "nat \<Rightarrow> (inode \<Rightarrow> inode) \<Rightarrow> fsst \<Rightarrow> fsst" where
  "upd_inode ip f st = st\<lparr>itab := (itab st)[ip := f (itab st ! ip)]\<rparr>"

definition iinit :: "fsst \<Rightarrow> fsst" where
  "iinit st = st\<lparr>itab := map (\<lambda>ip. ip\<lparr>ilk := initsleeplock\<rparr>) (itab st)\<rparr>"

text \<open>The loop of \<open>iget\<close>: the entry of the inode, and the first empty slot seen before.\<close>

fun iget_scan :: "inode list \<Rightarrow> nat \<Rightarrow> nat option \<Rightarrow> u32 \<Rightarrow> u32 \<Rightarrow> nat option \<times> nat option" where
  "iget_scan [] i emp dv n = (None, emp)"
| "iget_scan (ip # ips) i emp dv n =
     (if iref ip > 0 \<and> idev ip = dv \<and> inum ip = n then (Some i, emp)
      else iget_scan ips (Suc i) (if emp = None \<and> iref ip = 0 then Some i else emp) dv n)"

definition iget :: "u32 \<Rightarrow> u32 \<Rightarrow> fsst \<Rightarrow> (fsst, nat) kcall" where
  "iget dv n st =
     (case iget_scan (itab st) 0 None dv n of
        (Some ip, _) \<Rightarrow> KRet ip (upd_inode ip (\<lambda>x. x\<lparr>iref := iref x + 1\<rparr>) st)
      | (None, Some ip) \<Rightarrow>
          KRet ip (upd_inode ip (\<lambda>x. x\<lparr>idev := dv, inum := n, iref := 1, ivalid := False\<rparr>) st)
      | (None, None) \<Rightarrow> KPanic ''iget: no inodes'')"

definition idup :: "nat \<Rightarrow> fsst \<Rightarrow> (fsst, nat) kcall" where
  "idup ip st = KRet ip (upd_inode ip (\<lambda>x. x\<lparr>iref := iref x + 1\<rparr>) st)"

function ialloc_loop :: "u16 \<Rightarrow> nat \<Rightarrow> nat \<Rightarrow> fsst \<Rightarrow> (fsst, nat option) kcall" where
  "ialloc_loop ty n k st =
     (if k < n
      then let ib = IBLOCK (of_nat k) (sb st)
           in kbind (getblk ib st) (\<lambda>d st1.
                if itype (get_dinode (k mod IPB) d) = 0
                then kbind (logblk ib (setblk ib (put_dinode (k mod IPB)
                       \<lparr>itype = ty, imajor = 0, iminor = 0, nlink = 0, isize = 0, addrs = replicate (NDIRECT + 1) 0\<rparr>) st1)) (\<lambda>_ st2.
                     kbind (putblk ib st2) (\<lambda>_ st3.
                     kbind (iget ROOTDEV (of_nat k) st3) (\<lambda>ip st4. KRet (Some ip) st4)))
                else kbind (putblk ib st1) (\<lambda>_ st2. ialloc_loop ty n (Suc k) st2))
      else KRet None st)"
  by pat_completeness auto
termination by (relation "measure (\<lambda>(ty, n, k, st). n - k)") auto

definition ialloc :: "u16 \<Rightarrow> fsst \<Rightarrow> (fsst, nat option) kcall" where
  "ialloc ty st = ialloc_loop ty (unat (ninodes (sb st))) 1 st"

definition iupdate :: "nat \<Rightarrow> fsst \<Rightarrow> (fsst, unit) kcall" where
  "iupdate ip st =
     (let n = inum (itab st ! ip); ib = IBLOCK n (sb st)
      in kbind (getblk ib st) (\<lambda>_ st1.
         kbind (logblk ib (setblk ib (put_dinode (unat (n mod 16)) (itab st1 ! ip)) st1)) (\<lambda>_ st2.
         putblk ib st2)))"

definition load_dinode :: "dinode \<Rightarrow> inode \<Rightarrow> inode" where
  "load_dinode dip x = x\<lparr>itype := itype dip, imajor := imajor dip, iminor := iminor dip, nlink := nlink dip,
     isize := isize dip, addrs := addrs dip\<rparr>"

definition ilock :: "int \<Rightarrow> nat option \<Rightarrow> fsst \<Rightarrow> (fsst, unit) kcall" where
  "ilock pid ipo st =
     (case ipo of None \<Rightarrow> KPanic ''ilock''
      | Some ip \<Rightarrow>
        if iref (itab st ! ip) < 1 then KPanic ''ilock''
        else case acquiresleep pid (ilk (itab st ! ip)) of
            None \<Rightarrow> KSleep st
          | Some lk \<Rightarrow>
              let st1 = upd_inode ip (\<lambda>x. x\<lparr>ilk := lk\<rparr>) st
              in if \<not> ivalid (itab st1 ! ip)
                 then let n = inum (itab st1 ! ip); ib = IBLOCK n (sb st1)
                      in kbind (getblk ib st1) (\<lambda>d st2.
                         let st3 = upd_inode ip (load_dinode (get_dinode (unat (n mod 16)) d)) st2
                         in kbind (putblk ib st3) (\<lambda>_ st4.
                            let st5 = upd_inode ip (\<lambda>x. x\<lparr>ivalid := True\<rparr>) st4
                            in if itype (itab st5 ! ip) = 0 then KPanic ''ilock: no type'' else KRet () st5))
                 else KRet () st1)"

definition iunlock :: "int \<Rightarrow> nat option \<Rightarrow> fsst \<Rightarrow> (fsst, unit) kcall" where
  "iunlock pid ipo st =
     (case ipo of None \<Rightarrow> KPanic ''iunlock''
      | Some ip \<Rightarrow>
        if \<not> holdingsleep pid (ilk (itab st ! ip)) \<or> iref (itab st ! ip) < 1 then KPanic ''iunlock''
        else KRet () (upd_inode ip (\<lambda>x. x\<lparr>ilk := releasesleep (ilk x)\<rparr>) st))"

text \<open>The two loops of \<open>itrunc\<close>: the direct blocks, and the entries \<open>as\<close> of the indirect block.\<close>

fun trunc_direct :: "nat \<Rightarrow> nat \<Rightarrow> nat \<Rightarrow> fsst \<Rightarrow> (fsst, unit) kcall" where
  "trunc_direct ip i 0 st = KRet () st"
| "trunc_direct ip i (Suc k) st =
     (if addrs (itab st ! ip) ! i \<noteq> 0
      then kbind (bfree (addrs (itab st ! ip) ! i) st) (\<lambda>_ st1.
             trunc_direct ip (Suc i) k (upd_inode ip (\<lambda>x. x\<lparr>addrs := (addrs x)[i := 0]\<rparr>) st1))
      else trunc_direct ip (Suc i) k st)"

fun free_all :: "u32 list \<Rightarrow> fsst \<Rightarrow> (fsst, unit) kcall" where
  "free_all [] st = KRet () st"
| "free_all (a # as) st =
     (if a \<noteq> 0 then kbind (bfree a st) (\<lambda>_ st1. free_all as st1) else free_all as st)"

definition indirect :: "u8 list \<Rightarrow> u32 list" where
  "indirect d = map (\<lambda>j. get_le (4 * j) 4 d) [0..<NINDIRECT]"

definition itrunc :: "nat \<Rightarrow> fsst \<Rightarrow> (fsst, unit) kcall" where
  "itrunc ip st =
     kbind (trunc_direct ip 0 NDIRECT st) (\<lambda>_ st1.
     let ia = addrs (itab st1 ! ip) ! NDIRECT in
     kbind (if ia \<noteq> 0
            then kbind (getblk ia st1) (\<lambda>d st2.
                 kbind (free_all (indirect d) st2) (\<lambda>_ st3.
                 kbind (putblk ia st3) (\<lambda>_ st4.
                 kbind (bfree (addrs (itab st4 ! ip) ! NDIRECT) st4) (\<lambda>_ st5.
                 KRet () (upd_inode ip (\<lambda>x. x\<lparr>addrs := (addrs x)[NDIRECT := 0]\<rparr>) st5)))))
            else KRet () st1) (\<lambda>_ st6.
     iupdate ip (upd_inode ip (\<lambda>x. x\<lparr>isize := 0\<rparr>) st6)))"

definition iput :: "int \<Rightarrow> nat \<Rightarrow> fsst \<Rightarrow> (fsst, unit) kcall" where
  "iput pid ip st =
     (let x = itab st ! ip; drop_ref = (\<lambda>s. upd_inode ip (\<lambda>x. x\<lparr>iref := iref x - 1\<rparr>) s)
      in if iref x = 1 \<and> ivalid x \<and> nlink x = 0
         then case acquiresleep pid (ilk x) of
                None \<Rightarrow> KSleep st
              | Some lk \<Rightarrow>
                  kbind (itrunc ip (upd_inode ip (\<lambda>x. x\<lparr>ilk := lk\<rparr>) st)) (\<lambda>_ st1.
                  kbind (iupdate ip (upd_inode ip (\<lambda>x. x\<lparr>itype := 0\<rparr>) st1)) (\<lambda>_ st2.
                  KRet () (drop_ref (upd_inode ip (\<lambda>x. x\<lparr>ivalid := False, ilk := releasesleep (ilk x)\<rparr>) st2))))
         else KRet () (drop_ref st))"

definition iunlockput :: "int \<Rightarrow> nat \<Rightarrow> fsst \<Rightarrow> (fsst, unit) kcall" where
  "iunlockput pid ip st = kbind (iunlock pid (Some ip) st) (\<lambda>_ st1. iput pid ip st1)"

section \<open>File contents\<close>

text \<open>\<open>addr = balloc(dev); if(addr == 0) return 0; ip->addrs[bn] = addr;\<close> when the slot is empty.\<close>

definition bmap_slot :: "nat \<Rightarrow> nat \<Rightarrow> fsst \<Rightarrow> (fsst, u32) kcall" where
  "bmap_slot ip bn st =
     (let a = addrs (itab st ! ip) ! bn
      in if a = 0
         then kbind (balloc st) (\<lambda>a1 st1.
                if a1 = 0 then KRet 0 st1
                else KRet a1 (upd_inode ip (\<lambda>x. x\<lparr>addrs := (addrs x)[bn := a1]\<rparr>) st1))
         else KRet a st)"

text \<open>Entry \<open>k\<close> of the indirect block \<open>ia\<close>, allocated if it is empty.\<close>

definition bmap_ind :: "u32 \<Rightarrow> nat \<Rightarrow> fsst \<Rightarrow> (fsst, u32) kcall" where
  "bmap_ind ia k st =
     kbind (getblk ia st) (\<lambda>d st2.
       let a = get_le (4 * k) 4 d
       in kbind (if a = 0
                 then kbind (balloc st2) (\<lambda>a1 st3.
                        if a1 \<noteq> 0
                        then kbind (logblk ia (setblk ia (put_bytes (4 * k) (bytes_of 4 a1)) st3)) (\<lambda>_ st4. KRet a1 st4)
                        else KRet a1 st3)
                 else KRet a st2) (\<lambda>a2 st5.
          kbind (putblk ia st5) (\<lambda>_ st6. KRet a2 st6)))"

definition bmap :: "nat \<Rightarrow> nat \<Rightarrow> fsst \<Rightarrow> (fsst, u32) kcall" where
  "bmap ip bn st =
     (if bn < NDIRECT then bmap_slot ip bn st
      else if bn - NDIRECT < NINDIRECT
      then kbind (bmap_slot ip NDIRECT st) (\<lambda>ia st1.
           if ia = 0 then KRet 0 st1 else bmap_ind ia (bn - NDIRECT) st1)
      else KPanic ''bmap: out of range'')"

text \<open>\<open>struct stat\<close> and \<open>stati\<close>.\<close>

record stat =
  st_dev :: u32
  st_ino :: u32
  st_type :: u16
  st_nlink :: u16
  st_size :: u64

definition stati :: "nat \<Rightarrow> fsst \<Rightarrow> stat" where
  "stati ip st = (let x = itab st ! ip
     in \<lparr>st_dev = idev x, st_ino = inum x, st_type = itype x, st_nlink = nlink x, st_size = ucast (isize x)\<rparr>)"

text \<open>
  The loop of \<open>readi\<close>. \<open>out dst bs m\<close> is \<open>either_copyout\<close>: the bytes arrive at \<open>dst\<close> in memory
  \<open>m\<close>, or it fails. The guards of \<open>readi\<close> exclude wrap-around of \<open>off\<close> and \<open>tot\<close>.
\<close>

type_synonym 'm copyout = "u64 \<Rightarrow> u8 list \<Rightarrow> 'm \<Rightarrow> bool \<times> 'm"

function readi_loop :: "'m copyout \<Rightarrow> nat \<Rightarrow> u64 \<Rightarrow> nat \<Rightarrow> nat \<Rightarrow> nat \<Rightarrow> 'm \<Rightarrow> fsst \<Rightarrow> (fsst, int \<times> 'm) kcall" where
  "readi_loop out ip dst off tot n mm st =
     (if tot < n
      then kbind (bmap ip (off div BSIZE) st) (\<lambda>addr st1.
           if addr = 0 then KRet (int tot, mm) st1
           else kbind (getblk addr st1) (\<lambda>d st2.
                let m = min (n - tot) (BSIZE - off mod BSIZE);
                    r = out dst (take m (drop (off mod BSIZE) d)) mm
                in kbind (putblk addr st2) (\<lambda>_ st3.
                   if \<not> fst r then KRet (-1, snd r) st3
                   else readi_loop out ip (dst + of_nat m) (off + m) (tot + m) n (snd r) st3)))
      else KRet (int tot, mm) st)"
  by pat_completeness auto
termination
proof (relation "measure (\<lambda>(out, ip, dst, off, tot, n, mm, st). n - tot)")
  fix out :: "'m copyout" and ip :: nat and dst :: u64 and off tot n :: nat
    and mm :: 'm and st st3 :: fsst and m :: nat and r :: "bool \<times> 'm"
  assume t: "tot < n" and m: "m = min (n - tot) (BSIZE - off mod BSIZE)"
  have "0 < m" using t mod_less_divisor [of BSIZE off] unfolding m by linarith
  then show "((out, ip, dst + of_nat m, off + m, tot + m, n, snd r, st3), out, ip, dst, off, tot, n, mm, st)
      \<in> measure (\<lambda>(out, ip, dst, off, tot, n, mm, st). n - tot)"
    using t by simp
qed simp

definition readi :: "'m copyout \<Rightarrow> nat \<Rightarrow> u64 \<Rightarrow> u32 \<Rightarrow> u32 \<Rightarrow> 'm \<Rightarrow> fsst \<Rightarrow> (fsst, int \<times> 'm) kcall" where
  "readi out ip dst off n mm st =
     (let sz = isize (itab st ! ip)
      in if off > sz \<or> off + n < off then KRet (0, mm) st
         else let n1 = (if off + n > sz then sz - off else n)
              in readi_loop out ip dst (unat off) 0 (unat n1) mm st)"

text \<open>
  The loop of \<open>writei\<close>. \<open>inp src bs mm\<close> is \<open>either_copyin\<close> into a part of the buffer that holds
  \<open>bs\<close>: the bytes there afterwards (on failure a prefix may have been overwritten), whether it
  succeeded, and the memory. The result is \<open>tot\<close> and the final \<open>off\<close>.
\<close>

type_synonym 'm copyin = "u64 \<Rightarrow> u8 list \<Rightarrow> 'm \<Rightarrow> u8 list \<times> bool \<times> 'm"

function writei_loop :: "'m copyin \<Rightarrow> nat \<Rightarrow> u64 \<Rightarrow> nat \<Rightarrow> nat \<Rightarrow> nat \<Rightarrow> 'm \<Rightarrow> fsst \<Rightarrow> (fsst, nat \<times> nat \<times> 'm) kcall" where
  "writei_loop inp ip src off tot n mm st =
     (if tot < n
      then kbind (bmap ip (off div BSIZE) st) (\<lambda>addr st1.
           if addr = 0 then KRet (tot, off, mm) st1
           else kbind (getblk addr st1) (\<lambda>d st2.
                let m = min (n - tot) (BSIZE - off mod BSIZE);
                    (bs, ok, mm1) = inp src (take m (drop (off mod BSIZE) d)) mm;
                    st3 = setblk addr (put_bytes (off mod BSIZE) bs) st2
                in if \<not> ok then kbind (putblk addr st3) (\<lambda>_ st4. KRet (tot, off, mm1) st4)
                   else kbind (logblk addr st3) (\<lambda>_ st4.
                        kbind (putblk addr st4) (\<lambda>_ st5.
                        writei_loop inp ip (src + of_nat m) (off + m) (tot + m) n mm1 st5))))
      else KRet (tot, off, mm) st)"
  by pat_completeness auto
termination
proof (relation "measure (\<lambda>(inp, ip, src, off, tot, n, mm, st). n - tot)")
  fix inp :: "'m copyin" and ip :: nat and src :: u64 and off tot n :: nat
    and mm mm1 :: 'm and st st5 :: fsst and m :: nat
  assume t: "tot < n" and m: "m = min (n - tot) (BSIZE - off mod BSIZE)"
  have "0 < m" using t mod_less_divisor [of BSIZE off] unfolding m by linarith
  then show "((inp, ip, src + of_nat m, off + m, tot + m, n, mm1, st5), inp, ip, src, off, tot, n, mm, st)
      \<in> measure (\<lambda>(inp, ip, src, off, tot, n, mm, st). n - tot)"
    using t by simp
qed simp

definition writei :: "'m copyin \<Rightarrow> nat \<Rightarrow> u64 \<Rightarrow> u32 \<Rightarrow> u32 \<Rightarrow> 'm \<Rightarrow> fsst \<Rightarrow> (fsst, int \<times> 'm) kcall" where
  "writei inp ip src off n mm st =
     (if off > isize (itab st ! ip) \<or> off + n < off then KRet (-1, mm) st
      else if unat (off + n) > (NDIRECT + NINDIRECT) * BSIZE then KRet (-1, mm) st
      else kbind (writei_loop inp ip src (unat off) 0 (unat n) mm st) (\<lambda>(tot, off1, mm1) st1.
           let st2 = (if off1 > unat (isize (itab st1 ! ip))
                      then upd_inode ip (\<lambda>x. x\<lparr>isize := of_nat off1\<rparr>) st1 else st1)
           in kbind (iupdate ip st2) (\<lambda>_ st3. KRet (int tot, mm1) st3)))"

section \<open>Directories\<close>

text \<open>\<open>strncmp\<close> on strings given as bytes; past the end of the list is the terminating 0.\<close>

fun strncmp_bytes :: "nat \<Rightarrow> u8 list \<Rightarrow> u8 list \<Rightarrow> int" where
  "strncmp_bytes 0 p q = 0"
| "strncmp_bytes (Suc n) p q =
     (let c = (case p of [] \<Rightarrow> 0 | x # _ \<Rightarrow> x); d = (case q of [] \<Rightarrow> 0 | x # _ \<Rightarrow> x)
      in if c \<noteq> 0 \<and> c = d then strncmp_bytes n (tl p) (tl q) else uint c - uint d)"

definition namecmp :: "u8 list \<Rightarrow> u8 list \<Rightarrow> int" where
  "namecmp s t = strncmp_bytes DIRSIZ s t"

text \<open>\<open>struct dirent de\<close> is a 16-byte buffer in kernel memory.\<close>

definition de_inum :: "u8 list \<Rightarrow> u16" where
  "de_inum de = get_le 0 2 de"

definition de_name :: "u8 list \<Rightarrow> u8 list" where
  "de_name de = take DIRSIZ (drop 2 de)"

definition kcopyout :: "u8 list copyout" where
  "kcopyout dst bs m = (True, put_bytes (unat dst) bs m)"

definition kcopyin :: "u8 list copyin" where
  "kcopyin src bs m = (take (length bs) (drop (unat src) m), True, m)"

text \<open>\<open>readi(dp, 0, (uint64)&de, off, sizeof(de))\<close>, with \<open>panic\<close> on a short read.\<close>

definition read_dirent :: "string \<Rightarrow> nat \<Rightarrow> nat \<Rightarrow> fsst \<Rightarrow> (fsst, u8 list) kcall" where
  "read_dirent msg dp off st =
     kbind (readi kcopyout dp 0 (of_nat off) 16 (replicate 16 0) st) (\<lambda>(r, de) st1.
       if r \<noteq> 16 then KPanic msg else KRet de st1)"

text \<open>The loop of \<open>dirlookup\<close>; \<open>sz\<close> is \<open>dp->size\<close>, which \<open>readi\<close> does not change.\<close>

function dirlookup_loop :: "nat \<Rightarrow> u8 list \<Rightarrow> nat \<Rightarrow> nat \<Rightarrow> fsst \<Rightarrow> (fsst, (nat \<times> nat) option) kcall" where
  "dirlookup_loop dp name sz off st =
     (if off < sz
      then kbind (read_dirent ''dirlookup read'' dp off st) (\<lambda>de st1.
           if de_inum de = 0 then dirlookup_loop dp name sz (off + 16) st1
           else if namecmp name (de_name de) = 0
           then kbind (iget (idev (itab st1 ! dp)) (ucast (de_inum de)) st1) (\<lambda>ip st2. KRet (Some (ip, off)) st2)
           else dirlookup_loop dp name sz (off + 16) st1)
      else KRet None st)"
  by pat_completeness auto
termination by (relation "measure (\<lambda>(dp, name, sz, off, st). sz - off)") auto

definition dirlookup :: "nat \<Rightarrow> u8 list \<Rightarrow> fsst \<Rightarrow> (fsst, (nat \<times> nat) option) kcall" where
  "dirlookup dp name st =
     (if itype (itab st ! dp) \<noteq> T_DIR then KPanic ''dirlookup not DIR''
      else dirlookup_loop dp name (unat (isize (itab st ! dp))) 0 st)"

text \<open>The search of \<open>dirlink\<close> for an empty entry: its offset, or the size of the directory.\<close>

function dirlink_loop :: "nat \<Rightarrow> nat \<Rightarrow> nat \<Rightarrow> fsst \<Rightarrow> (fsst, nat) kcall" where
  "dirlink_loop dp sz off st =
     (if off < sz
      then kbind (read_dirent ''dirlink read'' dp off st) (\<lambda>de st1.
           if de_inum de = 0 then KRet off st1 else dirlink_loop dp sz (off + 16) st1)
      else KRet off st)"
  by pat_completeness auto
termination by (relation "measure (\<lambda>(dp, sz, off, st). sz - off)") auto

text \<open>\<open>strncpy(de.name, name, DIRSIZ); de.inum = inum;\<close>\<close>

definition make_dirent :: "u8 list \<Rightarrow> u32 \<Rightarrow> u8 list" where
  "make_dirent name n = bytes_of 2 (ucast n :: u16) @ take DIRSIZ (takeWhile (\<lambda>c. c \<noteq> 0) name @ replicate DIRSIZ 0)"

definition dirlink :: "int \<Rightarrow> nat \<Rightarrow> u8 list \<Rightarrow> u32 \<Rightarrow> fsst \<Rightarrow> (fsst, int) kcall" where
  "dirlink pid dp name n st =
     kbind (dirlookup dp name st) (\<lambda>r st1.
       case r of
         Some (ip, _) \<Rightarrow> kbind (iput pid ip st1) (\<lambda>_ st2. KRet (-1) st2)
       | None \<Rightarrow>
           kbind (dirlink_loop dp (unat (isize (itab st1 ! dp))) 0 st1) (\<lambda>off st2.
           kbind (writei kcopyin dp 0 (of_nat off) 16 (make_dirent name n) st2) (\<lambda>(w, _) st3.
           KRet (if w \<noteq> 16 then -1 else 0) st3)))"

section \<open>Paths\<close>

text \<open>
  A path is the bytes before its terminating 0. \<open>skipelem\<close> gives the rest of the path and the
  element stored in \<open>name\<close>; a NUL inside the list cannot occur.
\<close>

definition skipelem :: "u8 list \<Rightarrow> (u8 list \<times> u8 list) option" where
  "skipelem path =
     (let p = dropWhile (\<lambda>c. c = 0x2F) path
      in if p = [] then None
         else Some (dropWhile (\<lambda>c. c = 0x2F) (dropWhile (\<lambda>c. c \<noteq> 0x2F) p), take DIRSIZ (takeWhile (\<lambda>c. c \<noteq> 0x2F) p)))"

lemma skipelem_shorter: "skipelem path = Some (rest, name) \<Longrightarrow> length rest < length path"
proof -
  assume a: "skipelem path = Some (rest, name)"
  define p where "p = dropWhile (\<lambda>c. c = 0x2F) path"
  have p: "p \<noteq> []" "rest = dropWhile (\<lambda>c. c = 0x2F) (dropWhile (\<lambda>c. c \<noteq> 0x2F) p)"
    using a by (auto simp: skipelem_def p_def Let_def split: if_splits)
  obtain c q where cq: "p = c # q" using p(1) by (cases p) auto
  have "c \<noteq> 0x2F" using cq hd_dropWhile [of "\<lambda>c. c = 0x2F" path] unfolding p_def by force
  then have "length rest \<le> length q"
    unfolding p(2) cq by (simp add: le_trans [OF length_dropWhile_le length_dropWhile_le])
  moreover have "length p \<le> length path" unfolding p_def by (rule length_dropWhile_le)
  ultimately show ?thesis using cq by simp
qed

function namex_loop :: "int \<Rightarrow> bool \<Rightarrow> u8 list \<Rightarrow> u8 list \<Rightarrow> nat \<Rightarrow> fsst \<Rightarrow> (fsst, (nat \<times> u8 list) option) kcall" where
  "namex_loop pid parent name path ip st =
     (case skipelem path of
        None \<Rightarrow> if parent then kbind (iput pid ip st) (\<lambda>_ st1. KRet None st1) else KRet (Some (ip, name)) st
      | Some (rest, elem) \<Rightarrow>
          kbind (ilock pid (Some ip) st) (\<lambda>_ st1.
          if itype (itab st1 ! ip) \<noteq> T_DIR
          then kbind (iunlockput pid ip st1) (\<lambda>_ st2. KRet None st2)
          else if parent \<and> rest = []
          then kbind (iunlock pid (Some ip) st1) (\<lambda>_ st2. KRet (Some (ip, elem)) st2)
          else kbind (dirlookup ip elem st1) (\<lambda>r st2.
               case r of
                 None \<Rightarrow> kbind (iunlockput pid ip st2) (\<lambda>_ st3. KRet None st3)
               | Some (nip, _) \<Rightarrow>
                   kbind (iunlockput pid ip st2) (\<lambda>_ st3. namex_loop pid parent elem rest nip st3))))"
  by pat_completeness auto
termination by (relation "measure (\<lambda>(pid, parent, name, path, ip, st). length path)") (auto simp: skipelem_shorter)

text \<open>\<open>namex\<close> of the process \<open>pid\<close> with current directory \<open>cwd\<close>.\<close>

definition namex :: "int \<Rightarrow> nat \<Rightarrow> u8 list \<Rightarrow> bool \<Rightarrow> fsst \<Rightarrow> (fsst, (nat \<times> u8 list) option) kcall" where
  "namex pid cwd path parent st =
     kbind (case path of c # _ \<Rightarrow> if c = 0x2F then iget ROOTDEV ROOTINO st else idup cwd st | [] \<Rightarrow> idup cwd st)
       (\<lambda>ip st1. namex_loop pid parent [] path ip st1)"

definition namei :: "int \<Rightarrow> nat \<Rightarrow> u8 list \<Rightarrow> fsst \<Rightarrow> (fsst, nat option) kcall" where
  "namei pid cwd path st = kbind (namex pid cwd path False st) (\<lambda>r st1. KRet (map_option fst r) st1)"

definition nameiparent :: "int \<Rightarrow> nat \<Rightarrow> u8 list \<Rightarrow> fsst \<Rightarrow> (fsst, (nat \<times> u8 list) option) kcall" where
  "nameiparent pid cwd path st = namex pid cwd path True st"

function findname_loop :: "nat \<Rightarrow> u32 \<Rightarrow> nat \<Rightarrow> nat \<Rightarrow> fsst \<Rightarrow> (fsst, u8 list option) kcall" where
  "findname_loop dp n sz off st =
     (if off < sz
      then kbind (read_dirent ''findname: readi'' dp off st) (\<lambda>de st1.
           if ucast (de_inum de) = n
           then KRet (Some (take (DIRSIZ - 1) (takeWhile (\<lambda>c. c \<noteq> 0) (de_name de)))) st1
           else findname_loop dp n sz (off + 16) st1)
      else KRet None st)"
  by pat_completeness auto
termination by (relation "measure (\<lambda>(dp, n, sz, off, st). sz - off)") auto

definition findname :: "nat \<Rightarrow> u32 \<Rightarrow> fsst \<Rightarrow> (fsst, u8 list option) kcall" where
  "findname dp n st =
     (if itype (itab st ! dp) \<noteq> T_DIR then KRet None st
      else findname_loop dp n (unat (isize (itab st ! dp))) 0 st)"

section \<open>Transactions and start-up\<close>

text \<open>
  \<open>begin_op\<close> and \<open>end_op\<close> on the block store: a commit keeps the contents of all blocks and
  empties the log.
\<close>

definition fs_begin :: "fsst \<Rightarrow> (fsst, unit) kcall" where
  "fs_begin st = (case begin_op (flog st) of None \<Rightarrow> KSleep st | Some lg \<Rightarrow> KRet () (st\<lparr>flog := lg\<rparr>))"

definition fs_end :: "fsst \<Rightarrow> (fsst, unit) kcall" where
  "fs_end st =
     (case end_op_locked (flog st) of
        Panic e \<Rightarrow> KPanic e
      | Ret (lg, c) \<Rightarrow> KRet () (st\<lparr>flog := (if c then lg\<lparr>lh_n := 0, committing := False\<rparr> else lg)\<rparr>))"

function ireclaim_loop :: "int \<Rightarrow> nat \<Rightarrow> nat \<Rightarrow> fsst \<Rightarrow> (fsst, unit) kcall" where
  "ireclaim_loop pid n k st =
     (if k < n
      then let ib = IBLOCK (of_nat k) (sb st)
           in kbind (getblk ib st) (\<lambda>d st1.
              let dip = get_dinode (k mod IPB) d
              in if itype dip \<noteq> 0 \<and> nlink dip = 0
                 then kbind (iget ROOTDEV (of_nat k) st1) (\<lambda>ip st2.
                      kbind (putblk ib st2) (\<lambda>_ st3.
                      kbind (fs_begin st3) (\<lambda>_ st4.
                      kbind (ilock pid (Some ip) st4) (\<lambda>_ st5.
                      kbind (iunlock pid (Some ip) st5) (\<lambda>_ st6.
                      kbind (iput pid ip st6) (\<lambda>_ st7.
                      kbind (fs_end st7) (\<lambda>_ st8.
                      ireclaim_loop pid n (Suc k) st8)))))))
                 else kbind (putblk ib st1) (\<lambda>_ st2. ireclaim_loop pid n (Suc k) st2))
      else KRet () st)"
  by pat_completeness auto
termination by (relation "measure (\<lambda>(pid, n, k, st). n - k)") auto

definition ireclaim :: "int \<Rightarrow> fsst \<Rightarrow> (fsst, unit) kcall" where
  "ireclaim pid st = ireclaim_loop pid (unat (ninodes (sb st))) 1 st"

text \<open>\<open>initlog\<close> on the block store: the recovery of \<^verbatim>\<open>Logcrash\<close>, then an empty log.\<close>

definition fs_initlog :: "fsst \<Rightarrow> fsst" where
  "fs_initlog st =
     (let h = logstart (sb st); d = recovered h (blk st)
      in st\<lparr>blk := d(h := put_head 0 [] (d h)), flog := (flog st)\<lparr>lstart := h, lh_n := 0\<rparr>\<rparr>)"

definition fsinit :: "int \<Rightarrow> fsst \<Rightarrow> (fsst, unit) kcall" where
  "fsinit pid st =
     kbind (readsb st) (\<lambda>_ st1.
       if magic (sb st1) \<noteq> FSMAGIC then KPanic ''invalid file system''
       else ireclaim pid (fs_initlog st1))"

declare balloc_loop.simps [simp del] ialloc_loop.simps [simp del] readi_loop.simps [simp del] writei_loop.simps [simp del]
declare dirlookup_loop.simps [simp del] dirlink_loop.simps [simp del] namex_loop.simps [simp del]
declare findname_loop.simps [simp del] ireclaim_loop.simps [simp del]

lemma upd_inode_simps [simp]:
  "sb (upd_inode ip f st) = sb st" "blk (upd_inode ip f st) = blk st" "bheld (upd_inode ip f st) = bheld st"
  "flog (upd_inode ip f st) = flog st" "itab (upd_inode ip f st) = (itab st)[ip := f (itab st ! ip)]"
  by (simp_all add: upd_inode_def)

end
