(* ===== verification/Kstring.thy ===== *)
theory Kstring
  imports Kprelude
begin

text \<open>
  \<^verbatim>\<open>kernel/string.c\<close> over the byte-addressed memory: every function is the loop of the
  source, one store per iteration, so overlapping arguments behave as in C. \<open>char\<close> is
  unsigned on RISC-V. A count of type \<open>uint\<close> is a \<open>32 word\<close>, a count of type
  \<open>int\<close> an \<open>int\<close>. The lemmas give each loop its closed form.
\<close>

section \<open>Definitions\<close>

text \<open>\<open>for(i = 0; i < n; i++) cdst[i] = c\<close>: \<open>k\<close> iterations are left.\<close>

fun memset_loop :: "mem \<Rightarrow> u64 \<Rightarrow> u8 \<Rightarrow> nat \<Rightarrow> nat \<Rightarrow> mem" where
  "memset_loop m cdst c i 0 = m"
| "memset_loop m cdst c i (Suc k) = memset_loop (m(cdst + of_nat i := c)) cdst c (Suc i) k"

definition memset :: "mem \<Rightarrow> u64 \<Rightarrow> u32 \<Rightarrow> u32 \<Rightarrow> mem" where
  "memset m dst c n = memset_loop m dst (ucast c) 0 (unat n)"

fun memcmp_loop :: "mem \<Rightarrow> u64 \<Rightarrow> u64 \<Rightarrow> nat \<Rightarrow> int" where
  "memcmp_loop m s1 s2 0 = 0"
| "memcmp_loop m s1 s2 (Suc n) =
     (if m s1 \<noteq> m s2 then uint (m s1) - uint (m s2) else memcmp_loop m (s1 + 1) (s2 + 1) n)"

definition memcmp :: "mem \<Rightarrow> u64 \<Rightarrow> u64 \<Rightarrow> u32 \<Rightarrow> int" where
  "memcmp m v1 v2 n = memcmp_loop m v1 v2 (unat n)"

text \<open>The descending loop \<open>*--d = *--s\<close> and the ascending loop \<open>*d++ = *s++\<close>.\<close>

fun memmove_down :: "mem \<Rightarrow> u64 \<Rightarrow> u64 \<Rightarrow> nat \<Rightarrow> mem" where
  "memmove_down m d s 0 = m"
| "memmove_down m d s (Suc n) = memmove_down (m(d - 1 := m (s - 1))) (d - 1) (s - 1) n"

fun memmove_up :: "mem \<Rightarrow> u64 \<Rightarrow> u64 \<Rightarrow> nat \<Rightarrow> mem" where
  "memmove_up m d s 0 = m"
| "memmove_up m d s (Suc n) = memmove_up (m(d := m s)) (d + 1) (s + 1) n"

definition memmove :: "mem \<Rightarrow> u64 \<Rightarrow> u64 \<Rightarrow> u32 \<Rightarrow> mem" where
  "memmove m dst src n =
     (if n = 0 then m
      else if src < dst \<and> src + ucast n > dst
      then memmove_down m (dst + ucast n) (src + ucast n) (unat n)
      else memmove_up m dst src (unat n))"

definition memcpy :: "mem \<Rightarrow> u64 \<Rightarrow> u64 \<Rightarrow> u32 \<Rightarrow> mem" where
  "memcpy m dst src n = memmove m dst src n"

fun strncmp_loop :: "mem \<Rightarrow> u64 \<Rightarrow> u64 \<Rightarrow> nat \<Rightarrow> int" where
  "strncmp_loop m p q 0 = 0"
| "strncmp_loop m p q (Suc n) =
     (if m p \<noteq> 0 \<and> m p = m q then strncmp_loop m (p + 1) (q + 1) n
      else uint (m p) - uint (m q))"

definition strncmp :: "mem \<Rightarrow> u64 \<Rightarrow> u64 \<Rightarrow> u32 \<Rightarrow> int" where
  "strncmp m p q n = strncmp_loop m p q (unat n)"

text \<open>The second loop of \<open>strncpy\<close> pads with zeros what the first one left.\<close>

fun strncpy_pad :: "mem \<Rightarrow> u64 \<Rightarrow> nat \<Rightarrow> mem" where
  "strncpy_pad m s 0 = m"
| "strncpy_pad m s (Suc n) = strncpy_pad (m(s := 0)) (s + 1) n"

fun strncpy_loop :: "mem \<Rightarrow> u64 \<Rightarrow> u64 \<Rightarrow> nat \<Rightarrow> mem" where
  "strncpy_loop m s t 0 = m"
| "strncpy_loop m s t (Suc n) =
     (let c = m t; m1 = m(s := c)
      in if c \<noteq> 0 then strncpy_loop m1 (s + 1) (t + 1) n else strncpy_pad m1 (s + 1) n)"

definition strncpy :: "mem \<Rightarrow> u64 \<Rightarrow> u64 \<Rightarrow> int \<Rightarrow> mem" where
  "strncpy m s t n = strncpy_loop m s t (nat n)"

text \<open>\<open>while(--n > 0 && (*s++ = *t++) != 0); *s = 0\<close>, entered with \<open>n > 0\<close>.\<close>

fun safestrcpy_loop :: "mem \<Rightarrow> u64 \<Rightarrow> u64 \<Rightarrow> nat \<Rightarrow> mem" where
  "safestrcpy_loop m s t 0 = m(s := 0)"
| "safestrcpy_loop m s t (Suc n) =
     (let c = m t; m1 = m(s := c)
      in if c \<noteq> 0 then safestrcpy_loop m1 (s + 1) (t + 1) n else m1(s + 1 := 0))"

definition safestrcpy :: "mem \<Rightarrow> u64 \<Rightarrow> u64 \<Rightarrow> int \<Rightarrow> mem" where
  "safestrcpy m s t n = (if n \<le> 0 then m else safestrcpy_loop m s t (nat n - 1))"

text \<open>\<open>for(n = 0; s[n]; n++)\<close>: \<open>None\<close> where no NUL follows and the loop does not stop.\<close>

partial_function (option) strlen_from :: "mem \<Rightarrow> u64 \<Rightarrow> nat \<Rightarrow> nat option" where
  "strlen_from m s n = (if m (s + of_nat n) = 0 then Some n else strlen_from m s (Suc n))"

definition strlen :: "mem \<Rightarrow> u64 \<Rightarrow> nat option" where
  "strlen m s = strlen_from m s 0"

section \<open>Closed forms\<close>

lemma memset_loop_eq:
  "i + k \<le> 2 ^ 64 \<Longrightarrow> memset_loop m d c i k =
     (\<lambda>x. if i \<le> unat (x - d) \<and> unat (x - d) < i + k then c else m x)"
proof (induction k arbitrary: m i)
  case 0
  then show ?case by (auto simp: fun_eq_iff)
next
  case (Suc k)
  then have *: "x = d + of_nat i \<longleftrightarrow> unat (x - d) = i" for x by (intro addr_eq_iff) simp
  have IH: "memset_loop m' d c (Suc i) k =
     (\<lambda>x. if Suc i \<le> unat (x - d) \<and> unat (x - d) < Suc i + k then c else m' x)" for m'
    using Suc by simp
  show ?case
    unfolding memset_loop.simps IH by (rule ext) (auto simp: * )
qed

lemma memset_eq:
  "memset m dst c n = (\<lambda>x. if unat (x - dst) < unat n then ucast c else m x)"
proof -
  have "0 + unat n \<le> 2 ^ 64" using unat_u32_less [of n] by simp
  then show ?thesis by (simp add: memset_def memset_loop_eq)
qed

lemma memmove_up_apply:
  assumes "unat d + n < 2 ^ 64" "unat s + n < 2 ^ 64" "unat d \<le> unat s \<or> unat s + n \<le> unat d"
  shows "memmove_up m d s n x = (if unat (x - d) < n then m (s + (x - d)) else m x)"
  using assms
proof (induction n arbitrary: m d s)
  case 0
  then show ?case by simp
next
  case (Suc n)
  have d1: "unat (d + 1) = Suc (unat d)" "unat (s + 1) = Suc (unat s)"
    using Suc.prems by (simp_all add: unat_add_nowrap)
  have IH: "memmove_up m' (d + 1) (s + 1) n x =
      (if unat (x - (d + 1)) < n then m' (s + 1 + (x - (d + 1))) else m' x)" for m'
    by (rule Suc.IH) (use Suc.prems d1 in auto)
  have sx: "s + 1 + (x - (d + 1)) = s + (x - d)" by simp
  show ?case
  proof (cases "x = d")
    case True
    have "x - (d + 1) = - 1" using True by simp
    then have "\<not> unat (x - (d + 1)) < n" using Suc.prems unat_minus1_u64 by simp
    then show ?thesis using True IH [of "m(d := m s)"] by simp
  next
    case False
    then have u: "unat (x - (d + 1)) = unat (x - d) - 1" "0 < unat (x - d)"
      using unat_minus_one [of "x - d"] by (simp_all add: diff_diff_eq unat_gt_0)
    have "s + (x - d) \<noteq> d" if lt: "unat (x - d) < Suc n"
    proof -
      have "unat (s + (x - d)) = unat s + unat (x - d)"
        by (rule unat_add_nowrap) (use Suc.prems lt in simp)
      then have "unat (s + (x - d)) \<noteq> unat d" using Suc.prems(3) lt u(2) by linarith
      then show ?thesis by metis
    qed
    moreover have "unat (x - (d + 1)) < n \<longleftrightarrow> unat (x - d) < Suc n" using u by auto
    ultimately show ?thesis using False by (simp add: IH sx)
  qed
qed

lemma memmove_down_apply:
  assumes "unat d + n < 2 ^ 64" "unat s + n < 2 ^ 64" "unat s \<le> unat d"
  shows "memmove_down m (d + of_nat n) (s + of_nat n) n x =
    (if unat (x - d) < n then m (s + (x - d)) else m x)"
  using assms
proof (induction n arbitrary: m)
  case 0
  then show ?case by simp
next
  case (Suc n)
  have *: "x = d + of_nat n \<longleftrightarrow> unat (x - d) = n" by (rule addr_eq_iff) (use Suc.prems in simp)
  have dn: "unat (d + of_nat n) = unat d + n"
    using Suc.prems by (simp add: unat_add_nowrap unat_of_nat64)
  have ne: "s + (x - d) \<noteq> d + of_nat n" if lt: "unat (x - d) < n"
  proof -
    have "unat (s + (x - d)) = unat s + unat (x - d)"
      by (rule unat_add_nowrap) (use Suc.prems lt in simp)
    then have "unat (s + (x - d)) < unat (d + of_nat n)" using Suc.prems(3) lt dn by simp
    then show ?thesis by (metis less_irrefl)
  qed
  have st: "memmove_down m (d + of_nat (Suc n)) (s + of_nat (Suc n)) (Suc n) =
      memmove_down (m(d + of_nat n := m (s + of_nat n))) (d + of_nat n) (s + of_nat n) n"
    by (simp add: add.assoc [symmetric])
  show ?case unfolding st
  proof (subst Suc.IH)
    show "(if unat (x - d) < n then (m(d + of_nat n := m (s + of_nat n))) (s + (x - d))
           else (m(d + of_nat n := m (s + of_nat n))) x) =
          (if unat (x - d) < Suc n then m (s + (x - d)) else m x)"
      using ne * by (auto simp: less_Suc_eq)
  qed (use Suc.prems in auto)
qed

lemma wr_rd_bytes_apply:
  "wr_bytes m d (rd_bytes m' s n) x = (if unat (x - d) < n then m' (s + (x - d)) else m x)"
  by (simp add: wr_bytes_def)

text \<open>
  \<open>memmove\<close> copies \<open>n\<close> bytes as if through a temporary buffer, whichever way source
  and destination overlap, and leaves every byte outside the destination alone. The only
  assumption is that neither range runs past the end of the address space.
\<close>

theorem memmove_copies:
  assumes "unat dst + unat n < 2 ^ 64" "unat src + unat n < 2 ^ 64"
  shows "memmove m dst src n = wr_bytes m dst (rd_bytes m src (unat n))"
proof (rule ext)
  fix x
  have n: "ucast n = (of_nat (unat n) :: u64)" by simp
  have sn: "unat (src + ucast n) = unat src + unat n"
    using assms(2) unat_add_nowrap [of src "ucast n"] by simp
  show "memmove m dst src n x = wr_bytes m dst (rd_bytes m src (unat n)) x"
  proof (cases "src < dst \<and> src + ucast n > dst")
    case True
    then show ?thesis
      unfolding memmove_def n
      using memmove_down_apply [of dst "unat n" src m x] assms
      by (auto simp: wr_rd_bytes_apply word_less_nat_alt)
  next
    case False
    then have "unat dst \<le> unat src \<or> unat src + unat n \<le> unat dst"
      using sn by (auto simp: word_less_nat_alt)
    then show ?thesis
      unfolding memmove_def
      using memmove_up_apply [of dst "unat n" src m x] assms False
      by (auto simp: wr_rd_bytes_apply)
  qed
qed

section \<open>C strings\<close>

lemma rd_bytes_Suc: "rd_bytes m a (Suc n) = m a # rd_bytes m (a + 1) n"
proof (rule nth_equalityI)
  fix i assume "i < length (rd_bytes m a (Suc n))"
  then show "rd_bytes m a (Suc n) ! i = (m a # rd_bytes m (a + 1) n) ! i"
    by (cases i) (simp_all add: add.assoc)
qed simp

lemma rd_bytes_0 [simp]: "rd_bytes m a 0 = []"
  by (simp add: rd_bytes_def)

text \<open>The bytes of the string at \<open>a\<close>, looking at most at \<open>n\<close> bytes.\<close>

definition cstr :: "mem \<Rightarrow> u64 \<Rightarrow> nat \<Rightarrow> u8 list" where
  "cstr m a n = takeWhile (\<lambda>c. c \<noteq> 0) (rd_bytes m a n)"

lemma cstr_0 [simp]: "cstr m a 0 = []"
  by (simp add: cstr_def)

lemma cstr_Suc: "cstr m a (Suc n) = (if m a = 0 then [] else m a # cstr m (a + 1) n)"
  by (simp add: cstr_def rd_bytes_Suc)

theorem strncmp_eq_0: "strncmp m p q n = 0 \<longleftrightarrow> cstr m p (unat n) = cstr m q (unat n)"
proof -
  have "strncmp_loop m p q k = 0 \<longleftrightarrow> cstr m p k = cstr m q k" for k
    by (induction k arbitrary: p q) (auto simp: cstr_Suc word_uint_eq_iff)
  then show ?thesis by (simp add: strncmp_def)
qed

lemma memcmp_eq_0: "memcmp m p q n = 0 \<longleftrightarrow> rd_bytes m p (unat n) = rd_bytes m q (unat n)"
proof -
  have "memcmp_loop m p q k = 0 \<longleftrightarrow> rd_bytes m p k = rd_bytes m q k" for k
    by (induction k arbitrary: p q) (auto simp: rd_bytes_Suc word_uint_eq_iff)
  then show ?thesis by (simp add: memcmp_def)
qed

lemma strlen_from_stop:
  "(\<forall>i < k. m (s + of_nat (n + i)) \<noteq> 0) \<Longrightarrow> m (s + of_nat (n + k)) = 0 \<Longrightarrow>
     strlen_from m s n = Some (n + k)"
proof (induction k arbitrary: n)
  case 0
  then show ?case by (simp add: strlen_from.simps)
next
  case (Suc k)
  have "m (s + of_nat n) \<noteq> 0" using Suc.prems(1) by force
  moreover have "strlen_from m s (Suc n) = Some (Suc n + k)"
    by (rule Suc.IH) (use Suc.prems in \<open>auto simp: add.commute add.left_commute\<close>)
  ultimately show ?case by (simp add: strlen_from.simps [of m s n])
qed

lemma strlen_stops:
  "(\<forall>i < k. m (s + of_nat i) \<noteq> 0) \<Longrightarrow> m (s + of_nat k) = 0 \<Longrightarrow> strlen m s = Some k"
  using strlen_from_stop [of k m s 0] by (simp add: strlen_def)

text \<open>No byte read through \<open>t\<close> is one of the bytes written through \<open>s\<close>.\<close>

definition disjoint_ranges :: "u64 \<Rightarrow> u64 \<Rightarrow> nat \<Rightarrow> bool" where
  "disjoint_ranges s t n \<longleftrightarrow> unat s + n < 2 ^ 64 \<and> unat t + n < 2 ^ 64 \<and>
     (unat s + n \<le> unat t \<or> unat t + n \<le> unat s)"

lemma disjoint_ranges_Suc:
  assumes "disjoint_ranges s t (Suc n)"
  shows "disjoint_ranges (s + 1) (t + 1) n" "k \<le> n \<Longrightarrow> rd_bytes (m(s := c)) (t + 1) k = rd_bytes m (t + 1) k"
proof -
  have u: "unat (s + 1) = Suc (unat s)" "unat (t + 1) = Suc (unat t)"
    using assms unat_add_nowrap [of s 1] unat_add_nowrap [of t 1]
    by (auto simp: disjoint_ranges_def)
  then show "disjoint_ranges (s + 1) (t + 1) n" using assms by (auto simp: disjoint_ranges_def)
  have "t + 1 + of_nat i \<noteq> s" if "i < n" for i
  proof -
    have "unat (t + 1 + of_nat i) = Suc (unat t) + i"
      using assms that u unat_add_nowrap [of "t + 1" "of_nat i"]
      by (simp add: disjoint_ranges_def unat_of_nat)
    then have "unat (t + 1 + of_nat i) \<noteq> unat s" using assms that by (auto simp: disjoint_ranges_def)
    then show ?thesis by metis
  qed
  then show "k \<le> n \<Longrightarrow> rd_bytes (m(s := c)) (t + 1) k = rd_bytes m (t + 1) k"
    by (simp add: rd_bytes_def)
qed

lemma plus1_region:
  assumes "unat s + Suc n < 2 ^ 64" "\<not> unat (x - s) < Suc n"
  shows "x \<noteq> s" "\<not> unat (x - (s + 1)) < n"
proof -
  show ne: "x \<noteq> s" using assms(2) by auto
  then have "unat (x - (s + 1)) = unat (x - s) - 1"
    using unat_minus_one [of "x - s"] by (simp add: diff_diff_eq)
  then show "\<not> unat (x - (s + 1)) < n" using assms(2) by simp
qed

lemma safestrcpy_loop_frame:
  "unat s + Suc n < 2 ^ 64 \<Longrightarrow> \<not> unat (x - s) < Suc n \<Longrightarrow> safestrcpy_loop m s t n x = m x"
proof (induction n arbitrary: m s t)
  case 0
  then show ?case by auto
next
  case (Suc n)
  have u: "unat (s + 1) = Suc (unat s)" using Suc.prems unat_add_nowrap [of s 1] by simp
  note r = plus1_region [OF Suc.prems]
  then have "x \<noteq> s + 1" by auto
  moreover have "safestrcpy_loop m' (s + 1) (t + 1) n x = m' x" for m'
    by (rule Suc.IH) (use u r Suc.prems in auto)
  ultimately show ?case using r by (simp add: Let_def)
qed

lemma safestrcpy_loop_cstr:
  "disjoint_ranges s t (Suc n) \<Longrightarrow>
     cstr (safestrcpy_loop m s t n) s (Suc n) = cstr m t n \<and>
     (\<exists>j \<le> n. safestrcpy_loop m s t n (s + of_nat j) = 0)"
proof (induction n arbitrary: m s t)
  case 0
  then show ?case by (simp add: cstr_Suc)
next
  case (Suc n)
  let ?m1 = "m(s := m t)"
  let ?m2 = "safestrcpy_loop ?m1 (s + 1) (t + 1) n"
  have dj: "disjoint_ranges (s + 1) (t + 1) (Suc n)"
    and rd': "rd_bytes ?m1 (t + 1) n = rd_bytes m (t + 1) n"
    using disjoint_ranges_Suc [OF Suc.prems] by simp_all
  have u: "unat (s + 1) = Suc (unat s)"
    using Suc.prems unat_add_nowrap [of s 1] by (simp add: disjoint_ranges_def)
  show ?case
  proof (cases "m t = 0")
    case True
    have "s + 1 \<noteq> s" by simp
    then show ?thesis using True by (auto simp: Let_def cstr_Suc intro!: exI [of _ 0])
  next
    case False
    obtain j where j: "j \<le> n" "?m2 (s + 1 + of_nat j) = 0" using Suc.IH [OF dj] by blast
    have "?m2 s = ?m1 s"
      by (rule safestrcpy_loop_frame)
        (use dj in \<open>simp add: disjoint_ranges_def\<close>, use Suc.prems unat_minus1_u64 in \<open>simp add: disjoint_ranges_def\<close>)
    then have m2: "?m2 s = m t" by simp
    have IH: "cstr ?m2 (s + 1) (Suc n) = cstr ?m1 (t + 1) n" using Suc.IH [OF dj] by blast
    have "cstr ?m2 s (Suc (Suc n)) = m t # cstr ?m1 (t + 1) n"
      by (subst cstr_Suc) (simp only: m2 IH False if_False)
    also have "\<dots> = cstr m t (Suc n)" using False rd' by (simp add: cstr_Suc [of m t]) (simp add: cstr_def)
    finally have "cstr (safestrcpy_loop m s t (Suc n)) s (Suc (Suc n)) = cstr m t (Suc n)"
      using False by (simp add: Let_def)
    moreover have "safestrcpy_loop m s t (Suc n) (s + of_nat (Suc j)) = 0"
      using j False by (simp add: Let_def add.assoc)
    ultimately show ?thesis using j(1) by (intro conjI exI [of _ "Suc j"]) auto
  qed
qed

text \<open>
  \<open>safestrcpy\<close> writes only the \<open>n\<close> bytes of the destination, always leaves a NUL
  among them, and the string there is the source string cut to at most \<open>n - 1\<close> bytes.
\<close>

theorem safestrcpy_terminates_string:
  assumes "0 < n" "disjoint_ranges s t (nat n)"
  shows "cstr (safestrcpy m s t n) s (nat n) = cstr m t (nat n - 1)
    \<and> (\<exists>j < nat n. safestrcpy m s t n (s + of_nat j) = 0)
    \<and> (\<forall>x. \<not> unat (x - s) < nat n \<longrightarrow> safestrcpy m s t n x = m x)"
proof -
  obtain k where k: "nat n = Suc k" using assms(1) by (cases "nat n") auto
  then show ?thesis
    using safestrcpy_loop_cstr [of s t k m] safestrcpy_loop_frame [of s k _ m t] assms
    by (auto simp: safestrcpy_def disjoint_ranges_def less_Suc_eq_le)
qed

section \<open>Concrete instances\<close>

theorem memmove_copies_witness:
  "memmove ucast 3 1 4 = wr_bytes ucast 3 (rd_bytes ucast 1 4)
    \<and> rd_bytes (memmove ucast 3 1 4) 0 8 = [0, 1, 2, 1, 2, 3, 4, 7]"
  using memmove_copies [where dst = 3 and n = 4 and src = 1 and m = ucast]
  by (simp add: rd_bytes_def wr_bytes_def upt_rec unat_minus1_u64 unsigned_minus_1_eq_mask mask_eq_exp_minus_1)

theorem safestrcpy_terminates_string_witness:
  "cstr (safestrcpy (\<lambda>x. if x < 20 then ucast (x + 1) else 0) 40 0 4) 40 4 = [1, 2, 3]"
  using safestrcpy_terminates_string 
    [where n = 4 and s = 40 and t = 0 and m = "\<lambda>x. if x < 20 then ucast (x + 1) else 0"]
  by (simp add: disjoint_ranges_def cstr_def rd_bytes_def upt_rec)

end
