(* ===== verification/Pool.thy ===== *)
theory Pool
  imports Main
begin

text \<open>
  The contract shared by the kernel's allocators (physical pages, open-file slots, buffer and
  disk descriptors): a state holds a finite set of available resources, taking one removes it
  from the set and reports failure exactly when the set is empty, giving one back adds it.
  The lemmas about a caller that takes several resources and backs out on failure are proved
  once here and reach each allocator through its interpretation.
\<close>

text \<open>Take \<open>n\<close> resources one after the other, stopping at the first failure.\<close>

fun take_n :: "('s \<Rightarrow> 'r option \<times> 's) \<Rightarrow> nat \<Rightarrow> 's \<Rightarrow> 'r list \<times> 's" where
  "take_n tk 0 s = ([], s)"
| "take_n tk (Suc n) s =
     (case tk s of
        (None, s1) \<Rightarrow> ([], s1)
      | (Some r, s1) \<Rightarrow> (case take_n tk n s1 of (rs, s2) \<Rightarrow> (r # rs, s2)))"

fun give_all :: "('r \<Rightarrow> 's \<Rightarrow> 's) \<Rightarrow> 'r list \<Rightarrow> 's \<Rightarrow> 's" where
  "give_all gv [] s = s"
| "give_all gv (r # rs) s = give_all gv rs (gv r s)"

locale pool =
  fixes inv :: "'s \<Rightarrow> bool"
    and avail :: "'s \<Rightarrow> 'r set"
    and valid :: "'r \<Rightarrow> bool"
    and tk :: "'s \<Rightarrow> 'r option \<times> 's"
    and gv :: "'r \<Rightarrow> 's \<Rightarrow> 's"
  assumes avail_finite: "inv s \<Longrightarrow> finite (avail s)"
    and avail_valid: "inv s \<Longrightarrow> r \<in> avail s \<Longrightarrow> valid r"
    and tk_none: "inv s \<Longrightarrow> tk s = (None, s') \<Longrightarrow> avail s = {} \<and> s' = s"
    and tk_some: "inv s \<Longrightarrow> tk s = (Some r, s') \<Longrightarrow>
      r \<in> avail s \<and> inv s' \<and> avail s' = avail s - {r}"
    and gv_back: "inv s \<Longrightarrow> valid r \<Longrightarrow> r \<notin> avail s \<Longrightarrow>
      inv (gv r s) \<and> avail (gv r s) = insert r (avail s)"
begin

lemma tk_succeeds_iff: "inv s \<Longrightarrow> (\<exists>r s'. tk s = (Some r, s')) \<longleftrightarrow> avail s \<noteq> {}"
proof -
  assume i: "inv s"
  obtain o1 s1 where t: "tk s = (o1, s1)" by fastforce
  show ?thesis
  proof (cases o1)
    case None
    then show ?thesis using tk_none [of s s1] i t by auto
  next
    case (Some r)
    then show ?thesis using tk_some [of s r s1] i t by auto
  qed
qed

lemma take_n_spec:
  assumes "inv s" "take_n tk n s = (rs, s')"
  shows "inv s' \<and> distinct rs \<and> set rs \<subseteq> avail s \<and> avail s' = avail s - set rs
    \<and> length rs = min n (card (avail s))"
  using assms
proof (induction n arbitrary: s rs)
  case 0
  then show ?case by auto
next
  case (Suc n)
  obtain o1 s1 where t: "tk s = (o1, s1)" by fastforce
  show ?case
  proof (cases o1)
    case None
    then show ?thesis using Suc.prems t tk_none [of s s1] by auto
  next
    case (Some r)
    obtain rs1 s2 where n: "take_n tk n s1 = (rs1, s2)" by fastforce
    then have rs: "rs = r # rs1" "s2 = s'" using Suc.prems t Some by auto
    have st: "r \<in> avail s" "inv s1" "avail s1 = avail s - {r}"
      using tk_some [of s r s1] Suc.prems(1) t Some by auto
    have "card (avail s) = Suc (card (avail s1))"
      using card_Suc_Diff1 [OF avail_finite [OF Suc.prems(1)] st(1)] st(3) by simp
    then show ?thesis using Suc.IH [of s1 rs1] n st rs by auto
  qed
qed

lemma give_all_spec:
  assumes "inv s" "distinct rs" "\<forall>r \<in> set rs. valid r" "set rs \<inter> avail s = {}"
  shows "inv (give_all gv rs s) \<and> avail (give_all gv rs s) = avail s \<union> set rs"
  using assms
proof (induction rs arbitrary: s)
  case Nil
  then show ?case by simp
next
  case (Cons r rs)
  have "inv (gv r s)" "avail (gv r s) = insert r (avail s)"
    using gv_back [of s r] Cons.prems by auto
  then show ?case using Cons.IH [of "gv r s"] Cons.prems by auto
qed

text \<open>Backing out of a partial allocation leaves exactly the resources there were.\<close>

lemma take_n_back_out:
  assumes "inv s" "take_n tk n s = (rs, s')"
  shows "inv (give_all gv rs s') \<and> avail (give_all gv rs s') = avail s"
proof -
  note sp = take_n_spec [OF assms]
  then have "\<forall>r \<in> set rs. valid r" using avail_valid [OF assms(1)] by blast
  then show ?thesis using sp give_all_spec [of s' rs] by auto
qed

end

end
