(* ===== verification/Kalloc.thy ===== *)
theory Kalloc
  imports Kstring Pool
begin

text \<open>
  \<^verbatim>\<open>kernel/kalloc.c\<close>: the physical page allocator. The free list is threaded through the
  free pages themselves: the first eight bytes of a free page hold the address of the next one.
  The state is the physical memory and the head of the list (\<open>kmem.freelist\<close>); the bodies
  between \<open>acquire(&kmem.lock)\<close> and \<open>release(&kmem.lock)\<close> run atomically.
\<close>

section \<open>Pages (kernel/riscv.h, kernel/memlayout.h)\<close>

abbreviation (input) PGSIZE :: u64 where "PGSIZE \<equiv> 4096"
abbreviation (input) KERNBASE :: u64 where "KERNBASE \<equiv> 0x80000000"

definition PHYSTOP :: u64 where
  "PHYSTOP = KERNBASE + 128 * 1024 * 1024"

definition PGROUNDUP :: "u64 \<Rightarrow> u64" where
  "PGROUNDUP sz = (sz + PGSIZE - 1) AND NOT (PGSIZE - 1)"

definition PGROUNDDOWN :: "u64 \<Rightarrow> u64" where
  "PGROUNDDOWN a = a AND NOT (PGSIZE - 1)"

section \<open>The allocator\<close>

record phys =
  pmem :: mem
  freelist :: u64

definition kfree :: "u64 \<Rightarrow> phys \<Rightarrow> phys outcome" where
  "kfree pa s =
     (if pa mod PGSIZE \<noteq> 0 \<or> pa \<ge> PHYSTOP then Panic ''kfree''
      else let m1 = memset (pmem s) pa 1 4096;
               m2 = store64 m1 pa (freelist s)
           in Ret (s\<lparr>pmem := m2, freelist := pa\<rparr>))"

definition kalloc :: "phys \<Rightarrow> u64 \<times> phys" where
  "kalloc s =
     (let r = freelist s
      in if r \<noteq> 0
         then (r, s\<lparr>freelist := load64 (pmem s) r, pmem := memset (pmem s) r 5 4096\<rparr>)
         else (r, s))"

text \<open>The loop of \<open>freemem\<close>: \<open>None\<close> if the list were cyclic.\<close>

partial_function (option) freemem_loop :: "mem \<Rightarrow> u64 \<Rightarrow> u32 \<Rightarrow> u32 option" where
  "freemem_loop m r pages =
     (if r \<noteq> 0 then freemem_loop m (load64 m r) (pages + 1) else Some pages)"

definition freemem :: "phys \<Rightarrow> u64 option" where
  "freemem s = map_option (\<lambda>pages. scast pages * (PGSIZE div 1024))
     (freemem_loop (pmem s) (freelist s) 0)"

text \<open>The loop of \<open>freerange\<close>; with a wrapping \<open>p + PGSIZE\<close> it would not stop.\<close>

partial_function (option) freerange_loop :: "u64 \<Rightarrow> u64 \<Rightarrow> phys \<Rightarrow> phys outcome option" where
  "freerange_loop p pa_end s =
     (if p + PGSIZE \<le> pa_end
      then (case kfree p s of
              Panic e \<Rightarrow> Some (Panic e)
            | Ret s1 \<Rightarrow> freerange_loop (p + PGSIZE) pa_end s1)
      else Some (Ret s))"

definition freerange :: "u64 \<Rightarrow> u64 \<Rightarrow> phys \<Rightarrow> phys outcome option" where
  "freerange pa_start pa_end s = freerange_loop (PGROUNDUP pa_start) pa_end s"

definition kinit :: "u64 \<Rightarrow> phys \<Rightarrow> phys outcome option" where
  "kinit end_of_kernel s = freerange end_of_kernel PHYSTOP s"

section \<open>The abstract free list\<close>

text \<open>A page the allocator may hold: not NULL, page-aligned, below \<open>PHYSTOP\<close>.\<close>

definition page_ok :: "u64 \<Rightarrow> bool" where
  "page_ok p \<longleftrightarrow> p \<noteq> 0 \<and> aligned 12 p \<and> p < PHYSTOP"

fun linked :: "mem \<Rightarrow> u64 \<Rightarrow> u64 list \<Rightarrow> bool" where
  "linked m r [] \<longleftrightarrow> r = 0"
| "linked m r (p # ps) \<longleftrightarrow> r = p \<and> p \<noteq> 0 \<and> linked m (load64 m p) ps"

definition freelist_is :: "phys \<Rightarrow> u64 list \<Rightarrow> bool" where
  "freelist_is s ps \<longleftrightarrow> linked (pmem s) (freelist s) ps \<and> distinct ps \<and> (\<forall>p \<in> set ps. page_ok p)"

definition in_page :: "u64 \<Rightarrow> u64 \<Rightarrow> bool" where
  "in_page p x \<longleftrightarrow> unat (x - p) < 4096"

lemma in_page_self [simp]: "in_page p p"
  by (simp add: in_page_def)

lemma in_page_disjoint: "aligned 12 p \<Longrightarrow> aligned 12 q \<Longrightarrow> p \<noteq> q \<Longrightarrow> in_page p x \<Longrightarrow> \<not> in_page q x"
  using aligned_disjoint [of 12 p q x] by (simp add: in_page_def)

lemma aligned_mono: "aligned k a \<Longrightarrow> j \<le> k \<Longrightarrow> aligned j a"
  unfolding aligned_def by (metis mod_0_imp_dvd dvd_imp_mod_0 dvd_trans le_imp_power_dvd)

lemma aligned12_iff: "a mod 4096 = 0 \<longleftrightarrow> aligned 12 a"
  by (simp add: aligned_def unat_mod_distrib flip: unat_0_iff)

lemma in_page_word:
  assumes "aligned 12 p" "aligned 3 a" "in_page p a" "unat (x - a) < 8"
  shows "in_page p x"
  using aligned_sub [of 3 a 12 p x] assms by (simp add: in_page_def)

lemma load64_page_frame:
  assumes "aligned 12 q" "aligned 3 a" "in_page q a" "\<And>x. in_page q x \<Longrightarrow> m' x = m x"
  shows "load64 m' a = load64 m a"
  by (rule load64_cong) (use assms in_page_word in blast)

lemma load64_at_page:
  assumes "aligned 12 q" "\<And>x. in_page q x \<Longrightarrow> m' x = m x"
  shows "load64 m' q = load64 m q"
  using assms by (intro load64_page_frame [of q]) (auto intro: aligned_mono)

lemma linked_frame:
  assumes "\<forall>p \<in> set ps. aligned 12 p" "\<And>p x. p \<in> set ps \<Longrightarrow> in_page p x \<Longrightarrow> m' x = m x"
  shows "linked m' r ps = linked m r ps"
  using assms
proof (induction ps arbitrary: r)
  case Nil
  then show ?case by simp
next
  case (Cons p ps)
  have "load64 m' p = load64 m p" by (rule load64_at_page) (use Cons.prems in auto)
  moreover have "linked m' q ps = linked m q ps" for q by (rule Cons.IH) (use Cons.prems in auto)
  ultimately show ?case by simp
qed

text \<open>The list an allocator state stands for is unique.\<close>

lemma linked_unique: "linked m r ps \<Longrightarrow> linked m r qs \<Longrightarrow> ps = qs"
proof (induction ps arbitrary: r qs)
  case Nil
  then show ?case by (cases qs) auto
next
  case (Cons p ps)
  then show ?case by (cases qs) auto
qed

lemma memset_page_outside: "\<not> in_page p x \<Longrightarrow> memset m p c 4096 x = m x"
  by (simp add: memset_eq in_page_def)

lemma memset_page_inside: "in_page p x \<Longrightarrow> memset m p c 4096 x = ucast c"
  by (simp add: memset_eq in_page_def)

lemma store64_page_outside: "\<not> in_page p x \<Longrightarrow> store64 m p v x = m x"
  by (rule store64_outside) (simp add: in_page_def)

text \<open>Writes confined to a page that is not on the list keep the list.\<close>

lemma freelist_is_frame:
  assumes "freelist_is s ps" "freelist s' = freelist s"
    and "\<And>p x. p \<in> set ps \<Longrightarrow> in_page p x \<Longrightarrow> pmem s' x = pmem s x"
  shows "freelist_is s' ps"
  using assms linked_frame [of ps "pmem s'" "pmem s"]
  by (auto simp: freelist_is_def page_ok_def)

lemma kalloc_empty: "freelist_is s [] \<Longrightarrow> kalloc s = (0, s)"
  by (simp add: freelist_is_def kalloc_def)

lemma kalloc_pops:
  assumes "freelist_is s (p # ps)"
  obtains s' where "kalloc s = (p, s')" "freelist_is s' ps"
    "\<And>x. \<not> in_page p x \<Longrightarrow> pmem s' x = pmem s x" "\<And>x. in_page p x \<Longrightarrow> pmem s' x = 5"
proof
  let ?s = "s\<lparr>freelist := load64 (pmem s) p, pmem := memset (pmem s) p 5 4096\<rparr>"
  have l: "freelist s = p" "p \<noteq> 0" "linked (pmem s) (load64 (pmem s) p) ps" "distinct (p # ps)"
    and ok: "\<forall>q \<in> set (p # ps). page_ok q"
    using assms by (auto simp: freelist_is_def)
  then show "kalloc s = (p, ?s)" by (simp add: kalloc_def)
  have "linked (pmem ?s) (load64 (pmem s) p) ps = linked (pmem s) (load64 (pmem s) p) ps"
  proof (rule linked_frame)
    fix q x assume "q \<in> set ps" "in_page q x"
    then have "\<not> in_page p x" using l(4) ok in_page_disjoint [of q p x] by (auto simp: page_ok_def)
    then show "pmem ?s x = pmem s x" by (simp add: memset_page_outside)
  qed (use ok in \<open>auto simp: page_ok_def\<close>)
  then show "freelist_is ?s ps" using l ok by (simp add: freelist_is_def)
qed (simp_all add: memset_page_outside memset_page_inside)

lemma kfree_pushes:
  assumes "freelist_is s ps" "page_ok p" "p \<notin> set ps"
  obtains s' where "kfree p s = Ret s'" "freelist_is s' (p # ps)"
    "\<And>x. \<not> in_page p x \<Longrightarrow> pmem s' x = pmem s x"
proof
  let ?m = "store64 (memset (pmem s) p 1 4096) p (freelist s)"
  let ?s = "s\<lparr>pmem := ?m, freelist := p\<rparr>"
  show "kfree p s = Ret ?s"
    using assms(2) by (auto simp: kfree_def page_ok_def aligned12_iff Let_def)
  show fr: "pmem ?s x = pmem s x" if "\<not> in_page p x" for x
    using that by (simp add: store64_page_outside memset_page_outside)
  have "linked ?m (freelist s) ps = linked (pmem s) (freelist s) ps"
  proof (rule linked_frame)
    fix q x assume "q \<in> set ps" "in_page q x"
    then have "\<not> in_page p x"
      using assms in_page_disjoint [of q p x] by (auto simp: freelist_is_def page_ok_def)
    then show "?m x = pmem s x" using fr by simp
  qed (use assms in \<open>auto simp: freelist_is_def page_ok_def\<close>)
  then show "freelist_is ?s (p # ps)"
    using assms by (auto simp: freelist_is_def page_ok_def)
qed

lemma freemem_loop_counts:
  "linked m r ps \<Longrightarrow> freemem_loop m r n = Some (n + of_nat (length ps))"
proof (induction ps arbitrary: r n)
  case Nil
  then show ?case by (simp add: freemem_loop.simps)
next
  case (Cons p ps)
  then show ?case by (simp add: freemem_loop.simps [of m p])
qed

section \<open>Properties of the allocator\<close>

text \<open>
  \<open>kalloc\<close> implements the abstract allocator: it fails exactly when the abstract free
  list is empty, and otherwise pops its head, filled with junk, without touching any other page.
\<close>

theorem kalloc_refines_pop:
  assumes "freelist_is s ps"
  shows "case ps of
      [] \<Rightarrow> kalloc s = (0, s)
    | p # qs \<Rightarrow> fst (kalloc s) = p \<and> p \<noteq> 0 \<and> freelist_is (snd (kalloc s)) qs
        \<and> (\<forall>x. pmem (snd (kalloc s)) x = (if in_page p x then 5 else pmem s x))"
proof (cases ps)
  case Nil
  then show ?thesis using assms kalloc_empty by simp
next
  case (Cons p qs)
  then obtain s' where "kalloc s = (p, s')" "freelist_is s' qs"
    "\<And>x. \<not> in_page p x \<Longrightarrow> pmem s' x = pmem s x" "\<And>x. in_page p x \<Longrightarrow> pmem s' x = 5"
    using assms kalloc_pops by blast
  moreover have "p \<noteq> 0" using assms Cons by (simp add: freelist_is_def)
  ultimately show ?thesis using Cons by simp
qed

text \<open>
  Freeing a page that is not on the list cannot panic and pushes it, so the next
  \<open>kalloc\<close> returns that page and the list is the old one again.
\<close>

theorem kfree_kalloc_roundtrip:
  assumes "freelist_is s ps" "page_ok p" "p \<notin> set ps"
  shows "\<exists>s1 s2. kfree p s = Ret s1 \<and> freelist_is s1 (p # ps)
    \<and> kalloc s1 = (p, s2) \<and> freelist_is s2 ps
    \<and> (\<forall>x. \<not> in_page p x \<longrightarrow> pmem s2 x = pmem s x)"
proof -
  obtain s1 where 1: "kfree p s = Ret s1" "freelist_is s1 (p # ps)"
      "\<And>x. \<not> in_page p x \<Longrightarrow> pmem s1 x = pmem s x"
    using kfree_pushes [OF assms] by blast
  obtain s2 where 2: "kalloc s1 = (p, s2)" "freelist_is s2 ps"
      "\<And>x. \<not> in_page p x \<Longrightarrow> pmem s2 x = pmem s1 x"
    using kalloc_pops [OF 1(2)] by blast
  show ?thesis using 1 2 by auto
qed

text \<open>
  \<open>freemem\<close> terminates on every well-formed free list and reports four kilobytes per
  free page.
\<close>

theorem freemem_counts:
  assumes "freelist_is s ps" "length ps < 2 ^ 31"
  shows "freemem s = Some (of_nat (4 * length ps))"
proof -
  have "sint (of_nat (length ps) :: u32) = int (length ps)"
    using assms(2) by (simp add: signed_of_nat signed_take_bit_int_eq_self)
  then have "scast (of_nat (length ps) :: u32) = (of_nat (length ps) :: u64)"
    by (simp add: scast_eq)
  then show ?thesis
    using assms(1) freemem_loop_counts [of "pmem s" "freelist s" ps 0]
    by (simp add: freemem_def freelist_is_def)
qed

section \<open>Rounding to pages and the initial free list\<close>

lemma PGROUNDDOWN_shift: "PGROUNDDOWN a = push_bit 12 (drop_bit 12 a)"
proof (rule bit_word_eqI)
  fix n assume n: "n < LENGTH(64)"
  have m: "(4096 - 1 :: u64) = mask 12" by (simp add: mask_eq_exp_minus_1)
  have "bit (PGROUNDDOWN a) n \<longleftrightarrow> bit a n \<and> 12 \<le> n"
    unfolding PGROUNDDOWN_def m using n
    by (simp only: bit_and_iff bit_not_iff bit_mask_iff possible_bit_word) auto
  then show "bit (PGROUNDDOWN a) n = bit (push_bit 12 (drop_bit 12 a)) n"
    using n by (auto simp: bit_simps)
qed

lemma unat_PGROUNDDOWN: "unat (PGROUNDDOWN a) = unat a div 4096 * 4096"
proof -
  have "unat a div 4096 * 4096 < 2 ^ 64" using unat64_less [of a] by (metis div_times_less_eq_dividend le_less_trans)
  then show ?thesis
    by (simp add: PGROUNDDOWN_shift push_bit_eq_mult unat_word_ariths unat_drop_bit_eq drop_bit_eq_div)
qed

lemma aligned_PGROUNDDOWN [simp]: "aligned 12 (PGROUNDDOWN a)"
  by (simp add: aligned_def unat_PGROUNDDOWN)

lemma PGROUNDUP_down: "PGROUNDUP a = PGROUNDDOWN (a + 4095)"
  by (simp add: PGROUNDUP_def PGROUNDDOWN_def add.commute)

lemma unat_PGROUNDUP:
  "unat a + 4095 < 2 ^ 64 \<Longrightarrow> unat (PGROUNDUP a) = (unat a + 4095) div 4096 * 4096"
  using unat_add_nowrap [of a 4095] by (simp add: PGROUNDUP_down unat_PGROUNDDOWN)

lemma unat_PHYSTOP: "unat PHYSTOP = 0x88000000"
  by (simp add: PHYSTOP_def)

lemma freerange_loop_pages:
  assumes "aligned 12 p" "p \<noteq> 0" "unat p + n * 4096 \<le> unat e" "unat e < unat p + Suc n * 4096"
    and "unat e \<le> unat PHYSTOP" "freelist_is s ps" "\<forall>q \<in> set ps. unat q < unat p"
  shows "\<exists>s'. freerange_loop p e s = Some (Ret s') \<and>
    freelist_is s' (rev (map (\<lambda>i. p + of_nat (i * 4096)) [0..<n]) @ ps)"
  using assms
proof (induction n arbitrary: p s ps)
  case 0
  have "unat (p + 4096) = unat p + 4096"
    using 0 unat_PHYSTOP unat_add_nowrap [of p 4096] by simp
  then have "\<not> p + 4096 \<le> e" using 0 by (simp add: word_le_nat_alt)
  then show ?case using 0 by (simp add: freerange_loop.simps)
next
  case (Suc n)
  have u: "unat (p + 4096) = unat p + 4096"
    using Suc.prems unat_PHYSTOP unat_add_nowrap [of p 4096] by simp
  have go: "p + 4096 \<le> e" using Suc.prems u by (simp add: word_le_nat_alt)
  have "page_ok p" using Suc.prems unat_PHYSTOP by (simp add: page_ok_def word_less_nat_alt)
  moreover have "p \<notin> set ps" using Suc.prems by auto
  ultimately obtain s1 where s1: "kfree p s = Ret s1" "freelist_is s1 (p # ps)"
    using kfree_pushes Suc.prems(6) by blast
  have "\<exists>s'. freerange_loop (p + 4096) e s1 = Some (Ret s') \<and>
      freelist_is s' (rev (map (\<lambda>i. p + 4096 + of_nat (i * 4096)) [0..<n]) @ (p # ps))"
  proof (rule Suc.IH)
    show "aligned 12 (p + 4096)" using Suc.prems(1) u by (simp add: aligned_def)
    show "p + 4096 \<noteq> 0" using u by (metis add_is_0 unat_0 zero_neq_numeral)
  qed (use Suc.prems u s1 in auto)
  moreover have "rev (map (\<lambda>i. p + of_nat (i * 4096)) [0..<Suc n]) =
      rev (map (\<lambda>i. p + 4096 + of_nat (i * 4096)) [0..<n]) @ [p]"
    by (simp add: upt_conv_Cons map_Suc_upt [symmetric] comp_def add.assoc del: upt_Suc)
  ultimately show ?case using go s1 by (simp add: freerange_loop.simps [of p])
qed

lemma page_between:
  assumes "aligned 12 p" "unat p + n * 4096 \<le> e" "e < unat p + Suc n * 4096" "unat p + n * 4096 < 2 ^ 64"
  shows "set (map (\<lambda>i. p + of_nat (i * 4096)) [0..<n]) =
    {q. aligned 12 q \<and> unat p \<le> unat q \<and> unat q + 4096 \<le> e}"
proof -
  have u: "unat (p + of_nat (i * 4096)) = unat p + i * 4096" if "i < n" for i
  proof -
    have "i * 4096 < 2 ^ 64" using that assms(4) by simp
    then have "unat (of_nat (i * 4096) :: u64) = i * 4096" by (rule unat_of_nat64)
    moreover have "unat p + i * 4096 < 2 ^ 64" using that assms(4) by simp
    ultimately show ?thesis using unat_add_nowrap [of p "of_nat (i * 4096)"] by simp
  qed
  have "q \<in> set (map (\<lambda>i. p + of_nat (i * 4096)) [0..<n])"
    if q: "aligned 12 q" "unat p \<le> unat q" "unat q + 4096 \<le> e" for q
  proof -
    have "4096 dvd unat q - unat p"
      using q(1) assms(1) by (simp add: aligned_def mod_eq_0_iff_dvd dvd_diff_nat)
    then obtain i where i: "unat q = unat p + i * 4096"
      using q(2) by (metis dvd_def le_add_diff_inverse mult.commute)
    then have "i < n" using q(3) assms(3) by simp
    moreover have "q = p + of_nat (i * 4096)"
      using u [OF \<open>i < n\<close>] i by (metis word_unat_eq_iff)
    ultimately show ?thesis by auto
  qed
  moreover have "aligned 12 (p + of_nat (i * 4096)) \<and> unat p \<le> unat (p + of_nat (i * 4096))
      \<and> unat (p + of_nat (i * 4096)) + 4096 \<le> e" if "i < n" for i
    using u [OF that] assms(1,2) that by (simp add: aligned_def)
  ultimately show ?thesis by auto
qed

text \<open>
  Booting the allocator terminates without a panic and leaves on the free list exactly the
  whole pages between the end of the kernel image and \<open>PHYSTOP\<close>, each once.
\<close>

theorem kinit_frees_all_pages:
  assumes "freelist s = 0" "0 < e" "unat e \<le> unat PHYSTOP"
  shows "\<exists>s' ps. kinit e s = Some (Ret s') \<and> freelist_is s' ps
    \<and> set ps = {p. aligned 12 p \<and> unat e \<le> unat p \<and> unat p + 4096 \<le> unat PHYSTOP}"
proof -
  define p where "p = PGROUNDUP e"
  have up: "unat p = (unat e + 4095) div 4096 * 4096"
    using assms(3) unat_PHYSTOP unat_PGROUNDUP [of e] by (simp add: p_def)
  define n where "n = (unat PHYSTOP - unat p) div 4096"
  have e0: "0 < unat e" using assms(2) by (simp add: unat_gt_0)
  have al: "aligned 12 p" by (simp add: p_def PGROUNDUP_down)
  have pe: "unat e \<le> unat p" "unat p < unat e + 4096" using up by linarith+
  have p0: "0 < unat p" using pe e0 by simp
  have ps: "unat p \<le> unat PHYSTOP" using up assms(3) unat_PHYSTOP by simp
  have fl: "freelist_is s []" using assms(1) by (simp add: freelist_is_def)
  have n: "unat p + n * 4096 \<le> unat PHYSTOP" "unat PHYSTOP < unat p + Suc n * 4096"
    using ps by (simp_all add: n_def)
  obtain s' where s': "freerange_loop p PHYSTOP s = Some (Ret s')"
      "freelist_is s' (rev (map (\<lambda>i. p + of_nat (i * 4096)) [0..<n]) @ [])"
    using freerange_loop_pages [OF al _ n order_refl fl] p0 by (auto simp: unat_gt_0)
  have "set (rev (map (\<lambda>i. p + of_nat (i * 4096)) [0..<n]) @ []) =
      {q. aligned 12 q \<and> unat p \<le> unat q \<and> unat q + 4096 \<le> unat PHYSTOP}"
    using page_between [OF al n] n(1) unat_PHYSTOP by simp
  also have "\<dots> = {q. aligned 12 q \<and> unat e \<le> unat q \<and> unat q + 4096 \<le> unat PHYSTOP}"
  proof -
    have "unat p \<le> unat q" if "aligned 12 q" "unat e \<le> unat q" for q
    proof -
      obtain k where "unat q = 4096 * k"
        using \<open>aligned 12 q\<close> by (auto simp: aligned_def mod_eq_0_iff_dvd elim!: dvdE)
      then have "(unat e + 4095) div 4096 < Suc k" using that(2) up pe(2) by linarith
      then show ?thesis using \<open>unat q = 4096 * k\<close> up by simp
    qed
    then show ?thesis using pe(1) by fastforce
  qed
  finally show ?thesis using s' unfolding kinit_def freerange_def p_def [symmetric] by blast
qed

section \<open>The page allocator is a resource pool\<close>

definition kmem_ok :: "phys \<Rightarrow> bool" where
  "kmem_ok s \<longleftrightarrow> (\<exists>ps. freelist_is s ps)"

definition free_pages :: "phys \<Rightarrow> u64 set" where
  "free_pages s = {p. \<exists>ps. freelist_is s ps \<and> p \<in> set ps}"

definition kalloc_opt :: "phys \<Rightarrow> u64 option \<times> phys" where
  "kalloc_opt s = (case kalloc s of (r, s') \<Rightarrow> (if r = 0 then None else Some r, s'))"

definition kfree_st :: "u64 \<Rightarrow> phys \<Rightarrow> phys" where
  "kfree_st p s = (case kfree p s of Ret s' \<Rightarrow> s' | Panic e \<Rightarrow> s)"

lemma free_pages_list: "freelist_is s ps \<Longrightarrow> free_pages s = set ps"
  using linked_unique [of "pmem s" "freelist s" ps] by (auto simp: free_pages_def freelist_is_def)

interpretation page_pool: pool kmem_ok free_pages page_ok kalloc_opt kfree_st
proof
  fix s assume "kmem_ok s"
  then obtain ps where ps: "freelist_is s ps" by (auto simp: kmem_ok_def)
  show "finite (free_pages s)" using free_pages_list [OF ps] by simp
  show "page_ok r" if "r \<in> free_pages s" for r
    using that free_pages_list [OF ps] ps by (auto simp: freelist_is_def)
  show "free_pages s = {} \<and> s' = s" if "kalloc_opt s = (None, s')" for s'
  proof (cases ps)
    case Nil
    then show ?thesis using that ps free_pages_list [OF ps] by (simp add: kalloc_opt_def kalloc_empty)
  next
    case (Cons p qs)
    then obtain s1 where "kalloc s = (p, s1)" using ps kalloc_pops by blast
    moreover have "p \<noteq> 0" using ps Cons by (simp add: freelist_is_def)
    ultimately show ?thesis using that by (simp add: kalloc_opt_def)
  qed
  show "r \<in> free_pages s \<and> kmem_ok s' \<and> free_pages s' = free_pages s - {r}"
    if "kalloc_opt s = (Some r, s')" for r s'
  proof (cases ps)
    case Nil
    then show ?thesis using that ps by (simp add: kalloc_opt_def kalloc_empty)
  next
    case (Cons p qs)
    then obtain s1 where "kalloc s = (p, s1)" "freelist_is s1 qs" using ps kalloc_pops by blast
    then show ?thesis
      using that Cons ps free_pages_list [OF ps] free_pages_list [of s1 qs]
      by (auto simp: kalloc_opt_def kmem_ok_def freelist_is_def split: if_splits)
  qed
  show "kmem_ok (kfree_st r s) \<and> free_pages (kfree_st r s) = insert r (free_pages s)"
    if "page_ok r" "r \<notin> free_pages s" for r
  proof -
    have ok: "page_ok r" "r \<notin> set ps" using that free_pages_list [OF ps] by simp_all
    obtain s1 where "kfree r s = Ret s1" "freelist_is s1 (r # ps)"
      using kfree_pushes [OF ps ok] by blast
    then show ?thesis
      using free_pages_list [OF ps] free_pages_list [of s1] by (auto simp: kfree_st_def kmem_ok_def)
  qed
qed

section \<open>Concrete instances\<close>

text \<open>A memory with three free pages.\<close>

definition demo :: phys where
  "demo = \<lparr>pmem = store64 (store64 (\<lambda>_. 0) 0x80001000 0x80002000) 0x80002000 0x80003000,
     freelist = 0x80001000\<rparr>"

lemma freelist_demo: "freelist_is demo [0x80001000, 0x80002000, 0x80003000]"
proof -
  have al: "aligned 3 0x80001000" "aligned 3 0x80002000" "aligned 3 0x80003000" by (simp_all add: aligned_def)
  have "load64 (pmem demo) 0x80003000 = load64 (\<lambda>_. 0) 0x80003000"
    by (simp add: demo_def load64_store64_other al)
  also have "\<dots> = 0" by (rule load64_zero) simp
  finally have "load64 (pmem demo) 0x80003000 = 0" .
  moreover have "load64 (pmem demo) 0x80001000 = 0x80002000" "load64 (pmem demo) 0x80002000 = 0x80003000"
    by (simp_all add: demo_def load64_store64_other al)
  moreover have "freelist demo = 0x80001000" by (simp add: demo_def)
  ultimately show ?thesis by (simp add: freelist_is_def page_ok_def PHYSTOP_def aligned_def)
qed

theorem kalloc_refines_pop_witness:
  "fst (kalloc demo) = 0x80001000 \<and> freelist_is (snd (kalloc demo)) [0x80002000, 0x80003000]"
  using kalloc_refines_pop [OF freelist_demo] by simp

theorem kfree_kalloc_roundtrip_witness:
  "\<exists>s1 s2. kfree 0x80004000 demo = Ret s1 \<and> kalloc s1 = (0x80004000, s2)"
  using kfree_kalloc_roundtrip [OF freelist_demo, of "0x80004000"]
  by (auto simp: page_ok_def PHYSTOP_def aligned_def)

theorem freemem_counts_witness: "freemem demo = Some 12"
  using freemem_counts [OF freelist_demo] by simp

theorem kinit_frees_all_pages_witness:
  "\<exists>s' ps. kinit 0x80023456 \<lparr>pmem = \<lambda>_. 0, freelist = 0\<rparr> = Some (Ret s') \<and> freelist_is s' ps
    \<and> 0x80024000 \<in> set ps \<and> 0x80023000 \<notin> set ps"
proof -
  let ?s = "\<lparr>pmem = \<lambda>_. 0, freelist = 0\<rparr>"
  obtain s' ps where "kinit 0x80023456 ?s = Some (Ret s')" "freelist_is s' ps"
      "set ps = {p. aligned 12 p \<and> unat (0x80023456 :: u64) \<le> unat p \<and> unat p + 4096 \<le> unat PHYSTOP}"
    using kinit_frees_all_pages [where s = ?s and e = "0x80023456"] by (auto simp: PHYSTOP_def)
  then show ?thesis
    by (intro exI [of _ s'] exI [of _ ps]) (simp add: PHYSTOP_def aligned_def)
qed

end
