(* ===== verification/Vm.thy ===== *)
theory Vm
  imports Kalloc
begin

text \<open>
  \<^verbatim>\<open>kernel/vm.c\<close>: three-level Sv39 page tables that live in the byte-addressed physical
  memory. A page table is the physical address of its 512-entry root page; an entry is read and
  written with 8-byte accesses, new table pages come from the page allocator, and every call
  passes the allocator state on. A loop whose trip count the source computes takes that count as
  its structurally decreasing argument.
\<close>

section \<open>Entries and virtual addresses (kernel/riscv.h)\<close>

abbreviation (input) PTE_V :: u64 where "PTE_V \<equiv> 1"
abbreviation (input) PTE_R :: u64 where "PTE_R \<equiv> 2"
abbreviation (input) PTE_W :: u64 where "PTE_W \<equiv> 4"
abbreviation (input) PTE_X :: u64 where "PTE_X \<equiv> 8"
abbreviation (input) PTE_U :: u64 where "PTE_U \<equiv> 16"

definition PA2PTE :: "u64 \<Rightarrow> u64" where
  "PA2PTE pa = push_bit 10 (drop_bit 12 pa)"

definition PTE2PA :: "u64 \<Rightarrow> u64" where
  "PTE2PA pte = push_bit 12 (drop_bit 10 pte)"

definition PTE_FLAGS :: "u64 \<Rightarrow> u64" where
  "PTE_FLAGS pte = pte AND 0x3FF"

definition PX :: "nat \<Rightarrow> u64 \<Rightarrow> u64" where
  "PX level va = drop_bit (12 + 9 * level) va AND 0x1FF"

definition MAXVA :: u64 where
  "MAXVA = push_bit 38 1"

definition TRAMPOLINE :: u64 where "TRAMPOLINE = MAXVA - PGSIZE"
definition TRAPFRAME :: u64 where "TRAPFRAME = TRAMPOLINE - PGSIZE"

definition KSTACK :: "nat \<Rightarrow> u64" where
  "KSTACK p = TRAMPOLINE - (of_nat p + 1) * 2 * PGSIZE"

section \<open>Walking and changing a page table\<close>

text \<open>The loop of \<open>walk\<close>, entered at \<open>level\<close>; the result is the address of the PTE or 0.\<close>

fun walk_loop :: "nat \<Rightarrow> u64 \<Rightarrow> u64 \<Rightarrow> bool \<Rightarrow> phys \<Rightarrow> u64 \<times> phys" where
  "walk_loop 0 pagetable va alloc s = (pagetable + 8 * PX 0 va, s)"
| "walk_loop (Suc level) pagetable va alloc s =
     (let pte = pagetable + 8 * PX (Suc level) va
      in if load64 (pmem s) pte AND PTE_V \<noteq> 0
         then walk_loop level (PTE2PA (load64 (pmem s) pte)) va alloc s
         else if \<not> alloc then (0, s)
         else case kalloc s of (p, s1) \<Rightarrow>
           if p = 0 then (0, s1)
           else let m2 = memset (pmem s1) p 0 4096;
                    m3 = store64 m2 pte (PA2PTE p OR PTE_V)
                in walk_loop level p va alloc (s1\<lparr>pmem := m3\<rparr>))"

definition walk :: "u64 \<Rightarrow> u64 \<Rightarrow> bool \<Rightarrow> phys \<Rightarrow> (u64 \<times> phys) outcome" where
  "walk pagetable va alloc s =
     (if va \<ge> MAXVA then Panic ''walk'' else Ret (walk_loop 2 pagetable va alloc s))"

definition walkaddr :: "u64 \<Rightarrow> u64 \<Rightarrow> phys \<Rightarrow> u64 outcome" where
  "walkaddr pagetable va s =
     (if va \<ge> MAXVA then Ret 0
      else obind (walk pagetable va False s) (\<lambda>(pte, s).
        if pte = 0 then Ret 0
        else if load64 (pmem s) pte AND PTE_V = 0 then Ret 0
        else if load64 (pmem s) pte AND PTE_U = 0 then Ret 0
        else Ret (PTE2PA (load64 (pmem s) pte))))"

text \<open>
  The loop of \<open>mappages\<close>. With \<open>va\<close> and \<open>size\<close> page-aligned, \<open>a\<close> meets \<open>last\<close> in
  the iteration number \<open>size/PGSIZE\<close>, so the counter never runs out first.
\<close>

fun mappages_loop :: "nat \<Rightarrow> u64 \<Rightarrow> u64 \<Rightarrow> u64 \<Rightarrow> u64 \<Rightarrow> u64 \<Rightarrow> phys \<Rightarrow> (int \<times> phys) outcome" where
  "mappages_loop 0 pagetable a lst pa perm s = Ret (0, s)"
| "mappages_loop (Suc n) pagetable a lst pa perm s =
     obind (walk pagetable a True s) (\<lambda>(pte, s1).
       if pte = 0 then Ret (-1, s1)
       else if load64 (pmem s1) pte AND PTE_V \<noteq> 0 then Panic ''mappages: remap''
       else let s2 = s1\<lparr>pmem := store64 (pmem s1) pte (PA2PTE pa OR perm OR PTE_V)\<rparr>
            in if a = lst then Ret (0, s2)
               else mappages_loop n pagetable (a + PGSIZE) lst (pa + PGSIZE) perm s2)"

definition mappages :: "u64 \<Rightarrow> u64 \<Rightarrow> u64 \<Rightarrow> u64 \<Rightarrow> u64 \<Rightarrow> phys \<Rightarrow> (int \<times> phys) outcome" where
  "mappages pagetable va sz pa perm s =
     (if va mod PGSIZE \<noteq> 0 then Panic ''mappages: va not aligned''
      else if sz mod PGSIZE \<noteq> 0 then Panic ''mappages: size not aligned''
      else if sz = 0 then Panic ''mappages: size''
      else mappages_loop (unat (sz div PGSIZE)) pagetable va (va + sz - PGSIZE) pa perm s)"

definition uvmcreate :: "phys \<Rightarrow> u64 \<times> phys" where
  "uvmcreate s =
     (case kalloc s of (pagetable, s1) \<Rightarrow>
        if pagetable = 0 then (0, s1)
        else (pagetable, s1\<lparr>pmem := memset (pmem s1) pagetable 0 4096\<rparr>))"

text \<open>After \<open>npages\<close> iterations \<open>a\<close> equals \<open>va + npages*PGSIZE\<close> and the loop stops.\<close>

fun uvmunmap_loop :: "nat \<Rightarrow> u64 \<Rightarrow> u64 \<Rightarrow> u64 \<Rightarrow> bool \<Rightarrow> phys \<Rightarrow> phys outcome" where
  "uvmunmap_loop 0 pagetable a e do_free s = Ret s"
| "uvmunmap_loop (Suc n) pagetable a e do_free s =
     (if a < e
      then obind (walk pagetable a False s) (\<lambda>(pte, s1).
        if pte = 0 then uvmunmap_loop n pagetable (a + PGSIZE) e do_free s1
        else if load64 (pmem s1) pte AND PTE_V = 0
        then uvmunmap_loop n pagetable (a + PGSIZE) e do_free s1
        else obind (if do_free then kfree (PTE2PA (load64 (pmem s1) pte)) s1 else Ret s1) (\<lambda>s2.
          uvmunmap_loop n pagetable (a + PGSIZE) e do_free
            (s2\<lparr>pmem := store64 (pmem s2) pte 0\<rparr>)))
      else Ret s)"

definition uvmunmap :: "u64 \<Rightarrow> u64 \<Rightarrow> u64 \<Rightarrow> bool \<Rightarrow> phys \<Rightarrow> phys outcome" where
  "uvmunmap pagetable va npages do_free s =
     (if va mod PGSIZE \<noteq> 0 then Panic ''uvmunmap: not aligned''
      else uvmunmap_loop (unat npages) pagetable va (va + npages * PGSIZE) do_free s)"

text \<open>\<open>int npages\<close> in \<open>uvmdealloc\<close> is a 32-bit value, sign-extended at the call.\<close>

definition uvmdealloc :: "u64 \<Rightarrow> u64 \<Rightarrow> u64 \<Rightarrow> phys \<Rightarrow> (u64 \<times> phys) outcome" where
  "uvmdealloc pagetable oldsz newsz s =
     (if newsz \<ge> oldsz then Ret (oldsz, s)
      else if PGROUNDUP newsz < PGROUNDUP oldsz
      then let npages = (ucast ((PGROUNDUP oldsz - PGROUNDUP newsz) div PGSIZE) :: u32)
           in obind (uvmunmap pagetable (PGROUNDUP newsz) (scast npages) True s) (\<lambda>s1.
                Ret (newsz, s1))
      else Ret (newsz, s))"

fun uvmalloc_loop :: "nat \<Rightarrow> u64 \<Rightarrow> u64 \<Rightarrow> u64 \<Rightarrow> u64 \<Rightarrow> u64 \<Rightarrow> phys \<Rightarrow> (u64 \<times> phys) outcome" where
  "uvmalloc_loop 0 pagetable a oldsz newsz xperm s = Ret (newsz, s)"
| "uvmalloc_loop (Suc n) pagetable a oldsz newsz xperm s =
     (if a < newsz
      then case kalloc s of (mem, s1) \<Rightarrow>
        if mem = 0
        then obind (uvmdealloc pagetable a oldsz s1) (\<lambda>(_, s2). Ret (0, s2))
        else let s2 = s1\<lparr>pmem := memset (pmem s1) mem 0 4096\<rparr>
             in obind (mappages pagetable a PGSIZE mem (PTE_R OR PTE_U OR xperm) s2) (\<lambda>(r, s3).
               if r \<noteq> 0
               then obind (kfree mem s3) (\<lambda>s4.
                      obind (uvmdealloc pagetable a oldsz s4) (\<lambda>(_, s5). Ret (0, s5)))
               else uvmalloc_loop n pagetable (a + PGSIZE) oldsz newsz xperm s3)
      else Ret (newsz, s))"

definition uvmalloc :: "u64 \<Rightarrow> u64 \<Rightarrow> u64 \<Rightarrow> u64 \<Rightarrow> phys \<Rightarrow> (u64 \<times> phys) outcome" where
  "uvmalloc pagetable oldsz newsz xperm s =
     (if newsz < oldsz then Ret (oldsz, s)
      else let a = PGROUNDUP oldsz
           in uvmalloc_loop (unat (newsz - a) div 4096 + 1) pagetable a a newsz xperm s)"

text \<open>
  \<open>freewalk(pagetable)\<close> from entry \<open>i\<close> on. The recursion follows the entries in memory, so
  \<open>None\<close> stands for a table that points back into itself.
\<close>

partial_function (option) freewalk_from :: "u64 \<Rightarrow> nat \<Rightarrow> phys \<Rightarrow> phys outcome option" where
  "freewalk_from pagetable i s =
     (if i < 512
      then let slot = pagetable + 8 * of_nat i; pte = load64 (pmem s) slot
           in if pte AND PTE_V \<noteq> 0 \<and> pte AND (PTE_R OR PTE_W OR PTE_X) = 0
              then Option.bind (freewalk_from (PTE2PA pte) 0 s) (\<lambda>r.
                case r of
                  Panic e \<Rightarrow> Some (Panic e)
                | Ret s1 \<Rightarrow> freewalk_from pagetable (Suc i) (s1\<lparr>pmem := store64 (pmem s1) slot 0\<rparr>))
              else if pte AND PTE_V \<noteq> 0 then Some (Panic ''freewalk: leaf'')
              else freewalk_from pagetable (Suc i) s
      else Some (kfree pagetable s))"

definition freewalk :: "u64 \<Rightarrow> phys \<Rightarrow> phys outcome option" where
  "freewalk pagetable s = freewalk_from pagetable 0 s"

definition uvmfree :: "u64 \<Rightarrow> u64 \<Rightarrow> phys \<Rightarrow> phys outcome option" where
  "uvmfree pagetable sz s =
     (case (if sz > 0 then uvmunmap pagetable 0 (PGROUNDUP sz div PGSIZE) True s else Ret s) of
        Panic e \<Rightarrow> Some (Panic e)
      | Ret s1 \<Rightarrow> freewalk pagetable s1)"

fun uvmcopy_loop :: "nat \<Rightarrow> u64 \<Rightarrow> u64 \<Rightarrow> u64 \<Rightarrow> u64 \<Rightarrow> phys \<Rightarrow> (int \<times> phys) outcome" where
  "uvmcopy_loop 0 old new i sz s = Ret (0, s)"
| "uvmcopy_loop (Suc n) old new i sz s =
     (if i < sz
      then obind (walk old i False s) (\<lambda>(pte, s1).
        if pte = 0 then uvmcopy_loop n old new (i + PGSIZE) sz s1
        else if load64 (pmem s1) pte AND PTE_V = 0
        then uvmcopy_loop n old new (i + PGSIZE) sz s1
        else let pa = PTE2PA (load64 (pmem s1) pte);
                 flags = PTE_FLAGS (load64 (pmem s1) pte)
             in case kalloc s1 of (mem, s2) \<Rightarrow>
               if mem = 0
               then obind (uvmunmap new 0 (i div PGSIZE) True s2) (\<lambda>s3. Ret (-1, s3))
               else let s3 = s2\<lparr>pmem := memmove (pmem s2) mem pa 4096\<rparr>
                    in obind (mappages new i PGSIZE mem flags s3) (\<lambda>(r, s4).
                      if r \<noteq> 0
                      then obind (kfree mem s4) (\<lambda>s5.
                             obind (uvmunmap new 0 (i div PGSIZE) True s5) (\<lambda>s6. Ret (-1, s6)))
                      else uvmcopy_loop n old new (i + PGSIZE) sz s4))
      else Ret (0, s))"

definition uvmcopy :: "u64 \<Rightarrow> u64 \<Rightarrow> u64 \<Rightarrow> phys \<Rightarrow> (int \<times> phys) outcome" where
  "uvmcopy old new sz s = uvmcopy_loop (unat sz div 4096 + 1) old new 0 sz s"

definition uvmclear :: "u64 \<Rightarrow> u64 \<Rightarrow> phys \<Rightarrow> phys outcome" where
  "uvmclear pagetable va s =
     obind (walk pagetable va False s) (\<lambda>(pte, s1).
       if pte = 0 then Panic ''uvmclear''
       else Ret (s1\<lparr>pmem := store64 (pmem s1) pte (load64 (pmem s1) pte AND NOT PTE_U)\<rparr>))"

definition ismapped :: "u64 \<Rightarrow> u64 \<Rightarrow> phys \<Rightarrow> bool outcome" where
  "ismapped pagetable va s =
     obind (walk pagetable va False s) (\<lambda>(pte, s1).
       if pte = 0 then Ret False else Ret (load64 (pmem s1) pte AND PTE_V \<noteq> 0))"

text \<open>
  \<open>vmfault\<close> reads \<open>sz\<close> and \<open>pagetable\<close> of the current process, passed as \<open>psz\<close> and
  \<open>ppagetable\<close>.
\<close>

definition vmfault :: "u64 \<Rightarrow> u64 \<Rightarrow> u64 \<Rightarrow> u64 \<Rightarrow> phys \<Rightarrow> (u64 \<times> phys) outcome" where
  "vmfault psz ppagetable pagetable va0 s =
     (if va0 \<ge> psz then Ret (0, s)
      else let va = PGROUNDDOWN va0
           in obind (ismapped pagetable va s) (\<lambda>mapped.
             if mapped then Ret (0, s)
             else case kalloc s of (mem, s1) \<Rightarrow>
               if mem = 0 then Ret (0, s1)
               else let s2 = s1\<lparr>pmem := memset (pmem s1) mem 0 4096\<rparr>
                    in obind (mappages ppagetable va PGSIZE mem (PTE_W OR PTE_U OR PTE_R) s2) (\<lambda>(r, s3).
                      if r \<noteq> 0 then obind (kfree mem s3) (\<lambda>s4. Ret (0, s4))
                      else Ret (mem, s3))))"

section \<open>Copying between the kernel and user space\<close>

text \<open>
  Each iteration of \<open>copyout\<close> and \<open>copyin\<close> moves at least one byte, so \<open>len\<close> bounds the
  number of iterations.
\<close>

fun copyout_loop :: "nat \<Rightarrow> u64 \<Rightarrow> u64 \<Rightarrow> u64 \<Rightarrow> u64 \<Rightarrow> u64 \<Rightarrow> u64 \<Rightarrow> phys \<Rightarrow> (int \<times> phys) outcome" where
  "copyout_loop 0 psz ppt pagetable dstva src len s = Ret (0, s)"
| "copyout_loop (Suc k) psz ppt pagetable dstva src len s =
     (if len > 0
      then let va0 = PGROUNDDOWN dstva
           in if va0 \<ge> MAXVA then Ret (-1, s)
              else obind (walkaddr pagetable va0 s) (\<lambda>pa.
                obind (if pa = 0 then vmfault psz ppt pagetable va0 s else Ret (pa, s)) (\<lambda>(pa0, s1).
                  if pa0 = 0 then Ret (-1, s1)
                  else obind (walk pagetable va0 False s1) (\<lambda>(pte, s2).
                    if load64 (pmem s2) pte AND PTE_W = 0 then Ret (-1, s2)
                    else let n0 = PGSIZE - (dstva - va0);
                             n = (if n0 > len then len else n0);
                             s3 = s2\<lparr>pmem := memmove (pmem s2) (pa0 + (dstva - va0)) src (ucast n)\<rparr>
                         in copyout_loop k psz ppt pagetable (va0 + PGSIZE) (src + n) (len - n) s3)))
      else Ret (0, s))"

definition copyout :: "u64 \<Rightarrow> u64 \<Rightarrow> u64 \<Rightarrow> u64 \<Rightarrow> u64 \<Rightarrow> u64 \<Rightarrow> phys \<Rightarrow> (int \<times> phys) outcome" where
  "copyout psz ppt pagetable dstva src len s =
     copyout_loop (unat len) psz ppt pagetable dstva src len s"

fun copyin_loop :: "nat \<Rightarrow> u64 \<Rightarrow> u64 \<Rightarrow> u64 \<Rightarrow> u64 \<Rightarrow> u64 \<Rightarrow> u64 \<Rightarrow> phys \<Rightarrow> (int \<times> phys) outcome" where
  "copyin_loop 0 psz ppt pagetable dst srcva len s = Ret (0, s)"
| "copyin_loop (Suc k) psz ppt pagetable dst srcva len s =
     (if len > 0
      then let va0 = PGROUNDDOWN srcva
           in obind (walkaddr pagetable va0 s) (\<lambda>pa.
                obind (if pa = 0 then vmfault psz ppt pagetable va0 s else Ret (pa, s)) (\<lambda>(pa0, s1).
                  if pa0 = 0 then Ret (-1, s1)
                  else let n0 = PGSIZE - (srcva - va0);
                           n = (if n0 > len then len else n0);
                           s2 = s1\<lparr>pmem := memmove (pmem s1) dst (pa0 + (srcva - va0)) (ucast n)\<rparr>
                       in copyin_loop k psz ppt pagetable (dst + n) (va0 + PGSIZE) (len - n) s2))
      else Ret (0, s))"

definition copyin :: "u64 \<Rightarrow> u64 \<Rightarrow> u64 \<Rightarrow> u64 \<Rightarrow> u64 \<Rightarrow> u64 \<Rightarrow> phys \<Rightarrow> (int \<times> phys) outcome" where
  "copyin psz ppt pagetable dst srcva len s =
     copyin_loop (unat len) psz ppt pagetable dst srcva len s"

text \<open>The inner loop of \<open>copyinstr\<close>: \<open>n\<close> bytes left in this page; \<open>True\<close> when the NUL was met.\<close>

fun copyinstr_page :: "nat \<Rightarrow> mem \<Rightarrow> u64 \<Rightarrow> u64 \<Rightarrow> u64 \<Rightarrow> bool \<times> mem \<times> u64 \<times> u64" where
  "copyinstr_page 0 m p dst mx = (False, m, dst, mx)"
| "copyinstr_page (Suc n) m p dst mx =
     (if m p = 0 then (True, m(dst := 0), dst, mx)
      else copyinstr_page n (m(dst := m p)) (p + 1) (dst + 1) (mx - 1))"

fun copyinstr_loop :: "nat \<Rightarrow> u64 \<Rightarrow> u64 \<Rightarrow> u64 \<Rightarrow> u64 \<Rightarrow> phys \<Rightarrow> (int \<times> phys) outcome" where
  "copyinstr_loop 0 pagetable dst srcva mx s = Ret (-1, s)"
| "copyinstr_loop (Suc k) pagetable dst srcva mx s =
     (if mx > 0
      then let va0 = PGROUNDDOWN srcva
           in obind (walkaddr pagetable va0 s) (\<lambda>pa0.
             if pa0 = 0 then Ret (-1, s)
             else let n0 = PGSIZE - (srcva - va0);
                      n = (if n0 > mx then mx else n0)
                  in case copyinstr_page (unat n) (pmem s) (pa0 + (srcva - va0)) dst mx of
                       (got_null, m1, dst1, mx1) \<Rightarrow>
                         if got_null then Ret (0, s\<lparr>pmem := m1\<rparr>)
                         else copyinstr_loop k pagetable dst1 (va0 + PGSIZE) mx1 (s\<lparr>pmem := m1\<rparr>))
      else Ret (-1, s))"

definition copyinstr :: "u64 \<Rightarrow> u64 \<Rightarrow> u64 \<Rightarrow> u64 \<Rightarrow> phys \<Rightarrow> (int \<times> phys) outcome" where
  "copyinstr pagetable dst srcva mx s = copyinstr_loop (unat mx) pagetable dst srcva mx s"

section \<open>The kernel page table\<close>

definition kvmmap :: "u64 \<Rightarrow> u64 \<Rightarrow> u64 \<Rightarrow> u64 \<Rightarrow> u64 \<Rightarrow> phys \<Rightarrow> phys outcome" where
  "kvmmap kpgtbl va pa sz perm s =
     obind (mappages kpgtbl va sz pa perm s) (\<lambda>(r, s1).
       if r \<noteq> 0 then Panic ''kvmmap'' else Ret s1)"

text \<open>\<open>proc_mapstacks\<close> of \<^verbatim>\<open>kernel/proc.c\<close>: slots \<open>NPROC - k\<close> up to \<open>NPROC - 1\<close> are left.\<close>

fun proc_mapstacks_loop :: "nat \<Rightarrow> u64 \<Rightarrow> phys \<Rightarrow> phys outcome" where
  "proc_mapstacks_loop 0 kpgtbl s = Ret s"
| "proc_mapstacks_loop (Suc k) kpgtbl s =
     (case kalloc s of (pa, s1) \<Rightarrow>
        if pa = 0 then Panic ''kalloc''
        else obind (kvmmap kpgtbl (KSTACK (NPROC - Suc k)) pa PGSIZE (PTE_R OR PTE_W) s1) (\<lambda>s2.
               proc_mapstacks_loop k kpgtbl s2))"

definition proc_mapstacks :: "u64 \<Rightarrow> phys \<Rightarrow> phys outcome" where
  "proc_mapstacks kpgtbl s = proc_mapstacks_loop NPROC kpgtbl s"

text \<open>\<open>etext\<close> and \<open>trampoline\<close> are addresses the linker script fixes.\<close>

definition kvmmake :: "u64 \<Rightarrow> u64 \<Rightarrow> phys \<Rightarrow> (u64 \<times> phys) outcome" where
  "kvmmake etext trampoline s =
     (case kalloc s of (kpgtbl, s0) \<Rightarrow>
      let s1 = s0\<lparr>pmem := memset (pmem s0) kpgtbl 0 4096\<rparr>
      in obind (kvmmap kpgtbl 0x10000000 0x10000000 PGSIZE (PTE_R OR PTE_W) s1) (\<lambda>s2.
         obind (kvmmap kpgtbl 0x10001000 0x10001000 PGSIZE (PTE_R OR PTE_W) s2) (\<lambda>s3.
         obind (kvmmap kpgtbl 0x0c000000 0x0c000000 0x4000000 (PTE_R OR PTE_W) s3) (\<lambda>s4.
         obind (kvmmap kpgtbl KERNBASE KERNBASE (etext - KERNBASE) (PTE_R OR PTE_X) s4) (\<lambda>s5.
         obind (kvmmap kpgtbl etext etext (PHYSTOP - etext) (PTE_R OR PTE_W) s5) (\<lambda>s6.
         obind (kvmmap kpgtbl TRAMPOLINE trampoline PGSIZE (PTE_R OR PTE_X) s6) (\<lambda>s7.
         obind (kvmmap kpgtbl 0x100000 0x100000 PGSIZE (PTE_R OR PTE_W) s7) (\<lambda>s8.
         obind (kvmmap kpgtbl 0x101000 0x101000 PGSIZE PTE_R s8) (\<lambda>s9.
         obind (proc_mapstacks kpgtbl s9) (\<lambda>s10. Ret (kpgtbl, s10)))))))))))"

end
