(* ===== verification/Pagetable.thy ===== *)
theory Pagetable
  imports Vm
begin

text \<open>
  What the page tables of \<^verbatim>\<open>kernel/vm.c\<close> mean. A table is a tree of pages in
  physical memory; its meaning is the partial function \<open>mapping\<close> from virtual addresses to
  leaf entries. The lemmas say what a single store of an entry does to the tree: a leaf store
  changes one translation, hanging an empty page into the tree changes none.
\<close>

section \<open>Bits of entries and indices\<close>

lemma unat_take_bit: "unat (take_bit k (x :: u64)) = unat x mod 2 ^ k"
  unfolding unsigned_take_bit_eq by (simp add: take_bit_eq_mod)

lemma lt2p_take_bit: "k < 64 \<Longrightarrow> (f :: u64) < 2 ^ k \<longleftrightarrow> take_bit k f = f"
proof -
  assume k: "k < 64"
  then have "unat (of_nat (2 ^ k) :: u64) = 2 ^ k"
    by (intro unat_of_nat64 power_strict_increasing) auto
  then have "unat (2 ^ k :: u64) = 2 ^ k" by simp
  then have "f < 2 ^ k \<longleftrightarrow> unat f < 2 ^ k" by (simp add: word_less_nat_alt)
  also have "\<dots> \<longleftrightarrow> unat f mod 2 ^ k = unat f" by (metis mod_less mod_less_divisor zero_less_numeral zero_less_power)
  finally show ?thesis by (simp add: word_unat_eq_iff unat_take_bit)
qed

lemma bit_above: "(f :: u64) < 2 ^ k \<Longrightarrow> k < 64 \<Longrightarrow> bit f n \<Longrightarrow> n < k"
  using lt2p_take_bit [of k f] by (metis bit_take_bit_iff)

lemma aligned_bit: "aligned k p \<Longrightarrow> k < 64 \<Longrightarrow> bit p n \<Longrightarrow> k \<le> n"
proof (rule ccontr)
  assume a: "aligned k p" "k < 64" "bit p n" "\<not> k \<le> n"
  have "unat (take_bit k p) = 0"
    using a(1) by (simp add: aligned_def unat_take_bit)
  then have "take_bit k p = 0" by (simp add: unat_0_iff)
  then show False using a(3,4) by (metis bit_0_eq bit_take_bit_iff bot_apply bot_bool_def not_le)
qed

lemma PTE2PA_PA2PTE [simp]:
  assumes "aligned 12 p" "f < 2 ^ 10"
  shows "PTE2PA (PA2PTE p OR f) = p"
proof (rule bit_word_eqI)
  fix n assume n: "n < LENGTH(64)"
  then show "bit (PTE2PA (PA2PTE p OR f)) n = bit p n"
    using assms aligned_bit [of 12 p n] bit_above [of f 10 "n - 2"]
    by (auto simp: PTE2PA_def PA2PTE_def bit_simps)
qed

lemma PTE_FLAGS_PA2PTE [simp]:
  assumes "f < 2 ^ 10"
  shows "PTE_FLAGS (PA2PTE p OR f) = f"
proof (rule bit_word_eqI)
  fix n assume n: "n < LENGTH(64)"
  have m: "(0x3FF :: u64) = mask 10" by (simp add: mask_eq_exp_minus_1)
  show "bit (PTE_FLAGS (PA2PTE p OR f)) n = bit f n"
    unfolding PTE_FLAGS_def m using assms bit_above [of f 10 n] n
    by (auto simp: bit_and_iff bit_or_iff bit_mask_iff PA2PTE_def bit_push_bit_iff)
qed

lemma or_lt: "(f :: u64) < 2 ^ k \<Longrightarrow> g < 2 ^ k \<Longrightarrow> k < 64 \<Longrightarrow> f OR g < 2 ^ k"
  by (simp add: lt2p_take_bit)

lemma valid_bit [simp]: "(x OR PTE_V) AND PTE_V \<noteq> 0"
proof -
  have "bit ((x OR 1) AND 1) 0" by (simp add: bit_simps)
  then show ?thesis by (metis bit_0_eq bot_apply bot_bool_def)
qed

lemma PX_take_bit: "PX l va = take_bit 9 (drop_bit (12 + 9 * l) va)"
proof -
  have "(0x1FF :: u64) = mask 9" by (simp add: mask_eq_exp_minus_1)
  then show ?thesis by (simp add: PX_def take_bit_eq_mask)
qed

lemma unat_PX: "unat (PX l va) < 512"
  by (simp add: PX_take_bit unat_take_bit)

definition slot :: "u64 \<Rightarrow> u64 \<Rightarrow> u64" where
  "slot p i = p + 8 * i"

lemma slot_facts:
  assumes "aligned 12 p" "unat i < 512"
  shows "unat (slot p i) = unat p + 8 * unat i" "aligned 3 (slot p i)" "in_page p (slot p i)"
proof -
  have 8: "unat (8 * i) = 8 * unat i" using assms(2) by (simp add: unat_word_ariths)
  have "unat p div 4096 * 4096 = unat p" using assms(1) by (auto simp: aligned_def)
  moreover have "unat p div 4096 \<le> 2 ^ 52 - 1" using unat64_less [of p] by simp
  ultimately have "unat p + 8 * unat i < 2 ^ 64" using assms(2) by simp
  then show u: "unat (slot p i) = unat p + 8 * unat i"
    using unat_add_nowrap [of p "8 * i"] 8 by (simp add: slot_def)
  have "unat p mod 8 = 0" using aligned_mono [OF assms(1), of 3] by (simp add: aligned_def)
  then show "aligned 3 (slot p i)" using u by (simp add: aligned_def mod_add_eq)
  show "in_page p (slot p i)" using 8 assms(2) by (simp add: in_page_def slot_def)
qed

lemma slot_inj:
  assumes "aligned 12 p" "aligned 12 q" "unat i < 512" "unat j < 512" "slot p i = slot q j"
  shows "p = q \<and> i = j"
proof -
  have pq: "p = q"
  proof (rule ccontr)
    assume "p \<noteq> q"
    then show False
      using in_page_disjoint [of p q "slot p i"] slot_facts(3) [of p i] slot_facts(3) [of q j] assms by auto
  qed
  then have "8 * unat i = 8 * unat j" using slot_facts(1) [of p i] slot_facts(1) [of q j] assms by simp
  then show ?thesis using pq by (simp add: word_unat_eq_iff)
qed

lemma load64_slot_other:
  assumes "aligned 12 p" "aligned 12 q" "unat i < 512" "unat j < 512" "\<not> (p = q \<and> i = j)"
  shows "load64 (store64 m (slot p i) v) (slot q j) = load64 m (slot q j)"
  using assms slot_inj [of p q i j] slot_facts(2)
  by (intro load64_store64_other) auto

text \<open>The part of an address that selects the table at depth \<open>d\<close> (0 is the root).\<close>

definition key :: "nat \<Rightarrow> u64 \<Rightarrow> u64" where
  "key d va = drop_bit (39 - 9 * d) va"

lemma key_Suc:
  assumes "d \<le> 2"
  shows "key (Suc d) va = key (Suc d) vb \<longleftrightarrow> key d va = key d vb \<and> PX (2 - d) va = PX (2 - d) vb"
proof -
  have e: "39 - 9 * d = 9 + (39 - 9 * Suc d)" "12 + 9 * (2 - d) = 39 - 9 * Suc d"
    using assms by auto
  have "key d x = drop_bit 9 (key (Suc d) x)" "PX (2 - d) x = take_bit 9 (key (Suc d) x)" for x
    using e by (simp_all add: key_def PX_take_bit del: drop_bit_drop_bit)
      (simp add: drop_bit_drop_bit add.commute)
  then show ?thesis by (metis bits_ident)
qed

lemma key_0: "va < MAXVA \<Longrightarrow> key 0 va = 0"
proof -
  assume "va < MAXVA"
  then have "unat va < 2 ^ 38" by (simp add: MAXVA_def word_less_nat_alt push_bit_eq_mult)
  then have "unat (key 0 va) = 0"
    unfolding key_def unat_drop_bit_eq by (simp add: drop_bit_eq_div)
  then show ?thesis by (simp add: unat_0_iff)
qed

section \<open>The tree of table pages\<close>

text \<open>The table page that translating \<open>va\<close> reads at depth \<open>d\<close>; the root is depth 0.\<close>

fun tbl :: "mem \<Rightarrow> u64 \<Rightarrow> nat \<Rightarrow> u64 \<Rightarrow> u64 option" where
  "tbl m root 0 va = Some root"
| "tbl m root (Suc d) va =
     (case tbl m root d va of
        None \<Rightarrow> None
      | Some p \<Rightarrow> let e = load64 m (slot p (PX (2 - d) va))
                  in if e AND PTE_V \<noteq> 0 then Some (PTE2PA e) else None)"

definition mapping :: "mem \<Rightarrow> u64 \<Rightarrow> u64 \<Rightarrow> u64 option" where
  "mapping m root va =
     (case tbl m root 2 va of
        None \<Rightarrow> None
      | Some p \<Rightarrow> let e = load64 m (slot p (PX 0 va))
                  in if e AND PTE_V \<noteq> 0 then Some e else None)"

definition pt_pages :: "mem \<Rightarrow> u64 \<Rightarrow> u64 set" where
  "pt_pages m root = {p. \<exists>d va. d \<le> 2 \<and> va < MAXVA \<and> tbl m root d va = Some p}"

text \<open>Entries that point to a table have none of the permission bits; the root has no entries for addresses beyond \<open>MAXVA\<close>.\<close>

definition plain_tables :: "mem \<Rightarrow> u64 \<Rightarrow> bool" where
  "plain_tables m root \<longleftrightarrow>
     (\<forall>d va p. d < 2 \<longrightarrow> va < MAXVA \<longrightarrow> tbl m root d va = Some p \<longrightarrow> load64 m (slot p (PX (2 - d) va)) AND PTE_V \<noteq> 0 \<longrightarrow>
        load64 m (slot p (PX (2 - d) va)) AND (PTE_R OR PTE_W OR PTE_X) = 0) \<and>
     (\<forall>i. 256 \<le> unat i \<longrightarrow> unat i < 512 \<longrightarrow> load64 m (slot root i) AND PTE_V = 0)"

definition pt_wf :: "mem \<Rightarrow> u64 \<Rightarrow> bool" where
  "pt_wf m root \<longleftrightarrow> plain_tables m root \<and>
     (\<forall>p \<in> pt_pages m root. aligned 12 p \<and> p \<noteq> 0) \<and>
     (\<forall>d e va vb p. d \<le> 2 \<longrightarrow> e \<le> 2 \<longrightarrow> va < MAXVA \<longrightarrow> vb < MAXVA \<longrightarrow>
        tbl m root d va = Some p \<longrightarrow> tbl m root e vb = Some p \<longrightarrow> d = e \<and> key d va = key e vb)"

lemma pt_pagesI: "tbl m root d va = Some p \<Longrightarrow> d \<le> 2 \<Longrightarrow> va < MAXVA \<Longrightarrow> p \<in> pt_pages m root"
  by (auto simp: pt_pages_def)

lemma pt_wfD:
  assumes "pt_wf m root" "tbl m root d va = Some p" "d \<le> 2" "va < MAXVA"
  shows "aligned 12 p" "p \<noteq> 0"
  using assms pt_pagesI [of m root d va p] by (auto simp: pt_wf_def)

lemma pt_wf_plain:
  assumes "pt_wf m root"
  shows "d < 2 \<Longrightarrow> va < MAXVA \<Longrightarrow> tbl m root d va = Some p \<Longrightarrow> load64 m (slot p (PX (2 - d) va)) AND PTE_V \<noteq> 0 \<Longrightarrow>
      load64 m (slot p (PX (2 - d) va)) AND (PTE_R OR PTE_W OR PTE_X) = 0"
    "256 \<le> unat i \<Longrightarrow> unat i < 512 \<Longrightarrow> load64 m (slot root i) AND PTE_V = 0"
  using assms by (simp_all add: pt_wf_def plain_tables_def)

lemma pt_wf_unique:
  assumes "pt_wf m root" "tbl m root d va = Some p" "tbl m root e vb = Some p"
    "d \<le> 2" "e \<le> 2" "va < MAXVA" "vb < MAXVA"
  shows "d = e" "key d va = key d vb"
  using assms unfolding pt_wf_def by blast+

lemma tbl_eq_pages:
  assumes "\<And>d va. d \<le> 2 \<Longrightarrow> va < MAXVA \<Longrightarrow> tbl m' root d va = tbl m root d va"
    and "\<And>d va p i. d < 2 \<Longrightarrow> va < MAXVA \<Longrightarrow> tbl m root d va = Some p \<Longrightarrow> unat i < 512 \<Longrightarrow> load64 m' (slot p i) = load64 m (slot p i)"
  shows "pt_pages m' root = pt_pages m root" "pt_wf m' root = pt_wf m root"
proof -
  have z: "(0 :: u64) < MAXVA" by (simp add: MAXVA_def)
  have pl: "plain_tables m' root = plain_tables m root"
    unfolding plain_tables_def using assms(1) assms(2) [OF _ _ _ unat_PX] assms(2) [of 0 0 root, OF _ z] by (simp cong: imp_cong)
  have "(\<exists>d va. d \<le> 2 \<and> va < MAXVA \<and> tbl m' root d va = Some p) =
      (\<exists>d va. d \<le> 2 \<and> va < MAXVA \<and> tbl m root d va = Some p)" for p
    using assms by metis
  then show pp: "pt_pages m' root = pt_pages m root" by (simp add: pt_pages_def)
  show "pt_wf m' root = pt_wf m root"
    unfolding pt_wf_def pp pl using assms(1) by (simp cong: imp_cong)
qed

lemma tbl_key: "d \<le> 3 \<Longrightarrow> key d va = key d vb \<Longrightarrow> tbl m root d va = tbl m root d vb"
proof (induction d)
  case 0
  then show ?case by simp
next
  case (Suc d)
  then have "key d va = key d vb" "PX (2 - d) va = PX (2 - d) vb" using key_Suc [of d va vb] by auto
  then show ?case using Suc by (simp split: option.split)
qed

lemma mapping_key: "key 3 va = key 3 vb \<Longrightarrow> mapping m root va = mapping m root vb"
proof -
  assume k: "key 3 va = key 3 vb"
  then have "key 2 va = key 2 vb" "PX 0 va = PX 0 vb"
    using key_Suc [of 2 va vb] by (simp_all add: numeral_3_eq_3)
  then show ?thesis using tbl_key [of 2 va vb m root] by (simp add: mapping_def split: option.split)
qed

lemma load64_slot_frame:
  assumes "aligned 12 p" "unat i < 512" "\<And>x. in_page p x \<Longrightarrow> m' x = m x"
  shows "load64 m' (slot p i) = load64 m (slot p i)"
  using assms slot_facts [OF assms(1,2)] by (intro load64_page_frame [of p]) auto

lemma tbl_frame:
  assumes "pt_wf m root" "\<And>p x. p \<in> pt_pages m root \<Longrightarrow> in_page p x \<Longrightarrow> m' x = m x"
  shows "d \<le> 2 \<Longrightarrow> va < MAXVA \<Longrightarrow> tbl m' root d va = tbl m root d va"
proof (induction d)
  case 0
  then show ?case by simp
next
  case (Suc d)
  then have IH: "tbl m' root d va = tbl m root d va" by simp
  show ?case
  proof (cases "tbl m root d va")
    case None
    then show ?thesis using IH by simp
  next
    case (Some p)
    have p: "aligned 12 p" "p \<in> pt_pages m root"
      using pt_wfD [OF assms(1) Some] pt_pagesI [OF Some] Suc.prems by auto
    then have "load64 m' (slot p (PX (2 - d) va)) = load64 m (slot p (PX (2 - d) va))"
      using assms(2) unat_PX by (intro load64_slot_frame) auto
    then show ?thesis using Some IH by simp
  qed
qed

lemma pt_frame:
  assumes "pt_wf m root" "\<And>p x. p \<in> pt_pages m root \<Longrightarrow> in_page p x \<Longrightarrow> m' x = m x"
  shows "pt_wf m' root" "pt_pages m' root = pt_pages m root"
    "va < MAXVA \<Longrightarrow> mapping m' root va = mapping m root va"
proof -
  have fr: "d \<le> 2 \<Longrightarrow> vb < MAXVA \<Longrightarrow> tbl m' root d vb = tbl m root d vb" for d vb
    by (rule tbl_frame [OF assms(1)]) (use assms(2) in auto)
  have lo: "load64 m' (slot p i) = load64 m (slot p i)" if "d < 2" "vb < MAXVA" "tbl m root d vb = Some p" "unat i < 512" for d vb p i
    using that pt_wfD [OF assms(1) that(3)] pt_pagesI [OF that(3)] assms(2) by (intro load64_slot_frame) auto
  show "pt_pages m' root = pt_pages m root" by (rule tbl_eq_pages(1) [OF fr lo])
  have "pt_wf m' root = pt_wf m root" by (rule tbl_eq_pages(2)) (fact fr, fact lo)
  then show "pt_wf m' root" using assms(1) by simp
  show "mapping m' root va = mapping m root va" if va: "va < MAXVA"
  proof (cases "tbl m root 2 va")
    case None
    then show ?thesis using fr va by (simp add: mapping_def)
  next
    case (Some p)
    have p: "aligned 12 p" "p \<in> pt_pages m root"
      using pt_wfD [OF assms(1) Some] pt_pagesI [OF Some] va by auto
    then have "load64 m' (slot p (PX 0 va)) = load64 m (slot p (PX 0 va))"
      using assms(2) unat_PX by (intro load64_slot_frame) auto
    then show ?thesis using Some fr va by (simp add: mapping_def)
  qed
qed

text \<open>Writing a leaf entry changes the translation of that page and nothing else.\<close>

lemma leaf_store:
  fixes v :: u64
  assumes wf: "pt_wf m root" and p: "tbl m root 2 va = Some p" and va: "va < MAXVA"
  defines "m' \<equiv> store64 m (slot p (PX 0 va)) v"
  shows "d \<le> 2 \<Longrightarrow> vb < MAXVA \<Longrightarrow> tbl m' root d vb = tbl m root d vb"
    and "vb < MAXVA \<Longrightarrow> mapping m' root vb =
      (if key 3 vb = key 3 va then if v AND PTE_V \<noteq> 0 then Some v else None else mapping m root vb)"
    and "pt_wf m' root" and "pt_pages m' root = pt_pages m root"
proof -
  have pa: "aligned 12 p" using pt_wfD [OF wf p] va by simp
  show t: "tbl m' root d vb = tbl m root d vb" if "d \<le> 2" "vb < MAXVA" for d vb
    using that
  proof (induction d)
    case 0
    then show ?case by simp
  next
    case (Suc d)
    show ?case
    proof (cases "tbl m root d vb")
      case None
      then show ?thesis using Suc by simp
    next
      case (Some q)
      have "q \<noteq> p" using pt_wf_unique(1) [OF wf Some, of 2 va] p va Suc.prems by auto
      moreover have "aligned 12 q" using pt_wfD [OF wf Some] Suc.prems by simp
      ultimately have "load64 m' (slot q (PX (2 - d) vb)) = load64 m (slot q (PX (2 - d) vb))"
        unfolding m'_def using pa unat_PX by (intro load64_slot_other) auto
      then show ?thesis using Some Suc by simp
    qed
  qed
  have lo: "load64 m' (slot q i) = load64 m (slot q i)" if "d < 2" "vb < MAXVA" "tbl m root d vb = Some q" "unat i < 512" for d vb q i
  proof -
    have "q \<noteq> p" using pt_wf_unique(1) [OF wf that(3), of 2 va] p va that(1,2) by auto
    moreover have "aligned 12 q" using pt_wfD [OF wf that(3)] that(1,2) by simp
    ultimately show ?thesis unfolding m'_def using pa unat_PX that(4) by (intro load64_slot_other) auto
  qed
  show "pt_pages m' root = pt_pages m root" by (rule tbl_eq_pages(1) [OF t lo])
  have "pt_wf m' root = pt_wf m root" by (rule tbl_eq_pages(2)) (fact t, fact lo)
  then show "pt_wf m' root" using wf by simp
  have k3: "key 3 vb = key 3 va \<longleftrightarrow> key 2 vb = key 2 va \<and> PX 0 vb = PX 0 va"
    using key_Suc [of 2 vb va] by (simp add: numeral_3_eq_3)
  show "mapping m' root vb =
      (if key 3 vb = key 3 va then if v AND PTE_V \<noteq> 0 then Some v else None else mapping m root vb)"
    if vb: "vb < MAXVA"
  proof (cases "tbl m root 2 vb")
    case None
    then have "key 2 vb \<noteq> key 2 va" using tbl_key [of 2 vb va m root] p by auto
    then show ?thesis using None t vb k3 by (simp add: mapping_def)
  next
    case (Some q)
    have qa: "aligned 12 q" using pt_wfD [OF wf Some] vb by simp
    show ?thesis
    proof (cases "q = p \<and> PX 0 vb = PX 0 va")
      case True
      then have "key 2 vb = key 2 va" using pt_wf_unique(2) [OF wf Some, of 2 va] p va vb by auto
      then show ?thesis using True Some t vb k3 by (simp add: mapping_def m'_def)
    next
      case False
      then have "load64 m' (slot q (PX 0 vb)) = load64 m (slot q (PX 0 vb))"
        unfolding m'_def using pa qa unat_PX by (intro load64_slot_other) auto
      moreover have "key 3 vb \<noteq> key 3 va" using False k3 tbl_key [of 2 vb va m root] p Some by auto
      ultimately show ?thesis using Some t vb by (simp add: mapping_def)
    qed
  qed
qed

lemma load64_zero_page:
  assumes "aligned 12 p" "unat i < 512" "\<And>x. in_page p x \<Longrightarrow> m x = 0"
  shows "load64 m (slot p i) = 0"
proof (rule load64_zero)
  fix x assume "unat (x - slot p i) < 8"
  then show "m x = 0" using assms in_page_word [of p "slot p i" x] slot_facts [OF assms(1,2)] by blast
qed

lemma table_entry_plain: "(PA2PTE p OR PTE_V) AND (PTE_R OR PTE_W OR PTE_X) = 0"
proof (rule bit_word_eqI)
  fix n
  have "bit (2 OR 4 OR 8 :: u64) n \<longleftrightarrow> n = 1 \<or> n = 2 \<or> n = 3"
    by (cases "n < 4") (auto simp: bit_simps numeral_eq_Suc less_Suc_eq bit_Suc bit_0)
  then show "bit ((PA2PTE p OR PTE_V) AND (PTE_R OR PTE_W OR PTE_X)) n = bit (0 :: u64) n"
    by (auto simp: PA2PTE_def bit_simps)
qed

lemma PX_root: "va < MAXVA \<Longrightarrow> unat (PX 2 va) < 256"
proof -
  assume "va < MAXVA"
  then have "unat va < 2 ^ 38" by (simp add: MAXVA_def word_less_nat_alt push_bit_eq_mult)
  then have "unat va div 2 ^ 30 < 256" by simp
  moreover have "unat (PX 2 va) = unat va div 2 ^ 30 mod 2 ^ 9"
    unfolding PX_take_bit unat_take_bit unat_drop_bit_eq by (simp add: drop_bit_eq_div)
  ultimately show ?thesis by simp
qed

text \<open>Hanging a fresh zeroed page below depth \<open>d\<close> changes no translation.\<close>

lemma tbl_grow:
  assumes wf: "pt_wf m root" and pt: "tbl m root d va = Some pt" and d: "d < 2" and va: "va < MAXVA"
    and inv: "load64 m (slot pt (PX (2 - d) va)) AND PTE_V = 0"
    and p: "p \<notin> pt_pages m root" "aligned 12 p" "p \<noteq> 0"
    and new: "load64 m' (slot pt (PX (2 - d) va)) = PA2PTE p OR PTE_V"
    and zero: "\<And>x. in_page p x \<Longrightarrow> m' x = 0"
    and same: "\<And>q j. q \<in> pt_pages m root \<Longrightarrow> unat j < 512 \<Longrightarrow> \<not> (q = pt \<and> j = PX (2 - d) va) \<Longrightarrow>
      load64 m' (slot q j) = load64 m (slot q j)"
  shows "e \<le> 2 \<Longrightarrow> vb < MAXVA \<Longrightarrow> tbl m' root e vb =
    (if e = Suc d \<and> key (Suc d) vb = key (Suc d) va then Some p else tbl m root e vb)"
proof (induction e)
  case 0
  then show ?case by simp
next
  case (Suc e)
  have f1: "(1 :: u64) < 2 ^ 10" by simp
  have k: "key (Suc d) vb = key (Suc d) va \<longleftrightarrow> key d vb = key d va \<and> PX (2 - d) vb = PX (2 - d) va"
    using key_Suc [of d vb va] d by simp
  show ?case
  proof (cases "e = Suc d \<and> key (Suc d) vb = key (Suc d) va")
    case True
    have "load64 m' (slot p (PX (2 - e) vb)) = 0"
    proof (rule load64_zero)
      fix x assume "unat (x - slot p (PX (2 - e) vb)) < 8"
      then show "m' x = 0"
        using zero in_page_word [of p "slot p (PX (2 - e) vb)" x] slot_facts [OF p(2) unat_PX] p(2) by blast
    qed
    moreover have "tbl m root e vb = None"
      using True k tbl_key [of d vb va m root] pt inv d by simp
    ultimately show ?thesis using Suc True by simp
  next
    case False
    have "tbl m' root e vb =
        (if e = Suc d \<and> key (Suc d) vb = key (Suc d) va then Some p else tbl m root e vb)"
      by (rule Suc.IH) (use Suc.prems in auto)
    then have IH: "tbl m' root e vb = tbl m root e vb" unfolding if_not_P [OF False] .
    show ?thesis
    proof (cases "tbl m root e vb")
      case None
      then have "\<not> (e = d \<and> key (Suc d) vb = key (Suc d) va)"
        using tbl_key [of d vb va m root] pt d k by auto
      then show ?thesis using IH None by simp
    next
      case (Some q)
      have q: "q \<in> pt_pages m root" using pt_pagesI [OF Some] Suc.prems by simp
      show ?thesis
      proof (cases "q = pt \<and> PX (2 - e) vb = PX (2 - d) va")
        case True
        then have "e = d" "key d vb = key d va"
          using pt_wf_unique [OF wf Some, of d va] pt d va Suc.prems by auto
        then show ?thesis using IH Some True new k p(2) PTE2PA_PA2PTE [OF p(2) f1] by simp
      next
        case diff: False
        have "\<not> (e = d \<and> key (Suc d) vb = key (Suc d) va)"
          using diff k tbl_key [of d vb va m root] pt Some d by auto
        moreover have "load64 m' (slot q (PX (2 - e) vb)) = load64 m (slot q (PX (2 - e) vb))"
        proof (cases "q = pt")
          case True
          then have "e = d" using pt_wf_unique(1) [OF wf Some, of d va] pt d va Suc.prems by simp
          then show ?thesis using same [OF q unat_PX] diff True by simp
        next
          case False
          then show ?thesis using same [OF q unat_PX] by simp
        qed
        ultimately show ?thesis using IH Some by auto
      qed
    qed
  qed
qed

lemma pt_grow:
  assumes wf: "pt_wf m root" and pt: "tbl m root d va = Some pt" and d: "d < 2" and va: "va < MAXVA"
    and inv: "load64 m (slot pt (PX (2 - d) va)) AND PTE_V = 0"
    and p: "p \<notin> pt_pages m root" "aligned 12 p" "p \<noteq> 0"
    and new: "load64 m' (slot pt (PX (2 - d) va)) = PA2PTE p OR PTE_V"
    and zero: "\<And>x. in_page p x \<Longrightarrow> m' x = 0"
    and same: "\<And>q j. q \<in> pt_pages m root \<Longrightarrow> unat j < 512 \<Longrightarrow> \<not> (q = pt \<and> j = PX (2 - d) va) \<Longrightarrow>
      load64 m' (slot q j) = load64 m (slot q j)"
  shows "pt_wf m' root" and "pt_pages m' root = insert p (pt_pages m root)"
    and "tbl m' root (Suc d) va = Some p"
    and "vb < MAXVA \<Longrightarrow> mapping m' root vb = mapping m root vb"
proof -
  have t: "tbl m' root e vb =
      (if e = Suc d \<and> key (Suc d) vb = key (Suc d) va then Some p else tbl m root e vb)"
    if "e \<le> 2" "vb < MAXVA" for e vb
    by (rule tbl_grow [OF wf pt d va inv p new]) (use zero same that in auto)
  have old: "\<not> (e = Suc d \<and> key (Suc d) vb = key (Suc d) va)" if "tbl m root e vb = Some q" "vb < MAXVA" for e vb q
    using that key_Suc [of d vb va] tbl_key [of d vb va m root] pt inv d by auto
  show tp: "tbl m' root (Suc d) va = Some p" using t [of "Suc d" va] d va by simp
  show pp: "pt_pages m' root = insert p (pt_pages m root)"
  proof (intro set_eqI iffI)
    fix q assume "q \<in> pt_pages m' root"
    then obtain e vb where "e \<le> 2" "vb < MAXVA" "tbl m' root e vb = Some q" by (auto simp: pt_pages_def)
    then show "q \<in> insert p (pt_pages m root)" using t [of e vb] pt_pagesI [of m root e vb q] by (auto split: if_splits)
  next
    fix q assume "q \<in> insert p (pt_pages m root)"
    then show "q \<in> pt_pages m' root"
    proof
      assume "q = p"
      then show ?thesis using pt_pagesI [OF tp] d va by simp
    next
      assume "q \<in> pt_pages m root"
      then obtain e vb where e: "e \<le> 2" "vb < MAXVA" "tbl m root e vb = Some q" by (auto simp: pt_pages_def)
      then show ?thesis using t [of e vb] old [OF e(3,2)] pt_pagesI [of m' root e vb q] by auto
    qed
  qed
  have pl: "plain_tables m' root"
    unfolding plain_tables_def
  proof (intro conjI allI impI)
    fix e vb q assume a: "e < 2" "vb < MAXVA" "tbl m' root e vb = Some q" "load64 m' (slot q (PX (2 - e) vb)) AND PTE_V \<noteq> 0"
    show "load64 m' (slot q (PX (2 - e) vb)) AND (PTE_R OR PTE_W OR PTE_X) = 0"
    proof (cases "e = Suc d \<and> key (Suc d) vb = key (Suc d) va")
      case True
      then have "q = p" using t [of e vb] a(1-3) by (metis less_imp_le option.inject)
      then have "load64 m' (slot q (PX (2 - e) vb)) = 0" using load64_zero_page [OF p(2) unat_PX] zero by blast
      then show ?thesis using a(4) by simp
    next
      case False
      then have q: "tbl m root e vb = Some q" using t [of e vb] a(1-3) by (metis less_imp_le)
      show ?thesis
      proof (cases "q = pt \<and> PX (2 - e) vb = PX (2 - d) va")
        case True
        then show ?thesis using new table_entry_plain by simp
      next
        case other: False
        have "load64 m' (slot q (PX (2 - e) vb)) = load64 m (slot q (PX (2 - e) vb))"
          using same [OF pt_pagesI [OF q] unat_PX] other pt_wf_unique(1) [OF wf q, of d va] pt d va a(1,2) by auto
        then show ?thesis using wf q a by (simp add: pt_wf_def plain_tables_def)
      qed
    qed
  next
    fix i :: u64 assume i: "256 \<le> unat i" "unat i < 512"
    have z: "tbl m root 0 va = Some root" by simp
    have "\<not> (root = pt \<and> i = PX (2 - d) va)"
      using pt_wf_unique(1) [OF wf z, of d va] pt d va PX_root [OF va] i(1) by auto
    then have "load64 m' (slot root i) = load64 m (slot root i)" using same [OF pt_pagesI [OF z]] i(2) va by auto
    then show "load64 m' (slot root i) AND PTE_V = 0" using wf i by (simp add: pt_wf_def plain_tables_def)
  qed
  show "pt_wf m' root"
    unfolding pt_wf_def
  proof (intro conjI ballI allI impI pl)
    fix q assume "q \<in> pt_pages m' root"
    then show "aligned 12 q" "q \<noteq> 0" using pp p wf by (auto simp: pt_wf_def)
  next
    fix e f vb vc q
    assume a: "e \<le> 2" "f \<le> 2" "vb < MAXVA" "vc < MAXVA" "tbl m' root e vb = Some q" "tbl m' root f vc = Some q"
    have np: "tbl m root g vd \<noteq> Some p" if "g \<le> 2" "vd < MAXVA" for g vd
      using p(1) that pt_pagesI [of m root g vd p] by auto
    show "e = f" and "key e vb = key f vc"
      using a t [of e vb] t [of f vc] np pt_wf_unique [OF wf, of e vb q f vc] by (auto split: if_splits)
  qed
  show "mapping m' root vb = mapping m root vb" if vb: "vb < MAXVA"
  proof (cases "2 = Suc d \<and> key (Suc d) vb = key (Suc d) va")
    case True
    have "load64 m' (slot p (PX 0 vb)) = 0"
    proof (rule load64_zero)
      fix x assume "unat (x - slot p (PX 0 vb)) < 8"
      then show "m' x = 0"
        using zero in_page_word [of p "slot p (PX 0 vb)" x] slot_facts [OF p(2) unat_PX] p(2) by blast
    qed
    moreover have "tbl m root 2 vb = None" using old [of 2 vb] True vb by (metis not_None_eq)
    moreover have "tbl m' root 2 vb = Some p" using t [of 2 vb] True vb by (metis order_refl)
    ultimately show ?thesis by (simp add: mapping_def)
  next
    case False
    then have tt: "tbl m' root 2 vb = tbl m root 2 vb" using t [of 2 vb] vb unfolding if_not_P [OF False] by simp
    show ?thesis
    proof (cases "tbl m root 2 vb")
      case None
      then show ?thesis using tt by (simp add: mapping_def)
    next
      case (Some q)
      have "q \<noteq> pt" using pt_wf_unique(1) [OF wf Some, of d va] pt d va vb by auto
      then have "load64 m' (slot q (PX 0 vb)) = load64 m (slot q (PX 0 vb))"
        using same [OF pt_pagesI [OF Some]] unat_PX vb by auto
      then show ?thesis using tt Some by (simp add: mapping_def)
    qed
  qed
qed

end
