(* ===== verification/Vmops.thy ===== *)
theory Vmops
  imports Pagetable
begin

text \<open>
  The operations of \<^verbatim>\<open>kernel/vm.c\<close> against the abstract translation of
  \<^verbatim>\<open>Pagetable\<close>: \<open>walk\<close> allocates table pages without changing any translation,
  \<open>mappages\<close> and \<open>uvmunmap\<close> change exactly the range they are given, \<open>vmfault\<close> maps one
  zeroed page. The invariant \<open>vm_inv\<close> ties the table to the free list of the allocator.
\<close>

section \<open>What walk does\<close>

text \<open>A well-formed table whose pages are not on the free list.\<close>

definition vm_inv :: "phys \<Rightarrow> u64 \<Rightarrow> u64 list \<Rightarrow> bool" where
  "vm_inv s root fl \<longleftrightarrow> pt_wf (pmem s) root \<and> freelist_is s fl
     \<and> (\<forall>p \<in> pt_pages (pmem s) root. p \<notin> set fl)"

lemma vm_invD:
  assumes "vm_inv s root fl"
  shows "pt_wf (pmem s) root" "freelist_is s fl" "p \<in> pt_pages (pmem s) root \<Longrightarrow> p \<notin> set fl"
    "p \<in> pt_pages (pmem s) root \<Longrightarrow> aligned 12 p"
proof -
  show wf: "pt_wf (pmem s) root" and "freelist_is s fl" using assms by (simp_all add: vm_inv_def)
  show "p \<notin> set fl" if "p \<in> pt_pages (pmem s) root" using assms that by (simp add: vm_inv_def)
  show "aligned 12 p" if "p \<in> pt_pages (pmem s) root" using wf that unfolding pt_wf_def by blast
qed

lemma slot_nonzero: "aligned 12 p \<Longrightarrow> p \<noteq> 0 \<Longrightarrow> unat i < 512 \<Longrightarrow> slot p i \<noteq> 0"
proof -
  assume "aligned 12 p" "p \<noteq> 0" "unat i < 512"
  then have "0 < unat (slot p i)" using slot_facts(1) [of p i] by (simp add: unat_gt_0)
  then show ?thesis by (simp add: unat_gt_0)
qed

text \<open>One allocation step of \<open>walk\<close>: the popped page becomes an empty table page.\<close>

lemma walk_alloc_step:
  assumes inv: "vm_inv s root (p # fl)" and pt: "tbl (pmem s) root d va = Some pt" and d: "d < 2"
    and va: "va < MAXVA" and e0: "load64 (pmem s) (slot pt (PX (2 - d) va)) AND PTE_V = 0"
    and k: "kalloc s = (p', s1)"
  defines "m3 \<equiv> store64 (memset (pmem s1) p 0 4096) (slot pt (PX (2 - d) va)) (PA2PTE p OR PTE_V)"
  defines "s3 \<equiv> s1\<lparr>pmem := m3\<rparr>"
  shows "p' = p" and "vm_inv s3 root fl" and "pt_pages m3 root = insert p (pt_pages (pmem s) root)"
    and "tbl m3 root (Suc d) va = Some p"
    and "\<And>vb. vb < MAXVA \<Longrightarrow> mapping m3 root vb = mapping (pmem s) root vb"
    and "\<And>x. \<not> in_page p x \<Longrightarrow> \<not> in_page pt x \<Longrightarrow> m3 x = pmem s x"
proof -
  note I = vm_invD [OF inv]
  have pok: "page_ok p" "p \<notin> set fl" and okfl: "\<And>q. q \<in> set fl \<Longrightarrow> page_ok q"
    using I(2) by (auto simp: freelist_is_def)
  have pa: "aligned 12 p" "p \<noteq> 0" using pok by (auto simp: page_ok_def)
  have ptp: "pt \<in> pt_pages (pmem s) root" using pt_pagesI [OF pt] d va by simp
  have pta: "aligned 12 pt" and npt: "p \<notin> pt_pages (pmem s) root" using I(3,4) ptp by auto
  have ne: "pt \<noteq> p" using npt ptp by auto
  obtain s1' where s1: "kalloc s = (p, s1')" "freelist_is s1' fl"
      "\<And>x. \<not> in_page p x \<Longrightarrow> pmem s1' x = pmem s x"
    using kalloc_pops [OF I(2)] by metis
  then have s1e: "s1' = s1" and pp: "p' = p" using k by auto
  show "p' = p" by (rule pp)
  let ?a = "slot pt (PX (2 - d) va)"
  note sf = slot_facts [OF pta unat_PX, of "2 - d" va]
  have out: "m3 x = pmem s x" if "\<not> in_page p x" "\<not> unat (x - ?a) < 8" for x
    using that s1(3) s1e by (simp add: m3_def store64_outside memset_page_outside)
  have inpt: "in_page pt x" if "unat (x - ?a) < 8" for x
    using in_page_word [OF pta sf(2,3) that] .
  show fr: "m3 x = pmem s x" if "\<not> in_page p x" "\<not> in_page pt x" for x
    using out [OF that(1)] inpt that by blast
  have new: "load64 m3 ?a = PA2PTE p OR PTE_V" by (simp add: m3_def)
  have zero: "m3 x = 0" if "in_page p x" for x
  proof -
    have "\<not> unat (x - ?a) < 8" using inpt in_page_disjoint [OF pa(1) pta] ne that by blast
    then show ?thesis using that by (simp add: m3_def store64_outside memset_page_inside)
  qed
  have same: "load64 m3 (slot q j) = load64 (pmem s) (slot q j)"
    if q: "q \<in> pt_pages (pmem s) root" "unat j < 512" "\<not> (q = pt \<and> j = PX (2 - d) va)" for q j
  proof -
    have qa: "aligned 12 q" "q \<noteq> p" using I(4) q(1) npt by auto
    have "load64 m3 (slot q j) = load64 (memset (pmem s1) p 0 4096) (slot q j)"
      unfolding m3_def using q pta qa unat_PX by (intro load64_slot_other) auto
    also have "\<dots> = load64 (pmem s) (slot q j)"
    proof (rule load64_slot_frame [OF qa(1) q(2)])
      fix x assume "in_page q x"
      then have "\<not> in_page p x" using in_page_disjoint [OF qa(1) pa(1) qa(2)] by simp
      then show "memset (pmem s1) p 0 4096 x = pmem s x" using s1(3) s1e by (simp add: memset_page_outside)
    qed
    finally show ?thesis .
  qed
  have G: "pt_wf m3 root" "pt_pages m3 root = insert p (pt_pages (pmem s) root)"
      "tbl m3 root (Suc d) va = Some p"
      "\<And>vb. vb < MAXVA \<Longrightarrow> mapping m3 root vb = mapping (pmem s) root vb"
    using pt_grow [OF I(1) pt d va e0 npt pa new] zero same by blast+
  show "pt_pages m3 root = insert p (pt_pages (pmem s) root)" "tbl m3 root (Suc d) va = Some p"
    "\<And>vb. vb < MAXVA \<Longrightarrow> mapping m3 root vb = mapping (pmem s) root vb"
    using G by auto
  have "freelist_is s3 fl"
  proof (rule freelist_is_frame [OF s1(2)])
    fix q x assume q: "q \<in> set fl" "in_page q x"
    have qa: "aligned 12 q" using okfl [OF q(1)] by (simp add: page_ok_def)
    have "\<not> in_page p x" using in_page_disjoint [OF qa pa(1)] q pok by auto
    moreover have "\<not> in_page pt x" using in_page_disjoint [OF qa pta] q I(3) [OF ptp] by auto
    ultimately show "pmem s3 x = pmem s1' x" using fr s1(3) by (simp add: s3_def)
  qed (simp add: s3_def s1e)
  then show "vm_inv s3 root fl" using G I(3) pok by (auto simp: vm_inv_def s3_def)
qed

lemma mapping_None: "tbl m root 2 va = None \<Longrightarrow> mapping m root va = None"
  by (simp add: mapping_def)

lemma tbl_None_mono: "tbl m root d va = None \<Longrightarrow> d \<le> e \<Longrightarrow> tbl m root e va = None"
  by (induction e) (auto simp: le_Suc_eq)

lemma walk_loop_spec:
  assumes "vm_inv s root fl" "n \<le> 2" "va < MAXVA" "tbl (pmem s) root (2 - n) va = Some pt"
    and "walk_loop n pt va alloc s = (a, s')"
  shows "\<exists>used fl'. fl = used @ fl' \<and> vm_inv s' root fl'
    \<and> pt_pages (pmem s') root = pt_pages (pmem s) root \<union> set used
    \<and> (\<forall>vb < MAXVA. mapping (pmem s') root vb = mapping (pmem s) root vb)
    \<and> (\<forall>x. (\<forall>p \<in> pt_pages (pmem s') root. \<not> in_page p x) \<longrightarrow> pmem s' x = pmem s x)
    \<and> (if a = 0 then (alloc \<longrightarrow> fl' = []) \<and> mapping (pmem s) root va = None
       else \<exists>p. tbl (pmem s') root 2 va = Some p \<and> a = slot p (PX 0 va))
    \<and> (\<not> alloc \<longrightarrow> s' = s) \<and> length used \<le> n"
  using assms
proof (induction n arbitrary: pt s fl)
  case 0
  have "a = slot pt (PX 0 va)" "s' = s" using 0 by (auto simp: slot_def)
  moreover have "aligned 12 pt" "pt \<noteq> 0" using pt_wfD [OF vm_invD(1) [OF 0(1)] 0(4)] 0(3) by auto
  ultimately show ?case using 0 slot_nonzero [of pt "PX 0 va"] unat_PX by (intro exI [of _ "[]"] exI [of _ fl]) auto
next
  case (Suc n)
  let ?e = "load64 (pmem s) (slot pt (PX (Suc n) va))"
  have d: "2 - n = Suc (2 - Suc n)" "2 - (2 - Suc n) = Suc n" using Suc.prems(2) by auto
  show ?case
  proof (cases "?e AND PTE_V \<noteq> 0")
    case True
    then have "walk_loop n (PTE2PA ?e) va alloc s = (a, s')" using Suc.prems(5) by (simp add: slot_def Let_def)
    moreover have "tbl (pmem s) root (2 - n) va = Some (PTE2PA ?e)"
      unfolding d(1) using Suc.prems(4) True d(2) by (simp add: Let_def)
    ultimately show ?thesis using Suc.IH [OF Suc.prems(1) _ Suc.prems(3)] Suc.prems(2) by (fastforce intro: le_SucI)
  next
    case False
    have "tbl (pmem s) root (2 - n) va = None"
      unfolding d(1) using Suc.prems(4) False d(2) by (simp add: Let_def)
    then have mn: "mapping (pmem s) root va = None" using tbl_None_mono [of _ _ "2 - n" va 2] mapping_None by auto
    show ?thesis
    proof (cases "alloc \<and> fl \<noteq> []")
      case no: False
      have "a = 0 \<and> s' = s"
      proof (cases alloc)
        case True
        then have "freelist_is s []" using no Suc.prems(1) vm_invD(2) by auto
        then show ?thesis using Suc.prems(5) False True kalloc_empty [of s] by (simp add: slot_def Let_def)
      next
        case False
        then show ?thesis using Suc.prems(5) \<open>\<not> ?e AND PTE_V \<noteq> 0\<close> by (simp add: slot_def Let_def)
      qed
      then show ?thesis using Suc.prems(1) mn no by (intro exI [of _ "[]"] exI [of _ fl]) auto
    next
      case True
      then obtain p fl1 where fl: "fl = p # fl1" by (cases fl) auto
      obtain p' s1 where k: "kalloc s = (p', s1)" by fastforce
      have e0: "load64 (pmem s) (slot pt (PX (2 - (2 - Suc n)) va)) AND PTE_V = 0" using False d(2) by simp
      have d2: "2 - Suc n < 2" by simp
      note st = walk_alloc_step [OF Suc.prems(1) [unfolded fl] Suc.prems(4) d2 Suc.prems(3) e0 k, unfolded d]
      let ?s3 = "s1\<lparr>pmem := store64 (memset (pmem s1) p 0 4096) (slot pt (PX (Suc n) va)) (PA2PTE p OR PTE_V)\<rparr>"
      have p0: "p \<noteq> 0" using vm_invD(2) [OF Suc.prems(1)] fl by (auto simp: freelist_is_def)
      have w: "walk_loop n p va alloc ?s3 = (a, s')"
        using Suc.prems(5) False True k st(1) p0 by (simp add: slot_def Let_def)
      have t3: "tbl (pmem ?s3) root (2 - n) va = Some p" using st(4) d(1) by simp
      have n2: "n \<le> 2" using Suc.prems(2) by simp
      from Suc.IH [OF st(2) n2 Suc.prems(3) t3 w] obtain used fl' where
        u: "fl1 = used @ fl'" "vm_inv s' root fl'"
          "pt_pages (pmem s') root = pt_pages (pmem ?s3) root \<union> set used"
          "\<forall>vb < MAXVA. mapping (pmem s') root vb = mapping (pmem ?s3) root vb"
          "\<forall>x. (\<forall>p \<in> pt_pages (pmem s') root. \<not> in_page p x) \<longrightarrow> pmem s' x = pmem ?s3 x"
          "if a = 0 then (alloc \<longrightarrow> fl' = []) \<and> mapping (pmem ?s3) root va = None
           else \<exists>p. tbl (pmem s') root 2 va = Some p \<and> a = slot p (PX 0 va)" "length used \<le> n"
        by blast
      have ptp: "pt \<in> pt_pages (pmem s) root" using pt_pagesI [OF Suc.prems(4)] Suc.prems(3) by simp
      have fr: "pmem s' x = pmem s x" if x: "\<forall>q \<in> pt_pages (pmem s') root. \<not> in_page q x" for x
        using x u(3,5) st(3,6) ptp by auto
      show ?thesis
        using u st(3,5) fr fl True mn by (intro exI [of _ "p # used"] exI [of _ fl']) auto
    qed
  qed
qed

section \<open>Mapping and unmapping ranges\<close>

lemma unat_sub4096: "unat (x - 4096 :: u64) = (if 4096 \<le> unat x then unat x - 4096 else 2 ^ 64 + unat x - 4096)"
  by (simp add: unat_sub_if' word_le_nat_alt)

lemma page_split:
  fixes x :: u64
  assumes "k \<le> 2 ^ 38"
  shows "unat x < 4096 + k \<longleftrightarrow> unat x < 4096 \<or> unat (x - 4096) < k"
    and "unat x < 4096 \<Longrightarrow> \<not> unat (x - 4096) < k"
  using assms by (auto simp: unat_sub4096)

lemma PGROUNDDOWN_step: "\<not> unat x < 4096 \<Longrightarrow> 4096 + PGROUNDDOWN (x - 4096) = PGROUNDDOWN x"
proof -
  assume "\<not> unat x < 4096"
  then have u: "unat (PGROUNDDOWN (x - 4096)) = unat x div 4096 * 4096 - 4096" "4096 \<le> unat x div 4096 * 4096"
    by (auto simp: unat_PGROUNDDOWN unat_sub4096 le_div_geq)
  moreover have "unat x div 4096 * 4096 < 2 ^ 64" using unat64_less [of x] by simp
  ultimately have "unat (4096 + PGROUNDDOWN (x - 4096)) = unat x div 4096 * 4096"
    using unat_add_nowrap [of 4096 "PGROUNDDOWN (x - 4096)"] by simp
  then show ?thesis by (simp add: word_unat_eq_iff unat_PGROUNDDOWN)
qed

lemma PGROUNDDOWN_small: "unat x < 4096 \<Longrightarrow> PGROUNDDOWN x = 0"
  using unat_PGROUNDDOWN [of x] by (simp add: unat_0_iff)

lemma key_page: "aligned 12 a \<Longrightarrow> key 3 vb = key 3 a \<longleftrightarrow> unat (vb - a) < 4096"
proof -
  assume "aligned 12 a"
  then have "unat (vb - a) < 2 ^ 12 \<longleftrightarrow> unat vb div 2 ^ 12 = unat a div 2 ^ 12" by (rule aligned_region) simp
  also have "\<dots> \<longleftrightarrow> unat (key 3 vb) = unat (key 3 a)" by (simp add: key_def unat_drop_bit_eq) (simp add: drop_bit_eq_div)
  finally show ?thesis by (simp add: word_unat_eq_iff)
qed

lemma MAXVA_nat: "(x :: u64) < MAXVA \<longleftrightarrow> unat x < 2 ^ 38"
  by (simp add: MAXVA_def word_less_nat_alt push_bit_eq_mult)

text \<open>Writing the leaf entry of \<open>va\<close> keeps the table and the free list.\<close>

lemma vm_inv_leaf_store:
  assumes inv: "vm_inv s root fl" and t: "tbl (pmem s) root 2 va = Some p" and va: "va < MAXVA"
    and s': "freelist s' = freelist s" "pmem s' = store64 (pmem s) (slot p (PX 0 va)) v"
  shows "vm_inv s' root fl" and "pt_pages (pmem s') root = pt_pages (pmem s) root"
    and "vb < MAXVA \<Longrightarrow> mapping (pmem s') root vb =
      (if key 3 vb = key 3 va then if v AND PTE_V \<noteq> 0 then Some v else None else mapping (pmem s) root vb)"
    and "\<not> in_page p x \<Longrightarrow> pmem s' x = pmem s x"
proof -
  note I = vm_invD [OF inv]
  note L = leaf_store [OF I(1) t va, where v = v]
  show "pt_pages (pmem s') root = pt_pages (pmem s) root"
    "vb < MAXVA \<Longrightarrow> mapping (pmem s') root vb =
      (if key 3 vb = key 3 va then if v AND PTE_V \<noteq> 0 then Some v else None else mapping (pmem s) root vb)"
    using L s' by simp_all
  have p: "p \<in> pt_pages (pmem s) root" using pt_pagesI [OF t] va by simp
  note sf = slot_facts [OF I(4) [OF p] unat_PX]
  show fr: "pmem s' x = pmem s x" if "\<not> in_page p x" for x
  proof -
    have "\<not> unat (x - slot p (PX 0 va)) < 8" using in_page_word [OF I(4) [OF p] sf(2,3)] that by blast
    then show ?thesis using s' by (simp add: store64_outside)
  qed
  have "freelist_is s' fl"
  proof (rule freelist_is_frame [OF I(2) s'(1)])
    fix q x assume q: "q \<in> set fl" "in_page q x"
    then have "aligned 12 q" "q \<noteq> p" using I(2,3) p by (auto simp: freelist_is_def page_ok_def)
    then have "\<not> in_page p x" using in_page_disjoint [OF _ I(4) [OF p]] q by blast
    then show "pmem s' x = pmem s x" by (rule fr)
  qed
  then show "vm_inv s' root fl" using L s' I(3) by (simp add: vm_inv_def)
qed

lemma walk_root: "va < MAXVA \<Longrightarrow> walk root va alloc s = Ret (walk_loop 2 root va alloc s)"
  by (simp add: walk_def not_le)

lemma mapping_entry:
  "tbl m root 2 va = Some p \<Longrightarrow> mapping m root va =
     (if load64 m (slot p (PX 0 va)) AND PTE_V \<noteq> 0 then Some (load64 m (slot p (PX 0 va))) else None)"
  by (simp add: mapping_def Let_def)

definition range_mapped :: "nat \<Rightarrow> u64 \<Rightarrow> u64 \<Rightarrow> u64 \<Rightarrow> (u64 \<Rightarrow> u64 option) \<Rightarrow> u64 \<Rightarrow> u64 option" where
  "range_mapped j va pa perm old vb =
     (if unat (vb - va) < j * 4096 then Some (PA2PTE (pa + PGROUNDDOWN (vb - va)) OR perm OR PTE_V) else old vb)"

lemma range_mapped_Suc:
  assumes "j * 4096 \<le> 2 ^ 38"
  shows "range_mapped j (a + 4096) (pa + 4096) perm
      (\<lambda>w. if unat (w - a) < 4096 then Some (PA2PTE pa OR perm OR PTE_V) else old w) vb =
    range_mapped (Suc j) a pa perm old vb"
proof -
  have *: "vb - (a + 4096) = vb - a - 4096" by simp
  note ps = page_split [OF assms, of "vb - a"]
  show ?thesis
    unfolding range_mapped_def *
    using ps PGROUNDDOWN_small [of "vb - a"] PGROUNDDOWN_step [of "vb - a"] 
    by (cases "unat (vb - a) < 4096") (auto simp: add.assoc)
qed

text \<open>One iteration of \<open>mappages\<close> on an unmapped page: out of memory, or the entry is written.\<close>

lemma mappages_step:
  fixes v :: u64
  assumes inv: "vm_inv s root fl" and a: "aligned 12 a" "a < MAXVA"
    and none: "mapping (pmem s) root a = None" and w: "walk root a True s = Ret (pte, s1)"
    and v: "v AND PTE_V \<noteq> 0"
  defines "s2 \<equiv> if pte = 0 then s1 else s1\<lparr>pmem := store64 (pmem s1) pte v\<rparr>"
  shows "\<exists>used fl'. fl = used @ fl' \<and> vm_inv s2 root fl'
    \<and> pt_pages (pmem s2) root = pt_pages (pmem s) root \<union> set used
    \<and> (pte = 0 \<longrightarrow> fl' = []) \<and> (pte \<noteq> 0 \<longrightarrow> load64 (pmem s1) pte AND PTE_V = 0)
    \<and> (\<forall>vb < MAXVA. mapping (pmem s2) root vb =
         (if pte \<noteq> 0 \<and> unat (vb - a) < 4096 then Some v else mapping (pmem s) root vb))
    \<and> (\<forall>x. (\<forall>p \<in> pt_pages (pmem s2) root. \<not> in_page p x) \<longrightarrow> pmem s2 x = pmem s x) \<and> length used \<le> 2"
proof -
  have wl: "walk_loop 2 root a True s = (pte, s1)" using w walk_root [OF a(2)] by simp
  have t0: "tbl (pmem s) root (2 - 2) a = Some root" by simp
  from walk_loop_spec [OF inv order_refl a(2) t0 wl] obtain used fl' where
    u: "fl = used @ fl'" "vm_inv s1 root fl'"
      "pt_pages (pmem s1) root = pt_pages (pmem s) root \<union> set used"
      "\<forall>vb < MAXVA. mapping (pmem s1) root vb = mapping (pmem s) root vb"
      "\<forall>x. (\<forall>p \<in> pt_pages (pmem s1) root. \<not> in_page p x) \<longrightarrow> pmem s1 x = pmem s x"
      "if pte = 0 then (True \<longrightarrow> fl' = []) \<and> mapping (pmem s) root a = None
       else \<exists>p. tbl (pmem s1) root 2 a = Some p \<and> pte = slot p (PX 0 a)" "length used \<le> 2"
    by blast
  show ?thesis
  proof (cases "pte = 0")
    case True
    then show ?thesis using u by (intro exI [of _ used] exI [of _ fl']) (simp add: s2_def)
  next
    case False
    then obtain p where p: "tbl (pmem s1) root 2 a = Some p" "pte = slot p (PX 0 a)" using u(6) by auto
    have s2: "freelist s2 = freelist s1" "pmem s2 = store64 (pmem s1) (slot p (PX 0 a)) v"
      using False p(2) by (simp_all add: s2_def)
    note L = vm_inv_leaf_store [OF u(2) p(1) a(2) s2]
    have pp: "p \<in> pt_pages (pmem s1) root" using pt_pagesI [OF p(1)] a(2) by simp
    have inval: "load64 (pmem s1) pte AND PTE_V = 0"
      using mapping_entry [OF p(1)] u(4) a(2) none p(2) by (auto split: if_splits)
    have m: "mapping (pmem s2) root vb = (if unat (vb - a) < 4096 then Some v else mapping (pmem s) root vb)"
      if "vb < MAXVA" for vb
      using L(3) [OF that] u(4) that v key_page [OF a(1)] by simp
    have fr: "pmem s2 x = pmem s x" if "\<forall>p \<in> pt_pages (pmem s2) root. \<not> in_page p x" for x
      using that L(2,4) u(5) pp by simp
    show ?thesis using u(1,3,7) L(1,2) False inval m fr by (intro exI [of _ used] exI [of _ fl']) simp
  qed
qed

lemma range_mapped_0 [simp]: "range_mapped 0 va pa perm old = old"
  by (simp add: range_mapped_def fun_eq_iff)

lemma mappages_iter:
  assumes inv: "vm_inv s root fl" and al: "aligned 12 a" and a: "a < MAXVA" and none: "mapping (pmem s) root a = None"
  obtains pte :: u64 and s2 used fl' where
    "\<And>n lst. mappages_loop (Suc n) root a lst pa perm s = (if pte = 0 then Ret (-1, s2) else if a = lst then Ret (0, s2)
       else mappages_loop n root (a + PGSIZE) lst (pa + PGSIZE) perm s2)"
    "fl = used @ fl'" "vm_inv s2 root fl'" "pt_pages (pmem s2) root = pt_pages (pmem s) root \<union> set used" "length used \<le> 2"
    "pte = 0 \<Longrightarrow> fl' = []"
    "\<And>vb. vb < MAXVA \<Longrightarrow> mapping (pmem s2) root vb =
       (if pte \<noteq> 0 \<and> unat (vb - a) < 4096 then Some (PA2PTE pa OR perm OR PTE_V) else mapping (pmem s) root vb)"
    "\<And>x. (\<forall>p \<in> pt_pages (pmem s2) root. \<not> in_page p x) \<Longrightarrow> pmem s2 x = pmem s x"
proof -
  obtain pte s1 where w: "walk root a True s = Ret (pte, s1)" using walk_root [OF a] by (metis surj_pair)
  let ?v = "PA2PTE pa OR perm OR PTE_V"
  let ?s2 = "if pte = 0 then s1 else s1\<lparr>pmem := store64 (pmem s1) pte ?v\<rparr>"
  have v: "?v AND PTE_V \<noteq> 0" by (metis valid_bit or.assoc)
  from mappages_step [OF inv al a none w v] obtain used fl' where
    u: "fl = used @ fl'" "vm_inv ?s2 root fl'" "pt_pages (pmem ?s2) root = pt_pages (pmem s) root \<union> set used"
      "pte = 0 \<longrightarrow> fl' = []" "pte \<noteq> 0 \<longrightarrow> load64 (pmem s1) pte AND PTE_V = 0"
      "\<forall>vb < MAXVA. mapping (pmem ?s2) root vb = (if pte \<noteq> 0 \<and> unat (vb - a) < 4096 then Some ?v else mapping (pmem s) root vb)"
      "\<forall>x. (\<forall>p \<in> pt_pages (pmem ?s2) root. \<not> in_page p x) \<longrightarrow> pmem ?s2 x = pmem s x" "length used \<le> 2"
    by blast
  have loop: "mappages_loop (Suc n) root a lst pa perm s = (if pte = 0 then Ret (-1, ?s2) else if a = lst then Ret (0, ?s2)
       else mappages_loop n root (a + PGSIZE) lst (pa + PGSIZE) perm ?s2)" for n lst
    using w u(5) by (simp add: Let_def)
  show ?thesis by (rule that [OF loop u(1-3,8)]) (use u(4,6,7) in blast)+
qed

lemma mappages_loop_spec:
  assumes "vm_inv s root fl" "aligned 12 a" "unat a + Suc n * 4096 \<le> 2 ^ 38"
    and "\<And>vb. vb < MAXVA \<Longrightarrow> unat (vb - a) < Suc n * 4096 \<Longrightarrow> mapping (pmem s) root vb = None"
    and "lst = a + of_nat (n * 4096)"
  shows "\<exists>r s' used fl' j. mappages_loop (Suc n) root a lst pa perm s = Ret (r, s')
    \<and> fl = used @ fl' \<and> vm_inv s' root fl' \<and> pt_pages (pmem s') root = pt_pages (pmem s) root \<union> set used
    \<and> (if r = 0 then j = Suc n else r = -1 \<and> j \<le> n \<and> fl' = [])
    \<and> (\<forall>vb < MAXVA. mapping (pmem s') root vb = range_mapped j a pa perm (mapping (pmem s) root) vb)
    \<and> (\<forall>x. (\<forall>p \<in> pt_pages (pmem s') root. \<not> in_page p x) \<longrightarrow> pmem s' x = pmem s x) \<and> length used \<le> 2 * Suc n"
  using assms
proof (induction n arbitrary: s fl a pa)
  case prems: (0 s fl a pa)
  have a: "a < MAXVA" using prems(3) by (simp add: MAXVA_nat)
  have none: "mapping (pmem s) root a = None" using prems(4) a by simp
  obtain pte :: u64 and s2 used fl' where u:
    "\<And>n lst. mappages_loop (Suc n) root a lst pa perm s = (if pte = 0 then Ret (-1, s2) else if a = lst then Ret (0, s2)
       else mappages_loop n root (a + PGSIZE) lst (pa + PGSIZE) perm s2)"
    "fl = used @ fl'" "vm_inv s2 root fl'" "pt_pages (pmem s2) root = pt_pages (pmem s) root \<union> set used" "length used \<le> 2"
    "pte = 0 \<Longrightarrow> fl' = []"
    "\<And>vb. vb < MAXVA \<Longrightarrow> mapping (pmem s2) root vb =
       (if pte \<noteq> 0 \<and> unat (vb - a) < 4096 then Some (PA2PTE pa OR perm OR PTE_V) else mapping (pmem s) root vb)"
    "\<And>x. (\<forall>p \<in> pt_pages (pmem s2) root. \<not> in_page p x) \<Longrightarrow> pmem s2 x = pmem s x"
    by (rule mappages_iter [OF prems(1,2) a none, of pa perm]) (rule that)
  have loop: "mappages_loop (Suc 0) root a lst pa perm s = Ret (if pte = 0 then -1 else 0, s2)"
    unfolding u(1) using prems(5) by simp
  have m: "mapping (pmem s2) root vb =
      range_mapped (if pte = 0 then 0 else Suc 0) a pa perm (mapping (pmem s) root) vb" if "vb < MAXVA" for vb
    using u(7) [OF that] PGROUNDDOWN_small [of "vb - a"] by (simp add: range_mapped_def)
  show ?case
    using loop u(2-6,8) m
    by (intro exI [of _ "if pte = 0 then -1 else 0"] exI [of _ s2] exI [of _ used] exI [of _ fl']
        exI [of _ "if pte = 0 then 0 else Suc 0"]) auto
next
  case (Suc n s fl a pa)
  note prems = Suc.prems
  have a: "a < MAXVA" using prems(3) by (simp add: MAXVA_nat)
  have none: "mapping (pmem s) root a = None" using prems(4) a by simp
  let ?v = "PA2PTE pa OR perm OR PTE_V"
  obtain pte :: u64 and s2 used fl' where u:
    "\<And>n lst. mappages_loop (Suc n) root a lst pa perm s = (if pte = 0 then Ret (-1, s2) else if a = lst then Ret (0, s2)
       else mappages_loop n root (a + PGSIZE) lst (pa + PGSIZE) perm s2)"
    "fl = used @ fl'" "vm_inv s2 root fl'" "pt_pages (pmem s2) root = pt_pages (pmem s) root \<union> set used" "length used \<le> 2"
    "pte = 0 \<Longrightarrow> fl' = []"
    "\<And>vb. vb < MAXVA \<Longrightarrow> mapping (pmem s2) root vb =
       (if pte \<noteq> 0 \<and> unat (vb - a) < 4096 then Some ?v else mapping (pmem s) root vb)"
    "\<And>x. (\<forall>p \<in> pt_pages (pmem s2) root. \<not> in_page p x) \<Longrightarrow> pmem s2 x = pmem s x"
    by (rule mappages_iter [OF prems(1,2) a none, of pa perm]) (rule that)
  show ?case
  proof (cases "pte = 0")
    case True
    then show ?thesis
      unfolding u(1) using u(2-8) by (intro exI [of _ "-1"] exI [of _ s2] exI [of _ used] exI [of _ fl'] exI [of _ 0]) auto
  next
    case False
    have ua: "unat (a + 4096) = unat a + 4096" using prems(3) unat_add_nowrap [of a 4096] by simp
    have al: "aligned 12 (a + 4096)" using prems(2) ua by (simp add: aligned_def)
    have sz: "Suc n * 4096 \<le> 2 ^ 38" using prems(3) by simp
    have none2: "mapping (pmem s2) root vb = None" if vb: "vb < MAXVA" "unat (vb - (a + 4096)) < Suc n * 4096" for vb
    proof -
      have in2: "unat (vb - a - 4096) < Suc n * 4096" using vb(2) by (simp only: diff_diff_eq)
      then have "unat (vb - a) < 4096 + Suc n * 4096" "\<not> unat (vb - a) < 4096"
        using page_split [OF sz, of "vb - a"] by blast+
      then show ?thesis using u(7) [OF vb(1)] prems(4) [OF vb(1)] by simp
    qed
    have ne: "a \<noteq> lst"
    proof -
      have "unat (of_nat (Suc n * 4096) :: u64) = Suc n * 4096" using sz by (intro unat_of_nat64) simp
      then have "unat lst = unat a + Suc n * 4096"
        unfolding prems(5) using prems(3) by (intro trans [OF unat_add_nowrap]) simp_all
      then show ?thesis by auto
    qed
    have lst: "lst = a + 4096 + of_nat (n * 4096)" using prems(5) by simp
    have b: "unat (a + 4096) + Suc n * 4096 \<le> 2 ^ 38" using prems(3) ua by simp
    from Suc.IH [OF u(3) al b none2 lst, of "pa + 4096"] obtain r s' used2 fl2 j where
      r: "mappages_loop (Suc n) root (a + 4096) lst (pa + 4096) perm s2 = Ret (r, s')"
        "fl' = used2 @ fl2" "vm_inv s' root fl2" "pt_pages (pmem s') root = pt_pages (pmem s2) root \<union> set used2"
        "if r = 0 then j = Suc n else r = -1 \<and> j \<le> n \<and> fl2 = []"
        "\<forall>vb < MAXVA. mapping (pmem s') root vb = range_mapped j (a + 4096) (pa + 4096) perm (mapping (pmem s2) root) vb"
        "\<forall>x. (\<forall>p \<in> pt_pages (pmem s') root. \<not> in_page p x) \<longrightarrow> pmem s' x = pmem s2 x" "length used2 \<le> 2 * Suc n"
      by blast
    have loop: "mappages_loop (Suc (Suc n)) root a lst pa perm s = Ret (r, s')" unfolding u(1) using False ne r(1) by simp
    have j: "j * 4096 \<le> 2 ^ 38" using r(5) sz by (auto split: if_splits)
    have m: "mapping (pmem s') root vb = range_mapped (Suc j) a pa perm (mapping (pmem s) root) vb" if vb: "vb < MAXVA" for vb
    proof -
      let ?old = "\<lambda>w. if unat (w - a) < 4096 then Some ?v else mapping (pmem s) root w"
      have "mapping (pmem s2) root vb = ?old vb" using u(7) [OF vb] False by simp
      then have "range_mapped j (a + 4096) (pa + 4096) perm (mapping (pmem s2) root) vb =
          range_mapped j (a + 4096) (pa + 4096) perm ?old vb"
        by (simp only: range_mapped_def)
      then show ?thesis using r(6) vb range_mapped_Suc [OF j] by simp
    qed
    have fr: "pmem s' x = pmem s x" if "\<forall>p \<in> pt_pages (pmem s') root. \<not> in_page p x" for x
      using that r(4,7) u(8) by simp
    have pp: "pt_pages (pmem s') root = pt_pages (pmem s) root \<union> set (used @ used2)" using r(4) u(4) by (simp add: Un_assoc)
    show ?thesis
      using loop r(2,3,5,8) u(2,5) m fr pp
      by (intro exI [of _ r] exI [of _ s'] exI [of _ "used @ used2"] exI [of _ fl2] exI [of _ "Suc j"]) auto
  qed
qed

lemma mappages_spec:
  assumes "vm_inv s root fl" "aligned 12 va" "0 < n" "unat va + n * 4096 \<le> 2 ^ 38"
    and "\<forall>vb < MAXVA. unat (vb - va) < n * 4096 \<longrightarrow> mapping (pmem s) root vb = None"
  shows "\<exists>r s' used fl' j. mappages root va (of_nat (n * 4096)) pa perm s = Ret (r, s')
    \<and> (if r = 0 then j = n else r = -1 \<and> j < n \<and> fl' = [])
    \<and> vm_inv s' root fl' \<and> fl = used @ fl'
    \<and> pt_pages (pmem s') root = pt_pages (pmem s) root \<union> set used
    \<and> (\<forall>vb < MAXVA. mapping (pmem s') root vb =
         (if unat (vb - va) < j * 4096 then Some (PA2PTE (pa + PGROUNDDOWN (vb - va)) OR perm OR PTE_V)
          else mapping (pmem s) root vb))
    \<and> (\<forall>x. (\<forall>p \<in> pt_pages (pmem s') root. \<not> in_page p x) \<longrightarrow> pmem s' x = pmem s x) \<and> length used \<le> 2 * n"
proof -
  obtain k where n: "n = Suc k" using assms(3) by (cases n) auto
  have k: "n * 4096 < 2 ^ 64" using assms(4) by simp
  define sz :: u64 where "sz = of_nat (n * 4096)"
  have usz: "unat sz = n * 4096" unfolding sz_def using k by (rule unat_of_nat64)
  have "va mod 4096 = 0" using assms(2) aligned12_iff by simp
  moreover have "sz mod 4096 = 0" by (simp add: usz word_unat_eq_iff unat_mod_distrib)
  moreover have "sz \<noteq> 0" using usz assms(3) by auto
  moreover have "unat (sz div 4096) = n" by (simp add: usz unat_div_distrib)
  moreover have lst: "va + sz - 4096 = va + of_nat (k * 4096)" by (simp add: sz_def n)
  ultimately have loop: "mappages root va sz pa perm s =
      mappages_loop (Suc k) root va (va + of_nat (k * 4096)) pa perm s"
    unfolding mappages_def lst using n by (simp only: simp_thms if_False)
  have b: "unat va + Suc k * 4096 \<le> 2 ^ 38" using assms(4) n by simp
  have none: "mapping (pmem s) root vb = None" if "vb < MAXVA" "unat (vb - va) < Suc k * 4096" for vb
    using assms(5) n that by simp
  from mappages_loop_spec [OF assms(1,2) b none refl, of pa perm] obtain r s' used fl' j where
    r: "mappages root va sz pa perm s = Ret (r, s')" "fl = used @ fl'" "vm_inv s' root fl'"
      "pt_pages (pmem s') root = pt_pages (pmem s) root \<union> set used"
      "if r = 0 then j = Suc k else r = -1 \<and> j \<le> k \<and> fl' = []"
      "\<forall>vb < MAXVA. mapping (pmem s') root vb = range_mapped j va pa perm (mapping (pmem s) root) vb"
      "\<forall>x. (\<forall>p \<in> pt_pages (pmem s') root. \<not> in_page p x) \<longrightarrow> pmem s' x = pmem s x" "length used \<le> 2 * Suc k"
    unfolding loop by blast
  have "if r = 0 then j = n else r = -1 \<and> j < n \<and> fl' = []" using r(5) n by (auto split: if_splits)
  then show ?thesis
    using r(1-4,7,8) r(6) [unfolded range_mapped_def] unfolding sz_def [symmetric] n [symmetric] by blast
qed

text \<open>
  C17. \<open>mappages\<close> over an unmapped page-aligned range below \<open>MAXVA\<close> never panics. It either
  installs for every page of the range the entry of the corresponding physical page with the given
  permissions, or stops because the allocator is empty, after taking at most two table pages for each page of the range; no translation outside the range changes,
  and no byte outside the pages of the table is written.
\<close>

theorem mappages_maps_range:
  assumes "vm_inv s root fl" "aligned 12 va" "0 < n" "unat va + n * 4096 \<le> 2 ^ 38"
    and "\<forall>vb < MAXVA. unat (vb - va) < n * 4096 \<longrightarrow> mapping (pmem s) root vb = None"
  shows "\<exists>r s' fl' j. mappages root va (of_nat (n * 4096)) pa perm s = Ret (r, s')
    \<and> (if r = 0 then j = n else r = -1 \<and> j < n \<and> fl' = [])
    \<and> vm_inv s' root fl' \<and> (\<exists>used. fl = used @ fl' \<and> length used \<le> 2 * n)
    \<and> (\<forall>vb < MAXVA. mapping (pmem s') root vb =
         (if unat (vb - va) < j * 4096 then Some (PA2PTE (pa + PGROUNDDOWN (vb - va)) OR perm OR PTE_V)
          else mapping (pmem s) root vb))
    \<and> (\<forall>x. (\<forall>p \<in> pt_pages (pmem s') root. \<not> in_page p x) \<longrightarrow> pmem s' x = pmem s x)"
  using mappages_spec [OF assms, of pa perm] by blast

text \<open>The walk that \<open>uvmunmap\<close> makes: no state change, and 0 or the leaf slot.\<close>

lemma walk_noalloc:
  assumes "vm_inv s root fl" "va < MAXVA"
  obtains (absent) "walk root va False s = Ret (0, s)" "mapping (pmem s) root va = None"
  | (leaf) p where "walk root va False s = Ret (slot p (PX 0 va), s)" "slot p (PX 0 va) \<noteq> 0"
      "tbl (pmem s) root 2 va = Some p"
proof -
  obtain a s' where wl: "walk_loop 2 root va False s = (a, s')" by fastforce
  have w: "walk root va False s = Ret (a, s')" using wl walk_root [OF assms(2)] by simp
  have t0: "tbl (pmem s) root (2 - 2) va = Some root" by simp
  from walk_loop_spec [OF assms(1) order_refl assms(2) t0 wl] have
    "if a = 0 then mapping (pmem s) root va = None
     else \<exists>p. tbl (pmem s') root 2 va = Some p \<and> a = slot p (PX 0 va)" "s' = s"
    by (auto split: if_splits)
  then show ?thesis using that w by (auto split: if_splits)
qed

text \<open>Freeing a page that is neither a table page nor free keeps the table.\<close>

lemma vm_inv_kfree:
  assumes inv: "vm_inv s root fl" and p: "page_ok p" "p \<notin> set fl" "p \<notin> pt_pages (pmem s) root"
  obtains s' where "kfree p s = Ret s'" "vm_inv s' root (p # fl)"
    "pt_pages (pmem s') root = pt_pages (pmem s) root"
    "\<And>va. va < MAXVA \<Longrightarrow> mapping (pmem s') root va = mapping (pmem s) root va"
    "\<And>va. va < MAXVA \<Longrightarrow> tbl (pmem s') root 2 va = tbl (pmem s) root 2 va"
    "\<And>x. \<not> in_page p x \<Longrightarrow> pmem s' x = pmem s x"
proof -
  note I = vm_invD [OF inv]
  obtain s' where s': "kfree p s = Ret s'" "freelist_is s' (p # fl)"
      "\<And>x. \<not> in_page p x \<Longrightarrow> pmem s' x = pmem s x"
    using kfree_pushes [OF I(2) p(1,2)] by metis
  have same: "pmem s' x = pmem s x" if "q \<in> pt_pages (pmem s) root" "in_page q x" for q x
  proof -
    have "q \<noteq> p" using p(3) that(1) by auto
    then have "\<not> in_page p x"
      using in_page_disjoint [OF I(4) [OF that(1)] _ _ that(2)] p(1) by (auto simp: page_ok_def)
    then show ?thesis by (rule s'(3))
  qed
  have F: "pt_wf (pmem s') root" "pt_pages (pmem s') root = pt_pages (pmem s) root"
      "\<And>va. va < MAXVA \<Longrightarrow> mapping (pmem s') root va = mapping (pmem s) root va"
      "\<And>va. va < MAXVA \<Longrightarrow> tbl (pmem s') root 2 va = tbl (pmem s) root 2 va"
    using pt_frame [OF I(1)] tbl_frame [OF I(1), of "pmem s'" 2] same by blast+
  have "vm_inv s' root (p # fl)" using F s'(2) I(3) p(3) by (auto simp: vm_inv_def)
  then show ?thesis using that s' F by blast
qed

text \<open>The pages the range maps, as physical addresses, and that the range owns them.\<close>

definition leaf_pages :: "mem \<Rightarrow> u64 \<Rightarrow> u64 \<Rightarrow> nat \<Rightarrow> u64 set" where
  "leaf_pages m root a n =
     {PTE2PA e | e vb. vb < MAXVA \<and> unat (vb - a) < n * 4096 \<and> mapping m root vb = Some e}"

definition owns_range :: "phys \<Rightarrow> u64 \<Rightarrow> u64 list \<Rightarrow> u64 \<Rightarrow> nat \<Rightarrow> bool" where
  "owns_range s root fl a n \<longleftrightarrow>
     (\<forall>p \<in> leaf_pages (pmem s) root a n. page_ok p \<and> p \<notin> set fl \<and> p \<notin> pt_pages (pmem s) root) \<and>
     (\<forall>vb vc e f. vb < MAXVA \<longrightarrow> vc < MAXVA \<longrightarrow> unat (vb - a) < n * 4096 \<longrightarrow> unat (vc - a) < n * 4096 \<longrightarrow>
        mapping (pmem s) root vb = Some e \<longrightarrow> mapping (pmem s) root vc = Some f \<longrightarrow>
        PTE2PA e = PTE2PA f \<longrightarrow> key 3 vb = key 3 vc)"

lemma leaf_pagesI:
  "vb < MAXVA \<Longrightarrow> unat (vb - a) < n * 4096 \<Longrightarrow> mapping m root vb = Some e \<Longrightarrow> PTE2PA e \<in> leaf_pages m root a n"
  by (auto simp: leaf_pages_def)

section \<open>Writes confined to a set of pages\<close>

definition only_pages :: "u64 set \<Rightarrow> mem \<Rightarrow> mem \<Rightarrow> bool" where
  "only_pages C m m' \<longleftrightarrow> (\<forall>x. (\<forall>q\<in>C. \<not> in_page q x) \<longrightarrow> m' x = m x)"

lemma only_pages_refl [simp]: "only_pages C m m"
  by (simp add: only_pages_def)

lemma only_pages_trans: "only_pages C m m1 \<Longrightarrow> only_pages D m1 m2 \<Longrightarrow> only_pages (C \<union> D) m m2"
  by (simp add: only_pages_def)

lemma only_pages_mono: "only_pages C m m' \<Longrightarrow> C \<subseteq> D \<Longrightarrow> only_pages D m m'"
  unfolding only_pages_def by (meson subset_iff)

lemma only_pages_one: "(\<And>x. \<not> in_page p x \<Longrightarrow> m' x = m x) \<Longrightarrow> only_pages {p} m m'"
  by (simp add: only_pages_def)

lemma only_pagesD:
  assumes "only_pages C m m'" "\<forall>q\<in>C. aligned 12 q" "aligned 12 p" "p \<notin> C" "in_page p x"
  shows "m' x = m x"
  using assms in_page_disjoint [of p _ x] unfolding only_pages_def by metis

text \<open>One iteration of \<open>uvmunmap\<close>.\<close>

lemma uvmunmap_iter:
  assumes inv: "vm_inv s root fl" and a: "aligned 12 a" "a < MAXVA" "a < e"
    and own: "\<And>f. do_free \<Longrightarrow> mapping (pmem s) root a = Some f \<Longrightarrow>
      page_ok (PTE2PA f) \<and> PTE2PA f \<notin> set fl \<and> PTE2PA f \<notin> pt_pages (pmem s) root"
  obtains s' where
    "\<And>n. uvmunmap_loop (Suc n) root a e do_free s = uvmunmap_loop n root (a + 4096) e do_free s'"
    "vm_inv s' root (case mapping (pmem s) root a of
       Some f \<Rightarrow> (if do_free then [PTE2PA f] else []) @ fl | None \<Rightarrow> fl)"
    "pt_pages (pmem s') root = pt_pages (pmem s) root"
    "\<And>vb. vb < MAXVA \<Longrightarrow> mapping (pmem s') root vb =
      (if unat (vb - a) < 4096 then None else mapping (pmem s) root vb)"
    "only_pages (pt_pages (pmem s) root \<union>
       (case mapping (pmem s) root a of Some f \<Rightarrow> if do_free then {PTE2PA f} else {} | None \<Rightarrow> {})) (pmem s) (pmem s')"
proof (cases "mapping (pmem s) root a")
  case None
  have same: "(if unat (vb - a) < 4096 then None else mapping (pmem s) root vb) = mapping (pmem s) root vb" for vb
    using mapping_key [of vb a] key_page [OF a(1)] None by simp
  have "uvmunmap_loop (Suc n) root a e do_free s = uvmunmap_loop n root (a + 4096) e do_free s" for n
    using inv a(2)
  proof (cases rule: walk_noalloc)
    case absent
    then show ?thesis using a(3) by simp
  next
    case (leaf p)
    then show ?thesis using a(3) None mapping_entry [OF leaf(3)] by (simp split: if_splits)
  qed
  then show ?thesis using that [of s] inv None same by simp
next
  case (Some f)
  show ?thesis
    using inv a(2)
  proof (cases rule: walk_noalloc)
    case absent
    then show ?thesis using Some by simp
  next
    case (leaf p)
    have f: "load64 (pmem s) (slot p (PX 0 a)) = f" "f AND PTE_V \<noteq> 0"
      using Some mapping_entry [OF leaf(3)] by (auto split: if_splits)
    let ?fl = "(if do_free then [PTE2PA f] else []) @ fl"
    obtain s1 where s1: "(if do_free then kfree (PTE2PA f) s else Ret s) = Ret s1" "vm_inv s1 root ?fl"
      "pt_pages (pmem s1) root = pt_pages (pmem s) root" "tbl (pmem s1) root 2 a = Some p"
      "\<And>va. va < MAXVA \<Longrightarrow> mapping (pmem s1) root va = mapping (pmem s) root va"
      "only_pages (if do_free then {PTE2PA f} else {}) (pmem s) (pmem s1)"
    proof (cases do_free)
      case True
      obtain s1 where "kfree (PTE2PA f) s = Ret s1" "vm_inv s1 root (PTE2PA f # fl)"
          "pt_pages (pmem s1) root = pt_pages (pmem s) root" "tbl (pmem s1) root 2 a = tbl (pmem s) root 2 a"
          "\<And>va. va < MAXVA \<Longrightarrow> mapping (pmem s1) root va = mapping (pmem s) root va"
          "\<And>x. \<not> in_page (PTE2PA f) x \<Longrightarrow> pmem s1 x = pmem s x"
        using vm_inv_kfree [OF inv] own [OF True Some] a(2) by metis
      then show ?thesis using that [of s1] True leaf(3) only_pages_one [of "PTE2PA f" "pmem s1" "pmem s"] by simp
    next
      case False
      then show ?thesis using that [of s] inv leaf(3) by simp
    qed
    let ?s2 = "s1\<lparr>pmem := store64 (pmem s1) (slot p (PX 0 a)) 0\<rparr>"
    have s2: "freelist ?s2 = freelist s1" "pmem ?s2 = store64 (pmem s1) (slot p (PX 0 a)) 0" by simp_all
    note L = vm_inv_leaf_store [OF s1(2,4) a(2) s2]
    have "uvmunmap_loop (Suc n) root a e do_free s = uvmunmap_loop n root (a + 4096) e do_free ?s2" for n
      using a(3) leaf f s1(1) by (cases do_free) simp_all
    moreover have "only_pages (pt_pages (pmem s1) root) (pmem s1) (pmem ?s2)"
      using L(4) pt_pagesI [OF s1(4)] a(2) by (auto simp: only_pages_def)
    from only_pages_trans [OF s1(6) this]
    have "only_pages (pt_pages (pmem s) root \<union> (if do_free then {PTE2PA f} else {})) (pmem s) (pmem ?s2)"
      using s1(3) by (simp add: Un_commute)
    ultimately show ?thesis using that [of ?s2] L(1,2) L(3) s1(3,5) Some key_page [OF a(1)] by simp
  qed
qed

text \<open>The first page of a range and the rest of it.\<close>

lemma leaf_pages_Suc:
  assumes n: "n * 4096 \<le> 2 ^ 38" and a: "aligned 12 a" "a < MAXVA"
    and m: "\<And>vb. vb < MAXVA \<Longrightarrow> mapping m' root vb = (if unat (vb - a) < 4096 then None else mapping m root vb)"
  shows "leaf_pages m root a (Suc n) =
    (case mapping m root a of None \<Rightarrow> {} | Some f \<Rightarrow> {PTE2PA f}) \<union> leaf_pages m' root (a + 4096) n"
proof -
  have *: "vb - (a + 4096) = vb - a - 4096" for vb by simp
  have here: "mapping m root vb = mapping m root a" if "unat (vb - a) < 4096" for vb
    using mapping_key [of vb a] key_page [OF a(1)] that by simp
  have s: "unat (vb - a) < Suc n * 4096 \<longleftrightarrow> unat (vb - a) < 4096 \<or> unat (vb - a - 4096) < n * 4096"
    and ns: "unat (vb - a) < 4096 \<Longrightarrow> \<not> unat (vb - a - 4096) < n * 4096" for vb
    using page_split [OF n, of "vb - a"] by auto
  show ?thesis (is "?L = ?A \<union> ?B")
  proof (intro set_eqI iffI)
    fix x assume "x \<in> ?L"
    then obtain e vb where e: "x = PTE2PA e" "vb < MAXVA" "unat (vb - a) < Suc n * 4096" "mapping m root vb = Some e"
      by (auto simp: leaf_pages_def)
    then show "x \<in> ?A \<union> ?B"
      using here [of vb] s [of vb] ns [of vb] m [of vb] unfolding leaf_pages_def *
      by (cases "unat (vb - a) < 4096") auto
  next
    fix x assume "x \<in> ?A \<union> ?B"
    then show "x \<in> ?L"
    proof
      assume "x \<in> ?A"
      then show ?thesis using leaf_pagesI [OF a(2), of a "Suc n"] by (auto split: option.splits)
    next
      assume "x \<in> ?B"
      then obtain e vb where "x = PTE2PA e" "vb < MAXVA" "unat (vb - a - 4096) < n * 4096" "mapping m' root vb = Some e"
        unfolding leaf_pages_def * by blast
      then show ?thesis using s [of vb] ns [of vb] m [of vb] by (auto intro: leaf_pagesI split: if_splits)
    qed
  qed
qed

lemma owns_range_Suc:
  assumes own: "owns_range s root fl a (Suc n)" and n: "n * 4096 \<le> 2 ^ 38" and a: "aligned 12 a" "a < MAXVA"
    and m: "\<And>vb. vb < MAXVA \<Longrightarrow>
      mapping (pmem s') root vb = (if unat (vb - a) < 4096 then None else mapping (pmem s) root vb)"
    and pp: "pt_pages (pmem s') root = pt_pages (pmem s) root"
    and fl': "set fl' \<subseteq> (case mapping (pmem s) root a of None \<Rightarrow> {} | Some f \<Rightarrow> {PTE2PA f}) \<union> set fl"
  shows "owns_range s' root fl' (a + 4096) n"
proof -
  have *: "vb - (a + 4096) = vb - a - 4096" for vb by simp
  have rest: "unat (vb - a) < Suc n * 4096 \<and> \<not> unat (vb - a) < 4096 \<and> mapping (pmem s) root vb = Some e"
    if "vb < MAXVA" "unat (vb - (a + 4096)) < n * 4096" "mapping (pmem s') root vb = Some e" for vb e
    using that page_split [OF n, of "vb - a"] m [of vb] unfolding * by (auto split: if_splits)
  note O = own [unfolded owns_range_def]
  show ?thesis
    unfolding owns_range_def
  proof (intro conjI ballI allI impI)
    fix p assume "p \<in> leaf_pages (pmem s') root (a + 4096) n"
    then obtain e vb where e: "p = PTE2PA e" "vb < MAXVA" "unat (vb - (a + 4096)) < n * 4096"
        "mapping (pmem s') root vb = Some e"
      by (auto simp: leaf_pages_def)
    note r = rest [OF e(2-4)]
    have p: "p \<in> leaf_pages (pmem s) root a (Suc n)" using leaf_pagesI [OF e(2)] r e(1) by blast
    then show "page_ok p" "p \<notin> pt_pages (pmem s') root" using O pp by auto
    have "p \<noteq> PTE2PA f" if f: "mapping (pmem s) root a = Some f" for f
    proof
      assume "p = PTE2PA f"
      moreover have "unat (a - a) < Suc n * 4096" by simp
      ultimately have "key 3 vb = key 3 a"
        using O [THEN conjunct2, rule_format, of vb a e f] e(1,2) r a(2) f by simp
      then show False using r key_page [OF a(1)] by simp
    qed
    then show "p \<notin> set fl'" using fl' O p by (auto split: option.splits)
  next
    fix vb vc e f
    assume "vb < MAXVA" "vc < MAXVA" "unat (vb - (a + 4096)) < n * 4096" "unat (vc - (a + 4096)) < n * 4096"
      "mapping (pmem s') root vb = Some e" "mapping (pmem s') root vc = Some f" "PTE2PA e = PTE2PA f"
    then show "key 3 vb = key 3 vc" using O rest by blast
  qed
qed

lemma uvmunmap_loop_spec:
  assumes "vm_inv s root fl" "aligned 12 a" "unat a + n * 4096 \<le> 2 ^ 38" "unat e = unat a + n * 4096"
    and "do_free \<longrightarrow> owns_range s root fl a n"
  shows "\<exists>s' fl'. uvmunmap_loop n root a e do_free s = Ret s' \<and> vm_inv s' root fl'
    \<and> set fl' = set fl \<union> (if do_free then leaf_pages (pmem s) root a n else {})
    \<and> pt_pages (pmem s') root = pt_pages (pmem s) root
    \<and> (\<forall>vb < MAXVA. mapping (pmem s') root vb =
         (if unat (vb - a) < n * 4096 then None else mapping (pmem s) root vb))
    \<and> only_pages (pt_pages (pmem s) root \<union> (if do_free then leaf_pages (pmem s) root a n else {})) (pmem s) (pmem s')"
  using assms
proof (induction n arbitrary: s fl a)
  case 0
  then show ?case by (intro exI [of _ s] exI [of _ fl]) (simp add: leaf_pages_def)
next
  case (Suc n)
  note prems = Suc.prems
  have a: "a < MAXVA" "a < e" using prems(3,4) unfolding MAXVA_nat by (simp_all add: word_less_nat_alt)
  have n: "n * 4096 \<le> 2 ^ 38" using prems(3) by simp
  have own: "page_ok (PTE2PA f) \<and> PTE2PA f \<notin> set fl \<and> PTE2PA f \<notin> pt_pages (pmem s) root"
    if "do_free" "mapping (pmem s) root a = Some f" for f
    using prems(5) that leaf_pagesI [OF a(1), of a "Suc n"] by (simp add: owns_range_def)
  let ?fl = "case mapping (pmem s) root a of Some f \<Rightarrow> (if do_free then [PTE2PA f] else []) @ fl | None \<Rightarrow> fl"
  obtain s1 where s1:
    "uvmunmap_loop (Suc n) root a e do_free s = uvmunmap_loop n root (a + 4096) e do_free s1"
    "vm_inv s1 root ?fl" "pt_pages (pmem s1) root = pt_pages (pmem s) root"
    "\<And>vb. vb < MAXVA \<Longrightarrow> mapping (pmem s1) root vb =
      (if unat (vb - a) < 4096 then None else mapping (pmem s) root vb)"
    "only_pages (pt_pages (pmem s) root \<union>
       (case mapping (pmem s) root a of Some f \<Rightarrow> if do_free then {PTE2PA f} else {} | None \<Rightarrow> {})) (pmem s) (pmem s1)"
    using uvmunmap_iter [OF prems(1,2) a own] by metis
  have ua: "unat (a + 4096) = unat a + 4096" using prems(3) unat_add_nowrap [of a 4096] by simp
  have al: "aligned 12 (a + 4096)" using prems(2) ua by (simp add: aligned_def)
  have own': "do_free \<longrightarrow> owns_range s1 root ?fl (a + 4096) n"
    using owns_range_Suc [OF _ n prems(2) a(1) s1(4,3), of fl ?fl] prems(5) by (auto split: option.splits)
  have b: "unat (a + 4096) + n * 4096 \<le> 2 ^ 38" "unat e = unat (a + 4096) + n * 4096"
    using prems(3,4) ua by simp_all
  from Suc.IH [OF s1(2) al b own'] obtain s' fl' where r:
    "uvmunmap_loop n root (a + 4096) e do_free s1 = Ret s'" "vm_inv s' root fl'"
    "set fl' = set ?fl \<union> (if do_free then leaf_pages (pmem s1) root (a + 4096) n else {})"
    "pt_pages (pmem s') root = pt_pages (pmem s1) root"
    "\<forall>vb < MAXVA. mapping (pmem s') root vb =
       (if unat (vb - (a + 4096)) < n * 4096 then None else mapping (pmem s1) root vb)"
    "only_pages (pt_pages (pmem s1) root \<union> (if do_free then leaf_pages (pmem s1) root (a + 4096) n else {})) (pmem s1) (pmem s')"
    by blast
  have frame: "only_pages (pt_pages (pmem s) root \<union> (if do_free then leaf_pages (pmem s) root a (Suc n) else {})) (pmem s) (pmem s')"
    by (rule only_pages_mono [OF only_pages_trans [OF s1(5) r(6)]])
      (use s1(3) leaf_pages_Suc [OF n prems(2) a(1) s1(4)] in \<open>auto split: option.splits\<close>)
  have "set fl' = set fl \<union> (if do_free then leaf_pages (pmem s) root a (Suc n) else {})"
    using r(3) leaf_pages_Suc [OF n prems(2) a(1) s1(4)] by (auto split: option.splits)
  moreover have "mapping (pmem s') root vb =
      (if unat (vb - a) < Suc n * 4096 then None else mapping (pmem s) root vb)" if "vb < MAXVA" for vb
  proof -
    have *: "vb - (a + 4096) = vb - a - 4096" by simp
    show ?thesis
      using r(5) [rule_format, OF that, unfolded * ] s1(4) [OF that] page_split [OF n, of "vb - a"] by simp
  qed
  ultimately show ?case using r(1,2,4) s1(1,3) frame by (intro exI [of _ s'] exI [of _ fl']) simp
qed

lemma uvmunmap_spec:
  assumes "vm_inv s root fl" "aligned 12 va" "unat va + unat npages * 4096 \<le> 2 ^ 38"
    and "do_free \<longrightarrow> owns_range s root fl va (unat npages)"
  shows "\<exists>s' fl'. uvmunmap root va npages do_free s = Ret s' \<and> vm_inv s' root fl'
    \<and> set fl' = set fl \<union> (if do_free then leaf_pages (pmem s) root va (unat npages) else {})
    \<and> pt_pages (pmem s') root = pt_pages (pmem s) root
    \<and> (\<forall>vb < MAXVA. mapping (pmem s') root vb =
         (if unat (vb - va) < unat npages * 4096 then None else mapping (pmem s) root vb))
    \<and> only_pages (pt_pages (pmem s) root \<union> (if do_free then leaf_pages (pmem s) root va (unat npages) else {})) (pmem s) (pmem s')"
proof -
  have "va mod 4096 = 0" using assms(2) aligned12_iff by simp
  moreover have "unat (npages * 4096) = unat npages * 4096"
    using assms(3) by (simp add: unat_word_ariths)
  then have "unat (va + npages * 4096) = unat va + unat npages * 4096"
    using unat_add_nowrap [of va "npages * 4096"] assms(3) by simp
  ultimately show ?thesis
    using uvmunmap_loop_spec [OF assms(1-3) _ assms(4)] by (simp add: uvmunmap_def)
qed

text \<open>
  C18. \<open>uvmunmap\<close> of a range it owns never panics, removes exactly the translations of the range,
  and with \<open>do_free\<close> gives back to the allocator exactly the physical pages the range mapped. It writes
  no byte outside the pages of the table and the pages it frees.
\<close>

theorem uvmunmap_unmaps_range:
  assumes "vm_inv s root fl" "aligned 12 va" "unat va + unat npages * 4096 \<le> 2 ^ 38"
    and "do_free \<longrightarrow> owns_range s root fl va (unat npages)"
  shows "\<exists>s' fl'. uvmunmap root va npages do_free s = Ret s' \<and> vm_inv s' root fl'
    \<and> set fl' = set fl \<union> (if do_free then leaf_pages (pmem s) root va (unat npages) else {})
    \<and> pt_pages (pmem s') root = pt_pages (pmem s) root
    \<and> (\<forall>vb < MAXVA. mapping (pmem s') root vb =
         (if unat (vb - va) < unat npages * 4096 then None else mapping (pmem s) root vb))
    \<and> only_pages (pt_pages (pmem s) root \<union> (if do_free then leaf_pages (pmem s) root va (unat npages) else {})) (pmem s) (pmem s')"
  by (rule uvmunmap_spec [OF assms])

section \<open>Translation and page faults\<close>

lemma walkaddr_spec:
  assumes "vm_inv s root fl"
  shows "walkaddr root va s = Ret
    (if va < MAXVA then
       (case mapping (pmem s) root va of
          Some e \<Rightarrow> if e AND PTE_U \<noteq> 0 then PTE2PA e else 0 | None \<Rightarrow> 0)
     else 0)"
proof (cases "va < MAXVA")
  case True
  show ?thesis
    using assms True
  proof (cases rule: walk_noalloc)
    case absent
    then show ?thesis using True by (simp add: walkaddr_def not_le)
  next
    case (leaf p)
    then show ?thesis using True mapping_entry [OF leaf(3)] by (auto simp: walkaddr_def)
  qed
qed (simp add: walkaddr_def not_le)

lemma ismapped_spec:
  assumes "vm_inv s root fl" "va < MAXVA"
  shows "ismapped root va s = Ret (mapping (pmem s) root va \<noteq> None)"
  using assms
proof (cases rule: walk_noalloc)
  case absent
  then show ?thesis by (simp add: ismapped_def)
next
  case (leaf p)
  then show ?thesis using mapping_entry [OF leaf(3)] by (simp add: ismapped_def)
qed

text \<open>Taking a page off the free list and clearing it keeps the table.\<close>

lemma kalloc_zeroed:
  assumes inv: "vm_inv s root (p # fl)"
  obtains s1 where "kalloc s = (p, s1)" "vm_inv (s1\<lparr>pmem := memset (pmem s1) p 0 4096\<rparr>) root fl"
    "page_ok p" "p \<notin> set fl" "p \<notin> pt_pages (pmem s) root"
    "pt_pages (memset (pmem s1) p 0 4096) root = pt_pages (pmem s) root"
    "\<And>vb. vb < MAXVA \<Longrightarrow> mapping (memset (pmem s1) p 0 4096) root vb = mapping (pmem s) root vb"
    "\<And>x. memset (pmem s1) p 0 4096 x = (if in_page p x then 0 else pmem s x)"
proof -
  note I = vm_invD [OF inv]
  obtain s1 where s1: "kalloc s = (p, s1)" "freelist_is s1 fl" "\<And>x. \<not> in_page p x \<Longrightarrow> pmem s1 x = pmem s x"
    using kalloc_pops [OF I(2)] by metis
  have p: "page_ok p" "p \<notin> set fl" "p \<notin> pt_pages (pmem s) root" using I(2,3) by (auto simp: freelist_is_def)
  have pa: "aligned 12 p" using p by (simp add: page_ok_def)
  let ?m = "memset (pmem s1) p 0 4096"
  let ?s = "s1\<lparr>pmem := ?m\<rparr>"
  have m: "?m x = (if in_page p x then 0 else pmem s x)" for x
    using s1(3) by (simp add: memset_page_inside memset_page_outside)
  have same: "?m x = pmem s x" if "q \<in> pt_pages (pmem s) root" "in_page q x" for q x
  proof -
    have "q \<noteq> p" using p(3) that(1) by auto
    then show ?thesis using m in_page_disjoint [OF I(4) [OF that(1)] pa _ that(2)] by simp
  qed
  have F: "pt_wf ?m root" "pt_pages ?m root = pt_pages (pmem s) root"
      "\<And>va. va < MAXVA \<Longrightarrow> mapping ?m root va = mapping (pmem s) root va"
    using pt_frame [OF I(1)] same by blast+
  have "freelist_is ?s fl"
  proof (rule freelist_is_frame [OF s1(2)])
    fix q x assume q: "q \<in> set fl" "in_page q x"
    then have "aligned 12 q" "q \<noteq> p" using s1(2) p(2) by (auto simp: freelist_is_def page_ok_def)
    then have "\<not> in_page p x" using in_page_disjoint [OF _ pa] q by blast
    then show "pmem ?s x = pmem s1 x" by (simp add: memset_page_outside)
  qed simp
  then have "vm_inv ?s root fl" using F I(3) by (simp add: vm_inv_def)
  then show ?thesis using that [OF s1(1)] p F m by blast
qed

lemma one_page: "aligned 12 va \<Longrightarrow> va < MAXVA \<Longrightarrow> unat va + 1 * 4096 \<le> 2 ^ 38"
proof -
  assume a: "aligned 12 va" "va < MAXVA"
  obtain k where k: "unat va = 4096 * k" using a(1) by (auto simp: aligned_def mod_eq_0_iff_dvd elim!: dvdE)
  then have "k < 2 ^ 26" using a(2) unfolding MAXVA_nat by simp
  then show ?thesis using k by simp
qed

lemma PGROUNDDOWN_le: "unat (PGROUNDDOWN a) \<le> unat a" and PGROUNDDOWN_page: "unat (a - PGROUNDDOWN a) < 4096"
proof -
  show "unat (PGROUNDDOWN a) \<le> unat a" by (simp add: unat_PGROUNDDOWN)
  have "unat a div 2 ^ 12 = unat (PGROUNDDOWN a) div 2 ^ 12" by (simp add: unat_PGROUNDDOWN)
  then show "unat (a - PGROUNDDOWN a) < 4096"
    using aligned_region [of 12 "PGROUNDDOWN a" a] by simp
qed

lemma mapping_PGROUNDDOWN: "mapping m root (PGROUNDDOWN a) = mapping m root a"
  using mapping_key [of a "PGROUNDDOWN a"] key_page [of "PGROUNDDOWN a" a] PGROUNDDOWN_page [of a] by simp

lemma PGROUNDDOWN_eq: "aligned 12 a \<Longrightarrow> PGROUNDDOWN vb = a \<longleftrightarrow> unat (vb - a) < 4096"
proof -
  assume a: "aligned 12 a"
  have "unat a div 4096 * 4096 = unat a" using a by (auto simp: aligned_def)
  then have "PGROUNDDOWN vb = a \<longleftrightarrow> unat vb div 4096 = unat a div 4096"
    by (auto simp: word_unat_eq_iff unat_PGROUNDDOWN)
  then show ?thesis using aligned_region [OF a, of vb] by simp
qed

text \<open>
  C19. A page fault below the process size on an unmapped page maps a zero-filled page that was
  free, for that page only; when memory runs out it returns 0 and no translation changes. In both
  cases the page table stays well formed and no page is lost or used twice.
\<close>

theorem vmfault_maps_zeroed_page:
  assumes inv: "vm_inv s root fl" and va: "va < psz" "unat psz \<le> 2 ^ 38"
    and none: "mapping (pmem s) root va = None"
  shows "\<exists>pa s' fl'. vmfault psz root root va s = Ret (pa, s') \<and> vm_inv s' root fl'
    \<and> set fl \<subseteq> set fl' \<union> pt_pages (pmem s') root \<union> {pa}
    \<and> (if pa = 0 then \<forall>vb < MAXVA. mapping (pmem s') root vb = mapping (pmem s) root vb
       else pa \<in> set fl \<and> pa \<notin> set fl' \<and> pa \<notin> pt_pages (pmem s') root
         \<and> (\<forall>x. in_page pa x \<longrightarrow> pmem s' x = 0)
         \<and> (\<forall>vb < MAXVA. mapping (pmem s') root vb =
              (if PGROUNDDOWN vb = PGROUNDDOWN va then Some (PA2PTE pa OR (PTE_W OR PTE_U OR PTE_R) OR PTE_V)
               else mapping (pmem s) root vb)))"
proof -
  let ?va = "PGROUNDDOWN va"
  have lt: "va < MAXVA" "?va < MAXVA"
    using va PGROUNDDOWN_le [of va] unfolding MAXVA_nat by (simp_all add: word_less_nat_alt)
  have nle: "\<not> psz \<le> va" using va(1) by simp
  have im: "ismapped root ?va s = Ret False"
    using ismapped_spec [OF inv lt(2)] none by (simp add: mapping_PGROUNDDOWN)
  show ?thesis
  proof (cases fl)
    case Nil
    then have "kalloc s = (0, s)" using kalloc_empty vm_invD(2) [OF inv] by simp
    then have "vmfault psz root root va s = Ret (0, s)" using nle im by (simp add: vmfault_def)
    then show ?thesis using inv Nil by auto
  next
    case (Cons p fl1)
    obtain s1 where k: "kalloc s = (p, s1)" "vm_inv (s1\<lparr>pmem := memset (pmem s1) p 0 4096\<rparr>) root fl1"
      "page_ok p" "p \<notin> set fl1" "p \<notin> pt_pages (pmem s) root"
      "pt_pages (memset (pmem s1) p 0 4096) root = pt_pages (pmem s) root"
      "\<And>vb. vb < MAXVA \<Longrightarrow> mapping (memset (pmem s1) p 0 4096) root vb = mapping (pmem s) root vb"
      "\<And>x. memset (pmem s1) p 0 4096 x = (if in_page p x then 0 else pmem s x)"
      using kalloc_zeroed [OF inv [unfolded Cons]] by metis
    let ?s2 = "s1\<lparr>pmem := memset (pmem s1) p 0 4096\<rparr>"
    let ?perm = "PTE_W OR PTE_U OR PTE_R"
    have al: "aligned 12 ?va" by simp
    have none2: "\<forall>vb < MAXVA. unat (vb - ?va) < 1 * 4096 \<longrightarrow> mapping (pmem ?s2) root vb = None"
      using k(7) [OF lt(1)] none mapping_key [of _ ?va] key_page [OF al] by (simp add: mapping_PGROUNDDOWN)
    from mappages_spec [OF k(2) al zero_less_one one_page [OF al lt(2)] none2, of p ?perm]
    obtain r s' used fl' j where
      r: "mappages root ?va (of_nat (1 * 4096)) p ?perm ?s2 = Ret (r, s')"
        "if r = 0 then j = 1 else r = -1 \<and> j < 1 \<and> fl' = []" "vm_inv s' root fl'" "fl1 = used @ fl'"
        "pt_pages (pmem s') root = pt_pages (pmem ?s2) root \<union> set used"
        "\<forall>vb < MAXVA. mapping (pmem s') root vb =
           (if unat (vb - ?va) < j * 4096 then Some (PA2PTE (p + PGROUNDDOWN (vb - ?va)) OR ?perm OR PTE_V)
            else mapping (pmem ?s2) root vb)"
        "\<forall>x. (\<forall>p \<in> pt_pages (pmem s') root. \<not> in_page p x) \<longrightarrow> pmem s' x = pmem ?s2 x"
      by blast
    have np: "p \<notin> pt_pages (pmem s') root" "p \<notin> set fl'" using r(4,5) k(4-6) by auto
    have p0: "p \<noteq> 0" "aligned 12 p" using k(3) by (auto simp: page_ok_def)
    have step: "vmfault psz root root va s = obind (mappages root ?va PGSIZE p ?perm ?s2) (\<lambda>(r, s3).
        if r \<noteq> 0 then obind (kfree p s3) (\<lambda>s4. Ret (0, s4)) else Ret (p, s3))"
      using nle im k(1) p0 by (simp add: vmfault_def)
    show ?thesis
    proof (cases "r = 0")
      case True
      have "vmfault psz root root va s = Ret (p, s')" unfolding step using r(1) True by simp
      moreover have "pmem s' x = 0" if x: "in_page p x" for x
      proof -
        have "\<forall>q \<in> pt_pages (pmem s') root. \<not> in_page q x"
          using in_page_disjoint [OF p0(2) vm_invD(4) [OF r(3)] _ x] np by blast
        then show ?thesis using r(7) k(8) x by simp
      qed
      moreover have "mapping (pmem s') root vb =
          (if PGROUNDDOWN vb = ?va then Some (PA2PTE p OR ?perm OR PTE_V) else mapping (pmem s) root vb)"
        if "vb < MAXVA" for vb
        using r(6) k(7) r(2) that True PGROUNDDOWN_small [of "vb - ?va"] PGROUNDDOWN_eq [OF al, of vb] by simp
      ultimately show ?thesis
        using r(3,4,5) np p0 Cons by (intro exI [of _ p] exI [of _ s'] exI [of _ fl']) auto
    next
      case False
      then have rf: "j = 0" "fl' = []" "fl1 = used" using r(2,4) by auto
      obtain s4 where s4: "kfree p s' = Ret s4" "vm_inv s4 root (p # fl')"
          "pt_pages (pmem s4) root = pt_pages (pmem s') root"
          "\<And>va. va < MAXVA \<Longrightarrow> mapping (pmem s4) root va = mapping (pmem s') root va"
        using vm_inv_kfree [OF r(3) k(3) np(2,1)] by metis
      have "vmfault psz root root va s = Ret (0, s4)" unfolding step using r(1) s4(1) False by simp
      then show ?thesis
        using s4 r(5,6) k(7) rf Cons by (intro exI [of _ 0] exI [of _ s4] exI [of _ "p # fl'"]) auto
    qed
  qed
qed

section \<open>Concrete instances\<close>

text \<open>Any other page of the memory \<open>demo\<close> is zero, an empty page table.\<close>

definition blank :: "u64 \<Rightarrow> bool" where
  "blank r \<longleftrightarrow> aligned 12 r \<and> r \<notin> {0, 0x80001000, 0x80002000, 0x80003000}"

lemma demo_zero: "blank r \<Longrightarrow> in_page r x \<Longrightarrow> pmem demo x = 0"
proof -
  assume r: "blank r" and x: "in_page r x"
  have al: "aligned 12 0x80001000" "aligned 12 0x80002000" by (simp_all add: aligned_def)
  have "\<not> unat (x - 0x80001000) < 8" "\<not> unat (x - 0x80002000) < 8"
    using in_page_disjoint [of r "0x80001000" x] in_page_disjoint [of r "0x80002000" x] al r x
    by (auto simp: blank_def in_page_def)
  then show ?thesis by (simp add: demo_def store64_outside)
qed

lemma demo_tbl: "blank r \<Longrightarrow> tbl (pmem demo) r d va = (if d = 0 then Some r else None)"
proof (induction d)
  case (Suc d)
  then have al: "aligned 12 r" by (simp add: blank_def)
  note sf = slot_facts [OF al unat_PX [of 2 va]]
  have "load64 (pmem demo) (slot r (PX 2 va)) = 0"
    using demo_zero [OF Suc.prems] in_page_word [OF al sf(2,3)] by (intro load64_zero) blast
  then show ?case using Suc by (simp add: Let_def)
qed simp

lemma demo_table:
  assumes "blank r"
  shows "vm_inv demo r [0x80001000, 0x80002000, 0x80003000]" "mapping (pmem demo) r va = None" "pt_pages (pmem demo) r = {r}"
proof -
  show pp: "pt_pages (pmem demo) r = {r}"
    by (auto simp: pt_pages_def demo_tbl [OF assms] intro!: exI [of _ 0] exI [of _ "0 :: u64"]) (simp add: MAXVA_nat)
  moreover have "load64 (pmem demo) (slot r i) = 0" if "unat i < 512" for i
    using assms that demo_zero [OF assms] by (intro load64_zero_page) (auto simp: blank_def)
  then have "plain_tables (pmem demo) r"
    unfolding plain_tables_def using unat_PX by (auto simp: demo_tbl [OF assms] split: if_splits)
  then have "pt_wf (pmem demo) r"
    unfolding pt_wf_def pp using assms by (auto simp: demo_tbl [OF assms] blank_def key_0 split: if_splits)
  ultimately show "vm_inv demo r [0x80001000, 0x80002000, 0x80003000]"
    using assms by (auto simp: vm_inv_def freelist_demo blank_def)
  show "mapping (pmem demo) r va = None" by (simp add: mapping_def demo_tbl [OF assms])
qed

lemma blank_demo: "blank 0x80010000" "blank 0x80011000"
  by (simp_all add: blank_def aligned_def)

lemmas demo_vm = demo_table(1,2) [OF blank_demo(1)]

theorem mappages_maps_range_witness:
  "\<exists>r s'. mappages 0x80010000 0x3000 0x2000 0x80100000 PTE_W demo = Ret (r, s')
    \<and> (r = 0 \<longrightarrow> mapping (pmem s') 0x80010000 0x4001 = Some (PA2PTE 0x80101000 OR PTE_W OR PTE_V))
    \<and> mapping (pmem s') 0x80010000 0x5000 = None"
proof -
  have al: "aligned 12 0x3000" by (simp add: aligned_def)
  have b: "unat (0x3000 :: u64) + 2 * 4096 \<le> 2 ^ 38" by simp
  have none: "\<forall>vb < MAXVA. unat (vb - 0x3000) < 2 * 4096 \<longrightarrow> mapping (pmem demo) 0x80010000 vb = None"
    using demo_vm(2) by blast
  have rd: "PGROUNDDOWN (0x4001 - 0x3000) = 0x1000" by (simp add: PGROUNDDOWN_def)
  obtain r s' and fl' :: "u64 list" and j where
    "mappages 0x80010000 0x3000 (of_nat (2 * 4096)) 0x80100000 PTE_W demo = Ret (r, s')"
    "if r = 0 then j = 2 else r = -1 \<and> j < 2 \<and> fl' = []"
    "\<forall>vb < MAXVA. mapping (pmem s') 0x80010000 vb =
       (if unat (vb - 0x3000) < j * 4096 then Some (PA2PTE (0x80100000 + PGROUNDDOWN (vb - 0x3000)) OR PTE_W OR PTE_V)
        else mapping (pmem demo) 0x80010000 vb)"
    using mappages_maps_range [OF demo_vm(1) al zero_less_numeral b none, of "0x80100000" PTE_W] by blast
  moreover have "(0x4001 :: u64) < MAXVA" "(0x5000 :: u64) < MAXVA" by (simp_all add: MAXVA_nat)
  ultimately show ?thesis using demo_vm(2) rd by (intro exI [of _ r] exI [of _ s']) (auto split: if_splits)
qed

theorem uvmunmap_unmaps_range_witness:
  "\<exists>s' fl'. uvmunmap 0x80010000 0x3000 2 True demo = Ret s' \<and> vm_inv s' 0x80010000 fl'
    \<and> set fl' = {0x80001000, 0x80002000, 0x80003000}"
  using uvmunmap_unmaps_range [OF demo_vm(1), of "0x3000" 2 True] demo_vm(2)
  by (auto simp: aligned_def owns_range_def leaf_pages_def)

theorem vmfault_maps_zeroed_page_witness:
  "\<exists>pa s' fl'. vmfault 0x5000 0x80010000 0x80010000 0x3123 demo = Ret (pa, s') \<and> vm_inv s' 0x80010000 fl'"
proof -
  have "(0x3123 :: u64) < 0x5000" "unat (0x5000 :: u64) \<le> 2 ^ 38" by simp_all
  from vmfault_maps_zeroed_page [OF demo_vm(1) this demo_vm(2)] show ?thesis by blast
qed

end
