(* ===== verification/Kern.thy ===== *)
theory Kern
  imports Fs Vmops Pipe
begin

text \<open>
  The state the system calls work on: process table, open files, pipes, the file system and the
  physical memory (\<^verbatim>\<open>kernel/proc.h\<close>, \<^verbatim>\<open>kernel/file.h\<close>); access to user memory
  (\<open>either_copyout\<close>, \<open>either_copyin\<close> of \<^verbatim>\<open>kernel/proc.c\<close>), \<open>wakeup\<close>, and the argument
  fetching of \<^verbatim>\<open>kernel/syscall.c\<close>.

  A kernel call runs for the process with index \<open>p\<close> in the table (\<open>myproc()\<close>) up to its
  return, a panic or the first \<open>sleep\<close>; code under a spin lock is not interrupted. A null pointer
  dereference in the kernel ends in \<open>panic("kerneltrap")\<close>.
\<close>

section \<open>State\<close>

datatype procstate = UNUSED | USED | SLEEPING | RUNNABLE | RUNNING | ZOMBIE

text \<open>Wait channels: the kernel addresses processes sleep on.\<close>

datatype chan = Ch_pipe u64 pchan | Ch_proc nat | Ch_ticks

record mmap_region =
  mused :: bool
  mpa :: u64
  maddr :: u64

record proc =
  pstate :: procstate
  pchan :: "chan option"
  pkilled :: bool
  xstate :: u32
  pid :: int
  traced :: bool
  tracing :: bool
  parent :: "nat option"
  kstack :: u64
  psz :: u64
  pagetable :: u64
  trapframe :: u64
  ctx_ra :: u64
  ctx_sp :: u64
  ofile :: "nat option list"
  cwd :: "nat option"
  pname :: "u8 list"
  nice :: int
  priority :: int
  mmap_base :: u64
  mmap_next :: u64
  mmaps :: "mmap_region list"
  syscall_count :: u32

datatype ftype = FD_NONE | FD_PIPE | FD_INODE | FD_DEVICE

record kfile =
  fty :: ftype
  fref :: int
  readable :: bool
  writable :: bool
  fpipe :: u64
  fip :: "nat option"
  foff :: u32
  fmajor :: u16

text \<open>
  \<open>pipes\<close> holds the pipe stored in the page at each address. \<open>kbuf\<close> is the kernel address of
  the buffer that a copy from or to user space uses.
\<close>

record kern =
  ph :: phys
  fs :: fsst
  ftab :: "kfile list"
  pipes :: "u64 \<Rightarrow> pipe"
  procs :: "proc list"
  nextpid :: int
  initproc :: "nat option"
  ticks :: u32
  kbuf :: u64

definition upd_proc :: "nat \<Rightarrow> (proc \<Rightarrow> proc) \<Rightarrow> kern \<Rightarrow> kern" where
  "upd_proc p f k = k\<lparr>procs := (procs k)[p := f (procs k ! p)]\<rparr>"

definition upd_file :: "nat \<Rightarrow> (kfile \<Rightarrow> kfile) \<Rightarrow> kern \<Rightarrow> kern" where
  "upd_file f g k = k\<lparr>ftab := (ftab k)[f := g (ftab k ! f)]\<rparr>"

text \<open>Running a file system or memory operation inside the kernel state.\<close>

definition on_fs :: "(fsst \<Rightarrow> (fsst, 'a) kcall) \<Rightarrow> kern \<Rightarrow> (kern, 'a) kcall" where
  "on_fs g k =
     (case g (fs k) of
        KRet x s \<Rightarrow> KRet x (k\<lparr>fs := s\<rparr>) | KPanic e \<Rightarrow> KPanic e | KSleep s \<Rightarrow> KSleep (k\<lparr>fs := s\<rparr>))"

definition on_ph :: "(phys \<Rightarrow> ('a \<times> phys) outcome) \<Rightarrow> kern \<Rightarrow> (kern, 'a) kcall" where
  "on_ph g k = (case g (ph k) of Panic e \<Rightarrow> KPanic e | Ret (x, s) \<Rightarrow> KRet x (k\<lparr>ph := s\<rparr>))"

definition ret_unit :: "phys outcome \<Rightarrow> (unit \<times> phys) outcome" where
  "ret_unit r = obind r (\<lambda>s. Ret ((), s))"

text \<open>A call that never returns leaves its caller waiting, as a sleep does.\<close>

definition on_ph_loop :: "(phys \<Rightarrow> phys outcome option) \<Rightarrow> kern \<Rightarrow> (kern, unit) kcall" where
  "on_ph_loop g k =
     (case g (ph k) of None \<Rightarrow> KSleep k | Some r \<Rightarrow> on_ph (\<lambda>_. ret_unit r) k)"

definition deref :: "'a option \<Rightarrow> ('a \<Rightarrow> (kern, 'b) kcall) \<Rightarrow> (kern, 'b) kcall" where
  "deref po g = (case po of None \<Rightarrow> KPanic ''kerneltrap'' | Some x \<Rightarrow> g x)"

section \<open>User memory\<close>

text \<open>
  \<open>either_copyout(1, dst, bs, len)\<close> and \<open>either_copyin\<close>: the kernel side of the copy is the buffer
  at \<open>kbuf\<close>. The memory is \<open>Panic\<close> once a copy has panicked.
\<close>

definition user_out :: "kern \<Rightarrow> nat \<Rightarrow> phys outcome copyout" where
  "user_out k p dst bs m =
     (case m of Panic e \<Rightarrow> (False, Panic e)
      | Ret s \<Rightarrow>
        (let x = procs k ! p
         in case copyout (psz x) (pagetable x) (pagetable x) dst (kbuf k) (of_nat (length bs))
                (s\<lparr>pmem := wr_bytes (pmem s) (kbuf k) bs\<rparr>) of
              Panic e \<Rightarrow> (False, Panic e)
            | Ret (r, s1) \<Rightarrow> (r = 0, Ret s1)))"

definition user_in :: "kern \<Rightarrow> nat \<Rightarrow> phys outcome copyin" where
  "user_in k p src bs m =
     (case m of Panic e \<Rightarrow> (bs, False, Panic e)
      | Ret s \<Rightarrow>
        (let x = procs k ! p
         in case copyin (psz x) (pagetable x) (pagetable x) (kbuf k) src (of_nat (length bs))
                (s\<lparr>pmem := wr_bytes (pmem s) (kbuf k) bs\<rparr>) of
              Panic e \<Rightarrow> (bs, False, Panic e)
            | Ret (r, s1) \<Rightarrow> (rd_bytes (pmem s1) (kbuf k) (length bs), r = 0, Ret s1)))"

text \<open>Continue with the memory a copy left behind.\<close>

definition with_mem :: "phys outcome \<Rightarrow> kern \<Rightarrow> (kern \<Rightarrow> (kern, 'a) kcall) \<Rightarrow> (kern, 'a) kcall" where
  "with_mem m k g = (case m of Panic e \<Rightarrow> KPanic e | Ret s \<Rightarrow> g (k\<lparr>ph := s\<rparr>))"

text \<open>\<open>copyout(p->pagetable, dst, &obj, sizeof(obj))\<close> for a kernel object with bytes \<open>bs\<close>.\<close>

definition copyout_obj :: "nat \<Rightarrow> u64 \<Rightarrow> u8 list \<Rightarrow> kern \<Rightarrow> (kern, bool) kcall" where
  "copyout_obj p dst bs k =
     (case user_out k p dst bs (Ret (ph k)) of (ok, m) \<Rightarrow> with_mem m k (KRet ok))"

section \<open>Waking processes\<close>

text \<open>\<open>wakeup(chan)\<close> called by process \<open>me\<close>, or from an interrupt with no process.\<close>

definition wake_one :: "nat option \<Rightarrow> chan \<Rightarrow> nat \<Rightarrow> proc \<Rightarrow> proc" where
  "wake_one me c q x =
     (if Some q \<noteq> me \<and> pstate x = SLEEPING \<and> pchan x = Some c then x\<lparr>pstate := RUNNABLE\<rparr> else x)"

definition wakeup :: "nat option \<Rightarrow> chan \<Rightarrow> kern \<Rightarrow> kern" where
  "wakeup me c k = k\<lparr>procs := map (\<lambda>(q, x). wake_one me c q x) (enumerate 0 (procs k))\<rparr>"

definition wake_pipe :: "nat \<Rightarrow> u64 \<Rightarrow> pchan list \<Rightarrow> kern \<Rightarrow> kern" where
  "wake_pipe p a ws k = fold (\<lambda>w. wakeup (Some p) (Ch_pipe a w)) ws k"

text \<open>\<open>sleep(chan, lk)\<close>: the process leaves the CPU in state \<open>SLEEPING\<close>.\<close>

definition sleep_on :: "nat \<Rightarrow> chan \<Rightarrow> kern \<Rightarrow> (kern, 'a) kcall" where
  "sleep_on p c k = KSleep (upd_proc p (\<lambda>x. x\<lparr>pchan := Some c, pstate := SLEEPING\<rparr>) k)"

definition killed :: "nat \<Rightarrow> kern \<Rightarrow> bool" where
  "killed p k = pkilled (procs k ! p)"

definition setkilled :: "nat \<Rightarrow> kern \<Rightarrow> kern" where
  "setkilled p k = upd_proc p (\<lambda>x. x\<lparr>pkilled := True\<rparr>) k"

section \<open>System call arguments (syscall.c)\<close>

text \<open>Registers are saved in the trapframe page: \<open>a0\<close> at offset 112, \<open>a7\<close> at 168.\<close>

definition tf_reg :: "nat \<Rightarrow> nat \<Rightarrow> kern \<Rightarrow> u64" where
  "tf_reg p off k = load64 (pmem (ph k)) (trapframe (procs k ! p) + of_nat off)"

definition set_tf_reg :: "nat \<Rightarrow> nat \<Rightarrow> u64 \<Rightarrow> kern \<Rightarrow> kern" where
  "set_tf_reg p off v k = k\<lparr>ph := (ph k)\<lparr>pmem := store64 (pmem (ph k)) (trapframe (procs k ! p) + of_nat off) v\<rparr>\<rparr>"

definition argraw :: "nat \<Rightarrow> nat \<Rightarrow> kern \<Rightarrow> (kern, u64) kcall" where
  "argraw p n k = (if n \<le> 5 then KRet (tf_reg p (112 + 8 * n) k) k else KPanic ''argraw'')"

definition argint :: "nat \<Rightarrow> nat \<Rightarrow> kern \<Rightarrow> (kern, u32) kcall" where
  "argint p n k = kbind (argraw p n k) (\<lambda>v k1. KRet (ucast v) k1)"

definition argaddr :: "nat \<Rightarrow> nat \<Rightarrow> kern \<Rightarrow> (kern, u64) kcall" where
  "argaddr p n k = argraw p n k"

definition fetchaddr :: "nat \<Rightarrow> u64 \<Rightarrow> kern \<Rightarrow> (kern, u64 option) kcall" where
  "fetchaddr p addr k =
     (let sz = psz (procs k ! p)
      in if addr \<ge> sz \<or> addr + 8 > sz then KRet None k
         else case user_in k p addr (replicate 8 0) (Ret (ph k)) of
                (bs, ok, m) \<Rightarrow> with_mem m k (KRet (if ok then Some (word_of_bytes bs) else None)))"

text \<open>
  \<open>fetchstr\<close> into the kernel buffer \<open>buf\<close>; the result is the string, whose length C returns. A
  buffer without a terminating 0 in its \<open>mx\<close> bytes does not get past \<open>copyinstr\<close>.
\<close>

definition fetchstr :: "nat \<Rightarrow> u64 \<Rightarrow> u64 \<Rightarrow> nat \<Rightarrow> kern \<Rightarrow> (kern, u8 list option) kcall" where
  "fetchstr p addr kb mx k =
     (case copyinstr (pagetable (procs k ! p)) kb addr (of_nat mx) (ph k) of
        Panic e \<Rightarrow> KPanic e
      | Ret (r, s) \<Rightarrow>
          KRet (if r < 0 then None else Some (takeWhile (\<lambda>c. c \<noteq> 0) (rd_bytes (pmem s) kb mx))) (k\<lparr>ph := s\<rparr>))"

definition argstr :: "nat \<Rightarrow> nat \<Rightarrow> nat \<Rightarrow> kern \<Rightarrow> (kern, u8 list option) kcall" where
  "argstr p n mx k = kbind (argaddr p n k) (\<lambda>addr k1. fetchstr p addr (kbuf k1) mx k1)"

end
