(* ===== verification/File.thy ===== *)
theory File
  imports Kern
begin

text \<open>
  \<^verbatim>\<open>kernel/file.c\<close> and \<open>pipealloc\<close> of \<^verbatim>\<open>kernel/pipe.c\<close>: the table of open files and
  the operations on one open file. Device drivers are reached through the table \<open>devsw\<close>, an
  argument.
\<close>

section \<open>Definitions\<close>

type_synonym devfn = "u64 \<Rightarrow> int \<Rightarrow> kern \<Rightarrow> (kern, int) kcall"
type_synonym devsw = "int \<Rightarrow> devfn option \<times> devfn option"

fun free_file :: "kfile list \<Rightarrow> nat \<Rightarrow> nat option" where
  "free_file [] i = None"
| "free_file (f # rest) i = (if fref f = 0 then Some i else free_file rest (Suc i))"

definition filealloc :: "kern \<Rightarrow> nat option \<times> kern" where
  "filealloc k =
     (case free_file (ftab k) 0 of
        None \<Rightarrow> (None, k)
      | Some f \<Rightarrow> (Some f, upd_file f (\<lambda>x. x\<lparr>fref := 1\<rparr>) k))"

definition filedup :: "nat \<Rightarrow> kern \<Rightarrow> (kern, nat) kcall" where
  "filedup f k =
     (if fref (ftab k ! f) < 1 then KPanic ''filedup''
      else KRet f (upd_file f (\<lambda>x. x\<lparr>fref := fref x + 1\<rparr>) k))"

text \<open>\<open>pipeclose\<close> on the pipe in page \<open>a\<close>: wake the other end, free the page with the last end.\<close>

definition close_pipe :: "nat \<Rightarrow> u64 \<Rightarrow> bool \<Rightarrow> kern \<Rightarrow> (kern, unit) kcall" where
  "close_pipe p a w k =
     (case pipeclose w (pipes k a) of (pi1, fin, c) \<Rightarrow>
        let k1 = wakeup (Some p) (Ch_pipe a c) (k\<lparr>pipes := (pipes k)(a := pi1)\<rparr>)
        in if fin then on_ph (\<lambda>s. ret_unit (kfree a s)) k1 else KRet () k1)"

definition fileclose :: "nat \<Rightarrow> nat \<Rightarrow> kern \<Rightarrow> (kern, unit) kcall" where
  "fileclose p f k =
     (let ff = ftab k ! f
      in if fref ff < 1 then KPanic ''fileclose''
         else if fref ff - 1 > 0 then KRet () (upd_file f (\<lambda>x. x\<lparr>fref := fref x - 1\<rparr>) k)
         else let k1 = upd_file f (\<lambda>x. x\<lparr>fref := 0, fty := FD_NONE\<rparr>) k
              in if fty ff = FD_PIPE then close_pipe p (fpipe ff) (writable ff) k1
                 else if fty ff = FD_INODE \<or> fty ff = FD_DEVICE
                 then kbind (on_fs fs_begin k1) (\<lambda>_ k2.
                      kbind (deref (fip ff) (\<lambda>ip. on_fs (iput (pid (procs k ! p)) ip) k2)) (\<lambda>_ k3.
                      on_fs fs_end k3))
                 else KRet () k1)"

text \<open>\<open>struct stat\<close> in memory: \<open>dev\<close>, \<open>ino\<close>, \<open>type\<close>, \<open>nlink\<close>, padding, \<open>size\<close>.\<close>

definition stat_bytes :: "stat \<Rightarrow> u8 list" where
  "stat_bytes s = bytes_of 4 (st_dev s) @ bytes_of 4 (st_ino s) @ bytes_of 2 (st_type s) @ bytes_of 2 (st_nlink s)
     @ replicate 4 0 @ bytes_of 8 (st_size s)"

definition filestat :: "nat \<Rightarrow> nat \<Rightarrow> u64 \<Rightarrow> kern \<Rightarrow> (kern, int) kcall" where
  "filestat p f addr k =
     (let ff = ftab k ! f; pd = pid (procs k ! p)
      in if fty ff = FD_INODE \<or> fty ff = FD_DEVICE
         then kbind (on_fs (ilock pd (fip ff)) k) (\<lambda>_ k1.
              deref (fip ff) (\<lambda>ip.
                let s = stati ip (fs k1)
                in kbind (on_fs (iunlock pd (fip ff)) k1) (\<lambda>_ k2.
                   kbind (copyout_obj p addr (stat_bytes s) k2) (\<lambda>ok k3.
                   KRet (if ok then 0 else -1) k3))))
         else KRet (-1) k)"

text \<open>One byte of \<open>copyout\<close> and \<open>copyin\<close>, as the pipe code uses them.\<close>

definition pipe_out :: "kern \<Rightarrow> nat \<Rightarrow> u64 \<Rightarrow> u8 \<Rightarrow> phys outcome \<Rightarrow> bool \<times> phys outcome" where
  "pipe_out k p a c m = user_out k p a [c] m"

definition pipe_in :: "kern \<Rightarrow> nat \<Rightarrow> u64 \<Rightarrow> phys outcome \<Rightarrow> u8 option \<times> phys outcome" where
  "pipe_in k p a m = (case user_in k p a [0] m of (bs, ok, m1) \<Rightarrow> (if ok then Some (hd bs) else None, m1))"

text \<open>What a segment of a pipe call leaves: woken processes, the new pipe, return or sleep.\<close>

definition after_pipe :: "nat \<Rightarrow> u64 \<Rightarrow> pstatus \<times> pipe \<times> phys outcome \<times> pchan list \<Rightarrow> kern \<Rightarrow> (kern, int) kcall" where
  "after_pipe p a r k =
     (case r of (st, pi, m, ws) \<Rightarrow>
        with_mem m k (\<lambda>k1.
          let k2 = wake_pipe p a ws (k1\<lparr>pipes := (pipes k1)(a := pi)\<rparr>)
          in case st of Done v \<Rightarrow> KRet v k2 | Asleep c _ \<Rightarrow> sleep_on p (Ch_pipe a c) k2))"

definition fileread :: "devsw \<Rightarrow> nat \<Rightarrow> nat \<Rightarrow> u64 \<Rightarrow> u32 \<Rightarrow> kern \<Rightarrow> (kern, int) kcall" where
  "fileread dsw p f addr n k =
     (let ff = ftab k ! f; pd = pid (procs k ! p)
      in if \<not> readable ff then KRet (-1) k
         else case fty ff of
           FD_PIPE \<Rightarrow>
             after_pipe p (fpipe ff) (piperead (\<lambda>_. killed p k) (pipe_out k p) addr (sint n) (pipes k (fpipe ff)) (Ret (ph k))) k
         | FD_DEVICE \<Rightarrow>
             (let mj = sint (fmajor ff)
              in if mj < 0 \<or> mj \<ge> 10 then KRet (-1) k
                 else case fst (dsw mj) of None \<Rightarrow> KRet (-1) k | Some rd \<Rightarrow> rd addr (sint n) k)
         | FD_INODE \<Rightarrow>
             kbind (on_fs (ilock pd (fip ff)) k) (\<lambda>_ k1.
             deref (fip ff) (\<lambda>ip.
             kbind (on_fs (readi (user_out k1 p) ip addr (foff ff) n (Ret (ph k1))) k1) (\<lambda>(r, m) k2.
             with_mem m k2 (\<lambda>k3.
               kbind (on_fs (iunlock pd (Some ip)) (if r > 0 then upd_file f (\<lambda>x. x\<lparr>foff := foff x + of_int r\<rparr>) k3 else k3)) (\<lambda>_ k4.
               KRet r k4)))))
         | FD_NONE \<Rightarrow> KPanic ''fileread'')"

text \<open>The chunk loop of \<open>filewrite\<close>: \<open>i\<close> of \<open>n\<close> bytes are written; the result is the final \<open>i\<close>.\<close>

function filewrite_loop :: "nat \<Rightarrow> nat \<Rightarrow> nat \<Rightarrow> u64 \<Rightarrow> nat \<Rightarrow> nat \<Rightarrow> kern \<Rightarrow> (kern, nat) kcall" where
  "filewrite_loop p f ip addr n i k =
     (if i < n
      then let n1 = min (n - i) 3072; pd = pid (procs k ! p)
           in kbind (on_fs fs_begin k) (\<lambda>_ k1.
              kbind (on_fs (ilock pd (Some ip)) k1) (\<lambda>_ k2.
              kbind (on_fs (writei (user_in k2 p) ip (addr + of_nat i) (foff (ftab k2 ! f)) (of_nat n1) (Ret (ph k2))) k2) (\<lambda>(r, m) k3.
              with_mem m k3 (\<lambda>k4.
              kbind (on_fs (iunlock pd (Some ip)) (if r > 0 then upd_file f (\<lambda>x. x\<lparr>foff := foff x + of_int r\<rparr>) k4 else k4)) (\<lambda>_ k5.
              kbind (on_fs fs_end k5) (\<lambda>_ k6.
              if r \<noteq> int n1 then KRet i k6
              else filewrite_loop p f ip addr n (i + n1) k6))))))
      else KRet i k)"
  by pat_completeness auto
termination by (relation "measure (\<lambda>(p, f, ip, addr, n, i, k). n - i)") auto

definition filewrite :: "devsw \<Rightarrow> nat \<Rightarrow> nat \<Rightarrow> u64 \<Rightarrow> u32 \<Rightarrow> kern \<Rightarrow> (kern, int) kcall" where
  "filewrite dsw p f addr n k =
     (let ff = ftab k ! f
      in if \<not> writable ff then KRet (-1) k
         else case fty ff of
           FD_PIPE \<Rightarrow>
             after_pipe p (fpipe ff) (pipewrite (\<lambda>_. killed p k) (pipe_in k p) addr (sint n) (pipes k (fpipe ff)) (Ret (ph k))) k
         | FD_DEVICE \<Rightarrow>
             (let mj = sint (fmajor ff)
              in if mj < 0 \<or> mj \<ge> 10 then KRet (-1) k
                 else case snd (dsw mj) of None \<Rightarrow> KRet (-1) k | Some wr \<Rightarrow> wr addr (sint n) k)
         | FD_INODE \<Rightarrow>
             (if sint n \<le> 0 then KRet (if sint n = 0 then 0 else -1) k
              else deref (fip ff) (\<lambda>ip.
                kbind (filewrite_loop p f ip addr (nat (sint n)) 0 k) (\<lambda>i k1.
                KRet (if int i = sint n then sint n else -1) k1)))
         | FD_NONE \<Rightarrow> KPanic ''filewrite'')"

section \<open>Pipes as files\<close>

definition open_pipe :: "u64 \<Rightarrow> bool \<Rightarrow> kfile \<Rightarrow> kfile" where
  "open_pipe a w x = x\<lparr>fty := FD_PIPE, readable := \<not> w, writable := w, fpipe := a\<rparr>"

text \<open>\<open>struct pipe\<close> keeps its data 24 bytes into the page.\<close>

definition pipealloc :: "nat \<Rightarrow> kern \<Rightarrow> (kern, (nat \<times> nat) option) kcall" where
  "pipealloc p k =
     (case filealloc k of
        (None, k1) \<Rightarrow> KRet None k1
      | (Some f0, k1) \<Rightarrow>
          (case filealloc k1 of
             (None, k2) \<Rightarrow> kbind (fileclose p f0 k2) (\<lambda>_ k3. KRet None k3)
           | (Some f1, k2) \<Rightarrow>
               (case kalloc (ph k2) of (a, s) \<Rightarrow>
                  let k3 = k2\<lparr>ph := s\<rparr>
                  in if a = 0
                     then kbind (fileclose p f0 k3) (\<lambda>_ k4.
                          kbind (fileclose p f1 k4) (\<lambda>_ k5. KRet None k5))
                     else KRet (Some (f0, f1)) (upd_file f1 (open_pipe a True) (upd_file f0 (open_pipe a False)
                            (k3\<lparr>pipes := (pipes k3)(a := pipe_init (rd_bytes (pmem s) (a + 24) 512))\<rparr>))))))"

end
