(* ===== verification/Sysfile.thy ===== *)
theory Sysfile
  imports File
begin

text \<open>
  \<^verbatim>\<open>kernel/sysfile.c\<close>: the system calls on files and directories (\<open>sys_exec\<close> is with
  \<open>kexec\<close>). The part of a call between \<open>begin_op\<close> and \<open>end_op\<close> that only touches the file
  system is an operation on its state.
\<close>

section \<open>File descriptors\<close>

definition argfd :: "nat \<Rightarrow> nat \<Rightarrow> kern \<Rightarrow> (kern, (nat \<times> nat) option) kcall" where
  "argfd p n k =
     kbind (argint p n k) (\<lambda>fd k1.
       if sint fd < 0 \<or> sint fd \<ge> int NOFILE then KRet None k1
       else case ofile (procs k1 ! p) ! unat fd of None \<Rightarrow> KRet None k1 | Some f \<Rightarrow> KRet (Some (unat fd, f)) k1)"

fun free_fd :: "'a option list \<Rightarrow> nat \<Rightarrow> nat option" where
  "free_fd [] i = None"
| "free_fd (x # xs) i = (if x = None then Some i else free_fd xs (Suc i))"

definition fdalloc :: "nat \<Rightarrow> nat \<Rightarrow> kern \<Rightarrow> nat option \<times> kern" where
  "fdalloc p f k =
     (case free_fd (ofile (procs k ! p)) 0 of
        None \<Rightarrow> (None, k)
      | Some fd \<Rightarrow> (Some fd, upd_proc p (\<lambda>x. x\<lparr>ofile := (ofile x)[fd := Some f]\<rparr>) k))"

definition sys_dup :: "nat \<Rightarrow> kern \<Rightarrow> (kern, int) kcall" where
  "sys_dup p k =
     kbind (argfd p 0 k) (\<lambda>r k1.
       case r of None \<Rightarrow> KRet (-1) k1
       | Some (_, f) \<Rightarrow>
           (case fdalloc p f k1 of
              (None, k2) \<Rightarrow> KRet (-1) k2
            | (Some fd, k2) \<Rightarrow> kbind (filedup f k2) (\<lambda>_ k3. KRet (int fd) k3)))"

definition sys_read :: "devsw \<Rightarrow> nat \<Rightarrow> kern \<Rightarrow> (kern, int) kcall" where
  "sys_read dsw p k =
     kbind (argaddr p 1 k) (\<lambda>a k1.
     kbind (argint p 2 k1) (\<lambda>n k2.
     kbind (argfd p 0 k2) (\<lambda>r k3.
       case r of None \<Rightarrow> KRet (-1) k3 | Some (_, f) \<Rightarrow> fileread dsw p f a n k3)))"

definition sys_write :: "devsw \<Rightarrow> nat \<Rightarrow> kern \<Rightarrow> (kern, int) kcall" where
  "sys_write dsw p k =
     kbind (argaddr p 1 k) (\<lambda>a k1.
     kbind (argint p 2 k1) (\<lambda>n k2.
     kbind (argfd p 0 k2) (\<lambda>r k3.
       case r of None \<Rightarrow> KRet (-1) k3 | Some (_, f) \<Rightarrow> filewrite dsw p f a n k3)))"

definition sys_close :: "nat \<Rightarrow> kern \<Rightarrow> (kern, int) kcall" where
  "sys_close p k =
     kbind (argfd p 0 k) (\<lambda>r k1.
       case r of None \<Rightarrow> KRet (-1) k1
       | Some (fd, f) \<Rightarrow>
           kbind (fileclose p f (upd_proc p (\<lambda>x. x\<lparr>ofile := (ofile x)[fd := None]\<rparr>) k1)) (\<lambda>_ k2. KRet 0 k2))"

definition sys_fstat :: "nat \<Rightarrow> kern \<Rightarrow> (kern, int) kcall" where
  "sys_fstat p k =
     kbind (argaddr p 1 k) (\<lambda>a k1.
     kbind (argfd p 0 k1) (\<lambda>r k2.
       case r of None \<Rightarrow> KRet (-1) k2 | Some (_, f) \<Rightarrow> filestat p f a k2))"

section \<open>Links\<close>

text \<open>Path names of a call start at the root or at the current directory.\<close>

definition absolute :: "u8 list \<Rightarrow> bool" where
  "absolute path \<longleftrightarrow> (case path of c # _ \<Rightarrow> c = 0x2F | [] \<Rightarrow> False)"

definition with_cwd :: "nat \<Rightarrow> u8 list list \<Rightarrow> kern \<Rightarrow> (nat \<Rightarrow> (kern, 'a) kcall) \<Rightarrow> (kern, 'a) kcall" where
  "with_cwd p paths k g = (if list_all absolute paths then g 0 else deref (cwd (procs k ! p)) g)"

definition add_link :: "int \<Rightarrow> nat \<Rightarrow> u16 \<Rightarrow> fsst \<Rightarrow> (fsst, unit) kcall" where
  "add_link pd ip d st = iupdate ip (upd_inode ip (\<lambda>x. x\<lparr>nlink := nlink x + d\<rparr>) st)"

text \<open>The label \<open>bad\<close> of \<open>sys_link\<close>.\<close>

definition link_bad :: "int \<Rightarrow> nat \<Rightarrow> fsst \<Rightarrow> (fsst, int) kcall" where
  "link_bad pd ip st =
     kbind (ilock pd (Some ip) st) (\<lambda>_ st1.
     kbind (add_link pd ip (-1) st1) (\<lambda>_ st2.
     kbind (iunlockput pd ip st2) (\<lambda>_ st3.
     kbind (fs_end st3) (\<lambda>_ st4. KRet (-1) st4))))"

definition link_op :: "int \<Rightarrow> nat \<Rightarrow> u8 list \<Rightarrow> u8 list \<Rightarrow> fsst \<Rightarrow> (fsst, int) kcall" where
  "link_op pd cw old new st =
     kbind (fs_begin st) (\<lambda>_ st1.
     kbind (namei pd cw old st1) (\<lambda>r st2.
       case r of
         None \<Rightarrow> kbind (fs_end st2) (\<lambda>_ st3. KRet (-1) st3)
       | Some ip \<Rightarrow>
           kbind (ilock pd (Some ip) st2) (\<lambda>_ st3.
           if itype (itab st3 ! ip) = T_DIR
           then kbind (iunlockput pd ip st3) (\<lambda>_ st4.
                kbind (fs_end st4) (\<lambda>_ st5. KRet (-1) st5))
           else kbind (add_link pd ip 1 st3) (\<lambda>_ st4.
                kbind (iunlock pd (Some ip) st4) (\<lambda>_ st5.
                kbind (nameiparent pd cw new st5) (\<lambda>d st6.
                case d of
                  None \<Rightarrow> link_bad pd ip st6
                | Some (dp, name) \<Rightarrow>
                    kbind (ilock pd (Some dp) st6) (\<lambda>_ st7.
                    kbind (if idev (itab st7 ! dp) \<noteq> idev (itab st7 ! ip) then KRet (-1) st7
                           else dirlink pd dp name (inum (itab st7 ! ip)) st7) (\<lambda>e st8.
                    kbind (iunlockput pd dp st8) (\<lambda>_ st9.
                    if e < 0 then link_bad pd ip st9
                    else kbind (iput pd ip st9) (\<lambda>_ st10.
                         kbind (fs_end st10) (\<lambda>_ st11. KRet 0 st11)))))))))))"

definition sys_link :: "nat \<Rightarrow> kern \<Rightarrow> (kern, int) kcall" where
  "sys_link p k =
     kbind (argstr p 0 128 k) (\<lambda>o1 k1.
       case o1 of None \<Rightarrow> KRet (-1) k1
       | Some old \<Rightarrow>
           kbind (argstr p 1 128 k1) (\<lambda>o2 k2.
             case o2 of None \<Rightarrow> KRet (-1) k2
             | Some new \<Rightarrow> with_cwd p [old, new] k2 (\<lambda>cw. on_fs (link_op (pid (procs k2 ! p)) cw old new) k2)))"

function isdirempty_loop :: "nat \<Rightarrow> nat \<Rightarrow> nat \<Rightarrow> fsst \<Rightarrow> (fsst, bool) kcall" where
  "isdirempty_loop dp sz off st =
     (if off < sz
      then kbind (read_dirent ''isdirempty: readi'' dp off st) (\<lambda>de st1.
           if de_inum de \<noteq> 0 then KRet False st1 else isdirempty_loop dp sz (off + 16) st1)
      else KRet True st)"
  by pat_completeness auto
termination by (relation "measure (\<lambda>(dp, sz, off, st). sz - off)") auto

definition isdirempty :: "nat \<Rightarrow> fsst \<Rightarrow> (fsst, bool) kcall" where
  "isdirempty dp st = isdirempty_loop dp (unat (isize (itab st ! dp))) 32 st"

definition unlink_bad :: "int \<Rightarrow> nat \<Rightarrow> fsst \<Rightarrow> (fsst, int) kcall" where
  "unlink_bad pd dp st =
     kbind (iunlockput pd dp st) (\<lambda>_ st1.
     kbind (fs_end st1) (\<lambda>_ st2. KRet (-1) st2))"

text \<open>The entry of \<open>ip\<close> at \<open>off\<close> in \<open>dp\<close> is erased and both link counts adjusted.\<close>

definition erase_entry :: "int \<Rightarrow> nat \<Rightarrow> nat \<Rightarrow> nat \<Rightarrow> fsst \<Rightarrow> (fsst, int) kcall" where
  "erase_entry pd dp ip off st =
     kbind (writei kcopyin dp 0 (of_nat off) 16 (replicate 16 0) st) (\<lambda>(w, _) st1.
       if w \<noteq> 16 then KPanic ''unlink: writei''
       else kbind (if itype (itab st1 ! ip) = T_DIR then add_link pd dp (-1) st1 else KRet () st1) (\<lambda>_ st2.
            kbind (iunlockput pd dp st2) (\<lambda>_ st3.
            kbind (add_link pd ip (-1) st3) (\<lambda>_ st4.
            kbind (iunlockput pd ip st4) (\<lambda>_ st5.
            kbind (fs_end st5) (\<lambda>_ st6. KRet 0 st6))))))"

definition unlink_op :: "int \<Rightarrow> nat \<Rightarrow> u8 list \<Rightarrow> fsst \<Rightarrow> (fsst, int) kcall" where
  "unlink_op pd cw path st =
     kbind (fs_begin st) (\<lambda>_ st1.
     kbind (nameiparent pd cw path st1) (\<lambda>r st2.
       case r of
         None \<Rightarrow> kbind (fs_end st2) (\<lambda>_ st3. KRet (-1) st3)
       | Some (dp, name) \<Rightarrow>
           kbind (ilock pd (Some dp) st2) (\<lambda>_ st3.
           if namecmp name [0x2E] = 0 \<or> namecmp name [0x2E, 0x2E] = 0 then unlink_bad pd dp st3
           else kbind (dirlookup dp name st3) (\<lambda>e st4.
                case e of
                  None \<Rightarrow> unlink_bad pd dp st4
                | Some (ip, off) \<Rightarrow>
                    kbind (ilock pd (Some ip) st4) (\<lambda>_ st5.
                    if sint (nlink (itab st5 ! ip)) < 1 then KPanic ''unlink: nlink < 1''
                    else kbind (if itype (itab st5 ! ip) = T_DIR then isdirempty ip st5 else KRet True st5) (\<lambda>em st6.
                         if \<not> em
                         then kbind (iunlockput pd ip st6) (\<lambda>_ st7. unlink_bad pd dp st7)
                         else erase_entry pd dp ip off st6))))))"

definition sys_unlink :: "nat \<Rightarrow> kern \<Rightarrow> (kern, int) kcall" where
  "sys_unlink p k =
     kbind (argstr p 0 128 k) (\<lambda>r k1.
       case r of None \<Rightarrow> KRet (-1) k1
       | Some path \<Rightarrow> with_cwd p [path] k1 (\<lambda>cw. on_fs (unlink_op (pid (procs k1 ! p)) cw path) k1))"

section \<open>Creating and opening\<close>

definition create_fail :: "int \<Rightarrow> nat \<Rightarrow> nat \<Rightarrow> fsst \<Rightarrow> (fsst, nat option) kcall" where
  "create_fail pd dp ip st =
     kbind (iupdate ip (upd_inode ip (\<lambda>x. x\<lparr>nlink := 0\<rparr>) st)) (\<lambda>_ st1.
     kbind (iunlockput pd ip st1) (\<lambda>_ st2.
     kbind (iunlockput pd dp st2) (\<lambda>_ st3. KRet None st3)))"

text \<open>The entries \<open>.\<close> and \<open>..\<close> of a new directory, then its entry in the parent; \<open>-1\<close> on failure.\<close>

definition create_links :: "int \<Rightarrow> nat \<Rightarrow> nat \<Rightarrow> u8 list \<Rightarrow> u16 \<Rightarrow> fsst \<Rightarrow> (fsst, int) kcall" where
  "create_links pd dp ip name ty st =
     kbind (if ty = T_DIR
            then kbind (dirlink pd ip [0x2E] (inum (itab st ! ip)) st) (\<lambda>e st1.
                 if e < 0 then KRet e st1
                 else dirlink pd ip [0x2E, 0x2E] (inum (itab st1 ! dp)) st1)
            else KRet 0 st) (\<lambda>e st2.
     if e < 0 then KRet (-1) st2
     else dirlink pd dp name (inum (itab st2 ! ip)) st2)"

definition create :: "int \<Rightarrow> nat \<Rightarrow> u8 list \<Rightarrow> u16 \<Rightarrow> u16 \<Rightarrow> u16 \<Rightarrow> fsst \<Rightarrow> (fsst, nat option) kcall" where
  "create pd cw path ty maj mnr st =
     kbind (nameiparent pd cw path st) (\<lambda>r st1.
       case r of None \<Rightarrow> KRet None st1
       | Some (dp, name) \<Rightarrow>
           kbind (ilock pd (Some dp) st1) (\<lambda>_ st2.
           kbind (dirlookup dp name st2) (\<lambda>e st3.
           case e of
             Some (ip, _) \<Rightarrow>
               kbind (iunlockput pd dp st3) (\<lambda>_ st4.
               kbind (ilock pd (Some ip) st4) (\<lambda>_ st5.
               if ty = T_FILE \<and> (itype (itab st5 ! ip) = T_FILE \<or> itype (itab st5 ! ip) = T_DEVICE)
               then KRet (Some ip) st5
               else kbind (iunlockput pd ip st5) (\<lambda>_ st6. KRet None st6)))
           | None \<Rightarrow>
               kbind (ialloc ty st3) (\<lambda>io st4.
               case io of
                 None \<Rightarrow> kbind (iunlockput pd dp st4) (\<lambda>_ st5. KRet None st5)
               | Some ip \<Rightarrow>
                   kbind (ilock pd (Some ip) st4) (\<lambda>_ st5.
                   kbind (iupdate ip (upd_inode ip (\<lambda>x. x\<lparr>imajor := maj, iminor := mnr, nlink := 1\<rparr>) st5)) (\<lambda>_ st6.
                   kbind (create_links pd dp ip name ty st6) (\<lambda>l st7.
                   if l < 0 then create_fail pd dp ip st7
                   else kbind (if ty = T_DIR then add_link pd dp 1 st7 else KRet () st7) (\<lambda>_ st8.
                        kbind (iunlockput pd dp st8) (\<lambda>_ st9. KRet (Some ip) st9)))))))))"

abbreviation (input) O_WRONLY :: u32 where "O_WRONLY \<equiv> 1"
abbreviation (input) O_RDWR :: u32 where "O_RDWR \<equiv> 2"
abbreviation (input) O_CREATE :: u32 where "O_CREATE \<equiv> 0x200"
abbreviation (input) O_TRUNC :: u32 where "O_TRUNC \<equiv> 0x400"

text \<open>The first half of \<open>sys_open\<close>: the locked inode to open, or \<open>None\<close> after \<open>end_op\<close>.\<close>

definition open_inode :: "int \<Rightarrow> nat \<Rightarrow> u8 list \<Rightarrow> u32 \<Rightarrow> fsst \<Rightarrow> (fsst, nat option) kcall" where
  "open_inode pd cw path omode st =
     kbind (fs_begin st) (\<lambda>_ st1.
     kbind (if omode AND O_CREATE \<noteq> 0
            then kbind (create pd cw path T_FILE 0 0 st1) (\<lambda>r st2.
                 if r = None then kbind (fs_end st2) (\<lambda>_ st3. KRet None st3) else KRet r st2)
            else kbind (namei pd cw path st1) (\<lambda>r st2.
                 case r of
                   None \<Rightarrow> kbind (fs_end st2) (\<lambda>_ st3. KRet None st3)
                 | Some ip \<Rightarrow>
                     kbind (ilock pd (Some ip) st2) (\<lambda>_ st3.
                     if itype (itab st3 ! ip) = T_DIR \<and> omode \<noteq> 0
                     then kbind (iunlockput pd ip st3) (\<lambda>_ st4.
                          kbind (fs_end st4) (\<lambda>_ st5. KRet None st5))
                     else KRet (Some ip) st3))) (\<lambda>r st6.
     case r of None \<Rightarrow> KRet None st6
     | Some ip \<Rightarrow>
         let x = itab st6 ! ip
         in if itype x = T_DEVICE \<and> (sint (imajor x) < 0 \<or> sint (imajor x) \<ge> 10)
            then kbind (iunlockput pd ip st6) (\<lambda>_ st7.
                 kbind (fs_end st7) (\<lambda>_ st8. KRet None st8))
            else KRet (Some ip) st6))"

definition open_file :: "inode \<Rightarrow> nat \<Rightarrow> u32 \<Rightarrow> kfile \<Rightarrow> kfile" where
  "open_file x ip omode f =
     (if itype x = T_DEVICE then f\<lparr>fty := FD_DEVICE, fmajor := imajor x\<rparr> else f\<lparr>fty := FD_INODE, foff := 0\<rparr>)
       \<lparr>fip := Some ip, readable := (omode AND O_WRONLY = 0),
        writable := (omode AND O_WRONLY \<noteq> 0 \<or> omode AND O_RDWR \<noteq> 0)\<rparr>"

definition open_undo :: "int \<Rightarrow> nat \<Rightarrow> kern \<Rightarrow> (kern, int) kcall" where
  "open_undo pd ip k =
     kbind (on_fs (iunlockput pd ip) k) (\<lambda>_ k1.
     kbind (on_fs fs_end k1) (\<lambda>_ k2. KRet (-1) k2))"

definition sys_open :: "nat \<Rightarrow> kern \<Rightarrow> (kern, int) kcall" where
  "sys_open p k =
     kbind (argint p 1 k) (\<lambda>omode k1.
     kbind (argstr p 0 128 k1) (\<lambda>po k2.
       case po of None \<Rightarrow> KRet (-1) k2
       | Some path \<Rightarrow>
           with_cwd p [path] k2 (\<lambda>cw.
             let pd = pid (procs k2 ! p)
             in kbind (on_fs (open_inode pd cw path omode) k2) (\<lambda>r k3.
                case r of None \<Rightarrow> KRet (-1) k3
                | Some ip \<Rightarrow>
                    (case filealloc k3 of
                       (None, k4) \<Rightarrow> open_undo pd ip k4
                     | (Some f, k4) \<Rightarrow>
                         (case fdalloc p f k4 of
                            (None, k5) \<Rightarrow> kbind (fileclose p f k5) (\<lambda>_ k6. open_undo pd ip k6)
                          | (Some fd, k5) \<Rightarrow>
                              let x = itab (fs k5) ! ip; k6 = upd_file f (open_file x ip omode) k5
                              in kbind (if omode AND O_TRUNC \<noteq> 0 \<and> itype x = T_FILE then on_fs (itrunc ip) k6 else KRet () k6) (\<lambda>_ k7.
                                 kbind (on_fs (iunlock pd (Some ip)) k7) (\<lambda>_ k8.
                                 kbind (on_fs fs_end k8) (\<lambda>_ k9. KRet (int fd) k9)))))))))"

text \<open>\<open>mkdir\<close> and \<open>mknod\<close>: \<open>begin_op\<close> comes before the path is fetched.\<close>

definition make_node :: "nat \<Rightarrow> u16 \<Rightarrow> u16 \<Rightarrow> u16 \<Rightarrow> kern \<Rightarrow> (kern, int) kcall" where
  "make_node p ty maj mnr k =
     kbind (argstr p 0 128 k) (\<lambda>po k1.
       case po of None \<Rightarrow> kbind (on_fs fs_end k1) (\<lambda>_ k2. KRet (-1) k2)
       | Some path \<Rightarrow>
           with_cwd p [path] k1 (\<lambda>cw.
             let pd = pid (procs k1 ! p)
             in kbind (on_fs (create pd cw path ty maj mnr) k1) (\<lambda>r k2.
                case r of None \<Rightarrow> kbind (on_fs fs_end k2) (\<lambda>_ k3. KRet (-1) k3)
                | Some ip \<Rightarrow>
                    kbind (on_fs (iunlockput pd ip) k2) (\<lambda>_ k3.
                    kbind (on_fs fs_end k3) (\<lambda>_ k4. KRet 0 k4)))))"

definition sys_mkdir :: "nat \<Rightarrow> kern \<Rightarrow> (kern, int) kcall" where
  "sys_mkdir p k = kbind (on_fs fs_begin k) (\<lambda>_ k1. make_node p T_DIR 0 0 k1)"

definition sys_mknod :: "nat \<Rightarrow> kern \<Rightarrow> (kern, int) kcall" where
  "sys_mknod p k =
     kbind (on_fs fs_begin k) (\<lambda>_ k1.
     kbind (argint p 1 k1) (\<lambda>maj k2.
     kbind (argint p 2 k2) (\<lambda>mnr k3. make_node p T_DEVICE (ucast maj) (ucast mnr) k3)))"

definition sys_chdir :: "nat \<Rightarrow> kern \<Rightarrow> (kern, int) kcall" where
  "sys_chdir p k =
     kbind (on_fs fs_begin k) (\<lambda>_ k1.
     kbind (argstr p 0 128 k1) (\<lambda>po k2.
       case po of None \<Rightarrow> kbind (on_fs fs_end k2) (\<lambda>_ k3. KRet (-1) k3)
       | Some path \<Rightarrow>
           with_cwd p [path] k2 (\<lambda>cw.
             let pd = pid (procs k2 ! p)
             in kbind (on_fs (namei pd cw path) k2) (\<lambda>r k3.
                case r of None \<Rightarrow> kbind (on_fs fs_end k3) (\<lambda>_ k4. KRet (-1) k4)
                | Some ip \<Rightarrow>
                    kbind (on_fs (ilock pd (Some ip)) k3) (\<lambda>_ k4.
                    if itype (itab (fs k4) ! ip) \<noteq> T_DIR
                    then open_undo pd ip k4
                    else kbind (on_fs (iunlock pd (Some ip)) k4) (\<lambda>_ k5.
                         kbind (deref (cwd (procs k5 ! p)) (\<lambda>c. on_fs (iput pd c) k5)) (\<lambda>_ k6.
                         kbind (on_fs fs_end k6) (\<lambda>_ k7.
                         KRet 0 (upd_proc p (\<lambda>x. x\<lparr>cwd := Some ip\<rparr>) k7)))))))))"

section \<open>Pipes\<close>

definition close_both :: "nat \<Rightarrow> nat \<Rightarrow> nat \<Rightarrow> kern \<Rightarrow> (kern, int) kcall" where
  "close_both p rf wfl k =
     kbind (fileclose p rf k) (\<lambda>_ k1.
     kbind (fileclose p wfl k1) (\<lambda>_ k2. KRet (-1) k2))"

definition clear_fd :: "nat \<Rightarrow> nat \<Rightarrow> kern \<Rightarrow> kern" where
  "clear_fd p fd k = upd_proc p (\<lambda>x. x\<lparr>ofile := (ofile x)[fd := None]\<rparr>) k"

definition sys_pipe :: "nat \<Rightarrow> kern \<Rightarrow> (kern, int) kcall" where
  "sys_pipe p k =
     kbind (argaddr p 0 k) (\<lambda>fdarray k1.
     kbind (pipealloc p k1) (\<lambda>r k2.
       case r of None \<Rightarrow> KRet (-1) k2
       | Some (rf, wfl) \<Rightarrow>
           (case fdalloc p rf k2 of
              (None, k3) \<Rightarrow> close_both p rf wfl k3
            | (Some fd0, k3) \<Rightarrow>
                (case fdalloc p wfl k3 of
                   (None, k4) \<Rightarrow> close_both p rf wfl (clear_fd p fd0 k4)
                 | (Some fd1, k4) \<Rightarrow>
                     kbind (copyout_obj p fdarray (bytes_of 4 (of_nat fd0 :: u32)) k4) (\<lambda>ok0 k5.
                     kbind (if ok0 then copyout_obj p (fdarray + 4) (bytes_of 4 (of_nat fd1 :: u32)) k5 else KRet False k5) (\<lambda>ok1 k6.
                     if \<not> ok1 then close_both p rf wfl (clear_fd p fd1 (clear_fd p fd0 k6))
                     else KRet 0 k6))))))"

end
