(* ===== verification/Proc.thy ===== *)
theory Proc
  imports File
begin

text \<open>
  \<^verbatim>\<open>kernel/proc.c\<close>: the process table, creation and exit of processes, waiting, scheduling,
  and the memory mapping calls. \<open>trampoline\<close> and \<open>forkret\<close> are addresses the linker fixes; they
  are arguments.
\<close>

section \<open>Definitions\<close>

abbreviation (input) MAX_MMAPS :: nat where "MAX_MMAPS \<equiv> 16"

definition procinit :: "kern \<Rightarrow> kern" where
  "procinit k = k\<lparr>procs := map (\<lambda>(i, x). x\<lparr>pstate := UNUSED, kstack := KSTACK i\<rparr>) (enumerate 0 (procs k))\<rparr>"

definition allocpid :: "kern \<Rightarrow> int \<times> kern" where
  "allocpid k = (nextpid k, k\<lparr>nextpid := nextpid k + 1\<rparr>)"

definition proc_pagetable :: "u64 \<Rightarrow> nat \<Rightarrow> kern \<Rightarrow> (kern, u64) kcall" where
  "proc_pagetable trampoline p k =
     (case uvmcreate (ph k) of (pt, s) \<Rightarrow>
        let k1 = k\<lparr>ph := s\<rparr>
        in if pt = 0 then KRet 0 k1
           else kbind (on_ph (mappages pt TRAMPOLINE PGSIZE trampoline (PTE_R OR PTE_X)) k1) (\<lambda>r k2.
                if r < 0 then kbind (on_ph_loop (uvmfree pt 0) k2) (\<lambda>_ k3. KRet 0 k3)
                else kbind (on_ph (mappages pt TRAPFRAME PGSIZE (trapframe (procs k2 ! p)) (PTE_R OR PTE_W)) k2) (\<lambda>r2 k3.
                     if r2 < 0
                     then kbind (on_ph (\<lambda>s. ret_unit (uvmunmap pt TRAMPOLINE 1 False s)) k3) (\<lambda>_ k4.
                          kbind (on_ph_loop (uvmfree pt 0) k4) (\<lambda>_ k5. KRet 0 k5))
                     else KRet pt k3)))"

definition proc_freepagetable :: "u64 \<Rightarrow> u64 \<Rightarrow> kern \<Rightarrow> (kern, unit) kcall" where
  "proc_freepagetable pt sz k =
     kbind (on_ph (\<lambda>s. ret_unit (uvmunmap pt TRAMPOLINE 1 False s)) k) (\<lambda>_ k1.
     kbind (on_ph (\<lambda>s. ret_unit (uvmunmap pt TRAPFRAME 1 False s)) k1) (\<lambda>_ k2.
     on_ph_loop (uvmfree pt sz) k2))"

text \<open>The assignments of \<open>freeproc\<close> after the memory is gone. \<open>nice\<close>, \<open>priority\<close> and \<open>ofile\<close> stay.\<close>

definition reset_proc :: "proc \<Rightarrow> proc" where
  "reset_proc x = x\<lparr>trapframe := 0, pagetable := 0, psz := 0, pid := 0, parent := None, pname := [], pchan := None,
     pkilled := False, xstate := 0, traced := False, tracing := False,
     mmaps := map (\<lambda>m. m\<lparr>mused := False\<rparr>) (mmaps x), pstate := UNUSED, syscall_count := 0\<rparr>"

definition freeproc :: "nat \<Rightarrow> kern \<Rightarrow> (kern, unit) kcall" where
  "freeproc p k =
     kbind (if trapframe (procs k ! p) \<noteq> 0 then on_ph (\<lambda>s. ret_unit (kfree (trapframe (procs k ! p)) s)) k else KRet () k) (\<lambda>_ k1.
     kbind (let x = procs k1 ! p in if pagetable x \<noteq> 0 then proc_freepagetable (pagetable x) (psz x) k1 else KRet () k1) (\<lambda>_ k2.
     KRet () (upd_proc p reset_proc k2)))"

fun unused_slot :: "proc list \<Rightarrow> nat \<Rightarrow> nat option" where
  "unused_slot [] i = None"
| "unused_slot (x # xs) i = (if pstate x = UNUSED then Some i else unused_slot xs (Suc i))"

text \<open>
  \<open>allocproc\<close>. With a full table the code also stores \<open>nice\<close> and \<open>priority\<close> behind the end of the
  table, in memory that is not part of this state; the slot it does return keeps the values of its
  previous owner.
\<close>

definition allocproc :: "u64 \<Rightarrow> u64 \<Rightarrow> kern \<Rightarrow> (kern, nat option) kcall" where
  "allocproc trampoline forkret k =
     (case unused_slot (procs k) 0 of
        None \<Rightarrow> KRet None k
      | Some p \<Rightarrow>
          (case allocpid k of (i, k1) \<Rightarrow>
             let k2 = upd_proc p (\<lambda>x. x\<lparr>pid := i, pstate := USED, mmaps := map (\<lambda>m. m\<lparr>mused := False\<rparr>) (mmaps x)\<rparr>) k1
             in case kalloc (ph k2) of (tf, s) \<Rightarrow>
                  let k3 = upd_proc p (\<lambda>x. x\<lparr>trapframe := tf\<rparr>) (k2\<lparr>ph := s\<rparr>)
                  in if tf = 0 then kbind (freeproc p k3) (\<lambda>_ k4. KRet None k4)
                     else kbind (proc_pagetable trampoline p k3) (\<lambda>pt k4.
                          let k5 = upd_proc p (\<lambda>x. x\<lparr>pagetable := pt\<rparr>) k4
                          in if pt = 0 then kbind (freeproc p k5) (\<lambda>_ k6. KRet None k6)
                             else KRet (Some p) (upd_proc p (\<lambda>x. x\<lparr>ctx_ra := forkret, ctx_sp := kstack x + PGSIZE\<rparr>) k5))))"

text \<open>\<open>userinit\<close>: a failed \<open>allocproc\<close> would be a null dereference.\<close>

definition userinit :: "u64 \<Rightarrow> u64 \<Rightarrow> kern \<Rightarrow> (kern, unit) kcall" where
  "userinit trampoline forkret k =
     kbind (allocproc trampoline forkret k) (\<lambda>r k1.
       let k2 = k1\<lparr>initproc := r\<rparr>
       in deref r (\<lambda>p.
          kbind (on_fs (namei (pid (procs k2 ! p)) 0 [0x2F]) k2) (\<lambda>ip k3.
          KRet () (upd_proc p (\<lambda>x. x\<lparr>cwd := ip, pstate := RUNNABLE\<rparr>) k3))))"

definition growproc :: "nat \<Rightarrow> u32 \<Rightarrow> kern \<Rightarrow> (kern, int) kcall" where
  "growproc p n k =
     (let x = procs k ! p; sz = psz x
      in if sint n > 0
         then kbind (on_ph (uvmalloc (pagetable x) sz (sz + scast n) PTE_W) k) (\<lambda>nsz k1.
              if nsz = 0 then KRet (-1) k1
              else KRet 0 (upd_proc p (\<lambda>x. x\<lparr>psz := nsz\<rparr>) k1))
         else if sint n < 0
         then kbind (on_ph (uvmdealloc (pagetable x) sz (sz + scast n)) k) (\<lambda>nsz k1.
              KRet 0 (upd_proc p (\<lambda>x. x\<lparr>psz := nsz\<rparr>) k1))
         else KRet 0 k)"

text \<open>The loop of \<open>kfork\<close> over the descriptors, from \<open>i\<close> with \<open>n\<close> left.\<close>

fun dup_files :: "nat \<Rightarrow> nat \<Rightarrow> nat \<Rightarrow> nat \<Rightarrow> kern \<Rightarrow> (kern, unit) kcall" where
  "dup_files p np i 0 k = KRet () k"
| "dup_files p np i (Suc n) k =
     (case ofile (procs k ! p) ! i of
        None \<Rightarrow> dup_files p np (Suc i) n k
      | Some f \<Rightarrow>
          kbind (filedup f k) (\<lambda>f1 k1.
          dup_files p np (Suc i) n (upd_proc np (\<lambda>x. x\<lparr>ofile := (ofile x)[i := Some f1]\<rparr>) k1)))"

definition copy_trapframe :: "nat \<Rightarrow> nat \<Rightarrow> kern \<Rightarrow> kern" where
  "copy_trapframe p np k =
     k\<lparr>ph := (ph k)\<lparr>pmem := wr_bytes (pmem (ph k)) (trapframe (procs k ! np)) (rd_bytes (pmem (ph k)) (trapframe (procs k ! p)) 288)\<rparr>\<rparr>"

definition kfork :: "u64 \<Rightarrow> u64 \<Rightarrow> nat \<Rightarrow> kern \<Rightarrow> (kern, int) kcall" where
  "kfork trampoline forkret p k =
     kbind (allocproc trampoline forkret k) (\<lambda>r k1.
       case r of None \<Rightarrow> KRet (-1) k1
       | Some np \<Rightarrow>
           let x = procs k1 ! p
           in kbind (on_ph (uvmcopy (pagetable x) (pagetable (procs k1 ! np)) (psz x)) k1) (\<lambda>c k2.
              if c < 0 then kbind (freeproc np k2) (\<lambda>_ k3. KRet (-1) k3)
              else let k3 = upd_proc np (\<lambda>y. y\<lparr>psz := psz x\<rparr>) k2;
                       k4 = set_tf_reg np 112 0 (copy_trapframe p np k3)
                   in kbind (dup_files p np 0 NOFILE k4) (\<lambda>_ k5.
                      deref (cwd (procs k5 ! p)) (\<lambda>c.
                      kbind (on_fs (idup c) k5) (\<lambda>c1 k6.
                      let q = procs k6 ! p;
                          k7 = upd_proc np (\<lambda>y. y\<lparr>cwd := Some c1, pname := take 15 (pname q), traced := traced q,
                                 parent := Some p, pstate := RUNNABLE\<rparr>) k6
                      in KRet (pid (procs k7 ! np)) k7)))))"

text \<open>\<open>reparent\<close> from slot \<open>i\<close> with \<open>n\<close> slots left.\<close>

fun reparent_loop :: "nat \<Rightarrow> nat \<Rightarrow> nat \<Rightarrow> kern \<Rightarrow> kern" where
  "reparent_loop p i 0 k = k"
| "reparent_loop p i (Suc n) k =
     reparent_loop p (Suc i) n
       (if parent (procs k ! i) = Some p
        then let k1 = upd_proc i (\<lambda>x. x\<lparr>parent := initproc k\<rparr>) k
             in case initproc k of None \<Rightarrow> k1 | Some q \<Rightarrow> wakeup (Some p) (Ch_proc q) k1
        else k)"

definition reparent :: "nat \<Rightarrow> kern \<Rightarrow> kern" where
  "reparent p k = reparent_loop p 0 (length (procs k)) k"

fun close_files :: "nat \<Rightarrow> nat \<Rightarrow> nat \<Rightarrow> kern \<Rightarrow> (kern, unit) kcall" where
  "close_files p fd 0 k = KRet () k"
| "close_files p fd (Suc n) k =
     (case ofile (procs k ! p) ! fd of
        None \<Rightarrow> close_files p (Suc fd) n k
      | Some f \<Rightarrow>
          kbind (fileclose p f k) (\<lambda>_ k1.
          close_files p (Suc fd) n (upd_proc p (\<lambda>x. x\<lparr>ofile := (ofile x)[fd := None]\<rparr>) k1)))"

text \<open>\<open>kexit\<close> never returns: its result is the state in which the scheduler takes over.\<close>

definition kexit :: "nat \<Rightarrow> u32 \<Rightarrow> kern \<Rightarrow> (kern, 'a) kcall" where
  "kexit p status k =
     (if Some p = initproc k then KPanic ''init exiting''
      else kbind (close_files p 0 NOFILE k) (\<lambda>_ k1.
           kbind (on_fs fs_begin k1) (\<lambda>_ k2.
           kbind (deref (cwd (procs k2 ! p)) (\<lambda>c. on_fs (iput (pid (procs k2 ! p)) c) k2)) (\<lambda>_ k3.
           kbind (on_fs fs_end k3) (\<lambda>_ k4.
           let k5 = reparent p (upd_proc p (\<lambda>x. x\<lparr>cwd := None\<rparr>) k4);
               k6 = (case parent (procs k5 ! p) of None \<Rightarrow> k5 | Some q \<Rightarrow> wakeup (Some p) (Ch_proc q) k5)
           in KSleep (upd_proc p (\<lambda>x. x\<lparr>xstate := status, pstate := ZOMBIE\<rparr>) k6))))))"

definition zombie_child :: "nat \<Rightarrow> kern \<Rightarrow> nat option" where
  "zombie_child p k =
     List.find (\<lambda>q. parent (procs k ! q) = Some p \<and> pstate (procs k ! q) = ZOMBIE) [0..<length (procs k)]"

definition has_child :: "nat \<Rightarrow> kern \<Rightarrow> bool" where
  "has_child p k = list_ex (\<lambda>x. parent x = Some p) (procs k)"

definition kwait :: "nat \<Rightarrow> u64 \<Rightarrow> kern \<Rightarrow> (kern, int) kcall" where
  "kwait p addr k =
     (case zombie_child p k of
        Some q \<Rightarrow>
          let i = pid (procs k ! q)
          in kbind (if addr \<noteq> 0 then copyout_obj p addr (bytes_of 4 (xstate (procs k ! q))) k else KRet True k) (\<lambda>ok k1.
             if \<not> ok then KRet (-1) k1
             else kbind (freeproc q k1) (\<lambda>_ k2. KRet i k2))
      | None \<Rightarrow>
          if \<not> has_child p k \<or> killed p k then KRet (-1) k else sleep_on p (Ch_proc p) k)"

definition wait2 :: "nat \<Rightarrow> u64 \<Rightarrow> u64 \<Rightarrow> kern \<Rightarrow> (kern, int) kcall" where
  "wait2 p ustatus usyscalls k =
     (case zombie_child p k of
        Some q \<Rightarrow>
          let i = pid (procs k ! q)
          in kbind (if ustatus \<noteq> 0 then copyout_obj p ustatus (bytes_of 4 (xstate (procs k ! q))) k else KRet True k) (\<lambda>ok k1.
             if \<not> ok then KRet (-1) k1
             else kbind (if usyscalls \<noteq> 0 then copyout_obj p usyscalls (bytes_of 4 (syscall_count (procs k1 ! q))) k1 else KRet True k1) (\<lambda>ok2 k2.
                  if \<not> ok2 then KRet (-1) k2
                  else kbind (freeproc q k2) (\<lambda>_ k3. KRet i k3)))
      | None \<Rightarrow>
          if \<not> has_child p k \<or> killed p k then KRet (-1) k else sleep_on p (Ch_proc p) k)"

section \<open>Scheduling\<close>

text \<open>
  One pass of the loop of \<open>scheduler\<close>. \<open>run p k\<close> is what happens from \<open>swtch\<close> into process \<open>p\<close>
  until the scheduler runs again; the list collects the processes dispatched, in order.
\<close>

definition maxprio :: "kern \<Rightarrow> int" where
  "maxprio k = fold (\<lambda>x m. if pstate x = RUNNABLE \<and> priority x > m then priority x else m) (procs k) 0"

fun sched_scan :: "(nat \<Rightarrow> kern \<Rightarrow> kern) \<Rightarrow> int \<Rightarrow> nat list \<Rightarrow> kern \<Rightarrow> nat list \<times> kern" where
  "sched_scan run target [] k = ([], k)"
| "sched_scan run target (q # qs) k =
     (if pstate (procs k ! q) \<noteq> RUNNABLE \<or> priority (procs k ! q) < target
      then sched_scan run target qs k
      else case sched_scan run target qs (run q (upd_proc q (\<lambda>x. x\<lparr>pstate := RUNNING\<rparr>) k)) of
             (ds, k1) \<Rightarrow> (q # ds, k1))"

fun sched_levels :: "(nat \<Rightarrow> kern \<Rightarrow> kern) \<Rightarrow> nat \<Rightarrow> kern \<Rightarrow> nat list \<times> kern" where
  "sched_levels run 0 k = sched_scan run 0 [0..<NPROC] k"
| "sched_levels run (Suc t) k =
     (case sched_scan run (int (Suc t)) [0..<NPROC] k of (ds, k1) \<Rightarrow>
        case sched_levels run t k1 of (es, k2) \<Rightarrow> (ds @ es, k2))"

definition scheduler_pass :: "(nat \<Rightarrow> kern \<Rightarrow> kern) \<Rightarrow> kern \<Rightarrow> nat list \<times> kern" where
  "scheduler_pass run k = sched_levels run (nat (maxprio k)) k"

text \<open>The checks of \<open>sched\<close> on the CPU \<open>c\<close>, the lock of the process held or not.\<close>

definition sched :: "bool \<Rightarrow> cpu \<Rightarrow> proc \<Rightarrow> unit outcome" where
  "sched hl c x =
     (if \<not> hl then Panic ''sched p->lock''
      else if noff c \<noteq> 1 then Panic ''sched locks''
      else if pstate x = RUNNING then Panic ''sched RUNNING''
      else if intr c then Panic ''sched interruptible''
      else Ret ())"

definition kyield :: "nat \<Rightarrow> kern \<Rightarrow> kern" where
  "kyield p k = upd_proc p (\<lambda>x. x\<lparr>pstate := RUNNABLE\<rparr>) k"

fun kill_scan :: "proc list \<Rightarrow> nat \<Rightarrow> int \<Rightarrow> nat option" where
  "kill_scan [] i n = None"
| "kill_scan (x # xs) i n = (if pid x = n then Some i else kill_scan xs (Suc i) n)"

definition kkill :: "int \<Rightarrow> kern \<Rightarrow> int \<times> kern" where
  "kkill n k =
     (case kill_scan (procs k) 0 n of
        None \<Rightarrow> (-1, k)
      | Some q \<Rightarrow> (0, upd_proc q (\<lambda>x. x\<lparr>pkilled := True, pstate := (if pstate x = SLEEPING then RUNNABLE else pstate x)\<rparr>) k))"

section \<open>Memory mappings\<close>

fun free_region :: "mmap_region list \<Rightarrow> nat \<Rightarrow> nat option" where
  "free_region [] i = None"
| "free_region (m # ms) i = (if \<not> mused m then Some i else free_region ms (Suc i))"

definition kmmap :: "nat \<Rightarrow> u64 \<Rightarrow> u32 \<Rightarrow> kern \<Rightarrow> (kern, u64) kcall" where
  "kmmap p addr0 len k =
     (if len \<noteq> 4096 then KRet (-1) k
      else let addr = (if addr0 = 0 then 0x40000000 else addr0)
           in case kalloc (ph k) of (mem, s) \<Rightarrow>
                let k1 = k\<lparr>ph := s\<rparr>
                in if mem = 0 then KRet (-1) k1
                   else kbind (on_ph (mappages (pagetable (procs k1 ! p)) addr PGSIZE mem (PTE_U OR PTE_R OR PTE_W)) k1) (\<lambda>r k2.
                        if r < 0 then kbind (on_ph (\<lambda>s. ret_unit (kfree mem s)) k2) (\<lambda>_ k3. KRet (-1) k3)
                        else let k3 = (case free_region (mmaps (procs k2 ! p)) 0 of
                                         None \<Rightarrow> k2
                                       | Some i \<Rightarrow> upd_proc p (\<lambda>x. x\<lparr>mmaps := (mmaps x)[i := (mmaps x ! i)\<lparr>mused := True, maddr := addr, mpa := mem\<rparr>]\<rparr>) k2);
                                 k4 = (if addr + PGSIZE > psz (procs k3 ! p) then upd_proc p (\<lambda>x. x\<lparr>psz := addr + PGSIZE\<rparr>) k3 else k3)
                             in KRet addr k4))"

fun find_region :: "mmap_region list \<Rightarrow> nat \<Rightarrow> u64 \<Rightarrow> nat option" where
  "find_region [] i a = None"
| "find_region (m # ms) i a = (if mused m \<and> maddr m = a then Some i else find_region ms (Suc i) a)"

definition kmunmap :: "nat \<Rightarrow> u64 \<Rightarrow> kern \<Rightarrow> (kern, u64) kcall" where
  "kmunmap p addr k =
     (case find_region (mmaps (procs k ! p)) 0 addr of
        None \<Rightarrow> KRet (-1) k
      | Some i \<Rightarrow>
          kbind (on_ph (\<lambda>s. ret_unit (uvmunmap (pagetable (procs k ! p)) addr 1 True s)) k) (\<lambda>_ k1.
          KRet 0 (upd_proc p (\<lambda>x. x\<lparr>mmaps := (mmaps x)[i := (mmaps x ! i)\<lparr>mused := False\<rparr>]\<rparr>) k1)))"

end
