(* ===== verification/Exec.thy ===== *)
theory Exec
  imports Proc
begin

text \<open>
  \<^verbatim>\<open>kernel/exec.c\<close> and \<open>sys_exec\<close> of \<^verbatim>\<open>kernel/sysfile.c\<close>: loading a program. A script that
  starts with \<open>#!\<close> makes \<open>kexec\<close> call itself with the interpreter, without a bound, so \<open>kexec\<close>
  is the least fixed point: \<open>None\<close> is a call that never returns.
\<close>

section \<open>Definitions\<close>

definition flags2perm :: "u32 \<Rightarrow> u64" where
  "flags2perm fl = (if fl AND 1 \<noteq> 0 then PTE_X else 0) OR (if fl AND 2 \<noteq> 0 then PTE_W else 0)"

record elfhdr =
  emagic :: u32
  entry :: u64
  phoff :: u64
  phnum :: u16

definition elfhdr_of :: "u8 list \<Rightarrow> elfhdr" where
  "elfhdr_of d = \<lparr>emagic = get_le 0 4 d, entry = get_le 24 8 d, phoff = get_le 32 8 d, phnum = get_le 56 2 d\<rparr>"

record proghdr =
  ptype :: u32
  pflags :: u32
  poff :: u64
  vaddr :: u64
  filesz :: u64
  memsz :: u64

definition proghdr_of :: "u8 list \<Rightarrow> proghdr" where
  "proghdr_of d = \<lparr>ptype = get_le 0 4 d, pflags = get_le 4 4 d, poff = get_le 8 8 d, vaddr = get_le 16 8 d,
     filesz = get_le 32 8 d, memsz = get_le 40 8 d\<rparr>"

text \<open>\<open>readi(ip, 0, &obj, off, n)\<close> into a kernel object of \<open>n\<close> bytes: \<open>None\<close> on a short read.\<close>

definition read_obj :: "nat \<Rightarrow> u32 \<Rightarrow> nat \<Rightarrow> kern \<Rightarrow> (kern, u8 list option) kcall" where
  "read_obj ip off n k =
     kbind (on_fs (readi kcopyout ip 0 off (of_nat n) (replicate n 0)) k) (\<lambda>(r, d) k1.
       KRet (if r = int n then Some d else None) k1)"

text \<open>The loop that reads the interpreter path, one byte at a time, \<open>n\<close> bytes of room left.\<close>

fun read_interp :: "nat \<Rightarrow> u32 \<Rightarrow> nat \<Rightarrow> u8 list \<Rightarrow> kern \<Rightarrow> (kern, u8 list) kcall" where
  "read_interp ip off 0 got k = KRet got k"
| "read_interp ip off (Suc n) got k =
     kbind (read_obj ip off 1 k) (\<lambda>r k1.
       case r of None \<Rightarrow> KRet got k1
       | Some d \<Rightarrow> if d ! 0 = 0x0A then KRet got k1 else read_interp ip (off + 1) n (got @ [d ! 0]) k1)"

definition blank_char :: "u8 \<Rightarrow> bool" where
  "blank_char c \<longleftrightarrow> c = 0x20 \<or> c = 0x09"

text \<open>\<open>newargv\<close>: the interpreter, the script, then the arguments after the first.\<close>

definition script_argv :: "u8 list \<Rightarrow> u8 list \<Rightarrow> u8 list list \<Rightarrow> u8 list list" where
  "script_argv interp path argv = take 31 (interp # path # drop 1 argv)"

definition phys_out :: "phys copyout" where
  "phys_out dst bs s = (True, s\<lparr>pmem := wr_bytes (pmem s) dst bs\<rparr>)"

text \<open>The loop of \<open>loadseg\<close>; \<open>i\<close> and \<open>sz\<close> are \<open>uint\<close>.\<close>

function loadseg_loop :: "u64 \<Rightarrow> u64 \<Rightarrow> nat \<Rightarrow> u32 \<Rightarrow> nat \<Rightarrow> nat \<Rightarrow> kern \<Rightarrow> (kern, int) kcall" where
  "loadseg_loop pt va ip off sz i k =
     (if i < sz
      then case walkaddr pt (va + of_nat i) (ph k) of
             Panic e \<Rightarrow> KPanic e
           | Ret pa \<Rightarrow>
               if pa = 0 then KPanic ''loadseg: address should exist''
               else let n = min (sz - i) 4096
                    in kbind (on_fs (readi phys_out ip pa (off + of_nat i) (of_nat n) (ph k)) k) (\<lambda>(r, s) k1.
                       if r \<noteq> int n then KRet (-1) (k1\<lparr>ph := s\<rparr>)
                       else loadseg_loop pt va ip off sz (i + 4096) (k1\<lparr>ph := s\<rparr>))
      else KRet 0 k)"
  by pat_completeness auto
termination by (relation "measure (\<lambda>(pt, va, ip, off, sz, i, k). sz - i)") auto

definition loadseg :: "u64 \<Rightarrow> u64 \<Rightarrow> nat \<Rightarrow> u32 \<Rightarrow> u32 \<Rightarrow> kern \<Rightarrow> (kern, int) kcall" where
  "loadseg pt va ip off sz k = loadseg_loop pt va ip off (unat sz) 0 k"

text \<open>The program header loop, \<open>n\<close> headers left: whether it succeeded, and \<open>sz\<close>.\<close>

fun load_segments :: "u64 \<Rightarrow> nat \<Rightarrow> u32 \<Rightarrow> nat \<Rightarrow> u64 \<Rightarrow> kern \<Rightarrow> (kern, bool \<times> u64) kcall" where
  "load_segments pt ip off 0 sz k = KRet (True, sz) k"
| "load_segments pt ip off (Suc n) sz k =
     kbind (read_obj ip off 56 k) (\<lambda>r k1.
       case r of None \<Rightarrow> KRet (False, sz) k1
       | Some d \<Rightarrow>
           let h = proghdr_of d
           in if ptype h \<noteq> 1 then load_segments pt ip (off + 56) n sz k1
              else if memsz h < filesz h \<or> vaddr h + memsz h < vaddr h \<or> vaddr h mod PGSIZE \<noteq> 0 then KRet (False, sz) k1
              else kbind (on_ph (uvmalloc pt sz (vaddr h + memsz h) (flags2perm (pflags h))) k1) (\<lambda>sz1 k2.
                   if sz1 = 0 then KRet (False, sz) k2
                   else kbind (loadseg pt (vaddr h) ip (ucast (poff h)) (ucast (filesz h)) k2) (\<lambda>e k3.
                        if e < 0 then KRet (False, sz1) k3
                        else load_segments pt ip (off + 56) n sz1 k3)))"

text \<open>\<open>copyout(pagetable, dst, bs, len)\<close> with the new page table, for the current process.\<close>

definition copyout_pt :: "nat \<Rightarrow> u64 \<Rightarrow> u64 \<Rightarrow> u8 list \<Rightarrow> kern \<Rightarrow> (kern, bool) kcall" where
  "copyout_pt p pt dst bs k =
     (let x = procs k ! p
      in kbind (on_ph (copyout (psz x) (pagetable x) pt dst (kbuf k) (of_nat (length bs)))
             (k\<lparr>ph := (ph k)\<lparr>pmem := wr_bytes (pmem (ph k)) (kbuf k) bs\<rparr>\<rparr>)) (\<lambda>r k1. KRet (r \<ge> 0) k1))"

text \<open>The argument strings: \<open>None\<close> on failure, else the stack pointer and \<open>ustack\<close>.\<close>

fun push_args :: "nat \<Rightarrow> u64 \<Rightarrow> u64 \<Rightarrow> nat \<Rightarrow> u64 \<Rightarrow> u64 list \<Rightarrow> u8 list list \<Rightarrow> kern \<Rightarrow> (kern, (u64 \<times> u64 list) option) kcall" where
  "push_args p pt base argc sp us [] k = KRet (Some (sp, us)) k"
| "push_args p pt base argc sp us (a # as) k =
     (if argc \<ge> 32 then KRet None k
      else let sp1 = sp - of_nat (length a + 1); sp2 = sp1 - sp1 mod 16
           in if sp2 < base then KRet None k
              else kbind (copyout_pt p pt sp2 (a @ [0]) k) (\<lambda>ok k1.
                   if \<not> ok then KRet None k1
                   else push_args p pt base (Suc argc) sp2 (us @ [sp2]) as k1))"

text \<open>The part of \<open>path\<close> after its last slash.\<close>

fun last_elem :: "u8 list \<Rightarrow> u8 list \<Rightarrow> u8 list" where
  "last_elem l [] = l"
| "last_elem l (c # cs) = (if c = 0x2F then last_elem cs cs else last_elem l cs)"

text \<open>The label \<open>bad\<close> of \<open>kexec\<close>.\<close>

definition exec_bad :: "nat \<Rightarrow> u64 \<Rightarrow> u64 \<Rightarrow> nat option \<Rightarrow> kern \<Rightarrow> (kern, int) kcall" where
  "exec_bad p pt sz ipo k =
     kbind (if pt \<noteq> 0 then proc_freepagetable pt sz k else KRet () k) (\<lambda>_ k1.
       case ipo of None \<Rightarrow> KRet (-1) k1
       | Some ip \<Rightarrow>
           kbind (on_fs (iunlockput (pid (procs k1 ! p)) ip) k1) (\<lambda>_ k2.
           kbind (on_fs fs_end k2) (\<lambda>_ k3. KRet (-1) k3)))"

text \<open>From the allocation of the stack to the switch to the new image.\<close>

definition exec_commit :: "nat \<Rightarrow> u64 \<Rightarrow> u64 \<Rightarrow> elfhdr \<Rightarrow> u8 list \<Rightarrow> u64 \<Rightarrow> u64 list \<Rightarrow> kern \<Rightarrow> (kern, int) kcall" where
  "exec_commit p pt sz elf path sp us k =
     (let k1 = set_tf_reg p 120 sp k; x = procs k1 ! p;
          k2 = upd_proc p (\<lambda>x. x\<lparr>pname := take 15 (last_elem path path), pagetable := pt, psz := sz\<rparr>) k1;
          k3 = set_tf_reg p 48 sp (set_tf_reg p 24 (entry elf) k2)
      in kbind (proc_freepagetable (pagetable x) (psz x) k3) (\<lambda>_ k4. KRet (int (length us)) k4))"

definition exec_stack :: "nat \<Rightarrow> u64 \<Rightarrow> u64 \<Rightarrow> elfhdr \<Rightarrow> u8 list \<Rightarrow> u8 list list \<Rightarrow> kern \<Rightarrow> (kern, int) kcall" where
  "exec_stack p pt sz0 elf path argv k =
     (let sz = PGROUNDUP sz0
      in kbind (on_ph (uvmalloc pt sz (sz + 2 * PGSIZE) PTE_W) k) (\<lambda>sz1 k1.
         if sz1 = 0 then exec_bad p pt sz None k1
         else kbind (on_ph (\<lambda>s. ret_unit (uvmclear pt (sz1 - 2 * PGSIZE) s)) k1) (\<lambda>_ k2.
              let base = sz1 - PGSIZE;
                  k3 = upd_proc p (\<lambda>x. x\<lparr>mmap_base := TRAPFRAME - PGSIZE, mmap_next := TRAPFRAME - PGSIZE\<rparr>) k2
              in kbind (push_args p pt base 0 sz1 [] argv k3) (\<lambda>r k4.
                 case r of None \<Rightarrow> exec_bad p pt sz1 None k4
                 | Some (sp, us) \<Rightarrow>
                     let sp1 = sp - of_nat (8 * (length us + 1)); sp2 = sp1 - sp1 mod 16
                     in if sp2 < base then exec_bad p pt sz1 None k4
                        else kbind (copyout_pt p pt sp2 (concat (map (bytes_of 8) (us @ [0]))) k4) (\<lambda>ok k5.
                             if \<not> ok then exec_bad p pt sz1 None k5
                             else exec_commit p pt sz1 elf path sp2 us k5)))))"

definition exec_elf :: "u64 \<Rightarrow> nat \<Rightarrow> nat \<Rightarrow> u8 list \<Rightarrow> u8 list list \<Rightarrow> kern \<Rightarrow> (kern, int) kcall" where
  "exec_elf trampoline p ip path argv k =
     kbind (read_obj ip 0 64 k) (\<lambda>r k1.
       case r of None \<Rightarrow> exec_bad p 0 0 (Some ip) k1
       | Some d \<Rightarrow>
           let elf = elfhdr_of d
           in if emagic elf \<noteq> 0x464C457F then exec_bad p 0 0 (Some ip) k1
              else kbind (proc_pagetable trampoline p k1) (\<lambda>pt k2.
                   if pt = 0 then exec_bad p 0 0 (Some ip) k2
                   else kbind (load_segments pt ip (ucast (phoff elf)) (unat (phnum elf)) 0 k2) (\<lambda>(ok, sz) k3.
                        if \<not> ok then exec_bad p pt sz (Some ip) k3
                        else kbind (on_fs (iunlockput (pid (procs k3 ! p)) ip) k3) (\<lambda>_ k4.
                             kbind (on_fs fs_end k4) (\<lambda>_ k5.
                             exec_stack p pt sz elf path argv k5)))))"

text \<open>One call of \<open>kexec\<close>: a result, or the recursive call for a script.\<close>

definition exec_once :: "u64 \<Rightarrow> nat \<Rightarrow> u8 list \<Rightarrow> u8 list list \<Rightarrow> kern \<Rightarrow> (kern, int + u8 list \<times> u8 list list) kcall" where
  "exec_once trampoline p path argv k =
     kbind (on_fs fs_begin k) (\<lambda>_ k1.
     (case path of [] \<Rightarrow> deref (cwd (procs k1 ! p)) | c # _ \<Rightarrow> if c = 0x2F then (\<lambda>g. g 0) else deref (cwd (procs k1 ! p))) (\<lambda>cw.
     kbind (on_fs (namei (pid (procs k1 ! p)) cw path) k1) (\<lambda>r k2.
       case r of
         None \<Rightarrow> kbind (on_fs fs_end k2) (\<lambda>_ k3. KRet (Inl (-1)) k3)
       | Some ip \<Rightarrow>
           kbind (on_fs (ilock (pid (procs k2 ! p)) (Some ip)) k2) (\<lambda>_ k3.
           kbind (read_obj ip 0 2 k3) (\<lambda>sh k4.
           if sh = Some [0x23, 0x21]
           then kbind (read_interp ip 2 127 [] k4) (\<lambda>got k5.
                let interp = dropWhile blank_char (takeWhile (\<lambda>c. c \<noteq> 0) got)
                in kbind (on_fs (iunlockput (pid (procs k5 ! p)) ip) k5) (\<lambda>_ k6.
                   kbind (on_fs fs_end k6) (\<lambda>_ k7.
                   KRet (Inr (interp, script_argv interp path argv)) k7)))
           else kbind (exec_elf trampoline p ip path argv k4) (\<lambda>e k5. KRet (Inl e) k5))))))"

partial_function (option) kexec :: "u64 \<Rightarrow> nat \<Rightarrow> u8 list \<Rightarrow> u8 list list \<Rightarrow> kern \<Rightarrow> (kern, int) kcall option" where
  "kexec trampoline p path argv k =
     (case exec_once trampoline p path argv k of
        KPanic e \<Rightarrow> Some (KPanic e)
      | KSleep k1 \<Rightarrow> Some (KSleep k1)
      | KRet r k1 \<Rightarrow>
          (case r of
             Inl e \<Rightarrow> Some (KRet e k1)
           | Inr (interp, newargv) \<Rightarrow> kexec trampoline p interp newargv k1))"

section \<open>The system call\<close>

text \<open>
  The argument loop of \<open>sys_exec\<close> from index \<open>i\<close> with \<open>n\<close> slots left: the pages allocated so far
  with their strings, and whether the list was complete.
\<close>

fun fetch_argv :: "nat \<Rightarrow> u64 \<Rightarrow> nat \<Rightarrow> nat \<Rightarrow> (u64 \<times> u8 list) list \<Rightarrow> kern \<Rightarrow> (kern, bool \<times> (u64 \<times> u8 list) list) kcall" where
  "fetch_argv p uargv i 0 acc k = KRet (False, acc) k"
| "fetch_argv p uargv i (Suc n) acc k =
     kbind (fetchaddr p (uargv + 8 * of_nat i) k) (\<lambda>ua k1.
       case ua of None \<Rightarrow> KRet (False, acc) k1
       | Some uarg \<Rightarrow>
           if uarg = 0 then KRet (True, acc) k1
           else (case kalloc (ph k1) of (pg, s) \<Rightarrow>
                   let k2 = k1\<lparr>ph := s\<rparr>
                   in if pg = 0 then KRet (False, acc) k2
                      else kbind (fetchstr p uarg pg 4096 k2) (\<lambda>r k3.
                           case r of None \<Rightarrow> KRet (False, acc @ [(pg, [])]) k3
                           | Some str \<Rightarrow> fetch_argv p uargv (Suc i) n (acc @ [(pg, str)]) k3)))"

fun free_argv :: "u64 list \<Rightarrow> kern \<Rightarrow> (kern, unit) kcall" where
  "free_argv [] k = KRet () k"
| "free_argv (a # as) k = kbind (on_ph (\<lambda>s. ret_unit (kfree a s)) k) (\<lambda>_ k1. free_argv as k1)"

definition sys_exec :: "u64 \<Rightarrow> nat \<Rightarrow> kern \<Rightarrow> (kern, int) kcall" where
  "sys_exec trampoline p k =
     kbind (argaddr p 1 k) (\<lambda>uargv k1.
     kbind (argstr p 0 128 k1) (\<lambda>po k2.
       case po of None \<Rightarrow> KRet (-1) k2
       | Some path \<Rightarrow>
           kbind (fetch_argv p uargv 0 32 [] k2) (\<lambda>(ok, args) k3.
           if \<not> ok then kbind (free_argv (map fst args) k3) (\<lambda>_ k4. KRet (-1) k4)
           else case kexec trampoline p path (map snd args) k3 of
                  None \<Rightarrow> KSleep k3
                | Some r \<Rightarrow> kbind r (\<lambda>ret k4.
                    kbind (free_argv (map fst args) k4) (\<lambda>_ k5. KRet ret k5)))))"

end
