(* ===== verification/Syscall.thy ===== *)
theory Syscall
  imports Sysfile Exec
begin

text \<open>
  \<^verbatim>\<open>kernel/sysproc.c\<close>, the dispatch in \<^verbatim>\<open>kernel/syscall.c\<close> and the trap handlers of
  \<^verbatim>\<open>kernel/trap.c\<close>. Control and device registers are arguments.
\<close>

section \<open>Process system calls\<close>

text \<open>What a call depends on besides the kernel state: linker addresses, drivers, the clock device.\<close>

record machine =
  m_trampoline :: u64
  m_forkret :: u64
  m_devsw :: devsw
  m_rtc :: "u32 \<times> u32"

definition sys_exit :: "nat \<Rightarrow> kern \<Rightarrow> (kern, u64) kcall" where
  "sys_exit p k = kbind (argint p 0 k) (\<lambda>n k1. kexit p n k1)"

definition sys_getpid :: "nat \<Rightarrow> kern \<Rightarrow> (kern, u64) kcall" where
  "sys_getpid p k = KRet (of_int (pid (procs k ! p))) k"

definition sys_wait :: "nat \<Rightarrow> kern \<Rightarrow> (kern, int) kcall" where
  "sys_wait p k = kbind (argaddr p 0 k) (\<lambda>a k1. kwait p a k1)"

definition sys_sbrk :: "nat \<Rightarrow> kern \<Rightarrow> (kern, u64) kcall" where
  "sys_sbrk p k =
     kbind (argint p 0 k) (\<lambda>n k1.
     kbind (argint p 1 k1) (\<lambda>t k2.
       let addr = psz (procs k2 ! p)
       in if t = 1 \<or> sint n < 0
          then kbind (growproc p n k2) (\<lambda>r k3. KRet (if r < 0 then -1 else addr) k3)
          else if addr + scast n < addr then KRet (-1) k2
          else KRet addr (upd_proc p (\<lambda>x. x\<lparr>psz := psz x + scast n\<rparr>) k2)))"

text \<open>The first pass of the loop of \<open>sys_pause\<close>; after a wakeup it compares the clock again.\<close>

definition sys_pause :: "nat \<Rightarrow> kern \<Rightarrow> (kern, u64) kcall" where
  "sys_pause p k =
     kbind (argint p 0 k) (\<lambda>n k1.
       if sint n \<le> 0 then KRet 0 k1
       else if killed p k1 then KRet (-1) k1
       else sleep_on p Ch_ticks k1)"

definition sys_kill :: "nat \<Rightarrow> kern \<Rightarrow> (kern, int) kcall" where
  "sys_kill p k = kbind (argint p 0 k) (\<lambda>n k1. case kkill (sint n) k1 of (r, k2) \<Rightarrow> KRet r k2)"

definition sys_uptime :: "kern \<Rightarrow> (kern, u64) kcall" where
  "sys_uptime k = KRet (ucast (ticks k)) k"

definition sys_rtcgettime :: "machine \<Rightarrow> kern \<Rightarrow> (kern, u64) kcall" where
  "sys_rtcgettime mc k = KRet (push_bit 32 (ucast (snd (m_rtc mc))) OR ucast (fst (m_rtc mc))) k"

definition sys_strace_on :: "nat \<Rightarrow> kern \<Rightarrow> (kern, u64) kcall" where
  "sys_strace_on p k = KRet 0 (upd_proc p (\<lambda>x. x\<lparr>tracing := True\<rparr>) k)"

definition sys_wait2 :: "nat \<Rightarrow> kern \<Rightarrow> (kern, int) kcall" where
  "sys_wait2 p k = kbind (argaddr p 0 k) (\<lambda>a k1. kbind (argaddr p 1 k1) (\<lambda>b k2. wait2 p a b k2))"

definition sys_getcwd :: "nat \<Rightarrow> kern \<Rightarrow> (kern, int) kcall" where
  "sys_getcwd p k =
     kbind (argaddr p 0 k) (\<lambda>b k1.
     kbind (argint p 1 k1) (\<lambda>_ k2.
     kbind (copyout_obj p b [0x2F, 0] k2) (\<lambda>ok k3. KRet (if ok then 0 else -1) k3)))"

definition sys_setnice :: "nat \<Rightarrow> kern \<Rightarrow> (kern, u64) kcall" where
  "sys_setnice p k =
     kbind (argint p 0 k) (\<lambda>w k1.
       let n = sint w
       in if n < 0 \<or> n > 40 then KRet (-1) k1
          else let n1 = (if n < 0 then 0 else n); n2 = (if n1 > 3 then 3 else n1)
               in KRet 0 (upd_proc p (\<lambda>x. x\<lparr>nice := n2, priority := 3 - n2\<rparr>) k1))"

definition sys_mmap :: "nat \<Rightarrow> kern \<Rightarrow> (kern, u64) kcall" where
  "sys_mmap p k = kbind (argaddr p 0 k) (\<lambda>a k1. kbind (argint p 1 k1) (\<lambda>len k2. kmmap p a len k2))"

definition sys_munmap :: "nat \<Rightarrow> kern \<Rightarrow> (kern, u64) kcall" where
  "sys_munmap p k = kbind (argaddr p 0 k) (\<lambda>a k1. kmunmap p a k1)"

definition sys_freemem :: "kern \<Rightarrow> (kern, u64) kcall" where
  "sys_freemem k = (case freemem (ph k) of None \<Rightarrow> KSleep k | Some n \<Rightarrow> KRet n k)"

section \<open>Dispatch\<close>

definition as_u64 :: "(kern, int) kcall \<Rightarrow> (kern, u64) kcall" where
  "as_u64 r = kbind r (\<lambda>v k. KRet (of_int v) k)"

text \<open>The table \<open>syscalls\<close>: \<open>None\<close> where it has no entry.\<close>

definition syscalls :: "machine \<Rightarrow> nat \<Rightarrow> nat \<Rightarrow> (kern \<Rightarrow> (kern, u64) kcall) option" where
  "syscalls mc p n =
     (if n = 1 then Some (\<lambda>k. as_u64 (kfork (m_trampoline mc) (m_forkret mc) p k))
      else if n = 2 then Some (sys_exit p)
      else if n = 3 then Some (\<lambda>k. as_u64 (sys_wait p k))
      else if n = 4 then Some (\<lambda>k. as_u64 (sys_pipe p k))
      else if n = 5 then Some (\<lambda>k. as_u64 (sys_read (m_devsw mc) p k))
      else if n = 6 then Some (\<lambda>k. as_u64 (sys_kill p k))
      else if n = 7 then Some (\<lambda>k. as_u64 (sys_exec (m_trampoline mc) p k))
      else if n = 8 then Some (\<lambda>k. as_u64 (sys_fstat p k))
      else if n = 9 then Some (\<lambda>k. as_u64 (sys_chdir p k))
      else if n = 10 then Some (\<lambda>k. as_u64 (sys_dup p k))
      else if n = 11 then Some (sys_getpid p)
      else if n = 12 then Some (sys_sbrk p)
      else if n = 13 then Some (sys_pause p)
      else if n = 14 then Some sys_uptime
      else if n = 15 then Some (\<lambda>k. as_u64 (sys_open p k))
      else if n = 16 then Some (\<lambda>k. as_u64 (sys_write (m_devsw mc) p k))
      else if n = 17 then Some (\<lambda>k. as_u64 (sys_mknod p k))
      else if n = 18 then Some (\<lambda>k. as_u64 (sys_unlink p k))
      else if n = 19 then Some (\<lambda>k. as_u64 (sys_link p k))
      else if n = 20 then Some (\<lambda>k. as_u64 (sys_mkdir p k))
      else if n = 21 then Some (\<lambda>k. as_u64 (sys_close p k))
      else if n = 22 \<or> n = 23 then Some (KRet 0)
      else if n = 24 then Some (sys_rtcgettime mc)
      else if n = 25 then Some (sys_strace_on p)
      else if n = 26 then Some (\<lambda>k. as_u64 (sys_wait2 p k))
      else if n = 27 then Some (\<lambda>k. as_u64 (sys_getcwd p k))
      else if n = 28 then Some (sys_setnice p)
      else if n = 29 then Some (sys_mmap p)
      else if n = 30 then Some (sys_munmap p)
      else if n = 31 then Some sys_freemem
      else None)"

text \<open>
  \<open>syscall\<close>: the handler's 64-bit result passes through \<open>int retval\<close>, so the caller sees its low
  32 bits, sign-extended. The trace output is not part of the state.
\<close>

definition syscall :: "machine \<Rightarrow> nat \<Rightarrow> kern \<Rightarrow> (kern, unit) kcall" where
  "syscall mc p k =
     (let num = sint (ucast (tf_reg p 168 k) :: u32);
          k1 = upd_proc p (\<lambda>x. x\<lparr>syscall_count := syscall_count x + 1\<rparr>) k
      in case (if num > 0 then syscalls mc p (nat num) else None) of
           None \<Rightarrow> KRet () (set_tf_reg p 112 (-1) k1)
         | Some h \<Rightarrow>
             kbind (h k1) (\<lambda>r k2. KRet () (set_tf_reg p 112 (scast (ucast r :: u32)) k2)))"

section \<open>Traps\<close>

text \<open>The registers a trap handler reads, and the interrupt handlers of the devices.\<close>

record trapregs =
  t_spp :: bool
  t_sie :: bool
  t_scause :: u64
  t_sepc :: u64
  t_stval :: u64
  t_satp :: u64
  t_hart :: u64

record devints =
  d_irq :: int
  d_uart :: "kern \<Rightarrow> kern"
  d_disk :: "kern \<Rightarrow> kern"

definition clockintr :: "u64 \<Rightarrow> nat option \<Rightarrow> kern \<Rightarrow> kern" where
  "clockintr hart me k =
     (if hart = 0 then wakeup me Ch_ticks (k\<lparr>ticks := ticks k + 1\<rparr>) else k)"

definition devintr :: "devints \<Rightarrow> trapregs \<Rightarrow> nat option \<Rightarrow> kern \<Rightarrow> nat \<times> kern" where
  "devintr dv rg me k =
     (if t_scause rg = 0x8000000000000009
      then (1, if d_irq dv = 10 then d_uart dv k else if d_irq dv = 1 then d_disk dv k else k)
      else if t_scause rg = 0x8000000000000005 then (2, clockintr (t_hart rg) me k)
      else (0, k))"

definition prepare_return :: "u64 \<Rightarrow> trapregs \<Rightarrow> nat \<Rightarrow> kern \<Rightarrow> kern" where
  "prepare_return usertrap_addr rg p k =
     set_tf_reg p 32 (t_hart rg)
       (set_tf_reg p 16 usertrap_addr
         (set_tf_reg p 8 (kstack (procs k ! p) + PGSIZE)
           (set_tf_reg p 0 (t_satp rg) k)))"

text \<open>\<open>MAKE_SATP\<close>: Sv39 mode and the page number of the table.\<close>

definition MAKE_SATP :: "u64 \<Rightarrow> u64" where
  "MAKE_SATP pt = push_bit 60 8 OR drop_bit 12 pt"

text \<open>The result is the \<open>satp\<close> value for user space, and whether the process has yielded before.\<close>

definition usertrap :: "machine \<Rightarrow> devints \<Rightarrow> u64 \<Rightarrow> trapregs \<Rightarrow> nat \<Rightarrow> kern \<Rightarrow> (kern, u64 \<times> bool) kcall" where
  "usertrap mc dv ut rg p k =
     (if t_spp rg then KPanic ''usertrap: not from user mode''
      else let k0 = set_tf_reg p 24 (t_sepc rg) k
           in kbind (if t_scause rg = 8
                     then if killed p k0 then kexit p (-1) k0
                          else kbind (syscall mc p (set_tf_reg p 24 (tf_reg p 24 k0 + 4) k0)) (\<lambda>_ k1. KRet 0 k1)
                     else (case devintr dv rg (Some p) k0 of (d, k1) \<Rightarrow>
                       if d \<noteq> 0 then KRet d k1
                       else if t_scause rg = 15 \<or> t_scause rg = 13
                       then let x = procs k1 ! p
                            in kbind (on_ph (vmfault (psz x) (pagetable x) (pagetable x) (t_stval rg)) k1) (\<lambda>pa k2.
                               KRet 0 (if pa \<noteq> 0 then k2 else setkilled p k2))
                       else KRet 0 (setkilled p k1))) (\<lambda>d k2.
              if killed p k2 then kexit p (-1) k2
              else let k3 = (if d = 2 then kyield p k2 else k2);
                       k4 = prepare_return ut rg p k3
                   in KRet (MAKE_SATP (pagetable (procs k4 ! p)), d = 2) k4))"

definition kerneltrap :: "devints \<Rightarrow> trapregs \<Rightarrow> nat option \<Rightarrow> kern \<Rightarrow> (kern, unit) kcall" where
  "kerneltrap dv rg me k =
     (if \<not> t_spp rg then KPanic ''kerneltrap: not from supervisor mode''
      else if t_sie rg then KPanic ''kerneltrap: interrupts enabled''
      else case devintr dv rg me k of (d, k1) \<Rightarrow>
        if d = 0 then KPanic ''kerneltrap''
        else KRet () (case me of Some p \<Rightarrow> if d = 2 then kyield p k1 else k1 | None \<Rightarrow> k1))"

end
