(* ===== verification/Callinv.thy ===== *)
theory Callinv
  imports Syscall
begin

text \<open>
  Invariants of the process table across the kernel calls. A property of the states, the parents, the wait channels and the pids of the
  processes is kept by a call that does not write them (\<open>frame_invariant\<close>), and by every call on files, pipes and memory when it
  survives wakeups and a sleep on a pipe or the clock (\<open>call_invariant\<close>).
\<close>

section \<open>States a call can leave\<close>

text \<open>\<open>ok\<close> in the state a call returns, \<open>rest\<close> in the state it leaves when it gives up the CPU.\<close>

definition holds_after :: "('s \<Rightarrow> bool) \<Rightarrow> ('s \<Rightarrow> bool) \<Rightarrow> ('s, 'a) kcall \<Rightarrow> bool" where
  "holds_after ok rest c = (case c of KRet _ k \<Rightarrow> ok k | KSleep k \<Rightarrow> rest k | KPanic _ \<Rightarrow> True)"

named_theorems after

lemma after_simps [simp]:
  "holds_after ok rest (KRet x k) = ok k" "holds_after ok rest (KSleep k) = rest k" "holds_after ok rest (KPanic e)"
  by (simp_all add: holds_after_def)

lemma after_kbind:
  "holds_after ok rest c \<Longrightarrow> (\<And>x k. ok k \<Longrightarrow> holds_after ok' rest (f x k)) \<Longrightarrow> holds_after ok' rest (kbind c f)"
  by (cases c) auto

lemma after_if [after]:
  "(b \<Longrightarrow> holds_after ok rest c) \<Longrightarrow> (\<not> b \<Longrightarrow> holds_after ok rest d) \<Longrightarrow> holds_after ok rest (if b then c else d)"
  by simp

lemma after_option [after]:
  "(r = None \<Longrightarrow> holds_after ok rest c) \<Longrightarrow> (\<And>x. r = Some x \<Longrightarrow> holds_after ok rest (d x)) \<Longrightarrow>
   holds_after ok rest (case r of None \<Rightarrow> c | Some x \<Rightarrow> d x)"
  by (cases r) auto

lemma after_prod [after]:
  "(\<And>x y. r = (x, y) \<Longrightarrow> holds_after ok rest (d x y)) \<Longrightarrow> holds_after ok rest (case r of (x, y) \<Rightarrow> d x y)"
  by (cases r) auto

lemma after_prod_app [after]:
  "(\<And>x y. r = (x, y) \<Longrightarrow> holds_after ok rest (d x y k)) \<Longrightarrow> holds_after ok rest ((case r of (x, y) \<Rightarrow> d x y) k)"
  by (cases r) auto

lemma after_Let [after]: "(\<And>x. x = e \<Longrightarrow> holds_after ok rest (d x)) \<Longrightarrow> holds_after ok rest (let x = e in d x)"
  by simp

lemma after_weaken: "holds_after ok rest c \<Longrightarrow> (\<And>k. ok k \<Longrightarrow> ok' k) \<Longrightarrow> (\<And>k. rest k \<Longrightarrow> rest' k) \<Longrightarrow> holds_after ok' rest' c"
  by (cases c) auto

text \<open>The same with a condition on the result.\<close>

definition result_after :: "('a \<Rightarrow> 's \<Rightarrow> bool) \<Rightarrow> ('s \<Rightarrow> bool) \<Rightarrow> ('s, 'a) kcall \<Rightarrow> bool" where
  "result_after Q rest c = (case c of KRet x k \<Rightarrow> Q x k | KSleep k \<Rightarrow> rest k | KPanic _ \<Rightarrow> True)"

lemma result_simps [simp]:
  "result_after Q rest (KRet x k) = Q x k" "result_after Q rest (KSleep k) = rest k" "result_after Q rest (KPanic e)"
  by (simp_all add: result_after_def)

lemma result_kbind: "holds_after ok rest c \<Longrightarrow> (\<And>x k. ok k \<Longrightarrow> result_after Q rest (f x k)) \<Longrightarrow> result_after Q rest (kbind c f)"
  by (cases c) auto

lemma after_result: "result_after Q rest c \<Longrightarrow> (\<And>x k. Q x k \<Longrightarrow> holds_after ok rest (f x k)) \<Longrightarrow> holds_after ok rest (kbind c f)"
  by (cases c) auto

section \<open>What the family of processes is\<close>

type_synonym member = "procstate \<times> chan option \<times> nat option \<times> int"

definition member :: "proc \<Rightarrow> member" where
  "member x = (pstate x, pchan x, parent x, pid x)"

definition family :: "kern \<Rightarrow> member list \<times> nat option \<times> int" where
  "family k = (map member (procs k), initproc k, nextpid k)"

lemma family_upd [simp]:
  "family (k\<lparr>ph := a\<rparr>) = family k" "family (k\<lparr>fs := b\<rparr>) = family k" "family (k\<lparr>ftab := c\<rparr>) = family k"
  "family (k\<lparr>pipes := d\<rparr>) = family k" "family (k\<lparr>ticks := t\<rparr>) = family k" "family (upd_file f g k) = family k"
  "family (set_tf_reg p off v k) = family k"
  by (simp_all add: family_def upd_file_def set_tf_reg_def)

lemma family_upd_proc: "(\<And>x. member (g x) = member x) \<Longrightarrow> family (upd_proc p g k) = family k"
  by (cases "p < length (procs k)") (auto simp: family_def upd_proc_def map_update list_update_beyond not_less intro: list_update_same_conv [THEN iffD2])

lemma family_filealloc: "family (snd (filealloc k)) = family k"
  by (simp add: filealloc_def split: option.split)

lemma family_fdalloc: "family (snd (fdalloc p f k)) = family k"
  by (auto simp: fdalloc_def member_def intro: family_upd_proc split: option.split)

section \<open>Calls that leave the family alone\<close>

locale frame_invariant =
  fixes ok rest :: "kern \<Rightarrow> bool"
  assumes ok_rest: "ok k \<Longrightarrow> rest k"
    and ok_family: "family k' = family k \<Longrightarrow> ok k \<Longrightarrow> ok k'"
begin

lemma ok_upd [after]:
  assumes "ok k"
  shows "ok (k\<lparr>ph := a\<rparr>)" "ok (k\<lparr>fs := b\<rparr>)" "ok (k\<lparr>ftab := c\<rparr>)" "ok (k\<lparr>pipes := d\<rparr>)" "ok (k\<lparr>ticks := t\<rparr>)"
    "ok (upd_file f g k)" "ok (set_tf_reg p off v k)" "ok (snd (filealloc k))" "ok (snd (fdalloc p' fd k))"
  using assms by (auto intro: ok_family [OF _ assms] simp: family_filealloc family_fdalloc)

lemma ok_upd_proc [after]: "(\<And>x. member (g x) = member x) \<Longrightarrow> ok k \<Longrightarrow> ok (upd_proc p g k)"
  using ok_family family_upd_proc by blast

lemma after_bind [after]:
  "holds_after ok rest c \<Longrightarrow> (\<And>x k. ok k \<Longrightarrow> holds_after ok rest (f x k)) \<Longrightarrow> holds_after ok rest (kbind c f)"
  by (rule after_kbind)

lemma after_ret [after]: "ok k \<Longrightarrow> holds_after ok rest (KRet x k)" by simp

lemma after_panic [after]: "holds_after ok rest (KPanic e)" by simp

lemma after_stuck [after]: "ok k \<Longrightarrow> holds_after ok rest (KSleep k)" by (simp add: ok_rest)

lemma after_on_fs [after]: "ok k \<Longrightarrow> holds_after ok rest (on_fs g k)"
  by (auto simp: on_fs_def ok_upd intro: ok_rest split: kcall.split)

lemma after_on_ph [after]: "ok k \<Longrightarrow> holds_after ok rest (on_ph g k)"
  by (auto simp: on_ph_def ok_upd split: outcome.split)

lemma after_on_ph_loop [after]: "ok k \<Longrightarrow> holds_after ok rest (on_ph_loop g k)"
  by (auto simp: on_ph_loop_def after_on_ph ok_rest split: option.split)

lemma after_deref [after]: "(\<And>x. holds_after ok rest (g x)) \<Longrightarrow> holds_after ok rest (deref r g)"
  by (auto simp: deref_def split: option.split)

lemma after_with_mem [after]: "ok k \<Longrightarrow> (\<And>k. ok k \<Longrightarrow> holds_after ok rest (g k)) \<Longrightarrow> holds_after ok rest (with_mem m k g)"
  by (auto simp: with_mem_def ok_upd split: outcome.split)

lemma after_copyout_obj [after]: "ok k \<Longrightarrow> holds_after ok rest (copyout_obj p a bs k)"
  unfolding copyout_obj_def by (intro after) (simp_all add: after)

lemma after_args [after]:
  assumes "ok k"
  shows "holds_after ok rest (argraw p n k)" "holds_after ok rest (argint p n k)" "holds_after ok rest (argaddr p n k)"
    "holds_after ok rest (argfd p n k)"
proof -
  show r: "holds_after ok rest (argraw p n k)" using assms by (simp add: argraw_def)
  then show a: "holds_after ok rest (argaddr p n k)" by (simp add: argaddr_def)
  show i: "holds_after ok rest (argint p n k)" unfolding argint_def by (intro after r) simp
  show "holds_after ok rest (argfd p n k)" unfolding argfd_def by (intro after i) simp_all
qed

lemma after_fetch [after]:
  assumes "ok k"
  shows "holds_after ok rest (fetchaddr p a k)" "holds_after ok rest (fetchstr p a kb mx k)"
    unfolding fetchaddr_def fetchstr_def using assms by (auto simp: ok_upd intro!: after split: outcome.split)

lemma after_argstr [after]: "ok k \<Longrightarrow> holds_after ok rest (argstr p n mx k)"
  unfolding argstr_def by (intro after)

lemma after_with_cwd [after]: "(\<And>cw. holds_after ok rest (g cw)) \<Longrightarrow> holds_after ok rest (with_cwd p paths k g)"
  unfolding with_cwd_def by (intro after)

lemma after_filedup [after]: "ok k \<Longrightarrow> holds_after ok rest (filedup f k)"
  unfolding filedup_def by (intro after)

lemma after_filestat [after]: "ok k \<Longrightarrow> holds_after ok rest (filestat p f a k)"
  unfolding filestat_def by (intro after)

lemma after_filewrite_loop [after]: "ok k \<Longrightarrow> holds_after ok rest (filewrite_loop p f ip addr n i k)"
proof (induction p f ip addr n i k rule: filewrite_loop.induct)
  case (1 p f ip addr n i k)
  then show ?case
    by (subst filewrite_loop.simps) (auto intro!: after simp del: filewrite_loop.simps)
qed

lemma after_proc_pagetable [after]: "ok k \<Longrightarrow> holds_after ok rest (proc_pagetable tr p k)"
  unfolding proc_pagetable_def by (intro after) (simp_all add: after)

lemma after_proc_freepagetable [after]: "ok k \<Longrightarrow> holds_after ok rest (proc_freepagetable pt sz k)"
  unfolding proc_freepagetable_def by (intro after)

lemma after_growproc [after]: "ok k \<Longrightarrow> holds_after ok rest (growproc p n k)"
  unfolding growproc_def by (intro after) (simp_all add: member_def)

lemma after_mmaps [after]:
  assumes "ok k"
  shows "holds_after ok rest (kmmap p a len k)" "holds_after ok rest (kmunmap p a k)"
  unfolding kmmap_def kmunmap_def using assms
  by (auto intro!: after simp: Let_def member_def split: option.split)

lemma after_dup_files [after]: "ok k \<Longrightarrow> holds_after ok rest (dup_files p np i n k)"
proof (induction n arbitrary: i k)
  case (Suc n)
  show ?case unfolding dup_files.simps by (intro after Suc) (simp_all add: member_def Suc.prems)
qed simp

section \<open>Loading a program\<close>

lemma after_read_obj [after]: "ok k \<Longrightarrow> holds_after ok rest (read_obj ip off n k)"
  unfolding read_obj_def by (intro after)

lemma after_read_interp [after]: "ok k \<Longrightarrow> holds_after ok rest (read_interp ip off n got k)"
  by (induction n arbitrary: off got k) (auto intro!: after split: option.split)

lemma after_loadseg_loop: "ok k \<Longrightarrow> holds_after ok rest (loadseg_loop pt va ip off sz i k)"
proof (induction pt va ip off sz i k rule: loadseg_loop.induct)
  case (1 pt va ip off sz i k)
  then show ?case
    using ok_upd(1) by (subst loadseg_loop.simps) (fastforce intro!: after simp: Let_def simp del: loadseg_loop.simps split: outcome.split)
qed

lemma after_loadseg [after]: "ok k \<Longrightarrow> holds_after ok rest (loadseg pt va ip off sz k)"
  unfolding loadseg_def by (rule after_loadseg_loop)

lemma after_load_segments [after]: "ok k \<Longrightarrow> holds_after ok rest (load_segments pt ip off n sz k)"
  by (induction n arbitrary: off sz k) (auto intro!: after simp: Let_def split: option.split)

lemma after_copyout_pt [after]: "ok k \<Longrightarrow> holds_after ok rest (copyout_pt p pt dst bs k)"
  unfolding copyout_pt_def by (intro after)

lemma after_push_args [after]: "ok k \<Longrightarrow> holds_after ok rest (push_args p pt base argc sp us as k)"
  by (induction as arbitrary: argc sp us k) (auto intro!: after simp: Let_def)

lemma after_exec_bad [after]: "ok k \<Longrightarrow> holds_after ok rest (exec_bad p pt sz ipo k)"
  unfolding exec_bad_def by (intro after)

lemma after_exec_commit [after]: "ok k \<Longrightarrow> holds_after ok rest (exec_commit p pt sz elf path sp us k)"
  unfolding exec_commit_def by (auto intro!: after simp: Let_def member_def)

lemma after_exec_stack [after]: "ok k \<Longrightarrow> holds_after ok rest (exec_stack p pt sz elf path argv k)"
  unfolding exec_stack_def by (auto intro!: after simp: Let_def member_def split: option.split)

lemma after_exec_elf [after]: "ok k \<Longrightarrow> holds_after ok rest (exec_elf tr p ip path argv k)"
  unfolding exec_elf_def by (intro after)

lemma after_exec_once [after]: "ok k \<Longrightarrow> holds_after ok rest (exec_once tr p path argv k)"
  unfolding exec_once_def by (auto intro!: after simp: Let_def split: list.split)

lemma after_kexec:
  assumes "kexec tr p path argv k = Some c" "ok k"
  shows "holds_after ok rest c"
proof -
  have "ok k \<longrightarrow> holds_after ok rest c"
  proof (rule kexec.raw_induct [OF _ assms(1), of "\<lambda>tr p path argv k c. ok k \<longrightarrow> holds_after ok rest c"], rule impI)
    fix exec tr p path argv k c
    assume ih: "\<And>tr p path argv k c. exec tr p path argv k = Some c \<Longrightarrow> ok k \<longrightarrow> holds_after ok rest c"
      and e: "(case exec_once tr p path argv k of KRet (Inl e) k1 \<Rightarrow> Some (KRet e k1)
          | KRet (Inr (interp, newargv)) k1 \<Rightarrow> exec tr p interp newargv k1 | KPanic e \<Rightarrow> Some (KPanic e) | KSleep k1 \<Rightarrow> Some (KSleep k1)) = Some c"
      and "ok k"
    then show "holds_after ok rest c"
      using after_exec_once [of k tr p path argv] by (auto split: kcall.splits sum.splits prod.splits)
  qed
  then show ?thesis using assms(2) by blast
qed

lemma after_fetch_argv [after]: "ok k \<Longrightarrow> holds_after ok rest (fetch_argv p ua i n acc k)"
  by (induction n arbitrary: i acc k) (auto intro!: after simp: Let_def split: option.split)

lemma after_free_argv [after]: "ok k \<Longrightarrow> holds_after ok rest (free_argv as k)"
  by (induction as arbitrary: k) (auto intro!: after)

lemma after_sys_exec [after]: "ok k \<Longrightarrow> holds_after ok rest (sys_exec tr p k)"
  unfolding sys_exec_def by (auto intro!: after intro: after_kexec split: option.split)

end

section \<open>Calls that wake and sleep\<close>

text \<open>What the device drivers behind \<open>devsw\<close> have to keep.\<close>

definition drivers_keep :: "(kern \<Rightarrow> bool) \<Rightarrow> (kern \<Rightarrow> bool) \<Rightarrow> devsw \<Rightarrow> bool" where
  "drivers_keep ok rest dsw \<longleftrightarrow> (\<forall>mj rd. fst (dsw mj) = Some rd \<or> snd (dsw mj) = Some rd \<longrightarrow> (\<forall>a n k. ok k \<longrightarrow> holds_after ok rest (rd a n k)))"

lemma drivers_keepD: "drivers_keep ok rest dsw \<Longrightarrow> fst (dsw mj) = Some rd \<or> snd (dsw mj) = Some rd \<Longrightarrow> ok k \<Longrightarrow> holds_after ok rest (rd a n k)"
  by (auto simp: drivers_keep_def)

locale call_invariant = frame_invariant +
  fixes p :: nat
  assumes ok_wakeup: "ok k \<Longrightarrow> ok (wakeup (Some p) c k)"
    and ok_sleep: "ok k \<Longrightarrow> (\<And>q. c \<noteq> Ch_proc q) \<Longrightarrow> rest (upd_proc p (\<lambda>x. x\<lparr>pchan := Some c, pstate := SLEEPING\<rparr>) k)"
begin

lemmas [after] = ok_wakeup

lemma after_sleep_on [after]: "ok k \<Longrightarrow> (\<And>q. c \<noteq> Ch_proc q) \<Longrightarrow> holds_after ok rest (sleep_on p c k)"
  by (simp add: sleep_on_def ok_sleep)

lemma ok_wake_pipe [after]: "ok k \<Longrightarrow> ok (wake_pipe p a ws k)"
  unfolding wake_pipe_def by (induction ws arbitrary: k) (auto intro: ok_wakeup)

lemma after_close_pipe [after]: "ok k \<Longrightarrow> holds_after ok rest (close_pipe p a w k)"
  unfolding close_pipe_def by (auto intro!: after simp: Let_def split: prod.split)

lemma after_fileclose [after]: "ok k \<Longrightarrow> holds_after ok rest (fileclose p f k)"
  unfolding fileclose_def by (auto intro!: after simp: Let_def)

lemma after_close_files [after]: "ok k \<Longrightarrow> holds_after ok rest (close_files p fd n k)"
proof (induction n arbitrary: fd k)
  case (Suc n)
  show ?case unfolding close_files.simps by (intro after Suc) (simp_all add: member_def Suc.prems)
qed simp

lemma after_after_pipe [after]: "ok k \<Longrightarrow> holds_after ok rest (after_pipe p a r k)"
  unfolding after_pipe_def by (auto intro!: after simp: Let_def split: prod.split pstatus.split)

lemma after_fileread [after]: "drivers_keep ok rest dsw \<Longrightarrow> ok k \<Longrightarrow> holds_after ok rest (fileread dsw p f a n k)"
  unfolding fileread_def by (auto intro!: after intro: drivers_keepD simp: Let_def split: ftype.split option.split)

lemma after_filewrite [after]: "drivers_keep ok rest dsw \<Longrightarrow> ok k \<Longrightarrow> holds_after ok rest (filewrite dsw p f a n k)"
  unfolding filewrite_def by (auto intro!: after intro: drivers_keepD simp: Let_def simp del: filewrite_loop.simps split: ftype.split option.split)

lemma ok_filealloc: "filealloc k = (r, k') \<Longrightarrow> ok k \<Longrightarrow> ok k'"
  using ok_upd(8) [of k] by simp

lemma ok_fdalloc: "fdalloc q f k = (r, k') \<Longrightarrow> ok k \<Longrightarrow> ok k'"
  using ok_upd(9) [of k q f] by simp

lemma after_pipealloc [after]: "ok k \<Longrightarrow> holds_after ok rest (pipealloc p k)"
  unfolding pipealloc_def by (auto intro!: after simp: Let_def dest!: ok_filealloc split: prod.split option.split)

lemma after_close_both [after]: "ok k \<Longrightarrow> holds_after ok rest (close_both p rf wfl k)"
  unfolding close_both_def by (intro after)

lemma ok_clear_fd [after]: "ok k \<Longrightarrow> ok (clear_fd q fd k)"
  unfolding clear_fd_def by (auto intro!: after simp: member_def)

lemma after_sys_pipe [after]: "ok k \<Longrightarrow> holds_after ok rest (sys_pipe p k)"
  unfolding sys_pipe_def by (auto intro!: after simp: Let_def dest!: ok_fdalloc split: prod.split option.split)

lemma after_descriptors [after]:
  assumes "ok k"
  shows "holds_after ok rest (sys_dup p k)" "drivers_keep ok rest dsw \<Longrightarrow> holds_after ok rest (sys_read dsw p k)"
    "drivers_keep ok rest dsw \<Longrightarrow> holds_after ok rest (sys_write dsw p k)" "holds_after ok rest (sys_close p k)" "holds_after ok rest (sys_fstat p k)"
  unfolding sys_dup_def sys_read_def sys_write_def sys_close_def sys_fstat_def using assms
  by (auto intro!: after simp: member_def dest!: ok_fdalloc split: prod.split option.split)

lemma after_links [after]:
  assumes "ok k"
  shows "holds_after ok rest (sys_link p k)" "holds_after ok rest (sys_unlink p k)" "holds_after ok rest (sys_mkdir p k)"
    "holds_after ok rest (sys_mknod p k)" "holds_after ok rest (sys_chdir p k)"
  unfolding sys_link_def sys_unlink_def sys_mkdir_def sys_mknod_def sys_chdir_def make_node_def open_undo_def using assms
  by (auto intro!: after simp: member_def Let_def split: prod.split option.split)

lemma after_sys_open [after]: "ok k \<Longrightarrow> holds_after ok rest (sys_open p k)"
  unfolding sys_open_def open_undo_def by (auto intro!: after simp: Let_def dest!: ok_filealloc ok_fdalloc split: prod.split option.split)

lemma after_sysproc [after]:
  assumes "ok k"
  shows "holds_after ok rest (sys_getpid p k)" "holds_after ok rest (sys_sbrk p k)" "holds_after ok rest (sys_pause p k)"
    "holds_after ok rest (sys_uptime k)" "holds_after ok rest (sys_rtcgettime mc k)" "holds_after ok rest (sys_strace_on p k)"
    "holds_after ok rest (sys_getcwd p k)" "holds_after ok rest (sys_setnice p k)" "holds_after ok rest (sys_mmap p k)"
    "holds_after ok rest (sys_munmap p k)" "holds_after ok rest (sys_freemem k)"
  unfolding sys_getpid_def sys_sbrk_def sys_pause_def sys_uptime_def sys_rtcgettime_def sys_strace_on_def sys_getcwd_def
    sys_setnice_def sys_mmap_def sys_munmap_def sys_freemem_def using assms
  by (auto intro!: after intro: ok_rest simp: Let_def member_def split: option.split)

end

end
