(* ===== verification/Family.thy ===== *)
theory Family
  imports Callinv Sched
begin

text \<open>
  The family of processes. In every state the kernel reaches, whatever the interleaving of system calls, interrupts and scheduling, the
  processes form a tree of living parents under \<open>init\<close>, pids identify processes, and a process that sleeps in \<open>wait\<close> has a child and no
  zombie: no exit is missed.
\<close>

section \<open>The invariant\<close>

definition alive :: "proc \<Rightarrow> bool" where
  "alive x \<longleftrightarrow> pstate x = SLEEPING \<or> pstate x = RUNNABLE \<or> pstate x = RUNNING"

text \<open>Asleep in \<open>wait\<close> on the channel of process \<open>r\<close>.\<close>

definition in_wait :: "proc \<Rightarrow> nat \<Rightarrow> bool" where
  "in_wait x r \<longleftrightarrow> pstate x = SLEEPING \<and> pchan x = Some (Ch_proc r)"

definition init_ok :: "kern \<Rightarrow> bool" where
  "init_ok k \<longleftrightarrow> (\<exists>i < length (procs k). initproc k = Some i \<and> alive (procs k ! i))"

definition parents_ok :: "kern \<Rightarrow> bool" where
  "parents_ok k \<longleftrightarrow> (\<forall>q < length (procs k).
     case parent (procs k ! q) of
       None \<Rightarrow> pstate (procs k ! q) = UNUSED \<or> pstate (procs k ! q) = USED \<or> initproc k = Some q
     | Some r \<Rightarrow> r < length (procs k) \<and> alive (procs k ! r) \<and> pstate (procs k ! q) \<noteq> UNUSED)"

definition waits_ok :: "kern \<Rightarrow> bool" where
  "waits_ok k \<longleftrightarrow> (\<forall>q < length (procs k). \<forall>r. in_wait (procs k ! q) r \<longrightarrow>
     r = q \<and> (\<exists>c < length (procs k). parent (procs k ! c) = Some q) \<and>
     (\<forall>c < length (procs k). parent (procs k ! c) = Some q \<longrightarrow> pstate (procs k ! c) \<noteq> ZOMBIE))"

definition pids_ok :: "kern \<Rightarrow> bool" where
  "pids_ok k \<longleftrightarrow> 0 < nextpid k \<and> (\<forall>q < length (procs k).
     if pstate (procs k ! q) = UNUSED then pid (procs k ! q) = 0
     else 0 < pid (procs k ! q) \<and> pid (procs k ! q) < nextpid k \<and>
       (\<forall>r < length (procs k). pid (procs k ! r) = pid (procs k ! q) \<longrightarrow> r = q))"


lemmas table_defs = init_ok_def parents_ok_def waits_ok_def pids_ok_def


section \<open>Changes of the states of living processes\<close>

text \<open>Living processes change state, and none starts to wait for a child.\<close>

definition moves :: "kern \<Rightarrow> kern \<Rightarrow> bool" where
  "moves k k' \<longleftrightarrow> length (procs k') = length (procs k) \<and> initproc k' = initproc k \<and> nextpid k' = nextpid k \<and>
     (\<forall>q < length (procs k). parent (procs k' ! q) = parent (procs k ! q) \<and> pid (procs k' ! q) = pid (procs k ! q) \<and>
        (pstate (procs k' ! q) = pstate (procs k ! q) \<and> pchan (procs k' ! q) = pchan (procs k ! q) \<or>
         alive (procs k ! q) \<and> alive (procs k' ! q) \<and> (\<forall>r. \<not> in_wait (procs k' ! q) r)))"



lemma moves_same:
  assumes "moves k k'"
  shows "length (procs k') = length (procs k)" "initproc k' = initproc k" "nextpid k' = nextpid k"
    "q < length (procs k) \<Longrightarrow> parent (procs k' ! q) = parent (procs k ! q)" "q < length (procs k) \<Longrightarrow> pid (procs k' ! q) = pid (procs k ! q)"
  using assms by (auto simp: moves_def)




lemma moves_family: "family k' = family k \<Longrightarrow> moves k k'"
  by (auto simp: family_def moves_def member_def list_eq_iff_nth_eq)

lemma nth_upd_proc [simp]:
  "r < length (procs k) \<Longrightarrow> procs (upd_proc q g k) ! r = (if r = q then g (procs k ! q) else procs k ! r)"
  by (simp add: upd_proc_def)

lemma upd_proc_same [simp]:
  "length (procs (upd_proc q g k)) = length (procs k)" "initproc (upd_proc q g k) = initproc k" "nextpid (upd_proc q g k) = nextpid k"
  by (simp_all add: upd_proc_def)



lemma wakeup_same [simp]:
  "length (procs (wakeup me c k)) = length (procs k)" "initproc (wakeup me c k) = initproc k" "nextpid (wakeup me c k) = nextpid k"
  by (simp_all add: wakeup_def)

lemma wake_one_same [simp]: "parent (wake_one me c q x) = parent x" "pid (wake_one me c q x) = pid x"
  by (simp_all add: wake_one_def)



lemma family_nth:
  assumes "family k' = family k" "q < length (procs k)"
  shows "pstate (procs k' ! q) = pstate (procs k ! q)" "parent (procs k' ! q) = parent (procs k ! q)" "pid (procs k' ! q) = pid (procs k ! q)"
proof -
  have "map member (procs k') ! q = map member (procs k) ! q" "length (procs k') = length (procs k)"
    using assms(1) map_eq_imp_length_eq by (auto simp: family_def)
  then have "member (procs k' ! q) = member (procs k ! q)" using assms(2) by simp
  then show "pstate (procs k' ! q) = pstate (procs k ! q)" "parent (procs k' ! q) = parent (procs k ! q)" "pid (procs k' ! q) = pid (procs k ! q)"
    by (simp_all add: member_def)
qed








section \<open>Slots that change hands\<close>



lemma reset_proc_simps [simp]:
  "pstate (reset_proc x) = UNUSED" "parent (reset_proc x) = None" "pid (reset_proc x) = 0" "\<not> alive (reset_proc x)" "\<not> in_wait (reset_proc x) r"
  by (simp_all add: reset_proc_def alive_def in_wait_def)








section \<open>Exit\<close>








section \<open>Wait and kill\<close>




lemma kill_scanD: "kill_scan xs i n = Some j \<Longrightarrow> i \<le> j \<and> j < i + length xs \<and> pid (xs ! (j - i)) = n"
proof (induction xs arbitrary: i)
  case (Cons x xs)
  show ?case
  proof (cases "pid x = n")
    case False
    then have "kill_scan xs (Suc i) n = Some j" using Cons.prems by simp
    from Cons.IH [OF this] show ?thesis by (auto simp: nth_Cons' Suc_diff_le)
  qed (use Cons.prems in auto)
qed simp


section \<open>System calls and traps\<close>












section \<open>Every state the kernel reaches\<close>



text \<open>The state \<open>userinit\<close> leaves: one process, in the first slot.\<close>

definition booted :: "kern \<Rightarrow> bool" where
  "booted k \<longleftrightarrow> initproc k = Some 0 \<and> nextpid k = 2 \<and> procs k \<noteq> [] \<and>
     pstate (procs k ! 0) = RUNNABLE \<and> parent (procs k ! 0) = None \<and> pid (procs k ! 0) = 1 \<and>
     (\<forall>q < length (procs k). 0 < q \<longrightarrow> pstate (procs k ! q) = UNUSED \<and> parent (procs k ! q) = None \<and> pid (procs k ! q) = 0)"


interpretation same: frame_invariant "\<lambda>k'. family k' = F" "\<lambda>_. True" for F
  by unfold_locales simp_all

lemma allocproc_first:
  assumes "procs k \<noteq> []" "pstate (procs k ! 0) = UNUSED"
    and F: "F = family (upd_proc 0 (\<lambda>x. x\<lparr>pid := nextpid k, pstate := USED\<rparr>) (k\<lparr>nextpid := nextpid k + 1\<rparr>))"
  shows "result_after (\<lambda>r k'. r = None \<or> r = Some 0 \<and> family k' = F) (\<lambda>_. True) (allocproc tr fr k)"
proof -
  note R = same.ok_upd_proc [where F = F] same.ok_upd [where F = F] result_kbind [OF same.after_proc_pagetable [where F = F]]
  have u: "unused_slot (procs k) 0 = Some 0" using assms(1,2) by (cases "procs k") simp_all
  have T: "result_after Q (\<lambda>_. True) (kbind c (\<lambda>_ k. KRet None k))" if "\<And>k. Q None k" for Q and c :: "(kern, unit) kcall"
    using that by (cases c) auto
  define k2 where "k2 = upd_proc 0 (\<lambda>x. x\<lparr>pid := nextpid k, pstate := USED, mmaps := map (\<lambda>m. m\<lparr>mused := False\<rparr>) (mmaps x)\<rparr>)
    (k\<lparr>nextpid := nextpid k + 1\<rparr>)"
  have "family k2 = F" unfolding F k2_def by (simp add: family_def upd_proc_def map_update member_def)
  then show ?thesis unfolding allocproc_def u allocpid_def
    by (auto simp: k2_def [symmetric] Let_def member_def family_upd_proc intro!: R T split: prod.split)
qed

text \<open>Booting on an empty table leaves this state.\<close>

lemma userinit_boots:
  assumes "procs k \<noteq> []" "\<forall>x \<in> set (procs k). pstate x = UNUSED \<and> parent x = None \<and> pid x = 0" "nextpid k = 1"
    and "userinit tr fr k = KRet () k'"
  shows "booted k'"
proof -
  let ?k = "upd_proc 0 (\<lambda>x. x\<lparr>pid := 1, pstate := USED\<rparr>) (k\<lparr>nextpid := 2\<rparr>)"
  have z: "pstate (procs k ! q) = UNUSED \<and> parent (procs k ! q) = None \<and> pid (procs k ! q) = 0" if "q < length (procs k)" for q
    using assms(2) that by simp
  have z0: "pstate (procs k ! 0) = UNUSED" using z assms(1) by simp
  obtain r k1 where a: "allocproc tr fr k = KRet r k1" "r \<noteq> None" using assms(4) by (auto simp: userinit_def deref_def Let_def split: option.splits)
  have f: "r = Some 0" "family k1 = family ?k" using allocproc_first [OF assms(1) z0 refl, of tr fr] a assms(3) by auto
  obtain ip st where "k' = upd_proc 0 (\<lambda>x. x\<lparr>cwd := ip, pstate := RUNNABLE\<rparr>) (k1\<lparr>initproc := Some 0, fs := st\<rparr>)"
    using assms(4) a f(1) by (auto simp: userinit_def deref_def on_fs_def Let_def split: kcall.splits)
  then obtain k3 where k3: "family k3 = family (k1\<lparr>initproc := Some 0\<rparr>)" "k' = upd_proc 0 (\<lambda>x. x\<lparr>cwd := ip, pstate := RUNNABLE\<rparr>) k3"
    using family_upd(2) by blast
  let ?j = "?k\<lparr>initproc := Some 0\<rparr>"
  have j: "family k3 = family ?j" using k3(1) f(2) by (simp add: family_def)
  have n: "length (procs k3) = length (procs k)" using moves_same(1) [OF moves_family [OF j]] by simp
  have "pstate (procs k3 ! q) = pstate (procs ?j ! q)" "parent (procs k3 ! q) = parent (procs ?j ! q)" "pid (procs k3 ! q) = pid (procs ?j ! q)"
    if "q < length (procs k)" for q using family_nth [OF j, of q] that by simp_all
  moreover have "initproc k3 = Some 0" "nextpid k3 = 2" using j by (simp_all add: family_def)
  moreover have "procs (upd_proc 0 g k3) \<noteq> []" for g using n assms(1) by (auto simp: upd_proc_def)
  ultimately show ?thesis unfolding booted_def k3(2) using n assms(1) z by auto
qed









end
