(* ===== verification/Vmcopy.thy ===== *)
theory Vmcopy
  imports Vmops
begin

text \<open>
  The memory of user processes: \<open>uvmcopy\<close> of \<^verbatim>\<open>kernel/vm.c\<close> gives a new page table private copies of the
  pages of another. It works on the physical memory through the page tables, so what it does is stated by the bytes that user
  addresses reach.
\<close>

section \<open>Tables and free lists that a write does not meet\<close>

lemma vm_inv_only:
  assumes inv: "vm_inv s root fl" and o: "only_pages C (pmem s) (pmem s')" "\<forall>q\<in>C. aligned 12 q"
    and t: "pt_pages (pmem s) root \<inter> C = {}" and f: "freelist_is s' fl'" "set fl' \<inter> pt_pages (pmem s) root = {}"
  shows "vm_inv s' root fl'" "pt_pages (pmem s') root = pt_pages (pmem s) root"
    "va < MAXVA \<Longrightarrow> mapping (pmem s') root va = mapping (pmem s) root va"
proof -
  note I = vm_invD [OF inv]
  have same: "pmem s' x = pmem s x" if "q \<in> pt_pages (pmem s) root" "in_page q x" for q x
    using only_pagesD [OF o I(4) [OF that(1)] _ that(2)] t that(1) by blast
  note F = pt_frame [OF I(1), of "pmem s'", OF same]
  show "pt_pages (pmem s') root = pt_pages (pmem s) root" using F(2) .
  show "vm_inv s' root fl'" using F(1,2) f by (auto simp: vm_inv_def)
  show "va < MAXVA \<Longrightarrow> mapping (pmem s') root va = mapping (pmem s) root va" using F(3) .
qed

lemma freelist_only:
  assumes "freelist_is s fl" "only_pages C (pmem s) (pmem s')" "\<forall>q\<in>C. aligned 12 q" "set fl \<inter> C = {}" "freelist s' = freelist s"
  shows "freelist_is s' fl"
proof (rule freelist_is_frame [OF assms(1,5)])
  fix p x assume "p \<in> set fl" "in_page p x"
  moreover from this have "aligned 12 p" "p \<notin> C" using assms(1,4) by (auto simp: freelist_is_def page_ok_def)
  ultimately show "pmem s' x = pmem s x" using only_pagesD [OF assms(2,3)] by blast
qed

lemma mapping_here: "aligned 12 a \<Longrightarrow> unat (vb - a) < 4096 \<Longrightarrow> mapping m root vb = mapping m root a"
  using key_page [of a vb] mapping_key [of vb a m root] by blast

section \<open>User bytes\<close>

text \<open>The physical address behind a user address, and the byte there.\<close>

definition frame :: "u64 \<Rightarrow> u64 \<Rightarrow> u64" where
  "frame e va = PTE2PA e + (va - PGROUNDDOWN va)"

definition user_byte :: "mem \<Rightarrow> u64 \<Rightarrow> u64 \<Rightarrow> u8 option" where
  "user_byte m root va = map_option (\<lambda>e. m (frame e va)) (mapping m root va)"

lemma frame_in_page: "in_page (PTE2PA e) (frame e va)"
  using PGROUNDDOWN_page [of va] by (simp add: in_page_def frame_def)

text \<open>The pages that user addresses below \<open>n\<close> pages map. They are owned: real pages, not free, and in no table.\<close>

abbreviation (input) user_pages :: "mem \<Rightarrow> u64 \<Rightarrow> nat \<Rightarrow> u64 set" where
  "user_pages m root n \<equiv> leaf_pages m root 0 n"

lemma user_pagesI: "va < MAXVA \<Longrightarrow> unat va < n * 4096 \<Longrightarrow> mapping m root va = Some e \<Longrightarrow> PTE2PA e \<in> user_pages m root n"
  using leaf_pagesI [of va 0 n] by simp

lemma user_byte_only:
  assumes "only_pages C (pmem s) (pmem s')" "\<forall>q\<in>C. aligned 12 q" "user_pages (pmem s) root n \<inter> C = {}"
    and "\<forall>p\<in>user_pages (pmem s) root n. aligned 12 p"
    and "va < MAXVA" "unat va < n * 4096" "mapping (pmem s') root va = mapping (pmem s) root va"
  shows "user_byte (pmem s') root va = user_byte (pmem s) root va"
proof (cases "mapping (pmem s) root va")
  case (Some e)
  then have "PTE2PA e \<in> user_pages (pmem s) root n" using user_pagesI assms(5,6) by blast
  then have "pmem s' (frame e va) = pmem s (frame e va)"
    using only_pagesD [OF assms(1,2) _ _ frame_in_page] assms(3,4) by blast
  then show ?thesis using assms(7) Some by (simp add: user_byte_def)
qed (use assms(7) in \<open>simp add: user_byte_def\<close>)

section \<open>One page of \<open>uvmcopy\<close>\<close>

lemma memmove_page:
  assumes "page_ok p" "page_ok q"
  shows "memmove m p q 4096 x = (if in_page p x then m (q + (x - p)) else m x)"
proof -
  have "unat p < 2 ^ 32" "unat q < 2 ^ 32" using assms by (simp_all add: page_ok_def PHYSTOP_def word_less_nat_alt)
  then have "memmove m p q 4096 = wr_bytes m p (rd_bytes m q 4096)" using memmove_copies [of p 4096 q m] by simp
  then show ?thesis by (simp add: wr_bytes_apply in_page_def rd_bytes_def)
qed

lemma page_ok_aligned: "page_ok p \<Longrightarrow> aligned 12 p"
  by (simp add: page_ok_def)

text \<open>The first half: a page is taken and filled with the bytes of \<open>q\<close>.\<close>

lemma copy_page:
  assumes inv: "vm_inv s root (p # fl)" and q: "page_ok q" "q \<noteq> p"
  obtains s1 where "kalloc s = (p, s1)"
    "vm_inv (s1\<lparr>pmem := memmove (pmem s1) p q 4096\<rparr>) root fl"
    "pt_pages (memmove (pmem s1) p q 4096) root = pt_pages (pmem s) root"
    "\<And>va. va < MAXVA \<Longrightarrow> mapping (memmove (pmem s1) p q 4096) root va = mapping (pmem s) root va"
    "only_pages {p} (pmem s) (memmove (pmem s1) p q 4096)"
    "\<And>x. in_page p x \<Longrightarrow> memmove (pmem s1) p q 4096 x = pmem s (q + (x - p))"
    "page_ok p" "p \<notin> set fl" "p \<notin> pt_pages (pmem s) root"
proof -
  note I = vm_invD [OF inv]
  obtain s1 where s1: "kalloc s = (p, s1)" "freelist_is s1 fl" "\<And>x. \<not> in_page p x \<Longrightarrow> pmem s1 x = pmem s x"
    using kalloc_pops [OF I(2)] by metis
  have p: "page_ok p" "p \<notin> set fl" "p \<notin> pt_pages (pmem s) root" using I(2,3) by (auto simp: freelist_is_def)
  let ?m = "memmove (pmem s1) p q 4096" and ?s = "s1\<lparr>pmem := memmove (pmem s1) p q 4096\<rparr>"
  note m = memmove_page [OF p(1) q(1), of "pmem s1"]
  have o: "only_pages {p} (pmem s) (pmem ?s)" by (rule only_pages_one) (simp add: m s1(3))
  have a: "\<forall>r\<in>{p}. aligned 12 r" using p(1) page_ok_aligned by simp
  have f: "freelist_is ?s fl" by (rule freelist_only [OF s1(2), of "{p}"]) (use a p(2) m in \<open>auto simp: only_pages_def\<close>)
  have d: "set fl \<inter> pt_pages (pmem s) root = {}" "pt_pages (pmem s) root \<inter> {p} = {}" using I(3) p(3) by auto
  note V = vm_inv_only [OF inv o a d(2) f d(1)]
  have "?m x = pmem s (q + (x - p))" if x: "in_page p x" for x
  proof -
    have "in_page q (q + (x - p))" using x by (simp add: in_page_def)
    then have "\<not> in_page p (q + (x - p))" using in_page_disjoint [of q p] q p(1) page_ok_aligned by blast
    then show ?thesis using m x s1(3) by simp
  qed
  then show ?thesis using that [OF s1(1)] V o p by simp
qed

text \<open>The second half: the filled page is mapped in the new table.\<close>

lemma map_copy:
  assumes inv: "vm_inv s root fl" and a: "aligned 12 a" "a < MAXVA" and none: "mapping (pmem s) root a = None"
  obtains r s' used fl' where "mappages root a PGSIZE p flags s = Ret (r, s')" "vm_inv s' root fl'" "fl = used @ fl'"
    "r = 0 \<or> r = -1 \<and> fl' = []" "only_pages (pt_pages (pmem s') root) (pmem s) (pmem s')"
    "pt_pages (pmem s') root = pt_pages (pmem s) root \<union> set used"
    "\<And>vb. vb < MAXVA \<Longrightarrow> mapping (pmem s') root vb =
       (if r = 0 \<and> unat (vb - a) < 4096 then Some (PA2PTE p OR flags OR PTE_V) else mapping (pmem s) root vb)"
proof -
  have none': "\<forall>vb < MAXVA. unat (vb - a) < 1 * 4096 \<longrightarrow> mapping (pmem s) root vb = None"
    using none mapping_here [OF a(1), of _ "pmem s" root] unfolding mult_1 by metis
  from mappages_spec [OF inv a(1) zero_less_one one_page [OF a] none', of p flags]
  obtain r s' used fl' j where
    r: "mappages root a (of_nat (1 * 4096)) p flags s = Ret (r, s')"
      "if r = 0 then j = 1 else r = -1 \<and> j < 1 \<and> fl' = []" "vm_inv s' root fl'" "fl = used @ fl'"
      "pt_pages (pmem s') root = pt_pages (pmem s) root \<union> set used"
      "\<forall>vb < MAXVA. mapping (pmem s') root vb =
         (if unat (vb - a) < j * 4096 then Some (PA2PTE (p + PGROUNDDOWN (vb - a)) OR flags OR PTE_V)
          else mapping (pmem s) root vb)"
      "\<forall>x. (\<forall>p \<in> pt_pages (pmem s') root. \<not> in_page p x) \<longrightarrow> pmem s' x = pmem s x"
    by blast
  have o: "only_pages (pt_pages (pmem s') root) (pmem s) (pmem s')" using r(7) by (simp add: only_pages_def)
  have new: "mapping (pmem s') root vb =
      (if r = 0 \<and> unat (vb - a) < 4096 then Some (PA2PTE p OR flags OR PTE_V) else mapping (pmem s) root vb)" if "vb < MAXVA" for vb
    using r(2,6) that PGROUNDDOWN_small [of "vb - a"] by (auto split: if_splits)
  have res: "r = 0 \<or> r = -1 \<and> fl' = []" using r(2) by (auto split: if_splits)
  have "mappages root a PGSIZE p flags s = Ret (r, s')" using r(1) by simp
  from this r(3,4) res o r(5) new show ?thesis by (rule that)
qed

section \<open>The loop of \<open>uvmcopy\<close>\<close>

text \<open>
  What holds at the start: two tables over one memory and allocator, the first \<open>n\<close> pages of the old one are its own,
  and the new one maps none of them.
\<close>

definition copy_start :: "phys \<Rightarrow> u64 \<Rightarrow> u64 \<Rightarrow> u64 list \<Rightarrow> nat \<Rightarrow> bool" where
  "copy_start s old new fl n \<longleftrightarrow>
     vm_inv s old fl \<and> vm_inv s new fl \<and> pt_pages (pmem s) old \<inter> pt_pages (pmem s) new = {} \<and>
     n * 4096 \<le> 2 ^ 38 \<and> owns_range s old fl 0 n \<and> user_pages (pmem s) old n \<inter> pt_pages (pmem s) new = {} \<and>
     (\<forall>va < MAXVA. unat va < n * 4096 \<longrightarrow> mapping (pmem s) new va = None)"

text \<open>
  What holds after \<open>k\<close> pages, started from \<open>s0\<close>: the first \<open>k\<close> pages of the new
  table are copies in pages that were free, no page is lost, and only free pages and pages of the new table were written.
\<close>

abbreviation (input) spare :: "phys \<Rightarrow> u64 \<Rightarrow> u64 list \<Rightarrow> u64 set" where
  "spare s0 new fl0 \<equiv> set fl0 \<union> pt_pages (pmem s0) new"

definition same_page :: "phys \<Rightarrow> u64 \<Rightarrow> phys \<Rightarrow> u64 \<Rightarrow> u64 \<Rightarrow> bool" where
  "same_page s new s0 old va \<longleftrightarrow>
     map_option PTE_FLAGS (mapping (pmem s) new va) = map_option PTE_FLAGS (mapping (pmem s0) old va) \<and>
     user_byte (pmem s) new va = user_byte (pmem s0) old va"

definition copied :: "phys \<Rightarrow> u64 \<Rightarrow> u64 \<Rightarrow> u64 list \<Rightarrow> nat \<Rightarrow> phys \<Rightarrow> u64 list \<Rightarrow> bool" where
  "copied s0 old new fl0 k s fl \<longleftrightarrow>
     vm_inv s new fl \<and> set fl \<union> user_pages (pmem s) new k \<union> pt_pages (pmem s) new = spare s0 new fl0 \<and>
     only_pages (spare s0 new fl0) (pmem s0) (pmem s) \<and> owns_range s new fl 0 k \<and> set fl \<union> user_pages (pmem s) new k \<subseteq> set fl0 \<and>
     (\<forall>va < MAXVA. k * 4096 \<le> unat va \<longrightarrow> mapping (pmem s) new va = mapping (pmem s0) new va) \<and>
     (\<forall>va < MAXVA. unat va < k * 4096 \<longrightarrow> same_page s new s0 old va)"

lemma copy_startD:
  assumes "copy_start s old new fl n"
  shows "vm_inv s old fl" "n * 4096 \<le> 2 ^ 38" "\<forall>q \<in> set fl \<union> pt_pages (pmem s) new. aligned 12 q"
    "\<forall>p \<in> user_pages (pmem s) old n. page_ok p" "user_pages (pmem s) old n \<inter> (set fl \<union> pt_pages (pmem s) new) = {}"
    "pt_pages (pmem s) old \<inter> (set fl \<union> pt_pages (pmem s) new) = {}"
proof -
  have I: "vm_inv s old fl" "vm_inv s new fl" "pt_pages (pmem s) old \<inter> pt_pages (pmem s) new = {}"
    using assms by (auto simp: copy_start_def)
  show "vm_inv s old fl" "n * 4096 \<le> 2 ^ 38" "\<forall>p \<in> user_pages (pmem s) old n. page_ok p"
    "user_pages (pmem s) old n \<inter> (set fl \<union> pt_pages (pmem s) new) = {}"
    using assms by (auto simp: copy_start_def owns_range_def)
  show "\<forall>q \<in> set fl \<union> pt_pages (pmem s) new. aligned 12 q"
    using vm_invD(2,4) [OF I(2)] by (auto simp: freelist_is_def page_ok_def)
  show "pt_pages (pmem s) old \<inter> (set fl \<union> pt_pages (pmem s) new) = {}" using I(3) vm_invD(3) [OF I(1)] by auto
qed

text \<open>Whatever was written in free pages and in the new table, the old address space is as before.\<close>

lemma old_kept:
  assumes st: "copy_start s0 old new fl0 n" and o: "only_pages (spare s0 new fl0) (pmem s0) (pmem s)"
    and f: "freelist_is s fl" "set fl \<subseteq> spare s0 new fl0"
  shows "vm_inv s old fl" "pt_pages (pmem s) old = pt_pages (pmem s0) old"
    "va < MAXVA \<Longrightarrow> mapping (pmem s) old va = mapping (pmem s0) old va"
    "va < MAXVA \<Longrightarrow> unat va < n * 4096 \<Longrightarrow> user_byte (pmem s) old va = user_byte (pmem s0) old va"
proof -
  note S = copy_startD [OF st]
  have d: "set fl \<inter> pt_pages (pmem s0) old = {}" using f(2) S(6) by auto
  note V = vm_inv_only [OF S(1) o S(3,6) f(1) d]
  show "vm_inv s old fl" "pt_pages (pmem s) old = pt_pages (pmem s0) old" using V(1,2) .
  show m: "va < MAXVA \<Longrightarrow> mapping (pmem s) old va = mapping (pmem s0) old va" for va using V(3) .
  show "va < MAXVA \<Longrightarrow> unat va < n * 4096 \<Longrightarrow> user_byte (pmem s) old va = user_byte (pmem s0) old va"
    using user_byte_only [OF o S(3,5), of va] S(4) m page_ok_aligned by blast
qed

text \<open>The pages of the first \<open>k + 1\<close> pages, by the entry of page \<open>k\<close>.\<close>

definition page_at :: "nat \<Rightarrow> u64" where
  "page_at k = of_nat (k * 4096)"

lemma page_index:
  assumes "Suc k * 4096 \<le> 2 ^ 38"
  shows "unat (page_at k) = k * 4096" "aligned 12 (page_at k)" "page_at k < MAXVA"
    "unat vb < Suc k * 4096 \<longleftrightarrow> unat vb < k * 4096 \<or> unat (vb - page_at k) < 4096"
    "\<not> (unat vb < k * 4096 \<and> unat (vb - page_at k) < 4096)"
proof -
  show ua: "unat (page_at k) = k * 4096" unfolding page_at_def using assms(1) by (intro unat_of_nat64) simp
  show al: "aligned 12 (page_at k)" using ua by (simp add: aligned_def)
  show "page_at k < MAXVA" using ua assms(1) by (simp add: MAXVA_nat)
  have "unat (vb - page_at k) < 2 ^ 12 \<longleftrightarrow> unat vb div 2 ^ 12 = unat (page_at k) div 2 ^ 12" by (rule aligned_region [OF al]) simp
  moreover have "unat vb div 4096 = k \<longleftrightarrow> k * 4096 \<le> unat vb \<and> unat vb < Suc k * 4096"
    unfolding less_eq_div_iff_mult_less_eq [of 4096 k, OF zero_less_numeral, symmetric]
      div_less_iff_less_mult [of 4096 _ "Suc k", OF zero_less_numeral, symmetric] by linarith
  ultimately have "unat (vb - page_at k) < 4096 \<longleftrightarrow> k * 4096 \<le> unat vb \<and> unat vb < Suc k * 4096" using ua by simp
  then show "unat vb < Suc k * 4096 \<longleftrightarrow> unat vb < k * 4096 \<or> unat (vb - page_at k) < 4096"
    "\<not> (unat vb < k * 4096 \<and> unat (vb - page_at k) < 4096)" by auto
qed

lemma user_pages_snoc:
  assumes k: "Suc k * 4096 \<le> 2 ^ 38" and m: "\<And>vb. vb < MAXVA \<Longrightarrow> unat vb < k * 4096 \<Longrightarrow> mapping m' root vb = mapping m root vb"
  shows "user_pages m' root (Suc k) =
    user_pages m root k \<union> (case mapping m' root (page_at k) of None \<Rightarrow> {} | Some e \<Rightarrow> {PTE2PA e})"
proof -
  note P = page_index [OF k]
  let ?a = "page_at k"
  show ?thesis (is "?L = ?A \<union> ?B")
  proof (intro set_eqI iffI)
    fix x assume "x \<in> ?L"
    then obtain e vb where e: "x = PTE2PA e" "vb < MAXVA" "unat vb < Suc k * 4096" "mapping m' root vb = Some e"
      by (auto simp: leaf_pages_def)
    show "x \<in> ?A \<union> ?B"
    proof (cases "unat vb < k * 4096")
      case True
      then show ?thesis using user_pagesI [OF e(2) True] m [OF e(2) True] e(1,4) by simp
    next
      case False
      then have "mapping m' root ?a = Some e" using mapping_here [OF P(2), of vb m' root] P(4) [of vb] e(3,4) by simp
      then show ?thesis using e(1) by simp
    qed
  next
    fix x assume "x \<in> ?A \<union> ?B"
    then show "x \<in> ?L"
    proof
      assume "x \<in> ?A"
      then obtain e vb where e: "x = PTE2PA e" "vb < MAXVA" "unat vb < k * 4096" "mapping m root vb = Some e"
        by (auto simp: leaf_pages_def)
      then show ?thesis using user_pagesI [OF e(2), of "Suc k" m' root e] m [OF e(2,3)] by simp
    next
      assume "x \<in> ?B"
      then show ?thesis using user_pagesI [OF P(3), of "Suc k" m' root] P(1) by (auto split: option.splits)
    qed
  qed
qed

lemma owns_snoc:
  assumes own: "owns_range s root fl 0 k" and k: "Suc k * 4096 \<le> 2 ^ 38"
    and m: "\<And>vb. vb < MAXVA \<Longrightarrow> unat vb < k * 4096 \<Longrightarrow> mapping (pmem s') root vb = mapping (pmem s) root vb"
    and pp: "user_pages (pmem s) root k \<inter> (set fl' \<union> pt_pages (pmem s') root) = {}"
    and new: "\<And>e. mapping (pmem s') root (page_at k) = Some e \<Longrightarrow> page_ok (PTE2PA e) \<and>
       PTE2PA e \<notin> set fl' \<union> pt_pages (pmem s') root \<union> user_pages (pmem s) root k"
  shows "owns_range s' root fl' 0 (Suc k)"
proof -
  note P = page_index [OF k]
  have here: "mapping (pmem s') root (page_at k) = Some e"
    if "vb < MAXVA" "unat vb < Suc k * 4096" "\<not> unat vb < k * 4096" "mapping (pmem s') root vb = Some e" for vb e
    using mapping_here [OF P(2), of vb] P(4) [of vb] that by simp
  have low: "PTE2PA e \<in> user_pages (pmem s) root k" if "vb < MAXVA" "unat vb < k * 4096" "mapping (pmem s') root vb = Some e" for vb e
    using user_pagesI [OF that(1,2)] m [OF that(1,2)] that(3) by simp
  have snoc: "user_pages (pmem s') root (Suc k) =
      user_pages (pmem s) root k \<union> (case mapping (pmem s') root (page_at k) of None \<Rightarrow> {} | Some e \<Rightarrow> {PTE2PA e})"
    by (rule user_pages_snoc [OF k]) (rule m)
  have "key 3 vb = key 3 vc"
    if v: "vb < MAXVA" "vc < MAXVA" "unat vb < Suc k * 4096" "unat vc < Suc k * 4096"
      "mapping (pmem s') root vb = Some e" "mapping (pmem s') root vc = Some f" "PTE2PA e = PTE2PA f" for vb vc e f
  proof (cases "unat vb < k * 4096"; cases "unat vc < k * 4096")
    assume "unat vb < k * 4096" "unat vc < k * 4096"
    then show ?thesis using own m v unfolding owns_range_def diff_zero by metis
  next
    assume "unat vb < k * 4096" "\<not> unat vc < k * 4096"
    then show ?thesis using low [OF v(1) _ v(5)] new [OF here [OF v(2,4) _ v(6)]] v(7) by auto
  next
    assume "\<not> unat vb < k * 4096" "unat vc < k * 4096"
    then show ?thesis using low [OF v(2) _ v(6)] new [OF here [OF v(1,3) _ v(5)]] v(7) by auto
  next
    assume "\<not> unat vb < k * 4096" "\<not> unat vc < k * 4096"
    then show ?thesis using P(4) v(3,4) key_page [OF P(2)] by metis
  qed
  moreover have "page_ok q \<and> q \<notin> set fl' \<and> q \<notin> pt_pages (pmem s') root" if "q \<in> user_pages (pmem s') root (Suc k)" for q
    using that own pp new unfolding snoc owns_range_def by (auto split: option.splits)
  ultimately show ?thesis unfolding owns_range_def diff_zero by blast
qed

lemma copiedD:
  assumes "copied s0 old new fl0 k s fl"
  shows "vm_inv s new fl" "set fl \<union> user_pages (pmem s) new k \<union> pt_pages (pmem s) new = spare s0 new fl0"
    "only_pages (spare s0 new fl0) (pmem s0) (pmem s)" "owns_range s new fl 0 k" "set fl \<union> user_pages (pmem s) new k \<subseteq> set fl0"
    "va < MAXVA \<Longrightarrow> k * 4096 \<le> unat va \<Longrightarrow> mapping (pmem s) new va = mapping (pmem s0) new va"
    "va < MAXVA \<Longrightarrow> unat va < k * 4096 \<Longrightarrow> same_page s new s0 old va"
    "freelist_is s fl" "set fl \<subseteq> spare s0 new fl0" "user_pages (pmem s) new k \<inter> (set fl \<union> pt_pages (pmem s) new) = {}"
proof -
  note C = assms [unfolded copied_def]
  show "vm_inv s new fl" "set fl \<union> user_pages (pmem s) new k \<union> pt_pages (pmem s) new = spare s0 new fl0"
    "only_pages (spare s0 new fl0) (pmem s0) (pmem s)" "owns_range s new fl 0 k" "set fl \<union> user_pages (pmem s) new k \<subseteq> set fl0"
    "va < MAXVA \<Longrightarrow> k * 4096 \<le> unat va \<Longrightarrow> mapping (pmem s) new va = mapping (pmem s0) new va"
    "va < MAXVA \<Longrightarrow> unat va < k * 4096 \<Longrightarrow> same_page s new s0 old va"
    using C by blast+
  then show "freelist_is s fl" "set fl \<subseteq> spare s0 new fl0" "user_pages (pmem s) new k \<inter> (set fl \<union> pt_pages (pmem s) new) = {}"
    using vm_invD(2) unfolding owns_range_def by blast+
qed

text \<open>A page that the old table does not map is left out.\<close>

lemma copied_skip:
  assumes st: "copy_start s0 old new fl0 n" and c: "copied s0 old new fl0 k s fl" and k: "k < n"
    and none: "mapping (pmem s0) old (page_at k) = None"
  shows "copied s0 old new fl0 (Suc k) s fl"
proof -
  note C = copiedD [OF c]
  have b: "Suc k * 4096 \<le> 2 ^ 38" using copy_startD(2) [OF st] k by simp
  note P = page_index [OF b]
  have new: "mapping (pmem s) new vb = None" if "vb < MAXVA" "unat (vb - page_at k) < 4096" for vb
    using C(6) [OF that(1)] st that P(4,5) [of vb] k by (auto simp: copy_start_def)
  have n0: "mapping (pmem s) new (page_at k) = None" by (rule new [OF P(3)]) simp
  have u: "user_pages (pmem s) new (Suc k) = user_pages (pmem s) new k" using user_pages_snoc [OF b, of "pmem s" new "pmem s"] n0 by simp
  have o: "owns_range s new fl 0 (Suc k)" using owns_snoc [OF C(4) b, of s fl] n0 C(10) by simp
  have "same_page s new s0 old va" if "va < MAXVA" "unat va < Suc k * 4096" for va
  proof (cases "unat va < k * 4096")
    case False
    then have va: "unat (va - page_at k) < 4096" using P(4) that(2) by blast
    then show ?thesis using new [OF that(1) va] mapping_here [OF P(2) va, of "pmem s0" old] none by (simp add: same_page_def user_byte_def)
  qed (use C(7) that(1) in blast)
  then show ?thesis using C(1-6) u o by (auto simp: copied_def)
qed

text \<open>A page that is mapped: taken, filled and entered, or given back when no page is left for the table.\<close>

lemma take_page:
  assumes inv: "vm_inv s root (p # fl)" and q: "page_ok q" "q \<noteq> p" and a: "aligned 12 a" "a < MAXVA"
    and none: "mapping (pmem s) root a = None"
  obtains s1 r s' used fl' where "kalloc s = (p, s1)"
    "mappages root a PGSIZE p flags (s1\<lparr>pmem := memmove (pmem s1) p q 4096\<rparr>) = Ret (r, s')"
    "vm_inv s' root fl'" "fl = used @ fl'" "only_pages (insert p (pt_pages (pmem s') root)) (pmem s) (pmem s')"
    "pt_pages (pmem s') root = pt_pages (pmem s) root \<union> set used"
    "\<And>x. in_page p x \<Longrightarrow> pmem s' x = pmem s (q + (x - p))"
    "\<And>vb. vb < MAXVA \<Longrightarrow> mapping (pmem s') root vb =
       (if r = 0 \<and> unat (vb - a) < 4096 then Some (PA2PTE p OR flags OR PTE_V) else mapping (pmem s) root vb)"
    "page_ok p" "p \<notin> set fl' \<union> pt_pages (pmem s') root"
proof -
  obtain s1 where s1: "kalloc s = (p, s1)" "vm_inv (s1\<lparr>pmem := memmove (pmem s1) p q 4096\<rparr>) root fl"
    "pt_pages (memmove (pmem s1) p q 4096) root = pt_pages (pmem s) root"
    "\<And>va. va < MAXVA \<Longrightarrow> mapping (memmove (pmem s1) p q 4096) root va = mapping (pmem s) root va"
    "only_pages {p} (pmem s) (memmove (pmem s1) p q 4096)"
    "\<And>x. in_page p x \<Longrightarrow> memmove (pmem s1) p q 4096 x = pmem s (q + (x - p))"
    "page_ok p" "p \<notin> set fl" "p \<notin> pt_pages (pmem s) root"
    using copy_page [OF inv q] by metis
  let ?s = "s1\<lparr>pmem := memmove (pmem s1) p q 4096\<rparr>"
  have none': "mapping (pmem ?s) root a = None" using s1(4) [OF a(2)] none by simp
  obtain r s' used fl' where r: "mappages root a PGSIZE p flags ?s = Ret (r, s')" "vm_inv s' root fl'" "fl = used @ fl'"
    "r = 0 \<or> r = -1 \<and> fl' = []" "only_pages (pt_pages (pmem s') root) (pmem ?s) (pmem s')" "pt_pages (pmem s') root = pt_pages (pmem ?s) root \<union> set used"
    "\<And>vb. vb < MAXVA \<Longrightarrow> mapping (pmem s') root vb =
       (if r = 0 \<and> unat (vb - a) < 4096 then Some (PA2PTE p OR flags OR PTE_V) else mapping (pmem ?s) root vb)"
    by (rule map_copy [OF s1(2) a none', of p flags]) (rule that)
  have pn: "p \<notin> set fl' \<union> pt_pages (pmem s') root" using s1(3,8,9) r(3,6) by auto
  have al: "\<forall>x\<in>pt_pages (pmem s') root. aligned 12 x" using vm_invD(4) [OF r(2)] by blast
  have o: "only_pages (insert p (pt_pages (pmem s') root)) (pmem s) (pmem s')"
    using only_pages_trans [of "{p}" "pmem s" "pmem ?s", OF _ r(5)] s1(5) by simp
  have bts: "pmem s' x = pmem s (q + (x - p))" if "in_page p x" for x
    using only_pagesD [OF r(5) al page_ok_aligned [OF s1(7)] _ that] pn s1(6) [OF that] by simp
  have mp: "mapping (pmem s') root vb =
       (if r = 0 \<and> unat (vb - a) < 4096 then Some (PA2PTE p OR flags OR PTE_V) else mapping (pmem s) root vb)" if "vb < MAXVA" for vb
    using r(7) [OF that] s1(4) [OF that] by simp
  have pp: "pt_pages (pmem s') root = pt_pages (pmem s) root \<union> set used" using r(6) s1(3) by simp
  from s1(1) r(1-3) o pp bts mp s1(7) pn show ?thesis by (rule that)
qed

lemma PTE_FLAGS_lt: "PTE_FLAGS e < 2 ^ 10"
proof -
  have "(0x3FF :: u64) = mask 10" by (simp add: mask_eq_exp_minus_1)
  then have "PTE_FLAGS e = take_bit 10 e" by (simp add: PTE_FLAGS_def take_bit_eq_mask)
  then show ?thesis using lt2p_take_bit [of 10 "PTE_FLAGS e"] by simp
qed

lemma copied_entry:
  assumes "page_ok p" "e AND PTE_V \<noteq> 0"
  defines "f \<equiv> PA2PTE p OR PTE_FLAGS e OR PTE_V"
  shows "PTE2PA f = p" "PTE_FLAGS f = PTE_FLAGS e"
proof -
  have v: "PTE_FLAGS e OR PTE_V = PTE_FLAGS e"
  proof (rule bit_word_eqI)
    fix i
    have "bit e 0" using assms(2) by (simp add: bit_0 odd_iff_mod_2_eq_one and_one_eq)
    then show "bit (PTE_FLAGS e OR PTE_V) i = bit (PTE_FLAGS e) i" by (auto simp: PTE_FLAGS_def bit_simps bit_1_iff)
  qed
  show "PTE2PA f = p" "PTE_FLAGS f = PTE_FLAGS e"
    unfolding f_def v using PTE_FLAGS_lt page_ok_aligned [OF assms(1)] by simp_all
qed

lemma same_page_frame:
  assumes "only_pages D (pmem s) (pmem s')" "\<forall>q\<in>D. aligned 12 q" "user_pages (pmem s) new k \<inter> D = {}" "owns_range s new fl 0 k"
    and "va < MAXVA" "unat va < k * 4096" "mapping (pmem s') new va = mapping (pmem s) new va" "same_page s new s0 old va"
  shows "same_page s' new s0 old va"
proof -
  have "\<forall>p\<in>user_pages (pmem s) new k. aligned 12 p" using assms(4) page_ok_aligned unfolding owns_range_def by blast
  from user_byte_only [OF assms(1-3) this assms(5-7)] show ?thesis using assms(7,8) by (simp add: same_page_def)
qed

lemma leaf_pages_cong:
  "(\<And>va. va < MAXVA \<Longrightarrow> mapping m' root va = mapping m root va) \<Longrightarrow> leaf_pages m' root a k = leaf_pages m root a k"
  unfolding leaf_pages_def by (intro Collect_cong) (metis (no_types, lifting))

text \<open>Steps that change no translation keep what was copied.\<close>

lemma copied_frame:
  assumes c: "copied s0 old new fl0 k s fl" and inv: "vm_inv s' new fl'"
    and o: "only_pages D (pmem s) (pmem s')" "\<forall>q\<in>D. aligned 12 q" "D \<subseteq> spare s0 new fl0" "user_pages (pmem s) new k \<inter> D = {}"
    and m: "\<And>va. va < MAXVA \<Longrightarrow> mapping (pmem s') new va = mapping (pmem s) new va"
    and f: "set fl' \<union> pt_pages (pmem s') new = set fl \<union> pt_pages (pmem s) new" "set fl' \<subseteq> set fl"
  shows "copied s0 old new fl0 k s' fl'"
proof -
  note C = copiedD [OF c]
  have u: "user_pages (pmem s') new k = user_pages (pmem s) new k" by (rule leaf_pages_cong [OF m])
  have "page_ok q \<and> q \<notin> set fl' \<and> q \<notin> pt_pages (pmem s') new" if "q \<in> user_pages (pmem s') new k" for q
    using that C(4,10) f(1) unfolding u owns_range_def by blast
  moreover have "key 3 vb = key 3 vc"
    if "vb < MAXVA" "vc < MAXVA" "unat (vb - 0) < k * 4096" "unat (vc - 0) < k * 4096"
      "mapping (pmem s') new vb = Some e" "mapping (pmem s') new vc = Some g" "PTE2PA e = PTE2PA g" for vb vc e g
    using C(4) that m [OF that(1)] m [OF that(2)] unfolding owns_range_def by metis
  ultimately have own: "owns_range s' new fl' 0 k" unfolding owns_range_def by blast
  have sp: "only_pages (spare s0 new fl0) (pmem s0) (pmem s')" using only_pages_trans [OF C(3) only_pages_mono [OF o(1,3)]] by simp
  have "same_page s' new s0 old va" if "va < MAXVA" "unat va < k * 4096" for va
    by (rule same_page_frame [OF o(1,2,4) C(4) that m [OF that(1)] C(7) [OF that]])
  moreover have "set fl' \<union> user_pages (pmem s') new k \<union> pt_pages (pmem s') new = spare s0 new fl0" using C(2) f(1) u by auto
  moreover have "set fl' \<union> user_pages (pmem s') new k \<subseteq> set fl0" using C(5) f(2) u by auto
  ultimately show ?thesis using inv own sp m C(6) unfolding copied_def by simp
qed

text \<open>The new page reads as the old one: the frame of \<open>va\<close> has its bytes.\<close>

lemma same_page_new:
  assumes f: "mapping (pmem s') new va = Some (PA2PTE p OR PTE_FLAGS e OR PTE_V)" and p: "page_ok p" "e AND PTE_V \<noteq> 0"
    and b: "\<And>x. in_page p x \<Longrightarrow> pmem s' x = pmem s (PTE2PA e + (x - p))"
    and e: "mapping (pmem s) old va = Some e" "mapping (pmem s0) old va = Some e" "user_byte (pmem s) old va = user_byte (pmem s0) old va"
  shows "same_page s' new s0 old va"
proof -
  let ?f = "PA2PTE p OR PTE_FLAGS e OR PTE_V"
  note F = copied_entry [OF p]
  have "pmem s' (frame ?f va) = pmem s (frame e va)"
    using b [of "frame ?f va"] frame_in_page [of ?f va] F(1) by (simp add: frame_def)
  then show ?thesis using f e F(2) by (simp add: same_page_def user_byte_def)
qed

lemma mapping_valid: "mapping m root va = Some e \<Longrightarrow> e AND PTE_V \<noteq> 0"
  by (auto simp: mapping_def Let_def split: option.splits if_splits)

lemma copied_take:
  assumes st: "copy_start s0 old new fl0 n" and c: "copied s0 old new fl0 k s (p # fl)" and k: "k < n"
    and e: "mapping (pmem s0) old (page_at k) = Some e"
  obtains s1 r s' where "kalloc s = (p, s1)" "p \<noteq> 0"
    "mappages new (page_at k) PGSIZE p (PTE_FLAGS e) (s1\<lparr>pmem := memmove (pmem s1) p (PTE2PA e) 4096\<rparr>) = Ret (r, s')"
    "r = 0 \<Longrightarrow> \<exists>fl'. copied s0 old new fl0 (Suc k) s' fl'"
    "r \<noteq> 0 \<Longrightarrow> \<exists>s2 fl'. kfree p s' = Ret s2 \<and> copied s0 old new fl0 k s2 fl'"
proof -
  note C = copiedD [OF c] note S = copy_startD [OF st] note K = old_kept [OF st C(3,8,9)]
  have b: "Suc k * 4096 \<le> 2 ^ 38" using S(2) k by simp
  note P = page_index [OF b]
  have kn: "unat (page_at k) < n * 4096" using P(1) k by simp
  have "PTE2PA e \<in> user_pages (pmem s0) old n" by (rule user_pagesI [OF P(3) kn e])
  then have q: "page_ok (PTE2PA e)" "PTE2PA e \<notin> spare s0 new fl0" using S(4,5) by auto
  then have qp: "PTE2PA e \<noteq> p" using C(2) by auto
  have none: "mapping (pmem s) new (page_at k) = None"
    using C(6) [OF P(3)] P(1) st kn P(3) by (simp add: copy_start_def)
  obtain s1 r s' used fl' where T: "kalloc s = (p, s1)"
    "mappages new (page_at k) PGSIZE p (PTE_FLAGS e) (s1\<lparr>pmem := memmove (pmem s1) p (PTE2PA e) 4096\<rparr>) = Ret (r, s')"
    "vm_inv s' new fl'" "fl = used @ fl'" "only_pages (insert p (pt_pages (pmem s') new)) (pmem s) (pmem s')"
    "pt_pages (pmem s') new = pt_pages (pmem s) new \<union> set used"
    "\<And>x. in_page p x \<Longrightarrow> pmem s' x = pmem s (PTE2PA e + (x - p))"
    "\<And>vb. vb < MAXVA \<Longrightarrow> mapping (pmem s') new vb =
       (if r = 0 \<and> unat (vb - page_at k) < 4096 then Some (PA2PTE p OR PTE_FLAGS e OR PTE_V) else mapping (pmem s) new vb)"
    "page_ok p" "p \<notin> set fl' \<union> pt_pages (pmem s') new"
    by (rule take_page [OF C(1) q(1) qp P(2,3) none, of "PTE_FLAGS e"]) (rule that)
  have sp: "insert p (pt_pages (pmem s') new) \<subseteq> spare s0 new fl0" using C(2) T(4,6) by auto
  have al: "\<forall>x\<in>insert p (pt_pages (pmem s') new). aligned 12 x" using S(3) sp by blast
  have o: "only_pages (spare s0 new fl0) (pmem s0) (pmem s')"
    using only_pages_trans [OF C(3) only_pages_mono [OF T(5) sp]] by simp
  have d: "user_pages (pmem s) new k \<inter> insert p (pt_pages (pmem s') new) = {}" "user_pages (pmem s) new k \<inter> (set fl' \<union> pt_pages (pmem s') new) = {}"
    using C(10) T(4,6) by auto
  have low: "mapping (pmem s') new vb = mapping (pmem s) new vb" if "vb < MAXVA" "unat vb < k * 4096" for vb
    using T(8) [OF that(1)] that(2) P(5) [of vb] by auto
  have keep: "same_page s' new s0 old va" if "va < MAXVA" "unat va < k * 4096" for va
    by (rule same_page_frame [OF T(5) al d(1) C(4) that low [OF that] C(7) [OF that]])
  have "\<exists>fl'. copied s0 old new fl0 (Suc k) s' fl'" if r: "r = 0"
  proof -
    let ?f = "PA2PTE p OR PTE_FLAGS e OR PTE_V"
    note F = copied_entry [OF T(9) mapping_valid [OF e]]
    have m: "mapping (pmem s') new (page_at k) = Some ?f" using T(8) [OF P(3)] r by simp
    have u: "user_pages (pmem s') new (Suc k) = insert p (user_pages (pmem s) new k)"
      using user_pages_snoc [OF b low] m F(1) by simp
    have own: "owns_range s' new fl' 0 (Suc k)"
      by (rule owns_snoc [OF C(4) b low d(2)]) (use m F(1) T(9,10) d(1) in auto)
    have "same_page s' new s0 old va" if va: "va < MAXVA" "unat va < Suc k * 4096" for va
    proof (cases "unat va < k * 4096")
      case False
      then have h: "unat (va - page_at k) < 4096" using P(4) va(2) by blast
      have e0: "mapping (pmem s0) old va = Some e" using mapping_here [OF P(2) h] e by simp
      show ?thesis
        by (rule same_page_new [OF _ T(9) mapping_valid [OF e] T(7) _ e0])
          (use T(8) [OF va(1)] r h K(3) [OF va(1)] e0 K(4) [OF va(1)] va(2) k in auto)
    qed (use keep va(1) in blast)
    moreover have "mapping (pmem s') new va = mapping (pmem s0) new va" if "va < MAXVA" "Suc k * 4096 \<le> unat va" for va
      using T(8) [OF that(1)] C(6) [OF that(1)] that(2) P(4) [of va] by auto
    moreover have "set fl' \<union> user_pages (pmem s') new (Suc k) \<union> pt_pages (pmem s') new = spare s0 new fl0"
      using C(2) T(4,6) u by auto
    moreover have "set fl' \<union> user_pages (pmem s') new (Suc k) \<subseteq> set fl0" using C(5) T(4) u by auto
    ultimately show ?thesis using T(3) o own unfolding copied_def by blast
  qed
  moreover have "\<exists>s2 fl'. kfree p s' = Ret s2 \<and> copied s0 old new fl0 k s2 fl'" if r: "r \<noteq> 0"
  proof -
    have p: "p \<notin> set fl'" "p \<notin> pt_pages (pmem s') new" using T(10) by auto
    obtain s2 where s2: "kfree p s' = Ret s2" "vm_inv s2 new (p # fl')" "pt_pages (pmem s2) new = pt_pages (pmem s') new"
      "\<And>va. va < MAXVA \<Longrightarrow> mapping (pmem s2) new va = mapping (pmem s') new va" "\<And>x. \<not> in_page p x \<Longrightarrow> pmem s2 x = pmem s' x"
      using vm_inv_kfree [OF T(3,9) p] by metis
    have "only_pages (insert p (pt_pages (pmem s') new)) (pmem s) (pmem s2)"
      using only_pages_trans [OF T(5) only_pages_one [of p "pmem s2" "pmem s'", OF s2(5)]] by simp
    then have "copied s0 old new fl0 k s2 (p # fl')"
      by (rule copied_frame [OF c s2(2) _ al sp d(1)]) (use s2(3,4) T(4,6,8) r in auto)
    then show ?thesis using s2(1) by blast
  qed
  moreover have "p \<noteq> 0" using T(9) by (simp add: page_ok_def)
  ultimately show ?thesis using that [OF T(1) _ T(2)] by blast
qed

text \<open>Giving up after \<open>k\<close> pages unmaps and frees them all: nothing is copied, and no page is lost.\<close>

lemma copied_abort:
  assumes st: "copy_start s0 old new fl0 n" and c: "copied s0 old new fl0 k s fl" and k: "k \<le> n"
  shows "\<exists>s' fl'. uvmunmap new 0 (page_at k div PGSIZE) True s = Ret s' \<and> copied s0 old new fl0 0 s' fl'"
proof -
  note C = copiedD [OF c] note S = copy_startD [OF st]
  have b: "k * 4096 \<le> 2 ^ 38" using S(2) k by (meson le_trans mult_le_mono1)
  then have "unat (page_at k) = k * 4096" unfolding page_at_def by (intro unat_of_nat64) simp
  then have u: "unat (page_at k div 4096) = k" by (simp add: unat_div_distrib)
  obtain s' fl' where U: "uvmunmap new 0 (page_at k div PGSIZE) True s = Ret s'" "vm_inv s' new fl'"
    "set fl' = set fl \<union> user_pages (pmem s) new k" "pt_pages (pmem s') new = pt_pages (pmem s) new"
    "\<forall>vb < MAXVA. mapping (pmem s') new vb = (if unat vb < k * 4096 then None else mapping (pmem s) new vb)"
    "only_pages (pt_pages (pmem s) new \<union> user_pages (pmem s) new k) (pmem s) (pmem s')"
    using uvmunmap_spec [OF C(1), of 0 "page_at k div PGSIZE" True] C(4) b u by (auto simp: aligned_def)
  have sp: "pt_pages (pmem s) new \<union> user_pages (pmem s) new k \<subseteq> spare s0 new fl0" using C(2) by auto
  have o: "only_pages (spare s0 new fl0) (pmem s0) (pmem s')" using only_pages_trans [OF C(3) only_pages_mono [OF U(6) sp]] by simp
  have m: "mapping (pmem s') new va = mapping (pmem s0) new va" if va: "va < MAXVA" for va
  proof (cases "unat va < k * 4096")
    case True
    moreover from this have "unat va < n * 4096" using k by (meson less_le_trans mult_le_mono1)
    ultimately show ?thesis using U(5) va st by (simp add: copy_start_def)
  qed (use U(5) C(6) [OF va] va in simp)
  have n0: "user_pages m root 0 = {}" for m root by (simp add: leaf_pages_def)
  have "owns_range s' new fl' 0 0" by (simp add: owns_range_def n0)
  then show ?thesis using U(1-4) o m C(2,5) unfolding copied_def n0 by (intro exI [of _ s'] exI [of _ fl']) auto
qed

lemma page_at_Suc: "page_at k + 4096 = page_at (Suc k)"
  by (simp add: page_at_def)

text \<open>One turn of the loop copies the page and goes on, or takes everything back and returns -1.\<close>

lemma uvmcopy_turn:
  assumes st: "copy_start s0 old new fl0 n" and c: "copied s0 old new fl0 k s fl" and k: "k < n" and lt: "page_at k < sz"
  obtains (more) s1 fl1 where "copied s0 old new fl0 (Suc k) s1 fl1"
      "\<And>f. uvmcopy_loop (Suc f) old new (page_at k) sz s = uvmcopy_loop f old new (page_at (Suc k)) sz s1"
  | (undone) s1 fl1 where "copied s0 old new fl0 0 s1 fl1" "\<And>f. uvmcopy_loop (Suc f) old new (page_at k) sz s = Ret (-1, s1)"
proof -
  let ?a = "page_at k"
  note C = copiedD [OF c] note K = old_kept [OF st C(3,8,9)]
  have "Suc k * 4096 \<le> 2 ^ 38" using copy_startD(2) [OF st] k by simp
  note P = page_index [OF this] and A = copied_abort [OF st _ less_imp_le [OF k]]
  show ?thesis
    using K(1) P(3)
  proof (cases rule: walk_noalloc)
    case absent
    then have "mapping (pmem s0) old ?a = None" using K(3) [OF P(3)] by simp
    from copied_skip [OF st c k this] show ?thesis using more absent(1) lt by (simp add: page_at_Suc)
  next
    case (leaf t)
    note w = leaf(1,2) mapping_entry [OF leaf(3)] K(3) [OF P(3)]
    show ?thesis
    proof (cases "mapping (pmem s0) old ?a")
      case None
      then show ?thesis using more copied_skip [OF st c k None] w lt by (auto simp: page_at_Suc split: if_splits)
    next
      case (Some e)
      then have e: "load64 (pmem s) (slot t (PX 0 ?a)) = e" "e AND PTE_V \<noteq> 0" using w(3,4) by (auto split: if_splits)
      show ?thesis
      proof (cases fl)
        case Nil
        then have "kalloc s = (0, s)" using kalloc_empty C(8) by simp
        then show ?thesis using A [OF c] undone w(1,2) e lt by (auto simp: Let_def)
      next
        case (Cons p fl1)
        obtain s1 r s' where T: "kalloc s = (p, s1)" "p \<noteq> 0"
          "mappages new ?a PGSIZE p (PTE_FLAGS e) (s1\<lparr>pmem := memmove (pmem s1) p (PTE2PA e) 4096\<rparr>) = Ret (r, s')"
          "r = 0 \<Longrightarrow> \<exists>fl'. copied s0 old new fl0 (Suc k) s' fl'"
          "r \<noteq> 0 \<Longrightarrow> \<exists>s2 fl'. kfree p s' = Ret s2 \<and> copied s0 old new fl0 k s2 fl'"
          using copied_take [OF st c [unfolded Cons] k Some] by metis
        have l: "uvmcopy_loop (Suc f) old new ?a sz s =
            (if r \<noteq> 0 then obind (kfree p s') (\<lambda>s5. obind (uvmunmap new 0 (?a div PGSIZE) True s5) (\<lambda>s6. Ret (-1, s6)))
             else uvmcopy_loop f old new (page_at (Suc k)) sz s')" for f
          using w(1,2) e lt T(1-3) by (simp add: Let_def page_at_Suc)
        show ?thesis
        proof (cases "r = 0")
          case True
          then show ?thesis using T(4) more l by auto
        next
          case False
          then obtain s2 fl' where "kfree p s' = Ret s2" "copied s0 old new fl0 k s2 fl'" using T(5) by blast
          then show ?thesis using l False A undone by fastforce
        qed
      qed
    qed
  qed
qed

lemma uvmcopy_loop_spec:
  assumes st: "copy_start s0 old new fl0 n" and sz: "\<And>k. k \<le> n \<Longrightarrow> page_at k < sz \<longleftrightarrow> k < n"
  shows "copied s0 old new fl0 k s fl \<Longrightarrow> k \<le> n \<Longrightarrow> n - k \<le> f \<Longrightarrow>
    \<exists>r s' fl'. uvmcopy_loop f old new (page_at k) sz s = Ret (r, s') \<and>
      (if r = 0 then copied s0 old new fl0 n s' fl' else r = -1 \<and> copied s0 old new fl0 0 s' fl')"
proof (induction f arbitrary: k s fl)
  case 0
  then show ?case by auto
next
  case (Suc f)
  show ?case
  proof (cases "k < n")
    case False
    then show ?thesis using Suc.prems sz [of k] by auto
  next
    case k: True
    have lt: "page_at k < sz" using sz [of k] k by simp
    show ?thesis
      using st Suc.prems(1) k lt
    proof (cases rule: uvmcopy_turn)
      case (more s1 fl1)
      then show ?thesis using Suc.IH [OF more(1)] k Suc.prems(3) by simp
    next
      case (undone s1 fl1)
      then show ?thesis by (intro exI [of _ "-1"] exI [of _ s1] exI [of _ fl1]) simp
    qed
  qed
qed

text \<open>The number of pages of a process of \<open>sz\<close> bytes.\<close>

definition pages_of :: "u64 \<Rightarrow> nat" where
  "pages_of sz = (unat sz + 4095) div 4096"

lemma page_at_less:
  assumes "pages_of sz * 4096 \<le> 2 ^ 38" "k \<le> pages_of sz"
  shows "page_at k < sz \<longleftrightarrow> k < pages_of sz"
proof -
  have "k * 4096 \<le> 2 ^ 38" using assms by (meson le_trans mult_le_mono1)
  then have "unat (page_at k) = k * 4096" unfolding page_at_def by (intro unat_of_nat64) simp
  moreover have "k < pages_of sz \<longleftrightarrow> Suc k * 4096 \<le> unat sz + 4095"
    unfolding pages_of_def Suc_le_eq [symmetric] by (rule less_eq_div_iff_mult_less_eq) simp
  ultimately show ?thesis by (simp add: word_less_nat_alt Suc_le_eq)
qed

lemma copied_0: "copy_start s old new fl n \<Longrightarrow> copied s old new fl 0 s fl"
  by (simp add: copied_def copy_start_def owns_range_def leaf_pages_def)

text \<open>
  C2. \<open>uvmcopy\<close> never panics. When it returns 0, every address below \<open>sz\<close> of the new page table reads the byte that the old one
  has there, with the same permissions, from pages the old table does not use; when it returns -1 for lack of memory, the new table is as before
  and every page that was free is free again or a page of the new table. In both cases the old address space is unchanged.
\<close>

theorem uvmcopy_clones_memory:
  assumes "copy_start s old new fl (pages_of sz)"
  shows "\<exists>r s' fl'. uvmcopy old new sz s = Ret (r, s') \<and> vm_inv s' old fl' \<and> vm_inv s' new fl' \<and>
    (\<forall>va < MAXVA. mapping (pmem s') old va = mapping (pmem s) old va) \<and>
    (\<forall>va < MAXVA. unat va < pages_of sz * 4096 \<longrightarrow> user_byte (pmem s') old va = user_byte (pmem s) old va) \<and>
    (if r = 0
     then (\<forall>va < MAXVA. unat va < pages_of sz * 4096 \<longrightarrow>
             user_byte (pmem s') new va = user_byte (pmem s) old va \<and>
             map_option PTE_FLAGS (mapping (pmem s') new va) = map_option PTE_FLAGS (mapping (pmem s) old va)) \<and>
          user_pages (pmem s') new (pages_of sz) \<inter> user_pages (pmem s') old (pages_of sz) = {}
     else r = -1 \<and> (\<forall>va < MAXVA. mapping (pmem s') new va = mapping (pmem s) new va) \<and>
          set fl' \<union> pt_pages (pmem s') new = set fl \<union> pt_pages (pmem s) new)"
proof -
  let ?n = "pages_of sz"
  note S = copy_startD [OF assms]
  have f: "?n - 0 \<le> unat sz div 4096 + 1"
    unfolding pages_of_def using div_le_mono [of "unat sz + 4095" "unat sz + 4096" 4096] by simp
  have z: "page_at 0 = 0" by (simp add: page_at_def)
  from uvmcopy_loop_spec [OF assms _ copied_0 [OF assms] le0 f] page_at_less [OF S(2)]
  obtain r s' fl' where r: "uvmcopy old new sz s = Ret (r, s')"
    "if r = 0 then copied s old new fl ?n s' fl' else r = -1 \<and> copied s old new fl 0 s' fl'"
    unfolding uvmcopy_def z by blast
  then obtain k where c: "copied s old new fl k s' fl'" "if r = 0 then k = ?n else r = -1 \<and> k = 0" by metis
  note C = copiedD [OF c(1)] note K = old_kept [OF assms C(3,8,9)]
  have "user_pages (pmem s') old ?n = user_pages (pmem s) old ?n" by (rule leaf_pages_cong [OF K(3)])
  then have "user_pages (pmem s') new k \<inter> user_pages (pmem s') old ?n = {}" using S(5) C(5) by auto
  moreover have "user_pages (pmem s') new k = {}" if "k = 0" using that by (simp add: leaf_pages_def)
  ultimately show ?thesis
    using r(1) K(1,3,4) C(1,2,6,7) c(2) unfolding same_page_def
    by (intro exI [of _ r] exI [of _ s'] exI [of _ fl'] conjI allI impI) (auto split: if_splits)
qed

section \<open>Concrete instances\<close>

text \<open>The table at \<open>0x80010000\<close> of \<open>demo\<close> with one user page mapped at address 0.\<close>

abbreviation (input) demo_pages :: "u64 set" where
  "demo_pages \<equiv> {0x80001000, 0x80002000, 0x80003000}"

lemma demo_user_page:
  obtains s fl where "vm_inv s 0x80010000 fl" "set fl \<subseteq> demo_pages" "pt_pages (pmem s) 0x80010000 \<subseteq> insert 0x80010000 demo_pages"
    "only_pages (insert 0x80010000 demo_pages) (pmem demo) (pmem s)"
    "\<And>va. va < MAXVA \<Longrightarrow> mapping (pmem s) 0x80010000 va = (if unat va < 4096 then Some (PA2PTE 0x80014000 OR 23) else None)"
proof -
  let ?r = "0x80010000 :: u64"
  note D = demo_table [OF blank_demo(1)]
  have a: "aligned 12 (0 :: u64)" by (simp add: aligned_def)
  have "\<forall>vb < MAXVA. unat (vb - 0) < 1 * 4096 \<longrightarrow> mapping (pmem demo) ?r vb = None" using D(2) by blast
  moreover have "unat (0 :: u64) + 1 * 4096 \<le> 2 ^ 38" by simp
  ultimately obtain r :: int and s used fl j where m: "if r = 0 then j = 1 else r = -1 \<and> j < 1 \<and> fl = []" "vm_inv s ?r fl"
    "[0x80001000, 0x80002000, 0x80003000] = used @ fl" "pt_pages (pmem s) ?r = pt_pages (pmem demo) ?r \<union> set used"
    "\<forall>vb < MAXVA. mapping (pmem s) ?r vb =
       (if unat (vb - 0) < j * 4096 then Some (PA2PTE (0x80014000 + PGROUNDDOWN (vb - 0)) OR 22 OR PTE_V) else mapping (pmem demo) ?r vb)"
    "\<forall>x. (\<forall>p \<in> pt_pages (pmem s) ?r. \<not> in_page p x) \<longrightarrow> pmem s x = pmem demo x" "length used \<le> 2 * 1"
    using mappages_spec [OF D(1) a zero_less_one, of "0x80014000" 22] by blast
  have "fl \<noteq> []" using m(3,7) by (auto dest: arg_cong [of _ _ length])
  then have j: "j = 1" using m(1) by (auto split: if_splits)
  have st: "set used \<union> set fl = demo_pages" unfolding set_append [symmetric] m(3) [symmetric] by simp
  have f: "set fl \<subseteq> demo_pages" and p: "pt_pages (pmem s) ?r \<subseteq> insert ?r demo_pages" using st m(4) D(3) by auto
  have "only_pages (pt_pages (pmem s) ?r) (pmem demo) (pmem s)" using m(6) unfolding only_pages_def by blast
  note only_pages_mono [OF this p]
  moreover have "mapping (pmem s) ?r va = (if unat va < 4096 then Some (PA2PTE 0x80014000 OR 23) else None)" if "va < MAXVA" for va
    using m(5) that j D(2) PGROUNDDOWN_small [of va] by simp
  ultimately show ?thesis using that [OF m(2) f p] by blast
qed

lemma demo_owned:
  assumes "set fl \<subseteq> demo_pages" "pt_pages (pmem s) 0x80010000 \<subseteq> insert 0x80010000 demo_pages"
    and m: "\<And>va. va < MAXVA \<Longrightarrow> mapping (pmem s) 0x80010000 va = (if unat va < 4096 then Some (PA2PTE 0x80014000 OR 23) else None)"
  shows "user_pages (pmem s) 0x80010000 1 = {0x80014000}" "owns_range s 0x80010000 fl 0 1"
proof -
  let ?r = "0x80010000 :: u64"
  have p: "PTE2PA (PA2PTE 0x80014000 OR 23) = 0x80014000" by (rule PTE2PA_PA2PTE) (simp_all add: aligned_def)
  have z: "(0 :: u64) < MAXVA" by (simp add: MAXVA_nat)
  have "0x80014000 \<in> user_pages (pmem s) ?r 1" using user_pagesI [OF z, of 1 "pmem s" ?r] m [OF z] p by simp
  moreover have "q = 0x80014000" if "q \<in> user_pages (pmem s) ?r 1" for q using that m p by (auto simp: leaf_pages_def)
  ultimately show u: "user_pages (pmem s) ?r 1 = {0x80014000}" by blast
  have k: "key 3 vb = key 3 0" if "unat (vb - 0) < 1 * 4096" for vb :: u64
    using key_page [of 0 vb] that by (simp add: aligned_def)
  have "page_ok 0x80014000" by (simp add: page_ok_def aligned_def PHYSTOP_def)
  moreover have "(0x80014000 :: u64) \<notin> set fl" "0x80014000 \<notin> pt_pages (pmem s) ?r" using assms(1,2) by auto
  moreover have "key 3 vb = key 3 vc" if "unat (vb - 0) < 1 * 4096" "unat (vc - 0) < 1 * 4096" for vb vc :: u64
    using k that by metis
  ultimately show "owns_range s ?r fl 0 1" unfolding owns_range_def u by blast
qed

theorem uvmcopy_clones_memory_witness:
  "\<exists>s s' r. mapping (pmem s) 0x80010000 0 \<noteq> None \<and> uvmcopy 0x80010000 0x80011000 0x800 s = Ret (r, s') \<and>
     (r = 0 \<longrightarrow> user_byte (pmem s') 0x80011000 5 = user_byte (pmem s) 0x80010000 5)"
proof -
  let ?r = "0x80010000 :: u64" and ?n = "0x80011000 :: u64"
  obtain s fl where s: "vm_inv s ?r fl" "set fl \<subseteq> demo_pages" "pt_pages (pmem s) ?r \<subseteq> insert ?r demo_pages"
    "only_pages (insert ?r demo_pages) (pmem demo) (pmem s)"
    "\<And>va. va < MAXVA \<Longrightarrow> mapping (pmem s) ?r va = (if unat va < 4096 then Some (PA2PTE 0x80014000 OR 23) else None)"
    by (rule demo_user_page) (rule that)
  note O = demo_owned [OF s(2,3,5)] note D = demo_table [OF blank_demo(2)]
  have al: "\<forall>q\<in>insert ?r demo_pages. aligned 12 q" by (simp add: aligned_def)
  have d: "pt_pages (pmem demo) ?n \<inter> insert ?r demo_pages = {}" "set fl \<inter> pt_pages (pmem demo) ?n = {}" using D(3) s(2) by auto
  note N = vm_inv_only [OF D(1) s(4) al d(1) vm_invD(2) [OF s(1)] d(2)]
  have n: "pages_of 0x800 = 1" by (simp add: pages_of_def)
  have "copy_start s ?r ?n fl (pages_of 0x800)"
    unfolding n copy_start_def using s(1,3) N O D(2,3) by auto
  from uvmcopy_clones_memory [OF this] obtain r s' where "uvmcopy ?r ?n 0x800 s = Ret (r, s')"
    "r = 0 \<longrightarrow> (\<forall>va < MAXVA. unat va < pages_of 0x800 * 4096 \<longrightarrow> user_byte (pmem s') ?n va = user_byte (pmem s) ?r va)" by metis
  moreover have "(5 :: u64) < MAXVA" "(0 :: u64) < MAXVA" by (simp_all add: MAXVA_nat)
  ultimately show ?thesis using s(5) n by (intro exI [of _ s] exI [of _ s'] exI [of _ r]) auto
qed

end
