(* ===== verification/Vmfree.thy ===== *)
theory Vmfree
  imports Vmcopy
begin

text \<open>
  Giving an address space back: \<open>freewalk\<close> frees the pages of a table bottom up, and \<open>uvmfree\<close> returns every page of a process,
  of its memory and of its table, to the allocator.
\<close>

section \<open>The table as a tree\<close>

text \<open>The pages of a table with \<open>n\<close> levels below \<open>p\<close>, in the order \<open>freewalk\<close> frees them.\<close>

abbreviation (input) pte_at :: "mem \<Rightarrow> u64 \<Rightarrow> nat \<Rightarrow> u64" where
  "pte_at m p i \<equiv> load64 m (slot p (of_nat i))"

fun tpages :: "nat \<Rightarrow> mem \<Rightarrow> u64 \<Rightarrow> u64 list" where
  "tpages 0 m p = [p]"
| "tpages (Suc n) m p = concat (map (\<lambda>i. if pte_at m p i AND PTE_V \<noteq> 0 then tpages n m (PTE2PA (pte_at m p i)) else []) [0..<512]) @ [p]"

fun empty_tree :: "nat \<Rightarrow> mem \<Rightarrow> u64 \<Rightarrow> bool" where
  "empty_tree 0 m p \<longleftrightarrow> (\<forall>i < 512. pte_at m p i AND PTE_V = 0)"
| "empty_tree (Suc n) m p \<longleftrightarrow> (\<forall>i < 512. pte_at m p i AND PTE_V \<noteq> 0 \<longrightarrow>
     pte_at m p i AND (PTE_R OR PTE_W OR PTE_X) = 0 \<and> empty_tree n m (PTE2PA (pte_at m p i)))"

text \<open>One entry of a page, and the pages below the entries from \<open>i\<close> on.\<close>

definition child :: "nat \<Rightarrow> mem \<Rightarrow> u64 \<Rightarrow> nat \<Rightarrow> u64 list" where
  "child n m p i = (case n of 0 \<Rightarrow> [] | Suc k \<Rightarrow> if pte_at m p i AND PTE_V \<noteq> 0 then tpages k m (PTE2PA (pte_at m p i)) else [])"

definition kids :: "nat \<Rightarrow> mem \<Rightarrow> u64 \<Rightarrow> nat \<Rightarrow> u64 list" where
  "kids n m p i = concat (map (child n m p) [i..<512])"

definition entry_empty :: "nat \<Rightarrow> mem \<Rightarrow> u64 \<Rightarrow> nat \<Rightarrow> bool" where
  "entry_empty n m p i \<longleftrightarrow> (case n of
     0 \<Rightarrow> pte_at m p i AND PTE_V = 0
   | Suc k \<Rightarrow> pte_at m p i AND PTE_V \<noteq> 0 \<longrightarrow> pte_at m p i AND (PTE_R OR PTE_W OR PTE_X) = 0 \<and> empty_tree k m (PTE2PA (pte_at m p i)))"

lemma tpages_kids: "tpages n m p = kids n m p 0 @ [p]"
proof (cases n)
  case (Suc k)
  then have "child n m p = (\<lambda>i. if pte_at m p i AND PTE_V \<noteq> 0 then tpages k m (PTE2PA (pte_at m p i)) else [])"
    by (auto simp: child_def)
  then show ?thesis by (simp only: Suc tpages.simps kids_def)
qed (simp add: kids_def child_def)

lemma empty_tree_entries: "empty_tree n m p \<longleftrightarrow> (\<forall>i < 512. entry_empty n m p i)"
  by (cases n) (simp_all add: entry_empty_def)

lemma kids_step: "i < 512 \<Longrightarrow> kids n m p i = child n m p i @ kids n m p (Suc i)"
  by (simp add: kids_def upt_conv_Cons del: upt_rec_numeral)

lemma kids_end [simp]: "kids n m p 512 = []"
  by (simp add: kids_def)

lemma unat_index: "i < 512 \<Longrightarrow> unat (of_nat i :: u64) = i"
  by (intro unat_of_nat64) simp

lemma tree_frame:
  assumes "\<forall>q \<in> set (tpages n m p). aligned 12 q \<and> (\<forall>x. in_page q x \<longrightarrow> m' x = m x)"
  shows "tpages n m' p = tpages n m p \<and> empty_tree n m' p = empty_tree n m p"
  using assms
proof (induction n arbitrary: p)
  case 0
  then have "pte_at m' p i = pte_at m p i" if "i < 512" for i
    using that by (intro load64_slot_frame) (auto simp: unat_index)
  then show ?case by simp
next
  case (Suc n)
  have p: "pte_at m' p i = pte_at m p i" if "i < 512" for i
    using that Suc.prems by (intro load64_slot_frame) (auto simp: unat_index)
  have c: "tpages n m' (PTE2PA (pte_at m p i)) = tpages n m (PTE2PA (pte_at m p i)) \<and>
      empty_tree n m' (PTE2PA (pte_at m p i)) = empty_tree n m (PTE2PA (pte_at m p i))"
    if "i < 512" "pte_at m p i AND PTE_V \<noteq> 0" for i
    using Suc.prems that by (intro Suc.IH) (auto simp del: upt_rec_numeral)
  have "map (\<lambda>i. if pte_at m' p i AND PTE_V \<noteq> 0 then tpages n m' (PTE2PA (pte_at m' p i)) else []) [0..<512] =
      map (\<lambda>i. if pte_at m p i AND PTE_V \<noteq> 0 then tpages n m (PTE2PA (pte_at m p i)) else []) [0..<512]"
    using p c by (intro map_cong) (auto simp del: upt_rec_numeral)
  then have "tpages (Suc n) m' p = tpages (Suc n) m p" by (simp only: tpages.simps)
  moreover have "empty_tree (Suc n) m' p = empty_tree (Suc n) m p" using p c by simp
  ultimately show ?case by blast
qed

lemma child_frame:
  assumes "i < 512" "pte_at m' p i = pte_at m p i" "\<forall>q \<in> set (child n m p i). aligned 12 q \<and> (\<forall>x. in_page q x \<longrightarrow> m' x = m x)"
  shows "child n m' p i = child n m p i" "entry_empty n m' p i = entry_empty n m p i"
proof -
  have "child n m' p i = child n m p i \<and> entry_empty n m' p i = entry_empty n m p i"
  proof (cases n)
    case (Suc k)
    show ?thesis
    proof (cases "pte_at m p i AND PTE_V = 0")
      case False
      then have "child n m p i = tpages k m (PTE2PA (pte_at m p i))" using Suc by (simp add: child_def)
      then have "tpages k m' (PTE2PA (pte_at m p i)) = tpages k m (PTE2PA (pte_at m p i)) \<and>
          empty_tree k m' (PTE2PA (pte_at m p i)) = empty_tree k m (PTE2PA (pte_at m p i))"
        using tree_frame [of k m "PTE2PA (pte_at m p i)" m'] assms(3) by simp
      then show ?thesis using assms(2) Suc by (simp add: child_def entry_empty_def)
    qed (use assms(2) Suc in \<open>simp add: child_def entry_empty_def\<close>)
  qed (use assms(2) in \<open>simp add: child_def entry_empty_def\<close>)
  then show "child n m' p i = child n m p i" "entry_empty n m' p i = entry_empty n m p i" by simp_all
qed

lemma kids_frame:
  assumes "\<And>j. i \<le> j \<Longrightarrow> j < 512 \<Longrightarrow> child n m' p j = child n m p j"
  shows "kids n m' p i = kids n m p i"
  unfolding kids_def by (rule arg_cong [where f = concat], rule map_cong) (use assms in auto)

section \<open>Freewalk\<close>

text \<open>Freeing the pages below one entry and clearing the entry.\<close>

lemma freewalk_entry:
  assumes "i < 512" "freelist_is s1 fl1" "only_pages (set c) (pmem s) (pmem s1)" "\<forall>q \<in> set c. aligned 12 q"
    and p: "aligned 12 p" "p \<notin> set c" "p \<notin> set fl1" and "j < 512" "j \<noteq> i"
    and d: "\<forall>q \<in> set (child n (pmem s) p j). aligned 12 q \<and> q \<notin> set c \<and> q \<noteq> p"
    and s2: "s2 = s1\<lparr>pmem := store64 (pmem s1) (slot p (of_nat i)) 0\<rparr>"
  shows "child n (pmem s2) p j = child n (pmem s) p j" "entry_empty n (pmem s2) p j = entry_empty n (pmem s) p j"
proof -
  have ij: "unat (of_nat i :: u64) < 512" "unat (of_nat j :: u64) < 512" "(of_nat i :: u64) \<noteq> of_nat j"
    using assms(1,8,9) unat_index [of i] unat_index [of j] by auto
  have "pte_at (pmem s2) p j = pte_at (pmem s1) p j"
    unfolding s2 using load64_slot_other [OF p(1) p(1) ij(1,2)] ij(3) by simp
  also have "\<dots> = pte_at (pmem s) p j"
    by (rule load64_slot_frame [OF p(1) ij(2)]) (use only_pagesD [OF assms(3,4) p(1,2)] in blast)
  finally have e: "pte_at (pmem s2) p j = pte_at (pmem s) p j" .
  have "pmem s2 x = pmem s x" if "aligned 12 q" "q \<notin> set c" "q \<noteq> p" "in_page q x" for q x
  proof -
    note sf = slot_facts [OF p(1) ij(1)]
    have "\<not> in_page p x" using in_page_disjoint [OF that(1) p(1) that(3,4)] .
    then have "\<not> unat (x - slot p (of_nat i)) < 8" using in_page_word [OF p(1) sf(2,3)] by blast
    then have "pmem s2 x = pmem s1 x" by (simp add: s2 store64_outside)
    then show ?thesis using only_pagesD [OF assms(3,4) that(1,2,4)] by simp
  qed
  then show "child n (pmem s2) p j = child n (pmem s) p j" "entry_empty n (pmem s2) p j = entry_empty n (pmem s) p j"
    using child_frame [OF assms(8) e, of n] d by blast+
qed

lemma freewalk_from_end:
  assumes "freelist_is s fl" "page_ok p" "p \<notin> set fl"
  shows "\<exists>s'. freewalk_from p 512 s = Some (Ret s') \<and> freelist_is s' (p # fl) \<and> only_pages {p} (pmem s) (pmem s')"
proof -
  obtain s' where "kfree p s = Ret s'" "freelist_is s' (p # fl)" "\<And>x. \<not> in_page p x \<Longrightarrow> pmem s' x = pmem s x"
    using kfree_pushes [OF assms] by metis
  then show ?thesis using only_pages_one [of p "pmem s'" "pmem s"] by (simp add: freewalk_from.simps [of p 512 s])
qed

text \<open>The loop over the entries of one page, when the pages one level down can be freed.\<close>

lemma freewalk_loop:
  assumes below: "\<And>q s fl k. n = Suc k \<Longrightarrow> freelist_is s fl \<Longrightarrow> empty_tree k (pmem s) q \<Longrightarrow> distinct (tpages k (pmem s) q @ fl) \<Longrightarrow>
      (\<forall>r \<in> set (tpages k (pmem s) q). page_ok r) \<Longrightarrow> \<exists>s'. freewalk_from q 0 s = Some (Ret s') \<and>
        freelist_is s' (rev (tpages k (pmem s) q) @ fl) \<and> only_pages (set (tpages k (pmem s) q)) (pmem s) (pmem s')"
    and "i \<le> 512" "freelist_is s fl" "\<forall>j. i \<le> j \<longrightarrow> j < 512 \<longrightarrow> entry_empty n (pmem s) p j"
    and "distinct (kids n (pmem s) p i @ p # fl)" "\<forall>q \<in> insert p (set (kids n (pmem s) p i)). page_ok q"
  shows "\<exists>s'. freewalk_from p i s = Some (Ret s') \<and> freelist_is s' (p # rev (kids n (pmem s) p i) @ fl) \<and>
    only_pages (insert p (set (kids n (pmem s) p i))) (pmem s) (pmem s')"
  using assms(2-)
proof (induction "512 - i" arbitrary: i s fl)
  case 0
  then have "i = 512" by simp
  then show ?case using freewalk_from_end [OF "0.prems"(2), of p] "0.prems"(4,5) by simp
next
  case (Suc m)
  then have i: "i < 512" by simp
  let ?e = "pte_at (pmem s) p i" and ?c = "child n (pmem s) p i" and ?K = "kids n (pmem s) p (Suc i)"
  have K: "kids n (pmem s) p i = ?c @ ?K" by (rule kids_step [OF i])
  have D: "distinct (?K @ p # rev ?c @ fl)" "distinct (?c @ fl)" "p \<notin> set ?c" "set ?c \<inter> set ?K = {}" "p \<notin> set ?K" "p \<notin> set fl"
    using Suc.prems(4) unfolding K by auto
  have E: "entry_empty n (pmem s) p i" using Suc.prems(3) i by simp
  have kc: "set (child n (pmem s) p j) \<subseteq> set ?K" if "Suc i \<le> j" "j < 512" for j
    using that by (auto simp: kids_def simp del: upt_rec_numeral)
  show ?case
  proof (cases "?e AND PTE_V = 0")
    case True
    then have c: "?c = []" by (simp add: child_def split: nat.split)
    have f: "freewalk_from p i s = freewalk_from p (Suc i) s"
      using i True by (subst freewalk_from.simps) (simp add: slot_def Let_def)
    have "\<exists>s'. freewalk_from p (Suc i) s = Some (Ret s') \<and> freelist_is s' (p # rev ?K @ fl) \<and>
        only_pages (insert p (set ?K)) (pmem s) (pmem s')"
      by (rule Suc.hyps(1)) (use Suc.hyps(2) Suc.prems i K c in auto)
    then show ?thesis unfolding f K c by simp
  next
    case False
    then obtain k where k: "n = Suc k" "?e AND (PTE_R OR PTE_W OR PTE_X) = 0" "empty_tree k (pmem s) (PTE2PA ?e)"
      "?c = tpages k (pmem s) (PTE2PA ?e)"
      using E by (auto simp: entry_empty_def child_def split: nat.splits)
    obtain s1 where s1: "freewalk_from (PTE2PA ?e) 0 s = Some (Ret s1)" "freelist_is s1 (rev ?c @ fl)" "only_pages (set ?c) (pmem s) (pmem s1)"
      using below [OF k(1) Suc.prems(2) k(3)] D(2) Suc.prems(5) unfolding k(4) [symmetric] K by auto
    define s2 where "s2 = s1\<lparr>pmem := store64 (pmem s1) (slot p (of_nat i)) 0\<rparr>"
    have f: "freewalk_from p i s = freewalk_from p (Suc i) s2"
      using i False k(2) s1(1) by (subst freewalk_from.simps) (simp add: slot_def Let_def s2_def)
    have al: "aligned 12 q" if "q \<in> insert p (set ?c \<union> set ?K)" for q using that Suc.prems(5) K by (auto simp: page_ok_def)
    have un: "unat (of_nat i :: u64) < 512" using unat_index [OF i] i by simp
    have o2: "only_pages {p} (pmem s1) (pmem s2)"
    proof (rule only_pages_one)
      fix x assume "\<not> in_page p x"
      then have "\<not> unat (x - slot p (of_nat i)) < 8"
        using in_page_word [of p "slot p (of_nat i)" x] slot_facts [OF al un] al [of p] by blast
      then show "pmem s2 x = pmem s1 x" by (simp add: s2_def store64_outside)
    qed
    have fl2: "freelist_is s2 (rev ?c @ fl)" by (rule freelist_only [OF s1(2) o2]) (use al D(3,6) in \<open>auto simp: s2_def\<close>)
    have same: "child n (pmem s2) p j = child n (pmem s) p j" "entry_empty n (pmem s2) p j = entry_empty n (pmem s) p j"
      if "Suc i \<le> j" "j < 512" for j
    proof -
      have "\<forall>q \<in> set (child n (pmem s) p j). aligned 12 q \<and> q \<notin> set ?c \<and> q \<noteq> p" using kc [OF that] al D(4,5) by blast
      then show "child n (pmem s2) p j = child n (pmem s) p j" "entry_empty n (pmem s2) p j = entry_empty n (pmem s) p j"
        using freewalk_entry [OF i s1(2,3) _ al D(3) _ that(2) _ _ s2_def] al D(3,6) that(1) by auto
    qed
    have K2: "kids n (pmem s2) p (Suc i) = ?K" by (rule kids_frame) (use same(1) in auto)
    have "\<exists>s'. freewalk_from p (Suc i) s2 = Some (Ret s') \<and> freelist_is s' (p # rev (kids n (pmem s2) p (Suc i)) @ rev ?c @ fl) \<and>
        only_pages (insert p (set (kids n (pmem s2) p (Suc i)))) (pmem s2) (pmem s')"
      by (rule Suc.hyps(1)) (use Suc.hyps(2) Suc.prems i fl2 same(2) D(1) K K2 in auto)
    then obtain s' where s': "freewalk_from p (Suc i) s2 = Some (Ret s')" "freelist_is s' (p # rev ?K @ rev ?c @ fl)"
      "only_pages (insert p (set ?K)) (pmem s2) (pmem s')" unfolding K2 by blast
    have "only_pages (insert p (set (kids n (pmem s) p i))) (pmem s) (pmem s')"
      by (rule only_pages_mono [OF only_pages_trans [OF only_pages_trans [OF s1(3) o2] s'(3)]]) (auto simp: K)
    then show ?thesis using f s'(1,2) by (simp add: K)
  qed
qed

lemma freewalk_tree:
  assumes "freelist_is s fl" "empty_tree n (pmem s) p" "distinct (tpages n (pmem s) p @ fl)" "\<forall>q \<in> set (tpages n (pmem s) p). page_ok q"
  shows "\<exists>s'. freewalk_from p 0 s = Some (Ret s') \<and> freelist_is s' (rev (tpages n (pmem s) p) @ fl) \<and>
    only_pages (set (tpages n (pmem s) p)) (pmem s) (pmem s')"
  using assms
proof (induction n arbitrary: p s fl)
  case 0
  then show ?case using freewalk_loop [of 0 0 s fl p] by (simp add: tpages_kids [of 0] empty_tree_entries [of 0] del: tpages.simps empty_tree.simps)
next
  case (Suc n)
  have "\<exists>s'. freewalk_from p 0 s = Some (Ret s') \<and> freelist_is s' (p # rev (kids (Suc n) (pmem s) p 0) @ fl) \<and>
      only_pages (insert p (set (kids (Suc n) (pmem s) p 0))) (pmem s) (pmem s')"
    by (rule freewalk_loop) (use Suc in \<open>auto simp: tpages_kids [of "Suc n"] empty_tree_entries [of "Suc n"] simp del: tpages.simps empty_tree.simps\<close>)
  then show ?case by (simp add: tpages_kids [of "Suc n"] del: tpages.simps)
qed

section \<open>The tree of a well-formed table\<close>

lemma unat_key: "unat (key d va) = unat va div 2 ^ (39 - 9 * d)"
  unfolding key_def unat_drop_bit_eq by (simp add: drop_bit_eq_div)

lemma unat_PX_div: "unat (PX l va) = unat va div 2 ^ (12 + 9 * l) mod 512"
  unfolding PX_take_bit unat_take_bit unat_drop_bit_eq by (simp add: drop_bit_eq_div)

text \<open>Every entry of a table page is read for some address, in the root those of the lower half.\<close>

lemma va_child:
  assumes "d \<le> 2" "va < MAXVA" "i < 512" "d = 0 \<Longrightarrow> i < 256"
  obtains vb where "vb < MAXVA" "key d vb = key d va" "PX (2 - d) vb = of_nat i"
proof -
  define h where "h = (39 - 9 * d :: nat)"
  define l where "l = (12 + 9 * (2 - d) :: nat)"
  have hl: "h = l + 9" using assms(1) by (simp add: h_def l_def)
  let ?n = "(unat va div 2 ^ h * 512 + i) * 2 ^ l"
  have va: "unat va < 2 ^ 38" using assms(2) MAXVA_nat by blast
  have n: "?n < 2 ^ 38"
  proof (cases "d = 0")
    case True
    then have "unat va div 2 ^ h = 0" "l = 30" using va by (simp_all add: h_def l_def)
    then show ?thesis using assms(4) True by simp
  next
    case False
    have "unat va div 2 ^ h < 2 ^ (38 - h)" using va False assms(1) by (intro less_mult_imp_div_less) (simp add: h_def power_add [symmetric])
    then have "Suc (unat va div 2 ^ h) * 2 ^ h \<le> 2 ^ (38 - h) * 2 ^ h" by (intro mult_le_mono1) simp
    also have "\<dots> = 2 ^ 38" using False assms(1) by (simp add: h_def power_add [symmetric])
    finally have "Suc (unat va div 2 ^ h) * (512 * 2 ^ l) \<le> 2 ^ 38" by (simp add: hl power_add)
    moreover have "(unat va div 2 ^ h * 512 + i) * 2 ^ l < Suc (unat va div 2 ^ h) * (512 * 2 ^ l)"
      using assms(3) by (simp add: algebra_simps)
    ultimately show ?thesis by linarith
  qed
  let ?v = "of_nat ?n :: u64"
  have v: "unat ?v = ?n" using n by (intro unat_of_nat64) simp
  have "?n div 2 ^ h = (unat va div 2 ^ h * 512 + i) div 512"
    unfolding hl power_add by (simp add: div_mult2_eq)
  also have "\<dots> = unat va div 2 ^ h" using assms(3) by simp
  finally have "key d ?v = key d va" using v by (simp add: word_unat_eq_iff unat_key h_def)
  moreover have "PX (2 - d) ?v = of_nat i"
    using v unat_PX_div [of "2 - d" ?v] assms(3) unat_index [OF assms(3)] by (simp add: word_unat_eq_iff l_def)
  moreover have "?v < MAXVA" using v n MAXVA_nat by simp
  ultimately show thesis using that by blast
qed

lemma entry_child:
  assumes "pt_wf m root" "d < 2" "va < MAXVA" "tbl m root d va = Some p" "i < 512" "pte_at m p i AND PTE_V \<noteq> 0"
  obtains vb where "vb < MAXVA" "key d vb = key d va" "PX (2 - d) vb = of_nat i" "tbl m root (Suc d) vb = Some (PTE2PA (pte_at m p i))"
    "pte_at m p i AND (PTE_R OR PTE_W OR PTE_X) = 0"
proof -
  have "i < 256" if "d = 0"
  proof (rule ccontr)
    assume "\<not> i < 256"
    then have "256 \<le> unat (of_nat i :: u64)" "unat (of_nat i :: u64) < 512" using unat_index [OF assms(5)] assms(5) by simp_all
    then have "pte_at m root i AND PTE_V = 0" by (rule pt_wf_plain(2) [OF assms(1)])
    then show False using assms(4,6) that by simp
  qed
  then obtain vb where vb: "vb < MAXVA" "key d vb = key d va" "PX (2 - d) vb = of_nat i"
    using va_child [of d va i] assms(2,3,5) by auto
  have t: "tbl m root d vb = Some p" using tbl_key [of d vb va m root] vb(2) assms(2,4) by simp
  have v: "load64 m (slot p (PX (2 - d) vb)) AND PTE_V \<noteq> 0" using assms(6) vb(3) by simp
  have "load64 m (slot p (PX (2 - d) vb)) AND (PTE_R OR PTE_W OR PTE_X) = 0"
    by (rule pt_wf_plain(1) [OF assms(1,2) vb(1) t v])
  then show thesis using that [OF vb] t assms(6) vb(3) by simp
qed

text \<open>The pages of the subtree at depth \<open>d\<close> on the path to \<open>va\<close>.\<close>

definition below :: "mem \<Rightarrow> u64 \<Rightarrow> nat \<Rightarrow> u64 \<Rightarrow> u64 set" where
  "below m root d va = {q. \<exists>e vb. d \<le> e \<and> e \<le> 2 \<and> vb < MAXVA \<and> key d vb = key d va \<and> tbl m root e vb = Some q}"

lemma below_Suc:
  assumes "d < 2" "key d vb = key d va"
  shows "below m root (Suc d) vb \<subseteq> below m root d va"
proof
  fix q assume "q \<in> below m root (Suc d) vb"
  then obtain e vc where e: "Suc d \<le> e" "e \<le> 2" "vc < MAXVA" "key (Suc d) vc = key (Suc d) vb" "tbl m root e vc = Some q"
    unfolding below_def by blast
  have "key d vc = key d va" using key_Suc [of d vc vb] e(4) assms by simp
  then show "q \<in> below m root d va" using e Suc_leD unfolding below_def by blast
qed

lemma tree_pages:
  assumes "pt_wf m root"
  shows "d + n = 2 \<Longrightarrow> va < MAXVA \<Longrightarrow> tbl m root d va = Some p \<Longrightarrow> set (tpages n m p) = below m root d va"
proof (induction n arbitrary: d va p)
  case 0
  have d: "d = 2" "tbl m root 2 va = Some p" using 0 by (simp_all only: add_0_right)
  have t: "tbl m root 2 vb = tbl m root 2 va" if "key 2 vb = key 2 va" for vb by (rule tbl_key [OF _ that]) simp
  have "q = p" if "q \<in> below m root 2 va" for q
  proof -
    from that obtain e vb where "2 \<le> e" "e \<le> 2" "key 2 vb = key 2 va" "tbl m root e vb = Some q" unfolding below_def by blast
    then show ?thesis using t [of vb] d(2) by (metis le_antisym option.inject)
  qed
  moreover have "p \<in> below m root 2 va" using 0(2) d(2) unfolding below_def by blast
  ultimately have "below m root 2 va = {p}" by blast
  then show ?case using d(1) by simp
next
  case (Suc n)
  then have d: "d < 2" by simp
  let ?c = "\<lambda>i. PTE2PA (pte_at m p i)"
  have S: "set (tpages (Suc n) m p) = insert p (\<Union>i \<in> {i. i < 512 \<and> pte_at m p i AND PTE_V \<noteq> 0}. set (tpages n m (?c i)))"
    by (auto simp del: upt_rec_numeral)
  have "q \<in> below m root d va" if i: "i < 512" "pte_at m p i AND PTE_V \<noteq> 0" and q: "q \<in> set (tpages n m (?c i))" for q i
  proof -
    obtain vb where vb: "vb < MAXVA" "key d vb = key d va" "tbl m root (Suc d) vb = Some (?c i)"
      using entry_child [OF assms d Suc.prems(2,3) i] by metis
    have "q \<in> below m root (Suc d) vb" using Suc.IH [OF _ vb(1,3)] Suc.prems(1) q by simp
    then show ?thesis using below_Suc [OF d vb(2)] by blast
  qed
  moreover have "p \<in> below m root d va" using Suc.prems d by (auto simp: below_def)
  moreover have "q \<in> set (tpages (Suc n) m p)" if "q \<in> below m root d va" for q
  proof -
    obtain e vb where e: "d \<le> e" "e \<le> 2" "vb < MAXVA" "key d vb = key d va" "tbl m root e vb = Some q" using \<open>q \<in> _\<close> by (auto simp: below_def)
    have t: "tbl m root d vb = Some p" using tbl_key [of d vb va m root] e(4) d Suc.prems(3) by simp
    show ?thesis
    proof (cases "e = d")
      case True
      then show ?thesis using t e(5) unfolding S by simp
    next
      case False
      let ?i = "unat (PX (2 - d) vb)"
      have "tbl m root (Suc d) vb \<noteq> None" using tbl_None_mono [of m root "Suc d" vb e] e(1,5) False by auto
      then have c: "pte_at m p ?i AND PTE_V \<noteq> 0" "tbl m root (Suc d) vb = Some (?c ?i)" using t by (auto simp: Let_def split: if_splits)
      have "Suc d \<le> e" using e(1) False by simp
      then have "q \<in> below m root (Suc d) vb" using e(2,3,5) unfolding below_def by blast
      then have "q \<in> set (tpages n m (?c ?i))" using Suc.IH [OF _ e(3) c(2)] Suc.prems(1) by simp
      then show ?thesis using c(1) unat_PX [of "2 - d" vb] unfolding S by blast
    qed
  qed
  ultimately show ?case unfolding S by blast
qed

lemma distinct_concat_map:
  assumes "distinct is" "\<And>i. i \<in> set is \<Longrightarrow> distinct (f i)" "\<And>i j. i \<in> set is \<Longrightarrow> j \<in> set is \<Longrightarrow> i \<noteq> j \<Longrightarrow> set (f i) \<inter> set (f j) = {}"
  shows "distinct (concat (map f is))"
  using assms
proof (induction "is")
  case (Cons a ns)
  have "distinct (concat (map f ns))" using Cons.prems by (intro Cons.IH) auto
  moreover have "set (f a) \<inter> set (f i) = {}" if "i \<in> set ns" for i using Cons.prems(1) Cons.prems(3) [of a i] that by auto
  ultimately show ?case using Cons.prems(2) [of a] by auto
qed simp

lemma tree_distinct:
  assumes "pt_wf m root"
  shows "d + n = 2 \<Longrightarrow> va < MAXVA \<Longrightarrow> tbl m root d va = Some p \<Longrightarrow> distinct (tpages n m p)"
proof (induction n arbitrary: d va p)
  case (Suc n)
  then have d: "d < 2" "Suc d + n = 2" by simp_all
  let ?f = "\<lambda>i. if pte_at m p i AND PTE_V \<noteq> 0 then tpages n m (PTE2PA (pte_at m p i)) else []"
  have c: "\<exists>vb. vb < MAXVA \<and> PX (2 - d) vb = of_nat i \<and> tbl m root (Suc d) vb = Some (PTE2PA (pte_at m p i)) \<and> set (?f i) = below m root (Suc d) vb \<and> distinct (?f i)"
    if i: "i < 512" "?f i \<noteq> []" for i
  proof -
    have v: "pte_at m p i AND PTE_V \<noteq> 0" using i(2) by auto
    obtain vb where vb: "vb < MAXVA" "PX (2 - d) vb = of_nat i" "tbl m root (Suc d) vb = Some (PTE2PA (pte_at m p i))"
      using entry_child [OF assms d(1) Suc.prems(2,3) i(1) v] by metis
    then show ?thesis using tree_pages [OF assms d(2) vb(1,3)] Suc.IH [OF d(2) vb(1,3)] v by auto
  qed
  have deep: "e = e' \<and> key e vb = key e vb'"
    if "tbl m root e vb = Some q" "tbl m root e' vb' = Some q" "e \<le> 2" "e' \<le> 2" "vb < MAXVA" "vb' < MAXVA" for e e' vb vb' q
    using pt_wf_unique [OF assms that(1,2)] that(3-6) by blast
  have up: "key (Suc d) vb = key (Suc d) vb'" if "key e vb = key e vb'" "Suc d \<le> e" "e \<le> 2" for e and vb vb' :: u64
    using that(2,1,3) by (induction rule: dec_induct) (auto simp: key_Suc)
  have disj: "set (?f i) \<inter> set (?f j) = {}" if ij: "i < 512" "j < 512" "i \<noteq> j" for i j
  proof (rule ccontr)
    assume "set (?f i) \<inter> set (?f j) \<noteq> {}"
    then obtain q where q: "q \<in> set (?f i)" "q \<in> set (?f j)" by blast
    obtain vi where vi: "vi < MAXVA" "PX (2 - d) vi = of_nat i" "q \<in> below m root (Suc d) vi" using c [OF ij(1)] q(1) by fastforce
    obtain vj where vj: "vj < MAXVA" "PX (2 - d) vj = of_nat j" "q \<in> below m root (Suc d) vj" using c [OF ij(2)] q(2) by fastforce
    obtain e v f w where ev: "Suc d \<le> e" "e \<le> 2" "v < MAXVA" "key (Suc d) v = key (Suc d) vi" "tbl m root e v = Some q"
      and fw: "Suc d \<le> f" "f \<le> 2" "w < MAXVA" "key (Suc d) w = key (Suc d) vj" "tbl m root f w = Some q"
      using vi(3) vj(3) by (auto simp: below_def)
    have "key (Suc d) v = key (Suc d) w" using deep [OF ev(5) fw(5)] up [of e v w] ev fw by auto
    then have "key (Suc d) vi = key (Suc d) vj" using ev(4) fw(4) by simp
    then have "(of_nat i :: u64) = of_nat j" using key_Suc [of d vi vj] d(1) vi(2) vj(2) by simp
    then show False using ij unat_index by metis
  qed
  have "distinct (concat (map ?f [0..<512]))"
  proof (rule distinct_concat_map)
    show "distinct (?f i)" if "i \<in> set [0..<512]" for i using c [of i] that by (cases "?f i = []") (auto simp del: upt_rec_numeral)
    show "set (?f i) \<inter> set (?f j) = {}" if "i \<in> set [0..<512]" "j \<in> set [0..<512]" "i \<noteq> j" for i j
      using that by (intro disj) (simp_all del: upt_rec_numeral)
  qed simp
  moreover have np: "p \<notin> set (?f i)" if i: "i < 512" for i
  proof
    assume q: "p \<in> set (?f i)"
    then obtain vi where "p \<in> below m root (Suc d) vi" using c [OF i] by fastforce
    then obtain e v where "Suc d \<le> e" "e \<le> 2" "v < MAXVA" "tbl m root e v = Some p" by (auto simp: below_def)
    then show False using deep [of e v p d va] Suc.prems(2,3) d(1) by simp
  qed
  have "p \<notin> set (concat (map ?f [0..<512]))"
  proof
    assume "p \<in> set (concat (map ?f [0..<512]))"
    then obtain i where "i \<in> set [0..<512]" "p \<in> set (?f i)" unfolding set_concat set_map by blast
    then show False using np [of i] by simp
  qed
  ultimately show ?case by (simp del: upt_rec_numeral)
qed simp

lemma tree_empty:
  assumes "pt_wf m root" "\<forall>vb < MAXVA. mapping m root vb = None"
  shows "d + n = 2 \<Longrightarrow> va < MAXVA \<Longrightarrow> tbl m root d va = Some p \<Longrightarrow> empty_tree n m p"
proof (induction n arbitrary: d va p)
  case 0
  have "pte_at m p i AND PTE_V = 0" if i: "i < 512" for i
  proof -
    obtain vb where vb: "vb < MAXVA" "key 2 vb = key 2 va" "PX 0 vb = of_nat i"
      using va_child [of 2 va i thesis] "0.prems"(2) i by simp
    have "tbl m root 2 vb = Some p" using tbl_key [of 2 vb va m root] vb(2) 0 by simp
    moreover have "mapping m root vb = None" using assms(2) vb(1) by blast
    ultimately show ?thesis using vb(3) by (simp add: mapping_def Let_def split: if_splits)
  qed
  then show ?case by simp
next
  case (Suc n)
  then have d: "d < 2" "Suc d + n = 2" by simp_all
  have "pte_at m p i AND (PTE_R OR PTE_W OR PTE_X) = 0 \<and> empty_tree n m (PTE2PA (pte_at m p i))"
    if i: "i < 512" "pte_at m p i AND PTE_V \<noteq> 0" for i
    using entry_child [OF assms(1) d(1) Suc.prems(2,3) i] Suc.IH [OF d(2)] by metis
  then show ?case by simp
qed

section \<open>Freeing an address space\<close>

lemma below_root:
  assumes "va < MAXVA"
  shows "below m root 0 va = pt_pages m root"
proof -
  have "key 0 vb = key 0 va" if "vb < MAXVA" for vb using key_0 that assms by simp
  then show ?thesis unfolding below_def pt_pages_def by blast
qed

lemma freewalk_spec:
  assumes "vm_inv s root fl" "\<forall>va < MAXVA. mapping (pmem s) root va = None" "\<forall>p \<in> pt_pages (pmem s) root. page_ok p"
  shows "\<exists>s' fl'. freewalk root s = Some (Ret s') \<and> freelist_is s' fl' \<and> set fl' = set fl \<union> pt_pages (pmem s) root \<and>
    only_pages (pt_pages (pmem s) root) (pmem s) (pmem s')"
proof -
  note I = vm_invD [OF assms(1)]
  have z: "(0 :: u64) < MAXVA" "tbl (pmem s) root 0 0 = Some root" "(0 :: nat) + 2 = 2" by (simp_all add: MAXVA_def)
  have P: "set (tpages 2 (pmem s) root) = pt_pages (pmem s) root"
    using tree_pages [OF I(1) z(3,1,2)] below_root [OF z(1)] by simp
  have "distinct (tpages 2 (pmem s) root @ fl)"
    using tree_distinct [OF I(1) z(3,1,2)] P I(2,3) by (auto simp: freelist_is_def)
  then obtain s' where "freewalk_from root 0 s = Some (Ret s')" "freelist_is s' (rev (tpages 2 (pmem s) root) @ fl)"
    "only_pages (pt_pages (pmem s) root) (pmem s) (pmem s')"
    using freewalk_tree [OF I(2) tree_empty [OF I(1) assms(2) z(3,1,2)]] assms(3) P by auto
  then show ?thesis unfolding freewalk_def using P by (intro exI [of _ s'] exI [of _ "rev (tpages 2 (pmem s) root) @ fl"]) auto
qed

lemma PGROUNDUP_pages:
  assumes "pages_of sz * 4096 \<le> 2 ^ 38"
  shows "unat (PGROUNDUP sz div 4096) = pages_of sz"
proof -
  have "unat sz + 4095 < 2 ^ 64"
  proof -
    have "unat sz \<le> pages_of sz * 4096" unfolding pages_of_def using div_mult_mod_eq [of "unat sz + 4095" 4096] by linarith
    then show ?thesis using assms by simp
  qed
  then have "unat (PGROUNDUP sz) = (unat sz + 4095) div 4096 * 4096" by (simp add: unat_PGROUNDUP)
  then show ?thesis by (simp add: unat_div pages_of_def)
qed

lemma uvmfree_spec:
  assumes "vm_inv s root fl" "pages_of sz * 4096 \<le> 2 ^ 38" "owns_range s root fl 0 (pages_of sz)"
    and "\<forall>va < MAXVA. mapping (pmem s) root va \<noteq> None \<longrightarrow> unat va < pages_of sz * 4096" "\<forall>p \<in> pt_pages (pmem s) root. page_ok p"
  shows "\<exists>s' fl'. uvmfree root sz s = Some (Ret s') \<and> freelist_is s' fl' \<and>
    set fl' = set fl \<union> user_pages (pmem s) root (pages_of sz) \<union> pt_pages (pmem s) root \<and>
    only_pages (pt_pages (pmem s) root \<union> user_pages (pmem s) root (pages_of sz)) (pmem s) (pmem s')"
proof -
  let ?n = "pages_of sz" and ?u = "user_pages (pmem s) root (pages_of sz)" and ?t = "pt_pages (pmem s) root"
  obtain s1 fl1 where s1: "(if sz > 0 then uvmunmap root 0 (PGROUNDUP sz div PGSIZE) True s else Ret s) = Ret s1" "vm_inv s1 root fl1"
    "set fl1 = set fl \<union> ?u" "pt_pages (pmem s1) root = ?t" "\<forall>va < MAXVA. mapping (pmem s1) root va = None" "only_pages (?t \<union> ?u) (pmem s) (pmem s1)"
  proof (cases "sz > 0")
    case True
    have a: "aligned 12 (0 :: u64)" by (simp add: aligned_def)
    have n: "unat (0 :: u64) + unat (PGROUNDUP sz div 4096) * 4096 \<le> 2 ^ 38" "True \<longrightarrow> owns_range s root fl 0 (unat (PGROUNDUP sz div 4096))"
      using assms(2,3) PGROUNDUP_pages [OF assms(2)] by simp_all
    obtain s1 fl1 where u: "uvmunmap root 0 (PGROUNDUP sz div 4096) True s = Ret s1" "vm_inv s1 root fl1" "set fl1 = set fl \<union> ?u"
      "pt_pages (pmem s1) root = ?t" "\<forall>vb < MAXVA. mapping (pmem s1) root vb = (if unat vb < ?n * 4096 then None else mapping (pmem s) root vb)"
      "only_pages (?t \<union> ?u) (pmem s) (pmem s1)"
      using uvmunmap_spec [OF assms(1) a n] unfolding PGROUNDUP_pages [OF assms(2)] by auto
    have "\<forall>va < MAXVA. mapping (pmem s1) root va = None" using u(5) assms(4) by auto
    then show thesis using that [OF _ u(2,3,4) _ u(6)] u(1) True by simp
  next
    case False
    then have "sz = 0" by (simp add: word_neq_0_conv [symmetric])
    then have "?u = {}" "\<forall>va < MAXVA. mapping (pmem s) root va = None" using assms(4) by (auto simp: leaf_pages_def pages_of_def)
    then show thesis using that [of s fl] False assms(1) by simp
  qed
  obtain s' fl' where s': "freewalk root s1 = Some (Ret s')" "freelist_is s' fl'" "set fl' = set fl1 \<union> ?t" "only_pages ?t (pmem s1) (pmem s')"
    using freewalk_spec [OF s1(2,5)] assms(5) unfolding s1(4) by blast
  have "only_pages (?t \<union> ?u) (pmem s) (pmem s')" by (rule only_pages_mono [OF only_pages_trans [OF s1(6) s'(4)]]) auto
  then show ?thesis using s' s1(1,3) unfolding uvmfree_def by auto
qed

end
