(* ===== verification/Vmuser.thy ===== *)
theory Vmuser
  imports Vmcopy
begin

text \<open>
  \<open>copyout\<close> and \<open>copyin\<close> of \<^verbatim>\<open>kernel/vm.c\<close> over user addresses that are mapped: the kernel writes and reads the bytes that the user
  program sees at those addresses, page by page, wherever the pages lie in physical memory.
\<close>

section \<open>A user range and a kernel buffer\<close>

text \<open>The first \<open>n\<close> pages are the process's own, and all of \<open>len\<close> bytes from \<open>va\<close> lie in mapped pages with the permission bits.\<close>

definition user_range :: "phys \<Rightarrow> u64 \<Rightarrow> u64 list \<Rightarrow> nat \<Rightarrow> u64 \<Rightarrow> u64 \<Rightarrow> nat \<Rightarrow> bool" where
  "user_range s root fl n bits va len \<longleftrightarrow>
     vm_inv s root fl \<and> owns_range s root fl 0 n \<and> n * 4096 \<le> 2 ^ 38 \<and> unat va + len \<le> n * 4096 \<and>
     (\<forall>vb. unat (vb - va) < len \<longrightarrow> (\<exists>e. mapping (pmem s) root vb = Some e \<and> e AND PTE_U \<noteq> 0 \<and> (bits = 0 \<or> e AND bits \<noteq> 0)))"

definition kernel_buf :: "phys \<Rightarrow> u64 \<Rightarrow> u64 list \<Rightarrow> nat \<Rightarrow> u64 \<Rightarrow> nat \<Rightarrow> bool" where
  "kernel_buf s root fl n a len \<longleftrightarrow> unat a + len < 2 ^ 64 \<and>
     (\<forall>x q. unat (x - a) < len \<longrightarrow> q \<in> pt_pages (pmem s) root \<union> set fl \<union> user_pages (pmem s) root n \<longrightarrow> \<not> in_page q x)"

text \<open>Nothing but these bytes matters to the table, the free list and the user pages.\<close>

lemma split_range:
  fixes x :: u64
  assumes "n + m \<le> 2 ^ 64"
  shows "unat x < n + m \<longleftrightarrow> unat x < n \<or> unat (x - of_nat n) < m" "\<not> (unat x < n \<and> unat (x - of_nat n) < m)"
proof -
  have "(unat x < n + m \<longleftrightarrow> unat x < n \<or> unat (x - of_nat n) < m) \<and> \<not> (unat x < n \<and> unat (x - of_nat n) < m)"
  proof (cases "n < 2 ^ 64")
    case True
    then have "unat (of_nat n :: u64) = n" by (rule unat_of_nat64)
    then show ?thesis using assms by (auto simp: unat_sub_if' word_le_nat_alt)
  next
    case False
    then have "m = 0" "unat x < n" using assms unat64_less [of x] by linarith+
    then show ?thesis by simp
  qed
  then show "unat x < n + m \<longleftrightarrow> unat x < n \<or> unat (x - of_nat n) < m" "\<not> (unat x < n \<and> unat (x - of_nat n) < m)" by blast+
qed

lemma range_same_table:
  assumes inv: "vm_inv s root fl" and f: "freelist s' = freelist s"
    and same: "\<And>q x. q \<in> pt_pages (pmem s) root \<union> set fl \<Longrightarrow> in_page q x \<Longrightarrow> pmem s' x = pmem s x"
  shows "vm_inv s' root fl" "pt_pages (pmem s') root = pt_pages (pmem s) root"
    "va < MAXVA \<Longrightarrow> mapping (pmem s') root va = mapping (pmem s) root va"
proof -
  note I = vm_invD [OF inv]
  have "pmem s' x = pmem s x" if "q \<in> pt_pages (pmem s) root" "in_page q x" for q x using same that by blast
  note F = pt_frame [OF I(1), of "pmem s'", OF this]
  have "freelist_is s' fl" by (rule freelist_is_frame [OF I(2) f]) (use same in blast)
  then show "vm_inv s' root fl" using F(1,2) I(3) by (auto simp: vm_inv_def)
  show "pt_pages (pmem s') root = pt_pages (pmem s) root" "va < MAXVA \<Longrightarrow> mapping (pmem s') root va = mapping (pmem s) root va"
    using F(2,3) by auto
qed

lemma owns_range_cong:
  assumes "owns_range s root fl a n" "pt_pages (pmem s') root = pt_pages (pmem s) root"
    and m: "\<And>va. va < MAXVA \<Longrightarrow> mapping (pmem s') root va = mapping (pmem s) root va"
  shows "owns_range s' root fl a n"
proof -
  have "leaf_pages (pmem s') root a n = leaf_pages (pmem s) root a n" by (rule leaf_pages_cong [OF m])
  then show ?thesis using assms m unfolding owns_range_def by (metis (no_types, lifting))
qed

section \<open>One chunk\<close>

text \<open>The bytes from \<open>va\<close> to the end of its page, at most \<open>len\<close> of them.\<close>

definition chunk :: "u64 \<Rightarrow> nat \<Rightarrow> nat" where
  "chunk va len = min (4096 - unat (va - PGROUNDDOWN va)) len"

lemma chunk_word:
  assumes "len \<noteq> 0"
  shows "(if PGSIZE - (va - PGROUNDDOWN va) > len then len else PGSIZE - (va - PGROUNDDOWN va)) = of_nat (chunk va (unat len))"
    "0 < chunk va (unat len)" "chunk va (unat len) \<le> unat len" "chunk va (unat len) \<le> 4096"
    "unat (va - PGROUNDDOWN va) + chunk va (unat len) \<le> 4096"
proof -
  let ?o = "va - PGROUNDDOWN va"
  have o: "unat ?o < 4096" by (rule PGROUNDDOWN_page)
  have s: "unat (4096 - ?o) = 4096 - unat ?o" using o by (simp add: unat_sub_if' word_le_nat_alt)
  have h: "chunk va (unat len) = unat (if 4096 - ?o > len then len else 4096 - ?o)"
    using s by (auto simp: chunk_def word_less_nat_alt)
  show "(if 4096 - ?o > len then len else 4096 - ?o) = of_nat (chunk va (unat len))" unfolding h by simp
  have "0 < unat len" using assms by (simp add: unat_gt_0)
  then show "0 < chunk va (unat len)" "chunk va (unat len) \<le> unat len" "chunk va (unat len) \<le> 4096"
    "unat ?o + chunk va (unat len) \<le> 4096" using o by (auto simp: chunk_def)
qed

lemma memmove_chunk:
  assumes "n \<le> 4096" "unat dst + n < 2 ^ 64" "unat src + n < 2 ^ 64"
  shows "memmove m dst src (ucast (of_nat n :: u64)) x = (if unat (x - dst) < n then m (src + (x - dst)) else m x)"
proof -
  have "unat (ucast (of_nat n :: u64) :: u32) = n" using assms(1) by (simp add: unsigned_ucast_eq unat_of_nat take_bit_nat_eq_self)
  then show ?thesis using memmove_copies [of dst "ucast (of_nat n :: u64)" src m] assms(2,3)
    by (simp add: wr_bytes_apply rd_bytes_def)
qed

lemma range_in_page:
  assumes "unat (va - PGROUNDDOWN va) + c \<le> 4096" "unat (vb - va) < c"
  shows "PGROUNDDOWN vb = PGROUNDDOWN va"
proof -
  have "unat (vb - PGROUNDDOWN va) = unat (va - PGROUNDDOWN va) + unat (vb - va)"
    using unat_add_nowrap [of "va - PGROUNDDOWN va" "vb - va"] assms by simp
  then show ?thesis using PGROUNDDOWN_eq [of "PGROUNDDOWN va" vb] assms by simp
qed

lemma user_entry:
  assumes r: "user_range s root fl n bits va len" and len: "0 < len"
  obtains e where "mapping (pmem s) root va = Some e" "e AND PTE_U \<noteq> 0" "bits = 0 \<or> e AND bits \<noteq> 0"
    "va < MAXVA" "unat va < n * 4096" "page_ok (PTE2PA e)" "PTE2PA e \<in> user_pages (pmem s) root n"
    "PTE2PA e \<notin> pt_pages (pmem s) root \<union> set fl"
proof -
  have va: "unat va < n * 4096" "va < MAXVA" using r len unfolding user_range_def MAXVA_nat by auto
  obtain e where e: "mapping (pmem s) root va = Some e" "e AND PTE_U \<noteq> 0" "bits = 0 \<or> e AND bits \<noteq> 0"
    using r len unfolding user_range_def by (metis diff_self unat_0)
  have u: "PTE2PA e \<in> user_pages (pmem s) root n" by (rule user_pagesI [OF va(2,1) e(1)])
  have "page_ok (PTE2PA e)" "PTE2PA e \<notin> pt_pages (pmem s) root \<union> set fl" using r u unfolding user_range_def owns_range_def by blast+
  then show ?thesis using that e va u by blast
qed

lemma frame_offset: "PGROUNDDOWN vb = PGROUNDDOWN va \<Longrightarrow> frame e vb - frame e va = vb - va"
  by (simp add: frame_def)

lemma frame_range:
  assumes "page_ok (PTE2PA e)" "unat (va - PGROUNDDOWN va) + c \<le> 4096"
  shows "unat (frame e va) + c < 2 ^ 64" "unat (x - frame e va) < c \<Longrightarrow> in_page (PTE2PA e) x"
proof -
  have b: "unat (PTE2PA e) < 2 ^ 32" using assms(1) by (simp add: page_ok_def PHYSTOP_def word_less_nat_alt)
  have o: "unat (va - PGROUNDDOWN va) < 4096" by (rule PGROUNDDOWN_page)
  have "unat (frame e va) = unat (PTE2PA e) + unat (va - PGROUNDDOWN va)"
    unfolding frame_def using b o by (intro unat_add_nowrap) simp
  then show "unat (frame e va) + c < 2 ^ 64" using b assms(2) by simp
  assume x: "unat (x - frame e va) < c"
  have d: "x - PTE2PA e = (va - PGROUNDDOWN va) + (x - frame e va)" by (simp add: frame_def)
  have "unat (x - PTE2PA e) = unat (va - PGROUNDDOWN va) + unat (x - frame e va)"
    unfolding d using unat_add_nowrap [of "va - PGROUNDDOWN va" "x - frame e va"] assms(2) x by simp
  then show "in_page (PTE2PA e) x" using x assms(2) by (simp add: in_page_def)
qed

text \<open>Writing \<open>c\<close> bytes at the frame of \<open>va\<close> changes those user bytes and no other.\<close>

lemma user_byte_write:
  assumes r: "user_range s root fl n bits va len" and e: "mapping (pmem s) root va = Some e" "page_ok (PTE2PA e)" "va < MAXVA" "unat va < n * 4096"
    and c: "unat (va - PGROUNDDOWN va) + c \<le> 4096"
    and m: "\<And>x. pmem s' x = (if unat (x - frame e va) < c then g (x - frame e va) else pmem s x)"
    and same: "mapping (pmem s') root vb = mapping (pmem s) root vb" and vb: "vb < MAXVA" "unat vb < n * 4096"
  shows "user_byte (pmem s') root vb = (if unat (vb - va) < c then Some (g (vb - va)) else user_byte (pmem s) root vb)"
proof (cases "PGROUNDDOWN vb = PGROUNDDOWN va")
  case True
  then have "mapping (pmem s) root vb = Some e" using e(1) by (metis mapping_PGROUNDDOWN)
  then show ?thesis using same m [of "frame e vb"] frame_offset [OF True, of e] by (simp add: user_byte_def)
next
  case False
  then have out: "\<not> unat (vb - va) < c" using range_in_page [OF c] by blast
  show ?thesis
  proof (cases "mapping (pmem s) root vb")
    case (Some f)
    have "PTE2PA f \<noteq> PTE2PA e"
    proof
      assume "PTE2PA f = PTE2PA e"
      then have "key 3 vb = key 3 va" using r Some e vb unfolding user_range_def owns_range_def diff_zero by metis
      then have "key 3 vb = key 3 (PGROUNDDOWN va)" using key_page [of "PGROUNDDOWN va" va] PGROUNDDOWN_page by simp
      then show False using False key_page [of "PGROUNDDOWN va" vb] PGROUNDDOWN_eq [of "PGROUNDDOWN va" vb] by simp
    qed
    moreover have "aligned 12 (PTE2PA f)" using r user_pagesI [OF vb Some] page_ok_aligned unfolding user_range_def owns_range_def by blast
    ultimately have "\<not> unat (frame f vb - frame e va) < c"
      using frame_range(2) [OF e(2) c] in_page_disjoint [OF _ page_ok_aligned [OF e(2)] _ frame_in_page] by blast
    then show ?thesis using same Some m out by (simp add: user_byte_def)
  qed (use same out in \<open>simp add: user_byte_def\<close>)
qed

section \<open>\<open>copyout\<close>\<close>

lemma kernel_buf_same:
  "kernel_buf s root fl n a len \<Longrightarrow> only_pages (user_pages (pmem s) root n) (pmem s) m' \<Longrightarrow> unat (x - a) < len \<Longrightarrow> m' x = pmem s x"
  unfolding kernel_buf_def only_pages_def by blast

lemma kernel_buf_drop:
  assumes b: "kernel_buf s root fl n a len" and c: "c \<le> len"
    and same: "pt_pages (pmem s') root = pt_pages (pmem s) root" "user_pages (pmem s') root n = user_pages (pmem s) root n"
  shows "kernel_buf s' root fl n (a + of_nat c) (len - c)"
proof -
  have u: "unat (a + of_nat c) = unat a + c"
    using b c unat_add_nowrap [of a "of_nat c"] unat_of_nat64 [of c] unfolding kernel_buf_def by simp
  have "unat (x - a) < len" if "unat (x - (a + of_nat c)) < len - c" for x
    using that split_range(1) [of c "len - c" "x - a"] b c unfolding kernel_buf_def by (simp add: diff_diff_eq)
  then show ?thesis using b c u same unfolding kernel_buf_def by auto
qed

lemma user_range_drop:
  assumes r: "user_range s root fl n bits va len" and c: "c \<le> len"
    and inv: "vm_inv s' root fl" "pt_pages (pmem s') root = pt_pages (pmem s) root"
    and m: "\<And>va. va < MAXVA \<Longrightarrow> mapping (pmem s') root va = mapping (pmem s) root va"
  shows "user_range s' root fl n bits (va + of_nat c) (len - c)"
proof -
  have R: "owns_range s root fl 0 n" "n * 4096 \<le> 2 ^ 38" "unat va + len \<le> n * 4096"
    "\<forall>vb. unat (vb - va) < len \<longrightarrow> (\<exists>e. mapping (pmem s) root vb = Some e \<and> e AND PTE_U \<noteq> 0 \<and> (bits = 0 \<or> e AND bits \<noteq> 0))"
    using r unfolding user_range_def by blast+
  have u: "unat (va + of_nat c) = unat va + c" using R(2,3) c unat_add_nowrap [of va "of_nat c"] unat_of_nat64 [of c] by simp
  have "unat (vb - va) < len \<and> vb < MAXVA" if vb: "unat (vb - (va + of_nat c)) < len - c" for vb
  proof -
    have l: "unat (vb - va) < len" using vb split_range(1) [of c "len - c" "vb - va"] R(2,3) c by (simp add: diff_diff_eq)
    moreover have "unat vb = unat va + unat (vb - va)" using unat_add_nowrap [of va "vb - va"] l R(2,3) by simp
    ultimately show ?thesis using R(2,3) unfolding MAXVA_nat by simp
  qed
  then have "\<exists>e. mapping (pmem s') root vb = Some e \<and> e AND PTE_U \<noteq> 0 \<and> (bits = 0 \<or> e AND bits \<noteq> 0)"
    if "unat (vb - (va + of_nat c)) < len - c" for vb using that R(4) m by metis
  then show ?thesis using owns_range_cong [OF R(1) inv(2) m] inv(1) R(2,3) u c unfolding user_range_def by simp
qed

lemma walk_entry:
  assumes "vm_inv s root fl" "va < MAXVA" "mapping (pmem s) root va = Some e"
  obtains pte where "walk root va False s = Ret (pte, s)" "pte \<noteq> 0" "load64 (pmem s) pte = e"
  using assms(1,2)
proof (cases rule: walk_noalloc)
  case absent
  then show ?thesis using assms(3) by simp
next
  case (leaf t)
  then show ?thesis using that [of "slot t (PX 0 va)"] assms(3) mapping_entry [OF leaf(3)] by (simp split: if_splits)
qed

lemma page_base:
  assumes "vm_inv s root fl" "mapping (pmem s) root va = Some e" "e AND PTE_U \<noteq> 0" "va < MAXVA"
  shows "PGROUNDDOWN va < MAXVA" "mapping (pmem s) root (PGROUNDDOWN va) = Some e"
    "walkaddr root (PGROUNDDOWN va) s = Ret (PTE2PA e)"
proof -
  show b: "PGROUNDDOWN va < MAXVA" using assms(4) PGROUNDDOWN_le [of va] unfolding MAXVA_nat by simp
  show m: "mapping (pmem s) root (PGROUNDDOWN va) = Some e" using assms(2) by (simp add: mapping_PGROUNDDOWN)
  show "walkaddr root (PGROUNDDOWN va) s = Ret (PTE2PA e)" using walkaddr_spec [OF assms(1)] b m assms(3) by simp
qed

lemma copyout_turn:
  assumes r: "user_range s root fl n PTE_W va (unat len)" and b: "kernel_buf s root fl n src (unat len)" and len: "len \<noteq> 0"
  defines "c \<equiv> chunk va (unat len)"
  obtains s1 where
    "\<And>k. copyout_loop (Suc k) psz ppt root va src len s = copyout_loop k psz ppt root (PGROUNDDOWN va + PGSIZE) (src + of_nat c) (len - of_nat c) s1"
    "vm_inv s1 root fl" "pt_pages (pmem s1) root = pt_pages (pmem s) root"
    "\<And>vb. vb < MAXVA \<Longrightarrow> mapping (pmem s1) root vb = mapping (pmem s) root vb"
    "only_pages (user_pages (pmem s) root n) (pmem s) (pmem s1)"
    "\<And>vb. vb < MAXVA \<Longrightarrow> unat vb < n * 4096 \<Longrightarrow> user_byte (pmem s1) root vb =
       (if unat (vb - va) < c then Some (pmem s (src + (vb - va))) else user_byte (pmem s) root vb)"
proof -
  note W = chunk_word [OF len, of va, folded c_def]
  have inv: "vm_inv s root fl" using r by (simp add: user_range_def)
  have l0: "0 < unat len" using len by (simp add: unat_gt_0)
  obtain e where e: "mapping (pmem s) root va = Some e" "e AND PTE_U \<noteq> 0" "e AND PTE_W \<noteq> 0"
    "va < MAXVA" "unat va < n * 4096" "page_ok (PTE2PA e)" "PTE2PA e \<in> user_pages (pmem s) root n"
    "PTE2PA e \<notin> pt_pages (pmem s) root \<union> set fl"
    by (rule user_entry [OF r l0]) (rule that, simp_all)
  note B = page_base [OF inv e(1,2,4)] note F = frame_range [OF e(6) W(5)]
  obtain pte where w: "walk root (PGROUNDDOWN va) False s = Ret (pte, s)" "load64 (pmem s) pte = e"
    using walk_entry [OF inv B(1,2)] by metis
  let ?s1 = "s\<lparr>pmem := memmove (pmem s) (frame e va) src (ucast (of_nat c :: u64))\<rparr>"
  have sb: "unat src + c < 2 ^ 64" using b W(3) unfolding kernel_buf_def by simp
  have m: "pmem ?s1 x = (if unat (x - frame e va) < c then pmem s (src + (x - frame e va)) else pmem s x)" for x
    using memmove_chunk [OF W(4) F(1) sb] by simp
  have step: "copyout_loop (Suc k) psz ppt root va src len s = copyout_loop k psz ppt root (PGROUNDDOWN va + PGSIZE) (src + of_nat c) (len - of_nat c) ?s1" for k
    using len not_le [THEN iffD2, OF B(1)] B(3) w e(3,6) W(1) by (simp add: Let_def word_gt_0 page_ok_def frame_def)
  have one: "only_pages {PTE2PA e} (pmem s) (pmem ?s1)" by (rule only_pages_one) (use m F(2) in auto)
  have al: "\<forall>q\<in>{PTE2PA e}. aligned 12 q" using page_ok_aligned e(6) by simp
  have al2: "aligned 12 q" if "q \<in> pt_pages (pmem s) root \<union> set fl" for q
    using that vm_invD(2,4) [OF inv] by (auto simp: freelist_is_def page_ok_def)
  have same: "pmem ?s1 x = pmem s x" if "q \<in> pt_pages (pmem s) root \<union> set fl" "in_page q x" for q x
    by (rule only_pagesD [OF one al al2 [OF that(1)] _ that(2)]) (use that e(8) in blast)
  have "freelist ?s1 = freelist s" by simp
  from range_same_table [OF inv this] same
  have T: "vm_inv ?s1 root fl" "pt_pages (pmem ?s1) root = pt_pages (pmem s) root"
    "\<And>vb. vb < MAXVA \<Longrightarrow> mapping (pmem ?s1) root vb = mapping (pmem s) root vb"
    by blast+
  have "only_pages (user_pages (pmem s) root n) (pmem s) (pmem ?s1)" by (rule only_pages_mono [OF one]) (use e(7) in blast)
  moreover have "user_byte (pmem ?s1) root vb =
       (if unat (vb - va) < c then Some (pmem s (src + (vb - va))) else user_byte (pmem s) root vb)" if "vb < MAXVA" "unat vb < n * 4096" for vb
    by (rule user_byte_write [OF r e(1,6,4,5) W(5) m _ that]) (use T(3) [OF that(1)] in simp)
  ultimately show ?thesis using that [OF step] T by simp
qed

text \<open>The chunk ends the range, or the next one starts at the next page.\<close>

lemma chunk_next:
  assumes "len \<noteq> 0" "chunk va (unat len) < unat len"
  shows "PGROUNDDOWN va + PGSIZE = va + of_nat (chunk va (unat len))"
proof -
  have "unat (va - PGROUNDDOWN va) + chunk va (unat len) = 4096"
    using assms(2) PGROUNDDOWN_page [of va] by (auto simp: chunk_def min_def split: if_splits)
  then have "of_nat (unat (va - PGROUNDDOWN va)) + of_nat (chunk va (unat len)) = (4096 :: u64)" by (metis of_nat_add of_nat_numeral)
  then show ?thesis by (simp add: algebra_simps)
qed

lemma unat_diff_of_nat: "c \<le> unat len \<Longrightarrow> unat (len - of_nat c :: u64) = unat len - c"
proof -
  assume c: "c \<le> unat len"
  then have "unat (of_nat c :: u64) = c" using unat64_less [of len] by (intro unat_of_nat64) linarith
  then show ?thesis using c by (simp add: unat_sub_if' word_le_nat_alt)
qed

definition wrote_user :: "phys \<Rightarrow> phys \<Rightarrow> u64 \<Rightarrow> u64 list \<Rightarrow> nat \<Rightarrow> u64 \<Rightarrow> u64 \<Rightarrow> nat \<Rightarrow> bool" where
  "wrote_user s s' root fl n va src len \<longleftrightarrow>
     vm_inv s' root fl \<and> pt_pages (pmem s') root = pt_pages (pmem s) root \<and>
     (\<forall>vb < MAXVA. mapping (pmem s') root vb = mapping (pmem s) root vb) \<and>
     only_pages (user_pages (pmem s) root n) (pmem s) (pmem s') \<and>
     (\<forall>vb < MAXVA. unat vb < n * 4096 \<longrightarrow> user_byte (pmem s') root vb =
        (if unat (vb - va) < len then Some (pmem s (src + (vb - va))) else user_byte (pmem s) root vb))"

lemma copyout_loop_spec:
  "user_range s root fl n PTE_W va (unat len) \<Longrightarrow> kernel_buf s root fl n src (unat len) \<Longrightarrow> unat len \<le> k \<Longrightarrow>
   \<exists>s'. copyout_loop k psz ppt root va src len s = Ret (0, s') \<and> wrote_user s s' root fl n va src (unat len)"
proof (induction k arbitrary: s va src len)
  case 0
  then show ?case by (auto simp: wrote_user_def user_range_def)
next
  case (Suc k)
  show ?case
  proof (cases "len = 0")
    case True
    then show ?thesis using Suc.prems by (auto simp: wrote_user_def user_range_def)
  next
    case len: False
    define c where "c = chunk va (unat len)"
    note W = chunk_word [OF len, of va, folded c_def] note r = Suc.prems(1) note b = Suc.prems(2)
    obtain s1 where T:
      "\<And>k. copyout_loop (Suc k) psz ppt root va src len s = copyout_loop k psz ppt root (PGROUNDDOWN va + PGSIZE) (src + of_nat c) (len - of_nat c) s1"
      "vm_inv s1 root fl" "pt_pages (pmem s1) root = pt_pages (pmem s) root"
      "\<And>vb. vb < MAXVA \<Longrightarrow> mapping (pmem s1) root vb = mapping (pmem s) root vb"
      "only_pages (user_pages (pmem s) root n) (pmem s) (pmem s1)"
      "\<And>vb. vb < MAXVA \<Longrightarrow> unat vb < n * 4096 \<Longrightarrow> user_byte (pmem s1) root vb =
         (if unat (vb - va) < c then Some (pmem s (src + (vb - va))) else user_byte (pmem s) root vb)"
      by (rule copyout_turn [OF r b len, folded c_def, where psz = psz and ppt = ppt]) (rule that)
    have u: "user_pages (pmem s1) root n = user_pages (pmem s) root n" by (rule leaf_pages_cong [OF T(4)])
    have l: "unat (len - of_nat c) = unat len - c" by (rule unat_diff_of_nat [OF W(3)])
    have nx: "copyout_loop k psz ppt root (PGROUNDDOWN va + PGSIZE) (src + of_nat c) (len - of_nat c) s1 =
        copyout_loop k psz ppt root (va + of_nat c) (src + of_nat c) (len - of_nat c) s1"
    proof (cases "c < unat len")
      case True
      then show ?thesis using chunk_next [OF len] by (simp add: c_def)
    next
      case False
      then have "len - of_nat c = 0" using W(3) l by (simp add: unat_0_iff flip: unat_0_iff)
      then show ?thesis by (cases k) simp_all
    qed
    have "user_range s1 root fl n PTE_W (va + of_nat c) (unat (len - of_nat c))" "kernel_buf s1 root fl n (src + of_nat c) (unat (len - of_nat c))"
      unfolding l using user_range_drop [OF r W(3) T(2-4)] kernel_buf_drop [OF b W(3) T(3) u] by auto
    moreover have "unat (len - of_nat c) \<le> k" using Suc.prems(3) W(2) l by linarith
    ultimately obtain s' where s': "copyout_loop k psz ppt root (va + of_nat c) (src + of_nat c) (len - of_nat c) s1 = Ret (0, s')"
      "wrote_user s1 s' root fl n (va + of_nat c) (src + of_nat c) (unat len - c)"
      using Suc.IH [of s1 "va + of_nat c" "len - of_nat c" "src + of_nat c"] l by auto
    note V = s'(2) [unfolded wrote_user_def]
    have rb: "n * 4096 \<le> 2 ^ 38" "unat va + unat len \<le> n * 4096" using r by (auto simp: user_range_def)
    have "user_byte (pmem s') root vb = (if unat (vb - va) < unat len then Some (pmem s (src + (vb - va))) else user_byte (pmem s) root vb)"
      if vb: "vb < MAXVA" "unat vb < n * 4096" for vb
    proof -
      have sp: "unat (vb - va) < unat len \<longleftrightarrow> unat (vb - va) < c \<or> unat (vb - (va + of_nat c)) < unat len - c"
        using split_range(1) [of c "unat len - c" "vb - va"] W(3) unat64_less [of len] by (simp add: diff_diff_eq)
      have e: "src + of_nat c + (vb - (va + of_nat c)) = src + (vb - va)" by simp
      have "pmem s1 (src + (vb - va)) = pmem s (src + (vb - va))" if "unat (vb - va) < unat len"
        using kernel_buf_same [OF b T(5), of "src + (vb - va)"] that by simp
      then show ?thesis using V vb T(6) [OF vb] sp e by auto
    qed
    moreover have "only_pages (user_pages (pmem s) root n) (pmem s) (pmem s')" using only_pages_trans [OF T(5)] V u by fastforce
    ultimately have "wrote_user s s' root fl n va src (unat len)" using V T(3,4) by (simp add: wrote_user_def)
    then show ?thesis using T(1) nx s'(1) by auto
  qed
qed

section \<open>\<open>copyin\<close>\<close>

definition user_bytes :: "mem \<Rightarrow> u64 \<Rightarrow> u64 \<Rightarrow> u8" where
  "user_bytes m root va = the (user_byte m root va)"

text \<open>Writing into a kernel buffer keeps the table, the free list and what the user addresses read.\<close>

lemma kernel_write:
  assumes r: "user_range s root fl n bits va len" and b: "kernel_buf s root fl n dst l" and f: "freelist s' = freelist s"
    and m: "\<And>x. \<not> unat (x - dst) < l \<Longrightarrow> pmem s' x = pmem s x"
  shows "vm_inv s' root fl" "pt_pages (pmem s') root = pt_pages (pmem s) root"
    "\<And>vb. vb < MAXVA \<Longrightarrow> mapping (pmem s') root vb = mapping (pmem s) root vb"
    "\<And>vb. vb < MAXVA \<Longrightarrow> unat vb < n * 4096 \<Longrightarrow> user_byte (pmem s') root vb = user_byte (pmem s) root vb"
proof -
  have inv: "vm_inv s root fl" using r by (simp add: user_range_def)
  have same: "pmem s' x = pmem s x" if "q \<in> pt_pages (pmem s) root \<union> set fl \<union> user_pages (pmem s) root n" "in_page q x" for q x
    using b m that unfolding kernel_buf_def by blast
  show 1: "vm_inv s' root fl" "pt_pages (pmem s') root = pt_pages (pmem s) root"
    "\<And>vb. vb < MAXVA \<Longrightarrow> mapping (pmem s') root vb = mapping (pmem s) root vb"
    using range_same_table [OF inv f] same by blast+
  show "user_byte (pmem s') root vb = user_byte (pmem s) root vb" if vb: "vb < MAXVA" "unat vb < n * 4096" for vb
  proof (cases "mapping (pmem s) root vb")
    case (Some e)
    have "pmem s' (frame e vb) = pmem s (frame e vb)" using same [OF _ frame_in_page] user_pagesI [OF vb Some] by blast
    then show ?thesis using 1(3) [OF vb(1)] Some by (simp add: user_byte_def)
  qed (use 1(3) [OF vb(1)] in \<open>simp add: user_byte_def\<close>)
qed

lemma copyin_turn:
  assumes r: "user_range s root fl n 0 va (unat len)" and b: "kernel_buf s root fl n dst (unat len)" and len: "len \<noteq> 0"
  defines "c \<equiv> chunk va (unat len)"
  obtains s1 where
    "\<And>k. copyin_loop (Suc k) psz ppt root dst va len s = copyin_loop k psz ppt root (dst + of_nat c) (PGROUNDDOWN va + PGSIZE) (len - of_nat c) s1"
    "freelist s1 = freelist s" "\<And>x. pmem s1 x = (if unat (x - dst) < c then user_bytes (pmem s) root (va + (x - dst)) else pmem s x)"
proof -
  note W = chunk_word [OF len, of va, folded c_def]
  have inv: "vm_inv s root fl" using r by (simp add: user_range_def)
  have l0: "0 < unat len" using len by (simp add: unat_gt_0)
  obtain e where e: "mapping (pmem s) root va = Some e" "e AND PTE_U \<noteq> 0" "va < MAXVA" "page_ok (PTE2PA e)"
    by (rule user_entry [OF r l0]) (rule that)
  note B = page_base [OF inv e(1-3)] note F = frame_range [OF e(4) W(5)]
  let ?s1 = "s\<lparr>pmem := memmove (pmem s) dst (frame e va) (ucast (of_nat c :: u64))\<rparr>"
  have db: "unat dst + c < 2 ^ 64" using b W(3) unfolding kernel_buf_def by simp
  have step: "copyin_loop (Suc k) psz ppt root dst va len s = copyin_loop k psz ppt root (dst + of_nat c) (PGROUNDDOWN va + PGSIZE) (len - of_nat c) ?s1" for k
    using len B(3) e(4) W(1) by (simp add: Let_def word_gt_0 page_ok_def frame_def)
  have "pmem ?s1 x = (if unat (x - dst) < c then user_bytes (pmem s) root (va + (x - dst)) else pmem s x)" for x
  proof (cases "unat (x - dst) < c")
    case True
    let ?v = "va + (x - dst)"
    have p: "PGROUNDDOWN ?v = PGROUNDDOWN va" by (rule range_in_page [OF W(5)]) (use True in simp)
    then have "mapping (pmem s) root ?v = Some e" using e(1) by (metis mapping_PGROUNDDOWN)
    moreover have "frame e ?v = frame e va + (x - dst)" using p by (simp add: frame_def)
    ultimately show ?thesis using memmove_chunk [OF W(4) db F(1)] True by (simp add: user_bytes_def user_byte_def)
  qed (use memmove_chunk [OF W(4) db F(1)] in simp)
  then show ?thesis using that [OF step] by simp
qed

lemma copyin_loop_spec:
  "user_range s root fl n 0 va (unat len) \<Longrightarrow> kernel_buf s root fl n dst (unat len) \<Longrightarrow> unat len \<le> k \<Longrightarrow>
   \<exists>s'. copyin_loop k psz ppt root dst va len s = Ret (0, s') \<and> freelist s' = freelist s \<and>
     (\<forall>x. pmem s' x = (if unat (x - dst) < unat len then user_bytes (pmem s) root (va + (x - dst)) else pmem s x))"
proof (induction k arbitrary: s va dst len)
  case 0
  then show ?case by auto
next
  case (Suc k)
  show ?case
  proof (cases "len = 0")
    case len: False
    define c where "c = chunk va (unat len)"
    note W = chunk_word [OF len, of va, folded c_def] note r = Suc.prems(1) note b = Suc.prems(2)
    obtain s1 where T:
      "\<And>k. copyin_loop (Suc k) psz ppt root dst va len s = copyin_loop k psz ppt root (dst + of_nat c) (PGROUNDDOWN va + PGSIZE) (len - of_nat c) s1"
      "freelist s1 = freelist s" "\<And>x. pmem s1 x = (if unat (x - dst) < c then user_bytes (pmem s) root (va + (x - dst)) else pmem s x)"
      by (rule copyin_turn [OF r b len, folded c_def, where psz = psz and ppt = ppt]) (rule that)
    have m: "pmem s1 x = pmem s x" if "\<not> unat (x - dst) < unat len" for x using T(3) that W(3) by simp
    note V = kernel_write [OF r b T(2) m]
    have u: "user_pages (pmem s1) root n = user_pages (pmem s) root n" by (rule leaf_pages_cong [OF V(3)])
    have l: "unat (len - of_nat c) = unat len - c" by (rule unat_diff_of_nat [OF W(3)])
    have nx: "copyin_loop k psz ppt root (dst + of_nat c) (PGROUNDDOWN va + PGSIZE) (len - of_nat c) s1 =
        copyin_loop k psz ppt root (dst + of_nat c) (va + of_nat c) (len - of_nat c) s1"
    proof (cases "c < unat len")
      case True
      then show ?thesis using chunk_next [OF len] by (simp add: c_def)
    next
      case False
      then have "len - of_nat c = 0" using W(3) l by (simp add: unat_0_iff flip: unat_0_iff)
      then show ?thesis by (cases k) simp_all
    qed
    have "user_range s1 root fl n 0 (va + of_nat c) (unat (len - of_nat c))" "kernel_buf s1 root fl n (dst + of_nat c) (unat (len - of_nat c))"
      unfolding l using user_range_drop [OF r W(3) V(1-3)] kernel_buf_drop [OF b W(3) V(2) u] by auto
    moreover have "unat (len - of_nat c) \<le> k" using Suc.prems(3) W(2) l by linarith
    ultimately obtain s' where s': "copyin_loop k psz ppt root (dst + of_nat c) (va + of_nat c) (len - of_nat c) s1 = Ret (0, s')"
      "freelist s' = freelist s1"
      "\<And>x. pmem s' x = (if unat (x - (dst + of_nat c)) < unat len - c then user_bytes (pmem s1) root (va + of_nat c + (x - (dst + of_nat c))) else pmem s1 x)"
      using Suc.IH [of s1 "va + of_nat c" "len - of_nat c" "dst + of_nat c"] l by auto
    have rb: "n * 4096 \<le> 2 ^ 38" "unat va + unat len \<le> n * 4096" using r by (auto simp: user_range_def)
    have "pmem s' x = (if unat (x - dst) < unat len then user_bytes (pmem s) root (va + (x - dst)) else pmem s x)" for x
    proof -
      have sp: "unat (x - dst) < unat len \<longleftrightarrow> unat (x - dst) < c \<or> unat (x - (dst + of_nat c)) < unat len - c"
        and disj: "\<not> (unat (x - dst) < c \<and> unat (x - (dst + of_nat c)) < unat len - c)"
        using split_range [of c "unat len - c" "x - dst"] W(3) unat64_less [of len] by (simp_all add: diff_diff_eq)
      have "user_bytes (pmem s1) root (va + (x - dst)) = user_bytes (pmem s) root (va + (x - dst))" if "unat (x - dst) < unat len"
      proof -
        have "unat (va + (x - dst)) = unat va + unat (x - dst)" using that rb by (intro unat_add_nowrap) simp
        then have "unat (va + (x - dst)) < n * 4096" using that rb(2) by simp
        then show ?thesis using V(4) rb(1) unfolding user_bytes_def MAXVA_nat by simp
      qed
      then show ?thesis using s'(3) [of x] T(3) [of x] sp disj by (auto simp: algebra_simps)
    qed
    then show ?thesis using T(1,2) nx s'(1,2) by auto
  qed (use Suc.prems in auto)
qed

section \<open>The bytes a user program sees\<close>

text \<open>
  C12. \<open>copyout\<close> to a mapped, writable user range and \<open>copyin\<close> from it: the copy out returns 0 and makes each user address of
  the range read the byte of the kernel buffer, changing no other byte the process can see, no translation and no other memory; the copy
  in then gives the same bytes to a kernel buffer.
\<close>

theorem copyout_copyin_roundtrip:
  assumes "user_range s root fl n PTE_W va (unat len)" "kernel_buf s root fl n src (unat len)" "kernel_buf s root fl n dst (unat len)"
  shows "\<exists>s' s''. copyout psz ppt root va src len s = Ret (0, s') \<and> wrote_user s s' root fl n va src (unat len) \<and>
    copyin psz ppt root dst va len s' = Ret (0, s'') \<and> rd_bytes (pmem s'') dst (unat len) = rd_bytes (pmem s) src (unat len)"
proof -
  let ?l = "unat len"
  obtain s' where o: "copyout psz ppt root va src len s = Ret (0, s')" "wrote_user s s' root fl n va src ?l"
    using copyout_loop_spec [OF assms(1,2) order_refl] unfolding copyout_def by blast
  note V = o(2) [unfolded wrote_user_def]
  have "user_range s' root fl n 0 (va + of_nat 0) (?l - 0)"
    using user_range_drop [OF assms(1), of 0 s'] V by (auto simp: user_range_def)
  then have r: "user_range s' root fl n 0 va ?l" by simp
  have u: "user_pages (pmem s') root n = user_pages (pmem s) root n" by (rule leaf_pages_cong) (use V in blast)
  have b: "kernel_buf s' root fl n dst ?l" using kernel_buf_drop [OF assms(3) le0, of s'] V u by simp
  obtain s'' where i: "copyin psz ppt root dst va len s' = Ret (0, s'')"
    "\<forall>x. pmem s'' x = (if unat (x - dst) < ?l then user_bytes (pmem s') root (va + (x - dst)) else pmem s' x)"
    using copyin_loop_spec [OF r b order_refl] unfolding copyin_def by blast
  have rb: "n * 4096 \<le> 2 ^ 38" "unat va + ?l \<le> n * 4096" using r by (auto simp: user_range_def)
  have "pmem s'' (dst + of_nat j) = pmem s (src + of_nat j)" if j: "j < ?l" for j
  proof -
    have uj: "unat (of_nat j :: u64) = j" using j unat64_less [of len] by (intro unat_of_nat64) linarith
    then have a: "unat (va + of_nat j) = unat va + j" using j rb unat_add_nowrap [of va "of_nat j"] by simp
    then have "va + of_nat j < MAXVA" "unat (va + of_nat j) < n * 4096" using j rb unfolding MAXVA_nat by simp_all
    then have "user_byte (pmem s') root (va + of_nat j) = Some (pmem s (src + of_nat j))" using V uj j by simp
    then show ?thesis using i(2) uj j by (simp add: user_bytes_def)
  qed
  then have "rd_bytes (pmem s'') dst ?l = rd_bytes (pmem s) src ?l" by (simp add: rd_bytes_def)
  then show ?thesis using o i(1) by blast
qed

theorem copyout_copyin_roundtrip_witness:
  "\<exists>s s' s''. copyout 0 0 0x80010000 0x10 0x80020000 16 s = Ret (0, s') \<and> copyin 0 0 0x80010000 0x80021000 0x10 16 s' = Ret (0, s'') \<and>
     rd_bytes (pmem s'') 0x80021000 16 = rd_bytes (pmem s) 0x80020000 16"
proof -
  let ?r = "0x80010000 :: u64" and ?e = "PA2PTE 0x80014000 OR 23"
  obtain s fl where s: "vm_inv s ?r fl" "set fl \<subseteq> demo_pages" "pt_pages (pmem s) ?r \<subseteq> insert ?r demo_pages"
    "only_pages (insert ?r demo_pages) (pmem demo) (pmem s)"
    "\<And>va. va < MAXVA \<Longrightarrow> mapping (pmem s) ?r va = (if unat va < 4096 then Some ?e else None)"
    by (rule demo_user_page) (rule that)
  note O = demo_owned [OF s(2,3,5)]
  have "PTE_FLAGS ?e = 23" by (rule PTE_FLAGS_PA2PTE) simp
  then have f: "?e AND 0x3FF = 23" by (simp add: PTE_FLAGS_def)
  have K: "?e AND k = 23 AND k" if "0x3FF AND k = k" for k using arg_cong [OF f, of "\<lambda>x. x AND k"] that by (simp add: and.assoc)
  have bits: "?e AND 16 \<noteq> 0" "?e AND 4 \<noteq> 0" by (simp_all add: K)
  have "vb < MAXVA \<and> unat vb < 4096" if "unat (vb - 0x10) < 16" for vb :: u64
  proof -
    have "unat vb = 16 + unat (vb - 0x10)" using unat_add_nowrap [of "0x10" "vb - 0x10"] that by simp
    then show ?thesis using that by (simp add: MAXVA_nat)
  qed
  then have r: "user_range s ?r fl 1 PTE_W 0x10 (unat (16 :: u64))" using s(1,5) O(2) bits by (auto simp: user_range_def)
  have b: "kernel_buf s ?r fl 1 a (unat (16 :: u64))" if a: "aligned 12 a" "a \<notin> {?r, 0x80014000} \<union> demo_pages" "unat a < 2 ^ 32" for a
  proof -
    have "\<not> in_page q x" if x: "unat (x - a) < 16" "q \<in> pt_pages (pmem s) ?r \<union> set fl \<union> user_pages (pmem s) ?r 1" for q x
    proof -
      have q: "q \<in> {?r, 0x80014000} \<union> demo_pages" using x(2) s(2,3) O(1) by auto
      then have "aligned 12 q" "q \<noteq> a" using a(2) by (auto simp: aligned_def)
      then show ?thesis using in_page_disjoint [OF a(1)] x(1) by (auto simp: in_page_def)
    qed
    then show ?thesis using a(3) by (auto simp: kernel_buf_def)
  qed
  have bufs: "kernel_buf s ?r fl 1 0x80020000 (unat (16 :: u64))" "kernel_buf s ?r fl 1 0x80021000 (unat (16 :: u64))"
    by (rule b; simp add: aligned_def)+
  from copyout_copyin_roundtrip [OF r bufs, of 0 0] show ?thesis by auto
qed

end
