(* ===== verification/Fsblocks.thy ===== *)
theory Fsblocks
  imports Fs
begin

text \<open>
  Lemmas about the block layer of \<^verbatim>\<open>Fs\<close>: the log as a set of blocks, the idiom
  \<open>bread\<close>, modify, \<open>log_write\<close>, \<open>brelse\<close>, and the free-block bitmap.
\<close>

section \<open>The log as a set of blocks\<close>

definition lset :: "logst \<Rightarrow> u32 set" where
  "lset lg = set (take (lh_n lg) (lh_block lg))"

definition log_wf :: "logst \<Rightarrow> bool" where
  "log_wf lg \<longleftrightarrow> 1 \<le> outstanding lg \<and> length (lh_block lg) = LOGBLOCKS \<and> lh_n lg \<le> LOGBLOCKS
     \<and> distinct (take (lh_n lg) (lh_block lg))"

lemma lset_card: "log_wf lg \<Longrightarrow> card (lset lg) = lh_n lg"
  by (simp add: log_wf_def lset_def distinct_card)

lemma finite_lset [simp]: "finite (lset lg)"
  by (simp add: lset_def)

text \<open>\<open>log_write\<close> of a block adds it to the set.\<close>

lemma logblk_ret:
  assumes "log_wf (flog st)" "lh_n (flog st) < LOGBLOCKS"
  obtains lg where "logblk b st = KRet () (st\<lparr>flog := lg\<rparr>)" "log_wf lg" "lset lg = insert b (lset (flog st))"
    "outstanding lg = outstanding (flog st)"
proof -
  let ?g = "flog st"
  define i where "i = absorb_index (lh_block ?g) 0 (lh_n ?g) b"
  have I: "i \<le> lh_n ?g" "\<And>m. m < i \<Longrightarrow> lh_block ?g ! m \<noteq> b" "i < lh_n ?g \<Longrightarrow> lh_block ?g ! i = b"
    using absorb_index_spec [of 0 "lh_n ?g" "lh_block ?g" b] assms by (auto simp: i_def log_wf_def)
  define lg where "lg = (if i = lh_n ?g then ?g\<lparr>lh_block := (lh_block ?g)[i := b], lh_n := lh_n ?g + 1\<rparr>
      else ?g\<lparr>lh_block := (lh_block ?g)[i := b]\<rparr>)"
  have run: "logblk b st = KRet () (st\<lparr>flog := lg\<rparr>)"
    using assms by (simp add: logblk_def Let_def i_def lg_def log_wf_def)
  show ?thesis
  proof (cases "i = lh_n ?g")
    case True
    have t: "take (lh_n lg) (lh_block lg) = take (lh_n ?g) (lh_block ?g) @ [b]"
      using True assms by (simp add: lg_def take_Suc_conv_app_nth log_wf_def)
    have "b \<notin> lset ?g"
      using I(2) True assms by (auto simp: lset_def in_set_conv_nth log_wf_def)
    then have "log_wf lg" using assms t True by (simp add: log_wf_def lg_def lset_def)
    then show ?thesis using that run t True by (auto simp: lset_def lg_def)
  next
    case False
    then have lt: "i < lh_n ?g" using I(1) by simp
    then have e: "(lh_block ?g)[i := b] = lh_block ?g" using I(3) by (metis list_update_id)
    then have lg: "lg = ?g" using False by (simp add: lg_def)
    have "b \<in> lset ?g"
      using I(3) lt assms by (auto simp: lset_def in_set_conv_nth log_wf_def intro!: exI [of _ i])
    then show ?thesis using that [of lg] run lg assms(1) by (simp add: insert_absorb)
  qed
qed

text \<open>The idiom \<open>bp = bread(b); change bp->data; log_write(bp); brelse(bp)\<close>.\<close>

definition upd_blk :: "u32 \<Rightarrow> (u8 list \<Rightarrow> u8 list) \<Rightarrow> fsst \<Rightarrow> (fsst, unit) kcall" where
  "upd_blk b f st =
     kbind (getblk b st) (\<lambda>_ st1. kbind (logblk b (setblk b f st1)) (\<lambda>_ st2. putblk b st2))"

lemma upd_blk_ret:
  assumes "log_wf (flog st)" "lh_n (flog st) < LOGBLOCKS" "b \<notin> set (bheld st)"
  obtains lg where "upd_blk b f st = KRet () (st\<lparr>blk := (blk st)(b := f (blk st b)), flog := lg\<rparr>)"
    "log_wf lg" "lset lg = insert b (lset (flog st))" "outstanding lg = outstanding (flog st)"
proof -
  let ?st1 = "setblk b f (st\<lparr>bheld := b # bheld st\<rparr>)"
  have "log_wf (flog ?st1)" "lh_n (flog ?st1) < LOGBLOCKS" using assms by (simp_all add: setblk_def)
  then obtain lg where lg: "logblk b ?st1 = KRet () (?st1\<lparr>flog := lg\<rparr>)" "log_wf lg"
      "lset lg = insert b (lset (flog st))" "outstanding lg = outstanding (flog st)"
    by (rule logblk_ret [of ?st1 b]) (auto simp: setblk_def)
  have "removeAll b (bheld st) = bheld st" using assms(3) by simp
  then have "upd_blk b f st = KRet () (st\<lparr>blk := (blk st)(b := f (blk st b)), flog := lg\<rparr>)"
    using assms(3) lg(1) by (simp add: upd_blk_def getblk_def putblk_def setblk_def)
  then show ?thesis using that lg by blast
qed

section \<open>Bitmap bits\<close>

lemma bmask_bit: "bit (bmask bi) n \<longleftrightarrow> n = bi mod 8"
  by (auto simp: bmask_def bit_simps)

lemma bit_used_iff: "bit_used d bi \<longleftrightarrow> bit (d ! (bi div 8)) (bi mod 8)"
proof -
  have "(d ! (bi div 8)) AND bmask bi \<noteq> 0 \<longleftrightarrow> (\<exists>n. bit ((d ! (bi div 8)) AND bmask bi) n)"
    using bit_eqI [of "(d ! (bi div 8)) AND bmask bi" 0] by auto
  then show ?thesis by (simp add: bit_used_def bit_and_iff bmask_bit)
qed

lemma bit_used_mark:
  assumes "bi < 8 * length d" "bj < 8 * length d"
  shows "bit_used (mark_bit bi d) bj \<longleftrightarrow> bit_used d bj \<or> bj = bi"
proof (cases "bj div 8 = bi div 8")
  case True
  then have "bj = bi \<longleftrightarrow> bj mod 8 = bi mod 8" by (metis div_mult_mod_eq)
  then show ?thesis using True assms by (auto simp: bit_used_iff mark_bit_def bit_or_iff bmask_bit)
qed (auto simp: bit_used_iff mark_bit_def)

lemma bit_used_unmark:
  assumes "bi < 8 * length d" "bj < 8 * length d"
  shows "bit_used (unmark_bit bi d) bj \<longleftrightarrow> bit_used d bj \<and> bj \<noteq> bi"
proof (cases "bj div 8 = bi div 8")
  case True
  then have "bj = bi \<longleftrightarrow> bj mod 8 = bi mod 8" by (metis div_mult_mod_eq)
  then show ?thesis
    using True assms by (auto simp: bit_used_iff unmark_bit_def bit_and_iff bit_not_iff bmask_bit)
qed (auto simp: bit_used_iff unmark_bit_def)

lemma length_marks [simp]: "length (mark_bit bi d) = length d" "length (unmark_bit bi d) = length d"
  by (simp_all add: mark_bit_def unmark_bit_def)

lemma balloc_bits_spec:
  "(case balloc_bits d b sz bi k of
      None \<Rightarrow> \<forall>j. bi \<le> j \<and> j < bi + k \<and> b + j < sz \<longrightarrow> bit_used d j
    | Some j \<Rightarrow> bi \<le> j \<and> j < bi + k \<and> b + j < sz \<and> \<not> bit_used d j)"
proof (induction k arbitrary: bi)
  case (Suc k)
  show ?case
  proof (cases "b + bi < sz \<and> bit_used d bi")
    case True
    have "j = bi \<or> Suc bi \<le> j" if "bi \<le> j" for j using that by auto
    then show ?thesis using Suc.IH [of "Suc bi"] True by (auto split: option.splits)
  qed auto
qed auto

section \<open>The bitmap of the file system\<close>

definition used :: "fsst \<Rightarrow> u32 \<Rightarrow> bool" where
  "used st b \<longleftrightarrow> bit_used (blk st (BBLOCK b (sb st))) (unat (b mod 8192))"

definition fsize :: "fsst \<Rightarrow> nat" where
  "fsize st = unat (sbsize (sb st))"

definition BM :: "fsst \<Rightarrow> u32 set" where
  "BM st = {BBLOCK b (sb st) | b. unat b < fsize st}"

text \<open>
  A sane store: blocks have their size, the boot block and the bitmap are in use, and so is every
  block whose buffer is held; bitmap blocks are not held.
\<close>

definition store_ok :: "fsst \<Rightarrow> bool" where
  "store_ok st \<longleftrightarrow> (\<forall>b. length (blk st b) = BSIZE) \<and> log_wf (flog st) \<and> fsize st < 2 ^ 31
     \<and> used st 0 \<and> (\<forall>b \<in> BM st. unat b < fsize st \<and> used st b)
     \<and> (\<forall>b \<in> set (bheld st). unat b < fsize st \<and> used st b \<and> b \<notin> BM st)"

lemma store_okD:
  assumes "store_ok st"
  shows "length (blk st b) = BSIZE" "log_wf (flog st)" "fsize st < 2 ^ 31" "used st 0"
    "b \<in> BM st \<Longrightarrow> unat b < fsize st \<and> used st b" "b \<in> set (bheld st) \<Longrightarrow> unat b < fsize st \<and> used st b \<and> b \<notin> BM st"
  using assms by (auto simp: store_ok_def)

lemma BBLOCK_eq: "BBLOCK b s = BBLOCK c s \<longleftrightarrow> b div 8192 = c div 8192"
  by (simp add: BBLOCK_def)

lemma unat_mod8192: "unat (b mod 8192 :: u32) = unat b mod 8192" "unat (b div 8192 :: u32) = unat b div 8192"
  by (simp_all add: unat_mod unat_div)

lemma unat_mod_lt [simp]: "unat (b mod 8192 :: u32) < 8192"
  by (simp add: unat_mod8192)

lemma same_bit: "(b :: u32) div 8192 = c div 8192 \<Longrightarrow> unat (b mod 8192) = unat (c mod 8192) \<Longrightarrow> b = c"
  by (metis unat_mod8192 div_mult_mod_eq word_unat_eq_iff)

text \<open>Changing one bit of one bitmap block.\<close>

lemma used_mark:
  assumes "length (blk st (BBLOCK a (sb st))) = BSIZE"
    and "blk st' (BBLOCK a (sb st)) = mark_bit (unat (a mod 8192)) (blk st (BBLOCK a (sb st)))"
    and "\<And>b. b \<in> BM st \<Longrightarrow> b \<noteq> BBLOCK a (sb st) \<Longrightarrow> blk st' b = blk st b"
    and "sb st' = sb st" "unat b < fsize st"
  shows "used st' b \<longleftrightarrow> used st b \<or> b = a"
proof (cases "BBLOCK b (sb st) = BBLOCK a (sb st)")
  case True
  then have "b = a \<longleftrightarrow> unat (b mod 8192) = unat (a mod 8192)" using same_bit by (auto simp: BBLOCK_eq)
  then show ?thesis using True assms by (simp add: used_def bit_used_mark)
next
  case False
  then have "BBLOCK b (sb st) \<in> BM st" "b \<noteq> a" using assms(5) by (auto simp: BM_def)
  then show ?thesis using False assms by (simp add: used_def)
qed

lemma used_unmark:
  assumes "length (blk st (BBLOCK a (sb st))) = BSIZE"
    and "blk st' (BBLOCK a (sb st)) = unmark_bit (unat (a mod 8192)) (blk st (BBLOCK a (sb st)))"
    and "\<And>b. b \<in> BM st \<Longrightarrow> b \<noteq> BBLOCK a (sb st) \<Longrightarrow> blk st' b = blk st b"
    and "sb st' = sb st" "unat b < fsize st"
  shows "used st' b \<longleftrightarrow> used st b \<and> b \<noteq> a"
proof (cases "BBLOCK b (sb st) = BBLOCK a (sb st)")
  case True
  then have "b = a \<longleftrightarrow> unat (b mod 8192) = unat (a mod 8192)" using same_bit by (auto simp: BBLOCK_eq)
  then show ?thesis using True assms by (simp add: used_def bit_used_unmark)
next
  case False
  then have "BBLOCK b (sb st) \<in> BM st" "b \<noteq> a" using assms(5) by (auto simp: BM_def)
  then show ?thesis using False assms by (simp add: used_def)
qed

section \<open>Allocating and freeing blocks\<close>

lemma kbind_assoc: "kbind (kbind m f) g = kbind m (\<lambda>x s. kbind (f x s) g)"
  by (cases m) auto

lemma getblk_free: "b \<notin> set (bheld st) \<Longrightarrow> getblk b st = KRet (blk st b) (st\<lparr>bheld := b # bheld st\<rparr>)"
  by (simp add: getblk_def)

lemma putblk_got: "b \<notin> set (bheld st) \<Longrightarrow> putblk b (st\<lparr>bheld := b # bheld st\<rparr>) = KRet () st"
  by (simp add: putblk_def)

text \<open>What \<open>balloc\<close> promises.\<close>

definition balloc_post :: "fsst \<Rightarrow> u32 \<Rightarrow> fsst \<Rightarrow> bool" where
  "balloc_post st a st' \<longleftrightarrow>
     (if a = 0 then st' = st \<and> (\<forall>b. unat b < fsize st \<longrightarrow> used st b)
      else unat a < fsize st \<and> \<not> used st a
        \<and> (\<exists>lg. st' = st\<lparr>blk := (blk st)(BBLOCK a (sb st) := mark_bit (unat (a mod 8192)) (blk st (BBLOCK a (sb st))),
                 a := replicate BSIZE 0), flog := lg\<rparr>
             \<and> log_wf lg \<and> outstanding lg = outstanding (flog st) \<and> lset lg = lset (flog st) \<union> {BBLOCK a (sb st), a}))"

lemma bzero_upd: "bzero b st = upd_blk b (\<lambda>_. replicate BSIZE 0) st"
  by (simp add: bzero_def upd_blk_def)

lemma lset_grows:
  "log_wf lg \<Longrightarrow> log_wf lg' \<Longrightarrow> lset lg' = insert b (lset lg) \<Longrightarrow> lh_n lg' \<le> lh_n lg + 1"
  using lset_card [of lg] lset_card [of lg'] card_insert_le_m1 [of "lh_n lg + 1" "lset lg" b] by simp

lemma alloc_found:
  assumes ok: "store_ok st" and room: "lh_n (flog st) + 2 \<le> LOGBLOCKS"
    and a: "unat a < fsize st" "\<not> used st a"
  shows "\<exists>st'. kbind (upd_blk (BBLOCK a (sb st)) (mark_bit (unat (a mod 8192))) st) (\<lambda>_ st3.
      kbind (bzero a st3) (\<lambda>_ st4. KRet a st4)) = KRet a st' \<and> balloc_post st a st'"
proof -
  let ?bb = "BBLOCK a (sb st)"
  have bm: "?bb \<in> BM st" using a(1) by (auto simp: BM_def)
  then have nh: "?bb \<notin> set (bheld st)" "a \<notin> set (bheld st)" "a \<noteq> ?bb"
    using store_okD(5,6) [OF ok] a(2) by auto
  have lt: "lh_n (flog st) < LOGBLOCKS" using room by simp
  obtain lg1 where l1: "upd_blk ?bb (mark_bit (unat (a mod 8192))) st =
        KRet () (st\<lparr>blk := (blk st)(?bb := mark_bit (unat (a mod 8192)) (blk st ?bb)), flog := lg1\<rparr>)"
      "log_wf lg1" "lset lg1 = insert ?bb (lset (flog st))" "outstanding lg1 = outstanding (flog st)"
    using upd_blk_ret [OF store_okD(2) [OF ok] lt nh(1), of "mark_bit (unat (a mod 8192))"] by blast
  let ?st1 = "st\<lparr>blk := (blk st)(?bb := mark_bit (unat (a mod 8192)) (blk st ?bb)), flog := lg1\<rparr>"
  have "lh_n lg1 < LOGBLOCKS" using lset_grows [OF store_okD(2) [OF ok] l1(2,3)] room by simp
  then obtain lg2 where l2: "upd_blk a (\<lambda>_. replicate BSIZE 0) ?st1 =
        KRet () (?st1\<lparr>blk := (blk ?st1)(a := replicate BSIZE 0), flog := lg2\<rparr>)"
      "log_wf lg2" "lset lg2 = insert a (lset lg1)" "outstanding lg2 = outstanding lg1"
    using upd_blk_ret [of ?st1 a "\<lambda>_. replicate BSIZE 0"] l1(2) nh(2) by auto
  have "a \<noteq> 0" using a(2) store_okD(4) [OF ok] by auto
  then show ?thesis using l1 l2 a by (auto simp: bzero_upd balloc_post_def)
qed

lemma balloc_loop_spec:
  assumes ok: "store_ok st" and room: "lh_n (flog st) + 2 \<le> LOGBLOCKS"
    and full: "\<forall>b. unat b < 8192 * m \<longrightarrow> unat b < fsize st \<longrightarrow> used st b"
  shows "\<exists>a st'. balloc_loop (fsize st) (8192 * m) st = KRet a st' \<and> balloc_post st a st'"
  using full
proof (induction "fsize st - 8192 * m" arbitrary: m rule: less_induct)
  case less
  show ?case
  proof (cases "8192 * m < fsize st")
    case False
    then have "\<forall>b. unat b < fsize st \<longrightarrow> used st b" using less.prems by auto
    then show ?thesis using False by (simp add: balloc_post_def balloc_loop.simps)
  next
    case True
    let ?bb = "BBLOCK (of_nat (8192 * m)) (sb st)"
    have of_nat: "unat (of_nat (8192 * m + j) :: u32) = 8192 * m + j" if "8192 * m + j < fsize st" for j
      using that store_okD(3) [OF ok] by (simp add: unat_of_nat del: of_nat_add of_nat_mult)
    have same: "BBLOCK b (sb st) = ?bb" "unat (b mod 8192) = j" if "unat b = 8192 * m + j" "j < 8192" for b j
    proof -
      have "unat (b div 8192) = m" using that by (simp add: unat_mod8192)
      moreover have "unat (of_nat (8192 * m) div 8192 :: u32) = m"
        using of_nat [of 0] True by (simp add: unat_mod8192)
      ultimately have "b div 8192 = of_nat (8192 * m) div 8192" by (simp only: word_unat_eq_iff)
      then show "BBLOCK b (sb st) = ?bb" by (simp only: BBLOCK_eq)
      show "unat (b mod 8192) = j" using that by (simp add: unat_mod8192)
    qed
    have "?bb \<in> BM st" using of_nat [of 0] True unfolding BM_def by auto
    then have nh: "?bb \<notin> set (bheld st)" using store_okD(6) [OF ok] by auto
    note sp = balloc_bits_spec [where d = "blk st ?bb" and b = "8192 * m" and sz = "fsize st" and bi = 0 and k = 8192]
    show ?thesis
    proof (cases "balloc_bits (blk st ?bb) (8192 * m) (fsize st) 0 8192")
      case None
      have "used st b" if b: "unat b < 8192 * Suc m" "unat b < fsize st" for b
      proof (cases "unat b < 8192 * m")
        case False
        then have j: "unat b = 8192 * m + (unat b - 8192 * m)" "unat b - 8192 * m < 8192" using b(1) by auto
        then show ?thesis using sp None b(2) same [OF j] by (simp add: used_def)
      qed (use less.prems b in blast)
      moreover have "fsize st - 8192 * Suc m < fsize st - 8192 * m" using True by simp
      ultimately have "\<exists>a st'. balloc_loop (fsize st) (8192 * Suc m) st = KRet a st' \<and> balloc_post st a st'"
        using less.hyps [of "Suc m"] by blast
      moreover have "balloc_loop (fsize st) (8192 * m) st = balloc_loop (fsize st) (8192 * m + 8192) st"
        using True None nh by (subst balloc_loop.simps) (simp add: Let_def getblk_free putblk_got)
      ultimately show ?thesis by (simp add: add.commute)
    next
      case (Some j)
      let ?a = "of_nat (8192 * m + j) :: u32"
      have j: "j < 8192" "8192 * m + j < fsize st" "\<not> bit_used (blk st ?bb) j" using sp Some by auto
      have a: "unat ?a = 8192 * m + j" using of_nat j(2) by simp
      note sa = same [OF a j(1)]
      have "\<not> used st ?a" using j(3) sa by (simp add: used_def del: of_nat_add of_nat_mult)
      then have "\<exists>st'. kbind (upd_blk ?bb (mark_bit j) st) (\<lambda>_ st3.
          kbind (bzero ?a st3) (\<lambda>_ st4. KRet ?a st4)) = KRet ?a st' \<and> balloc_post st ?a st'"
        using alloc_found [OF ok room, of ?a] a j(2) sa by (simp del: of_nat_add of_nat_mult)
      moreover have "balloc_loop (fsize st) (8192 * m) st =
          kbind (upd_blk ?bb (mark_bit j) st) (\<lambda>_ st3. kbind (bzero ?a st3) (\<lambda>_ st4. KRet ?a st4))"
        using True Some nh by (subst balloc_loop.simps) (simp add: Let_def getblk_free upd_blk_def kbind_assoc del: of_nat_add of_nat_mult)
      ultimately show ?thesis by auto
    qed
  qed
qed

lemma balloc_spec:
  assumes "store_ok st" "lh_n (flog st) + 2 \<le> LOGBLOCKS"
  obtains a st' where "balloc st = KRet a st'" "balloc_post st a st'"
  using balloc_loop_spec [OF assms, of 0] that by (auto simp: balloc_def fsize_def)

lemma same_sb: "sb st' = sb st \<Longrightarrow> fsize st' = fsize st \<and> BM st' = BM st"
  by (simp add: fsize_def BM_def)

lemma balloc_facts:
  assumes ok: "store_ok st" and post: "balloc_post st a st'" and nz: "a \<noteq> 0"
  shows "store_ok st'" "unat a < fsize st" "\<not> used st a" "a \<notin> BM st" "a \<notin> set (bheld st)"
    "\<And>b. unat b < fsize st \<Longrightarrow> used st' b \<longleftrightarrow> used st b \<or> b = a"
    "blk st' a = replicate BSIZE 0" "\<And>b. b \<notin> BM st \<Longrightarrow> b \<noteq> a \<Longrightarrow> blk st' b = blk st b"
    "sb st' = sb st" "itab st' = itab st" "bheld st' = bheld st"
    "log_wf (flog st')" "lset (flog st') \<subseteq> lset (flog st) \<union> BM st \<union> {a}" "BM st' = BM st" "fsize st' = fsize st"
proof -
  let ?bb = "BBLOCK a (sb st)"
  obtain lg where P: "unat a < fsize st" "\<not> used st a"
      "st' = st\<lparr>blk := (blk st)(?bb := mark_bit (unat (a mod 8192)) (blk st ?bb), a := replicate BSIZE 0), flog := lg\<rparr>"
      "log_wf lg" "lset lg = lset (flog st) \<union> {?bb, a}" "outstanding lg = outstanding (flog st)"
    using post nz by (auto simp: balloc_post_def)
  show "unat a < fsize st" "\<not> used st a" using P by simp_all
  show am: "a \<notin> BM st" "a \<notin> set (bheld st)" using store_okD(5,6) [OF ok] P(2) by auto
  have bb: "?bb \<in> BM st" using P(1) by (auto simp: BM_def)
  then have ne: "a \<noteq> ?bb" using am by auto
  show sbs: "sb st' = sb st" and bh: "bheld st' = bheld st" and "itab st' = itab st"
    and z: "blk st' a = replicate BSIZE 0" and lw: "log_wf (flog st')"
    using P by simp_all
  show other: "blk st' b = blk st b" if "b \<notin> BM st" "b \<noteq> a" for b using P(3) bb that by auto
  show u: "used st' b \<longleftrightarrow> used st b \<or> b = a" if "unat b < fsize st" for b
    by (rule used_mark [OF store_okD(1) [OF ok] _ _ sbs that]) (use P(3) ne am in auto)
  show "lset (flog st') \<subseteq> lset (flog st) \<union> BM st \<union> {a}" using P bb by auto
  show "BM st' = BM st" "fsize st' = fsize st" using same_sb [OF sbs] by simp_all
  have lens: "length (blk st' b) = BSIZE" for b using P(3) store_okD(1) [OF ok] by simp
  have "used st' b" if "used st b" "unat b < fsize st" for b using u that by simp
  moreover have "used st' 0" using u [of 0] store_okD(4) [OF ok] P(1) by simp
  moreover have "used st' b" if "b \<in> set (bheld st)" for b using u store_okD(6) [OF ok that] by simp
  ultimately show "store_ok st'"
    using lens lw sbs bh same_sb [OF sbs] store_okD [OF ok] by (auto simp: store_ok_def)
qed

lemma bfree_spec:
  assumes ok: "store_ok st" and room: "lh_n (flog st) < LOGBLOCKS"
    and b: "unat b < fsize st" "used st b" "b \<noteq> 0" "b \<notin> BM st" "b \<notin> set (bheld st)"
  obtains st' where "bfree b st = KRet () st'" "store_ok st'" "sb st' = sb st" "itab st' = itab st" "bheld st' = bheld st"
    "\<And>c. unat c < fsize st \<Longrightarrow> used st' c \<longleftrightarrow> used st c \<and> c \<noteq> b" "\<And>c. c \<notin> BM st \<Longrightarrow> blk st' c = blk st c"
    "lset (flog st') \<subseteq> lset (flog st) \<union> BM st"
proof -
  let ?bb = "BBLOCK b (sb st)"
  have bm: "?bb \<in> BM st" using b(1) by (auto simp: BM_def)
  then have nh: "?bb \<notin> set (bheld st)" using store_okD(6) [OF ok] by auto
  obtain lg where l: "upd_blk ?bb (unmark_bit (unat (b mod 8192))) st =
        KRet () (st\<lparr>blk := (blk st)(?bb := unmark_bit (unat (b mod 8192)) (blk st ?bb)), flog := lg\<rparr>)"
      "log_wf lg" "lset lg = insert ?bb (lset (flog st))" "outstanding lg = outstanding (flog st)"
    using upd_blk_ret [OF store_okD(2) [OF ok] room nh, of "unmark_bit (unat (b mod 8192))"] by blast
  define st' where "st' = st\<lparr>blk := (blk st)(?bb := unmark_bit (unat (b mod 8192)) (blk st ?bb)), flog := lg\<rparr>"
  have "bfree b st = upd_blk ?bb (unmark_bit (unat (b mod 8192))) st"
    using b(2) nh by (simp add: bfree_def upd_blk_def Let_def used_def getblk_free)
  then have run: "bfree b st = KRet () st'" using l(1) by (simp add: st'_def)
  have F: "sb st' = sb st" "itab st' = itab st" "bheld st' = bheld st" "flog st' = lg" by (simp_all add: st'_def)
  have other: "blk st' c = blk st c" if "c \<notin> BM st" for c using that bm by (auto simp: st'_def)
  have u: "used st' c \<longleftrightarrow> used st c \<and> c \<noteq> b" if "unat c < fsize st" for c
    by (rule used_unmark [OF store_okD(1) [OF ok] _ _ F(1) that]) (auto simp: st'_def)
  have "used st' c" if "used st c" "unat c < fsize st" "c \<noteq> b" for c using u that by simp
  moreover have "length (blk st' c) = BSIZE" for c using store_okD(1) [OF ok] by (simp add: st'_def)
  moreover have "used st' 0" using u [of 0] store_okD(4) [OF ok] b(1,3) by simp
  moreover have "used st' c" if "c \<in> set (bheld st)" for c using u [of c] store_okD(6) [OF ok that] b(5) that by auto
  moreover have "used st' c" if "c \<in> BM st" for c using u [of c] store_okD(5) [OF ok that] b(4) that by auto
  ultimately have "store_ok st'"
    using F l(2) same_sb [OF F(1)] store_okD(3,5,6) [OF ok] by (auto simp: store_ok_def)
  then show ?thesis using that [of st'] run F other u l(3) bm by auto
qed

text \<open>A file system of 64 blocks: inodes in block 2, the bitmap in block 3, blocks 0 to 3 in use, one inode in the table.\<close>

definition sample_fs :: fsst where
  "sample_fs = \<lparr>sb = \<lparr>magic = FSMAGIC, sbsize = 64, nblocks = 60, ninodes = 16, nlog = 30, logstart = 64, inodestart = 2, bmapstart = 3\<rparr>,
     blk = (\<lambda>b. if b = 3 then 0x0F # replicate 1023 0 else replicate BSIZE 0), bheld = [],
     flog = \<lparr>lstart = 64, outstanding = 1, committing = False, lh_n = 0, lh_block = replicate LOGBLOCKS 0\<rparr>,
     itab = [\<lparr>itype = T_FILE, imajor = 0, iminor = 0, nlink = 1, isize = 0, addrs = replicate 13 0,
              idev = 1, inum = 1, iref = 1, ilk = initsleeplock, ivalid = True\<rparr>]\<rparr>"

lemma sample_BM: "BM sample_fs = {3}" "fsize sample_fs = 64"
proof -
  have "b div 8192 = 0" if "unat b < 64" for b :: u32
    using that by (simp add: word_unat_eq_iff unat_mod8192)
  then show "fsize sample_fs = 64" "BM sample_fs = {3}"
    by (auto simp: BM_def BBLOCK_def fsize_def sample_fs_def intro!: exI [of _ 0])
qed

lemma sample_used: "used sample_fs 0" "used sample_fs 2" "used sample_fs 3" "\<not> used sample_fs 4"
  by (simp_all add: used_def BBLOCK_def sample_fs_def bit_used_def bmask_def)

lemma sample_store_ok: "store_ok sample_fs" "lh_n (flog sample_fs) = 0"
  using sample_BM sample_used by (simp_all add: store_ok_def log_wf_def) (simp_all add: sample_fs_def)



text \<open>
  \<open>bfree\<close> undoes \<open>balloc\<close>: freeing a block \<open>balloc\<close> has just returned gives back the bitmap as
  it was, and the block is the only one whose contents differ.
\<close>

theorem balloc_bfree_roundtrip:
  assumes "store_ok st" "lh_n (flog st) + 3 \<le> LOGBLOCKS" "balloc st = KRet a st'" "a \<noteq> 0"
  shows "\<exists>st2. bfree a st' = KRet () st2 \<and> store_ok st2 \<and> (\<forall>b. unat b < fsize st \<longrightarrow> used st2 b = used st b)
    \<and> (\<forall>b. b \<notin> BM st \<longrightarrow> b \<noteq> a \<longrightarrow> blk st2 b = blk st b)"
proof -
  have "lh_n (flog st) + 2 \<le> LOGBLOCKS" using assms(2) by simp
  then have post: "balloc_post st a st'" using balloc_spec [OF assms(1)] assms(3) by fastforce
  note F = balloc_facts [OF assms(1) post assms(4)]
  have "card (lset (flog st')) \<le> card (lset (flog st)) + 2"
  proof -
    have "lset (flog st') = lset (flog st) \<union> {BBLOCK a (sb st), a}" using post assms(4) unfolding balloc_post_def by clarsimp
    then have "card (lset (flog st')) \<le> card (lset (flog st)) + card {BBLOCK a (sb st), a}" by (simp only: card_Un_le)
    moreover have "card {BBLOCK a (sb st), a} \<le> 2" by (simp add: card_insert_if)
    ultimately show ?thesis by simp
  qed
  then have lt: "lh_n (flog st') < LOGBLOCKS"
    using lset_card [OF store_okD(2) [OF assms(1)]] lset_card [OF F(12)] assms(2) by simp
  have pre: "unat a < fsize st'" "used st' a" "a \<notin> BM st'" "a \<notin> set (bheld st')" using F by simp_all
  obtain st2 where "bfree a st' = KRet () st2" "store_ok st2"
      "\<And>c. unat c < fsize st' \<Longrightarrow> used st2 c \<longleftrightarrow> used st' c \<and> c \<noteq> a" "\<And>c. c \<notin> BM st' \<Longrightarrow> blk st2 c = blk st' c"
    by (rule bfree_spec [OF F(1) lt pre(1,2) assms(4) pre(3,4)]) (rule that)
  then show ?thesis using F by auto
qed

theorem balloc_bfree_roundtrip_witness:
  "\<exists>a st' st2. balloc sample_fs = KRet a st' \<and> bfree a st' = KRet () st2 \<and> store_ok st2 \<and> used st2 a = used sample_fs a"
proof -
  have room: "lh_n (flog sample_fs) + 2 \<le> LOGBLOCKS" "lh_n (flog sample_fs) + 3 \<le> LOGBLOCKS" using sample_store_ok(2) by simp_all
  obtain a st' where a: "balloc sample_fs = KRet a st'" "balloc_post sample_fs a st'"
    using balloc_spec [OF sample_store_ok(1) room(1)] .
  have "a \<noteq> 0"
  proof
    assume "a = 0"
    then have "\<forall>b. unat b < 64 \<longrightarrow> used sample_fs b" using a(2) by (simp add: balloc_post_def sample_BM)
    then show False using sample_used(4) by (auto dest!: spec [of _ 4])
  qed
  moreover from this have "unat a < fsize sample_fs" using a(2) by (simp add: balloc_post_def)
  ultimately show ?thesis using balloc_bfree_roundtrip [OF sample_store_ok(1) room(2) a(1)] a(1) by blast
qed

end
