(* ===== verification/Fsfile.thy ===== *)
theory Fsfile
  imports Fsblocks
begin

text \<open>
  A file as bytes: the block map of an inode, what \<open>bmap\<close> does to it, and the bytes \<open>readi\<close> and
  \<open>writei\<close> move. A missing block reads as zeros, which is what \<open>balloc\<close> fills a new block with, so
  allocation never changes the bytes of a file.
\<close>

section \<open>Fields of a block\<close>

lemma length_put_bytes: "off + length bs \<le> length d \<Longrightarrow> length (put_bytes off bs d) = length d"
  by (simp add: put_bytes_def)

lemma nth_put_bytes:
  "off + length bs \<le> length d \<Longrightarrow> i < length d \<Longrightarrow>
     put_bytes off bs d ! i = (if off \<le> i \<and> i < off + length bs then bs ! (i - off) else d ! i)"
  by (auto simp: put_bytes_def nth_append)

lemma take_drop_put:
  assumes "off + length bs \<le> length d" "o2 + n \<le> length d"
  shows "o2 = off \<Longrightarrow> n = length bs \<Longrightarrow> take n (drop o2 (put_bytes off bs d)) = bs"
    "o2 + n \<le> off \<or> off + length bs \<le> o2 \<Longrightarrow> take n (drop o2 (put_bytes off bs d)) = take n (drop o2 d)"
  using assms by (auto intro!: nth_equalityI simp: nth_put_bytes length_put_bytes)

lemma get_put_le:
  assumes "4 * j + 4 \<le> length d" "4 * k + 4 \<le> length d"
  shows "get_le (4 * k) 4 (put_bytes (4 * j) (bytes_of 4 (a :: u32)) d) = (if k = j then a else get_le (4 * k) 4 d)"
proof (cases "k = j")
  case True
  then show ?thesis using take_drop_put(1) [of "4 * j" "bytes_of 4 a" d "4 * k" 4] assms by (simp add: get_le_def)
next
  case False
  then have "4 * k + 4 \<le> 4 * j \<or> 4 * j + length (bytes_of 4 a) \<le> 4 * k" by auto
  then show ?thesis
    using take_drop_put(2) [of "4 * j" "bytes_of 4 a" d "4 * k" 4] assms False by (simp add: get_le_def)
qed

lemma word_of_zeros [simp]: "word_of_bytes (replicate n 0) = 0"
  by (induction n) auto

lemma get_le_zeros: "get_le off n (replicate m 0) = 0"
  by (simp add: get_le_def)

section \<open>The block map of an inode\<close>

text \<open>
  The 269 slots of an inode: twelve direct blocks, the indirect block, and its 256 entries. Block
  \<open>bn\<close> of the file is in slot \<open>six bn\<close>.
\<close>

abbreviation (input) NSLOT :: nat where "NSLOT \<equiv> 269"

definition slot :: "fsst \<Rightarrow> nat \<Rightarrow> nat \<Rightarrow> u32" where
  "slot st ip i =
     (let as = addrs (itab st ! ip)
      in if i \<le> NDIRECT then as ! i
         else if as ! NDIRECT = 0 then 0 else get_le (4 * (i - 13)) 4 (blk st (as ! NDIRECT)))"

definition six :: "nat \<Rightarrow> nat" where
  "six bn = (if bn < NDIRECT then bn else bn + 1)"

lemma six_facts: "bn < 268 \<Longrightarrow> six bn < NSLOT" "six bn \<noteq> NDIRECT" "six a = six b \<longleftrightarrow> a = b"
  by (auto simp: six_def)

definition iblk :: "fsst \<Rightarrow> nat \<Rightarrow> u32" where
  "iblk st ip = IBLOCK (inum (itab st ! ip)) (sb st)"

definition data_block :: "fsst \<Rightarrow> u32 \<Rightarrow> bool" where
  "data_block st b \<longleftrightarrow> unat b < fsize st \<and> used st b \<and> b \<notin> BM st \<and> b \<notin> set (bheld st)"

definition ino_ok :: "fsst \<Rightarrow> nat \<Rightarrow> bool" where
  "ino_ok st ip \<longleftrightarrow> store_ok st \<and> ip < length (itab st) \<and> length (addrs (itab st ! ip)) = NDIRECT + 1
     \<and> (\<forall>i < NSLOT. slot st ip i \<noteq> 0 \<longrightarrow> data_block st (slot st ip i) \<and> slot st ip i \<noteq> iblk st ip)
     \<and> (\<forall>i < NSLOT. \<forall>j < NSLOT. slot st ip i = slot st ip j \<longrightarrow> slot st ip i \<noteq> 0 \<longrightarrow> i = j)
     \<and> data_block st (iblk st ip) \<and> iblk st ip \<noteq> 0"

lemma ino_okD:
  assumes "ino_ok st ip"
  shows "store_ok st" "ip < length (itab st)" "length (addrs (itab st ! ip)) = 13"
    "i < NSLOT \<Longrightarrow> slot st ip i \<noteq> 0 \<Longrightarrow> data_block st (slot st ip i)"
    "i < NSLOT \<Longrightarrow> slot st ip i \<noteq> 0 \<Longrightarrow> slot st ip i \<noteq> iblk st ip"
    "i < NSLOT \<Longrightarrow> j < NSLOT \<Longrightarrow> slot st ip i = slot st ip j \<Longrightarrow> slot st ip i \<noteq> 0 \<Longrightarrow> i = j"
    "data_block st (iblk st ip)" "iblk st ip \<noteq> 0"
  using assms by (auto simp: ino_ok_def)

text \<open>
  \<open>ext st ip st'\<close>: blocks may have been added to the file, all of them zero, and nothing that was
  in use has changed except the bitmap and the indirect block.
\<close>

definition ext :: "fsst \<Rightarrow> nat \<Rightarrow> fsst \<Rightarrow> bool" where
  "ext st ip st' \<longleftrightarrow> ino_ok st' ip \<and> sb st' = sb st \<and> bheld st' = bheld st
     \<and> (\<exists>as. itab st' = (itab st)[ip := (itab st ! ip)\<lparr>addrs := as\<rparr>])
     \<and> (\<forall>j < NSLOT. slot st ip j \<noteq> 0 \<longrightarrow> slot st' ip j = slot st ip j)
     \<and> (\<forall>j < NSLOT. slot st ip j = 0 \<longrightarrow> slot st' ip j \<noteq> 0 \<longrightarrow> j \<noteq> NDIRECT \<longrightarrow> blk st' (slot st' ip j) = replicate BSIZE 0)
     \<and> (\<forall>b. unat b < fsize st \<longrightarrow> used st b \<longrightarrow> used st' b)
     \<and> (\<forall>b. unat b < fsize st \<longrightarrow> used st b \<longrightarrow> b \<notin> BM st \<longrightarrow> b \<noteq> 0 \<longrightarrow> b \<noteq> slot st' ip NDIRECT \<longrightarrow> blk st' b = blk st b)"

lemma extD:
  assumes "ext st ip st'"
  shows "ino_ok st' ip" "sb st' = sb st" "bheld st' = bheld st" "fsize st' = fsize st" "BM st' = BM st"
    "j < NSLOT \<Longrightarrow> slot st ip j \<noteq> 0 \<Longrightarrow> slot st' ip j = slot st ip j"
    "j < NSLOT \<Longrightarrow> slot st ip j = 0 \<Longrightarrow> slot st' ip j \<noteq> 0 \<Longrightarrow> j \<noteq> NDIRECT \<Longrightarrow> blk st' (slot st' ip j) = replicate BSIZE 0"
    "unat b < fsize st \<Longrightarrow> used st b \<Longrightarrow> used st' b"
    "unat b < fsize st \<Longrightarrow> used st b \<Longrightarrow> b \<notin> BM st \<Longrightarrow> b \<noteq> 0 \<Longrightarrow> b \<noteq> slot st' ip NDIRECT \<Longrightarrow> blk st' b = blk st b"
    "\<exists>as. itab st' = (itab st)[ip := (itab st ! ip)\<lparr>addrs := as\<rparr>]"
  using assms same_sb [of st' st] by (auto simp: ext_def)

lemma ext_refl: "ino_ok st ip \<Longrightarrow> ext st ip st"
  by (auto simp: ext_def intro: exI [of _ "addrs (itab st ! ip)"])

lemma slot_ne_indirect:
  assumes "ino_ok st ip" "j < NSLOT" "j \<noteq> NDIRECT" "slot st ip j \<noteq> 0"
  shows "slot st ip j \<noteq> slot st ip NDIRECT"
  using ino_okD(6) [OF assms(1,2), of NDIRECT] assms(3,4) by auto

lemma ext_trans:
  assumes e1: "ext s1 ip s2" and e2: "ext s2 ip s3" and ok: "ino_ok s1 ip"
  shows "ext s1 ip s3"
proof -
  note D1 = extD [OF e1]
  note D2 = extD [OF e2]
  have ind: "slot s2 ip NDIRECT = 0 \<or> slot s3 ip NDIRECT = slot s2 ip NDIRECT" using D2(6) [of NDIRECT] by auto
  have usd: "used s3 b" if b: "unat b < fsize s1" "used s1 b" for b
    using D1(8) [OF b] D2(8) [of b] b(1) D1(4) by simp
  have keep: "blk s3 b = blk s1 b"
    if b: "unat b < fsize s1" "used s1 b" "b \<notin> BM s1" "b \<noteq> 0" "b \<noteq> slot s3 ip NDIRECT" for b
  proof -
    have n: "b \<noteq> slot s2 ip NDIRECT" using ind b(4,5) by auto
    then have "blk s3 b = blk s2 b" using D2(9) [of b] D1(4,5) D1(8) [OF b(1,2)] b by simp
    then show ?thesis using D1(9) [OF b(1-4) n] by simp
  qed
  have zero: "blk s3 (slot s3 ip j) = replicate BSIZE 0"
    if j: "j < NSLOT" "slot s1 ip j = 0" "slot s3 ip j \<noteq> 0" "j \<noteq> NDIRECT" for j
  proof (cases "slot s2 ip j = 0")
    case True
    then show ?thesis using D2(7) j by blast
  next
    case False
    then have s: "slot s3 ip j = slot s2 ip j" using D2(6) j(1) by blast
    have "data_block s2 (slot s2 ip j)" using ino_okD(4) [OF D1(1) j(1) False] .
    moreover have "slot s2 ip j \<noteq> slot s3 ip NDIRECT" using slot_ne_indirect [OF D2(1) j(1,4,3)] s by simp
    ultimately have "blk s3 (slot s2 ip j) = blk s2 (slot s2 ip j)"
      using D2(9) False by (auto simp: data_block_def)
    then show ?thesis using s D1(7) [OF j(1,2) False j(4)] by simp
  qed
  obtain as1 as2 where "itab s2 = (itab s1)[ip := (itab s1 ! ip)\<lparr>addrs := as1\<rparr>]"
      "itab s3 = (itab s2)[ip := (itab s2 ! ip)\<lparr>addrs := as2\<rparr>]"
    using D1(10) D2(10) by blast
  then have "\<exists>as. itab s3 = (itab s1)[ip := (itab s1 ! ip)\<lparr>addrs := as\<rparr>]"
    using ino_okD(2) [OF ok] by (intro exI [of _ as2]) simp
  then show ?thesis unfolding ext_def using D1 D2 keep zero usd by simp
qed

section \<open>Mapping a block\<close>

lemma used_cong: "blk st' = blk st \<Longrightarrow> sb st' = sb st \<Longrightarrow> used st' = used st"
  by (auto simp: used_def fun_eq_iff)

lemma store_ok_cong:
  "store_ok st \<Longrightarrow> blk st' = blk st \<Longrightarrow> sb st' = sb st \<Longrightarrow> bheld st' = bheld st \<Longrightarrow> flog st' = flog st \<Longrightarrow> store_ok st'"
  using used_cong [of st' st] same_sb [of st' st] by (simp add: store_ok_def)

text \<open>
  The pattern of every allocation for a file: slot \<open>k\<close>, empty before, now holds the zeroed block
  \<open>a\<close>, and all other slots are as before.
\<close>

lemma ext_fresh:
  assumes ok: "ino_ok st ip" and ok': "store_ok st'" and k: "k < NSLOT" "slot st ip k = 0" "a \<noteq> 0"
    and a: "unat a < fsize st" "\<not> used st a" "used st' a" "a \<notin> BM st" "a \<notin> set (bheld st)" "blk st' a = replicate BSIZE 0"
    and same: "sb st' = sb st" "bheld st' = bheld st"
    and it: "itab st' = (itab st)[ip := (itab st ! ip)\<lparr>addrs := as\<rparr>]" "length as = NDIRECT + 1"
    and slots: "\<And>j. j < NSLOT \<Longrightarrow> slot st' ip j = (if j = k then a else slot st ip j)"
    and us: "\<And>b. unat b < fsize st \<Longrightarrow> used st b \<Longrightarrow> used st' b"
    and keep: "\<And>b. unat b < fsize st \<Longrightarrow> used st b \<Longrightarrow> b \<notin> BM st \<Longrightarrow> b \<noteq> 0 \<Longrightarrow> b \<noteq> slot st' ip NDIRECT \<Longrightarrow> blk st' b = blk st b"
  shows "ext st ip st'"
proof -
  note O = ino_okD [OF ok]
  note S = same_sb [OF same(1)]
  have len: "ip < length (itab st')" "addrs (itab st' ! ip) = as" "iblk st' ip = iblk st ip"
    using it O(2) same by (simp_all add: iblk_def)
  have db: "data_block st' b" if "data_block st b" for b
    using that S same us by (auto simp: data_block_def)
  have dba: "data_block st' a" using a S same by (simp add: data_block_def)
  have ai: "a \<noteq> iblk st ip" "a \<noteq> slot st ip j" if "j < NSLOT" for j
    using O(4) [OF that] O(7) a(2) k(3) by (auto simp: data_block_def)
  have "ino_ok st' ip"
    unfolding ino_ok_def
  proof (intro conjI allI impI)
    fix i assume i: "i < NSLOT" "slot st' ip i \<noteq> 0"
    show "data_block st' (slot st' ip i)" "slot st' ip i \<noteq> iblk st' ip"
      using slots [OF i(1)] i db dba O(4,5) [OF i(1)] ai [OF i(1)] len(3) by auto
  next
    fix i j assume ij: "i < NSLOT" "j < NSLOT" "slot st' ip i = slot st' ip j" "slot st' ip i \<noteq> 0"
    then show "i = j" using slots [OF ij(1)] slots [OF ij(2)] O(6) [OF ij(1,2)] ai [OF ij(1)] ai [OF ij(2)]
      by (auto split: if_splits)
  qed (use ok' len it(2) db O(7,8) in auto)
  moreover have "blk st' (slot st' ip j) = replicate BSIZE 0"
    if "j < NSLOT" "slot st ip j = 0" "slot st' ip j \<noteq> 0" for j
    using slots [OF that(1)] that a(6) by (auto split: if_splits)
  moreover have "slot st' ip j = slot st ip j" if "j < NSLOT" "slot st ip j \<noteq> 0" for j
    using slots [OF that(1)] k(2) that by auto
  ultimately show ?thesis using same it us keep by (auto simp: ext_def)
qed

lemma slot_direct_fresh:
  assumes ok: "ino_ok st ip" and k: "k \<le> NDIRECT" "slot st ip k = 0"
    and post: "balloc_post st a st1" and nz: "a \<noteq> 0"
  defines "st' \<equiv> upd_inode ip (\<lambda>x. x\<lparr>addrs := (addrs x)[k := a]\<rparr>) st1"
  shows "ext st ip st' \<and> slot st' ip k = a"
proof -
  note O = ino_okD [OF ok]
  note F = balloc_facts [OF O(1) post nz]
  let ?as = "(addrs (itab st ! ip))[k := a]"
  have it: "itab st' = (itab st)[ip := (itab st ! ip)\<lparr>addrs := ?as\<rparr>]" by (simp add: st'_def F(10))
  have as: "addrs (itab st' ! ip) = ?as" using it O(2) by simp
  have ind: "blk st' (slot st ip NDIRECT) = blk st (slot st ip NDIRECT)" if "slot st ip NDIRECT \<noteq> 0"
    using ino_okD(4) [OF ok, of NDIRECT] that F(3) F(8) by (auto simp: st'_def data_block_def)
  have slots: "slot st' ip j = (if j = k then a else slot st ip j)" if j: "j < NSLOT" for j
  proof (cases "j \<le> NDIRECT")
    case True
    then show ?thesis using as O(3) k(1) by (auto simp: slot_def Let_def)
  next
    case False
    show ?thesis
    proof (cases "k = NDIRECT")
      case True
      then have "slot st ip j = 0" using k(2) False by (simp add: slot_def)
      moreover have "slot st' ip j = 0"
        using as O(3) False True nz F(7) by (simp add: slot_def Let_def st'_def get_le_zeros)
      ultimately show ?thesis using False True by simp
    next
      case kn: False
      then have "?as ! NDIRECT = addrs (itab st ! ip) ! NDIRECT" by simp
      then show ?thesis using as False kn k(1) ind by (auto simp: slot_def Let_def)
    qed
  qed
  have ok': "store_ok st'" by (rule store_ok_cong [OF F(1)]) (simp_all add: st'_def)
  have u: "used st' = used st1" by (rule used_cong) (simp_all add: st'_def)
  have "ext st ip st'"
  proof (rule ext_fresh [OF ok ok' _ k(2) nz F(2,3) _ F(4,5) _ _ _ it _ slots])
    show "blk st' b = blk st b" if "unat b < fsize st" "used st b" "b \<notin> BM st" for b
      using F(3) F(8) that by (auto simp: st'_def)
  qed (use k(1) u F O(3) in \<open>auto simp: st'_def\<close>)
  then show ?thesis using slots [of k] k(1) by simp
qed

lemma balloc_log: "balloc_post st a st' \<Longrightarrow> store_ok st \<Longrightarrow> lh_n (flog st') \<le> lh_n (flog st) + 2"
proof (cases "a = 0")
  case False
  assume p: "balloc_post st a st'" and ok: "store_ok st"
  have e: "lset (flog st') = lset (flog st) \<union> {BBLOCK a (sb st), a}" "log_wf (flog st')"
    using p False unfolding balloc_post_def by clarsimp+
  have "card (lset (flog st) \<union> {BBLOCK a (sb st), a}) \<le> card (lset (flog st)) + card {BBLOCK a (sb st), a}"
    by (rule card_Un_le)
  moreover have "card {BBLOCK a (sb st), a} \<le> 2" by (simp add: card_insert_if)
  ultimately show ?thesis using lset_card [OF e(2)] lset_card [OF store_okD(2) [OF ok]] e(1) by simp
qed (simp add: balloc_post_def)

definition full :: "fsst \<Rightarrow> bool" where
  "full st \<longleftrightarrow> (\<forall>b. unat b < fsize st \<longrightarrow> used st b)"

lemma bmap_slot_spec:
  assumes ok: "ino_ok st ip" and room: "lh_n (flog st) + 2 \<le> LOGBLOCKS" and k: "k \<le> NDIRECT"
  obtains a st' where "bmap_slot ip k st = KRet a st'" "ext st ip st'" "slot st' ip k = a"
    "lset (flog st') \<subseteq> lset (flog st) \<union> BM st \<union> ({a} - {0})" "lh_n (flog st') \<le> lh_n (flog st) + 2" "a = 0 \<longrightarrow> st' = st \<and> full st"
proof (cases "slot st ip k = 0")
  case True
  have s: "addrs (itab st ! ip) ! k = 0" using True k by (simp add: slot_def Let_def)
  obtain a st1 where b: "balloc st = KRet a st1" "balloc_post st a st1" using balloc_spec [OF ino_okD(1) [OF ok] room] .
  show ?thesis
  proof (cases "a = 0")
    case a0: True
    then have "st1 = st" "full st" using b(2) by (auto simp: balloc_post_def full_def)
    then show ?thesis using that [of 0 st] s b a0 True ext_refl [OF ok] by (auto simp: bmap_slot_def)
  next
    case False
    let ?st' = "upd_inode ip (\<lambda>x. x\<lparr>addrs := (addrs x)[k := a]\<rparr>) st1"
    note F = balloc_facts [OF ino_okD(1) [OF ok] b(2) False]
    have "bmap_slot ip k st = KRet a ?st'" using s b False by (simp add: bmap_slot_def)
    then show ?thesis
      using that [of a ?st'] slot_direct_fresh [OF ok k True b(2) False] F(13) balloc_log [OF b(2) ino_okD(1) [OF ok]] False by simp
  qed
next
  case False
  then have "bmap_slot ip k st = KRet (slot st ip k) st" using k by (simp add: bmap_slot_def slot_def Let_def)
  then show ?thesis using that [of "slot st ip k" st] ext_refl [OF ok] False by auto
qed

lemma slot_indirect: "k < NINDIRECT \<Longrightarrow> slot st ip NDIRECT \<noteq> 0 \<Longrightarrow>
    slot st ip (13 + k) = get_le (4 * k) 4 (blk st (slot st ip NDIRECT))"
  by (simp add: slot_def Let_def)

lemma ind_fresh:
  assumes ok: "ino_ok st ip" and ia: "ia = slot st ip NDIRECT" "ia \<noteq> 0" and k: "k < NINDIRECT" "slot st ip (13 + k) = 0"
    and post: "balloc_post (st\<lparr>bheld := ia # bheld st\<rparr>) a st3" and nz: "a \<noteq> 0"
    and ok2: "store_ok (st\<lparr>bheld := ia # bheld st\<rparr>)" and lg: "log_wf lg"
  defines "st' \<equiv> st3\<lparr>blk := (blk st3)(ia := put_bytes (4 * k) (bytes_of 4 a) (blk st3 ia)), flog := lg, bheld := bheld st\<rparr>"
  shows "ext st ip st' \<and> slot st' ip (13 + k) = a"
proof -
  note O = ino_okD [OF ok]
  note F = balloc_facts [OF ok2 post nz]
  let ?st2 = "st\<lparr>bheld := ia # bheld st\<rparr>"
  have u2: "used ?st2 = used st" by (rule used_cong) simp_all
  have S2: "fsize ?st2 = fsize st" "BM ?st2 = BM st" using same_sb [of ?st2 st] by simp_all
  have iad: "unat ia < fsize st" "used st ia" "ia \<notin> BM st" "ia \<notin> set (bheld st)"
    using ino_okD(4) [OF ok, of NDIRECT] ia by (simp_all add: data_block_def)
  have aia: "a \<noteq> ia" using F(5) by auto
  have bia: "blk st3 ia = blk st ia" using F(8) [of ia] iad(3) aia S2 by simp
  have len: "length (blk st ia) = BSIZE" using store_okD(1) [OF O(1)] .
  have b': "blk st' b = (if b = ia then put_bytes (4 * k) (bytes_of 4 a) (blk st ia) else blk st3 b)" for b
    by (simp add: st'_def bia)
  have it: "itab st' = (itab st)[ip := (itab st ! ip)\<lparr>addrs := addrs (itab st ! ip)\<rparr>]" by (simp add: st'_def F(10))
  have as: "addrs (itab st' ! ip) = addrs (itab st ! ip)" by (simp add: st'_def F(10))
  have sb': "sb st' = sb st" "bheld st' = bheld st" by (simp_all add: st'_def F(9))
  have slots: "slot st' ip j = (if j = 13 + k then a else slot st ip j)" if j: "j < NSLOT" for j
  proof (cases "j \<le> NDIRECT")
    case True
    then show ?thesis using as by (simp add: slot_def Let_def)
  next
    case False
    then have j2: "4 * (j - 13) + 4 \<le> length (blk st ia)" "4 * k + 4 \<le> length (blk st ia)" "j - 13 = k \<longleftrightarrow> j = 13 + k"
      using j k(1) len by auto
    have "slot st' ip j = get_le (4 * (j - 13)) 4 (blk st' ia)" "slot st ip j = get_le (4 * (j - 13)) 4 (blk st ia)"
      using False as ia by (auto simp: slot_def Let_def)
    then show ?thesis using get_put_le [OF j2(2,1), of a] j2(3) b' [of ia] by simp
  qed
  have bmu: "used st' b = used st3 b" if "unat b < fsize st" for b
  proof -
    have "BBLOCK b (sb st) \<in> BM st" using that by (auto simp: BM_def)
    then have "BBLOCK b (sb st) \<noteq> ia" using iad(3) by auto
    then show ?thesis using b' sb' F(9) by (simp add: used_def)
  qed
  have us: "used st' b \<longleftrightarrow> used st b \<or> b = a" if "unat b < fsize st" for b
    using bmu [OF that] F(6) [of b] that S2 u2 by simp
  have "length (blk st' b) = BSIZE" for b
    using b' store_okD(1) [OF F(1)] len k(1) by (simp add: length_put_bytes)
  moreover have "used st' 0" using us [of 0] store_okD(4) [OF O(1)] iad(1) by simp
  moreover have "used st' b" if "b \<in> BM st" for b using us [of b] store_okD(5) [OF O(1) that] by simp
  moreover have "used st' b" if "b \<in> set (bheld st)" for b using us [of b] store_okD(6) [OF O(1) that] by simp
  ultimately have ok': "store_ok st'"
    using lg sb' same_sb [OF sb'(1)] store_okD(3,5,6) [OF O(1)] by (auto simp: store_ok_def st'_def)
  have "ext st ip st'"
  proof (rule ext_fresh [OF ok ok' _ k(2) nz _ _ _ _ _ _ sb' it _ slots])
    show "blk st' b = blk st b" if "unat b < fsize st" "used st b" "b \<notin> BM st" "b \<noteq> slot st' ip NDIRECT" for b
    proof -
      have "b \<noteq> ia" "b \<noteq> a" using that slots [of NDIRECT] ia F(3) u2 by auto
      then show ?thesis using b' F(8) [of b] that S2 by simp
    qed
    show "blk st' a = replicate BSIZE 0" using b' aia F(7) by simp
  qed (use k(1) us F(2-5) S2 u2 O(3) in auto)
  then show ?thesis using slots [of "13 + k"] k(1) by simp
qed

lemma bmap_ind_spec:
  assumes ok: "ino_ok st ip" and ia: "ia = slot st ip NDIRECT" "ia \<noteq> 0" and k: "k < NINDIRECT"
    and room: "lh_n (flog st) + 3 \<le> LOGBLOCKS"
  obtains a st' where "bmap_ind ia k st = KRet a st'" "ext st ip st'" "slot st' ip (13 + k) = a"
    "lset (flog st') \<subseteq> lset (flog st) \<union> BM st \<union> ({a, ia} - {0})" "a = 0 \<longrightarrow> st' = st \<and> full st"
proof -
  note O = ino_okD [OF ok]
  let ?st2 = "st\<lparr>bheld := ia # bheld st\<rparr>"
  have iad: "unat ia < fsize st" "used st ia" "ia \<notin> BM st" "ia \<notin> set (bheld st)"
    using ino_okD(4) [OF ok, of NDIRECT] ia by (simp_all add: data_block_def)
  have u2: "used ?st2 = used st" by (rule used_cong) simp_all
  have S2: "fsize ?st2 = fsize st" "BM ?st2 = BM st" using same_sb [of ?st2 st] by simp_all
  have sl: "slot st ip (13 + k) = get_le (4 * k) 4 (blk st ia)" using slot_indirect [OF k] ia by simp
  show ?thesis
  proof (cases "slot st ip (13 + k) = 0")
    case False
    then have "bmap_ind ia k st = KRet (slot st ip (13 + k)) st"
      using iad(4) sl by (simp add: bmap_ind_def getblk_free putblk_got Let_def)
    then show ?thesis using that [of "slot st ip (13 + k)" st] ext_refl [OF ok] False by auto
  next
    case True
    have ok2: "store_ok ?st2" using O(1) u2 S2 iad by (simp add: store_ok_def)
    have "lh_n (flog ?st2) + 2 \<le> LOGBLOCKS" using room by simp
    then obtain a st3 where b: "balloc ?st2 = KRet a st3" "balloc_post ?st2 a st3" using balloc_spec [OF ok2] by blast
    show ?thesis
    proof (cases "a = 0")
      case a0: True
      then have "st3 = ?st2" "full st" using b(2) u2 S2 by (auto simp: balloc_post_def full_def)
      then have "bmap_ind ia k st = KRet 0 st"
        using iad(4) sl True b(1) a0 by (simp add: bmap_ind_def getblk_free putblk_got Let_def)
      then show ?thesis using that [of 0 st] ext_refl [OF ok] \<open>full st\<close> True by auto
    next
      case False
      note F = balloc_facts [OF ok2 b(2) False]
      let ?st4 = "setblk ia (put_bytes (4 * k) (bytes_of 4 a)) st3"
      have l4: "log_wf (flog ?st4)" "lh_n (flog ?st4) < LOGBLOCKS"
        using F(12) balloc_log [OF b(2) ok2] room by (simp_all add: setblk_def)
      obtain lg where lg: "logblk ia ?st4 = KRet () (?st4\<lparr>flog := lg\<rparr>)" "log_wf lg" "lset lg = insert ia (lset (flog ?st4))"
        using logblk_ret [OF l4, of ia] by blast
      let ?st' = "st3\<lparr>blk := (blk st3)(ia := put_bytes (4 * k) (bytes_of 4 a) (blk st3 ia)), flog := lg, bheld := bheld st\<rparr>"
      have "removeAll ia (bheld st) = bheld st" using iad(4) by simp
      then have run: "bmap_ind ia k st = KRet a ?st'"
        using iad(4) sl True b(1) False lg(1) F(11)
        by (simp add: bmap_ind_def getblk_free putblk_def setblk_def Let_def)
      have "lset lg \<subseteq> lset (flog st) \<union> BM st \<union> ({a, ia} - {0})" using lg(3) F(13) S2 ia(2) False by (auto simp: setblk_def)
      then show ?thesis
        using that [of a ?st'] run ind_fresh [OF ok ia k True b(2) False ok2 lg(2)] False by simp
    qed
  qed
qed

text \<open>\<open>bmap\<close> as a whole: it returns the block in the slot, after adding at most two zeroed blocks.\<close>

lemma bmap_spec:
  assumes ok: "ino_ok st ip" and room: "lh_n (flog st) + 5 \<le> LOGBLOCKS" and bn: "bn < 268"
  obtains a st' where "bmap ip bn st = KRet a st'" "ext st ip st'" "slot st' ip (six bn) = a"
    "lset (flog st') \<subseteq> lset (flog st) \<union> BM st \<union> ({a, slot st' ip NDIRECT} - {0})" "a = 0 \<longrightarrow> full st'"
proof (cases "bn < NDIRECT")
  case True
  have r: "lh_n (flog st) + 2 \<le> LOGBLOCKS" "bn \<le> NDIRECT" using room True by auto
  obtain a st' where "bmap_slot ip bn st = KRet a st'" "ext st ip st'" "slot st' ip bn = a"
    "lset (flog st') \<subseteq> lset (flog st) \<union> BM st \<union> ({a} - {0})" "a = 0 \<longrightarrow> st' = st \<and> full st"
    using bmap_slot_spec [OF ok r] by blast
  then show ?thesis using that [of a st'] True by (auto simp: bmap_def six_def)
next
  case False
  let ?k = "bn - NDIRECT"
  have k: "?k < NINDIRECT" "six bn = 13 + ?k" using False bn by (auto simp: six_def)
  have r: "lh_n (flog st) + 2 \<le> LOGBLOCKS" using room by auto
  obtain ia st1 where s1: "bmap_slot ip NDIRECT st = KRet ia st1" "ext st ip st1" "slot st1 ip NDIRECT = ia"
    "lset (flog st1) \<subseteq> lset (flog st) \<union> BM st \<union> ({ia} - {0})" "lh_n (flog st1) \<le> lh_n (flog st) + 2" "ia = 0 \<longrightarrow> st1 = st \<and> full st"
    using bmap_slot_spec [OF ok r order_refl] by blast
  show ?thesis
  proof (cases "ia = 0")
    case True
    then have "slot st1 ip (six bn) = 0" using s1(3) k(2) by (simp add: slot_def Let_def)
    then show ?thesis using that [of 0 st1] s1 True False k(1) by (auto simp: bmap_def)
  next
    case nz: False
    note ok1 = extD(1) [OF s1(2)]
    have r1: "lh_n (flog st1) + 3 \<le> LOGBLOCKS" using room s1(5) by simp
    obtain a st' where s2: "bmap_ind ia ?k st1 = KRet a st'" "ext st1 ip st'" "slot st' ip (13 + ?k) = a"
      "lset (flog st') \<subseteq> lset (flog st1) \<union> BM st1 \<union> ({a, ia} - {0})" "a = 0 \<longrightarrow> st' = st1 \<and> full st1"
      using bmap_ind_spec [OF ok1 s1(3) [symmetric] nz k(1) r1] by blast
    have ia': "slot st' ip NDIRECT = ia" using extD(6) [OF s2(2), of NDIRECT] s1(3) nz by simp
    have "bmap ip bn st = KRet a st'" using s1(1) s2(1) False k(1) nz by (simp add: bmap_def)
    moreover have "ext st ip st'" using ext_trans [OF s1(2) s2(2) ok] .
    moreover have "lset (flog st') \<subseteq> lset (flog st) \<union> BM st \<union> ({a, slot st' ip NDIRECT} - {0})"
      using s2(4) s1(4) extD(5) [OF s1(2)] ia' by auto
    ultimately show ?thesis using that [of a st'] s2(3,5) k(2) by simp
  qed
qed

end
