(* ===== verification/Fsdata.thy ===== *)
theory Fsdata
  imports Fsfile
begin

text \<open>
  What \<open>readi\<close> and \<open>writei\<close> do to the bytes of a file, how many log blocks a write uses, and the
  on-disk copy of an inode.
\<close>

section \<open>The bytes of a file\<close>

definition file_byte :: "fsst \<Rightarrow> nat \<Rightarrow> nat \<Rightarrow> u8" where
  "file_byte st ip i = (let a = slot st ip (six (i div BSIZE)) in if a = 0 then 0 else blk st a ! (i mod BSIZE))"

definition MAXFILEB :: nat where
  "MAXFILEB = (NDIRECT + NINDIRECT) * BSIZE"

lemma six_range: "i < MAXFILEB \<Longrightarrow> i div BSIZE < 268" "i < MAXFILEB \<Longrightarrow> six (i div BSIZE) < NSLOT"
  by (auto simp: MAXFILEB_def six_def)

text \<open>
  \<open>wrote st ip st' off bs\<close>: the bytes \<open>bs\<close> are now in the file at \<open>off\<close>, its other bytes and the
  blocks of other files are as before.
\<close>

definition wrote :: "fsst \<Rightarrow> nat \<Rightarrow> fsst \<Rightarrow> nat \<Rightarrow> u8 list \<Rightarrow> bool" where
  "wrote st ip st' off bs \<longleftrightarrow> ino_ok st' ip \<and> sb st' = sb st \<and> bheld st' = bheld st
     \<and> (\<exists>as. itab st' = (itab st)[ip := (itab st ! ip)\<lparr>addrs := as\<rparr>])
     \<and> (\<forall>j < NSLOT. slot st ip j \<noteq> 0 \<longrightarrow> slot st' ip j = slot st ip j)
     \<and> (\<forall>i < MAXFILEB. file_byte st' ip i = (if off \<le> i \<and> i < off + length bs then bs ! (i - off) else file_byte st ip i))
     \<and> (\<forall>b. unat b < fsize st \<longrightarrow> used st b \<longrightarrow> used st' b)
     \<and> (\<forall>b. unat b < fsize st \<longrightarrow> used st b \<longrightarrow> b \<notin> BM st \<longrightarrow> b \<noteq> 0 \<longrightarrow> (\<forall>i < NSLOT. b \<noteq> slot st' ip i) \<longrightarrow> blk st' b = blk st b)
     \<and> (\<forall>i. off \<le> i \<longrightarrow> i < off + length bs \<longrightarrow> i < MAXFILEB \<and> slot st' ip (six (i div BSIZE)) \<noteq> 0)"

lemma wroteD:
  assumes "wrote st ip st' off bs"
  shows "ino_ok st' ip" "sb st' = sb st" "bheld st' = bheld st" "fsize st' = fsize st" "BM st' = BM st"
    "\<exists>as. itab st' = (itab st)[ip := (itab st ! ip)\<lparr>addrs := as\<rparr>]"
    "j < NSLOT \<Longrightarrow> slot st ip j \<noteq> 0 \<Longrightarrow> slot st' ip j = slot st ip j"
    "i < MAXFILEB \<Longrightarrow> file_byte st' ip i = (if off \<le> i \<and> i < off + length bs then bs ! (i - off) else file_byte st ip i)"
    "unat b < fsize st \<Longrightarrow> used st b \<Longrightarrow> used st' b"
    "unat b < fsize st \<Longrightarrow> used st b \<Longrightarrow> b \<notin> BM st \<Longrightarrow> b \<noteq> 0 \<Longrightarrow> \<forall>i < NSLOT. b \<noteq> slot st' ip i \<Longrightarrow> blk st' b = blk st b"
    "off \<le> i \<Longrightarrow> i < off + length bs \<Longrightarrow> i < MAXFILEB \<and> slot st' ip (six (i div BSIZE)) \<noteq> 0"
  using assms same_sb [of st' st] unfolding wrote_def by blast+

lemma ext_file_byte:
  assumes e: "ext st ip st'" and ok: "ino_ok st ip" and i: "i < MAXFILEB"
  shows "file_byte st' ip i = file_byte st ip i"
proof -
  let ?j = "six (i div BSIZE)"
  have j: "?j < NSLOT" "?j \<noteq> NDIRECT" using six_range(2) [OF i] six_facts(2) by auto
  show ?thesis
  proof (cases "slot st ip ?j = 0")
    case True
    then show ?thesis using extD(7) [OF e j(1) True _ j(2)] by (auto simp: file_byte_def Let_def)
  next
    case False
    then have s: "slot st' ip ?j = slot st ip ?j" using extD(6) [OF e j(1)] by simp
    then have "slot st ip ?j \<noteq> slot st' ip NDIRECT" using slot_ne_indirect [OF extD(1) [OF e] j] False by simp
    then have "blk st' (slot st ip ?j) = blk st (slot st ip ?j)"
      using extD(9) [OF e] ino_okD(4) [OF ok j(1) False] False by (simp add: data_block_def)
    then show ?thesis using s by (simp add: file_byte_def Let_def)
  qed
qed

lemma wrote_ext: "ext st ip st' \<Longrightarrow> ino_ok st ip \<Longrightarrow> wrote st ip st' off []"
  using ext_file_byte [of st ip st'] extD [of st ip st'] unfolding wrote_def by auto

lemma wrote_trans:
  assumes w1: "wrote s1 ip s2 off d1" and w2: "wrote s2 ip s3 (off + length d1) d2" and ok: "ino_ok s1 ip"
  shows "wrote s1 ip s3 off (d1 @ d2)"
proof -
  note D1 = wroteD [OF w1]
  note D2 = wroteD [OF w2]
  have usd: "used s3 b" if b: "unat b < fsize s1" "used s1 b" for b
    using D1(9) [OF b] D2(9) [of b] b(1) D1(4) by simp
  have keep: "blk s3 b = blk s1 b"
    if b: "unat b < fsize s1" "used s1 b" "b \<notin> BM s1" "b \<noteq> 0" "\<forall>i < NSLOT. b \<noteq> slot s3 ip i" for b
  proof -
    have n: "\<forall>i < NSLOT. b \<noteq> slot s2 ip i" using D2(7) b(4,5) by metis
    have "blk s3 b = blk s2 b" using D2(10) [of b] D1(4,5) D1(9) [OF b(1,2)] b by simp
    then show ?thesis using D1(10) [OF b(1-4) n] by simp
  qed
  have bytes: "file_byte s3 ip i = (if off \<le> i \<and> i < off + length (d1 @ d2) then (d1 @ d2) ! (i - off) else file_byte s1 ip i)"
    if "i < MAXFILEB" for i
    using D1(8) [OF that] D2(8) [OF that] by (auto simp: nth_append)
  obtain as1 as2 where "itab s2 = (itab s1)[ip := (itab s1 ! ip)\<lparr>addrs := as1\<rparr>]"
      "itab s3 = (itab s2)[ip := (itab s2 ! ip)\<lparr>addrs := as2\<rparr>]"
    using D1(6) D2(6) by blast
  then have "\<exists>as. itab s3 = (itab s1)[ip := (itab s1 ! ip)\<lparr>addrs := as\<rparr>]"
    using ino_okD(2) [OF ok] by (intro exI [of _ as2]) simp
  moreover have "i < MAXFILEB \<and> slot s3 ip (six (i div BSIZE)) \<noteq> 0" if "off \<le> i" "i < off + length (d1 @ d2)" for i
    using D1(11) [of i] D2(11) [of i] D2(7) [of "six (i div BSIZE)"] six_range(2) [of i] that by (cases "i < off + length d1") auto
  ultimately show ?thesis unfolding wrote_def using D1(2-4,7) D2(1-4,7) keep bytes usd by (auto simp: D1(4))
qed

section \<open>Writing inside one block\<close>

lemma patch_block:
  assumes ok: "ino_ok st ip" and a: "data_block st a" "a \<noteq> slot st ip NDIRECT" and len: "length d = BSIZE" and lg: "log_wf lg"
  defines "st' \<equiv> st\<lparr>blk := (blk st)(a := d), flog := lg\<rparr>"
  shows "ino_ok st' ip" "slot st' ip j = slot st ip j" "unat b < fsize st \<Longrightarrow> used st' b = used st b"
proof -
  note O = ino_okD [OF ok]
  have ad: "unat a < fsize st" "a \<notin> BM st" using a(1) by (simp_all add: data_block_def)
  have S: "fsize st' = fsize st" "BM st' = BM st" using same_sb [of st' st] by (simp_all add: st'_def)
  show sl: "slot st' ip j = slot st ip j" for j using a(2) by (auto simp: slot_def st'_def Let_def)
  show us: "used st' b = used st b" if "unat b < fsize st" for b
  proof -
    have "BBLOCK b (sb st) \<in> BM st" using that by (auto simp: BM_def)
    then have "BBLOCK b (sb st) \<noteq> a" using ad(2) by auto
    then show ?thesis by (simp add: used_def st'_def)
  qed
  have lens: "length (blk st' b) = BSIZE" for b using store_okD(1) [OF O(1)] len by (simp add: st'_def)
  have "used st' 0" using us [of 0] store_okD(4) [OF O(1)] ad(1) by simp
  then have ok': "store_ok st'"
    using lens lg S us store_okD(3,5,6) [OF O(1)] by (auto simp: store_ok_def) (auto simp: st'_def)
  have db: "data_block st' b = data_block st b" for b using us S by (auto simp: data_block_def) (auto simp: st'_def)
  have "iblk st' ip = iblk st ip" by (simp add: iblk_def st'_def)
  then show "ino_ok st' ip" using ok ok' by (simp add: ino_ok_def sl db) (simp add: st'_def)
qed

lemma write_block:
  assumes ok: "ino_ok st ip" and bn: "bn < 268" and a: "a = slot st ip (six bn)" "a \<noteq> 0"
    and len: "k + length bs \<le> BSIZE" and lg: "log_wf lg"
  defines "st' \<equiv> st\<lparr>blk := (blk st)(a := put_bytes k bs (blk st a)), flog := lg\<rparr>"
  shows "wrote st ip st' (bn * BSIZE + k) bs \<and> (\<forall>j < NSLOT. slot st' ip j = slot st ip j)"
proof -
  note O = ino_okD [OF ok]
  have j: "six bn < NSLOT" "six bn \<noteq> NDIRECT" using six_facts bn by auto
  have ad: "data_block st a" "a \<noteq> slot st ip NDIRECT" using O(4) [OF j(1)] a slot_ne_indirect [OF ok j] by simp_all
  have bl: "length (blk st a) = BSIZE" using store_okD(1) [OF O(1)] .
  have it: "itab st' = itab st" "sb st' = sb st" "bheld st' = bheld st" by (simp_all add: st'_def)
  have b': "blk st' b = (if b = a then put_bytes k bs (blk st a) else blk st b)" for b by (simp add: st'_def)
  have "length (put_bytes k bs (blk st a)) = BSIZE" using len bl by (simp add: length_put_bytes)
  note P = patch_block [OF ok ad this lg, folded st'_def]
  have sl: "slot st' ip j = slot st ip j" and us: "unat b < fsize st \<Longrightarrow> used st' b = used st b" for j b using P(2,3) by blast+
  have "ino_ok st' ip" using P(1) .
  moreover have "file_byte st' ip i = (if bn * BSIZE + k \<le> i \<and> i < bn * BSIZE + k + length bs
      then bs ! (i - (bn * BSIZE + k)) else file_byte st ip i)" if i: "i < MAXFILEB" for i
  proof (cases "i div BSIZE = bn")
    case True
    have m: "i = bn * BSIZE + i mod BSIZE" "i mod BSIZE < BSIZE" using True div_mult_mod_eq [of i BSIZE] by auto
    have "file_byte st' ip i = put_bytes k bs (blk st a) ! (i mod BSIZE)" "file_byte st ip i = blk st a ! (i mod BSIZE)"
      using True a by (simp_all add: file_byte_def Let_def sl b')
    moreover have "i - (bn * BSIZE + k) = i mod BSIZE - k" "bn * BSIZE + k \<le> i \<longleftrightarrow> k \<le> i mod BSIZE"
      "i < bn * BSIZE + k + length bs \<longleftrightarrow> i mod BSIZE < k + length bs" using m by linarith+
    ultimately show ?thesis using nth_put_bytes [of k bs "blk st a" "i mod BSIZE"] len bl m(2) by auto
  next
    case False
    then have "slot st ip (six (i div BSIZE)) \<noteq> a \<or> a = 0"
      using O(6) [OF six_range(2) [OF i] j(1)] six_facts(3) a by auto
    then have "file_byte st' ip i = file_byte st ip i" using a(2) by (simp add: file_byte_def Let_def sl b')
    moreover have "\<not> (bn * BSIZE + k \<le> i \<and> i < bn * BSIZE + k + length bs)"
    proof
      assume "bn * BSIZE + k \<le> i \<and> i < bn * BSIZE + k + length bs"
      then have "bn * 1024 \<le> i" "i < bn * 1024 + 1024" using len by auto
      then show False using False by auto
    qed
    ultimately show ?thesis by auto
  qed
  moreover have "blk st' b = blk st b" if "\<forall>i < NSLOT. b \<noteq> slot st' ip i" for b
    using that j(1) a(1) sl b' by auto
  moreover have "i < MAXFILEB \<and> slot st' ip (six (i div BSIZE)) \<noteq> 0" if i: "bn * BSIZE + k \<le> i" "i < bn * BSIZE + k + length bs" for i
  proof -
    have "bn * 1024 \<le> i" "i < Suc bn * 1024" using i len by auto
    then have "i div 1024 = bn" using div_nat_eqI [of bn 1024 i] by (simp add: mult.commute)
    moreover have "i < MAXFILEB" using \<open>i < Suc bn * 1024\<close> bn by (simp add: MAXFILEB_def)
    ultimately show ?thesis using a sl by simp
  qed
  ultimately show ?thesis unfolding wrote_def using sl us it by (auto intro: exI [of _ "addrs (itab st ! ip)"])
qed

section \<open>The write loop and its log blocks\<close>

text \<open>
  The blocks a write to the file may have in the log, counting the indirect block before it exists.
\<close>

definition wbudget :: "fsst \<Rightarrow> nat \<Rightarrow> nat" where
  "wbudget st ip = card (lset (flog st) \<union> BM st \<union> ({slot st ip NDIRECT} - {0})) + (if slot st ip NDIRECT = 0 then 1 else 0)"

lemma finite_BM [simp]: "finite (BM st)"
  by simp

lemma wbudget_log: "log_wf (flog st) \<Longrightarrow> lh_n (flog st) \<le> wbudget st ip"
  unfolding wbudget_def lset_card [symmetric] by (rule trans_le_add1, rule card_mono) auto

lemma wbudget_step:
  assumes sub: "lset (flog st') \<subseteq> lset (flog st) \<union> BM st \<union> ({a, slot st' ip NDIRECT} - {0})" and bm: "BM st' = BM st"
    and ind: "slot st ip NDIRECT \<noteq> 0 \<Longrightarrow> slot st' ip NDIRECT = slot st ip NDIRECT"
  shows "wbudget st' ip \<le> wbudget st ip + 1"
proof -
  let ?L = "lset (flog st) \<union> BM st \<union> ({slot st ip NDIRECT} - {0})"
  let ?L' = "lset (flog st') \<union> BM st' \<union> ({slot st' ip NDIRECT} - {0})"
  have one: "card (insert x A) \<le> card A + 1" if "finite A" for x :: u32 and A
    using that by (simp add: card_insert_if)
  have fin: "finite ?L" by simp
  show ?thesis
  proof (cases "slot st ip NDIRECT = 0 \<and> slot st' ip NDIRECT \<noteq> 0")
    case True
    then have "?L' \<subseteq> insert a (insert (slot st' ip NDIRECT) ?L)" using sub bm by auto
    then have "card ?L' \<le> card (insert a (insert (slot st' ip NDIRECT) ?L))" by (rule card_mono [rotated]) simp
    also have "\<dots> \<le> card ?L + 2" using one [of "insert (slot st' ip NDIRECT) ?L" a] one [OF fin, of "slot st' ip NDIRECT"] by simp
    finally show ?thesis using True by (simp add: wbudget_def)
  next
    case False
    then have e: "slot st' ip NDIRECT = slot st ip NDIRECT" using ind by metis
    have "?L' \<subseteq> insert a ?L" using sub bm e by auto
    then have "card ?L' \<le> card (insert a ?L)" by (rule card_mono [rotated]) simp
    also have "\<dots> \<le> card ?L + 1" using one [OF fin] .
    finally show ?thesis using e by (simp add: wbudget_def)
  qed
qed

text \<open>The number of blocks in the range of \<open>r\<close> bytes at \<open>off\<close>.\<close>

definition nblk :: "nat \<Rightarrow> nat \<Rightarrow> nat" where
  "nblk off r = (if r = 0 then 0 else (off + r - 1) div BSIZE - off div BSIZE + 1)"

lemma nblk_step:
  fixes off r :: nat
  assumes "0 < r"
  defines "m \<equiv> min r (BSIZE - off mod BSIZE)"
  shows "nblk off r = Suc (nblk (off + m) (r - m))"
proof (cases "r \<le> BSIZE - off mod BSIZE")
  case True
  have "off = off div BSIZE * BSIZE + off mod BSIZE" "off mod BSIZE < BSIZE" by simp_all
  then have "off div BSIZE * BSIZE \<le> off + r - 1" "off + r - 1 < Suc (off div BSIZE) * BSIZE"
    using True assms(1) unfolding mult_Suc by linarith+
  then have "(off + r - 1) div BSIZE = off div BSIZE" using div_nat_eqI [of "off div BSIZE" BSIZE] by (simp add: mult.commute)
  then show ?thesis using True assms by (simp add: nblk_def)
next
  case False
  have q: "off + (BSIZE - off mod BSIZE) = Suc (off div BSIZE) * BSIZE"
    using div_mult_mod_eq [of off BSIZE] mod_less_divisor [of BSIZE off] unfolding mult_Suc by linarith
  then have "(off + (BSIZE - off mod BSIZE)) div BSIZE = Suc (off div BSIZE)" by simp
  moreover have "Suc (off div BSIZE) * BSIZE \<le> off + r - 1" using False q by linarith
  then have "Suc (off div BSIZE) \<le> (off + r - 1) div BSIZE" using div_le_mono [of "Suc (off div BSIZE) * BSIZE" _ BSIZE] by simp
  moreover have "off + (BSIZE - off mod BSIZE) + (r - (BSIZE - off mod BSIZE)) = off + r" "m = BSIZE - off mod BSIZE"
      "r - (BSIZE - off mod BSIZE) \<noteq> 0" "r \<noteq> 0"
    using False by (simp_all add: m_def)
  moreover have "b - a + 1 = Suc (b - Suc a + 1)" if "Suc a \<le> b" for a b :: nat using that by simp
  ultimately show ?thesis unfolding nblk_def by (simp only: if_False)
qed

text \<open>\<open>inp\<close> gives the bytes of \<open>data\<close> that start at \<open>src\<close>.\<close>

definition gives :: "'m copyin \<Rightarrow> u64 \<Rightarrow> 'm \<Rightarrow> u8 list \<Rightarrow> bool" where
  "gives inp src mm data \<longleftrightarrow> (\<forall>k bs. k + length bs \<le> length data \<longrightarrow>
     inp (src + of_nat k) bs mm = (take (length bs) (drop k data), True, mm))"

lemma writei_iter:
  fixes off tot :: nat and data :: "u8 list"
  assumes ok: "ino_ok st ip" and g: "gives inp src mm data" and t: "tot < length data" and off: "off < MAXFILEB"
    and room: "wbudget st ip + 5 \<le> LOGBLOCKS"
  defines "m \<equiv> min (length data - tot) (BSIZE - off mod BSIZE)"
  obtains (full) st1 where "writei_loop inp ip (src + of_nat tot) off tot (length data) mm st = KRet (tot, off, mm) st1"
      "wrote st ip st1 off []" "full st1" "wbudget st1 ip \<le> wbudget st ip + 1"
    | (next_block) st2 where "writei_loop inp ip (src + of_nat tot) off tot (length data) mm st =
        writei_loop inp ip (src + of_nat (tot + m)) (off + m) (tot + m) (length data) mm st2"
      "wrote st ip st2 off (take m (drop tot data))" "wbudget st2 ip \<le> wbudget st ip + 1"
proof -
  let ?bn = "off div BSIZE" and ?k = "off mod BSIZE"
  have bn: "?bn < 268" using six_range(1) [OF off] .
  have lr: "lh_n (flog st) + 5 \<le> LOGBLOCKS" using wbudget_log [OF store_okD(2) [OF ino_okD(1) [OF ok]], of ip] room by simp
  obtain a st1 where b: "bmap ip ?bn st = KRet a st1" "ext st ip st1" "slot st1 ip (six ?bn) = a"
      "lset (flog st1) \<subseteq> lset (flog st) \<union> BM st \<union> ({a, slot st1 ip NDIRECT} - {0})" "a = 0 \<longrightarrow> full st1"
    using bmap_spec [OF ok lr bn] by blast
  note ok1 = extD(1) [OF b(2)]
  have bud1: "wbudget st1 ip \<le> wbudget st ip + 1"
    using wbudget_step [OF b(4) extD(5) [OF b(2)]] extD(6) [OF b(2), of NDIRECT] by simp
  show ?thesis
  proof (cases "a = 0")
    case True
    then have "writei_loop inp ip (src + of_nat tot) off tot (length data) mm st = KRet (tot, off, mm) st1"
      using b(1) t by (subst writei_loop.simps) simp
    then show ?thesis using full wrote_ext [OF b(2) ok] b(5) True bud1 by blast
  next
    case False
    have nh: "a \<notin> set (bheld st1)" and len: "length (blk st1 a) = BSIZE"
      using ino_okD(4) [OF ok1 six_facts(1) [OF bn]] b(3) False store_okD(1) [OF ino_okD(1) [OF ok1]]
      by (simp_all add: data_block_def)
    let ?bs = "take m (drop tot data)"
    have m: "?k + m \<le> BSIZE" "tot + m \<le> length data" "length ?bs = m" using t by (auto simp: m_def)
    have inp: "inp (src + of_nat tot) (take m (drop ?k (blk st1 a))) mm = (?bs, True, mm)"
      using g m len by (simp add: gives_def)
    have lt: "lh_n (flog st1) < LOGBLOCKS"
      using wbudget_log [OF store_okD(2) [OF ino_okD(1) [OF ok1]], of ip] bud1 room by simp
    obtain lg where lg: "upd_blk a (put_bytes ?k ?bs) st1 =
          KRet () (st1\<lparr>blk := (blk st1)(a := put_bytes ?k ?bs (blk st1 a)), flog := lg\<rparr>)"
        "log_wf lg" "lset lg = insert a (lset (flog st1))"
      using upd_blk_ret [OF store_okD(2) [OF ino_okD(1) [OF ok1]] lt nh, of "put_bytes ?k ?bs"] by blast
    let ?st2 = "st1\<lparr>blk := (blk st1)(a := put_bytes ?k ?bs (blk st1 a)), flog := lg\<rparr>"
    have w: "wrote st1 ip ?st2 off ?bs" "slot ?st2 ip NDIRECT = slot st1 ip NDIRECT"
      using write_block [OF ok1 bn b(3) [symmetric] False _ lg(2), of ?k ?bs] m by simp_all
    have "writei_loop inp ip (src + of_nat tot) off tot (length data) mm st =
        kbind (upd_blk a (put_bytes ?k ?bs) st1) (\<lambda>_ st5.
          writei_loop inp ip (src + of_nat tot + of_nat m) (off + m) (tot + m) (length data) mm st5)"
      using b(1) t False nh inp
      by (subst writei_loop.simps) (simp add: getblk_free upd_blk_def kbind_assoc Let_def m_def [symmetric])
    then have run: "writei_loop inp ip (src + of_nat tot) off tot (length data) mm st =
        writei_loop inp ip (src + of_nat (tot + m)) (off + m) (tot + m) (length data) mm ?st2"
      using lg(1) by (simp add: add.assoc)
    have "lset (flog ?st2) \<subseteq> lset (flog st) \<union> BM st \<union> ({a, slot ?st2 ip NDIRECT} - {0})"
      using lg(3) b(4) w(2) False by auto
    then have "wbudget ?st2 ip \<le> wbudget st ip + 1"
      by (rule wbudget_step) (use extD(5,6) [OF b(2)] wroteD(5) [OF w(1)] w(2) in auto)
    moreover have "wrote st ip ?st2 off ?bs" using wrote_trans [OF wrote_ext [OF b(2) ok, of off] _ ok, of ?st2 ?bs] w(1) by simp
    ultimately show ?thesis using next_block run by blast
  qed
qed

lemma writei_loop_spec:
  assumes "ino_ok st ip" "gives inp src mm data" "tot \<le> length data" "off + (length data - tot) \<le> MAXFILEB"
    "wbudget st ip + nblk off (length data - tot) + 4 \<le> LOGBLOCKS"
  shows "\<exists>t st'. writei_loop inp ip (src + of_nat tot) off tot (length data) mm st = KRet (t, off + (t - tot), mm) st'
    \<and> tot \<le> t \<and> t \<le> length data \<and> wrote st ip st' off (take (t - tot) (drop tot data)) \<and> (t < length data \<longrightarrow> full st')
    \<and> wbudget st' ip \<le> wbudget st ip + nblk off (length data - tot)"
  using assms
proof (induction "length data - tot" arbitrary: tot off st rule: less_induct)
  case less
  show ?case
  proof (cases "tot < length data")
    case False
    then show ?thesis
      using less.prems wrote_ext [OF ext_refl] by (auto simp: writei_loop.simps)
  next
    case True
    define m where "m = min (length data - tot) (BSIZE - off mod BSIZE)"
    have "off mod BSIZE < BSIZE" by simp
    then have m: "0 < m" "tot + m \<le> length data" using True by (auto simp: m_def)
    have nb: "nblk off (length data - tot) = Suc (nblk (off + m) (length data - (tot + m)))"
      using nblk_step [of "length data - tot" off] True m_def by simp
    have pre: "off < MAXFILEB" "wbudget st ip + 5 \<le> LOGBLOCKS" using less.prems True nb by auto
    show ?thesis
    proof (cases rule: writei_iter [OF less.prems(1,2) True pre, folded m_def])
      case (1 st1)
      then show ?thesis using True nb by (intro exI [of _ tot] exI [of _ st1]) simp
    next
      case (2 st2)
      have "\<exists>t st'. writei_loop inp ip (src + of_nat (tot + m)) (off + m) (tot + m) (length data) mm st2
            = KRet (t, off + m + (t - (tot + m)), mm) st'
          \<and> tot + m \<le> t \<and> t \<le> length data \<and> wrote st2 ip st' (off + m) (take (t - (tot + m)) (drop (tot + m) data))
          \<and> (t < length data \<longrightarrow> full st') \<and> wbudget st' ip \<le> wbudget st2 ip + nblk (off + m) (length data - (tot + m))"
        using less.prems wroteD(1) [OF 2(2)] 2(3) nb m by (intro less.hyps) auto
      then obtain t st' where t: "writei_loop inp ip (src + of_nat (tot + m)) (off + m) (tot + m) (length data) mm st2
            = KRet (t, off + m + (t - (tot + m)), mm) st'" "tot + m \<le> t" "t \<le> length data"
          "wrote st2 ip st' (off + m) (take (t - (tot + m)) (drop (tot + m) data))" "t < length data \<longrightarrow> full st'"
          "wbudget st' ip \<le> wbudget st2 ip + nblk (off + m) (length data - (tot + m))" by blast
      have "take m (drop tot data) @ take (t - (tot + m)) (drop (tot + m) data) = take (t - tot) (drop tot data)"
        using take_add [of m "t - (tot + m)" "drop tot data"] t(2) by (simp add: add.commute)
      moreover have "length (take m (drop tot data)) = m" using m(2) by simp
      ultimately have "wrote st ip st' off (take (t - tot) (drop tot data))"
        using wrote_trans [OF 2(2) _ less.prems(1)] t(4) by metis
      then show ?thesis using 2(1,3) t nb m(1) by (intro exI [of _ t] exI [of _ st']) auto
    qed
  qed
qed

section \<open>The on-disk inode\<close>

lemma get_put_field:
  assumes "off + length bs \<le> length d" "r + n \<le> length bs"
  shows "get_le (off + r) n (put_bytes off bs d) = word_of_bytes (take n (drop r bs))"
proof -
  have "take n (drop (off + r) (put_bytes off bs d)) = take n (drop r bs)"
    using assms by (intro nth_equalityI) (auto simp: nth_put_bytes length_put_bytes)
  then show ?thesis by (simp add: get_le_def)
qed

lemma length_concat_bytes [simp]: "length (concat (map (bytes_of n) ws)) = n * length ws"
  by (induction ws) auto

lemma length_dinode_bytes: "length (addrs x) = NDIRECT + 1 \<Longrightarrow> length (dinode_bytes x) = 64"
  by (simp add: dinode_bytes_def)

lemma take_drop_concat_bytes:
  "i < length ws \<Longrightarrow> take 4 (drop (4 * i) (concat (map (bytes_of 4) ws))) = bytes_of 4 (ws ! i :: u32)"
proof (induction ws arbitrary: i)
  case (Cons w ws)
  then show ?case by (cases i) auto
qed simp

lemma get_put_dinode_field:
  assumes "length (addrs x) = NDIRECT + 1" "64 * k + 64 \<le> length d" "r + n \<le> 64"
  shows "get_le (64 * k + r) n (put_dinode k x d) = word_of_bytes (take n (drop r (dinode_bytes x)))"
  unfolding put_dinode_def by (rule get_put_field) (use assms in \<open>simp_all add: length_dinode_bytes\<close>)

lemma get_put_dinode:
  assumes "length (addrs x) = NDIRECT + 1" "64 * k + 64 \<le> length d"
  shows "get_dinode k (put_dinode k x d) = dinode.truncate x"
proof -
  note f = get_put_dinode_field [OF assms]
  have "get_le (64 * k + 12 + 4 * i) 4 (put_dinode k x d) = addrs x ! i" if "i < 13" for i
    using that assms(1) take_drop_concat_bytes [of i "addrs x"] by (simp add: f add.assoc) (simp add: dinode_bytes_def)
  then have as: "map (\<lambda>i. get_le (64 * k + 12 + 4 * i) 4 (put_dinode k x d)) [0..<NDIRECT + 1] = addrs x"
    using assms(1) by (intro nth_equalityI) auto
  have f0: "get_le (64 * k) 2 (put_dinode k x d) = itype x"
    by (rule trans [OF f [of 0 2, simplified]]) (simp add: dinode_bytes_def)
  show ?thesis
    unfolding get_dinode_def Let_def as f0 by (simp add: f dinode.truncate_def del: add_2_eq_Suc') (simp add: dinode_bytes_def)
qed

lemma get_le_same:
  assumes "take n (drop off d) = take n (drop off d')" "off \<le> o2" "o2 + m \<le> off + n"
  shows "get_le o2 m d = get_le o2 m d'"
proof -
  have "take m (drop o2 e) = take m (drop (o2 - off) (take n (drop off e)))" for e :: "u8 list"
    using assms(2,3) by (simp add: drop_take min_def)
  then show ?thesis using assms(1) by (simp add: get_le_def)
qed

lemma get_put_dinode_other:
  assumes "length (addrs x) = NDIRECT + 1" "64 * k + 64 \<le> length d" "64 * j + 64 \<le> length d" "j \<noteq> k"
  shows "get_dinode j (put_dinode k x d) = get_dinode j d"
proof -
  have "64 * j + 64 \<le> 64 * k \<or> 64 * k + length (dinode_bytes x) \<le> 64 * j"
    using assms(4) unfolding length_dinode_bytes [OF assms(1)] by linarith
  then have "take 64 (drop (64 * j) (put_dinode k x d)) = take 64 (drop (64 * j) d)"
    unfolding put_dinode_def using assms length_dinode_bytes [OF assms(1)] by (intro take_drop_put(2)) auto
  note g = get_le_same [OF this]
  show ?thesis by (simp add: get_dinode_def Let_def g)
qed

text \<open>The disk has the same inode as the table.\<close>

definition synced :: "fsst \<Rightarrow> nat \<Rightarrow> bool" where
  "synced st ip \<longleftrightarrow> get_dinode (unat (inum (itab st ! ip) mod 16)) (blk st (iblk st ip)) = dinode.truncate (itab st ! ip)"

text \<open>Changing fields other than the block addresses and the inode number.\<close>

lemma upd_meta_slot: "addrs (f (itab st ! ip)) = addrs (itab st ! ip) \<Longrightarrow> ip < length (itab st) \<Longrightarrow> slot (upd_inode ip f st) ip j = slot st ip j"
  by (simp add: slot_def Let_def)

lemma upd_meta_iblk: "inum (f (itab st ! ip)) = inum (itab st ! ip) \<Longrightarrow> ip < length (itab st) \<Longrightarrow> iblk (upd_inode ip f st) ip = iblk st ip"
  by (simp add: iblk_def)

lemma upd_meta_ok:
  assumes ok: "ino_ok st ip" and f: "addrs (f (itab st ! ip)) = addrs (itab st ! ip)" "inum (f (itab st ! ip)) = inum (itab st ! ip)"
  shows "ino_ok (upd_inode ip f st) ip"
proof -
  let ?st' = "upd_inode ip f st"
  note l = ino_okD(2) [OF ok]
  have "used ?st' = used st" by (rule used_cong) simp_all
  then have "data_block ?st' = data_block st" using same_sb [of ?st' st] by (auto simp: data_block_def fun_eq_iff)
  moreover have "store_ok ?st'" by (rule store_ok_cong [OF ino_okD(1) [OF ok]]) simp_all
  ultimately show "ino_ok ?st' ip"
    using ok upd_meta_slot [of f, OF f(1) l] upd_meta_iblk [of f, OF f(2) l] f(1) l by (simp add: ino_ok_def)
qed

lemma unat_mod16: "unat (w mod 16 :: u32) = unat w mod 16"
  by (simp add: unat_mod)

lemma iupdate_spec:
  assumes ok: "ino_ok st ip" and room: "lh_n (flog st) < LOGBLOCKS"
  obtains st' where "iupdate ip st = KRet () st'" "ino_ok st' ip" "synced st' ip" "itab st' = itab st" "sb st' = sb st"
    "\<And>j. slot st' ip j = slot st ip j" "\<And>b. b \<noteq> iblk st ip \<Longrightarrow> blk st' b = blk st b"
    "\<And>b. unat b < fsize st \<Longrightarrow> used st' b = used st b" "\<And>i. i < MAXFILEB \<Longrightarrow> file_byte st' ip i = file_byte st ip i"
proof -
  note O = ino_okD [OF ok]
  let ?k = "unat (inum (itab st ! ip) mod 16)"
  let ?f = "put_dinode ?k (itab st ! ip)"
  have nh: "iblk st ip \<notin> set (bheld st)" using O(7) by (simp add: data_block_def)
  obtain lg where lg: "upd_blk (iblk st ip) ?f st = KRet () (st\<lparr>blk := (blk st)(iblk st ip := ?f (blk st (iblk st ip))), flog := lg\<rparr>)"
      "log_wf lg" "lset lg = insert (iblk st ip) (lset (flog st))"
    using upd_blk_ret [OF store_okD(2) [OF O(1)] room nh, of ?f] by blast
  define st' where "st' = st\<lparr>blk := (blk st)(iblk st ip := ?f (blk st (iblk st ip))), flog := lg\<rparr>"
  have run: "iupdate ip st = KRet () st'"
    using nh lg(1) by (simp add: iupdate_def upd_blk_def iblk_def Let_def getblk_free st'_def)
  have bl: "64 * ?k + 64 \<le> length (blk st (iblk st ip))" "length (blk st (iblk st ip)) = BSIZE"
    "length (addrs (itab st ! ip)) = NDIRECT + 1"
    using store_okD(1) [OF O(1)] O(3) by (simp_all add: unat_mod16)
  have ne: "slot st ip j \<noteq> iblk st ip" if "j < NSLOT" for j using O(5) [OF that] O(8) by metis
  have "length (?f (blk st (iblk st ip))) = BSIZE" using bl by (simp add: put_dinode_def length_put_bytes length_dinode_bytes)
  note P = patch_block [OF ok O(7) _ this lg(2), folded st'_def, OF ne [symmetric], simplified]
  have b': "blk st' b = (if b = iblk st ip then ?f (blk st (iblk st ip)) else blk st b)" "itab st' = itab st" "sb st' = sb st" for b
    by (simp_all add: st'_def)
  have "synced st' ip" using get_put_dinode [OF bl(3,1)] b' by (simp add: synced_def iblk_def)
  moreover have "file_byte st' ip i = file_byte st ip i" if "i < MAXFILEB" for i
    using ne [OF six_range(2) [OF that]] b'(1) P(2) by (simp add: file_byte_def Let_def)
  ultimately show ?thesis using that [of st'] run P b' by simp
qed

lemma writei_spec:
  assumes ok: "ino_ok st ip" and g: "gives inp src mm data" and n: "length data = unat n"
    and rng: "off \<le> isize (itab st ! ip)" "unat off + unat n \<le> MAXFILEB"
    and room: "wbudget st ip + nblk (unat off) (unat n) + 4 \<le> LOGBLOCKS"
  obtains t st' where "writei inp ip src off n mm st = KRet (int t, mm) st'" "t \<le> unat n" "t < unat n \<longrightarrow> full st'"
    "ino_ok st' ip" "synced st' ip" "unat (isize (itab st' ! ip)) = max (unat (isize (itab st ! ip))) (unat off + t)"
    "\<forall>i < MAXFILEB. file_byte st' ip i = (if unat off \<le> i \<and> i < unat off + t then data ! (i - unat off) else file_byte st ip i)"
    "\<forall>b. unat b < fsize st \<longrightarrow> used st b \<longrightarrow> b \<notin> BM st \<longrightarrow> b \<noteq> 0 \<longrightarrow> b \<noteq> iblk st ip \<longrightarrow> (\<forall>i < NSLOT. b \<noteq> slot st' ip i) \<longrightarrow> blk st' b = blk st b"
    "\<forall>i. unat off \<le> i \<longrightarrow> i < unat off + t \<longrightarrow> i < MAXFILEB \<and> slot st' ip (six (i div BSIZE)) \<noteq> 0"
    "\<exists>v as. itab st' = (itab st)[ip := (itab st ! ip)\<lparr>addrs := as, isize := v\<rparr>]"
    "\<forall>j < NSLOT. slot st ip j \<noteq> 0 \<longrightarrow> slot st' ip j = slot st ip j"
proof -
  have nat: "unat (off + n) = unat off + unat n" using rng(2) by (simp add: unat_word_ariths MAXFILEB_def)
  then have nw: "\<not> off + n < off" by (simp add: word_less_nat_alt)
  have "\<exists>t st1. writei_loop inp ip src (unat off) 0 (length data) mm st = KRet (t, unat off + t, mm) st1 \<and> t \<le> length data
      \<and> wrote st ip st1 (unat off) (take t data) \<and> (t < length data \<longrightarrow> full st1)
      \<and> wbudget st1 ip \<le> wbudget st ip + nblk (unat off) (length data)"
    using writei_loop_spec [OF ok g, of 0 "unat off"] rng(2) room n by simp
  then obtain t st1 where L: "writei_loop inp ip src (unat off) 0 (unat n) mm st = KRet (t, unat off + t, mm) st1" "t \<le> unat n"
      "wrote st ip st1 (unat off) (take t data)" "t < unat n \<longrightarrow> full st1" "wbudget st1 ip \<le> wbudget st ip + nblk (unat off) (unat n)"
    using n by auto
  note W = wroteD [OF L(3)]
  note ipl = ino_okD(2) [OF W(1)]
  have sz: "isize (itab st1 ! ip) = isize (itab st ! ip)" "inum (itab st1 ! ip) = inum (itab st ! ip)"
    using W(6) ino_okD(2) [OF ok] by auto
  define v where "v = (if unat off + t > unat (isize (itab st1 ! ip)) then of_nat (unat off + t) else isize (itab st1 ! ip))"
  define st2 where "st2 = upd_inode ip (\<lambda>x. x\<lparr>isize := v\<rparr>) st1"
  have ok2: "ino_ok st2 ip" unfolding st2_def by (rule upd_meta_ok [OF W(1)]) simp_all
  have ib: "iblk st2 ip = iblk st ip" using upd_meta_iblk [OF _ ipl, of "\<lambda>x. x\<lparr>isize := v\<rparr>"] sz(2) W(2) by (simp add: iblk_def st2_def)
  have sl2: "slot st2 ip j = slot st1 ip j" for j unfolding st2_def by (rule upd_meta_slot [OF _ ipl]) simp
  have b2: "blk st2 = blk st1" "used st2 = used st1" "fsize st2 = fsize st1" "isize (itab st2 ! ip) = v"
    using ipl used_cong [of st2 st1] same_sb [of st2 st1] by (simp_all add: st2_def)
  have st2_if: "(if unat off + t > unat (isize (itab st1 ! ip)) then upd_inode ip (\<lambda>x. x\<lparr>isize := of_nat (unat off + t)\<rparr>) st1 else st1) = st2"
    by (auto simp: st2_def v_def upd_inode_def)
  have lt: "lh_n (flog st2) < LOGBLOCKS"
    using wbudget_log [OF store_okD(2) [OF ino_okD(1) [OF W(1)]], of ip] L(5) room by (simp add: st2_def)
  obtain st3 where U: "iupdate ip st2 = KRet () st3" "ino_ok st3 ip" "synced st3 ip" "itab st3 = itab st2"
      "\<And>j. slot st3 ip j = slot st2 ip j" "\<And>b. b \<noteq> iblk st2 ip \<Longrightarrow> blk st3 b = blk st2 b" "sb st3 = sb st2"
      "\<And>b. unat b < fsize st2 \<Longrightarrow> used st3 b = used st2 b" "\<And>i. i < MAXFILEB \<Longrightarrow> file_byte st3 ip i = file_byte st2 ip i"
    by (rule iupdate_spec [OF ok2 lt]) (rule that; assumption)
  have run: "writei inp ip src off n mm st = KRet (int t, mm) st3"
    using nw rng L(1) U(1) nat st2_if by (simp add: writei_def MAXFILEB_def Let_def not_less [symmetric])
  have fb: "file_byte st3 ip i = file_byte st1 ip i" if "i < MAXFILEB" for i
    using U(9) [OF that] sl2 b2(1) by (simp add: file_byte_def Let_def)
  have bytes: "file_byte st3 ip i = (if unat off \<le> i \<and> i < unat off + t then data ! (i - unat off) else file_byte st ip i)"
    if "i < MAXFILEB" for i
    using W(8) [OF that] fb [OF that] L(2) n by auto
  have mapped: "i < MAXFILEB \<and> slot st3 ip (six (i div BSIZE)) \<noteq> 0" if "unat off \<le> i" "i < unat off + t" for i
    using W(11) [of i] that U(5) sl2 L(2) n by simp
  have it3: "\<exists>v as. itab st3 = (itab st)[ip := (itab st ! ip)\<lparr>addrs := as, isize := v\<rparr>]"
  proof -
    obtain as where "itab st1 = (itab st)[ip := (itab st ! ip)\<lparr>addrs := as\<rparr>]" using W(6) by blast
    then show ?thesis using U(4) ino_okD(2) [OF ok] by (intro exI [of _ v] exI [of _ as]) (simp add: st2_def)
  qed
  have mono: "\<forall>j < NSLOT. slot st ip j \<noteq> 0 \<longrightarrow> slot st3 ip j = slot st ip j" using W(7) U(5) sl2 by simp
  have "full st3" if "full st1" using that U(8) b2 same_sb [OF U(7)] by (simp add: full_def)
  moreover have "unat (isize (itab st3 ! ip)) = max (unat (isize (itab st ! ip))) (unat off + t)"
    using U(4) b2(4) sz(1) L(2) rng(2) by (simp add: v_def MAXFILEB_def unat_of_nat del: of_nat_add)
  ultimately show ?thesis
    using that [OF run L(2) _ U(2,3)] L(4) W(10) bytes U(5,6) sl2 b2(1) ib mapped it3 mono by auto
qed

section \<open>Reading\<close>

text \<open>
  The destination of a read: \<open>out\<close> accepts up to \<open>n\<close> bytes from \<open>dst\<close> on, and \<open>put\<close> says what that
  does to the memory. Copies of consecutive pieces amount to one copy.
\<close>

locale sink =
  fixes out :: "'m copyout" and dst :: u64 and n :: nat and put :: "nat \<Rightarrow> u8 list \<Rightarrow> 'm \<Rightarrow> 'm"
  assumes out_put: "k + length bs \<le> n \<Longrightarrow> out (dst + of_nat k) bs mm = (True, put k bs mm)"
    and put_append: "k + length xs + length ys \<le> n \<Longrightarrow> put (k + length xs) ys (put k xs mm) = put k (xs @ ys) mm"
    and put_nil: "k \<le> n \<Longrightarrow> put k [] mm = mm"

definition file_bytes :: "fsst \<Rightarrow> nat \<Rightarrow> nat \<Rightarrow> nat \<Rightarrow> u8 list" where
  "file_bytes st ip off m = map (file_byte st ip) [off..<off + m]"

text \<open>Every byte of the range has a block, and its buffer can be had. No transaction is needed.\<close>

definition range_ok :: "fsst \<Rightarrow> nat \<Rightarrow> nat \<Rightarrow> nat \<Rightarrow> bool" where
  "range_ok st ip lo hi \<longleftrightarrow> (\<forall>b. length (blk st b) = BSIZE)
     \<and> (\<forall>i. lo \<le> i \<and> i < hi \<longrightarrow> i < MAXFILEB \<and> slot st ip (six (i div BSIZE)) \<noteq> 0
          \<and> slot st ip (six (i div BSIZE)) \<notin> set (bheld st) \<and> (slot st ip NDIRECT \<noteq> 0 \<longrightarrow> slot st ip NDIRECT \<notin> set (bheld st)))"

lemma bmap_mapped:
  assumes "bn < 268" "slot st ip (six bn) \<noteq> 0" "slot st ip NDIRECT \<noteq> 0 \<longrightarrow> slot st ip NDIRECT \<notin> set (bheld st)"
  shows "bmap ip bn st = KRet (slot st ip (six bn)) st"
proof (cases "bn < NDIRECT")
  case True
  then show ?thesis using assms by (simp add: bmap_def bmap_slot_def slot_def six_def Let_def)
next
  case False
  then have k: "bn - NDIRECT < NINDIRECT" "six bn = 13 + (bn - NDIRECT)" using assms(1) by (auto simp: six_def)
  have ia: "slot st ip NDIRECT \<noteq> 0" using assms(2) k by (auto simp: slot_def Let_def split: if_splits)
  then have "bmap_slot ip NDIRECT st = KRet (slot st ip NDIRECT) st" by (simp add: bmap_slot_def slot_def Let_def)
  moreover have "bmap_ind (slot st ip NDIRECT) (bn - NDIRECT) st = KRet (slot st ip (six bn)) st"
    using assms(2,3) ia slot_indirect [OF k(1) ia] k(2) by (simp add: bmap_ind_def getblk_free putblk_got Let_def)
  ultimately show ?thesis using False k ia by (simp add: bmap_def)
qed

lemma block_bytes:
  assumes "slot st ip (six (off div BSIZE)) \<noteq> 0" "length (blk st (slot st ip (six (off div BSIZE)))) = BSIZE" "off mod BSIZE + m \<le> BSIZE"
  shows "take m (drop (off mod BSIZE) (blk st (slot st ip (six (off div BSIZE))))) = file_bytes st ip off m"
proof (intro nth_equalityI)
  show "length (take m (drop (off mod BSIZE) (blk st (slot st ip (six (off div BSIZE)))))) = length (file_bytes st ip off m)"
    using assms by (simp add: file_bytes_def)
  fix i assume "i < length (take m (drop (off mod BSIZE) (blk st (slot st ip (six (off div BSIZE))))))"
  then have i: "i < m" "off mod BSIZE + i < BSIZE" using assms by auto
  have e: "off + i = (off mod BSIZE + i) + off div BSIZE * BSIZE" by simp
  then have "(off + i) div BSIZE = off div BSIZE" "(off + i) mod BSIZE = off mod BSIZE + i"
    using i(2) by (simp_all only: div_mult_self1 mod_mult_self1 div_less mod_less)
  then show "take m (drop (off mod BSIZE) (blk st (slot st ip (six (off div BSIZE))))) ! i = file_bytes st ip off m ! i"
    using assms i by (simp add: file_bytes_def file_byte_def)
qed

context sink
begin

lemma readi_loop_spec:
  assumes "range_ok st ip off (off + (r - tot))" "tot \<le> r" "r \<le> n"
  shows "readi_loop out ip (dst + of_nat tot) off tot r mm st = KRet (int r, put tot (file_bytes st ip off (r - tot)) mm) st"
  using assms
proof (induction "r - tot" arbitrary: tot off mm rule: less_induct)
  case less
  show ?case
  proof (cases "tot < r")
    case False
    then show ?thesis using less.prems put_nil [of tot] by (simp add: readi_loop.simps file_bytes_def)
  next
    case True
    define m where "m = min (r - tot) (BSIZE - off mod BSIZE)"
    let ?a = "slot st ip (six (off div BSIZE))"
    have "off mod BSIZE < BSIZE" by simp
    then have m: "0 < m" "tot + m \<le> r" "off mod BSIZE + m \<le> BSIZE" using True by (auto simp: m_def)
    have R: "off < MAXFILEB" "?a \<noteq> 0" "?a \<notin> set (bheld st)" "slot st ip NDIRECT \<noteq> 0 \<longrightarrow> slot st ip NDIRECT \<notin> set (bheld st)" "length (blk st ?a) = BSIZE"
      using less.prems(1) True by (auto simp: range_ok_def)
    have rest: "range_ok st ip (off + m) (off + m + (r - (tot + m)))"
      using less.prems(1) m(2) unfolding range_ok_def by auto
    let ?bs = "file_bytes st ip off m"
    have lb: "length ?bs = m" by (simp add: file_bytes_def)
    have bb: "take m (drop (off mod BSIZE) (blk st ?a)) = ?bs" using block_bytes [OF R(2,5) m(3)] .
    have cp: "out (dst + of_nat tot) ?bs mm = (True, put tot ?bs mm)" using out_put [of tot ?bs] lb m less.prems(3) by simp
    have "readi_loop out ip (dst + of_nat tot) off tot r mm st =
        readi_loop out ip (dst + of_nat tot + of_nat m) (off + m) (tot + m) r (put tot ?bs mm) st"
      using True bmap_mapped [OF six_range(1) [OF R(1)] R(2,4)] R(2,3) bb cp
      by (subst readi_loop.simps) (simp add: getblk_free putblk_got Let_def m_def [symmetric])
    also have "\<dots> = KRet (int r, put (tot + m) (file_bytes st ip (off + m) (r - (tot + m))) (put tot ?bs mm)) st"
      using less.hyps [of "tot + m" "off + m" "put tot ?bs mm"] less.prems(1,3) m rest by (simp add: add.assoc)
    also have "put (tot + m) (file_bytes st ip (off + m) (r - (tot + m))) (put tot ?bs mm) = put tot (?bs @ file_bytes st ip (off + m) (r - (tot + m))) mm"
      using put_append [of tot ?bs "file_bytes st ip (off + m) (r - (tot + m))" mm] lb m less.prems(3) by (simp add: file_bytes_def)
    also have "?bs @ file_bytes st ip (off + m) (r - (tot + m)) = file_bytes st ip off (r - tot)"
      using m(2) upt_add_eq_append [of off "off + m" "r - (tot + m)"] by (simp add: file_bytes_def flip: map_append)
    finally show ?thesis .
  qed
qed

lemma readi_spec:
  assumes "range_ok st ip (unat off) (min (unat off + unat len) (unat (isize (itab st ! ip))))" "unat len \<le> n"
    "off \<le> isize (itab st ! ip)" "\<not> off + len < off"
  defines "r \<equiv> min (unat len) (unat (isize (itab st ! ip)) - unat off)"
  shows "readi out ip dst off len mm st = KRet (int r, put 0 (file_bytes st ip (unat off) r) mm) st"
proof -
  have w: "unat (off + len) = unat off + unat len" "unat off \<le> unat (isize (itab st ! ip))"
    using assms(3,4) unat_plus_simple [of off len] by (simp_all add: not_less word_le_nat_alt)
  have n1: "unat (if off + len > isize (itab st ! ip) then isize (itab st ! ip) - off else len) = r"
    using w assms(3) by (auto simp: r_def word_less_nat_alt unat_sub)
  have "readi out ip dst off len mm st = readi_loop out ip (dst + of_nat 0) (unat off) 0 r mm st"
    using assms(3,4) n1 by (simp add: readi_def Let_def linorder_not_less [symmetric])
  moreover have "unat off + (r - 0) = min (unat off + unat len) (unat (isize (itab st ! ip)))" using w by (simp add: r_def)
  ultimately show ?thesis using readi_loop_spec [of st ip "unat off" r 0 mm] assms(1,2) by (simp add: r_def)
qed

end

text \<open>Kernel buffers: the directory entry \<open>struct dirent de\<close> on the stack.\<close>

lemma put_bytes_append: "put_bytes (k + length xs) ys (put_bytes k xs d) = put_bytes k (xs @ ys) d"
proof (cases "k \<le> length d")
  case True
  then show ?thesis by (simp add: put_bytes_def ac_simps)
qed (simp add: put_bytes_def)

lemma put_bytes_nil [simp]: "put_bytes k [] d = d"
  by (simp add: put_bytes_def)

lemma kcopyout_sink: "n < 2 ^ 64 \<Longrightarrow> sink kcopyout 0 n put_bytes"
  by unfold_locales (simp_all add: kcopyout_def unat_of_nat put_bytes_append)

interpretation dirent_buf: sink kcopyout 0 16 put_bytes
  by (rule kcopyout_sink) simp

section \<open>Properties\<close>

lemma sample_slots [simp]: "slot sample_fs 0 j = 0" if "j < NSLOT" for j
proof -
  have "addrs (itab sample_fs ! 0) = replicate 13 0" by (simp add: sample_fs_def)
  then show ?thesis by (cases "j \<le> 12") (simp_all add: slot_def Let_def nth_append del: replicate.simps)
qed

lemma sample_ino_ok: "ino_ok sample_fs 0" "wbudget sample_fs 0 = 2"
proof -
  have ib: "iblk sample_fs 0 = 2" by (simp add: iblk_def IBLOCK_def sample_fs_def)
  have "data_block sample_fs 2" using sample_used(2) sample_BM by (simp add: data_block_def) (simp add: sample_fs_def)
  moreover have "0 < length (itab sample_fs)" "length (addrs (itab sample_fs ! 0)) = 13" by (simp_all add: sample_fs_def)
  ultimately show "ino_ok sample_fs 0" using sample_store_ok(1) ib by (simp add: ino_ok_def)
  show "wbudget sample_fs 0 = 2" using sample_store_ok(2) sample_BM(1) by (simp add: wbudget_def lset_def)
qed

lemma kcopyin_gives: "length data < 2 ^ 64 \<Longrightarrow> gives kcopyin 0 data data"
  by (auto simp: gives_def kcopyin_def unat_of_nat)



text \<open>
  C20. Writing and reading back: a range \<open>writei\<close> has just written is read by \<open>readi\<close> as the bytes
  that were written, whatever memory they are read into, and the read changes nothing.
\<close>

theorem write_read_roundtrip:
  assumes "ino_ok st ip" "gives inp src mm data" "length data = unat n" "off \<le> isize (itab st ! ip)"
    "unat off + unat n \<le> MAXFILEB" "wbudget st ip + nblk (unat off) (unat n) + 4 \<le> LOGBLOCKS"
    and "sink out dst (unat n) put"
  shows "\<exists>t st'. writei inp ip src off n mm st = KRet (int t, mm) st' \<and> t \<le> unat n \<and> (t < unat n \<longrightarrow> full st')
    \<and> readi out ip dst off (of_nat t) mm2 st' = KRet (int t, put 0 (take t data) mm2) st'"
proof -
  obtain t st' where W: "writei inp ip src off n mm st = KRet (int t, mm) st'" "t \<le> unat n" "t < unat n \<longrightarrow> full st'" "ino_ok st' ip"
      "unat (isize (itab st' ! ip)) = max (unat (isize (itab st ! ip))) (unat off + t)"
      "\<forall>i < MAXFILEB. file_byte st' ip i = (if unat off \<le> i \<and> i < unat off + t then data ! (i - unat off) else file_byte st ip i)"
      "\<forall>i. unat off \<le> i \<longrightarrow> i < unat off + t \<longrightarrow> i < MAXFILEB \<and> slot st' ip (six (i div BSIZE)) \<noteq> 0"
    by (rule writei_spec [OF assms(1-6)]) (rule that; assumption)
  note O = ino_okD [OF W(4)]
  have "t < 2 ^ 32" using W(2) assms(5) by (simp add: MAXFILEB_def)
  then have t: "unat (of_nat t :: u32) = t" by (simp add: unat_of_nat)
  have "unat (off + of_nat t) = unat off + t" using t W(2) assms(5) by (simp add: unat_word_ariths MAXFILEB_def)
  then have nw: "\<not> off + of_nat t < off" "off \<le> isize (itab st' ! ip)" using W(5) by (simp_all add: word_less_nat_alt word_le_nat_alt)
  have rd: "range_ok st' ip (unat off) (min (unat off + t) (unat (isize (itab st' ! ip))))"
    using W(7) store_okD(1) [OF O(1)] O(4) six_range(2) by (auto simp: range_ok_def data_block_def)
  have "readi out ip dst off (of_nat t) mm2 st' = KRet (int t, put 0 (file_bytes st' ip (unat off) t) mm2) st'"
    using sink.readi_spec [OF assms(7), of st' ip off "of_nat t" mm2] rd t nw W(2,5) by simp
  moreover have "file_bytes st' ip (unat off) t = take t data"
    using W(2,6,7) assms(3) by (intro nth_equalityI) (auto simp: file_bytes_def)
  ultimately show ?thesis using W by auto
qed

theorem write_read_roundtrip_witness:
  "\<exists>t st'. writei kcopyin 0 0 0 3 [7, 8, 9] sample_fs = KRet (int t, [7, 8, 9]) st'
    \<and> readi kcopyout 0 0 0 (of_nat t) [0, 0, 0] st' = KRet (int t, put_bytes 0 (take t [7, 8, 9]) [0, 0, 0]) st'"
proof -
  have "\<exists>t st'. writei kcopyin 0 0 0 3 [7, 8, 9] sample_fs = KRet (int t, [7, 8, 9]) st' \<and> t \<le> unat (3 :: u32) \<and> (t < unat (3 :: u32) \<longrightarrow> full st')
    \<and> readi kcopyout 0 0 0 (of_nat t) [0, 0, 0] st' = KRet (int t, put_bytes 0 (take t [7, 8, 9]) [0, 0, 0]) st'"
    by (rule write_read_roundtrip)
       (use sample_ino_ok kcopyin_gives [of "[7, 8, 9]"] kcopyout_sink [of 3] in \<open>simp_all add: MAXFILEB_def nblk_def\<close>)
  then show ?thesis by blast
qed

lemma nblk_chunk: "r \<le> 3072 \<Longrightarrow> nblk off r \<le> 4"
proof -
  assume "r \<le> 3072"
  then have "(off + r - 1) div 1024 \<le> (off + 3 * 1024) div 1024" by (intro div_le_mono) simp
  then have "(off + r - 1) div 1024 \<le> off div 1024 + 3" by simp
  then show ?thesis by (simp add: nblk_def le_diff_conv)
qed

lemma BM_one: "fsize st \<le> 8192 \<Longrightarrow> card (BM st) \<le> 1"
proof -
  assume f: "fsize st \<le> 8192"
  have "b div 8192 = 0" if "unat b < fsize st" for b :: u32
    using that f by (simp add: word_unat_eq_iff unat_mod8192)
  then have "BM st \<subseteq> {bmapstart (sb st)}" by (auto simp: BM_def BBLOCK_def)
  then show ?thesis using card_mono [of "{bmapstart (sb st)}" "BM st"] by simp
qed

lemma wbudget_bound: "log_wf (flog st) \<Longrightarrow> fsize st \<le> 8192 \<Longrightarrow> wbudget st ip \<le> lh_n (flog st) + 2"
proof -
  assume lw: "log_wf (flog st)" and f: "fsize st \<le> 8192"
  let ?I = "{slot st ip NDIRECT} - {0}"
  have "card (lset (flog st) \<union> BM st \<union> ?I) \<le> card (lset (flog st)) + card (BM st) + card ?I"
    using card_Un_le [of "lset (flog st) \<union> BM st" ?I] card_Un_le [of "lset (flog st)" "BM st"] by linarith
  moreover have "card ?I + (if slot st ip NDIRECT = 0 then 1 else 0) = 1" by simp
  ultimately show ?thesis using lset_card [OF lw] BM_one [OF f] unfolding wbudget_def by linarith
qed

text \<open>
  C32. A chunk of \<open>filewrite\<close> fits in its transaction: when \<open>begin_op\<close> has let the call in, on a disk
  whose bitmap is one block, \<open>writei\<close> of at most 3072 bytes returns; it never runs into the panic
  ``too big a transaction'' of \<open>log_write\<close>.
\<close>

theorem write_fits_transaction:
  assumes "fs_begin st0 = KRet () st" "0 \<le> outstanding (flog st0)" "fsize st \<le> 8192"
    and "ino_ok st ip" "gives inp src mm data" "length data = unat n" "unat n \<le> 3072" "off \<le> isize (itab st ! ip)"
    "unat off + unat n \<le> MAXFILEB"
  shows "\<exists>t st'. writei inp ip src off n mm st = KRet (int t, mm) st' \<and> t \<le> unat n"
proof -
  have "int (lh_n (flog st)) \<le> 20"
    using assms(1,2) by (auto simp: fs_begin_def begin_op_def split: if_splits)
  moreover have "wbudget st ip \<le> lh_n (flog st) + 2" using wbudget_bound [OF store_okD(2) [OF ino_okD(1) [OF assms(4)]] assms(3)] .
  ultimately have "wbudget st ip + nblk (unat off) (unat n) + 4 \<le> LOGBLOCKS" using nblk_chunk [OF assms(7), of "unat off"] by linarith
  then show ?thesis by (rule writei_spec [OF assms(4,5,6,8,9)]) blast
qed

theorem write_fits_transaction_witness:
  "\<exists>t st'. writei kcopyin 0 0 0 3 [7, 8, 9] sample_fs = KRet (int t, [7, 8, 9]) st' \<and> t \<le> unat (3 :: u32)"
proof (rule write_fits_transaction [where ?st0.0 = "sample_fs\<lparr>flog := (flog sample_fs)\<lparr>outstanding := 0\<rparr>\<rparr>" and data = "[7, 8, 9]"])
  show "fs_begin (sample_fs\<lparr>flog := (flog sample_fs)\<lparr>outstanding := 0\<rparr>\<rparr>) = KRet () sample_fs"
    by (simp add: fs_begin_def begin_op_def sample_fs_def)
qed (use sample_ino_ok sample_BM(2) kcopyin_gives [of "[7, 8, 9]"] in \<open>simp_all add: MAXFILEB_def\<close>)

text \<open>
  \<open>struct dinode\<close> on disk: an inode stored by \<open>iupdate\<close> in slot \<open>k\<close> of its block is read back
  by \<open>ilock\<close> with the same type, numbers, link count, size and addresses, and the other inodes of
  the block keep theirs.
\<close>

theorem dinode_roundtrip:
  assumes "length (addrs x) = NDIRECT + 1" "length d = BSIZE" "k < IPB"
  shows "get_dinode k (put_dinode k x d) = dinode.truncate x
    \<and> (\<forall>j < IPB. j \<noteq> k \<longrightarrow> get_dinode j (put_dinode k x d) = get_dinode j d)"
  using get_put_dinode [of x k d] get_put_dinode_other [of x k d] assms by simp

theorem dinode_roundtrip_witness:
  "get_dinode 3 (put_dinode 3 (itab sample_fs ! 0) (replicate BSIZE 0)) = dinode.truncate (itab sample_fs ! 0)"
  using dinode_roundtrip [of "itab sample_fs ! 0" "replicate BSIZE 0" 3] by (simp add: sample_fs_def)

end
