(* ===== verification/Fsnames.thy ===== *)
theory Fsnames
  imports Fs "HOL-Library.Multiset"
begin

text \<open>
  Path names and the table of in-memory inodes: \<open>namex\<close> as a walk over the elements of the path, and
  the invariant of the inode table.
\<close>

section \<open>Paths\<close>

text \<open>The parts of a path between slashes, and the elements \<open>namex\<close> looks up.\<close>

fun split_on :: "'a \<Rightarrow> 'a list \<Rightarrow> 'a list list" where
  "split_on c [] = [[]]"
| "split_on c (x # xs) = (if x = c then [] # split_on c xs else (case split_on c xs of y # ys \<Rightarrow> (x # y) # ys | [] \<Rightarrow> [[x]]))"

definition path_elems :: "u8 list \<Rightarrow> u8 list list" where
  "path_elems path = map (take DIRSIZ) (filter (\<lambda>e. e \<noteq> []) (split_on 0x2F path))"

lemma split_on_nonempty [simp]: "split_on c xs \<noteq> []"
  by (cases xs) (auto split: list.split)

lemma split_on_span:
  "split_on c xs = (case dropWhile (\<lambda>x. x \<noteq> c) xs of [] \<Rightarrow> [xs] | _ # ys \<Rightarrow> takeWhile (\<lambda>x. x \<noteq> c) xs # split_on c ys)"
proof (induction xs)
  case (Cons x xs)
  then show ?case by (cases "dropWhile (\<lambda>x. x \<noteq> c) xs") (auto simp del: dropWhile_eq_Nil_conv)
qed simp

lemma path_elems_slash: "path_elems (0x2F # p) = path_elems p"
  by (simp add: path_elems_def)

lemma path_elems_slashes: "path_elems (dropWhile (\<lambda>c. c = 0x2F) p) = path_elems p"
  by (induction p) (auto simp: path_elems_slash)

lemma path_elems_skipelem:
  "(case skipelem path of None \<Rightarrow> path_elems path = [] | Some (rest, e) \<Rightarrow>
      path_elems path = e # path_elems rest \<and> (rest = [] \<longleftrightarrow> path_elems rest = []))"
proof -
  define p where "p = dropWhile (\<lambda>c. c = 0x2F) path"
  have pe: "path_elems path = path_elems p" unfolding p_def by (rule path_elems_slashes [symmetric])
  show ?thesis
  proof (cases p)
    case Nil
    then have "skipelem path = None" "path_elems path = []"
      using pe by (simp_all add: skipelem_def p_def [symmetric] Let_def) (simp add: path_elems_def)
    then show ?thesis by simp
  next
    case (Cons c q)
    have c: "c \<noteq> 0x2F" using Cons hd_dropWhile [of "\<lambda>c. c = 0x2F" path] unfolding p_def by force
    define rest where "rest = dropWhile (\<lambda>c. c = 0x2F) (dropWhile (\<lambda>c. c \<noteq> 0x2F) p)"
    have sk: "skipelem path = Some (rest, take DIRSIZ (takeWhile (\<lambda>c. c \<noteq> 0x2F) p))"
      using Cons unfolding skipelem_def p_def [symmetric] rest_def by (simp add: Let_def)
    have "path_elems p = take DIRSIZ (takeWhile (\<lambda>c. c \<noteq> 0x2F) p) # path_elems (dropWhile (\<lambda>c. c \<noteq> 0x2F) p)"
    proof (cases "dropWhile (\<lambda>c. c \<noteq> 0x2F) p")
      case Nil
      then have "takeWhile (\<lambda>c. c \<noteq> 0x2F) p = p" by (metis append_Nil2 takeWhile_dropWhile_id)
      then show ?thesis using Nil Cons split_on_span [of "0x2F" p] by (simp add: path_elems_def)
    next
      case d: (Cons x ys)
      then have "x = 0x2F" using hd_dropWhile [of "\<lambda>c. c \<noteq> 0x2F" p] by force
      then show ?thesis using d c Cons split_on_span [of "0x2F" p] by (simp add: path_elems_def)
    qed
    then have e: "path_elems path = take DIRSIZ (takeWhile (\<lambda>c. c \<noteq> 0x2F) p) # path_elems rest"
      using pe path_elems_slashes [of "dropWhile (\<lambda>c. c \<noteq> 0x2F) p"] by (simp add: rest_def)
    have "path_elems rest \<noteq> []" if ne: "rest \<noteq> []"
    proof -
      obtain x r where r: "rest = x # r" using ne by (cases rest) auto
      then have "x \<noteq> 0x2F" using hd_dropWhile [of "\<lambda>c. c = 0x2F" "dropWhile (\<lambda>c. c \<noteq> 0x2F) p"] unfolding rest_def by force
      then show ?thesis using r by (auto simp: path_elems_def split: list.split)
    qed
    then show ?thesis using sk e by (auto simp: path_elems_def)
  qed
qed

text \<open>The walk over a list of elements that \<open>namex\<close> is meant to make.\<close>

fun walk_elems :: "int \<Rightarrow> bool \<Rightarrow> u8 list \<Rightarrow> u8 list list \<Rightarrow> nat \<Rightarrow> fsst \<Rightarrow> (fsst, (nat \<times> u8 list) option) kcall" where
  "walk_elems pid parent name [] ip st =
     (if parent then kbind (iput pid ip st) (\<lambda>_ st1. KRet None st1) else KRet (Some (ip, name)) st)"
| "walk_elems pid parent name (e # es) ip st =
     kbind (ilock pid (Some ip) st) (\<lambda>_ st1.
     if itype (itab st1 ! ip) \<noteq> T_DIR then kbind (iunlockput pid ip st1) (\<lambda>_ st2. KRet None st2)
     else if parent \<and> es = [] then kbind (iunlock pid (Some ip) st1) (\<lambda>_ st2. KRet (Some (ip, e)) st2)
     else kbind (dirlookup ip e st1) (\<lambda>r st2.
          case r of None \<Rightarrow> kbind (iunlockput pid ip st2) (\<lambda>_ st3. KRet None st3)
          | Some (nip, _) \<Rightarrow> kbind (iunlockput pid ip st2) (\<lambda>_ st3. walk_elems pid parent e es nip st3)))"

text \<open>
  C22. \<open>namex\<close> visits exactly the elements of the path: the non-empty parts between slashes, cut to
  \<open>DIRSIZ\<close> bytes, in order, starting at the root for a path that begins with a slash and at the
  current directory otherwise. Runs of slashes, leading and trailing ones make no difference.
\<close>

theorem namex_walks_elements:
  "namex pid cwd path parent st =
     kbind (if take 1 path = [0x2F] then iget ROOTDEV ROOTINO st else idup cwd st)
       (\<lambda>ip st1. walk_elems pid parent [] (path_elems path) ip st1)"
proof -
  have "namex_loop pid parent name path ip st = walk_elems pid parent name (path_elems path) ip st" for name path ip st
  proof (induction "length path" arbitrary: name path ip st rule: less_induct)
    case less
    show ?case
    proof (cases "skipelem path")
      case None
      then show ?thesis using path_elems_skipelem [of path] by (simp add: namex_loop.simps)
    next
      case (Some re)
      obtain rest e where re: "re = (rest, e)" by (cases re)
      have "path_elems path = e # path_elems rest" "rest = [] \<longleftrightarrow> path_elems rest = []"
        using path_elems_skipelem [of path] Some re by simp_all
      moreover have "namex_loop pid parent e rest = walk_elems pid parent e (path_elems rest)"
        using less.hyps skipelem_shorter Some re by (intro ext) blast
      ultimately show ?thesis using Some re by (subst namex_loop.simps) (simp cong: if_cong option.case_cong)
    qed
  qed
  moreover have "(case path of c # _ \<Rightarrow> if c = 0x2F then iget ROOTDEV ROOTINO st else idup cwd st | [] \<Rightarrow> idup cwd st) =
      (if take 1 path = [0x2F] then iget ROOTDEV ROOTINO st else idup cwd st)"
    by (cases path) auto
  ultimately show ?thesis by (simp add: namex_def)
qed

section \<open>The inode table\<close>

text \<open>What identifies a table entry: device, inode number, reference count.\<close>

definition ids :: "fsst \<Rightarrow> (u32 \<times> u32 \<times> int) list" where
  "ids st = map (\<lambda>x. (idev x, inum x, iref x)) (itab st)"

definition keeps :: "fsst \<Rightarrow> (fsst, 'a) kcall \<Rightarrow> bool" where
  "keeps st m \<longleftrightarrow> (\<forall>r s. m = KRet r s \<longrightarrow> ids s = ids st)"

named_theorems keeps_rules

lemma keepsD: "keeps st m \<Longrightarrow> m = KRet r s \<Longrightarrow> ids s = ids st"
  by (simp add: keeps_def)

lemma keeps_bind [keeps_rules]:
  "keeps st m \<Longrightarrow> (\<And>x s. ids s = ids st \<Longrightarrow> keeps s (f x s)) \<Longrightarrow> keeps st (kbind m f)"
  unfolding keeps_def kbind_eq_KRet by metis

lemma keeps_basic [keeps_rules]:
  "ids s = ids st \<Longrightarrow> keeps st (KRet r s)" "keeps st (KPanic e)" "keeps st (KSleep s)"
  by (auto simp: keeps_def)

lemma keeps_if [keeps_rules]: "(b \<Longrightarrow> keeps st m) \<Longrightarrow> (\<not> b \<Longrightarrow> keeps st m') \<Longrightarrow> keeps st (if b then m else m')"
  by auto

lemma keeps_option [keeps_rules]:
  "(x = None \<Longrightarrow> keeps st m) \<Longrightarrow> (\<And>y. x = Some y \<Longrightarrow> keeps st (f y)) \<Longrightarrow> keeps st (case x of None \<Rightarrow> m | Some y \<Rightarrow> f y)"
  by (cases x) auto

text \<open>An operation run in a state with the same identities.\<close>

lemma keeps_from: "keeps s m \<Longrightarrow> ids s = ids st \<Longrightarrow> keeps st m"
  by (simp add: keeps_def)

lemma ids_upd_inode [simp]:
  "(\<And>x. idev (f x) = idev x \<and> inum (f x) = inum x \<and> iref (f x) = iref x) \<Longrightarrow> ids (upd_inode ip f st) = ids st"
  by (cases "ip < length (itab st)") (auto simp: ids_def upd_inode_def nth_list_update intro!: nth_equalityI)

lemma ids_simps [simp]:
  "ids (st\<lparr>blk := x\<rparr>) = ids st" "ids (st\<lparr>bheld := y\<rparr>) = ids st" "ids (st\<lparr>flog := z\<rparr>) = ids st" "ids (setblk b g st) = ids st"
  by (simp_all add: ids_def setblk_def)

lemma keeps_blocks [keeps_rules]: "keeps st (getblk b st)" "keeps st (putblk b st)" "keeps st (logblk b st)"
  by (auto simp: keeps_def getblk_def putblk_def logblk_def Let_def split: if_splits)

lemma keeps_setblk [keeps_rules]: "keeps st (logblk b (setblk b' g st))" "keeps st (putblk b (setblk b' g st))"
  by (auto intro: keeps_from keeps_blocks)

lemma keeps_bzero [keeps_rules]: "keeps st (bzero b st)"
  unfolding bzero_def by (intro keeps_rules)

lemma keeps_balloc_loop: "keeps st (balloc_loop sz b st)"
proof (induction sz b st rule: balloc_loop.induct)
  case (1 sz b st)
  show ?case
  proof (cases "b < sz")
    case True
    then show ?thesis
      by (subst balloc_loop.simps) (auto simp: Let_def intro!: keeps_rules intro: 1)
  qed (simp add: balloc_loop.simps keeps_basic)
qed

lemma keeps_balloc [keeps_rules]: "keeps st (balloc st)"
  unfolding balloc_def by (rule keeps_balloc_loop)

lemma keeps_bfree [keeps_rules]: "keeps st (bfree b st)"
  unfolding bfree_def Let_def by (intro keeps_rules)

lemma keeps_bmap [keeps_rules]: "keeps st (bmap ip bn st)"
  unfolding bmap_def bmap_slot_def bmap_ind_def Let_def by (intro keeps_rules ids_upd_inode) auto

lemma keeps_iupdate [keeps_rules]: "keeps st (iupdate ip st)"
  unfolding iupdate_def Let_def by (intro keeps_rules)

lemma keeps_trunc_direct [keeps_rules]: "keeps st (trunc_direct ip i k st)"
proof (induction ip i k st rule: trunc_direct.induct)
  case (2 ip i k st)
  have "keeps s (trunc_direct ip (Suc i) k (upd_inode ip (\<lambda>x. x\<lparr>addrs := (addrs x)[i := 0]\<rparr>) s))"
    if "addrs (itab st ! ip) ! i \<noteq> 0" for s by (rule keeps_from [OF 2(1) [OF that]]) simp
  then show ?case using 2(2) by (auto intro!: keeps_rules)
qed (simp add: keeps_basic)

lemma keeps_free_all [keeps_rules]: "keeps st (free_all as st)"
  by (induction as arbitrary: st) (auto intro!: keeps_rules)

lemma keeps_itrunc [keeps_rules]: "keeps st (itrunc ip st)"
  unfolding itrunc_def Let_def by (intro keeps_rules keeps_from [OF keeps_iupdate] ids_upd_inode) auto

lemma keeps_ilock [keeps_rules]: "keeps st (ilock pid ipo st)"
  unfolding ilock_def Let_def load_dinode_def by (intro keeps_rules keeps_from [OF keeps_blocks(1)] keeps_from [OF keeps_blocks(2)] ids_upd_inode | simp)+

lemma keeps_iunlock [keeps_rules]: "keeps st (iunlock pid ipo st)"
  unfolding iunlock_def by (intro keeps_rules ids_upd_inode) auto

lemma keeps_readi_loop: "keeps st (readi_loop out ip dst off tot n mm st)"
proof (induction out ip dst off tot n mm st rule: readi_loop.induct)
  case (1 out ip dst off tot n mm st)
  show ?case
  proof (cases "tot < n")
    case True
    then show ?thesis by (subst readi_loop.simps) (auto simp: Let_def intro!: keeps_rules intro: 1)
  qed (simp add: readi_loop.simps keeps_basic)
qed

lemma keeps_writei_loop: "keeps st (writei_loop inp ip src off tot n mm st)"
proof (induction "n - tot" arbitrary: src off tot mm st rule: less_induct)
  case less
  have "off mod BSIZE < BSIZE" by simp
  then have "keeps s (writei_loop inp ip a b (tot + min (n - tot) (BSIZE - off mod BSIZE)) n m s)" if "tot < n" for a b m s
    using that by (intro less) linarith
  then show ?case
    unfolding writei_loop.simps [of inp ip src off tot] Let_def by (auto split: prod.split intro!: keeps_rules)
qed

lemma keeps_readi [keeps_rules]: "keeps st (readi out ip dst off n mm st)"
  unfolding readi_def Let_def by (intro keeps_rules keeps_readi_loop) auto

lemma keeps_writei [keeps_rules]: "keeps st (writei inp ip src off n mm st)"
  unfolding writei_def Let_def by (auto intro!: keeps_rules keeps_writei_loop intro: keeps_from [OF keeps_iupdate] ids_upd_inode)

text \<open>
  Histories of the inode table, with the references the kernel holds as a multiset: \<open>iget\<close> and \<open>idup\<close>
  give out a reference, \<open>iput\<close> takes one back, and the other operations use references.
\<close>

inductive itable :: "fsst \<Rightarrow> nat multiset \<Rightarrow> bool" where
  it_start: "\<forall>x \<in> set (itab st). iref x = 0 \<Longrightarrow> itable st {#}"
| it_get: "itable st R \<Longrightarrow> iget dv n st = KRet ip st' \<Longrightarrow> itable st' (add_mset ip R)"
| it_dup: "itable st R \<Longrightarrow> ip \<in># R \<Longrightarrow> idup ip st = KRet ip' st' \<Longrightarrow> itable st' (add_mset ip' R)"
| it_put: "itable st R \<Longrightarrow> ip \<in># R \<Longrightarrow> iput pid ip st = KRet () st' \<Longrightarrow> itable st' (R - {#ip#})"
| it_lock: "itable st R \<Longrightarrow> ilock pid (Some ip) st = KRet () st' \<Longrightarrow> itable st' R"
| it_unlock: "itable st R \<Longrightarrow> iunlock pid (Some ip) st = KRet () st' \<Longrightarrow> itable st' R"
| it_update: "itable st R \<Longrightarrow> iupdate ip st = KRet () st' \<Longrightarrow> itable st' R"
| it_trunc: "itable st R \<Longrightarrow> itrunc ip st = KRet () st' \<Longrightarrow> itable st' R"
| it_read: "itable st R \<Longrightarrow> readi kcopyout ip dst off n mm st = KRet (r, mm') st' \<Longrightarrow> itable st' R"
| it_write: "itable st R \<Longrightarrow> writei kcopyin ip src off n mm st = KRet (r, mm') st' \<Longrightarrow> itable st' R"

definition itab_inv :: "(u32 \<times> u32 \<times> int) list \<Rightarrow> nat multiset \<Rightarrow> bool" where
  "itab_inv xs R \<longleftrightarrow> set_mset R \<subseteq> {..<length xs} \<and> (\<forall>i < length xs. snd (snd (xs ! i)) = int (count R i))
     \<and> (\<forall>i j. i \<in># R \<longrightarrow> j \<in># R \<longrightarrow> fst (xs ! i) = fst (xs ! j) \<longrightarrow> fst (snd (xs ! i)) = fst (snd (xs ! j)) \<longrightarrow> i = j)"

lemma nth_Cons_shift: "Suc k \<le> i \<Longrightarrow> (x # xs) ! (i - k) = xs ! (i - Suc k)" for i k :: nat
  by (metis Suc_diff_le diff_Suc_Suc nth_Cons_Suc)

lemma iget_scan_hit:
  "iget_scan xs k emp dv n = (Some i, e) \<Longrightarrow>
     k \<le> i \<and> i - k < length xs \<and> iref (xs ! (i - k)) > 0 \<and> idev (xs ! (i - k)) = dv \<and> inum (xs ! (i - k)) = n"
proof (induction xs arbitrary: k emp)
  case (Cons x xs)
  show ?case
  proof (cases "iref x > 0 \<and> idev x = dv \<and> inum x = n")
    case False
    define emp' where "emp' = (if emp = None \<and> iref x = 0 then Some k else emp)"
    have "iget_scan xs (Suc k) emp' dv n = (Some i, e)" using Cons.prems False by (simp add: emp'_def)
    from Cons.IH [OF this] show ?thesis using nth_Cons_shift [of k i x xs] by auto
  qed (use Cons.prems in auto)
qed simp

lemma iget_scan_miss:
  "iget_scan xs k emp dv n = (None, e) \<Longrightarrow> (\<forall>x \<in> set xs. \<not> (iref x > 0 \<and> idev x = dv \<and> inum x = n))
     \<and> (\<forall>i. e = Some i \<longrightarrow> emp = Some i \<or> (k \<le> i \<and> i - k < length xs \<and> iref (xs ! (i - k)) = 0))
     \<and> (e = None \<longrightarrow> emp = None \<and> (\<forall>x \<in> set xs. iref x \<noteq> 0))"
proof (induction xs arbitrary: k emp)
  case (Cons x xs)
  then have nm: "\<not> (iref x > 0 \<and> idev x = dv \<and> inum x = n)" by auto
  define emp' where "emp' = (if emp = None \<and> iref x = 0 then Some k else emp)"
  have "iget_scan xs (Suc k) emp' dv n = (None, e)" using Cons.prems nm by (simp add: emp'_def)
  note IH = Cons.IH [OF this]
  have "emp = Some i \<or> (k \<le> i \<and> i - k < length (x # xs) \<and> iref ((x # xs) ! (i - k)) = 0)" if e: "e = Some i" for i
  proof (cases "Suc k \<le> i \<and> i - Suc k < length xs \<and> iref (xs ! (i - Suc k)) = 0")
    case True
    then show ?thesis using nth_Cons_shift [of k i x xs] by auto
  next
    case False
    then have "emp' = Some i" using IH e by blast
    then show ?thesis by (auto simp: emp'_def split: if_splits)
  qed
  moreover have "emp = None \<and> iref x \<noteq> 0" if "e = None" using IH that by (auto simp: emp'_def split: if_splits)
  ultimately show ?case using IH nm by auto
qed simp

lemma itab_inv_keeps: "m = KRet r st' \<Longrightarrow> keeps st m \<Longrightarrow> itab_inv (ids st) R \<Longrightarrow> itab_inv (ids st') R"
  by (simp add: keeps_def)

lemma nth_ids: "i < length (itab st) \<Longrightarrow> ids st ! i = (idev (itab st ! i), inum (itab st ! i), iref (itab st ! i))"
  by (simp add: ids_def)

lemma length_ids [simp]: "length (ids st) = length (itab st)"
  by (simp add: ids_def)

lemma ids_upd: "ip < length (itab st) \<Longrightarrow> ids (upd_inode ip f st) =
    (ids st)[ip := (idev (f (itab st ! ip)), inum (f (itab st ! ip)), iref (f (itab st ! ip)))]"
  by (simp add: ids_def upd_inode_def map_update)

lemma itab_inv_ref:
  assumes "itab_inv (ids st) R" "ip < length (itab st)"
  shows "iref (itab st ! ip) = int (count R ip)" "0 < iref (itab st ! ip) \<longleftrightarrow> ip \<in># R"
  using assms by (auto simp: itab_inv_def nth_ids)

text \<open>One reference more to an entry in use.\<close>

lemma itab_inv_more:
  assumes inv: "itab_inv (ids st) R" and ip: "ip \<in># R"
  shows "itab_inv (ids (upd_inode ip (\<lambda>x. x\<lparr>iref := iref x + 1\<rparr>) st)) (add_mset ip R)"
proof -
  have l: "ip < length (itab st)" using inv ip by (auto simp: itab_inv_def)
  let ?xs = "ids (upd_inode ip (\<lambda>x. x\<lparr>iref := iref x + 1\<rparr>) st)"
  have n: "?xs ! i = (fst (ids st ! i), fst (snd (ids st ! i)), snd (snd (ids st ! i)) + (if i = ip then 1 else 0))"
    if "i < length (itab st)" for i
    using that l by (simp add: ids_upd nth_list_update nth_ids)
  have R: "i < length (itab st)" if "i \<in># add_mset ip R" for i using that inv l by (auto simp: itab_inv_def)
  have cnt: "snd (snd (?xs ! i)) = int (count (add_mset ip R) i)" if "i < length (itab st)" for i
    using inv n [OF that] that by (simp add: itab_inv_def)
  have uni: "i = j" if "i \<in># add_mset ip R" "j \<in># add_mset ip R" "fst (?xs ! i) = fst (?xs ! j)" "fst (snd (?xs ! i)) = fst (snd (?xs ! j))" for i j
  proof -
    have "i \<in># R" "j \<in># R" using that ip by auto
    then show ?thesis using inv that n [OF R [OF that(1)]] n [OF R [OF that(2)]] by (simp add: itab_inv_def)
  qed
  show ?thesis unfolding itab_inv_def using R cnt uni by auto
qed

text \<open>A new entry for an inode that had none.\<close>

lemma itab_inv_new:
  assumes inv: "itab_inv (ids st) R" and l: "ip < length (itab st)" and z: "iref (itab st ! ip) = 0"
    and new: "\<forall>x \<in> set (itab st). \<not> (iref x > 0 \<and> idev x = dv \<and> inum x = n)"
  shows "itab_inv (ids (upd_inode ip (\<lambda>x. x\<lparr>idev := dv, inum := n, iref := 1, ivalid := False\<rparr>) st)) (add_mset ip R)"
proof -
  have c: "count R ip = 0" using itab_inv_ref(1) [OF inv l] z by simp
  have other: "j < length (itab st) \<and> j \<noteq> ip \<and> \<not> (fst (ids st ! j) = dv \<and> fst (snd (ids st ! j)) = n)" if "j \<in># R" for j
  proof -
    have j: "j < length (itab st)" using inv that by (auto simp: itab_inv_def)
    moreover have "itab st ! j \<in> set (itab st)" using j by simp
    ultimately show ?thesis using new itab_inv_ref(2) [OF inv j] that z by (auto simp: nth_ids)
  qed
  let ?xs = "ids (upd_inode ip (\<lambda>x. x\<lparr>idev := dv, inum := n, iref := 1, ivalid := False\<rparr>) st)"
  have n: "?xs ! i = (if i = ip then (dv, n, 1) else ids st ! i)" if "i < length (itab st)" for i
    using that l by (simp add: ids_upd nth_list_update)
  have R: "i < length (itab st)" if "i \<in># add_mset ip R" for i using that other l by auto
  have cnt: "snd (snd (?xs ! i)) = int (count (add_mset ip R) i)" if "i < length (itab st)" for i
    using inv n [OF that] that c by (auto simp: itab_inv_def)
  have uni: "i = j" if a: "i \<in># add_mset ip R" "j \<in># add_mset ip R" "fst (?xs ! i) = fst (?xs ! j)" "fst (snd (?xs ! i)) = fst (snd (?xs ! j))" for i j
  proof (cases "i = ip \<or> j = ip")
    case True
    then show ?thesis using a n [OF R [OF a(1)]] n [OF R [OF a(2)]] other [of i] other [of j] by auto
  next
    case False
    then show ?thesis using a n [OF R [OF a(1)]] n [OF R [OF a(2)]] inv by (simp add: itab_inv_def)
  qed
  show ?thesis unfolding itab_inv_def using R cnt uni by auto
qed

lemma itab_inv_less:
  assumes inv: "itab_inv xs R" and ip: "ip \<in># R" and xs': "xs' = xs[ip := (fst (xs ! ip), fst (snd (xs ! ip)), snd (snd (xs ! ip)) - 1)]"
  shows "itab_inv xs' (R - {#ip#})"
proof -
  have l: "ip < length xs" using inv ip by (auto simp: itab_inv_def)
  have n: "xs' ! i = (fst (xs ! i), fst (snd (xs ! i)), snd (snd (xs ! i)) - (if i = ip then 1 else 0))" if "i < length xs" for i
    using that l xs' by (simp add: nth_list_update)
  have R: "i \<in># R" "i < length xs" if "i \<in># R - {#ip#}" for i using in_diffD [OF that] inv by (auto simp: itab_inv_def)
  have cnt: "snd (snd (xs' ! i)) = int (count (R - {#ip#}) i)" if "i < length xs" for i
    using inv n [OF that] that ip by (auto simp: itab_inv_def of_nat_diff Suc_leI)
  have uni: "i = j" if "i \<in># R - {#ip#}" "j \<in># R - {#ip#}" "fst (xs' ! i) = fst (xs' ! j)" "fst (snd (xs' ! i)) = fst (snd (xs' ! j))" for i j
    using inv that R [OF that(1)] R [OF that(2)] n by (simp add: itab_inv_def)
  have len: "length xs' = length xs" using xs' by simp
  show ?thesis unfolding itab_inv_def len using R cnt uni by blast
qed

lemma iput_ids:
  assumes "iput pid ip st = KRet () st'" "ip < length (itab st)"
  shows "ids st' = (ids st)[ip := (idev (itab st ! ip), inum (itab st ! ip), iref (itab st ! ip) - 1)]"
proof -
  have drop: "ids (upd_inode ip (\<lambda>x. x\<lparr>iref := iref x - 1\<rparr>) s) = (ids st)[ip := (idev (itab st ! ip), inum (itab st ! ip), iref (itab st ! ip) - 1)]"
    if "ids s = ids st" for s
  proof -
    have "length (itab s) = length (itab st)" using that by (metis length_ids)
    then show ?thesis using that assms(2) nth_ids [of ip s] nth_ids [of ip st] by (simp add: ids_upd)
  qed
  show ?thesis
  proof (cases "iref (itab st ! ip) = 1 \<and> ivalid (itab st ! ip) \<and> nlink (itab st ! ip) = 0")
    case False
    then show ?thesis using assms(1) drop by (auto simp: iput_def Let_def)
  next
    case True
    obtain lk where lk: "acquiresleep pid (ilk (itab st ! ip)) = Some lk"
      using assms(1) True by (auto simp: iput_def Let_def split: option.splits)
    obtain s1 s2 where s: "itrunc ip (upd_inode ip (\<lambda>x. x\<lparr>ilk := lk\<rparr>) st) = KRet () s1"
        "iupdate ip (upd_inode ip (\<lambda>x. x\<lparr>itype := 0\<rparr>) s1) = KRet () s2"
        "st' = upd_inode ip (\<lambda>x. x\<lparr>iref := iref x - 1\<rparr>) (upd_inode ip (\<lambda>x. x\<lparr>ivalid := False, ilk := releasesleep (ilk x)\<rparr>) s2)"
      using assms(1) True lk by (auto simp: iput_def Let_def)
    have "ids s1 = ids st" using keepsD [OF keeps_itrunc s(1)] by simp
    moreover have "ids s2 = ids s1" using keepsD [OF keeps_iupdate s(2)] by simp
    ultimately show ?thesis unfolding s(3) by (intro drop) simp
  qed
qed

lemma iget_inv:
  assumes inv: "itab_inv (ids st) R" and g: "iget dv n st = KRet ip st'"
  shows "itab_inv (ids st') (add_mset ip R)"
proof (cases "iget_scan (itab st) 0 None dv n")
  case (Pair h e)
  show ?thesis
  proof (cases h)
    case (Some i)
    have "i < length (itab st)" "0 < iref (itab st ! i)" using iget_scan_hit [of "itab st" 0 None dv n i e] Pair Some by simp_all
    then show ?thesis using itab_inv_more [OF inv] itab_inv_ref(2) [OF inv] g Pair Some by (auto simp: iget_def)
  next
    case None
    then obtain i where i: "e = Some i" using g Pair by (auto simp: iget_def split: option.splits)
    have "i < length (itab st)" "iref (itab st ! i) = 0" "\<forall>x \<in> set (itab st). \<not> (iref x > 0 \<and> idev x = dv \<and> inum x = n)"
      using iget_scan_miss [of "itab st" 0 None dv n e] Pair None i by auto
    then show ?thesis using itab_inv_new [OF inv] g Pair None i by (auto simp: iget_def)
  qed
qed

lemma itable_inv: "itable st R \<Longrightarrow> itab_inv (ids st) R"
proof (induction rule: itable.induct)
  case (it_start st)
  then show ?case by (simp add: itab_inv_def nth_ids)
next
  case (it_get st R dv n ip st')
  then show ?case using iget_inv by blast
next
  case (it_dup st R ip ip' st')
  then show ?case using itab_inv_more by (auto simp: idup_def)
next
  case (it_put st R ip pid st')
  have l: "ip < length (itab st)" using it_put by (auto simp: itab_inv_def)
  then show ?case using itab_inv_less [OF it_put.IH it_put.hyps(2)] iput_ids [OF it_put.hyps(3) l] by (simp add: nth_ids)
qed (erule itab_inv_keeps, rule keeps_rules, assumption)+

text \<open>
  C23. The inode table: in every history of \<open>iget\<close>, \<open>idup\<close>, \<open>iput\<close> and the operations on inodes, the
  reference count of each entry is the number of references handed out and not yet put back, and no
  two entries in use stand for the same inode. So \<open>iget\<close> of an inode in use returns its entry.
\<close>

theorem inode_table_consistent:
  assumes "itable st R"
  shows "(\<forall>i < length (itab st). iref (itab st ! i) = int (count R i))
    \<and> (\<forall>i \<in># R. i < length (itab st) \<and> (\<forall>j \<in># R. idev (itab st ! i) = idev (itab st ! j) \<longrightarrow> inum (itab st ! i) = inum (itab st ! j) \<longrightarrow> i = j))
    \<and> (\<forall>i \<in># R. \<forall>ip st'. iget (idev (itab st ! i)) (inum (itab st ! i)) st = KRet ip st' \<longrightarrow> ip = i)"
proof -
  note inv = itable_inv [OF assms]
  have l: "i < length (itab st)" if "i \<in># R" for i using inv that by (auto simp: itab_inv_def)
  have uni: "i = j" if "i \<in># R" "j \<in># R" "idev (itab st ! i) = idev (itab st ! j)" "inum (itab st ! i) = inum (itab st ! j)" for i j
    using inv that l unfolding itab_inv_def by (simp add: nth_ids)
  have get: "ip = i" if i: "i \<in># R" and g: "iget (idev (itab st ! i)) (inum (itab st ! i)) st = KRet ip st'" for i ip st'
  proof (cases "iget_scan (itab st) 0 None (idev (itab st ! i)) (inum (itab st ! i))")
    case (Pair h e)
    have "0 < iref (itab st ! i)" "itab st ! i \<in> set (itab st)" using itab_inv_ref(2) [OF inv l] i l by auto
    then obtain k where k: "h = Some k" using iget_scan_miss [of "itab st" 0 None] Pair by (cases h) blast+
    then have "k < length (itab st)" "0 < iref (itab st ! k)" "idev (itab st ! k) = idev (itab st ! i)" "inum (itab st ! k) = inum (itab st ! i)"
      using iget_scan_hit [of "itab st" 0 None "idev (itab st ! i)" "inum (itab st ! i)" k e] Pair by simp_all
    then have "i = k" using itab_inv_ref(2) [OF inv] uni [OF i, of k] by simp
    then show ?thesis using Pair k g by (auto simp: iget_def)
  qed
  show ?thesis using itab_inv_ref(1) [OF inv] l uni get by blast
qed

theorem inode_table_consistent_witness:
  "\<exists>st. itable st {#0, 0#} \<and> iref (itab st ! 0) = 2"
proof -
  define x where "x = \<lparr>itype = 0, imajor = 0, iminor = 0, nlink = 0, isize = 0, addrs = replicate 13 0,
              idev = 0, inum = 0, iref = 0, ilk = initsleeplock, ivalid = False\<rparr>"
  define st0 where "st0 = \<lparr>sb = undefined, blk = undefined, bheld = [], flog = undefined, itab = [x, x]\<rparr>"
  define st1 where "st1 = upd_inode 0 (\<lambda>x. x\<lparr>idev := 1, inum := 7, iref := 1, ivalid := False\<rparr>) st0"
  have "itable st0 {#}" by (rule it_start) (simp add: st0_def x_def)
  then have 1: "itable st1 {#0#}"
    by (rule it_get [of st0 "{#}" 1 7 0 st1]) (simp add: iget_def st0_def st1_def x_def)
  then have 2: "itable (upd_inode 0 (\<lambda>x. x\<lparr>iref := iref x + 1\<rparr>) st1) {#0, 0#}"
    by (rule it_dup) (simp_all add: idup_def)
  have "iref (itab (upd_inode 0 (\<lambda>x. x\<lparr>iref := iref x + 1\<rparr>) st1) ! 0) = int (count {#0 :: nat, 0#} 0)"
    using inode_table_consistent [OF 2] by (simp add: st1_def st0_def)
  then show ?thesis using 2 by auto
qed

end
