(* ===== verification/Fsdir.thy ===== *)
theory Fsdir
  imports Fsdata Fsnames
begin

text \<open>
  Directories: a directory file as a list of entries, \<open>dirlookup\<close> as a search of that list, and
  \<open>dirlink\<close> as the addition of an entry.
\<close>

section \<open>Names\<close>

text \<open>A name of at most \<open>DIRSIZ\<close> bytes, as \<open>namecmp\<close> sees it.\<close>

definition cname :: "u8 list \<Rightarrow> u8 list" where
  "cname s = take DIRSIZ (takeWhile (\<lambda>c. c \<noteq> 0) s)"

lemma strncmp_bytes_eq:
  "strncmp_bytes n p q = 0 \<longleftrightarrow> take n (takeWhile (\<lambda>c. c \<noteq> 0) p) = take n (takeWhile (\<lambda>c. c \<noteq> 0) q)"
proof (induction n arbitrary: p q)
  case (Suc n)
  then show ?case by (cases p; cases q) (auto simp: Let_def uint_0_iff word_uint_eq_iff [symmetric])
qed simp

lemma namecmp_eq: "namecmp s t = 0 \<longleftrightarrow> cname s = cname t"
  by (simp add: namecmp_def cname_def strncmp_bytes_eq)

lemma length_make_dirent [simp]: "length (make_dirent name n) = 16"
  by (simp add: make_dirent_def)


section \<open>Entries\<close>

definition dent :: "fsst \<Rightarrow> nat \<Rightarrow> nat \<Rightarrow> u8 list" where
  "dent st dp k = file_bytes st dp (16 * k) 16"

definition dsize :: "fsst \<Rightarrow> nat \<Rightarrow> nat" where
  "dsize st dp = unat (isize (itab st ! dp))"

text \<open>The entry of a name: the first one in use that has it.\<close>

definition matches :: "fsst \<Rightarrow> nat \<Rightarrow> u8 list \<Rightarrow> nat \<Rightarrow> bool" where
  "matches st dp name k \<longleftrightarrow> de_inum (dent st dp k) \<noteq> 0 \<and> cname (de_name (dent st dp k)) = cname name"

definition find_entry :: "fsst \<Rightarrow> nat \<Rightarrow> u8 list \<Rightarrow> nat option" where
  "find_entry st dp name = find (matches st dp name) [0..<dsize st dp div 16]"

definition dir_ok :: "fsst \<Rightarrow> nat \<Rightarrow> bool" where
  "dir_ok st dp \<longleftrightarrow> itype (itab st ! dp) = T_DIR \<and> dsize st dp mod 16 = 0 \<and> dsize st dp \<le> MAXFILEB \<and> range_ok st dp 0 (dsize st dp)"

lemma range_ok_mono: "range_ok st ip lo hi \<Longrightarrow> lo \<le> lo' \<Longrightarrow> hi' \<le> hi \<Longrightarrow> range_ok st ip lo' hi'"
  unfolding range_ok_def by (meson order_trans less_le_trans)

lemma read_dirent_spec:
  assumes ok: "dir_ok st dp" and off: "16 * k < dsize st dp"
  shows "read_dirent msg dp (16 * k) st = KRet (dent st dp k) st"
proof -
  have m: "dsize st dp mod 16 = 0" "dsize st dp \<le> MAXFILEB" using ok by (simp_all add: dir_ok_def)
  then have sz: "16 * k + 16 \<le> dsize st dp" "16 * k + 16 < 2 ^ 32"
    using off mult_div_mod_eq [of 16 "dsize st dp"] by (auto simp: MAXFILEB_def)
  then have u: "unat (of_nat (16 * k) :: u32) = 16 * k" by (simp add: unat_of_nat del: of_nat_mult)
  then have w: "unat (of_nat (16 * k) + 16 :: u32) = 16 * k + 16" using sz(2) by (simp add: unat_word_ariths del: of_nat_mult)
  have rd: "range_ok st dp (16 * k) (min (16 * k + 16) (dsize st dp))"
    by (rule range_ok_mono [of st dp 0 "dsize st dp"]) (use ok in \<open>simp_all add: dir_ok_def\<close>)
  have "readi kcopyout dp 0 (of_nat (16 * k)) 16 (replicate 16 0) st =
      KRet (int (min 16 (dsize st dp - 16 * k)), put_bytes 0 (file_bytes st dp (16 * k) (min 16 (dsize st dp - 16 * k))) (replicate 16 0)) st"
  proof -
    define o1 where "o1 = (of_nat (16 * k) :: u32)"
    have o: "unat o1 = 16 * k" "unat (o1 + 16) = 16 * k + 16" using u w by (simp_all only: o1_def)
    have c: "o1 \<le> isize (itab st ! dp)" "\<not> o1 + 16 < o1" using o off by (simp_all add: dsize_def word_le_nat_alt word_less_nat_alt)
    have r: "range_ok st dp (unat o1) (min (unat o1 + unat (16 :: u32)) (unat (isize (itab st ! dp))))" using rd o by (simp add: dsize_def)
    show ?thesis using dirent_buf.readi_spec [OF r _ c, of "replicate 16 0"] o unfolding o1_def [symmetric] by (simp add: dsize_def)
  qed
  moreover have "min 16 (dsize st dp - 16 * k) = 16" using sz(1) by simp
  moreover have "put_bytes 0 bs (replicate 16 0) = bs" if "length bs = 16" for bs using that by (simp add: put_bytes_def)
  moreover have "length (file_bytes st dp (16 * k) 16) = 16" by (simp add: file_bytes_def)
  ultimately show ?thesis by (simp add: read_dirent_def dent_def del: of_nat_mult)
qed

lemma find_upt_step: "k < n \<Longrightarrow> find P [k..<n] = (if P k then Some k else find P [Suc k..<n])"
  by (simp add: upt_conv_Cons)

lemma dirlookup_loop_spec:
  assumes ok: "dir_ok st dp"
  shows "dirlookup_loop dp name (dsize st dp) (16 * k) st =
    (case find (matches st dp name) [k..<dsize st dp div 16] of
       None \<Rightarrow> KRet None st
     | Some j \<Rightarrow> kbind (iget (idev (itab st ! dp)) (ucast (de_inum (dent st dp j))) st) (\<lambda>ip st1. KRet (Some (ip, 16 * j)) st1))"
proof (induction "dsize st dp div 16 - k" arbitrary: k)
  case 0
  then have "dsize st dp \<le> 16 * k" using ok by (auto simp: dir_ok_def)
  then show ?case using 0 by (simp add: dirlookup_loop.simps)
next
  case (Suc m)
  then have lt: "16 * k < dsize st dp" "k < dsize st dp div 16" by auto
  have IH: "dirlookup_loop dp name (dsize st dp) (16 * k + 16) st =
    (case find (matches st dp name) [Suc k..<dsize st dp div 16] of
       None \<Rightarrow> KRet None st
     | Some j \<Rightarrow> kbind (iget (idev (itab st ! dp)) (ucast (de_inum (dent st dp j))) st) (\<lambda>ip st1. KRet (Some (ip, 16 * j)) st1))"
    using Suc.hyps(1) [of "Suc k"] Suc.hyps(2) by (simp add: add.commute)
  show ?case
    using lt read_dirent_spec [OF ok lt(1), of "''dirlookup read''"] IH
    by (subst dirlookup_loop.simps) (auto simp: find_upt_step matches_def namecmp_eq)
qed

lemma dirlookup_spec:
  assumes "dir_ok st dp"
  shows "dirlookup dp name st =
    (case find_entry st dp name of
       None \<Rightarrow> KRet None st
     | Some j \<Rightarrow> kbind (iget (idev (itab st ! dp)) (ucast (de_inum (dent st dp j))) st) (\<lambda>ip st1. KRet (Some (ip, 16 * j)) st1))"
  using dirlookup_loop_spec [OF assms, of name 0] assms by (simp add: dirlookup_def find_entry_def dir_ok_def dsize_def)








text \<open>The sample file system with an empty directory in entry 0.\<close>

definition sample_dir :: fsst where
  "sample_dir = upd_inode 0 (\<lambda>x. x\<lparr>itype := T_DIR\<rparr>) sample_fs"

lemma sample_dir_facts: "dir_ok sample_dir 0" "ino_ok sample_dir 0" "dsize sample_dir 0 = 0" "wbudget sample_dir 0 = 2"
proof -
  show ok: "ino_ok sample_dir 0" unfolding sample_dir_def by (rule upd_meta_ok [OF sample_ino_ok(1)]) simp_all
  show sz: "dsize sample_dir 0 = 0" by (simp add: dsize_def sample_dir_def sample_fs_def)
  then show "dir_ok sample_dir 0"
    using store_okD(1) [OF ino_okD(1) [OF ok]] by (simp add: dir_ok_def range_ok_def) (simp add: sample_dir_def sample_fs_def)
  have "slot sample_dir 0 NDIRECT = slot sample_fs 0 NDIRECT" "BM sample_dir = BM sample_fs" "flog sample_dir = flog sample_fs"
    using same_sb [of sample_dir sample_fs] upd_meta_slot [of "\<lambda>x. x\<lparr>itype := T_DIR\<rparr>" sample_fs 0 NDIRECT] ino_okD(2) [OF sample_ino_ok(1)]
    by (simp_all add: sample_dir_def)
  then show "wbudget sample_dir 0 = 2" using sample_ino_ok(2) by (simp add: wbudget_def)
qed

text \<open>
  \<open>dirlookup\<close> searches the directory as a list of entries: it finds the first entry in use whose
  name agrees with the given one in the first \<open>DIRSIZ\<close> bytes, and returns a reference to its inode
  and the offset of the entry; when there is none it returns 0 and has changed nothing.
\<close>

theorem dirlookup_finds_first:
  assumes "dir_ok st dp"
  shows "dirlookup dp name st =
    (case find (\<lambda>k. de_inum (dent st dp k) \<noteq> 0 \<and> cname (de_name (dent st dp k)) = cname name) [0..<dsize st dp div 16] of
       None \<Rightarrow> KRet None st
     | Some j \<Rightarrow> kbind (iget (idev (itab st ! dp)) (ucast (de_inum (dent st dp j))) st) (\<lambda>ip st1. KRet (Some (ip, 16 * j)) st1))"
proof -
  have "matches st dp name = (\<lambda>k. de_inum (dent st dp k) \<noteq> 0 \<and> cname (de_name (dent st dp k)) = cname name)"
    by (auto simp: matches_def fun_eq_iff)
  then show ?thesis using dirlookup_spec [OF assms, of name] by (simp only: find_entry_def)
qed

theorem dirlookup_finds_first_witness: "dirlookup 0 [0x61] sample_dir = KRet None sample_dir"
  using dirlookup_finds_first [OF sample_dir_facts(1)] sample_dir_facts(3) by simp



end
