(* ===== verification/Fsdisk.thy ===== *)
theory Fsdisk
  imports Fsblocks
begin
















end
