(* ===== verification/Ftable.thy ===== *)
theory Ftable
  imports File "HOL-Library.Multiset"
begin

text \<open>
  The table of open files: in every history of \<open>filealloc\<close>, \<open>filedup\<close>, \<open>fileclose\<close> and \<open>pipealloc\<close>
  the reference count of an entry is the number of references the kernel holds.
\<close>

section \<open>What keeps the counts\<close>

definition frefs :: "kern \<Rightarrow> int list" where
  "frefs k = map fref (ftab k)"




lemma frefs_simps [simp]:
  "frefs (k\<lparr>ph := a\<rparr>) = frefs k" "frefs (k\<lparr>fs := b\<rparr>) = frefs k" "frefs (k\<lparr>pipes := c\<rparr>) = frefs k" "frefs (k\<lparr>procs := d\<rparr>) = frefs k"
  "frefs (wakeup me c1 k) = frefs k" "frefs (upd_proc p h k) = frefs k"
  by (simp_all add: frefs_def wakeup_def upd_proc_def)

definition keeps_refs :: "kern \<Rightarrow> (kern, 'a) kcall \<Rightarrow> bool" where
  "keeps_refs k m \<longleftrightarrow> (\<forall>r k'. m = KRet r k' \<longrightarrow> frefs k' = frefs k)"

named_theorems refs_rules

lemma keeps_refs_bind [refs_rules]:
  "keeps_refs k m \<Longrightarrow> (\<And>x k'. frefs k' = frefs k \<Longrightarrow> keeps_refs k' (f x k')) \<Longrightarrow> keeps_refs k (kbind m f)"
  unfolding keeps_refs_def kbind_eq_KRet by metis

lemma keeps_refs_basic [refs_rules]:
  "frefs k' = frefs k \<Longrightarrow> keeps_refs k (KRet r k')" "keeps_refs k (KPanic e)" "keeps_refs k (KSleep k')"
  "keeps_refs k (on_fs g k)" "keeps_refs k (on_ph h k)"
  by (auto simp: keeps_refs_def on_fs_def on_ph_def split: kcall.splits outcome.splits prod.splits)

lemma keeps_refs_deref [refs_rules]: "(\<And>x. keeps_refs k (g x)) \<Longrightarrow> keeps_refs k (deref po g)"
  by (cases po) (auto simp: deref_def keeps_refs_def)

lemma keeps_refs_if [refs_rules]: "(b \<Longrightarrow> keeps_refs k m) \<Longrightarrow> (\<not> b \<Longrightarrow> keeps_refs k m') \<Longrightarrow> keeps_refs k (if b then m else m')"
  by auto

lemma keeps_refs_close_pipe [refs_rules]: "keeps_refs k (close_pipe p a w k)"
proof -
  obtain pi1 fin c where c: "pipeclose w (pipes k a) = (pi1, fin, c)" by (cases "pipeclose w (pipes k a)")
  have "frefs (wakeup (Some p) (Ch_pipe a c) (k\<lparr>pipes := (pipes k)(a := pi1)\<rparr>)) = frefs k" by simp
  then show ?thesis
    using keeps_refs_basic(5) [of "wakeup (Some p) (Ch_pipe a c) (k\<lparr>pipes := (pipes k)(a := pi1)\<rparr>)" "\<lambda>s. ret_unit (kfree a s)"]
    by (cases fin) (simp_all add: close_pipe_def c Let_def keeps_refs_def)
qed




section \<open>Histories\<close>











end
