(* ===== verification/Virtio.thy ===== *)
theory Virtio
  imports Kalloc Bio Pool
begin

text \<open>
  \<^verbatim>\<open>kernel/virtio_disk.c\<close>: the driver of the virtio block device. The descriptor table and
  the two rings are lists of \<open>NUM\<close> entries; buffers are named by their index in the cache. A body
  under \<open>vdisk_lock\<close> is atomic; \<open>virtio_disk_rw\<close> has two of them, before and after the wait for
  the device, and calls of \<open>wakeup\<close> are kept in order. The device is the environment: it reads the
  chains in the available ring and writes the used ring and the status bytes. The addresses of
  static objects are fixed by the linker and are arguments.
\<close>

section \<open>State\<close>

abbreviation (input) NUM :: nat where "NUM \<equiv> 8"
abbreviation (input) VRING_DESC_F_NEXT :: u16 where "VRING_DESC_F_NEXT \<equiv> 1"
abbreviation (input) VRING_DESC_F_WRITE :: u16 where "VRING_DESC_F_WRITE \<equiv> 2"

record virtq_desc =
  daddr :: u64
  dlen :: u32
  dflags :: u16
  dnext :: u16

record virtio_blk_req =
  rtype :: u32
  rsector :: u64

datatype vchan = Ch_free | Ch_buf nat

record vdisk =
  vfree :: "bool list"
  desc :: "virtq_desc list"
  avail_idx :: u16
  avail_ring :: "u16 list"
  used_idx :: u16
  dev_idx :: u16
  used_ring :: "u32 list"
  info_b :: "nat option list"
  info_status :: "u8 list"
  ops :: "virtio_blk_req list"
  bdisk :: "nat \<Rightarrow> bool"
  woken :: "vchan list"

record vaddrs =
  a_op :: "nat \<Rightarrow> u64"
  a_data :: "nat \<Rightarrow> u64"
  a_status :: "nat \<Rightarrow> u64"

section \<open>Initialisation\<close>

text \<open>
  The registers \<open>virtio_disk_init\<close> reads; \<open>m_status f s\<close> is what the device shows in the status
  register after the driver wrote the features \<open>f\<close> and the status \<open>s\<close>. The result lists the register
  writes, in order.
\<close>

record vmmio =
  m_magic :: u32
  m_version :: u32
  m_device :: u32
  m_vendor :: u32
  m_features :: u32
  m_status :: "u32 \<Rightarrow> u32 \<Rightarrow> u32"
  m_ready :: u32
  m_num_max :: u32

definition driver_features :: "u32 \<Rightarrow> u32" where
  "driver_features f =
     (let w = ucast f :: u64;
          clear = (\<lambda>n w. w AND NOT (push_bit n 1)) :: nat \<Rightarrow> u64 \<Rightarrow> u64
      in ucast (clear 28 (clear 29 (clear 27 (clear 12 (clear 11 (clear 7 (clear 5 w))))))))"

definition addr_low :: "u64 \<Rightarrow> u32" where
  "addr_low a = ucast a"

definition addr_high :: "u64 \<Rightarrow> u32" where
  "addr_high a = ucast (drop_bit 32 a)"

definition virtio_disk_init :: "vmmio \<Rightarrow> vdisk \<Rightarrow> phys \<Rightarrow> ((nat \<times> u32) list \<times> vdisk \<times> phys) outcome" where
  "virtio_disk_init mm d s =
     (if m_magic mm \<noteq> 0x74726976 \<or> m_version mm \<noteq> 2 \<or> m_device mm \<noteq> 2 \<or> m_vendor mm \<noteq> 0x554d4551
      then Panic ''could not find virtio disk''
      else let f = driver_features (m_features mm); st = m_status mm f 11
           in if st AND 8 = 0 then Panic ''virtio disk FEATURES_OK unset''
              else if m_ready mm \<noteq> 0 then Panic ''virtio disk should not be ready''
              else if m_num_max mm = 0 then Panic ''virtio disk has no queue 0''
              else if m_num_max mm < 8 then Panic ''virtio disk max queue too short''
              else case kalloc s of (dsc, s1) \<Rightarrow> case kalloc s1 of (av, s2) \<Rightarrow> case kalloc s2 of (us, s3) \<Rightarrow>
                if dsc = 0 \<or> av = 0 \<or> us = 0 then Panic ''virtio disk kalloc''
                else let m1 = memset (pmem s3) dsc 0 4096; m2 = memset m1 av 0 4096; m3 = memset m2 us 0 4096;
                         zd = \<lparr>daddr = 0, dlen = 0, dflags = 0, dnext = 0\<rparr>
                     in Ret ([(0x70, 0), (0x70, 1), (0x70, 3), (0x20, f), (0x70, 11), (0x30, 0), (0x38, 8),
                              (0x80, addr_low dsc), (0x84, addr_high dsc), (0x90, addr_low av), (0x94, addr_high av),
                              (0xa0, addr_low us), (0xa4, addr_high us), (0x44, 1), (0x70, st OR 4)],
                             d\<lparr>vfree := replicate NUM True, desc := replicate NUM zd, avail_idx := 0, avail_ring := replicate NUM 0,
                               dev_idx := 0, used_ring := replicate NUM 0\<rparr>,
                             s3\<lparr>pmem := m3\<rparr>))"

section \<open>Descriptors\<close>

fun first_free :: "bool list \<Rightarrow> nat \<Rightarrow> nat option" where
  "first_free [] i = None"
| "first_free (b # bs) i = (if b then Some i else first_free bs (Suc i))"

definition alloc_desc :: "vdisk \<Rightarrow> nat option \<times> vdisk" where
  "alloc_desc d =
     (case first_free (vfree d) 0 of
        Some i \<Rightarrow> (Some i, d\<lparr>vfree := (vfree d)[i := False]\<rparr>)
      | None \<Rightarrow> (None, d))"

definition free_desc :: "nat \<Rightarrow> vdisk \<Rightarrow> vdisk outcome" where
  "free_desc i d =
     (if i \<ge> NUM then Panic ''free_desc 1''
      else if vfree d ! i then Panic ''free_desc 2''
      else Ret (d\<lparr>desc := (desc d)[i := \<lparr>daddr = 0, dlen = 0, dflags = 0, dnext = 0\<rparr>],
                 vfree := (vfree d)[i := True], woken := woken d @ [Ch_free]\<rparr>))"

text \<open>The loop of \<open>free_chain\<close>: each turn frees a descriptor or panics, so \<open>NUM + 1\<close> turns are enough.\<close>

fun free_chain_loop :: "nat \<Rightarrow> nat \<Rightarrow> vdisk \<Rightarrow> vdisk outcome" where
  "free_chain_loop 0 i d = Panic ''free_desc 2''"
| "free_chain_loop (Suc n) i d =
     (let flag = dflags (desc d ! i); nx = dnext (desc d ! i)
      in obind (free_desc i d) (\<lambda>d1.
           if flag AND VRING_DESC_F_NEXT \<noteq> 0 then free_chain_loop n (unat nx) d1 else Ret d1))"

definition free_chain :: "nat \<Rightarrow> vdisk \<Rightarrow> vdisk outcome" where
  "free_chain i d = free_chain_loop (NUM + 1) i d"

fun free_descs :: "nat list \<Rightarrow> vdisk \<Rightarrow> vdisk outcome" where
  "free_descs [] d = Ret d"
| "free_descs (i # is) d = obind (free_desc i d) (free_descs is)"

text \<open>\<open>alloc3_desc\<close>: three descriptors, or none.\<close>

fun alloc_loop :: "nat \<Rightarrow> nat list \<Rightarrow> vdisk \<Rightarrow> (nat list option \<times> vdisk) outcome" where
  "alloc_loop 0 idx d = Ret (Some idx, d)"
| "alloc_loop (Suc n) idx d =
     (case alloc_desc d of
        (Some i, d1) \<Rightarrow> alloc_loop n (idx @ [i]) d1
      | (None, d1) \<Rightarrow> obind (free_descs idx d1) (\<lambda>d2. Ret (None, d2)))"

definition alloc3_desc :: "vdisk \<Rightarrow> (nat list option \<times> vdisk) outcome" where
  "alloc3_desc d = alloc_loop 3 [] d"

section \<open>Requests\<close>

text \<open>Formatting the chain \<open>i0, i1, i2\<close> for buffer \<open>b\<close> and handing it to the device.\<close>

definition submit :: "vaddrs \<Rightarrow> nat \<Rightarrow> u32 \<Rightarrow> bool \<Rightarrow> nat \<Rightarrow> nat \<Rightarrow> nat \<Rightarrow> vdisk \<Rightarrow> vdisk" where
  "submit va b bno write i0 i1 i2 d =
     (let d1 = d\<lparr>ops := (ops d)[i0 := \<lparr>rtype = (if write then 1 else 0), rsector = ucast (bno * 2)\<rparr>]\<rparr>;
          d2 = d1\<lparr>desc := (desc d1)[i0 := \<lparr>daddr = a_op va i0, dlen = 16, dflags = VRING_DESC_F_NEXT, dnext = of_nat i1\<rparr>]\<rparr>;
          d3 = d2\<lparr>desc := (desc d2)[i1 := \<lparr>daddr = a_data va b, dlen = 1024,
                   dflags = (if write then 0 else VRING_DESC_F_WRITE) OR VRING_DESC_F_NEXT, dnext = of_nat i2\<rparr>]\<rparr>;
          d4 = d3\<lparr>info_status := (info_status d3)[i0 := 0xff]\<rparr>;
          d5 = d4\<lparr>desc := (desc d4)[i2 := \<lparr>daddr = a_status va i0, dlen = 1, dflags = VRING_DESC_F_WRITE, dnext = 0\<rparr>]\<rparr>;
          d6 = d5\<lparr>bdisk := (bdisk d5)(b := True), info_b := (info_b d5)[i0 := Some b]\<rparr>
      in d6\<lparr>avail_ring := (avail_ring d6)[unat (avail_idx d6 mod 8) := of_nat i0], avail_idx := avail_idx d6 + 1\<rparr>)"

text \<open>
  \<open>virtio_disk_rw\<close> up to its wait for the device: the first descriptor of the request, or \<open>None\<close>
  when it sleeps for descriptors.
\<close>

definition rw_start :: "vaddrs \<Rightarrow> nat \<Rightarrow> u32 \<Rightarrow> bool \<Rightarrow> vdisk \<Rightarrow> (nat option \<times> vdisk) outcome" where
  "rw_start va b bno write d =
     obind (alloc3_desc d) (\<lambda>(r, d1).
       case r of
         Some [i0, i1, i2] \<Rightarrow> Ret (Some i0, submit va b bno write i0 i1 i2 d1)
       | _ \<Rightarrow> Ret (None, d1))"

text \<open>The rest of \<open>virtio_disk_rw\<close>, when \<open>b->disk\<close> is 0; \<open>None\<close> while it has to wait.\<close>

definition rw_finish :: "nat \<Rightarrow> nat \<Rightarrow> vdisk \<Rightarrow> vdisk option outcome" where
  "rw_finish b i0 d =
     (if bdisk d b then Ret None
      else obind (free_chain i0 (d\<lparr>info_b := (info_b d)[i0 := None]\<rparr>)) (\<lambda>d1. Ret (Some d1)))"

text \<open>The loop of \<open>virtio_disk_intr\<close>, with the number of entries the device has added.\<close>

fun intr_loop :: "nat \<Rightarrow> vdisk \<Rightarrow> vdisk outcome" where
  "intr_loop 0 d = Ret d"
| "intr_loop (Suc n) d =
     (let id = unat (used_ring d ! unat (used_idx d mod 8))
      in if info_status d ! id \<noteq> 0 then Panic ''virtio_disk_intr status''
         else case info_b d ! id of
                None \<Rightarrow> Panic ''kerneltrap''
              | Some b \<Rightarrow> intr_loop n (d\<lparr>bdisk := (bdisk d)(b := False), woken := woken d @ [Ch_buf b], used_idx := used_idx d + 1\<rparr>))"

definition virtio_disk_intr :: "vdisk \<Rightarrow> vdisk outcome" where
  "virtio_disk_intr d = intr_loop (unat (dev_idx d - used_idx d)) d"

end
