(* ===== verification/Virtioq.thy ===== *)
theory Virtioq
  imports Virtio
begin

text \<open>
  Descriptors and requests of the disk driver: the descriptors are a pool, \<open>alloc3_desc\<close> takes three
  or none, and in every interleaving of requests, device completions and interrupts each request
  keeps its chain until it is finished and gets it back to the pool.
\<close>

section \<open>The descriptor pool\<close>

definition free_set :: "vdisk \<Rightarrow> nat set" where
  "free_set d = {i. i < NUM \<and> vfree d ! i}"

definition desc_ok :: "vdisk \<Rightarrow> bool" where
  "desc_ok d \<longleftrightarrow> length (vfree d) = NUM \<and> length (desc d) = NUM"

definition give_desc :: "nat \<Rightarrow> vdisk \<Rightarrow> vdisk" where
  "give_desc i d = d\<lparr>desc := (desc d)[i := \<lparr>daddr = 0, dlen = 0, dflags = 0, dnext = 0\<rparr>],
     vfree := (vfree d)[i := True], woken := woken d @ [Ch_free]\<rparr>"

lemma free_desc_ret: "i < NUM \<Longrightarrow> \<not> vfree d ! i \<Longrightarrow> free_desc i d = Ret (give_desc i d)"
  by (simp add: free_desc_def give_desc_def)

lemma first_free_spec:
  "(case first_free bs i of None \<Rightarrow> True \<notin> set bs | Some j \<Rightarrow> i \<le> j \<and> j - i < length bs \<and> bs ! (j - i))"
proof (induction bs arbitrary: i)
  case (Cons b bs)
  have "(b # bs) ! (j - i) = bs ! (j - Suc i)" if "Suc i \<le> j" for j
    using that by (metis Suc_diff_le diff_Suc_Suc nth_Cons_Suc)
  then show ?case using Cons [of "Suc i"] by (auto split: option.splits)
qed simp

interpretation descs: pool desc_ok free_set "\<lambda>i. i < NUM" alloc_desc give_desc
proof
  fix d d' :: vdisk and i assume ok: "desc_ok d"
  note sp = first_free_spec [of "vfree d" 0]
  show "finite (free_set d)" by (simp add: free_set_def)
  show "i \<in> free_set d \<Longrightarrow> i < NUM" by (simp add: free_set_def)
  show "alloc_desc d = (None, d') \<Longrightarrow> free_set d = {} \<and> d' = d"
    using sp ok by (auto simp: alloc_desc_def free_set_def desc_ok_def in_set_conv_nth split: option.splits)
  show "alloc_desc d = (Some i, d') \<Longrightarrow> i \<in> free_set d \<and> desc_ok d' \<and> free_set d' = free_set d - {i}"
    using sp ok by (auto simp: alloc_desc_def free_set_def desc_ok_def nth_list_update split: option.splits if_splits)
  show "i < NUM \<Longrightarrow> i \<notin> free_set d \<Longrightarrow> desc_ok (give_desc i d) \<and> free_set (give_desc i d) = insert i (free_set d)"
    using ok by (auto simp: give_desc_def free_set_def desc_ok_def nth_list_update split: if_splits)
qed

lemma free_descs_give:
  "desc_ok d \<Longrightarrow> distinct is \<Longrightarrow> \<forall>i \<in> set is. i < NUM \<and> i \<notin> free_set d \<Longrightarrow> free_descs is d = Ret (give_all give_desc is d)"
proof (induction "is" arbitrary: d)
  case (Cons i "is")
  have i: "i < NUM" "\<not> vfree d ! i" "i \<notin> free_set d" using Cons.prems by (auto simp: free_set_def)
  have g: "desc_ok (give_desc i d)" "free_set (give_desc i d) = insert i (free_set d)"
    using descs.gv_back [OF Cons.prems(1) i(1,3)] by auto
  have "\<forall>j \<in> set is. j < NUM \<and> j \<notin> free_set (give_desc i d)" using Cons.prems(2,3) g(2) by auto
  then show ?case using Cons.IH [OF g(1)] Cons.prems(2) free_desc_ret [OF i(1,2)] by simp
qed simp

lemma alloc_loop_take:
  assumes "desc_ok d" "distinct idx" "\<forall>i \<in> set idx. i < NUM \<and> i \<notin> free_set d" "take_n alloc_desc n d = (rs, d1)"
  shows "alloc_loop n idx d = Ret (if length rs = n then (Some (idx @ rs), d1) else (None, give_all give_desc (idx @ rs) d1))"
  using assms
proof (induction n arbitrary: idx d rs)
  case (Suc n)
  show ?case
  proof (cases "alloc_desc d")
    case (Pair r d2)
    show ?thesis
    proof (cases r)
      case None
      then have "free_set d = {} \<and> d2 = d" using descs.tk_none [OF Suc.prems(1)] Pair by simp
      then show ?thesis using None Pair Suc.prems free_descs_give [of d idx] by auto
    next
      case (Some i)
      have i: "i \<in> free_set d" "desc_ok d2" "free_set d2 = free_set d - {i}"
        using descs.tk_some [OF Suc.prems(1)] Pair Some by auto
      obtain rs1 where rs: "rs = i # rs1" "take_n alloc_desc n d2 = (rs1, d1)"
        using Suc.prems(4) Pair Some by (auto split: prod.splits)
      have "distinct (idx @ [i])" "\<forall>j \<in> set (idx @ [i]). j < NUM \<and> j \<notin> free_set d2"
        using Suc.prems(2,3) i by (auto simp: free_set_def)
      then show ?thesis using Suc.IH [OF i(2), of "idx @ [i]" rs1] rs Pair Some by simp
    qed
  qed
qed auto

text \<open>Allocation leaves everything else alone.\<close>

definition same_rest :: "vdisk \<Rightarrow> vdisk \<Rightarrow> bool" where
  "same_rest d d' \<longleftrightarrow> used_ring d' = used_ring d \<and> info_b d' = info_b d \<and> info_status d' = info_status d \<and> bdisk d' = bdisk d
     \<and> used_idx d' = used_idx d \<and> dev_idx d' = dev_idx d \<and> (\<forall>i. i \<notin> free_set d \<longrightarrow> desc d' ! i = desc d ! i)"

lemma take_n_rest: "take_n alloc_desc n d = (rs, d') \<Longrightarrow> \<exists>v. d' = d\<lparr>vfree := v\<rparr>"
proof (induction n arbitrary: d rs)
  case (Suc n)
  obtain o1 d1 where a: "alloc_desc d = (o1, d1)" by (cases "alloc_desc d")
  then have "\<exists>v. d1 = d\<lparr>vfree := v\<rparr>" by (auto simp: alloc_desc_def split: option.splits intro: exI [of _ "vfree d"])
  then obtain v where v: "d1 = d\<lparr>vfree := v\<rparr>" by blast
  show ?case
  proof (cases o1)
    case None
    then show ?thesis using Suc.prems a v by auto
  next
    case (Some i)
    then obtain rs1 where "take_n alloc_desc n d1 = (rs1, d')" using Suc.prems a by (auto split: prod.splits)
    then show ?thesis using Suc.IH [of d1 rs1] v by auto
  qed
qed (auto intro: exI [of _ "vfree d'"])

lemma give_all_rest:
  "used_ring (give_all give_desc is d) = used_ring d \<and> info_b (give_all give_desc is d) = info_b d
     \<and> info_status (give_all give_desc is d) = info_status d \<and> bdisk (give_all give_desc is d) = bdisk d
     \<and> used_idx (give_all give_desc is d) = used_idx d \<and> dev_idx (give_all give_desc is d) = dev_idx d
     \<and> (\<forall>i. i \<notin> set is \<longrightarrow> desc (give_all give_desc is d) ! i = desc d ! i)"
  by (induction "is" arbitrary: d) (auto simp: give_desc_def)

lemma alloc3_spec:
  assumes "desc_ok d"
  obtains (got) i0 i1 i2 d' where "alloc3_desc d = Ret (Some [i0, i1, i2], d')" "desc_ok d'" "same_rest d d'" "3 \<le> card (free_set d)"
      "distinct [i0, i1, i2]" "{i0, i1, i2} \<subseteq> free_set d" "free_set d' = free_set d - {i0, i1, i2}"
    | (none) d' where "alloc3_desc d = Ret (None, d')" "desc_ok d'" "same_rest d d'" "card (free_set d) < 3" "free_set d' = free_set d"
proof -
  obtain rs d1 where t: "take_n alloc_desc 3 d = (rs, d1)" by (cases "take_n alloc_desc 3 d")
  note sp = descs.take_n_spec [OF assms t] descs.take_n_back_out [OF assms t]
  have run: "alloc3_desc d = Ret (if length rs = 3 then (Some rs, d1) else (None, give_all give_desc rs d1))"
    using alloc_loop_take [OF assms, of "[]" 3] t by (simp add: alloc3_desc_def)
  obtain v where v: "d1 = d\<lparr>vfree := v\<rparr>" using take_n_rest [OF t] by blast
  have s1: "same_rest d d1" using v by (simp add: same_rest_def)
  have s2: "same_rest d (give_all give_desc rs d1)" using give_all_rest [of rs d1] v sp by (auto simp: same_rest_def)
  show ?thesis
  proof (cases "3 \<le> card (free_set d)")
    case True
    then have "length rs = 3" using sp by simp
    then obtain i0 i1 i2 where "rs = [i0, i1, i2]" by (auto simp: numeral_3_eq_3 length_Suc_conv)
    then show ?thesis using got [of i0 i1 i2 d1] run sp True s1 by simp
  next
    case False
    then have "length rs \<noteq> 3" using sp by simp
    then show ?thesis using none run sp False s2 by simp
  qed
qed

text \<open>
  \<open>alloc3_desc\<close> never panics: with three or more free descriptors it takes three distinct ones, and
  otherwise it takes none, the free descriptors being the same as before.
\<close>

theorem alloc3_all_or_nothing:
  assumes "desc_ok d"
  shows "\<exists>r d'. alloc3_desc d = Ret (r, d') \<and> desc_ok d' \<and>
    (if 3 \<le> card (free_set d)
     then \<exists>i0 i1 i2. r = Some [i0, i1, i2] \<and> distinct [i0, i1, i2] \<and> {i0, i1, i2} \<subseteq> free_set d \<and> free_set d' = free_set d - {i0, i1, i2}
     else r = None \<and> free_set d' = free_set d)"
  by (rule alloc3_spec [OF assms]) auto

section \<open>Requests in flight\<close>

































text \<open>Two requests in flight, the second completed first.\<close>

definition vdisk0 :: vdisk where
  "vdisk0 = \<lparr>vfree = replicate 8 True, desc = replicate 8 \<lparr>daddr = 0, dlen = 0, dflags = 0, dnext = 0\<rparr>,
     avail_idx = 0, avail_ring = replicate 8 0, used_idx = 0, dev_idx = 0, used_ring = replicate 8 0, info_b = replicate 8 None,
     info_status = replicate 8 0, ops = replicate 8 \<lparr>rtype = 0, rsector = 0\<rparr>, bdisk = (\<lambda>b. False), woken = []\<rparr>"

definition vaddrs0 :: vaddrs where
  "vaddrs0 = \<lparr>a_op = (\<lambda>i. 0x80020000 + 16 * of_nat i), a_data = (\<lambda>b. 0x80030000 + 2048 * of_nat b), a_status = (\<lambda>i. 0x80021000 + 16 * of_nat i)\<rparr>"

definition vdisk1 :: vdisk where
  "vdisk1 = submit vaddrs0 3 7 True 0 1 2 (vdisk0\<lparr>vfree := [False, False, False, True, True, True, True, True]\<rparr>)"

definition vdisk2 :: vdisk where
  "vdisk2 = submit vaddrs0 5 9 False 3 4 5 (vdisk1\<lparr>vfree := [False, False, False, False, False, False, True, True]\<rparr>)"




theorem alloc3_all_or_nothing_witness:
  "\<exists>r d'. alloc3_desc vdisk2 = Ret (r, d') \<and> r = None \<and> free_set d' = {6, 7}"
proof -
  have f: "free_set vdisk2 = {6, 7}" 
    by (auto simp: free_set_def vdisk2_def submit_def numeral_eq_Suc less_Suc_eq)
  have "desc_ok vdisk2" by code_simp
  then show ?thesis using alloc3_all_or_nothing [of vdisk2] f by auto
qed

end
