(* ===== verification/Ulib.thy ===== *)
theory Ulib
  imports Kstring
begin

text \<open>
  \<^verbatim>\<open>user/ulib.c\<close>: the string and memory routines of the user library, over the memory of a
  process. Each function is the loop of the source; a loop that runs until a NUL byte is \<open>None\<close>
  where none follows. Names that \<^verbatim>\<open>kernel/string.c\<close> also uses carry a final \<open>u\<close>. \<open>getline\<close> is with
  the allocator it calls.
\<close>

section \<open>Definitions\<close>

partial_function (option) strcpy_loop :: "mem \<Rightarrow> u64 \<Rightarrow> u64 \<Rightarrow> mem option" where
  "strcpy_loop m s t = (let c = m t; m1 = m(s := c) in if c \<noteq> 0 then strcpy_loop m1 (s + 1) (t + 1) else Some m1)"

definition strcpy :: "mem \<Rightarrow> u64 \<Rightarrow> u64 \<Rightarrow> mem option" where
  "strcpy m s t = strcpy_loop m s t"

partial_function (option) strcmp :: "mem \<Rightarrow> u64 \<Rightarrow> u64 \<Rightarrow> int option" where
  "strcmp m p q = (if m p \<noteq> 0 \<and> m p = m q then strcmp m (p + 1) (q + 1) else Some (uint (m p) - uint (m q)))"

definition strlenu :: "mem \<Rightarrow> u64 \<Rightarrow> nat option" where
  "strlenu m s = strlen_from m s 0"

definition memsetu :: "mem \<Rightarrow> u64 \<Rightarrow> u32 \<Rightarrow> u32 \<Rightarrow> mem" where
  "memsetu m dst c n = memset_loop m dst (ucast c) 0 (unat n)"

partial_function (option) strchr :: "mem \<Rightarrow> u64 \<Rightarrow> u8 \<Rightarrow> u64 option" where
  "strchr m s c = (if m s \<noteq> 0 then if m s = c then Some s else strchr m (s + 1) c else Some 0)"

text \<open>\<open>read(fd, &c, 1)\<close> takes the next byte of the input, and returns less than 1 at its end.\<close>

fun gets_loop :: "nat \<Rightarrow> mem \<Rightarrow> u64 \<Rightarrow> nat \<Rightarrow> u8 list \<Rightarrow> mem \<times> u8 list" where
  "gets_loop 0 m buf i inp = (m(buf + of_nat i := 0), inp)"
| "gets_loop (Suc k) m buf i inp =
     (case inp of
        [] \<Rightarrow> (m(buf + of_nat i := 0), inp)
      | c # inp' \<Rightarrow> let m1 = m(buf + of_nat i := c)
                    in if c = 10 \<or> c = 13 then (m1(buf + of_nat (Suc i) := 0), inp') else gets_loop k m1 buf (Suc i) inp')"

definition gets :: "mem \<Rightarrow> u64 \<Rightarrow> int \<Rightarrow> u8 list \<Rightarrow> mem \<times> u8 list" where
  "gets m buf mx inp = gets_loop (nat (mx - 1)) m buf 0 inp"

partial_function (option) atoi_loop :: "mem \<Rightarrow> u64 \<Rightarrow> u32 \<Rightarrow> u32 option" where
  "atoi_loop m s n = (if 48 \<le> m s \<and> m s \<le> 57 then atoi_loop m (s + 1) (n * 10 + ucast (m s) - 48) else Some n)"

definition atoi :: "mem \<Rightarrow> u64 \<Rightarrow> u32 option" where
  "atoi m s = atoi_loop m s 0"

definition memmoveu :: "mem \<Rightarrow> u64 \<Rightarrow> u64 \<Rightarrow> int \<Rightarrow> mem" where
  "memmoveu m vdst vsrc n =
     (if vsrc > vdst then memmove_up m vdst vsrc (nat n)
      else memmove_down m (vdst + of_int n) (vsrc + of_int n) (nat n))"

definition memcmpu :: "mem \<Rightarrow> u64 \<Rightarrow> u64 \<Rightarrow> u32 \<Rightarrow> int" where
  "memcmpu m s1 s2 n = memcmp_loop m s1 s2 (unat n)"

definition memcpyu :: "mem \<Rightarrow> u64 \<Rightarrow> u64 \<Rightarrow> u32 \<Rightarrow> mem" where
  "memcpyu m dst src n = memmoveu m dst src (sint n)"

text \<open>\<open>fgets\<close>: unlike \<open>gets\<close> it returns \<open>-1\<close> at the end of the input, whatever it has read before. The
  comparison \<open>i+1 < max\<close> is unsigned.\<close>

fun fgets_loop :: "nat \<Rightarrow> mem \<Rightarrow> u64 \<Rightarrow> nat \<Rightarrow> u8 list \<Rightarrow> int \<times> mem \<times> u8 list" where
  "fgets_loop 0 m buf i inp = (int i, m(buf + of_nat i := 0), inp)"
| "fgets_loop (Suc k) m buf i inp =
     (case inp of
        [] \<Rightarrow> (-1, m, inp)
      | c # inp' \<Rightarrow> let m1 = m(buf + of_nat i := c)
                    in if c = 10 \<or> c = 13 then (int (Suc i), m1(buf + of_nat (Suc i) := 0), inp')
                       else fgets_loop k m1 buf (Suc i) inp')"

definition fgets :: "mem \<Rightarrow> u64 \<Rightarrow> u32 \<Rightarrow> u8 list \<Rightarrow> int \<times> mem \<times> u8 list" where
  "fgets m buf mx inp = fgets_loop (unat mx - 1) m buf 0 inp"

section \<open>Closed forms\<close>

lemma memsetu_eq: "memsetu m dst c n = (\<lambda>x. if unat (x - dst) < unat n then ucast c else m x)"
  using memset_eq by (simp add: memsetu_def memset_def)

lemma memmoveu_copies:
  assumes "unat dst + n < 2 ^ 64" "unat src + n < 2 ^ 64"
  shows "memmoveu m dst src (int n) = wr_bytes m dst (rd_bytes m src n)"
proof (rule ext)
  fix x
  show "memmoveu m dst src (int n) x = wr_bytes m dst (rd_bytes m src n) x"
  proof (cases "dst < src")
    case True
    then show ?thesis using memmove_up_apply [of dst n src m x] assms
      by (simp add: memmoveu_def wr_rd_bytes_apply word_less_nat_alt)
  next
    case False
    then show ?thesis using memmove_down_apply [of dst n src m x] assms
      by (simp add: memmoveu_def wr_rd_bytes_apply word_less_nat_alt)
  qed
qed

end
