(* ===== verification/Umalloc.thy ===== *)
theory Umalloc
  imports Ulib "HOL-Library.Monad_Syntax"
begin

text \<open>
  \<^verbatim>\<open>user/umalloc.c\<close>: the allocator of user programs, over the bytes of the process's memory. A
  header of 32 bytes (name, size with the free flag in bit 0, next and previous block) precedes
  each block; the free list runs through the first eight bytes of the free blocks. Loops over the
  lists are \<open>None\<close> on a cyclic list. \<open>sbrk\<close> is the system call: its argument \<open>ok\<close> says whether the
  kernel grants it.
\<close>

section \<open>State and header fields\<close>

datatype fsm_algorithm = FIRST_FIT | BEST_FIT | WORST_FIT

record uheap =
  umem :: mem
  head :: u64
  free_list :: u64
  scribble_enabled :: bool
  current_fsm :: fsm_algorithm
  ubrk :: u64

definition load32 :: "mem \<Rightarrow> u64 \<Rightarrow> u32" where
  "load32 m a = word_of_bytes (rd_bytes m a 4)"

definition store32 :: "mem \<Rightarrow> u64 \<Rightarrow> u32 \<Rightarrow> mem" where
  "store32 m a v = wr_bytes m a (bytes_of 4 v)"

text \<open>The fields of \<open>struct mem_block\<close>: \<open>name[8]\<close> at 0, \<open>size\<close> at 8, \<open>next_block\<close> at 16, \<open>prev_block\<close> at 24.\<close>

definition bsize :: "mem \<Rightarrow> u64 \<Rightarrow> u32" where "bsize m b = load32 m (b + 8)"
definition next_block :: "mem \<Rightarrow> u64 \<Rightarrow> u64" where "next_block m b = load64 m (b + 16)"
definition prev_block :: "mem \<Rightarrow> u64 \<Rightarrow> u64" where "prev_block m b = load64 m (b + 24)"

definition put_size :: "u64 \<Rightarrow> u32 \<Rightarrow> uheap \<Rightarrow> uheap" where
  "put_size b v h = h\<lparr>umem := store32 (umem h) (b + 8) v\<rparr>"
definition put_next :: "u64 \<Rightarrow> u64 \<Rightarrow> uheap \<Rightarrow> uheap" where
  "put_next b v h = h\<lparr>umem := store64 (umem h) (b + 16) v\<rparr>"
definition put_prev :: "u64 \<Rightarrow> u64 \<Rightarrow> uheap \<Rightarrow> uheap" where
  "put_prev b v h = h\<lparr>umem := store64 (umem h) (b + 24) v\<rparr>"

section \<open>Helpers\<close>

definition align_size :: "u32 \<Rightarrow> u32" where
  "align_size n = (n + 15) AND NOT 15"

definition set_used :: "u64 \<Rightarrow> uheap \<Rightarrow> uheap" where
  "set_used b h = put_size b (bsize (umem h) b AND NOT 1) h"

definition set_free :: "u64 \<Rightarrow> uheap \<Rightarrow> uheap" where
  "set_free b h = put_size b (bsize (umem h) b OR 1) h"

definition is_free :: "mem \<Rightarrow> u64 \<Rightarrow> bool" where
  "is_free m b \<longleftrightarrow> bsize m b AND 1 \<noteq> 0"

definition get_size :: "mem \<Rightarrow> u64 \<Rightarrow> u32" where
  "get_size m b = bsize m b AND NOT 1"

definition set_free_next :: "u64 \<Rightarrow> u64 \<Rightarrow> uheap \<Rightarrow> uheap" where
  "set_free_next b nx h = h\<lparr>umem := store64 (umem h) (b + 32) nx\<rparr>"

definition get_free_next :: "mem \<Rightarrow> u64 \<Rightarrow> u64" where
  "get_free_next m b = load64 m (b + 32)"

partial_function (option) last_free :: "mem \<Rightarrow> u64 \<Rightarrow> u64 option" where
  "last_free m cur = (if get_free_next m cur \<noteq> 0 then last_free m (get_free_next m cur) else Some cur)"

definition add_to_free_list :: "u64 \<Rightarrow> uheap \<Rightarrow> uheap option" where
  "add_to_free_list b h =
     (let h1 = set_free_next b 0 h
      in if free_list h1 = 0 then Some (h1\<lparr>free_list := b\<rparr>)
         else if current_fsm h1 = FIRST_FIT then Some ((set_free_next b (free_list h1) h1)\<lparr>free_list := b\<rparr>)
         else do { cur \<leftarrow> last_free (umem h1) (free_list h1); Some (set_free_next cur b h1) })"

partial_function (option) remove_loop :: "u64 \<Rightarrow> u64 \<Rightarrow> u64 \<Rightarrow> uheap \<Rightarrow> uheap option" where
  "remove_loop b prv cur h =
     (if cur \<noteq> 0
      then if cur = b
           then (let nx = get_free_next (umem h) cur;
                     h1 = (if prv \<noteq> 0 then set_free_next prv nx h else h\<lparr>free_list := nx\<rparr>)
                 in Some (set_free_next cur 0 h1))
           else remove_loop b cur (get_free_next (umem h) cur) h
      else Some h)"

definition remove_from_free_list :: "u64 \<Rightarrow> uheap \<Rightarrow> uheap option" where
  "remove_from_free_list b h = remove_loop b 0 (free_list h) h"

section \<open>Coalescing, search, splitting\<close>

text \<open>The next block \<open>q\<close> of \<open>p\<close> becomes part of \<open>p\<close>, whose size field is \<open>v\<close>: the stores that
  \<open>coalesce\<close> does twice and \<open>realloc\<close> once.\<close>

definition join_next :: "u64 \<Rightarrow> u64 \<Rightarrow> u32 \<Rightarrow> uheap \<Rightarrow> uheap" where
  "join_next p q v h =
     (let h1 = put_size p v h;
          h2 = put_next p (next_block (umem h1) q) h1;
          nx = next_block (umem h2) q
      in if nx \<noteq> 0 then put_prev nx p h2 else h2)"

definition absorb :: "u64 \<Rightarrow> u64 \<Rightarrow> uheap \<Rightarrow> uheap" where
  "absorb p q h = join_next p q ((get_size (umem h) p + 32 + get_size (umem h) q) OR 1) h"

text \<open>The two merges of \<open>coalesce\<close>, with the previous and with the next block.\<close>

definition merge_prev :: "u64 \<Rightarrow> uheap \<Rightarrow> (u64 \<times> uheap) option" where
  "merge_prev b h =
     (let prv = prev_block (umem h) b
      in if prv \<noteq> 0 \<and> is_free (umem h) prv
         then do { h1 \<leftarrow> remove_from_free_list prv h; Some (prv, absorb prv b h1) }
         else Some (b, h))"

definition merge_next :: "u64 \<Rightarrow> uheap \<Rightarrow> uheap option" where
  "merge_next b h =
     (let nx = next_block (umem h) b
      in if nx \<noteq> 0 \<and> is_free (umem h) nx
         then do { h1 \<leftarrow> remove_from_free_list nx h; Some (absorb b nx h1) }
         else Some h)"

definition coalesce :: "u64 \<Rightarrow> uheap \<Rightarrow> uheap option" where
  "coalesce b h =
     do { h1 \<leftarrow> remove_from_free_list b h;
          (b2, h2) \<leftarrow> merge_prev b h1;
          h3 \<leftarrow> merge_next b2 h2;
          add_to_free_list b2 h3 }"

partial_function (option) find_loop :: "uheap \<Rightarrow> u32 \<Rightarrow> u64 \<Rightarrow> u64 \<Rightarrow> u64 option" where
  "find_loop h n best cur =
     (if cur \<noteq> 0
      then if get_size (umem h) cur \<ge> n
           then (case current_fsm h of
                   FIRST_FIT \<Rightarrow> Some cur
                 | BEST_FIT \<Rightarrow> find_loop h n (if best = 0 \<or> get_size (umem h) cur < get_size (umem h) best then cur else best)
                     (get_free_next (umem h) cur)
                 | WORST_FIT \<Rightarrow> find_loop h n (if best = 0 \<or> get_size (umem h) cur > get_size (umem h) best then cur else best)
                     (get_free_next (umem h) cur))
           else find_loop h n best (get_free_next (umem h) cur)
      else Some best)"

definition find_free_block :: "u32 \<Rightarrow> uheap \<Rightarrow> u64 option" where
  "find_free_block n h = find_loop h n 0 (free_list h)"

definition split_block :: "u64 \<Rightarrow> u32 \<Rightarrow> uheap \<Rightarrow> uheap option" where
  "split_block b n h =
     (let bsz = get_size (umem h) b
      in if (ucast bsz :: u64) < ucast n + 32 + 16 then Some h
         else let newb = b + 32 + ucast n;
                  h1 = put_size newb ((bsz - n - 32) OR 1) h;
                  h2 = put_prev newb b h1;
                  h3 = put_next newb (next_block (umem h2) b) h2;
                  nx = next_block (umem h3) b;
                  h4 = (if nx \<noteq> 0 then put_prev nx newb h3 else h3);
                  h5 = put_next b newb h4;
                  h6 = put_size b (n AND NOT 1) h5;
                  h7 = set_free newb h6
              in add_to_free_list newb h7)"

section \<open>malloc, free, calloc, realloc\<close>

definition sbrk :: "bool \<Rightarrow> u32 \<Rightarrow> uheap \<Rightarrow> u64 \<times> uheap" where
  "sbrk ok n h = (if ok then (ubrk h, h\<lparr>ubrk := ubrk h + scast n\<rparr>) else (- 1, h))"

text \<open>The size that \<open>malloc\<close> and \<open>realloc\<close> work with.\<close>

definition data_size :: "u32 \<Rightarrow> u32" where
  "data_size n = (let n1 = align_size n in if n1 < 16 then 16 else n1)"

definition scribble :: "u64 \<Rightarrow> u32 \<Rightarrow> uheap \<Rightarrow> uheap" where
  "scribble a n h = (if scribble_enabled h then h\<lparr>umem := memsetu (umem h) a 0xAA n\<rparr> else h)"

partial_function (option) last_block :: "mem \<Rightarrow> u64 \<Rightarrow> u64 option" where
  "last_block m tmp = (if next_block m tmp \<noteq> 0 then last_block m (next_block m tmp) else Some tmp)"

definition append_block :: "u64 \<Rightarrow> uheap \<Rightarrow> uheap option" where
  "append_block newb h =
     (if head h = 0 then Some (h\<lparr>head := newb\<rparr>)
      else do { tmp \<leftarrow> last_block (umem h) (head h); Some (put_prev newb tmp (put_next tmp newb h)) })"

text \<open>Splitting, marking and scribbling the block that is returned.\<close>

definition hand_out :: "u64 \<Rightarrow> u32 \<Rightarrow> uheap \<Rightarrow> (u64 \<times> uheap) option" where
  "hand_out b n h =
     do { h1 \<leftarrow> split_block b n h;
          let h2 = set_used b h1;
          Some (b + 32, scribble (b + 32) (get_size (umem h2) b) h2) }"

definition malloc :: "bool \<Rightarrow> u32 \<Rightarrow> uheap \<Rightarrow> (u64 \<times> uheap) option" where
  "malloc ok sz h =
     (if sz = 0 then Some (0, h)
      else let n = data_size sz
           in do { b \<leftarrow> find_free_block n h;
                   if b \<noteq> 0
                   then do { h1 \<leftarrow> remove_from_free_list b h; hand_out b n h1 }
                   else let total_size = 32 + n; pages = (total_size + 4096 - 1) div 4096; request = pages * 4096
                        in case sbrk ok request h of (newb, h1) \<Rightarrow>
                             if newb = - 1 then Some (0, h1)
                             else let h2 = put_size newb ((request - 32) AND NOT 1) h1;
                                      h3 = put_next newb 0 (put_prev newb 0 h2);
                                      h4 = h3\<lparr>umem := (umem h3)(newb := 0)\<rparr>
                                  in do { h5 \<leftarrow> append_block newb h4; hand_out newb n h5 } })"

definition free :: "u64 \<Rightarrow> uheap \<Rightarrow> uheap option" where
  "free ptr h =
     (if ptr = 0 then Some h
      else let b = ptr - 32
           in do { h1 \<leftarrow> add_to_free_list b (set_free b h); coalesce b h1 })"

definition calloc :: "bool \<Rightarrow> u32 \<Rightarrow> u32 \<Rightarrow> uheap \<Rightarrow> (u64 \<times> uheap) option" where
  "calloc ok nmemb sz h =
     (let total = nmemb * sz
      in do { (p, h1) \<leftarrow> malloc ok total h;
              if p = 0 then Some (0, h1) else Some (p, h1\<lparr>umem := memsetu (umem h1) p 0 total\<rparr>) })"

definition realloc :: "bool \<Rightarrow> u64 \<Rightarrow> u32 \<Rightarrow> uheap \<Rightarrow> (u64 \<times> uheap) option" where
  "realloc ok ptr sz h =
     (if ptr = 0 then malloc ok sz h
      else if sz = 0 then do { h1 \<leftarrow> free ptr h; Some (0, h1) }
      else let n = data_size sz; b = ptr - 32; old = get_size (umem h) b; nx = next_block (umem h) b;
               combined = old + 32 + get_size (umem h) nx
           in if n \<le> old then do { h1 \<leftarrow> split_block b n h; Some (ptr, h1) }
              else if nx \<noteq> 0 \<and> is_free (umem h) nx \<and> combined \<ge> n
              then do { h1 \<leftarrow> remove_from_free_list nx h;
                        h2 \<leftarrow> split_block b n (join_next b nx (combined AND NOT 1) h1);
                        let h3 = set_used b h2;
                        let len = get_size (umem h3) b - old;
                        Some (ptr, if len \<noteq> 0 then scribble (b + 32 + ucast old) len h3 else h3) }
              else do { (newp, h1) \<leftarrow> malloc ok n h;
                        if newp = 0 then Some (0, h1)
                        else do { h2 \<leftarrow> free ptr (h1\<lparr>umem := memmoveu (umem h1) newp ptr (sint old)\<rparr>);
                                  Some (newp, h2) } })"

section \<open>Settings and reports\<close>

definition malloc_scribble :: "int \<Rightarrow> uheap \<Rightarrow> uheap" where
  "malloc_scribble enable h = h\<lparr>scribble_enabled := (enable \<noteq> 0)\<rparr>"

definition malloc_setfsm :: "int \<Rightarrow> uheap \<Rightarrow> uheap" where
  "malloc_setfsm algo h =
     (if algo \<ge> 0 \<and> algo \<le> 2
      then h\<lparr>current_fsm := (if algo = 0 then FIRST_FIT else if algo = 1 then BEST_FIT else WORST_FIT)\<rparr> else h)"

text \<open>The lines \<open>malloc_print\<close> and \<open>malloc_leaks\<close> print, as values, the names left out.\<close>

partial_function (option) print_blocks :: "mem \<Rightarrow> u64 \<Rightarrow> (u64 \<times> u64 \<times> u32 \<times> bool) list option" where
  "print_blocks m b =
     (if b \<noteq> 0
      then do { ls \<leftarrow> print_blocks m (next_block m b);
                Some ((b, b + 32 + ucast (get_size m b), get_size m b, is_free m b) # ls) }
      else Some [])"

partial_function (option) print_free :: "mem \<Rightarrow> u64 \<Rightarrow> u64 list option" where
  "print_free m f = (if f \<noteq> 0 then do { ls \<leftarrow> print_free m (get_free_next m f); Some ((f + 32) # ls) } else Some [])"

definition malloc_print :: "uheap \<Rightarrow> ((u64 \<times> u64 \<times> u32 \<times> bool) list \<times> u64 list) option" where
  "malloc_print h = do { bs \<leftarrow> print_blocks (umem h) (head h); fs \<leftarrow> print_free (umem h) (free_list h); Some (bs, fs) }"

partial_function (option) leaks_loop :: "mem \<Rightarrow> u64 \<Rightarrow> u32 \<Rightarrow> u32 \<Rightarrow> ((u64 \<times> u32) list \<times> u32 \<times> u32) option" where
  "leaks_loop m b blocks bytes =
     (if b \<noteq> 0
      then if \<not> is_free m b
           then do { (ls, n, k) \<leftarrow> leaks_loop m (next_block m b) (blocks + 1) (bytes + get_size m b);
                     Some ((b, get_size m b) # ls, n, k) }
           else leaks_loop m (next_block m b) blocks bytes
      else Some ([], blocks, bytes))"

definition malloc_leaks :: "uheap \<Rightarrow> ((u64 \<times> u32) list \<times> u32 \<times> u32) option" where
  "malloc_leaks h = leaks_loop (umem h) (head h) 0 0"

end
