(* ===== verification/Uheap.thy ===== *)
theory Uheap
  imports Umalloc
begin

text \<open>
  The representation of the heap of \<^verbatim>\<open>user/umalloc.c\<close>: the blocks tile the memory obtained from \<open>sbrk\<close>,
  their headers form a doubly linked list in address order, and the free list is a list of some
  of them. Each helper of the allocator is given its effect on the two lists and the bytes it writes.
\<close>

section \<open>Header fields\<close>

record hdr =
  hsize :: u32
  hnext :: u64
  hprev :: u64
  hfree :: u64

definition hdr_of :: "mem \<Rightarrow> u64 \<Rightarrow> hdr" where
  "hdr_of m b = \<lparr>hsize = bsize m b, hnext = next_block m b, hprev = prev_block m b, hfree = get_free_next m b\<rparr>"

abbreviation H :: "uheap \<Rightarrow> u64 \<Rightarrow> hdr" where
  "H h \<equiv> hdr_of (umem h)"

lemma hdr_fields [simp]:
  "bsize m b = hsize (hdr_of m b)" "next_block m b = hnext (hdr_of m b)" "prev_block m b = hprev (hdr_of m b)"
  "get_free_next m b = hfree (hdr_of m b)"
  by (simp_all add: hdr_of_def)

text \<open>Byte ranges, by addresses as numbers.\<close>

lemma in_range_iff:
  assumes "unat a + n \<le> 2 ^ 64"
  shows "unat (x - a :: u64) < n \<longleftrightarrow> unat a \<le> unat x \<and> unat x < unat a + n"
proof (cases "a \<le> x")
  case True
  then show ?thesis by (auto simp: unat_sub word_le_nat_alt)
next
  case False
  then have "unat (x - a) = 2 ^ 64 + unat x - unat a" by (simp add: unat_sub_if' word_le_nat_alt)
  then show ?thesis using False assms by (simp add: word_le_nat_alt)
qed

lemma offset_nat: "unat a + k < 2 ^ 64 \<Longrightarrow> unat (a + of_nat k :: u64) = unat a + k"
  by (simp add: unat_add_nowrap unat_of_nat64)

lemma load32_cong: "(\<And>x. unat (x - a) < 4 \<Longrightarrow> m x = m' x) \<Longrightarrow> load32 m a = load32 m' a"
  unfolding load32_def by (rule arg_cong [of _ _ word_of_bytes]) (rule rd_bytes_cong, simp_all)

lemma load32_store32 [simp]: "load32 (store32 m a v) a = v"
  by (simp add: load32_def store32_def rd_wr_bytes)

text \<open>A header at \<open>a\<close> and the link behind it do not wrap around, and two of them do not overlap.\<close>

definition spaced :: "u64 set \<Rightarrow> bool" where
  "spaced A \<longleftrightarrow> (\<forall>a \<in> A. unat a + 48 < 2 ^ 64) \<and> (\<forall>a \<in> A. \<forall>b \<in> A. a \<noteq> b \<longrightarrow> unat a + 48 \<le> unat b \<or> unat b + 48 \<le> unat a)"

lemma field_bytes:
  assumes "spaced A" "b \<in> A" "k + n \<le> 48" "unat (x - (b + of_nat k)) < n"
  shows "unat b + k \<le> unat x \<and> unat x < unat b + k + n"
proof -
  have "unat b + 48 < 2 ^ 64" using assms(1,2) by (auto simp: spaced_def)
  then have "unat (b + of_nat k) = unat b + k" using assms(3) by (intro offset_nat) simp
  then show ?thesis using in_range_iff [of "b + of_nat k" n x] assms(3,4) \<open>unat b + 48 < 2 ^ 64\<close> by simp
qed

lemma wr_field_outside:
  assumes "spaced A" "b \<in> A" "k + n \<le> 48" "length bs = n" "\<not> (unat b + k \<le> unat x \<and> unat x < unat b + k + n)"
  shows "wr_bytes m (b + of_nat k) bs x = m x"
  using field_bytes [OF assms(1-3), of x] assms(4,5) by (auto simp: wr_bytes_apply)

text \<open>A field of \<open>b\<close> after a store to the same or another field of \<open>a\<close>.\<close>

lemma rd_field_other:
  assumes "spaced A" "a \<in> A" "b \<in> A" "k + n \<le> 48" "j + l \<le> 48" "length bs = n" "a \<noteq> b \<or> k + n \<le> j \<or> j + l \<le> k"
  shows "rd_bytes (wr_bytes m (a + of_nat k) bs) (b + of_nat j) l = rd_bytes m (b + of_nat j) l"
proof (rule rd_bytes_cong)
  fix x assume "unat (x - (b + of_nat j)) < l"
  then have "unat b + j \<le> unat x \<and> unat x < unat b + j + l" using field_bytes [OF assms(1,3,5)] by blast
  moreover have "a = b \<or> unat a + 48 \<le> unat b \<or> unat b + 48 \<le> unat a" using assms(1-3) by (auto simp: spaced_def)
  ultimately have "\<not> (unat a + k \<le> unat x \<and> unat x < unat a + k + n)" using assms(4,5,7) by auto
  then show "wr_bytes m (a + of_nat k) bs x = m x" by (rule wr_field_outside [OF assms(1,2,4,6)])
qed (use assms in simp)

lemma H_put:
  assumes "spaced A" "a \<in> A" "b \<in> A"
  shows "H (put_size a v32 h) b = (if b = a then (H h a)\<lparr>hsize := v32\<rparr> else H h b)"
    and "H (put_next a v h) b = (if b = a then (H h a)\<lparr>hnext := v\<rparr> else H h b)"
    and "H (put_prev a v h) b = (if b = a then (H h a)\<lparr>hprev := v\<rparr> else H h b)"
    and "H (set_free_next a v h) b = (if b = a then (H h a)\<lparr>hfree := v\<rparr> else H h b)"
  using rd_field_other [OF assms, of 8 4 8 4] rd_field_other [OF assms, of 8 4 16 8] rd_field_other [OF assms, of 8 4 24 8] rd_field_other [OF assms, of 8 4 32 8]
    rd_field_other [OF assms, of 16 8 8 4] rd_field_other [OF assms, of 16 8 16 8] rd_field_other [OF assms, of 16 8 24 8] rd_field_other [OF assms, of 16 8 32 8]
    rd_field_other [OF assms, of 24 8 8 4] rd_field_other [OF assms, of 24 8 16 8] rd_field_other [OF assms, of 24 8 24 8] rd_field_other [OF assms, of 24 8 32 8]
    rd_field_other [OF assms, of 32 8 8 4] rd_field_other [OF assms, of 32 8 16 8] rd_field_other [OF assms, of 32 8 24 8] rd_field_other [OF assms, of 32 8 32 8]
  by (auto simp: hdr_of_def bsize_def next_block_def prev_block_def get_free_next_def put_size_def put_next_def put_prev_def set_free_next_def
      load32_def store32_def load64_def store64_def rd_wr_bytes simp del: hdr_fields)

section \<open>Written bytes\<close>

definition hb :: "u64 \<Rightarrow> u64 set" where
  "hb a = {x. unat a \<le> unat x \<and> unat x < unat a + 32}"

definition lb :: "u64 \<Rightarrow> u64 set" where
  "lb a = {x. unat a + 32 \<le> unat x \<and> unat x < unat a + 40}"

text \<open>Only bytes in \<open>X\<close> are written, and the settings and the break stay.\<close>

definition wrote_in :: "u64 set \<Rightarrow> uheap \<Rightarrow> uheap \<Rightarrow> bool" where
  "wrote_in X h h' \<longleftrightarrow> (\<forall>x. x \<notin> X \<longrightarrow> umem h' x = umem h x) \<and> scribble_enabled h' = scribble_enabled h
     \<and> current_fsm h' = current_fsm h \<and> ubrk h' = ubrk h"

lemma wrote_refl [simp]: "wrote_in X h h"
  by (simp add: wrote_in_def)

lemma wrote_in_trans: "wrote_in X h h1 \<Longrightarrow> wrote_in X h1 h2 \<Longrightarrow> wrote_in X h h2"
  by (simp add: wrote_in_def)

lemma wrote_mono: "wrote_in X h h' \<Longrightarrow> X \<subseteq> Y \<Longrightarrow> wrote_in Y h h'"
  by (auto simp: wrote_in_def)

lemma wrote_field:
  assumes "spaced A" "a \<in> A" "k + n \<le> 48" "length bs = n" "{x. unat a + k \<le> unat x \<and> unat x < unat a + k + n} \<subseteq> X"
  shows "wrote_in X h (h\<lparr>umem := wr_bytes (umem h) (a + of_nat k) bs\<rparr>)"
proof -
  have "wr_bytes (umem h) (a + of_nat k) bs x = umem h x" if "x \<notin> X" for x
    using that assms(5) by (intro wr_field_outside [OF assms(1-4)]) blast
  then show ?thesis by (simp add: wrote_in_def)
qed

lemma wrote_put:
  assumes "spaced A" "a \<in> A"
  shows "hb a \<subseteq> X \<Longrightarrow> wrote_in X h (put_size a v32 h)" "hb a \<subseteq> X \<Longrightarrow> wrote_in X h (put_next a v h)"
    "hb a \<subseteq> X \<Longrightarrow> wrote_in X h (put_prev a v h)" "lb a \<subseteq> X \<Longrightarrow> wrote_in X h (set_free_next a v h)"
proof -
  have "{x. unat a + 8 \<le> unat x \<and> unat x < unat a + 8 + 4} \<subseteq> hb a" "{x. unat a + 16 \<le> unat x \<and> unat x < unat a + 16 + 8} \<subseteq> hb a"
    "{x. unat a + 24 \<le> unat x \<and> unat x < unat a + 24 + 8} \<subseteq> hb a" "{x. unat a + 32 \<le> unat x \<and> unat x < unat a + 32 + 8} \<subseteq> lb a"
    by (auto simp: hb_def lb_def)
  note r = this [THEN order_trans]
  show "hb a \<subseteq> X \<Longrightarrow> wrote_in X h (put_size a v32 h)"
    using wrote_field [OF assms _ _ r(1), of "bytes_of 4 v32"] by (simp add: put_size_def store32_def)
  show "hb a \<subseteq> X \<Longrightarrow> wrote_in X h (put_next a v h)"
    using wrote_field [OF assms _ _ r(2), of "bytes_of 8 v"] by (simp add: put_next_def store64_def)
  show "hb a \<subseteq> X \<Longrightarrow> wrote_in X h (put_prev a v h)"
    using wrote_field [OF assms _ _ r(3), of "bytes_of 8 v"] by (simp add: put_prev_def store64_def)
  show "lb a \<subseteq> X \<Longrightarrow> wrote_in X h (set_free_next a v h)"
    using wrote_field [OF assms _ _ r(4), of "bytes_of 8 v"] by (simp add: set_free_next_def store64_def)
qed

lemma wrote_list [simp]:
  "wrote_in X h (h1\<lparr>free_list := r\<rparr>) = wrote_in X h h1" "wrote_in X h (h1\<lparr>head := r\<rparr>) = wrote_in X h h1"
  by (simp_all add: wrote_in_def)

lemma put_regs [simp]:
  "head (put_size a v32 h) = head h" "free_list (put_size a v32 h) = free_list h"
  "head (put_next a v h) = head h" "free_list (put_next a v h) = free_list h"
  "head (put_prev a v h) = head h" "free_list (put_prev a v h) = free_list h"
  "head (set_free_next a v h) = head h" "free_list (set_free_next a v h) = free_list h" "current_fsm (set_free_next a v h) = current_fsm h"
  by (simp_all add: put_size_def put_next_def put_prev_def set_free_next_def)

section \<open>The two lists\<close>

type_synonym blk = "u64 \<times> nat \<times> bool"

definition enc :: "nat \<Rightarrow> bool \<Rightarrow> u32" where
  "enc n f = of_nat n OR (if f then 1 else 0)"

definition fst_addr :: "blk list \<Rightarrow> u64 \<Rightarrow> u64" where
  "fst_addr bs nx = (case bs of [] \<Rightarrow> nx | b # _ \<Rightarrow> fst b)"

definition lst_addr :: "u64 \<Rightarrow> blk list \<Rightarrow> u64" where
  "lst_addr pv bs = (if bs = [] then pv else fst (List.last bs))"

primrec addrs :: "blk list \<Rightarrow> u64 set" where
  "addrs [] = {}"
| "addrs (b # bs) = insert (fst b) (addrs bs)"

lemma addrs_append [simp]: "addrs (xs @ ys) = addrs xs \<union> addrs ys"
  by (induction xs) auto

lemma addrs_eq: "addrs bs = fst ` set bs"
  by (induction bs) auto

lemma addrsI [intro]: "(a, n, f) \<in> set bs \<Longrightarrow> a \<in> addrs bs"
  by (force simp: addrs_eq)

lemma addrsE: "a \<in> addrs bs \<Longrightarrow> (\<And>n f. (a, n, f) \<in> set bs \<Longrightarrow> thesis) \<Longrightarrow> thesis"
  by (auto simp: addrs_eq)

lemma addrs_tl: "a \<in> addrs (tl bs) \<Longrightarrow> a \<in> addrs bs"
  by (cases bs) auto

fun tiles :: "nat \<Rightarrow> blk list \<Rightarrow> nat \<Rightarrow> bool" where
  "tiles s [] e \<longleftrightarrow> s = e"
| "tiles s ((a, n, f) # bs) e \<longleftrightarrow> unat a = s \<and> 16 \<le> n \<and> n mod 16 = 0 \<and> tiles (s + 32 + n) bs e"

fun seg :: "(u64 \<Rightarrow> hdr) \<Rightarrow> u64 \<Rightarrow> blk list \<Rightarrow> u64 \<Rightarrow> bool" where
  "seg G pv [] nx \<longleftrightarrow> True"
| "seg G pv ((a, n, f) # bs) nx \<longleftrightarrow> hsize (G a) = enc n f \<and> hprev (G a) = pv \<and> hnext (G a) = fst_addr bs nx \<and> seg G a bs nx"

fun fseg :: "(u64 \<Rightarrow> hdr) \<Rightarrow> u64 \<Rightarrow> u64 list \<Rightarrow> u64 \<Rightarrow> bool" where
  "fseg G r [] e \<longleftrightarrow> r = e"
| "fseg G r (p # ps) e \<longleftrightarrow> r = p \<and> p \<noteq> 0 \<and> fseg G (hfree (G p)) ps e"

lemma addr_simps [simp]:
  "fst_addr [] nx = nx" "fst_addr ((a, n, f) # bs) nx = a" "lst_addr pv [] = pv" "lst_addr pv (xs @ [(a, n, f)]) = a"
  by (simp_all add: fst_addr_def lst_addr_def)

lemma fst_addr_mid: "fst_addr (xs @ (a, n, f) # ys) nx = fst_addr (xs @ (a, k, g) # zs) nx'"
  by (cases xs) (simp_all add: fst_addr_def)

lemma lst_addr_Cons [simp]: "lst_addr pv ((a, n, f) # bs) = lst_addr a bs"
  by (simp add: lst_addr_def)

lemma seg_append [simp]: "seg G pv (xs @ ys) nx \<longleftrightarrow> seg G pv xs (fst_addr ys nx) \<and> seg G (lst_addr pv xs) ys nx"
proof (induction xs arbitrary: pv)
  case (Cons b xs)
  obtain a n f where b: "b = (a, n, f)" by (cases b)
  have "fst_addr (xs @ ys) nx = fst_addr xs (fst_addr ys nx)" by (cases xs) (auto simp: fst_addr_def)
  then show ?case using Cons [of a] by (auto simp: b)
qed simp

lemma seg_cong: "(\<And>a. a \<in> addrs bs \<Longrightarrow> hsize (G a) = hsize (G' a) \<and> hnext (G a) = hnext (G' a) \<and> hprev (G a) = hprev (G' a)) \<Longrightarrow>
    seg G pv bs nx = seg G' pv bs nx"
  by (induction bs arbitrary: pv) auto

lemma fseg_append [simp]: "fseg G r (xs @ ys) e \<longleftrightarrow> (\<exists>m. fseg G r xs m \<and> fseg G m ys e)"
  by (induction xs arbitrary: r) auto

lemma fseg_cong: "(\<And>a. a \<in> set ps \<Longrightarrow> hfree (G a) = hfree (G' a)) \<Longrightarrow> fseg G r ps e = fseg G' r ps e"
  by (induction ps arbitrary: r) auto

lemma tiles_append [simp]: "tiles s (xs @ ys) e \<longleftrightarrow> (\<exists>m. tiles s xs m \<and> tiles m ys e)"
  by (induction xs arbitrary: s) auto

lemma tiles_le: "tiles s bs e \<Longrightarrow> s \<le> e"
  by (induction bs arbitrary: s) (auto, fastforce)

lemma tiles_block: "tiles s bs e \<Longrightarrow> (a, n, f) \<in> set bs \<Longrightarrow> s \<le> unat a \<and> unat a + 32 + n \<le> e \<and> 16 \<le> n \<and> n mod 16 = 0"
proof (induction bs arbitrary: s)
  case (Cons b bs)
  then show ?case by (cases b) (fastforce dest: tiles_le)
qed simp

lemma tiles_apart:
  "tiles s bs e \<Longrightarrow> (a, n, f) \<in> set bs \<Longrightarrow> (b, k, g) \<in> set bs \<Longrightarrow>
     (a, n, f) = (b, k, g) \<or> unat a + 32 + n \<le> unat b \<or> unat b + 32 + k \<le> unat a"
proof (induction bs arbitrary: s)
  case (Cons c bs)
  obtain c1 c2 c3 where c: "c = (c1, c2, c3)" by (cases c)
  then have t: "tiles (unat c1 + 32 + c2) bs e" using Cons.prems by auto
  show ?case using Cons.prems(2,3) Cons.IH [OF t] tiles_block [OF t] c by auto
qed simp

lemma tiles_spaced:
  assumes "tiles s bs e" "e < 2 ^ 63"
  shows "spaced (addrs bs)"
  unfolding spaced_def
proof (intro conjI ballI impI)
  fix a assume "a \<in> addrs bs"
  then obtain n f where a: "(a, n, f) \<in> set bs" by (rule addrsE)
  then show "unat a + 48 < 2 ^ 64" using tiles_block [OF assms(1) a] assms(2) by simp
  fix b assume "b \<in> addrs bs" "a \<noteq> b"
  then obtain k g where b: "(b, k, g) \<in> set bs" using addrsE by blast
  show "unat a + 48 \<le> unat b \<or> unat b + 48 \<le> unat a"
    using tiles_apart [OF assms(1) a b] tiles_block [OF assms(1) a] tiles_block [OF assms(1) b] \<open>a \<noteq> b\<close> by auto
qed

lemma tiles_distinct: "tiles s bs e \<Longrightarrow> distinct (map fst bs)"
proof (induction bs arbitrary: s)
  case (Cons c bs)
  obtain c1 c2 c3 where c: "c = (c1, c2, c3)" by (cases c)
  then have t: "tiles (unat c1 + 32 + c2) bs e" "distinct (map fst bs)" using Cons by auto
  have "c1 \<notin> addrs bs" using tiles_block [OF t(1)] by (fastforce elim: addrsE)
  then show ?case using c t(2) by (simp add: addrs_eq)
qed simp

text \<open>
  The heap has the blocks \<open>bs\<close> (address, size, free flag) and the free list \<open>fl\<close>; \<open>s\<close> is where it starts. It
  stays below 2 GB, far above the physical memory of the machine.
\<close>

definition rep :: "uheap \<Rightarrow> nat \<Rightarrow> blk list \<Rightarrow> u64 list \<Rightarrow> bool" where
  "rep h s bs fl \<longleftrightarrow> tiles s bs (unat (ubrk h)) \<and> 0 < s \<and> unat (ubrk h) < 2 ^ 31 \<and> seg (H h) 0 bs 0 \<and> head h = fst_addr bs 0
     \<and> fseg (H h) (free_list h) fl 0 \<and> distinct fl \<and> set fl \<subseteq> addrs bs"

lemma repD:
  assumes "rep h s bs fl"
  shows "tiles s bs (unat (ubrk h))" "0 < s" "unat (ubrk h) < 2 ^ 31" "seg (H h) 0 bs 0" "head h = fst_addr bs 0"
    "fseg (H h) (free_list h) fl 0" "distinct fl" "set fl \<subseteq> addrs bs" "spaced (addrs bs)"
  using assms tiles_spaced [of s bs "unat (ubrk h)"] by (simp_all add: rep_def)

lemma rep_addr:
  assumes "rep h s bs fl" "(a, n, f) \<in> set bs"
  shows "a \<noteq> 0" "n < 2 ^ 31" "even n" "16 \<le> n" "n mod 16 = 0" "unat a + 32 + n \<le> unat (ubrk h)"
proof -
  note t = tiles_block [OF repD(1) [OF assms(1)] assms(2)] repD(2,3) [OF assms(1)]
  then show "n < 2 ^ 31" "16 \<le> n" "n mod 16 = 0" "unat a + 32 + n \<le> unat (ubrk h)" by auto
  show "a \<noteq> 0" using t by auto
  show "even n" using t by presburger
qed

lemma enc_simps:
  assumes "even n"
  shows "enc n f AND NOT 1 = of_nat n" "enc n f AND 1 \<noteq> 0 \<longleftrightarrow> f" "enc n f OR 1 = enc n True" "of_nat n OR 1 = enc n True"
    "of_nat n AND NOT 1 = enc n False"
proof -
  have b: "\<not> bit (of_nat n :: u32) 0" using assms by (simp add: bit_0)
  show "enc n f AND NOT 1 = of_nat n"
    by (rule bit_word_eqI) (use b in \<open>auto simp: enc_def bit_simps intro: gr0I\<close>)
  show "of_nat n AND NOT 1 = enc n False"
    by (rule bit_word_eqI) (use b in \<open>auto simp: enc_def bit_simps intro: gr0I\<close>)
  show "enc n f OR 1 = enc n True" "of_nat n OR 1 = enc n True"
    by (auto simp: enc_def or.assoc)
  have "enc n f AND 1 = (if f then 1 else 0)"
    by (rule bit_word_eqI) (use b in \<open>auto simp: enc_def bit_simps intro: gr0I\<close>)
  then show "enc n f AND 1 \<noteq> 0 \<longleftrightarrow> f" by simp
qed

section \<open>The free list\<close>

lemma rep_fields:
  assumes "rep h s bs fl" "(a, n, f) \<in> set bs"
  shows "get_size (umem h) a = of_nat n" "is_free (umem h) a \<longleftrightarrow> f" "hsize (H h a) = enc n f"
proof -
  have "seg G pv bs nx \<Longrightarrow> hsize (G a) = enc n f" for G pv nx using assms(2)
    by (induction bs arbitrary: pv) auto
  then show *: "hsize (H h a) = enc n f" using repD(4) [OF assms(1)] by blast
  show "get_size (umem h) a = of_nat n" "is_free (umem h) a \<longleftrightarrow> f"
    using * enc_simps [OF rep_addr(3) [OF assms]] by (simp_all add: get_size_def is_free_def)
qed

text \<open>Changes of links only.\<close>

lemma rep_links:
  assumes r: "rep h s bs fl" and g: "\<And>b. b \<in> addrs bs \<Longrightarrow> hsize (H h' b) = hsize (H h b) \<and> hnext (H h' b) = hnext (H h b) \<and> hprev (H h' b) = hprev (H h b)"
    and e: "ubrk h' = ubrk h" "head h' = head h" and f: "fseg (H h') (free_list h') fl' 0" "distinct fl'" "set fl' \<subseteq> addrs bs"
  shows "rep h' s bs fl'"
  using repD [OF r] e f seg_cong [of bs "H h'" "H h" 0 0] g by (simp add: rep_def)

lemma fseg_last:
  "fseg G r (ps @ [p]) e \<longleftrightarrow> fseg G r ps p \<and> p \<noteq> 0 \<and> hfree (G p) = e"
  by auto

lemma last_free_spec: "fseg (hdr_of m) r fl 0 \<Longrightarrow> fl \<noteq> [] \<Longrightarrow> last_free m r = Some (List.last fl)"
proof (induction fl arbitrary: r)
  case (Cons p fl)
  have r: "r = p" "p \<noteq> 0" "fseg (hdr_of m) (hfree (hdr_of m p)) fl 0" using Cons.prems by auto
  show ?case
  proof (cases fl)
    case Nil
    then show ?thesis using r by (simp add: last_free.simps [of m p])
  next
    case (Cons q ps)
    then show ?thesis using Cons.IH [OF r(3)] r by (auto simp: last_free.simps [of m p])
  qed
qed simp

text \<open>Adding a block: at the front for first fit, at the end otherwise.\<close>

lemma add_spec:
  assumes r: "rep h s bs fl" and a: "a \<in> addrs bs" "a \<notin> set fl"
  obtains h' fl' where "add_to_free_list a h = Some h'" "rep h' s bs fl'" "set fl' = insert a (set fl)"
    "wrote_in (\<Union>c \<in> insert a (set fl). lb c) h h'"
proof -
  note D = repD [OF r] note sp = D(9)
  have inb: "c \<in> addrs bs" if "c \<in> set fl" for c using D(8) that by blast
  let ?X = "\<Union>c \<in> insert a (set fl). lb c"
  let ?h1 = "set_free_next a 0 h"
  have an: "a \<noteq> 0" using a rep_addr(1) [OF r] by (blast elim: addrsE)
  have w1: "wrote_in ?X h ?h1" by (rule wrote_put(4) [OF sp a(1)]) auto
  have k1: "H ?h1 b = (if b = a then (H h a)\<lparr>hfree := 0\<rparr> else H h b)" if "b \<in> addrs bs" for b
    using H_put(4) [OF sp a(1) that] .
  have f1: "fseg (H ?h1) (free_list h) fl 0"
  proof (subst fseg_cong [of fl _ "H h"])
    show "hfree (H ?h1 c) = hfree (H h c)" if "c \<in> set fl" for c using k1 [OF inb [OF that]] that a(2) by auto
  qed (rule D(6))
  consider (first) "free_list h = 0 \<or> current_fsm h = FIRST_FIT" | (tail) "free_list h \<noteq> 0" "current_fsm h \<noteq> FIRST_FIT" by blast
  then show ?thesis
  proof cases
    case first
    let ?h2 = "(set_free_next a (free_list h) ?h1)\<lparr>free_list := a\<rparr>"
    have e: "add_to_free_list a h = Some (if free_list h = 0 then ?h1\<lparr>free_list := a\<rparr> else ?h2)"
      using first by (auto simp: add_to_free_list_def Let_def)
    have k2: "H ?h2 b = (if b = a then (H h a)\<lparr>hfree := free_list h\<rparr> else H h b)" if "b \<in> addrs bs" for b
      using H_put(4) [OF sp a(1) that, of _ ?h1] k1 [OF that] k1 [OF a(1)] by simp
    let ?h' = "if free_list h = 0 then ?h1\<lparr>free_list := a\<rparr> else ?h2"
    have k: "H ?h' b = (if b = a then (H h a)\<lparr>hfree := free_list h\<rparr> else H h b)" if "b \<in> addrs bs" for b
      using k1 [OF that] k2 [OF that] by (cases "free_list h = 0") auto
    have fl': "fseg (H ?h') a (a # fl) 0"
    proof -
      have "fseg (H ?h') (free_list h) fl 0 = fseg (H h) (free_list h) fl 0"
        by (rule fseg_cong, subst k [OF inb]) (use a(2) in auto)
      then show ?thesis using D(6) k [OF a(1)] an by (simp split del: if_split)
    qed
    have rp: "rep ?h' s bs (a # fl)"
    proof (rule rep_links [OF r])
      show "fseg (H ?h') (free_list ?h') (a # fl) 0" using fl' by simp
    qed (use k a D(7,8) in \<open>simp_all add: set_free_next_def\<close>)
    have "wrote_in ?X ?h1 ?h2" unfolding wrote_list by (rule wrote_put(4) [OF sp a(1)]) auto
    then have "wrote_in ?X h ?h'" using w1 wrote_in_trans [OF w1] by simp
    then show ?thesis using that [OF e rp] by simp
  next
    case tail
    have ne: "fl \<noteq> []" using D(6) tail(1) by auto
    then obtain ps p where fl: "fl = ps @ [p]" by (metis rev_exhaust)
    then have p: "p \<in> addrs bs" "p \<noteq> a" "p \<notin> set ps" using D(7,8) a by auto
    let ?h2 = "set_free_next p a ?h1"
    have e: "add_to_free_list a h = Some ?h2"
      using tail last_free_spec [OF f1 ne] fl by (simp add: add_to_free_list_def Let_def)
    have k2: "H ?h2 b = (if b = p then (H h p)\<lparr>hfree := a\<rparr> else if b = a then (H h a)\<lparr>hfree := 0\<rparr> else H h b)" if "b \<in> addrs bs" for b
      using H_put(4) [OF sp p(1) that, of a ?h1] k1 [OF that] k1 [OF p(1)] p(2) by simp
    have "fseg (H h) (free_list h) ps p" "p \<noteq> 0" using D(6) fl by auto
    moreover have "fseg (H ?h2) (free_list h) ps p = fseg (H h) (free_list h) ps p"
      by (rule fseg_cong) (use k2 [OF inb] fl p(3) a(2) in auto)
    ultimately have "fseg (H ?h2) (free_list h) (fl @ [a]) 0" using k2 [OF p(1)] k2 [OF a(1)] an p(2) fl by auto
    then have rp: "rep ?h2 s bs (fl @ [a])"
      by (intro rep_links [OF r]) (use k2 a p D(7,8) in \<open>auto simp: set_free_next_def\<close>)
    have "wrote_in ?X ?h1 ?h2" by (rule wrote_put(4) [OF sp p(1)]) (use fl in auto)
    then show ?thesis using that [OF e rp] wrote_in_trans [OF w1] by simp
  qed
qed

text \<open>Removing a block.\<close>

lemma remove_loop_spec:
  "fseg (H h) cur (us @ b # vs) 0 \<Longrightarrow> b \<notin> set us \<Longrightarrow>
     remove_loop b prv cur h = Some (set_free_next b 0
       (let p = (if us = [] then prv else List.last us); nx = hfree (H h b)
        in if p \<noteq> 0 then set_free_next p nx h else h\<lparr>free_list := nx\<rparr>))"
proof (induction us arbitrary: prv cur)
  case Nil
  then show ?case by (subst remove_loop.simps) (simp add: Let_def)
next
  case (Cons u us)
  have "u \<noteq> 0" "u \<noteq> b" "cur = u" "fseg (H h) (hfree (H h u)) (us @ b # vs) 0" using Cons.prems by auto
  then show ?case using Cons.IH [of "hfree (H h u)" u] Cons.prems(2) by (subst remove_loop.simps) (simp add: Let_def)
qed

lemma remove_loop_absent: "fseg (H h) cur fl 0 \<Longrightarrow> b \<notin> set fl \<Longrightarrow> remove_loop b prv cur h = Some h"
  by (induction fl arbitrary: prv cur) (auto simp: remove_loop.simps [of b _ _ h])

lemma remove_spec:
  assumes r: "rep h s bs fl"
  obtains h' where "remove_from_free_list a h = Some h'" "rep h' s bs (remove1 a fl)" "wrote_in (\<Union>c \<in> set fl. lb c) h h'"
proof (cases "a \<in> set fl")
  case False
  then show ?thesis using that [of h] remove_loop_absent [OF repD(6) [OF r]] r by (simp add: remove_from_free_list_def remove1_idem)
next
  case True
  then obtain us vs where fl: "fl = us @ a # vs" "a \<notin> set us" by (meson split_list_first)
  note D = repD [OF r] note sp = D(9)
  have inb: "c \<in> addrs bs" if "c \<in> set fl" for c using D(8) that by blast
  have ab: "a \<in> addrs bs" "a \<notin> set vs" using inb [OF True] D(7) fl by auto
  let ?X = "\<Union>c \<in> set fl. lb c" let ?nx = "hfree (H h a)"
  have run: "remove_from_free_list a h = Some (set_free_next a 0
       (let p = (if us = [] then 0 else List.last us) in if p \<noteq> 0 then set_free_next p ?nx h else h\<lparr>free_list := ?nx\<rparr>))"
    using remove_loop_spec [of h "free_list h" us a vs 0] D(6) fl by (simp add: remove_from_free_list_def Let_def)
  have rm: "remove1 a fl = us @ vs" using fl by (simp add: remove1_append)
  have f: "fseg (H h) (free_list h) us a" "fseg (H h) ?nx vs 0" using D(6) fl by auto
  show ?thesis
  proof (cases us rule: rev_cases)
    case Nil
    let ?h = "set_free_next a 0 (h\<lparr>free_list := ?nx\<rparr>)"
    have k: "H ?h b = (if b = a then (H h a)\<lparr>hfree := 0\<rparr> else H h b)" if "b \<in> addrs bs" for b
      using H_put(4) [OF sp ab(1) that, of 0 "h\<lparr>free_list := ?nx\<rparr>"] by simp
    have "fseg (H ?h) ?nx vs 0 = fseg (H h) ?nx vs 0"
      by (rule fseg_cong) (use k [OF inb] fl ab(2) in auto)
    then have rp: "rep ?h s bs (us @ vs)"
      by (intro rep_links [OF r]) (use k f(2) D(7,8) fl Nil in \<open>simp_all add: set_free_next_def\<close>)
    have "wrote_in ?X (h\<lparr>free_list := ?nx\<rparr>) ?h" by (rule wrote_put(4) [OF sp ab(1)]) (use fl in auto)
    then have "wrote_in ?X h ?h" by (simp add: wrote_in_def)
    then show ?thesis using that [of ?h] run rp rm Nil by simp
  next
    case (snoc ps p)
    have p: "p \<in> addrs bs" "p \<noteq> 0" "p \<noteq> a" "p \<notin> set ps" "p \<notin> set vs" using inb [of p] fl snoc f(1) D(7) by auto
    let ?h1 = "set_free_next p ?nx h" let ?h = "set_free_next a 0 ?h1"
    have k: "H ?h b = (if b = a then (H h a)\<lparr>hfree := 0\<rparr> else if b = p then (H h p)\<lparr>hfree := ?nx\<rparr> else H h b)" if "b \<in> addrs bs" for b
      using H_put(4) [OF sp ab(1) that, of 0 ?h1] H_put(4) [OF sp p(1) that, of ?nx h] H_put(4) [OF sp p(1) ab(1), of ?nx h] p(3) by simp
    have "fseg (H ?h) (free_list h) ps p = fseg (H h) (free_list h) ps p" "fseg (H ?h) ?nx vs 0 = fseg (H h) ?nx vs 0"
      by (rule fseg_cong; use k [OF inb] fl snoc p(4,5) ab(2) in auto)+
    then have "fseg (H ?h) (free_list h) (us @ vs) 0" using f snoc k [OF p(1)] p(2,3) by auto
    then have rp: "rep ?h s bs (us @ vs)"
      by (intro rep_links [OF r]) (use k D(7,8) fl in \<open>auto simp: set_free_next_def\<close>)
    have "wrote_in ?X h ?h1" by (rule wrote_put(4) [OF sp p(1)]) (use fl snoc in auto)
    moreover have "wrote_in ?X ?h1 ?h" by (rule wrote_put(4) [OF sp ab(1)]) (use fl in auto)
    ultimately have "wrote_in ?X h ?h" by (rule wrote_in_trans)
    then show ?thesis using that [of ?h] run rp rm snoc p(2) by simp
  qed
qed

section \<open>The block list\<close>

definition same3 :: "(u64 \<Rightarrow> hdr) \<Rightarrow> (u64 \<Rightarrow> hdr) \<Rightarrow> u64 \<Rightarrow> bool" where
  "same3 G G' a \<longleftrightarrow> hsize (G' a) = hsize (G a) \<and> hnext (G' a) = hnext (G a) \<and> hprev (G' a) = hprev (G a)"

text \<open>Replacing the blocks \<open>m1\<close> in the middle by \<open>m2\<close>, which start at the same address.\<close>

lemma seg_replace:
  assumes "seg G 0 (xs @ m1 @ ys) 0" "\<forall>a \<in> addrs xs. same3 G G' a" "seg G' (lst_addr 0 xs) m2 (fst_addr ys 0)"
    "m1 \<noteq> []" "m2 \<noteq> []" "fst_addr m2 0 = fst_addr m1 0"
    "\<forall>a \<in> addrs (tl ys). same3 G G' a"
    "\<forall>y zs. ys = y # zs \<longrightarrow> hsize (G' (fst y)) = hsize (G (fst y)) \<and> hnext (G' (fst y)) = hnext (G (fst y)) \<and> hprev (G' (fst y)) = lst_addr 0 m2"
  shows "seg G' 0 (xs @ m2 @ ys) 0"
proof -
  have app: "fst_addr (m @ zs) nx = fst_addr m 0" if "m \<noteq> []" for m zs nx using that by (cases m) (auto simp: fst_addr_def)
  have lst: "lst_addr (lst_addr 0 xs) m2 = lst_addr 0 m2" using assms(5) by (simp add: lst_addr_def)
  have "seg G 0 xs (fst_addr m1 0)" using assms(1,4) app by simp
  moreover have "seg G' 0 xs (fst_addr m1 0) = seg G 0 xs (fst_addr m1 0)"
    using assms(2) by (intro seg_cong) (simp add: same3_def)
  ultimately have x: "seg G' 0 xs (fst_addr m2 0)" using assms(6) by simp
  have "seg G' (lst_addr 0 m2) ys 0"
  proof (cases ys)
    case (Cons y zs)
    obtain a n f where y: "y = (a, n, f)" by (cases y)
    have "seg G' a zs 0 = seg G a zs 0" using assms(7) Cons by (intro seg_cong) (simp add: same3_def)
    moreover have "seg G (lst_addr (lst_addr 0 xs) m1) ((a, n, f) # zs) 0" using assms(1) Cons y by simp
    moreover have "hsize (G' a) = hsize (G a) \<and> hnext (G' a) = hnext (G a) \<and> hprev (G' a) = lst_addr 0 m2"
      using assms(8) Cons y by fastforce
    ultimately show ?thesis unfolding Cons y seg.simps by simp
  qed simp
  then show ?thesis using x assms(3,5) app lst by simp
qed

lemma rep_middle:
  assumes r: "rep h s (xs @ m1 @ ys) fl" and t: "tiles s (xs @ m2 @ ys) (unat (ubrk h))" and e: "ubrk h' = ubrk h" "head h' = head h" "free_list h' = free_list h"
    and m: "m1 \<noteq> []" "m2 \<noteq> []" "fst_addr m2 0 = fst_addr m1 0" and k: "seg (H h') (lst_addr 0 xs) m2 (fst_addr ys 0)"
    and g: "\<And>b. b \<in> addrs xs \<union> addrs (tl ys) \<Longrightarrow> H h' b = H h b" "\<And>y zs. ys = y # zs \<Longrightarrow> H h' (fst y) = (H h (fst y))\<lparr>hprev := lst_addr 0 m2\<rparr>"
    and f: "set fl \<subseteq> addrs (xs @ m2 @ ys)" "\<And>b. b \<in> set fl \<Longrightarrow> hfree (H h' b) = hfree (H h b)"
  shows "rep h' s (xs @ m2 @ ys) fl"
proof -
  note D = repD [OF r]
  have "seg (H h') 0 (xs @ m2 @ ys) 0"
    by (rule seg_replace [OF D(4) _ k m]) (use g in \<open>auto simp: same3_def\<close>)
  moreover have "fseg (H h') (free_list h') fl 0" using fseg_cong [of fl "H h'" "H h"] f(2) D(6) e(3) by simp
  moreover have "fst_addr (xs @ m2 @ ys) 0 = fst_addr (xs @ m1 @ ys) 0"
    using m by (cases xs; cases m1; cases m2) (auto simp: fst_addr_def)
  ultimately show ?thesis using D e t f(1) by (simp add: rep_def)
qed

lemma rep_nonzero: "rep h s bs fl \<Longrightarrow> a \<in> addrs bs \<Longrightarrow> a \<noteq> 0"
  by (blast elim: addrsE dest: rep_addr(1))

text \<open>The fields of a block in the middle.\<close>

lemma rep_mid:
  assumes "rep h s (xs @ (a, n, f) # ys) fl"
  shows "hprev (H h a) = lst_addr 0 xs" "hnext (H h a) = fst_addr ys 0" "a \<notin> addrs xs" "a \<notin> addrs ys" "addrs xs \<inter> addrs ys = {}"
    "distinct (map fst ys)" "a \<noteq> 0" "fst_addr ys 0 \<noteq> 0 \<longleftrightarrow> ys \<noteq> []" "lst_addr 0 xs \<noteq> 0 \<longleftrightarrow> xs \<noteq> []"
proof -
  note D = repD [OF assms] note d = tiles_distinct [OF D(1)]
  show "hprev (H h a) = lst_addr 0 xs" "hnext (H h a) = fst_addr ys 0" using D(4) by auto
  show "a \<notin> addrs xs" "a \<notin> addrs ys" "addrs xs \<inter> addrs ys = {}" "distinct (map fst ys)" using d by (auto simp: addrs_eq)
  note nz = rep_nonzero [OF assms]
  show "a \<noteq> 0" using nz by simp
  show "fst_addr ys 0 \<noteq> 0 \<longleftrightarrow> ys \<noteq> []" using nz by (cases ys) (auto simp: fst_addr_def)
  show "lst_addr 0 xs \<noteq> 0 \<longleftrightarrow> xs \<noteq> []" using nz by (cases xs rule: rev_cases) (auto simp: lst_addr_def)
qed

lemma put_regs2 [simp]:
  "ubrk (put_size a v32 h) = ubrk h" "ubrk (put_next a v h) = ubrk h" "ubrk (put_prev a v h) = ubrk h" "ubrk (set_free_next a v h) = ubrk h"
  by (simp_all add: put_size_def put_next_def put_prev_def set_free_next_def)

lemma rep_flag:
  assumes r: "rep h s (xs @ (a, n, f) # ys) fl"
  shows "rep (put_size a (enc n g) h) s (xs @ (a, n, g) # ys) fl" "wrote_in (hb a) h (put_size a (enc n g) h)"
proof -
  note D = repD [OF r] and M = rep_mid [OF r]
  have k: "H (put_size a (enc n g) h) b = (if b = a then (H h a)\<lparr>hsize := enc n g\<rparr> else H h b)" if "b \<in> addrs (xs @ (a, n, f) # ys)" for b
    using H_put(1) [OF D(9) _ that, of a] by simp
  have p: "H (put_size a (enc n g) h) (fst y) = (H h (fst y))\<lparr>hprev := a\<rparr>" if "ys = y # zs" for y zs
    using k [of "fst y"] D(4) M(4) that by (cases y) auto
  have r': "rep h s (xs @ [(a, n, f)] @ ys) fl" using r by simp
  have "rep (put_size a (enc n g) h) s (xs @ [(a, n, g)] @ ys) fl"
  proof (rule rep_middle [OF r'])
    show "tiles s (xs @ [(a, n, g)] @ ys) (unat (ubrk h))" using D(1) by auto
    show "seg (H (put_size a (enc n g) h)) (lst_addr 0 xs) [(a, n, g)] (fst_addr ys 0)" using k [of a] M(1,2) by simp
    show "H (put_size a (enc n g) h) b = H h b" if "b \<in> addrs xs \<union> addrs (tl ys)" for b
      using that k [of b] M(3,4) by (auto dest: addrs_tl)
    show "hfree (H (put_size a (enc n g) h) b) = hfree (H h b)" if "b \<in> set fl" for b using k [of b] D(8) that by auto
  qed (use D(8) p in auto)
  then show "rep (put_size a (enc n g) h) s (xs @ (a, n, g) # ys) fl" by simp
  show "wrote_in (hb a) h (put_size a (enc n g) h)" by (rule wrote_put(1) [OF D(9)]) auto
qed

lemma fst_addr_Cons [simp]: "fst_addr (y # ys) nx = fst y"
  by (simp add: fst_addr_def)

lemma fst_addr_mem: "ys \<noteq> [] \<Longrightarrow> fst_addr ys nx \<in> addrs ys"
  by (cases ys) auto

lemma rep_join:
  fixes g :: bool
  assumes r: "rep h s (xs @ (p, n1, f1) # (q, n2, f2) # ys) fl" and q: "q \<notin> set fl"
  defines "h' \<equiv> join_next p q (enc (n1 + 32 + n2) g) h"
  shows "rep h' s (xs @ (p, n1 + 32 + n2, g) # ys) fl" "wrote_in (\<Union>c \<in> addrs (xs @ (p, n1, f1) # ys). hb c) h h'"
proof -
  let ?bs = "xs @ (p, n1, f1) # (q, n2, f2) # ys" let ?v = "enc (n1 + 32 + n2) g" let ?nx = "fst_addr ys 0"
  note D = repD [OF r] note sp = D(9)
  have r2: "rep h s ((xs @ [(p, n1, f1)]) @ (q, n2, f2) # ys) fl" using r by simp
  note M = rep_mid [OF r] and M2 = rep_mid [OF r2]
  let ?h1 = "put_size p ?v h" let ?h2 = "put_next p ?nx ?h1"
  have pq: "p \<in> addrs ?bs" "q \<in> addrs ?bs" "q \<noteq> p" "addrs ys \<subseteq> addrs ?bs" using M by auto
  have h1q: "H ?h1 q = H h q" "H ?h2 q = H h q"
    using H_put(1,2) [OF sp pq(1,2)] pq(3) by simp_all
  have h': "h' = (if ys \<noteq> [] then put_prev ?nx p ?h2 else ?h2)"
    using M2(2,8) h1q by (simp add: h'_def join_next_def Let_def)
  have k2: "H ?h2 b = (if b = p then (H h p)\<lparr>hsize := ?v, hnext := ?nx\<rparr> else H h b)" if "b \<in> addrs ?bs" for b
    using H_put(2) [OF sp pq(1) that, of ?nx ?h1] H_put(1) [OF sp pq(1) that, of ?v h] H_put(1) [OF sp pq(1) pq(1), of ?v h] by simp
  have nxp: "?nx \<noteq> p" "?nx \<in> addrs ?bs" if "ys \<noteq> []" using fst_addr_mem [OF that, of 0] M(4) by auto
  have k: "H h' b = (if b = p then (H h p)\<lparr>hsize := ?v, hnext := ?nx\<rparr> else if ys \<noteq> [] \<and> b = ?nx then (H h b)\<lparr>hprev := p\<rparr> else H h b)"
    if "b \<in> addrs ?bs" for b
    using k2 [OF that] H_put(3) [OF sp nxp(2) that, of p ?h2] k2 [OF nxp(2)] nxp(1) h' by (cases "ys = []") auto
  have r1: "rep h s (xs @ [(p, n1, f1), (q, n2, f2)] @ ys) fl" using r by simp
  have nxx: "b \<noteq> ?nx" if "b \<in> addrs xs \<union> addrs (tl ys)" "ys \<noteq> []" for b
    using that M2(5,6) fst_addr_mem [of ys 0] by (cases ys) (auto simp: addrs_eq)
  have "rep h' s (xs @ [(p, n1 + 32 + n2, g)] @ ys) fl"
  proof (rule rep_middle [OF r1])
    show "tiles s (xs @ [(p, n1 + 32 + n2, g)] @ ys) (unat (ubrk h))" using D(1) by (auto simp: mod_add_eq [symmetric] add.assoc)
    show "ubrk h' = ubrk h" "head h' = head h" "free_list h' = free_list h" using h' by simp_all
    show "seg (H h') (lst_addr 0 xs) [(p, n1 + 32 + n2, g)] (fst_addr ys 0)" using k [OF pq(1)] M(1) by simp
    show "H h' b = H h b" if b: "b \<in> addrs xs \<union> addrs (tl ys)" for b
    proof -
      have bb: "b \<in> addrs ?bs" "b \<noteq> p" using b M(3,4) by (auto dest: addrs_tl)
      show ?thesis unfolding k [OF bb(1)] using bb(2) nxx [OF b] by auto
    qed
    show "H h' (fst y) = (H h (fst y))\<lparr>hprev := lst_addr 0 [(p, n1 + 32 + n2, g)]\<rparr>" if "ys = y # zs" for y zs
      using that k [of "fst y"] nxp by auto
    show "hfree (H h' b) = hfree (H h b)" if "b \<in> set fl" for b using k [of b] D(8) that by auto
  qed (use D(8) q in auto)
  then show "rep h' s (xs @ (p, n1 + 32 + n2, g) # ys) fl" by simp
  let ?X = "\<Union>c \<in> addrs (xs @ (p, n1, f1) # ys). hb c"
  have X: "hb p \<subseteq> ?X" "ys \<noteq> [] \<Longrightarrow> hb ?nx \<subseteq> ?X" using fst_addr_mem [of ys 0] by auto
  have w: "wrote_in ?X h ?h2" using wrote_put(1,2) [OF sp pq(1) X(1)] by (rule wrote_in_trans)
  show "wrote_in ?X h h'"
  proof (cases "ys = []")
    case False
    have "wrote_in ?X ?h2 (put_prev ?nx p ?h2)" by (rule wrote_put(3) [OF sp nxp(2) X(2)]) (use False in auto)
    then show ?thesis unfolding h' using w wrote_in_trans False by auto
  qed (use w h' in simp)
qed

text \<open>Splitting: the stores before the new block goes to the free list.\<close>

definition cut :: "u64 \<Rightarrow> u64 \<Rightarrow> u32 \<Rightarrow> u32 \<Rightarrow> uheap \<Rightarrow> uheap" where
  "cut b newb n k h =
     (let h1 = put_size newb (k OR 1) h; h2 = put_prev newb b h1; h3 = put_next newb (next_block (umem h2) b) h2;
          nx = next_block (umem h3) b; h4 = (if nx \<noteq> 0 then put_prev nx newb h3 else h3);
          h5 = put_next b newb h4; h6 = put_size b (n AND NOT 1) h5
      in set_free newb h6)"

lemma rep_cut:
  assumes r: "rep h s (xs @ (a, k + 32 + j, f) # ys) fl" and k: "k mod 16 = 0" "16 \<le> k" "16 \<le> j"
    and newb: "unat newb = unat a + 32 + k"
  defines "h' \<equiv> cut a newb (of_nat k) (of_nat j) h" and "bs' \<equiv> xs @ (a, k, False) # (newb, j, True) # ys"
  shows "rep h' s bs' fl" "wrote_in (\<Union>c \<in> addrs bs'. hb c) h h'" "newb \<notin> set fl"
proof -
  note D = repD [OF r] and M = rep_mid [OF r] and R = rep_addr [OF r, of a "k + 32 + j" f]
  let ?nx = "fst_addr ys 0" let ?m2 = "[(a, k, False), (newb, j, True)]"
  have mm: "j mod 16 = 0" "16 \<le> j" "even k" "even j" using R(5) k by (auto, presburger+)
  have t: "tiles s bs' (unat (ubrk h))" unfolding bs'_def using D(1) k mm newb by (auto simp: ac_simps)
  have sp: "spaced (addrs bs')" using tiles_spaced [OF t] D(3) by simp
  have d: "distinct (map fst bs')" using tiles_distinct [OF t] .
  have A: "a \<in> addrs bs'" "newb \<in> addrs bs'" "newb \<noteq> a" "newb \<notin> addrs xs" "newb \<notin> addrs ys" using d by (auto simp: bs'_def addrs_eq)
  show nf: "newb \<notin> set fl" using D(8) A by auto
  have nx: "?nx \<in> addrs bs'" "?nx \<noteq> a" "?nx \<noteq> newb" if "ys \<noteq> []"
    using fst_addr_mem [OF that, of 0] A M(4) by (auto simp: bs'_def)
  let ?s1 = "enc (j) True"
  let ?h1 = "put_size newb ?s1 h" let ?h2 = "put_prev newb a ?h1" let ?h3 = "put_next newb ?nx ?h2"
  let ?h4 = "if ys \<noteq> [] then put_prev ?nx newb ?h3 else ?h3" let ?h5 = "put_next a newb ?h4" let ?h6 = "put_size a (enc k False) ?h5"
  let ?h7 = "put_size newb ?s1 ?h6"
  have k2: "H ?h2 b = (if b = newb then (H h newb)\<lparr>hsize := ?s1, hprev := a\<rparr> else H h b)" if "b \<in> addrs bs'" for b
    using H_put(3) [OF sp A(2) that, of a ?h1] H_put(1) [OF sp A(2) that, of ?s1 h] H_put(1) [OF sp A(2) A(2), of ?s1 h] by simp
  have k3: "H ?h3 b = (if b = newb then (H h newb)\<lparr>hsize := ?s1, hprev := a, hnext := ?nx\<rparr> else H h b)" if "b \<in> addrs bs'" for b
    using H_put(2) [OF sp A(2) that, of ?nx ?h2] k2 [OF that] k2 [OF A(2)] by simp
  have k4: "H ?h4 b = (if b = newb then (H h newb)\<lparr>hsize := ?s1, hprev := a, hnext := ?nx\<rparr>
      else if ys \<noteq> [] \<and> b = ?nx then (H h b)\<lparr>hprev := newb\<rparr> else H h b)" if "b \<in> addrs bs'" for b
    using k3 [OF that] H_put(3) [OF sp nx(1) that, of newb ?h3] k3 [OF nx(1)] nx(3) by (cases "ys = []") auto
  have k6: "H ?h6 b = (if b = newb then (H h newb)\<lparr>hsize := ?s1, hprev := a, hnext := ?nx\<rparr>
      else if ys \<noteq> [] \<and> b = ?nx then (H h b)\<lparr>hprev := newb\<rparr> else if b = a then (H h a)\<lparr>hsize := enc k False, hnext := newb\<rparr> else H h b)"
    if "b \<in> addrs bs'" for b
    using H_put(1) [OF sp A(1) that, of "enc k False" ?h5] H_put(2) [OF sp A(1) that, of newb ?h4] H_put(2) [OF sp A(1) A(1), of newb ?h4]
      k4 [OF that] k4 [OF A(1)] A(3) nx(2) by (cases "b = a") (auto split del: if_split split: if_split_asm)
  have k7: "H ?h7 b = H ?h6 b" if "b \<in> addrs bs'" for b
    unfolding H_put(1) [OF sp A(2) that, of ?s1 ?h6] k6 [OF A(2)] k6 [OF that] by simp
  have e1: "next_block (umem ?h2) a = ?nx" using k2 [OF A(1)] M(2) A(3) by simp
  have e3: "next_block (umem ?h3) a = ?nx" using k3 [OF A(1)] M(2) A(3) by simp
  have e7: "bsize (umem ?h6) newb OR 1 = ?s1" using k6 [OF A(2)] enc_simps(3) [OF mm(4)] by simp
  have h': "h' = ?h7"
    unfolding h'_def cut_def Let_def enc_simps(4,5) [OF mm(4)] enc_simps(5) [OF mm(3)] set_free_def e1 e3 M(8) e7 ..
  have r': "rep h s (xs @ [(a, k + 32 + j, f)] @ ys) fl" using r by simp
  have nxx: "b \<noteq> ?nx" if "b \<in> addrs xs \<union> addrs (tl ys)" "ys \<noteq> []" for b
    using that M(5,6) fst_addr_mem [of ys 0] by (cases ys) (auto simp: addrs_eq)
  have K: "H h' b = H ?h6 b" if "b \<in> addrs bs'" for b using h' k7 [OF that] by simp
  have "rep h' s (xs @ ?m2 @ ys) fl"
  proof (rule rep_middle [OF r'])
    show "tiles s (xs @ ?m2 @ ys) (unat (ubrk h))" using t by (simp add: bs'_def)
    show "ubrk h' = ubrk h" "head h' = head h" "free_list h' = free_list h" using h' by (simp_all split: if_splits)
    show "seg (H h') (lst_addr 0 xs) ?m2 (fst_addr ys 0)" using K [OF A(1)] K [OF A(2)] k6 [OF A(1)] k6 [OF A(2)] M(1) A(3) nx(2) by auto
    show "H h' b = H h b" if b: "b \<in> addrs xs \<union> addrs (tl ys)" for b
    proof -
      have bb: "b \<in> addrs bs'" "b \<noteq> a" "b \<noteq> newb" using b M(3,4) A(4,5) by (auto simp: bs'_def dest: addrs_tl)
      show ?thesis unfolding K [OF bb(1)] k6 [OF bb(1)] using bb nxx [OF b] by auto
    qed
    show "H h' (fst y) = (H h (fst y))\<lparr>hprev := lst_addr 0 ?m2\<rparr>" if y: "ys = y # zs" for y zs
    proof -
      have bb: "fst y \<in> addrs bs'" "fst y \<noteq> newb" using y nx by (auto simp: bs'_def)
      show ?thesis unfolding K [OF bb(1)] k6 [OF bb(1)] using bb y by (simp add: lst_addr_def)
    qed
    show "hfree (H h' b) = hfree (H h b)" if b: "b \<in> set fl" for b
    proof -
      have bb: "b \<in> addrs bs'" using b D(8) by (auto simp: bs'_def)
      show ?thesis unfolding K [OF bb] k6 [OF bb] using nf b by auto
    qed
  qed (use D(8) in auto)
  then show "rep h' s bs' fl" by (simp add: bs'_def)
  let ?X = "\<Union>c \<in> addrs bs'. hb c"
  have X: "hb a \<subseteq> ?X" "hb newb \<subseteq> ?X" "ys \<noteq> [] \<Longrightarrow> hb ?nx \<subseteq> ?X" using A(1,2) nx(1) by auto
  note Wa = wrote_put(1-3) [OF sp A(1) X(1)] and Wn = wrote_put(1-3) [OF sp A(2) X(2)]
  have w3: "wrote_in ?X h ?h3" using wrote_in_trans [OF Wn(1) wrote_in_trans [OF Wn(3) Wn(2)]] .
  have w4: "wrote_in ?X h ?h4"
  proof (cases "ys = []")
    case False
    have "wrote_in ?X ?h3 (put_prev ?nx newb ?h3)" by (rule wrote_put(3) [OF sp nx(1) X(3)]) (use False in auto)
    then show ?thesis using w3 wrote_in_trans False by auto
  qed (use w3 in simp)
  show "wrote_in ?X h h'" unfolding h'
    using wrote_in_trans [OF w4 wrote_in_trans [OF Wa(2) wrote_in_trans [OF Wa(1) Wn(1)]]] .
qed

end
