(* ===== verification/Ualloc.thy ===== *)
theory Ualloc
  imports Uheap
begin

text \<open>
  \<open>malloc\<close>, \<open>free\<close> and \<open>realloc\<close> of \<^verbatim>\<open>user/umalloc.c\<close>: the search policies, and the contract of an
  allocator over the blocks in use, which the code is shown to meet.
\<close>

section \<open>Searching\<close>

definition policy :: "fsm_algorithm \<Rightarrow> (u64 \<Rightarrow> u32) \<Rightarrow> u32 \<Rightarrow> u64 list \<Rightarrow> u64 \<Rightarrow> bool" where
  "policy fsm sz n ps b \<longleftrightarrow>
     (case fsm of FIRST_FIT \<Rightarrow> \<exists>us vs. ps = us @ b # vs \<and> (\<forall>p \<in> set us. sz p < n)
      | BEST_FIT \<Rightarrow> \<forall>p \<in> set ps. n \<le> sz p \<longrightarrow> sz b \<le> sz p
      | WORST_FIT \<Rightarrow> \<forall>p \<in> set ps. sz p \<le> sz b)"

lemma find_loop_first:
  assumes "current_fsm h = FIRST_FIT" "fseg (H h) cur fl 0"
  shows "\<exists>b. find_loop h n 0 cur = Some b \<and> (if b = 0 then \<forall>p \<in> set fl. get_size (umem h) p < n
      else b \<in> set fl \<and> n \<le> get_size (umem h) b \<and> policy FIRST_FIT (get_size (umem h)) n fl b)"
  using assms(2)
proof (induction fl arbitrary: cur)
  case Nil
  then show ?case by (simp add: find_loop.simps [of h n 0])
next
  case (Cons p fl)
  then have p: "cur = p" "p \<noteq> 0" "fseg (H h) (hfree (H h p)) fl 0" by auto
  obtain b where b: "find_loop h n 0 (hfree (H h p)) = Some b" "if b = 0 then \<forall>p \<in> set fl. get_size (umem h) p < n
      else b \<in> set fl \<and> n \<le> get_size (umem h) b \<and> policy FIRST_FIT (get_size (umem h)) n fl b"
    using Cons.IH [OF p(3)] by blast
  show ?case
  proof (cases "n \<le> get_size (umem h) p")
    case True
    then have "find_loop h n 0 cur = Some p" using p assms(1) by (subst find_loop.simps) simp
    moreover have "policy FIRST_FIT (get_size (umem h)) n (p # fl) p" by (auto simp: policy_def intro: exI [of _ "[]"])
    ultimately show ?thesis using True p by (intro exI [of _ p]) simp
  next
    case False
    then have e: "find_loop h n 0 cur = Some b" using p b(1) by (subst find_loop.simps) simp
    have "policy FIRST_FIT (get_size (umem h)) n (p # fl) b" if pol: "policy FIRST_FIT (get_size (umem h)) n fl b"
    proof -
      obtain us vs where "fl = us @ b # vs" "\<forall>q \<in> set us. get_size (umem h) q < n" using pol by (auto simp: policy_def)
      then have "p # fl = (p # us) @ b # vs \<and> (\<forall>q \<in> set (p # us). get_size (umem h) q < n)" using False by auto
      then show ?thesis unfolding policy_def fsm_algorithm.case by blast
    qed
    then show ?thesis using e b(2) False by (auto split: if_splits)
  qed
qed

lemma find_loop_other:
  assumes "current_fsm h \<noteq> FIRST_FIT" "fseg (H h) cur fl 0" "best = 0 \<or> n \<le> get_size (umem h) best"
  shows "\<exists>b. find_loop h n best cur = Some b \<and> (if b = 0 then best = 0 \<and> (\<forall>p \<in> set fl. get_size (umem h) p < n)
      else (b = best \<or> b \<in> set fl) \<and> n \<le> get_size (umem h) b
        \<and> policy (current_fsm h) (get_size (umem h)) n (if best = 0 then fl else best # fl) b)"
  using assms(2,3)
proof (induction fl arbitrary: cur best)
  case Nil
  then show ?case using assms(1) by (cases "current_fsm h") (auto simp: find_loop.simps [of h n best] policy_def)
next
  case (Cons p fl)
  then have p: "cur = p" "p \<noteq> 0" "fseg (H h) (hfree (H h p)) fl 0" by auto
  let ?sz = "get_size (umem h)"
  define bst where "bst = (if n \<le> ?sz p \<and> (best = 0 \<or> (if current_fsm h = BEST_FIT then ?sz p < ?sz best else ?sz p > ?sz best)) then p else best)"
  have step: "find_loop h n best cur = find_loop h n bst (hfree (H h p))"
    using p assms(1) by (subst find_loop.simps) (cases "current_fsm h"; auto simp: bst_def)
  have "bst = 0 \<or> n \<le> ?sz bst" using Cons.prems(2) by (auto simp: bst_def)
  then obtain b where b: "find_loop h n bst (hfree (H h p)) = Some b" "if b = 0 then bst = 0 \<and> (\<forall>p \<in> set fl. ?sz p < n)
      else (b = bst \<or> b \<in> set fl) \<and> n \<le> ?sz b \<and> policy (current_fsm h) ?sz n (if bst = 0 then fl else bst # fl) b"
    using Cons.IH [OF p(3)] by blast
  show ?case
  proof (cases "b = 0")
    case True
    then show ?thesis using b step p by (auto simp: bst_def split: if_splits)
  next
    case False
    have "policy (current_fsm h) ?sz n (if best = 0 then p # fl else best # p # fl) b"
      using b(2) False assms(1) p(2) Cons.prems(2) by (cases "current_fsm h") (auto simp: policy_def bst_def split: if_splits)
    then show ?thesis using b step False by (auto simp: bst_def split: if_splits)
  qed
qed

lemma find_spec:
  assumes "rep h s bs fl"
  obtains b where "find_free_block n h = Some b"
    "if b = 0 then \<forall>p \<in> set fl. get_size (umem h) p < n
     else b \<in> set fl \<and> n \<le> get_size (umem h) b \<and> policy (current_fsm h) (get_size (umem h)) n fl b"
  using find_loop_first [OF _ repD(6) [OF assms], of n] find_loop_other [OF _ repD(6) [OF assms], of 0 n] that
  by (cases "current_fsm h = FIRST_FIT") (auto simp: find_free_block_def split: if_splits)

section \<open>Splitting and growing\<close>

lemma split_block_cut:
  "split_block b n h = (let k = get_size (umem h) b in if (ucast k :: u64) < ucast n + 32 + 16 then Some h
     else add_to_free_list (b + 32 + ucast n) (cut b (b + 32 + ucast n) n (k - n - 32) h))"
  by (simp add: split_block_def cut_def Let_def)

lemma unat_ucast_of_nat: "k < 2 ^ 32 \<Longrightarrow> unat (ucast (of_nat k :: u32) :: u64) = k"
  by (simp add: unat_of_nat)

definition hbs :: "blk list \<Rightarrow> u64 set" where
  "hbs bs = (\<Union>c \<in> addrs bs. hb c)"

definition lbs :: "u64 list \<Rightarrow> u64 set" where
  "lbs fl = (\<Union>c \<in> set fl. lb c)"

lemma split_spec:
  assumes r: "rep h s (xs @ (a, n, f) # ys) fl" and k: "k mod 16 = 0" "16 \<le> k" "k \<le> n"
  obtains (whole) "n < k + 48" "split_block a (of_nat k) h = Some h"
    | (parts) h' fl' c where "k + 48 \<le> n" "split_block a (of_nat k) h = Some h'" "unat c = unat a + 32 + k"
        "rep h' s (xs @ (a, k, False) # (c, n - k - 32, True) # ys) fl'" "set fl' = insert c (set fl)" "c \<notin> set fl"
        "wrote_in (hbs (xs @ (a, k, False) # (c, n - k - 32, True) # ys) \<union> lbs (c # fl)) h h'"
proof -
  note R = rep_addr [OF r, of a n f] note F = rep_fields [OF r, of a n f]
  have b: "n < 2 ^ 31" "unat a + 32 + n \<le> unat (ubrk h)" "unat (ubrk h) < 2 ^ 31" using R repD(3) [OF r] by auto
  have u: "unat (ucast (of_nat n :: u32) :: u64) = n" "unat (ucast (of_nat k :: u32) :: u64) = k" using b k unat_ucast_of_nat by auto
  have "unat (ucast (of_nat k :: u32) + 32 + 16 :: u64) = k + 48"
    using u(2) b k unat_add_nowrap [of "ucast (of_nat k :: u32)" 48] by (simp add: add.assoc)
  then have lt: "(ucast (of_nat n :: u32) :: u64) < ucast (of_nat k :: u32) + 32 + 16 \<longleftrightarrow> n < k + 48"
    using u(1) by (simp only: word_less_nat_alt)
  show ?thesis
  proof (cases "n < k + 48")
    case True
    then show ?thesis using whole F(1) lt by (simp add: split_block_cut Let_def)
  next
    case False
    define j where "j = n - k - 32"
    then have j: "n = k + 32 + j" "16 \<le> j" "n - k - 32 = j" using False by auto
    let ?c = "a + 32 + ucast (of_nat k :: u32) :: u64" let ?bs = "xs @ (a, k, False) # (?c, j, True) # ys"
    have "unat (a + 32) = unat a + 32" using b unat_add_nowrap [of a 32] by simp
    then have c: "unat ?c = unat a + 32 + k" using u(2) b k unat_add_nowrap [of "a + 32" "ucast (of_nat k :: u32)"] by simp
    have jw: "(of_nat n - of_nat k - 32 :: u32) = of_nat j" using j(1) by simp
    have run: "split_block a (of_nat k) h = add_to_free_list ?c (cut a ?c (of_nat k) (of_nat j) h)"
      using F(1) lt False jw by (simp add: split_block_cut Let_def)
    note C = rep_cut [OF r [unfolded j(1)] k(1,2) j(2) c]
    have cin: "?c \<in> addrs ?bs" by simp
    obtain h' fl' where A: "add_to_free_list ?c (cut a ?c (of_nat k) (of_nat j) h) = Some h'" "rep h' s ?bs fl'" "set fl' = insert ?c (set fl)"
        "wrote_in (\<Union>c \<in> insert ?c (set fl). lb c) (cut a ?c (of_nat k) (of_nat j) h) h'"
      by (rule add_spec [OF C(1) cin C(3)])
    have "wrote_in (hbs ?bs \<union> lbs (?c # fl)) h h'"
      by (rule wrote_in_trans [OF wrote_mono [OF C(2)] wrote_mono [OF A(4)]]) (auto simp: hbs_def lbs_def)
    then show ?thesis using parts [of h' ?c fl'] False run A c C(3) j(3) by simp
  qed
qed

lemma last_block_spec: "seg (hdr_of m) pv bs 0 \<Longrightarrow> bs \<noteq> [] \<Longrightarrow> 0 \<notin> addrs bs \<Longrightarrow> last_block m (fst_addr bs 0) = Some (lst_addr 0 bs)"
proof (induction bs arbitrary: pv)
  case (Cons b bs)
  obtain a n f where b: "b = (a, n, f)" by (cases b)
  show ?case
  proof (cases "bs = []")
    case True
    then show ?thesis using Cons.prems b by (subst last_block.simps) (simp add: lst_addr_def)
  next
    case False
    then have "fst_addr bs 0 \<noteq> 0" using Cons.prems(3) fst_addr_mem [OF False, of 0] by auto
    then show ?thesis using Cons.IH [of a] Cons.prems b False by (subst last_block.simps) (simp add: lst_addr_def)
  qed
qed simp

lemma H_name:
  assumes "spaced A" "a \<in> A" "b \<in> A"
  shows "hdr_of (m(a := 0)) b = hdr_of m b"
proof -
  have "m(a := 0) = wr_bytes m (a + of_nat 0) [0]" by (auto simp: wr_bytes_def unat_eq_zero)
  then show ?thesis
    using rd_field_other [OF assms, of 0 1 8 4 "[0]"] rd_field_other [OF assms, of 0 1 16 8 "[0]"] rd_field_other [OF assms, of 0 1 24 8 "[0]"]
      rd_field_other [OF assms, of 0 1 32 8 "[0]"]
    by (simp add: hdr_of_def bsize_def next_block_def prev_block_def get_free_next_def load32_def load64_def del: hdr_fields)
qed

definition new_block :: "u64 \<Rightarrow> u32 \<Rightarrow> uheap \<Rightarrow> uheap" where
  "new_block newb v h = (let h3 = put_next newb 0 (put_prev newb 0 (put_size newb v h)) in h3\<lparr>umem := (umem h3)(newb := 0)\<rparr>)"

lemma new_block_spec:
  assumes "spaced A" "a \<in> A"
  shows "b \<in> A \<Longrightarrow> H (new_block a v h) b = (if b = a then (H h a)\<lparr>hsize := v, hprev := 0, hnext := 0\<rparr> else H h b)"
    "wrote_in (hb a) h (new_block a v h)" "head (new_block a v h) = head h" "free_list (new_block a v h) = free_list h"
proof -
  let ?h1 = "put_size a v h" let ?h2 = "put_prev a 0 ?h1" let ?h3 = "put_next a 0 ?h2"
  have n: "new_block a v h = ?h3\<lparr>umem := (umem ?h3)(a := 0)\<rparr>" by (simp add: new_block_def Let_def)
  show "H (new_block a v h) b = (if b = a then (H h a)\<lparr>hsize := v, hprev := 0, hnext := 0\<rparr> else H h b)" if "b \<in> A"
    using H_name [OF assms that, of "umem ?h3"] H_put(2) [OF assms that, of 0 ?h2] H_put(3) [OF assms that, of 0 ?h1] H_put(1) [OF assms that, of v h]
      H_put(3) [OF assms assms(2), of 0 ?h1] H_put(1) [OF assms assms(2), of v h]
    by (simp add: n)
  have "a \<in> hb a" by (simp add: hb_def)
  then have "wrote_in (hb a) ?h3 (new_block a v h)" by (auto simp: n wrote_in_def)
  then show "wrote_in (hb a) h (new_block a v h)"
    by (rule wrote_in_trans [OF wrote_in_trans [OF wrote_put(1) [OF assms order_refl] wrote_in_trans [OF wrote_put(3) [OF assms order_refl] wrote_put(2) [OF assms order_refl]]]])
qed (simp_all add: new_block_def Let_def)

lemma grow_spec:
  assumes r: "rep h s bs fl" and n: "n mod 16 = 0" "16 \<le> n" "unat (ubrk h) + 32 + n < 2 ^ 31"
  defines "h1 \<equiv> h\<lparr>ubrk := ubrk h + of_nat (32 + n)\<rparr>" and "bs' \<equiv> bs @ [(ubrk h, n, False)]"
  obtains h' where "append_block (ubrk h) (new_block (ubrk h) (enc n False) h1) = Some h'" "rep h' s bs' fl" "wrote_in (hbs bs') h1 h'"
proof -
  note D = repD [OF r]
  let ?b = "ubrk h" let ?h2 = "new_block ?b (enc n False) h1"
  have brk: "unat (ubrk h1) = unat ?b + 32 + n" using n(3) offset_nat [of ?b "32 + n"] by (simp add: h1_def)
  have t: "tiles s bs' (unat (ubrk h1))" using D(1) n(1,2) brk by (auto simp: bs'_def)
  have sp: "spaced (addrs bs')" using tiles_spaced [OF t] brk n(3) by simp
  have A: "?b \<in> addrs bs'" "?b \<notin> addrs bs" "addrs bs \<subseteq> addrs bs'" using tiles_distinct [OF t] by (auto simp: bs'_def addrs_eq)
  note N = new_block_spec [OF sp A(1), where v = "enc n False" and h = h1]
  have k: "H ?h2 b = (if b = ?b then (H h ?b)\<lparr>hsize := enc n False, hprev := 0, hnext := 0\<rparr> else H h b)" if "b \<in> addrs bs'" for b
    using N(1) [OF that] by (simp add: h1_def)
  have inb: "c \<in> addrs bs'" "c \<noteq> ?b" if "c \<in> set fl" for c using that D(8) A by auto
  have fl: "set fl \<subseteq> addrs bs'" using inb by blast
  have w2: "wrote_in (hbs bs') h1 ?h2" by (rule wrote_mono [OF N(2)]) (use A in \<open>auto simp: hbs_def\<close>)
  have b0: "unat ?b \<noteq> 0" using D(2) tiles_le [OF D(1)] by simp
  have u2: "ubrk ?h2 = ubrk h1" using N(2) by (simp add: wrote_in_def)
  have reg: "head ?h2 = head h" "free_list ?h2 = free_list h" by (simp_all add: N(3,4)) (simp_all add: h1_def)
  show ?thesis
  proof (cases bs rule: rev_cases)
    case Nil
    let ?h' = "?h2\<lparr>head := ?b\<rparr>"
    have "fseg (H ?h') (free_list h) fl 0 = fseg (H h) (free_list h) fl 0" by (rule fseg_cong) (use k inb in auto)
    then have "rep ?h' s bs' fl" using D t brk n(3) k [OF A(1)] Nil reg fl u2 by (simp add: rep_def bs'_def)
    moreover have "append_block ?b ?h2 = Some ?h'" using D(5) Nil reg by (simp add: append_block_def)
    ultimately show ?thesis using that w2 by simp
  next
    case (snoc zs z)
    obtain t nt ft where z: "z = (t, nt, ft)" by (cases z)
    have T: "t \<in> addrs bs" "t \<in> addrs bs'" "t \<noteq> ?b" "t \<notin> addrs zs" "lst_addr 0 bs = t"
      using A tiles_distinct [OF D(1)] snoc z by (auto simp: bs'_def addrs_eq lst_addr_def)
    have same: "H ?h2 b = H h b" if "b \<in> addrs bs" for b using k [of b] that A by auto
    have "seg (H ?h2) 0 bs 0 = seg (H h) 0 bs 0" by (rule seg_cong) (simp add: same)
    then have "last_block (umem ?h2) (fst_addr bs 0) = Some t"
      using last_block_spec [of "umem ?h2" 0 bs] D(4) T(5) rep_nonzero [OF r] snoc by auto
    moreover have "head ?h2 \<noteq> 0" "head ?h2 = fst_addr bs 0" using reg D(5) rep_nonzero [OF r] fst_addr_mem [of bs 0] snoc by auto
    ultimately have run: "append_block ?b ?h2 = Some (put_prev ?b t (put_next t ?b ?h2))" by (simp add: append_block_def)
    let ?h3 = "put_next t ?b ?h2" let ?h' = "put_prev ?b t ?h3"
    have k': "H ?h' b = (if b = ?b then (H h ?b)\<lparr>hsize := enc n False, hprev := t, hnext := 0\<rparr> else if b = t then (H h t)\<lparr>hnext := ?b\<rparr> else H h b)"
      if "b \<in> addrs bs'" for b
      unfolding H_put(3) [OF sp A(1) that, of t ?h3] H_put(2) [OF sp T(2) that, of ?b ?h2] H_put(2) [OF sp T(2) A(1), of ?b ?h2]
        k [OF that] k [OF A(1)] k [OF T(2)] using T(3) by auto
    have zs: "seg (H ?h') 0 zs t = seg (H h) 0 zs t"
    proof (rule seg_cong)
      fix b assume "b \<in> addrs zs"
      then have "b \<in> addrs bs'" "b \<noteq> ?b" "b \<noteq> t" using A T(4) snoc by auto
      then show "hsize (H ?h' b) = hsize (H h b) \<and> hnext (H ?h' b) = hnext (H h b) \<and> hprev (H ?h' b) = hprev (H h b)" by (simp add: k')
    qed
    have sg: "seg (H ?h') 0 bs' 0" using D(4) zs snoc z k' [OF A(1)] k' [OF T(2)] T(3) by (simp add: bs'_def)
    have "fseg (H ?h') (free_list h) fl 0 = fseg (H h) (free_list h) fl 0"
    proof (rule fseg_cong)
      fix c assume c: "c \<in> set fl"
      show "hfree (H ?h' c) = hfree (H h c)" unfolding k' [OF inb(1) [OF c]] using inb(2) [OF c] by simp
    qed
    moreover have "fst_addr bs' 0 = fst_addr bs 0" using snoc by (cases zs) (auto simp: bs'_def)
    ultimately have rp: "rep ?h' s bs' fl" using D t brk n(3) sg reg fl u2 by (simp add: rep_def)
    have X: "hb t \<subseteq> hbs bs'" "hb ?b \<subseteq> hbs bs'" using A T by (auto simp: hbs_def)
    have "wrote_in (hbs bs') h1 ?h'" using w2 wrote_put(2) [OF sp T(2) X(1)] wrote_put(3) [OF sp A(1) X(2)] by (meson wrote_in_trans)
    then show ?thesis using that run rp by simp
  qed
qed

section \<open>Blocks in use\<close>

primrec frees :: "blk list \<Rightarrow> u64 set" where
  "frees [] = {}"
| "frees (b # bs) = (case b of (a, n, f) \<Rightarrow> if f then insert a (frees bs) else frees bs)"

primrec lives :: "blk list \<Rightarrow> (u64 \<times> nat) set" where
  "lives [] = {}"
| "lives (b # bs) = (case b of (a, n, f) \<Rightarrow> if f then lives bs else insert (a, n) (lives bs))"

lemma frees_append [simp]: "frees (xs @ ys) = frees xs \<union> frees ys"
  by (induction xs) auto

lemma lives_append [simp]: "lives (xs @ ys) = lives xs \<union> lives ys"
  by (induction xs) auto

lemma frees_iff: "a \<in> frees bs \<longleftrightarrow> (\<exists>n. (a, n, True) \<in> set bs)"
  by (induction bs) (auto split: if_splits)

lemma lives_iff: "(a, n) \<in> lives bs \<longleftrightarrow> (a, n, False) \<in> set bs"
  by (induction bs) (auto split: if_splits)

lemma frees_addrs: "frees bs \<subseteq> addrs bs"
  by (auto simp: frees_iff)

lemma lives_addrs: "(a, n) \<in> lives bs \<Longrightarrow> a \<in> addrs bs"
  by (auto simp: lives_iff)

definition data :: "u64 \<Rightarrow> nat \<Rightarrow> u64 set" where
  "data a n = {x. unat a + 32 \<le> unat x \<and> unat x < unat a + 32 + n}"

definition heap_ok :: "uheap \<Rightarrow> nat \<Rightarrow> blk list \<Rightarrow> u64 list \<Rightarrow> bool" where
  "heap_ok h s bs fl \<longleftrightarrow> rep h s bs fl \<and> set fl = frees bs"

text \<open>The allocator's own writes do not touch the data of a block that is not on the free list.\<close>

lemma data_untouched:
  assumes r: "rep h s bs fl" and q: "(q, m, g) \<in> set bs" and F: "F \<subseteq> addrs bs - {q}" and x: "x \<in> data q m"
  shows "x \<notin> hbs bs" "c \<in> F \<Longrightarrow> x \<notin> lb c"
proof -
  note t = repD(1) [OF r]
  have ap: "unat q + 32 + m \<le> unat c \<or> unat c + 48 \<le> unat q \<or> c = q" if "c \<in> addrs bs" for c
  proof -
    from that obtain n f where c: "(c, n, f) \<in> set bs" by (rule addrsE)
    then show ?thesis using tiles_apart [OF t q c] tiles_block [OF t c] by auto
  qed
  show "x \<notin> hbs bs" using ap x by (fastforce simp: hbs_def hb_def data_def)
  show "x \<notin> lb c" if "c \<in> F"
  proof -
    have "c \<in> addrs bs" "c \<noteq> q" using that F by auto
    then show ?thesis using ap [of c] x by (auto simp: lb_def data_def)
  qed
qed

text \<open>Programs may write the data of such blocks.\<close>

lemma rep_write:
  assumes r: "rep h s bs fl" and m: "\<And>x. m x \<noteq> umem h x \<Longrightarrow> \<exists>a n f. (a, n, f) \<in> set bs \<and> a \<notin> set fl \<and> x \<in> data a n"
  shows "rep (h\<lparr>umem := m\<rparr>) s bs fl"
proof -
  note D = repD [OF r]
  have hd: "m x = umem h x" if "x \<in> hbs bs" for x
    using m [of x] data_untouched(1) [OF r _ empty_subsetI] that by blast
  have ld: "m x = umem h x" if "x \<in> lb c" "c \<in> set fl" for x c
  proof (rule ccontr)
    assume "m x \<noteq> umem h x"
    then obtain a n f where a: "(a, n, f) \<in> set bs" "a \<notin> set fl" "x \<in> data a n" using m by blast
    have "{c} \<subseteq> addrs bs - {a}" using that(2) a(2) D(8) by auto
    then show False using data_untouched(2) [OF r a(1) _ a(3)] that(1) by blast
  qed
  have fld: "rd_bytes m (b + of_nat k) n = rd_bytes (umem h) (b + of_nat k) n" if "b \<in> addrs bs" "k + n \<le> 32" for b k n
  proof (rule rd_bytes_cong)
    fix x assume "unat (x - (b + of_nat k)) < n"
    then have "unat b + k \<le> unat x \<and> unat x < unat b + k + n" using field_bytes [OF D(9) that(1), of k n x] that(2) by simp
    then have "x \<in> hb b" using that(2) by (auto simp: hb_def)
    then show "m x = umem h x" using hd that(1) by (auto simp: hbs_def)
  qed (use that in simp)
  have g: "hsize (hdr_of m b) = hsize (H h b) \<and> hnext (hdr_of m b) = hnext (H h b) \<and> hprev (hdr_of m b) = hprev (H h b)" if "b \<in> addrs bs" for b
    using fld [OF that, of 8 4] fld [OF that, of 16 8] fld [OF that, of 24 8]
    by (simp add: hdr_of_def bsize_def next_block_def prev_block_def load32_def load64_def del: hdr_fields)
  have l: "hfree (hdr_of m c) = hfree (H h c)" if c: "c \<in> set fl" for c
  proof -
    have "load64 m (c + 32) = load64 (umem h) (c + 32)"
    proof (rule load64_cong)
      fix x assume "unat (x - (c + 32)) < 8"
      then have "x \<in> lb c" using field_bytes [OF D(9), of c 32 8 x] D(8) c by (auto simp: lb_def)
      then show "m x = umem h x" using ld c by blast
    qed
    then show ?thesis by (simp add: hdr_of_def get_free_next_def del: hdr_fields)
  qed
  show ?thesis
  proof (rule rep_links [OF r])
    show "fseg (H (h\<lparr>umem := m\<rparr>)) (free_list (h\<lparr>umem := m\<rparr>)) fl 0" using fseg_cong [of fl "hdr_of m" "H h"] l D(6) by simp
  qed (use g D in auto)
qed

section \<open>malloc\<close>

lemma unat_and_not_mask: "unat (a AND NOT (mask k) :: 'a::len word) = unat a div 2 ^ k * 2 ^ k"
proof -
  have e: "a AND NOT (mask k) = push_bit k (drop_bit k a)"
    by (rule bit_word_eqI) (auto simp: bit_simps)
  have "unat a div 2 ^ k * 2 ^ k < 2 ^ LENGTH('a)" using unsigned_less [of a] by (metis div_times_less_eq_dividend le_less_trans)
  then have "take_bit LENGTH('a) (push_bit k (drop_bit k (unat a))) = unat a div 2 ^ k * 2 ^ k"
    by (simp add: push_bit_eq_mult drop_bit_eq_div take_bit_nat_eq_self)
  then show ?thesis unfolding e unsigned_push_bit_eq unat_drop_bit_eq .
qed

lemma data_size_spec:
  assumes "unat n < 2 ^ 31"
  obtains k where "data_size n = of_nat k" "k mod 16 = 0" "16 \<le> k" "unat n \<le> k" "k < unat n + 17"
proof -
  have a: "unat (n + 15) = unat n + 15" using assms by (simp add: unat_word_ariths)
  have m: "(15 :: u32) = mask 4" by (simp add: mask_eq_exp_minus_1)
  have u: "unat (align_size n) = (unat n + 15) div 16 * 16"
    using unat_and_not_mask [of "n + 15" 4] a by (simp add: align_size_def flip: m)
  define k where "k = (if unat (align_size n) < 16 then 16 else unat (align_size n))"
  have "data_size n = of_nat k" by (simp add: data_size_def Let_def k_def word_less_nat_alt)
  moreover have "k mod 16 = 0" "16 \<le> k" "unat n \<le> k" "k < unat n + 17"
    using u by (auto simp: k_def) 
  ultimately show ?thesis by (rule that)
qed

text \<open>What \<open>malloc\<close> does with the block it has found or made.\<close>

lemma set_used_eq: "rep h s bs fl \<Longrightarrow> (a, n, f) \<in> set bs \<Longrightarrow> set_used a h = put_size a (enc n False) h"
  using rep_fields(3) [of h s bs fl a n f] enc_simps(1) [OF rep_addr(3) [of h s bs fl a n f]]
  by (simp add: set_used_def) (simp add: enc_def)

lemma set_free_eq: "rep h s bs fl \<Longrightarrow> (a, n, f) \<in> set bs \<Longrightarrow> set_free a h = put_size a (enc n True) h"
  using rep_fields(3) [of h s bs fl a n f] enc_simps(3) [OF rep_addr(3) [of h s bs fl a n f]]
  by (simp add: set_free_def)

lemma unat_data_ptr: "rep h s bs fl \<Longrightarrow> (a, n, f) \<in> set bs \<Longrightarrow> unat (a + 32) = unat a + 32"
  using rep_addr(6) [of h s bs fl a n f] repD(3) [of h s bs fl] unat_add_nowrap [of a 32] by simp

lemma in_data_iff:
  assumes "rep h s bs fl" "(a, n, f) \<in> set bs"
  shows "unat (x - (a + 32)) < n \<longleftrightarrow> x \<in> data a n"
proof -
  note u = unat_data_ptr [OF assms] rep_addr(6) [OF assms] repD(3) [OF assms(1)]
  then show ?thesis using in_range_iff [of "a + 32" n x] by (simp add: data_def)
qed

lemma scribble_spec:
  assumes r: "rep h s bs fl" and a: "(a, n, f) \<in> set bs" "a \<notin> set fl" and k: "k + unat v \<le> n"
  shows "rep (scribble (a + 32 + of_nat k) v h) s bs fl"
    "wrote_in {x \<in> data a n. unat a + 32 + k \<le> unat x} h (scribble (a + 32 + of_nat k) v h)"
proof -
  note u = unat_data_ptr [OF r a(1)] rep_addr(6) [OF r a(1)] repD(3) [OF r]
  have "unat (a + 32 + of_nat k) = unat a + 32 + k" using u k offset_nat [of "a + 32" k] by simp
  then have i: "unat (x - (a + 32 + of_nat k)) < unat v \<longleftrightarrow> unat a + 32 + k \<le> unat x \<and> unat x < unat a + 32 + k + unat v" for x
    using in_range_iff [of "a + 32 + of_nat k" "unat v" x] u k by simp
  let ?m = "memsetu (umem h) (a + 32 + of_nat k) 0xAA v"
  have w: "x \<in> data a n \<and> unat a + 32 + k \<le> unat x" if "?m x \<noteq> umem h x" for x
    using that i [of x] k by (auto simp: memsetu_eq data_def split: if_splits)
  then have "rep (h\<lparr>umem := ?m\<rparr>) s bs fl" using a by (intro rep_write [OF r]) blast
  then show "rep (scribble (a + 32 + of_nat k) v h) s bs fl" using r by (simp add: scribble_def)
  show "wrote_in {x \<in> data a n. unat a + 32 + k \<le> unat x} h (scribble (a + 32 + of_nat k) v h)"
    using w by (auto simp: scribble_def wrote_in_def)
qed

lemma split_used_spec:
  assumes r: "rep h s (xs @ (b, n, f) # ys) fl" and b: "b \<notin> set fl" and k: "k mod 16 = 0" "16 \<le> k" "k \<le> n"
    and fl: "set fl = frees xs \<union> frees ys"
  obtains h1 bs' fl' n' where "split_block b (of_nat k) h = Some h1" "heap_ok (set_used b h1) s bs' fl'" "k \<le> n'" "n' \<le> n"
    "lives bs' = insert (b, n') (lives xs \<union> lives ys)" "(b, n', False) \<in> set bs'"
    "wrote_in (hbs bs' \<union> lbs fl') h (set_used b h1)" "set fl \<subseteq> set fl'" "addrs (xs @ (b, n, f) # ys) \<subseteq> addrs bs'" "b \<notin> set fl'"
proof -
  note res = that
  have fin: thesis if s1: "split_block b (of_nat k) h = Some h1" and r1: "rep h1 s (xs @ (b, n', f') # zs) fl'" and bf: "b \<notin> set fl'"
      and w: "wrote_in (hbs (xs @ (b, n', f') # zs) \<union> lbs fl') h h1" and fl': "set fl' = frees xs \<union> frees zs" and kn: "k \<le> n'" "n' \<le> n"
      and lv: "lives zs = lives ys" "set fl \<subseteq> set fl'" "addrs ys \<subseteq> addrs zs" for h1 n' f' zs fl'
  proof -
    let ?bs = "xs @ (b, n', False) # zs" let ?h2 = "put_size b (enc n' False) h1" let ?X = "hbs ?bs \<union> lbs fl'"
    have su: "set_used b h1 = ?h2" using set_used_eq [OF r1, of b n' f'] by simp
    note F = rep_flag [OF r1, of False]
    have ok: "heap_ok (set_used b h1) s ?bs fl'" using F(1) su fl' by (simp add: heap_ok_def)
    have "wrote_in ?X h h1" by (rule wrote_mono [OF w]) (auto simp: hbs_def)
    moreover have "wrote_in ?X h1 ?h2" by (rule wrote_mono [OF F(2)]) (auto simp: hbs_def)
    ultimately have "wrote_in ?X h (set_used b h1)" unfolding su by (rule wrote_in_trans)
    moreover have "addrs (xs @ (b, n, f) # ys) \<subseteq> addrs ?bs" using lv(3) by auto
    ultimately show thesis using res [OF s1 ok kn] lv bf by simp
  qed
  show thesis
  proof (cases rule: split_spec [OF r k])
    case 1
    then show ?thesis using fin [OF 1(2) r b _ fl k(3)] by simp
  next
    case parts: (2 h' fl' c)
    have cb: "c \<noteq> b" using parts(3) by auto
    show ?thesis
    proof (rule fin [OF parts(2,4)])
      show "wrote_in (hbs (xs @ (b, k, False) # (c, n - k - 32, True) # ys) \<union> lbs fl') h h'"
        using parts(5,7) by (simp add: lbs_def Un_commute)
    qed (use parts(5) fl b cb k(3) in auto)
  qed
qed

lemma hand_out_spec:
  assumes r: "rep h s (xs @ (b, n, f) # ys) fl" and b: "b \<notin> set fl" and k: "k mod 16 = 0" "16 \<le> k" "k \<le> n"
    and fl: "set fl = frees xs \<union> frees ys"
  obtains h' bs' fl' n' where "hand_out b (of_nat k) h = Some (b + 32, h')" "heap_ok h' s bs' fl'" "k \<le> n'"
    "lives bs' = insert (b, n') (lives xs \<union> lives ys)" "(b, n', False) \<in> set bs'"
    "wrote_in (hbs bs' \<union> lbs fl' \<union> data b n') h h'" "set fl \<subseteq> set fl'" "addrs (xs @ (b, n, f) # ys) \<subseteq> addrs bs'"
proof -
  obtain h1 bs' fl' n' where S: "split_block b (of_nat k) h = Some h1" "heap_ok (set_used b h1) s bs' fl'" "k \<le> n'" "n' \<le> n"
    "lives bs' = insert (b, n') (lives xs \<union> lives ys)" "(b, n', False) \<in> set bs'"
    "wrote_in (hbs bs' \<union> lbs fl') h (set_used b h1)" "set fl \<subseteq> set fl'" "addrs (xs @ (b, n, f) # ys) \<subseteq> addrs bs'" "b \<notin> set fl'"
    by (rule split_used_spec [OF assms])
  let ?h2 = "set_used b h1" let ?h3 = "scribble (b + 32) (of_nat n') ?h2" let ?X = "hbs bs' \<union> lbs fl' \<union> data b n'"
  have r2: "rep ?h2 s bs' fl'" using S(2) by (simp add: heap_ok_def)
  have sz: "get_size (umem ?h2) b = of_nat n'" "unat (of_nat n' :: u32) = n'"
    using rep_fields(1) [OF r2 S(6)] rep_addr(2) [OF r2 S(6)] by (simp_all add: unat_of_nat)
  note C = scribble_spec [OF r2 S(6,10), of 0 "of_nat n'"]
  have run: "hand_out b (of_nat k) h = Some (b + 32, ?h3)" using S(1) sz(1) by (simp add: hand_out_def Let_def)
  have ok: "heap_ok ?h3 s bs' fl'" using C(1) sz(2) S(2) by (simp add: heap_ok_def)
  have "wrote_in ?X ?h2 ?h3" by (rule wrote_mono [where X = "{x \<in> data b n'. unat b + 32 \<le> unat x}"]) (use C(2) sz(2) in auto)
  then have "wrote_in ?X h ?h3" using wrote_in_trans [OF wrote_mono [OF S(7)]] by blast
  then show thesis using that [OF run ok S(3,5,6)] S(8,9) by blast
qed

text \<open>The size of the new block: the pages that hold the header and the data.\<close>

lemma request_size:
  fixes k :: nat
  assumes "k mod 16 = 0" "16 \<le> k"
  obtains n where "n mod 16 = 0" "16 \<le> n" "k \<le> n" "n + 32 = (k + 4127) div 4096 * 4096" "n < k + 4096"
proof -
  define q where "q = (k + 4127) div 4096"
  have q: "k + 32 \<le> q * 4096" "q * 4096 \<le> k + 4127" unfolding q_def by simp_all
  have "(q * 4096 - 32) mod 16 = 0" using q by (simp add: mod_eq_0_iff_dvd dvd_diff_nat)
  then show thesis using that [of "q * 4096 - 32"] q assms(2) unfolding q_def by auto
qed

lemma sint_small: "k < 2 ^ 31 \<Longrightarrow> sint (of_nat k :: u32) = int k"
  by (simp add: signed_of_nat signed_take_bit_int_eq_self)

lemma scast_small: "k < 2 ^ 31 \<Longrightarrow> (scast (of_nat k :: u32) :: u64) = of_nat k"
  using sint_small [of k] by (simp add: scast_eq)

lemma heap_okD: "heap_ok h s bs fl \<Longrightarrow> rep h s bs fl" "heap_ok h s bs fl \<Longrightarrow> set fl = frees bs"
  by (simp_all add: heap_ok_def)

lemma frees_split:
  assumes "rep h s bs fl" "bs = xs @ (a, n, True) # ys"
  shows "frees xs \<union> frees ys = frees bs - {a}" "lives bs = lives xs \<union> lives ys" "a \<notin> fst ` lives bs"
proof -
  have d: "a \<notin> addrs xs" "a \<notin> addrs ys" using rep_mid(3,4) [of h s xs a n True ys fl] assms by auto
  then show "frees xs \<union> frees ys = frees bs - {a}" using assms(2) frees_addrs by auto
  show "lives bs = lives xs \<union> lives ys" using assms(2) by simp
  then show "a \<notin> fst ` lives bs" using d lives_addrs by fastforce
qed

lemma malloc_grow:
  assumes "sz \<noteq> 0" "find_free_block (data_size sz) h = Some 0" "ok" "ubrk h \<noteq> - 1" "(32 + data_size sz + 4096 - 1) div 4096 * 4096 = R"
  shows "malloc ok sz h = Option.bind (append_block (ubrk h) (new_block (ubrk h) ((R - 32) AND NOT 1) (h\<lparr>ubrk := ubrk h + scast R\<rparr>)))
    (hand_out (ubrk h) (data_size sz))"
  using assms by (auto simp: malloc_def Let_def sbrk_def new_block_def)

lemma malloc_spec:
  assumes hp: "heap_ok h s bs fl" and sz: "sz \<noteq> 0" "unat sz < 2 ^ 30" and g: "ok \<longrightarrow> unat (ubrk h) + unat sz + 8192 < 2 ^ 31"
  obtains (fail) "malloc ok sz h = Some (0, h)" "\<not> ok"
    | (got) h' bs' fl' b n where "malloc ok sz h = Some (b + 32, h')" "heap_ok h' s bs' fl'" "unat sz \<le> n" "lives bs' = insert (b, n) (lives bs)"
        "b \<notin> fst ` lives bs" "(b, n, False) \<in> set bs'" "\<And>x. x \<notin> hbs bs' \<union> lbs fl' \<union> data b n \<Longrightarrow> umem h' x = umem h x"
        "unat (ubrk h') \<le> unat (ubrk h) + unat sz + 8192"
proof -
  note r = heap_okD(1) [OF hp] and fr = heap_okD(2) [OF hp]
  obtain k where k: "data_size sz = of_nat k" "k mod 16 = 0" "16 \<le> k" "unat sz \<le> k" "k < unat sz + 17"
    using data_size_spec [of sz] sz(2) by auto
  have uk: "unat (of_nat k :: u32) = k" using k(5) sz(2) by (simp add: unat_of_nat)
  obtain b where b: "find_free_block (of_nat k) h = Some b" "if b = 0 then \<forall>p \<in> set fl. get_size (umem h) p < of_nat k
      else b \<in> set fl \<and> of_nat k \<le> get_size (umem h) b \<and> policy (current_fsm h) (get_size (umem h)) (of_nat k) fl b"
    by (rule find_spec [OF r])
  show thesis
  proof (cases "b = 0")
    case False
    then have bf: "b \<in> set fl" "of_nat k \<le> get_size (umem h) b" using b(2) by auto
    then obtain n where n: "(b, n, True) \<in> set bs" using fr by (auto simp: frees_iff)
    then obtain xs ys where bs: "bs = xs @ (b, n, True) # ys" by (meson split_list)
    have "unat (of_nat n :: u32) = n" using rep_addr(2) [OF r n] by (simp add: unat_of_nat)
    then have kn: "k \<le> n" using bf(2) rep_fields(1) [OF r n] uk by (simp add: word_le_nat_alt)
    obtain h1 where h1: "remove_from_free_list b h = Some h1" "rep h1 s bs (remove1 b fl)" "wrote_in (\<Union>c \<in> set fl. lb c) h h1"
      by (rule remove_spec [OF r])
    have rm: "set (remove1 b fl) = set fl - {b}" using repD(7) [OF r] by simp
    note fs = frees_split [OF r bs]
    have p: "b \<notin> set (remove1 b fl)" "set (remove1 b fl) = frees xs \<union> frees ys" using rm fs(1) fr by simp_all
    obtain h' bs' fl' n' where H: "hand_out b (of_nat k) h1 = Some (b + 32, h')" "heap_ok h' s bs' fl'" "k \<le> n'"
        "lives bs' = insert (b, n') (lives xs \<union> lives ys)" "(b, n', False) \<in> set bs'" "wrote_in (hbs bs' \<union> lbs fl' \<union> data b n') h1 h'"
        "set (remove1 b fl) \<subseteq> set fl'" "addrs (xs @ (b, n, True) # ys) \<subseteq> addrs bs'"
      by (rule hand_out_spec [OF h1(2) [unfolded bs] p(1) k(2,3) kn p(2)])
    have "lb b \<subseteq> data b n'" using H(3) k(3) by (auto simp: lb_def data_def)
    then have "(\<Union>c \<in> set fl. lb c) \<subseteq> hbs bs' \<union> lbs fl' \<union> data b n'" using H(7) rm by (fastforce simp: lbs_def)
    then have "wrote_in (hbs bs' \<union> lbs fl' \<union> data b n') h h'" using wrote_in_trans [OF wrote_mono [OF h1(3)] H(6)] by blast
    moreover have "malloc ok sz h = Some (b + 32, h')" using sz(1) k(1) b(1) False h1(1) H(1) by (simp add: malloc_def Let_def)
    ultimately show thesis using got [of b h' bs' fl' n'] H k(4) fs by (simp add: wrote_in_def)
  next
    case True
    show thesis
    proof (cases ok)
      case False
      then show thesis using fail sz(1) k(1) b(1) True by (simp add: malloc_def Let_def sbrk_def)
    next
      case ok: True
      obtain n where n: "n mod 16 = 0" "16 \<le> n" "k \<le> n" "n + 32 = (k + 4127) div 4096 * 4096" "n < k + 4096"
        by (rule request_size [OF k(2,3)])
      have bnd: "unat (ubrk h) + 32 + n < 2 ^ 31" using g ok n(5) k(5) by simp
      have ev: "even n" using n(1) by presburger
      have e: "(32 + of_nat k + 4096 - 1 :: u32) = of_nat (k + 4127)" by simp
      have u: "unat (of_nat (k + 4127) :: u32) = k + 4127" using k(5) sz(2) by (simp only: unat_of_nat) simp
      have "unat ((of_nat (k + 4127) :: u32) div 4096 * 4096) = n + 32"
        using n(4,5) k(5) sz(2) u by (simp add: unat_word_ariths unat_div)
      then have rq: "(32 + of_nat k + 4096 - 1) div 4096 * 4096 = (of_nat (n + 32) :: u32)"
        unfolding e by (metis of_nat_unat ucast_id)
      have sc: "scast (of_nat (n + 32) :: u32) = (of_nat (32 + n) :: u64)" using scast_small [of "n + 32"] bnd by (simp add: add.commute)
      have enc: "(of_nat (n + 32) - 32 :: u32) AND NOT 1 = enc n False" using enc_simps(5) [OF ev] by simp
      let ?h1 = "h\<lparr>ubrk := ubrk h + of_nat (32 + n)\<rparr>" let ?bs = "bs @ [(ubrk h, n, False)]"
      obtain h2 where h2: "append_block (ubrk h) (new_block (ubrk h) (enc n False) ?h1) = Some h2" "rep h2 s ?bs fl" "wrote_in (hbs ?bs) ?h1 h2"
        by (rule grow_spec [OF r n(1,2) bnd])
      have nb: "ubrk h \<notin> addrs bs" using rep_mid(3) [OF h2(2)] .
      have p: "ubrk h \<notin> set fl" "set fl = frees bs \<union> frees []" using fr nb frees_addrs by auto
      obtain h' bs' fl' n' where H: "hand_out (ubrk h) (of_nat k) h2 = Some (ubrk h + 32, h')" "heap_ok h' s bs' fl'" "k \<le> n'"
          "lives bs' = insert (ubrk h, n') (lives bs \<union> lives [])" "(ubrk h, n', False) \<in> set bs'"
          "wrote_in (hbs bs' \<union> lbs fl' \<union> data (ubrk h) n') h2 h'" "set fl \<subseteq> set fl'" "addrs ?bs \<subseteq> addrs bs'"
        by (rule hand_out_spec [OF h2(2) p(1) k(2,3) n(3) p(2)])
      have f0: "find_free_block (data_size sz) h = Some 0" using k(1) b(1) True by simp
      have m1: "ubrk h \<noteq> - 1" using repD(3) [OF r] by (auto simp: unat_minus1_u64)
      have run: "malloc ok sz h = Some (ubrk h + 32, h')"
        unfolding malloc_grow [OF sz(1) f0 ok m1 rq [folded k(1)]] sc enc h2(1) k(1) using H(1) by simp
      have mem: "umem h' x = umem h x" if "x \<notin> hbs bs' \<union> lbs fl' \<union> data (ubrk h) n'" for x
      proof -
        have "x \<notin> hbs ?bs" using that H(8) by (auto simp: hbs_def)
        then show ?thesis using that H(6) h2(3) by (simp add: wrote_in_def)
      qed
      have nl: "ubrk h \<notin> fst ` lives bs" using nb lives_addrs by auto
      have "unat (ubrk h') = unat (ubrk h) + 32 + n" using H(6) h2(3) bnd offset_nat [of "ubrk h" "32 + n"] by (simp add: wrote_in_def)
      then have br: "unat (ubrk h') \<le> unat (ubrk h) + unat sz + 8192" using n(5) k(5) by simp
      show thesis by (rule got [OF run H(2) _ _ nl H(5) mem br]) (use H(3,4) k(4) in auto)
    qed
  qed
qed

section \<open>free\<close>

lemma absorb_eq:
  assumes r: "rep h s (xs @ (p, n1, f1) # (q, n2, f2) # ys) fl"
  shows "absorb p q h = join_next p q (enc (n1 + 32 + n2) True) h"
proof -
  have "even (n1 + 32 + n2)" using rep_addr(3) [OF r, of p n1 f1] rep_addr(3) [OF r, of q n2 f2] by simp
  then show ?thesis
    using rep_fields(1) [OF r, of p n1 f1] rep_fields(1) [OF r, of q n2 f2] enc_simps(4) [of "n1 + 32 + n2"] by (simp add: absorb_def)
qed

text \<open>A state while a block is freed: the free blocks are those on the list and \<open>b\<close>.\<close>

definition freeing :: "uheap \<Rightarrow> nat \<Rightarrow> blk list \<Rightarrow> u64 \<Rightarrow> nat \<Rightarrow> blk list \<Rightarrow> u64 list \<Rightarrow> bool" where
  "freeing h s xs b n ys fl \<longleftrightarrow> rep h s (xs @ (b, n, True) # ys) fl \<and> set fl = frees xs \<union> frees ys"

lemma freeing_notin: "freeing h s xs b n ys fl \<Longrightarrow> b \<notin> set fl"
  using rep_mid(3,4) [of h s xs b n True ys fl] frees_addrs by (auto simp: freeing_def)

lemma merge_prev_spec:
  assumes f: "freeing h s xs b n ys fl"
  obtains b' h' xs' n' fl' where "merge_prev b h = Some (b', h')" "freeing h' s xs' b' n' ys fl'" "lives xs' = lives xs"
    "addrs (xs' @ (b', n', True) # ys) \<subseteq> addrs (xs @ (b, n, True) # ys)" "set fl' \<subseteq> set fl"
    "wrote_in (hbs (xs @ (b, n, True) # ys) \<union> lbs fl) h h'" "b' \<in> insert b (set fl)"
proof -
  note r = f [unfolded freeing_def, THEN conjunct1] and fl = f [unfolded freeing_def, THEN conjunct2]
  note M = rep_mid [OF r]
  show thesis
  proof (cases "\<exists>zs p n1. xs = zs @ [(p, n1, True)]")
    case True
    then obtain zs p n1 where xs: "xs = zs @ [(p, n1, True)]" by blast
    let ?bs = "xs @ (b, n, True) # ys"
    have pin: "(p, n1, True) \<in> set ?bs" using xs by simp
    obtain h1 where h1: "remove_from_free_list p h = Some h1" "rep h1 s ?bs (remove1 p fl)" "wrote_in (\<Union>c \<in> set fl. lb c) h h1"
      by (rule remove_spec [OF r])
    have r1: "rep h1 s (zs @ (p, n1, True) # (b, n, True) # ys) (remove1 p fl)" using h1(2) xs by simp
    have bn: "b \<notin> set (remove1 p fl)" using freeing_notin [OF f] by (meson notin_set_remove1)
    note J = rep_join [OF r1 bn, of True]
    have run: "merge_prev b h = Some (p, join_next p b (enc (n1 + 32 + n) True) h1)"
      using M(1) xs rep_nonzero [OF r, of p] rep_fields(2) [OF r pin] h1(1) absorb_eq [OF r1]
      by (simp add: merge_prev_def Let_def)
    have d: "p \<notin> addrs zs" "p \<notin> addrs ys" using rep_mid(3,4) [OF r1] by auto
    then have d: "p \<notin> addrs zs" "p \<notin> addrs ys" "p \<notin> frees zs" "p \<notin> frees ys" using frees_addrs by blast+
    have "set (remove1 p fl) = frees zs \<union> frees ys" using repD(7) [OF r] fl xs d(3,4) by auto
    then have "freeing (join_next p b (enc (n1 + 32 + n) True) h1) s zs p (n1 + 32 + n) ys (remove1 p fl)" using J(1) by (simp add: freeing_def)
    moreover have "wrote_in (hbs ?bs \<union> lbs fl) h (join_next p b (enc (n1 + 32 + n) True) h1)"
      by (rule wrote_in_trans [OF wrote_mono [OF h1(3)] wrote_mono [OF J(2)]]) (use xs in \<open>auto simp: hbs_def lbs_def\<close>)
    moreover have "p \<in> insert b (set fl)" using fl xs by simp
    ultimately show thesis using that run xs set_remove1_subset by fastforce
  next
    case False
    have "\<not> (lst_addr 0 xs \<noteq> 0 \<and> is_free (umem h) (lst_addr 0 xs))"
    proof (cases xs rule: rev_cases)
      case (snoc zs z)
      obtain p n1 g where z: "z = (p, n1, g)" by (cases z)
      then show ?thesis using False snoc rep_fields(2) [OF r, of p n1 g] by simp
    qed simp
    then have "merge_prev b h = Some (b, h)" using M(1) by (auto simp: merge_prev_def Let_def)
    then show thesis by (rule that [OF _ f]) simp_all
  qed
qed

lemma merge_next_spec:
  assumes f: "freeing h s xs b n ys fl"
  obtains h' ys' n' fl' where "merge_next b h = Some h'" "freeing h' s xs b n' ys' fl'" "lives ys' = lives ys"
    "addrs (xs @ (b, n', True) # ys') \<subseteq> addrs (xs @ (b, n, True) # ys)" "set fl' \<subseteq> set fl"
    "wrote_in (hbs (xs @ (b, n, True) # ys) \<union> lbs fl) h h'"
proof -
  note r = f [unfolded freeing_def, THEN conjunct1] and fl = f [unfolded freeing_def, THEN conjunct2]
  note M = rep_mid [OF r]
  show thesis
  proof (cases "\<exists>q n2 zs. ys = (q, n2, True) # zs")
    case True
    then obtain q n2 zs where ys: "ys = (q, n2, True) # zs" by blast
    let ?bs = "xs @ (b, n, True) # ys"
    have qin: "(q, n2, True) \<in> set ?bs" using ys by simp
    obtain h1 where h1: "remove_from_free_list q h = Some h1" "rep h1 s ?bs (remove1 q fl)" "wrote_in (\<Union>c \<in> set fl. lb c) h h1"
      by (rule remove_spec [OF r])
    have r1: "rep h1 s (xs @ (b, n, True) # (q, n2, True) # zs) (remove1 q fl)" using h1(2) ys by simp
    have rm: "set (remove1 q fl) = set fl - {q}" using repD(7) [OF r] by simp
    have qn: "q \<notin> set (remove1 q fl)" using rm by simp
    note J = rep_join [OF r1 qn, of True]
    have run: "merge_next b h = Some (join_next b q (enc (n + 32 + n2) True) h1)"
      using M(2) ys rep_nonzero [OF r, of q] rep_fields(2) [OF r qin] h1(1) absorb_eq [OF r1]
      by (simp add: merge_next_def Let_def)
    have r2: "rep h1 s ((xs @ [(b, n, True)]) @ (q, n2, True) # zs) (remove1 q fl)" using r1 by simp
    have d: "q \<notin> addrs xs" "q \<notin> addrs zs" using rep_mid(3,4) [OF r2] by auto
    then have d: "q \<notin> addrs xs" "q \<notin> addrs zs" "q \<notin> frees xs" "q \<notin> frees zs" using frees_addrs by blast+
    have "set (remove1 q fl) = frees xs \<union> frees zs" using rm fl ys d(3,4) by auto
    then have "freeing (join_next b q (enc (n + 32 + n2) True) h1) s xs b (n + 32 + n2) zs (remove1 q fl)" using J(1) by (simp add: freeing_def)
    moreover have "wrote_in (hbs ?bs \<union> lbs fl) h (join_next b q (enc (n + 32 + n2) True) h1)"
      by (rule wrote_in_trans [OF wrote_mono [OF h1(3)] wrote_mono [OF J(2)]]) (use ys in \<open>auto simp: hbs_def lbs_def\<close>)
    ultimately show thesis using that run ys set_remove1_subset by fastforce
  next
    case False
    have "\<not> (fst_addr ys 0 \<noteq> 0 \<and> is_free (umem h) (fst_addr ys 0))"
    proof (cases ys)
      case (Cons z zs)
      obtain q n2 g where z: "z = (q, n2, g)" by (cases z)
      then show ?thesis using False Cons rep_fields(2) [OF r, of q n2 g] by simp
    qed simp
    then have "merge_next b h = Some h" using M(2) by (auto simp: merge_next_def Let_def)
    then show thesis by (rule that [OF _ f]) simp_all
  qed
qed

lemma free_spec:
  assumes hp: "heap_ok h s bs fl" and a: "(a, n) \<in> lives bs"
  obtains h' bs' fl' where "free (a + 32) h = Some h'" "heap_ok h' s bs' fl'" "lives bs' = lives bs - {(a, n)}"
    "addrs bs' \<subseteq> addrs bs" "wrote_in (hbs bs \<union> lbs (a # fl)) h h'"
proof -
  note r = heap_okD(1) [OF hp] and fr = heap_okD(2) [OF hp]
  obtain xs ys where bs: "bs = xs @ (a, n, False) # ys" using a by (auto simp: lives_iff dest: split_list)
  note r0 = r [unfolded bs] note M = rep_mid [OF r0]
  let ?bs = "xs @ (a, n, True) # ys" let ?X = "hbs bs \<union> lbs (a # fl)"
  have sub: "hbs ?bs \<subseteq> ?X" using bs by (auto simp: hbs_def)
  have p0: "a + 32 \<noteq> 0" using unat_data_ptr [OF r, of a n False] bs by auto
  have afl: "a \<notin> set fl" using fr bs M(3,4) frees_addrs [of xs] frees_addrs [of ys] by auto
  note F = rep_flag [OF r0, of True]
  have sf: "set_free a h = put_size a (enc n True) h" using set_free_eq [OF r, of a n False] bs by simp
  have ain: "a \<in> addrs ?bs" by simp
  obtain h1 fl1 where A: "add_to_free_list a (put_size a (enc n True) h) = Some h1" "rep h1 s ?bs fl1" "set fl1 = insert a (set fl)"
      "wrote_in (\<Union>c \<in> insert a (set fl). lb c) (put_size a (enc n True) h) h1"
    by (rule add_spec [OF F(1) ain afl])
  obtain h2 where R: "remove_from_free_list a h1 = Some h2" "rep h2 s ?bs (remove1 a fl1)" "wrote_in (\<Union>c \<in> set fl1. lb c) h1 h2"
    by (rule remove_spec [OF A(2)])
  have fl2: "set (remove1 a fl1) = set fl" using repD(7) [OF A(2)] A(3) afl by auto
  have f2: "freeing h2 s xs a n ys (remove1 a fl1)" using R(2) fl2 fr bs by (simp add: freeing_def)
  obtain b h3 xs' n3 fl3 where P: "merge_prev a h2 = Some (b, h3)" "freeing h3 s xs' b n3 ys fl3" "lives xs' = lives xs"
      "addrs (xs' @ (b, n3, True) # ys) \<subseteq> addrs ?bs" "set fl3 \<subseteq> set (remove1 a fl1)" "wrote_in (hbs ?bs \<union> lbs (remove1 a fl1)) h2 h3"
      "b \<in> insert a (set (remove1 a fl1))"
    by (rule merge_prev_spec [OF f2])
  obtain h4 ys' n4 fl4 where N: "merge_next b h3 = Some h4" "freeing h4 s xs' b n4 ys' fl4" "lives ys' = lives ys"
      "addrs (xs' @ (b, n4, True) # ys') \<subseteq> addrs (xs' @ (b, n3, True) # ys)" "set fl4 \<subseteq> set fl3"
      "wrote_in (hbs (xs' @ (b, n3, True) # ys) \<union> lbs fl3) h3 h4"
    by (rule merge_next_spec [OF P(2)])
  let ?bs' = "xs' @ (b, n4, True) # ys'"
  have f4: "rep h4 s ?bs' fl4" "set fl4 = frees xs' \<union> frees ys'" using N(2) by (simp_all add: freeing_def)
  obtain h' fl' where Z: "add_to_free_list b h4 = Some h'" "rep h' s ?bs' fl'" "set fl' = insert b (set fl4)"
      "wrote_in (\<Union>c \<in> insert b (set fl4). lb c) h4 h'"
    by (rule add_spec [OF f4(1) _ freeing_notin [OF N(2)]]) simp
  have run: "free (a + 32) h = Some h'" using p0 sf A(1) R(1) P(1) N(1) Z(1) by (simp add: free_def Let_def coalesce_def)
  have ok: "heap_ok h' s ?bs' fl'" using Z(2,3) f4(2) by (simp add: heap_ok_def)
  have lv: "lives ?bs' = lives bs - {(a, n)}" using bs P(3) N(3) M(3,4) lives_addrs by fastforce
  have bF: "b \<in> insert a (set fl)" using P(7) fl2 by simp
  have "wrote_in ?X h (put_size a (enc n True) h)" by (rule wrote_mono [OF F(2)]) (use bs in \<open>auto simp: hbs_def\<close>)
  moreover have "wrote_in ?X (put_size a (enc n True) h) h1" by (rule wrote_mono [OF A(4)]) (auto simp: lbs_def)
  moreover have "wrote_in ?X h1 h2" by (rule wrote_mono [OF R(3)]) (use A(3) in \<open>auto simp: lbs_def\<close>)
  moreover have "wrote_in ?X h2 h3" by (rule wrote_mono [OF P(6)]) (use sub fl2 in \<open>auto simp: lbs_def\<close>)
  moreover have "wrote_in ?X h3 h4" by (rule wrote_mono [OF N(6)]) (use bs P(4,5) fl2 in \<open>auto simp: lbs_def hbs_def\<close>)
  moreover have "wrote_in ?X h4 h'" by (rule wrote_mono [OF Z(4)]) (use N(5) P(5) fl2 bF in \<open>auto simp: lbs_def\<close>)
  ultimately have w: "wrote_in ?X h h'" by (meson wrote_in_trans)
  have ad: "addrs ?bs' \<subseteq> addrs bs" using N(4) P(4) bs by auto
  show thesis by (rule that [OF run ok lv ad w])
qed

end
