(* ===== verification/Ucontract.thy ===== *)
theory Ucontract
  imports Ualloc
begin

text \<open>
  The contract of an allocator as a locale, met by \<^verbatim>\<open>user/umalloc.c\<close>. The blocks in use are a map
  from pointers to sizes; a program may write their bytes, and no others.
\<close>

section \<open>The contract\<close>

definition block_bytes :: "u64 \<Rightarrow> nat \<Rightarrow> u64 set" where
  "block_bytes p n = {x. unat (x - p) < n}"

definition live_bytes :: "(u64 \<rightharpoonup> nat) \<Rightarrow> u64 set" where
  "live_bytes L = {x. \<exists>p n. L p = Some n \<and> x \<in> block_bytes p n}"

locale allocator =
  fixes inv :: "'h \<Rightarrow> (u64 \<rightharpoonup> nat) \<Rightarrow> bool"
    and bytes :: "'h \<Rightarrow> mem"
    and store :: "mem \<Rightarrow> 'h \<Rightarrow> 'h"
    and room :: "'h \<Rightarrow> nat"
    and alloc :: "bool \<Rightarrow> u32 \<Rightarrow> 'h \<Rightarrow> (u64 \<times> 'h) option"
    and release :: "u64 \<Rightarrow> 'h \<Rightarrow> 'h option"
  assumes alloc_law: "inv h L \<Longrightarrow> sz \<noteq> 0 \<Longrightarrow> unat sz < 2 ^ 30 \<Longrightarrow> (ok \<longrightarrow> unat sz + 8192 < room h) \<Longrightarrow>
      \<exists>p h'. alloc ok sz h = Some (p, h') \<and> room h \<le> room h' + unat sz + 8192 \<and> (\<forall>x \<in> live_bytes L. bytes h' x = bytes h x)
        \<and> (if p = 0 then \<not> ok \<and> h' = h else L p = None \<and> (\<exists>k \<ge> unat sz. inv h' (L(p \<mapsto> k))))"
    and release_law: "inv h L \<Longrightarrow> L p = Some n \<Longrightarrow>
      \<exists>h'. release p h = Some h' \<and> inv h' (L(p := None)) \<and> room h' = room h \<and> (\<forall>x \<in> live_bytes (L(p := None)). bytes h' x = bytes h x)"
    and release_null: "release 0 h = Some h"
    and disjoint_law: "inv h L \<Longrightarrow> L p = Some n \<Longrightarrow> L q = Some k \<Longrightarrow> p \<noteq> q \<Longrightarrow> block_bytes p n \<inter> block_bytes q k = {}"
    and bound_law: "inv h L \<Longrightarrow> L p = Some n \<Longrightarrow> p \<noteq> 0 \<and> unat p + n < 2 ^ 31"
    and write_law: "inv h L \<Longrightarrow> (\<forall>x. x \<notin> live_bytes L \<longrightarrow> m x = bytes h x) \<Longrightarrow> inv (store m h) L \<and> bytes (store m h) = m \<and> room (store m h) = room h"

section \<open>umalloc meets it\<close>

definition heap_inv :: "uheap \<Rightarrow> (u64 \<rightharpoonup> nat) \<Rightarrow> bool" where
  "heap_inv h L \<longleftrightarrow> (\<exists>s bs fl. heap_ok h s bs fl \<and> (\<forall>p n. L p = Some n \<longleftrightarrow> (p - 32, n) \<in> lives bs))"

definition can_grow :: "u32 \<Rightarrow> uheap \<Rightarrow> bool" where
  "can_grow n h \<longleftrightarrow> unat (ubrk h) + unat n + 8192 < 2 ^ 31"

definition heap_room :: "uheap \<Rightarrow> nat" where
  "heap_room h = 2 ^ 31 - unat (ubrk h)"

lemma can_grow_room: "can_grow n h \<longleftrightarrow> unat n + 8192 < heap_room h"
  by (auto simp: can_grow_def heap_room_def)

definition put_mem :: "mem \<Rightarrow> uheap \<Rightarrow> uheap" where
  "put_mem m h = h\<lparr>umem := m\<rparr>"

text \<open>The bytes of a block in use.\<close>

lemma live_data:
  assumes "heap_ok h s bs fl" "(p - 32, n) \<in> lives bs"
  shows "block_bytes p n = data (p - 32) n" "(p - 32, n, False) \<in> set bs" "p - 32 \<notin> set fl" "p \<noteq> 0" "unat p + n < 2 ^ 31"
proof -
  note r = heap_okD(1) [OF assms(1)]
  show m: "(p - 32, n, False) \<in> set bs" using assms(2) by (simp add: lives_iff)
  show "block_bytes p n = data (p - 32) n" using in_data_iff [OF r m] by (auto simp: block_bytes_def)
  note t = tiles_apart [OF repD(1) [OF r] m]
  show "p - 32 \<notin> set fl" using heap_okD(2) [OF assms(1)] t tiles_block [OF repD(1) [OF r]] by (fastforce simp: frees_iff)
  have "unat p = unat (p - 32) + 32" using unat_data_ptr [OF r m] by simp
  then show "p \<noteq> 0" "unat p + n < 2 ^ 31" using rep_addr(6) [OF r m] repD(3) [OF r] by auto
qed

lemma live_unique: "heap_ok h s bs fl \<Longrightarrow> (a, n) \<in> lives bs \<Longrightarrow> (a, k) \<in> lives bs \<Longrightarrow> n = k"
  using tiles_apart [OF repD(1) [OF heap_okD(1)], of h s bs fl a n False a k False] by (auto simp: lives_iff)

lemma live_frame:
  assumes ok: "heap_ok h s bs fl" and q: "(q, m) \<in> lives bs" and x: "x \<in> data q m" and F: "set F \<subseteq> addrs bs - {q}"
  shows "x \<notin> hbs bs \<union> lbs F"
  using data_untouched [OF heap_okD(1) [OF ok] _ F x] q by (auto simp: lives_iff lbs_def)

lemma free_not_live:
  assumes ok: "heap_ok h s bs fl" and q: "(q, m) \<in> lives bs"
  shows "set fl \<subseteq> addrs bs - {q}"
  using live_data(3) [OF ok, of "q + 32" m] q repD(8) [OF heap_okD(1) [OF ok]] by auto

lemma lives_apart:
  assumes ok: "heap_ok h s bs fl" and "(a, n) \<in> lives bs" "(q, m) \<in> lives bs" "a \<noteq> q"
  shows "data a n \<inter> data q m = {}"
  using tiles_apart [OF repD(1) [OF heap_okD(1) [OF ok]], of a n False q m False] assms(2-4) by (auto simp: lives_iff data_def)

lemma malloc_contract:
  assumes inv: "heap_inv h L" and sz: "n \<noteq> 0" "unat n < 2 ^ 30" and g: "ok \<longrightarrow> can_grow n h"
  shows "\<exists>p h'. malloc ok n h = Some (p, h') \<and> heap_room h \<le> heap_room h' + unat n + 8192 \<and> (\<forall>x \<in> live_bytes L. umem h' x = umem h x)
    \<and> (if p = 0 then \<not> ok \<and> h' = h else L p = None \<and> (\<exists>k \<ge> unat n. heap_inv h' (L(p \<mapsto> k))))"
proof -
  obtain s bs fl where ok: "heap_ok h s bs fl" and L: "\<And>p n. L p = Some n \<longleftrightarrow> (p - 32, n) \<in> lives bs"
    using inv by (auto simp: heap_inv_def)
  have g': "ok \<longrightarrow> unat (ubrk h) + unat n + 8192 < 2 ^ 31" using g by (simp add: can_grow_def)
  show ?thesis
  proof (cases rule: malloc_spec [OF ok sz g'])
    case 1
    then show ?thesis by simp
  next
    case (2 h' bs' fl' b k)
    have r': "rep h' s bs' fl'" using 2(2) by (simp add: heap_ok_def)
    have bl: "(b, k) \<in> lives bs'" using 2(4) by simp
    note bd = live_data [OF 2(2), of "b + 32" k]
    have Lb: "L (b + 32) = None" using L [of "b + 32"] 2(5) by (cases "L (b + 32)") force+
    have fr: "umem h' x = umem h x" if x: "x \<in> live_bytes L" for x
    proof -
      obtain q m where q: "(q - 32, m) \<in> lives bs" "x \<in> block_bytes q m" using x L by (auto simp: live_bytes_def)
      have q': "(q - 32, m) \<in> lives bs'" using q(1) 2(4) by simp
      have xd: "x \<in> data (q - 32) m" using q(2) live_data(1) [OF 2(2) q'] by simp
      have "b \<noteq> q - 32" using q(1) 2(5) by force
      then have "x \<notin> data b k" using lives_apart [OF 2(2) bl q'] xd by blast
      then show ?thesis using 2(7) live_frame [OF 2(2) q' xd free_not_live [OF 2(2) q']] by simp
    qed
    have "(L(b + 32 \<mapsto> k)) p = Some m \<longleftrightarrow> (p - 32, m) \<in> lives bs'" for p m
      using L [of p m] 2(4) Lb L [of "b + 32"] by (auto simp: diff_eq_eq)
    then have "heap_inv h' (L(b + 32 \<mapsto> k))" using 2(2) by (auto simp: heap_inv_def)
    moreover have "heap_room h \<le> heap_room h' + unat n + 8192" using 2(8) by (simp add: heap_room_def)
    ultimately show ?thesis using 2(1,3) fr Lb bd bl by auto
  qed
qed

lemma free_contract:
  assumes inv: "heap_inv h L" and p: "L p = Some n"
  shows "\<exists>h'. free p h = Some h' \<and> heap_inv h' (L(p := None)) \<and> heap_room h' = heap_room h
    \<and> (\<forall>x \<in> live_bytes (L(p := None)). umem h' x = umem h x)"
proof -
  obtain s bs fl where ok: "heap_ok h s bs fl" and L: "\<And>p n. L p = Some n \<longleftrightarrow> (p - 32, n) \<in> lives bs"
    using inv by (auto simp: heap_inv_def)
  have pl: "(p - 32, n) \<in> lives bs" using L p by simp
  obtain h' bs' fl' where F: "free (p - 32 + 32) h = Some h'" "heap_ok h' s bs' fl'" "lives bs' = lives bs - {(p - 32, n)}"
      "addrs bs' \<subseteq> addrs bs" "wrote_in (hbs bs \<union> lbs ((p - 32) # fl)) h h'"
    by (rule free_spec [OF ok pl])
  have eq: "(L(p := None)) q = Some m \<longleftrightarrow> (q - 32, m) \<in> lives bs'" for q m
    using L [of q m] L [of p m] p F(3) by (auto simp: diff_eq_eq)
  have "umem h' x = umem h x" if x: "x \<in> live_bytes (L(p := None))" for x
  proof -
    obtain q m where q: "(q - 32, m) \<in> lives bs" "x \<in> block_bytes q m" "q \<noteq> p"
      using x L unfolding live_bytes_def by (auto split: if_splits)
    have xd: "x \<in> data (q - 32) m" using q(2) live_data(1) [OF ok q(1)] by simp
    have "set ((p - 32) # fl) \<subseteq> addrs bs - {q - 32}"
      using free_not_live [OF ok q(1)] lives_addrs [OF pl] q(3) by (auto simp: diff_eq_eq)
    then show ?thesis using F(5) live_frame [OF ok q(1) xd, of "(p - 32) # fl"] by (simp add: wrote_in_def)
  qed
  moreover have "heap_room h' = heap_room h" using F(5) by (simp add: heap_room_def wrote_in_def)
  ultimately show ?thesis using F(1,2) eq unfolding heap_inv_def by auto
qed

interpretation umalloc: allocator heap_inv umem put_mem heap_room malloc free
proof
  fix h :: uheap and L p n q k m
  assume inv: "heap_inv h L"
  then obtain s bs fl where ok: "heap_ok h s bs fl" and L: "\<And>p n. L p = Some n \<longleftrightarrow> (p - 32, n) \<in> lives bs"
    by (auto simp: heap_inv_def)
  show "\<exists>h'. free p h = Some h' \<and> heap_inv h' (L(p := None)) \<and> heap_room h' = heap_room h \<and> (\<forall>x \<in> live_bytes (L(p := None)). umem h' x = umem h x)" if "L p = Some n"
    using free_contract [OF inv that] .
  show "block_bytes p n \<inter> block_bytes q k = {}" if "L p = Some n" "L q = Some k" "p \<noteq> q"
    using lives_apart [OF ok, of "p - 32" n "q - 32" k] live_data(1) [OF ok] that L by (simp add: diff_eq_eq)
  show "p \<noteq> 0 \<and> unat p + n < 2 ^ 31" if "L p = Some n" using live_data(4,5) [OF ok] that L by simp
  show "heap_inv (put_mem m h) L \<and> umem (put_mem m h) = m \<and> heap_room (put_mem m h) = heap_room h" if m: "\<forall>x. x \<notin> live_bytes L \<longrightarrow> m x = umem h x"
  proof -
    have "rep (h\<lparr>umem := m\<rparr>) s bs fl"
    proof (rule rep_write [OF heap_okD(1) [OF ok]])
      fix x assume "m x \<noteq> umem h x"
      then have "x \<in> live_bytes L" using m by blast
      then obtain p n where "(p - 32, n) \<in> lives bs" "x \<in> block_bytes p n" using L by (auto simp: live_bytes_def)
      then show "\<exists>a n f. (a, n, f) \<in> set bs \<and> a \<notin> set fl \<and> x \<in> data a n" using live_data [OF ok] by blast
    qed
    then have "heap_ok (h\<lparr>umem := m\<rparr>) s bs fl" using heap_okD(2) [OF ok] by (simp add: heap_ok_def)
    then show ?thesis using L by (auto simp: heap_inv_def put_mem_def heap_room_def)
  qed
qed (use malloc_contract [unfolded can_grow_room] in blast, simp add: free_def)

section \<open>realloc\<close>

text \<open>The data of free blocks, where the free list runs.\<close>

definition fdata :: "blk list \<Rightarrow> u64 set" where
  "fdata bs = {x. \<exists>a n. (a, n, True) \<in> set bs \<and> x \<in> data a n}"

lemma lbs_fdata:
  assumes "heap_ok h s bs fl"
  shows "lbs fl \<subseteq> fdata bs"
proof
  fix x assume "x \<in> lbs fl"
  then obtain c where c: "c \<in> frees bs" "x \<in> lb c" using heap_okD(2) [OF assms] by (auto simp: lbs_def)
  then obtain n where n: "(c, n, True) \<in> set bs" by (auto simp: frees_iff)
  then show "x \<in> fdata bs" using c(2) rep_addr(4) [OF heap_okD(1) [OF assms] n] by (fastforce simp: fdata_def lb_def data_def)
qed

lemma live_frame2:
  assumes ok: "heap_ok h s bs fl" and q: "(q, m) \<in> lives bs" and x: "x \<in> data q m"
  shows "x \<notin> hbs bs \<union> fdata bs"
proof -
  have "x \<notin> fdata bs" using tiles_apart [OF repD(1) [OF heap_okD(1) [OF ok]], of q m False] q x by (fastforce simp: fdata_def data_def lives_iff)
  then show ?thesis using live_frame [OF ok q x free_not_live [OF ok q]] by blast
qed

lemma tiles_cover: "tiles s bs e \<Longrightarrow> s \<le> unat x \<Longrightarrow> unat x < e \<Longrightarrow> \<exists>a n f. (a, n, f) \<in> set bs \<and> x \<in> hb a \<union> data a n"
proof (induction bs arbitrary: s)
  case (Cons c bs)
  obtain a n f where c: "c = (a, n, f)" by (cases c)
  have t: "unat a = s" "tiles (s + 32 + n) bs e" using Cons.prems(1) c by auto
  show ?case
  proof (cases "unat x < s + 32 + n")
    case True
    then have "x \<in> hb a \<union> data a n" using Cons.prems(2) t(1) by (auto simp: hb_def data_def)
    then show ?thesis using c by auto
  next
    case False
    then show ?thesis using Cons.IH [OF t(2)] Cons.prems(3) by auto
  qed
qed simp

text \<open>The block of \<open>p\<close> is resized where it is.\<close>

lemma resized_in_place:
  assumes ok: "heap_ok h s bs fl" and L: "\<And>p n. L p = Some n \<longleftrightarrow> (p - 32, n) \<in> lives bs" and p: "L p = Some n"
    and ok': "heap_ok h' s bs' fl'" and lv: "lives bs' = insert (p - 32, k) (lives bs - {(p - 32, n)})"
    and w: "\<And>x. x \<notin> hbs bs' \<union> fdata bs' \<union> (data (p - 32) k - data (p - 32) n) \<Longrightarrow> umem h' x = umem h x"
  shows "heap_inv h' ((L(p := None))(p \<mapsto> k))" "\<forall>x \<in> live_bytes (L(p := None)). umem h' x = umem h x"
    "\<forall>i < min n k. umem h' (p + of_nat i) = umem h (p + of_nat i)"
proof -
  have pl: "(p - 32, n) \<in> lives bs" "(p - 32, k) \<in> lives bs'" using L p lv by auto
  have "((L(p := None))(p \<mapsto> k)) q = Some m \<longleftrightarrow> (q - 32, m) \<in> lives bs'" for q m
    using L [of q m] p lv live_unique [OF ok pl(1)] by (auto simp: diff_eq_eq)
  then show "heap_inv h' ((L(p := None))(p \<mapsto> k))" using ok' unfolding heap_inv_def by blast
  show "\<forall>x \<in> live_bytes (L(p := None)). umem h' x = umem h x"
  proof
    fix x assume "x \<in> live_bytes (L(p := None))"
    then obtain q m where q: "(q - 32, m) \<in> lives bs" "x \<in> block_bytes q m" "q \<noteq> p"
      using L unfolding live_bytes_def by (auto split: if_splits)
    have q': "(q - 32, m) \<in> lives bs'" "p - 32 \<noteq> q - 32" using q(1,3) lv by (auto simp: diff_eq_eq)
    have xd: "x \<in> data (q - 32) m" using q(2) live_data(1) [OF ok q(1)] by simp
    have "x \<notin> data (p - 32) k" using lives_apart [OF ok' pl(2) q'] xd by blast
    then show "umem h' x = umem h x" using w live_frame2 [OF ok' q'(1) xd] by blast
  qed
  show "\<forall>i < min n k. umem h' (p + of_nat i) = umem h (p + of_nat i)"
  proof (intro allI impI)
    fix i assume i: "i < min n k"
    have "i < 2 ^ 64" using i live_data(5) [OF ok pl(1)] by simp
    then have x: "p + of_nat i \<in> block_bytes p n" "p + of_nat i \<in> block_bytes p k" using i by (simp_all add: block_bytes_def unat_of_nat64)
    then have "p + of_nat i \<in> data (p - 32) n" "p + of_nat i \<in> data (p - 32) k" using live_data(1) [OF ok pl(1)] live_data(1) [OF ok' pl(2)] by auto
    then show "umem h' (p + of_nat i) = umem h (p + of_nat i)" using w live_frame2 [OF ok' pl(2)] by blast
  qed
qed

lemma realloc_shrink:
  assumes ok: "heap_ok h s bs fl" and pl: "(a, n) \<in> lives bs" and k: "k mod 16 = 0" "16 \<le> k" "k \<le> n"
  obtains h' bs' fl' n' where "split_block a (of_nat k) h = Some h'" "heap_ok h' s bs' fl'" "lives bs' = insert (a, n') (lives bs - {(a, n)})" "k \<le> n'"
    "\<And>x. x \<notin> hbs bs' \<union> fdata bs' \<Longrightarrow> umem h' x = umem h x"
proof -
  obtain xs ys where bs: "bs = xs @ (a, n, False) # ys" using pl by (auto simp: lives_iff dest: split_list)
  note r = heap_okD(1) [OF ok, unfolded bs] note M = rep_mid [OF r]
  show thesis
  proof (cases rule: split_spec [OF r k])
    case 1
    then show ?thesis using that [OF 1(2) ok, of n] pl k(3) by blast
  next
    case (2 h' fl' c)
    let ?bs = "xs @ (a, k, False) # (c, n - k - 32, True) # ys"
    have ok': "heap_ok h' s ?bs fl'" using 2(4,5) heap_okD(2) [OF ok] bs by (simp add: heap_ok_def)
    have lv: "lives ?bs = insert (a, k) (lives bs - {(a, n)})" using bs M(3,4) lives_addrs by fastforce
    have "lbs (c # fl) \<subseteq> fdata ?bs" using lbs_fdata [OF ok'] 2(5) by (simp add: lbs_def)
    then have "umem h' x = umem h x" if "x \<notin> hbs ?bs \<union> fdata ?bs" for x using that 2(7) by (auto simp: wrote_in_def)
    then show ?thesis using that [OF 2(2) ok' lv] by blast
  qed
qed

lemma realloc_extend:
  assumes ok: "heap_ok h s bs fl" and bs: "bs = xs @ (a, n, False) # (c, n2, True) # zs" and k: "k mod 16 = 0" "16 \<le> k" "n < k" "k \<le> n + 32 + n2"
  obtains h1 h2 h' bs' fl' n' where "remove_from_free_list c h = Some h1"
    "split_block a (of_nat k) (join_next a c (of_nat (n + 32 + n2) AND NOT 1) h1) = Some h2"
    "h' = scribble (a + 32 + of_nat n) (of_nat (n' - n)) (set_used a h2)" "get_size (umem (set_used a h2)) a = of_nat n'" "n' < 2 ^ 31"
    "heap_ok h' s bs' fl'" "lives bs' = insert (a, n') (lives bs - {(a, n)})" "k \<le> n'"
    "\<And>x. x \<notin> hbs bs' \<union> fdata bs' \<union> (data a n' - data a n) \<Longrightarrow> umem h' x = umem h x"
proof -
  note r = heap_okD(1) [OF ok] note t = repD(1) [OF r]
  have ac: "(a, n, False) \<in> set bs" "(c, n2, True) \<in> set bs" using bs by auto
  have r': "rep h s ((xs @ [(a, n, False)]) @ (c, n2, True) # zs) fl" using r bs by simp
  note M = rep_mid [OF r [unfolded bs]] and M2 = rep_mid [OF r']
  obtain h1 where h1: "remove_from_free_list c h = Some h1" "rep h1 s bs (remove1 c fl)" "wrote_in (\<Union>c \<in> set fl. lb c) h h1"
    by (rule remove_spec [OF r])
  have rm: "set (remove1 c fl) = set fl - {c}" using repD(7) [OF r] by simp
  have cn: "c \<notin> set (remove1 c fl)" using rm by simp
  have nf: "c \<notin> frees xs" "c \<notin> frees zs" "a \<notin> frees xs" "a \<notin> frees zs" using M(3,4) M2(3,4) frees_addrs [of xs] frees_addrs [of zs] by auto
  have ev: "even (n + 32 + n2)" using rep_addr(3) [OF r ac(1)] rep_addr(3) [OF r ac(2)] by simp
  let ?h2 = "join_next a c (enc (n + 32 + n2) False) h1"
  note J = rep_join [OF h1(2) [unfolded bs] cn, of False]
  have fl1: "set (remove1 c fl) = frees xs \<union> frees zs" using rm heap_okD(2) [OF ok] bs nf by auto
  have an: "a \<notin> set (remove1 c fl)" using fl1 nf by simp
  obtain h3 bs' fl' n' where S: "split_block a (of_nat k) ?h2 = Some h3" "heap_ok (set_used a h3) s bs' fl'" "k \<le> n'" "n' \<le> n + 32 + n2"
    "lives bs' = insert (a, n') (lives xs \<union> lives zs)" "(a, n', False) \<in> set bs'"
    "wrote_in (hbs bs' \<union> lbs fl') ?h2 (set_used a h3)" "set (remove1 c fl) \<subseteq> set fl'"
    "addrs (xs @ (a, n + 32 + n2, False) # zs) \<subseteq> addrs bs'" "a \<notin> set fl'"
    by (rule split_used_spec [OF J(1) an k(1,2,4) fl1])
  note r3 = heap_okD(1) [OF S(2)] let ?h3 = "set_used a h3"
  let ?h' = "scribble (a + 32 + of_nat n) (of_nat (n' - n)) ?h3" let ?X = "hbs bs' \<union> fdata bs' \<union> (data a n' - data a n)"
  have b: "n' < 2 ^ 31" "unat (of_nat (n' - n) :: u32) = n' - n" using rep_addr(2) [OF r3 S(6)] by (auto simp: unat_of_nat)
  have le: "n + unat (of_nat (n' - n) :: u32) \<le> n'" using b(2) S(3) k(3) by simp
  note C = scribble_spec [OF r3 S(6,10) le]
  have ok': "heap_ok ?h' s bs' fl'" using C(1) S(2) by (simp add: heap_ok_def)
  have lv: "lives bs' = insert (a, n') (lives bs - {(a, n)})" using S(5) bs M(3,4) lives_addrs by fastforce
  have lbc: "lb c \<subseteq> ?X"
  proof
    fix x assume x: "x \<in> lb c"
    have xc: "x \<in> data c n2" using x rep_addr(4) [OF r ac(2)] by (auto simp: lb_def data_def)
    have sx: "s \<le> unat x" "unat x < unat (ubrk h)" using x tiles_block [OF t ac(2)] by (auto simp: lb_def)
    have ub: "ubrk ?h3 = ubrk h" using h1(3) J(2) S(7) by (simp add: wrote_in_def)
    obtain d m f where d: "(d, m, f) \<in> set bs'" "x \<in> hb d \<union> data d m" using tiles_cover [OF repD(1) [OF r3] sx(1)] sx(2) ub by auto
    show "x \<in> ?X"
    proof (cases "x \<in> hb d \<or> f")
      case True
      then show ?thesis using d by (auto simp: hbs_def fdata_def)
    next
      case False
      then have dm: "(d, m) \<in> lives bs'" "x \<in> data d m" using d by (auto simp: lives_iff)
      have "unat a + 32 + n \<le> unat c" using t bs by (auto dest: tiles_le)
      then have na: "x \<notin> data a n" using x by (auto simp: lb_def data_def)
      have "(d, m) \<notin> lives bs" using tiles_apart [OF t ac(2), of d m False] dm(2) xc by (auto simp: lives_iff data_def)
      then have "(d, m) = (a, n')" using dm(1) lv by auto
      then show ?thesis using dm(2) na by auto
    qed
  qed
  have lbs: "lbs fl' \<subseteq> fdata bs'" using lbs_fdata [OF S(2)] .
  have "(\<Union>c \<in> set fl. lb c) \<subseteq> ?X" using S(8) rm lbs lbc by (fastforce simp: lbs_def)
  then have w1: "wrote_in ?X h h1" using wrote_mono [OF h1(3)] by blast
  have w2: "wrote_in ?X h1 ?h2" by (rule wrote_mono [OF J(2)]) (use S(9) in \<open>auto simp: hbs_def\<close>)
  have w3: "wrote_in ?X ?h2 ?h3" by (rule wrote_mono [OF S(7)]) (use lbs in auto)
  have w4: "wrote_in ?X ?h3 ?h'" by (rule wrote_mono [OF C(2)]) (auto simp: data_def)
  have "wrote_in ?X h ?h'" using wrote_in_trans [OF w1 wrote_in_trans [OF w2 wrote_in_trans [OF w3 w4]]] .
  then have w: "umem ?h' x = umem h x" if "x \<notin> ?X" for x using that by (simp add: wrote_in_def)
  have S1: "split_block a (of_nat k) (join_next a c (of_nat (n + 32 + n2) AND NOT 1) h1) = Some h3" using S(1) enc_simps(5) [OF ev] by simp
  show thesis by (rule that [OF h1(1) S1 refl rep_fields(1) [OF r3 S(6)] b(1) ok' lv S(3) w])
qed

text \<open>The block is moved: allocate, copy, free.\<close>

lemma realloc_move:
  assumes inv: "heap_inv h L" and p: "L p = Some n" and sz: "sz \<noteq> 0" "unat sz < 2 ^ 30" "n < unat sz" and g: "ok \<longrightarrow> can_grow sz h"
  obtains (fail) "malloc ok sz h = Some (0, h)" "\<not> ok"
    | (moved) q h1 h2 k where "malloc ok sz h = Some (q, h1)" "q \<noteq> 0" "free p (h1\<lparr>umem := memmoveu (umem h1) q p (int n)\<rparr>) = Some h2"
      "L q = None" "unat sz \<le> k" "heap_inv h2 ((L(p := None))(q \<mapsto> k))" "\<forall>x \<in> live_bytes (L(p := None)). umem h2 x = umem h x"
      "\<forall>i < min n k. umem h2 (q + of_nat i) = umem h (p + of_nat i)"
proof -
  obtain q h1 where m: "malloc ok sz h = Some (q, h1)" "\<forall>x \<in> live_bytes L. umem h1 x = umem h x"
      "if q = 0 then \<not> ok \<and> h1 = h else L q = None \<and> (\<exists>k \<ge> unat sz. heap_inv h1 (L(q \<mapsto> k)))"
    using malloc_contract [OF inv sz(1,2) g] by blast
  show thesis
  proof (cases "q = 0")
    case True
    then show thesis using fail m by simp
  next
    case False
    then obtain k where k: "L q = None" "unat sz \<le> k" "heap_inv h1 (L(q \<mapsto> k))" using m(3) by auto
    have pq: "p \<noteq> q" using p k(1) by auto
    note bp = umalloc.bound_law [OF k(3), of p n] and bq = umalloc.bound_law [OF k(3), of q k]
    let ?m = "memmoveu (umem h1) q p (int n)"
    have mm: "?m = wr_bytes (umem h1) q (rd_bytes (umem h1) p n)"
      using bp bq p pq sz(3) k(2) by (intro memmoveu_copies) simp_all
    have out: "?m x = umem h1 x" if "x \<notin> block_bytes q k" for x
      using that mm sz(3) k(2) by (simp add: wr_bytes_apply block_bytes_def)
    have "\<forall>x. x \<notin> live_bytes (L(q \<mapsto> k)) \<longrightarrow> ?m x = umem h1 x"
      using out by (auto simp: live_bytes_def split: if_splits)
    then have inv2: "heap_inv (put_mem ?m h1) (L(q \<mapsto> k))" using umalloc.write_law [OF k(3)] by blast
    obtain h2 where f: "free p (put_mem ?m h1) = Some h2" "heap_inv h2 ((L(q \<mapsto> k))(p := None))"
        "\<forall>x \<in> live_bytes ((L(q \<mapsto> k))(p := None)). umem h2 x = ?m x"
      using free_contract [OF inv2, of p n] p pq by (auto simp: put_mem_def)
    have tw: "(L(q \<mapsto> k))(p := None) = (L(p := None))(q \<mapsto> k)" using pq by (simp add: fun_upd_twist)
    have sub: "live_bytes (L(p := None)) \<subseteq> live_bytes ((L(q \<mapsto> k))(p := None))"
      using k(1) unfolding live_bytes_def by (auto split: if_splits)
    have keep: "umem h2 x = umem h x" if x: "x \<in> live_bytes (L(p := None))" for x
    proof -
      obtain r j where r: "L r = Some j" "r \<noteq> p" "x \<in> block_bytes r j" using x unfolding live_bytes_def by (auto split: if_splits)
      then have "r \<noteq> q" using k(1) by auto
      then have "x \<notin> block_bytes q k" using umalloc.disjoint_law [OF k(3), of r j q k] r by auto
      then have "?m x = umem h1 x" by (rule out)
      moreover have "x \<in> live_bytes L" using r by (auto simp: live_bytes_def)
      moreover have "umem h2 x = ?m x" using f(3) sub x by blast
      ultimately show ?thesis using m(2) by simp
    qed
    have copy: "umem h2 (q + of_nat i) = umem h (p + of_nat i)" if i: "i < min n k" for i
    proof -
      have i64: "i < 2 ^ 64" using i bp p pq by simp
      then have "q + of_nat i \<in> block_bytes q k" "p + of_nat i \<in> block_bytes p n" using i by (simp_all add: block_bytes_def unat_of_nat64)
      then have "q + of_nat i \<in> live_bytes ((L(q \<mapsto> k))(p := None))" "p + of_nat i \<in> live_bytes L" using p pq unfolding live_bytes_def by fastforce+
      then have "umem h2 (q + of_nat i) = ?m (q + of_nat i)" "umem h1 (p + of_nat i) = umem h (p + of_nat i)" using f(3) m(2) by blast+
      moreover have "?m (q + of_nat i) = umem h1 (p + of_nat i)" using mm i i64 by (simp add: wr_bytes_apply unat_of_nat64)
      ultimately show ?thesis by simp
    qed
    show thesis using moved [OF m(1) False _ k(1,2)] f(1,2) tw keep copy by (simp add: put_mem_def)
  qed
qed

lemma realloc_contract:
  assumes inv: "heap_inv h L" and p: "L p = Some n" and sz: "sz \<noteq> 0" "unat sz + 32 < 2 ^ 30" and g: "ok \<longrightarrow> can_grow (sz + 16) h"
  shows "\<exists>q h'. realloc ok p sz h = Some (q, h') \<and> (\<forall>x \<in> live_bytes (L(p := None)). umem h' x = umem h x)
    \<and> (if q = 0 then \<not> ok \<and> h' = h
       else (q = p \<or> L q = None) \<and> (\<exists>k \<ge> unat sz. heap_inv h' ((L(p := None))(q \<mapsto> k))
              \<and> (\<forall>i < min n k. umem h' (q + of_nat i) = umem h (p + of_nat i))))"
proof -
  obtain s bs fl where ok: "heap_ok h s bs fl" and L: "\<And>p n. L p = Some n \<longleftrightarrow> (p - 32, n) \<in> lives bs"
    using inv by (auto simp: heap_inv_def)
  let ?a = "p - 32"
  have pl: "(?a, n) \<in> lives bs" using L p by simp
  note LD = live_data [OF ok pl] note r = heap_okD(1) [OF ok]
  obtain xs ys where bs: "bs = xs @ (?a, n, False) # ys" using LD(2) by (auto dest: split_list)
  have nx: "next_block (umem h) ?a = fst_addr ys 0" using rep_mid(2) [OF r [unfolded bs]] by simp
  obtain k where k: "data_size sz = of_nat k" "k mod 16 = 0" "16 \<le> k" "unat sz \<le> k" "k < unat sz + 17"
    using data_size_spec [of sz] sz(2) by auto
  have u: "unat (of_nat k :: u32) = k" "unat (of_nat n :: u32) = n" using k(5) sz(2) LD(5) by (simp_all add: unat_of_nat)
  have old: "get_size (umem h) ?a = of_nat n" using rep_fields(1) [OF r LD(2)] .
  have shr: "of_nat k \<le> (of_nat n :: u32) \<longleftrightarrow> k \<le> n" using u by (simp add: word_le_nat_alt)
  show ?thesis
  proof (cases "k \<le> n")
    case True
    obtain h' bs' fl' n' where S: "split_block ?a (of_nat k) h = Some h'" "heap_ok h' s bs' fl'" "lives bs' = insert (?a, n') (lives bs - {(?a, n)})" "k \<le> n'"
      "\<And>x. x \<notin> hbs bs' \<union> fdata bs' \<Longrightarrow> umem h' x = umem h x"
      by (rule realloc_shrink [OF ok pl k(2,3) True]) blast
    have "realloc ok p sz h = Some (p, h')" using LD(4) sz(1) k(1) old shr True S(1) by (simp add: realloc_def Let_def)
    moreover note R = resized_in_place [OF ok L p S(2,3) S(5)]
    moreover have "\<exists>k \<ge> unat sz. heap_inv h' ((L(p := None))(p \<mapsto> k)) \<and> (\<forall>i < min n k. umem h' (p + of_nat i) = umem h (p + of_nat i))"
      using R(1,3) S(4) k(4) by (intro exI [of _ n']) simp
    ultimately show ?thesis using R(2) LD(4) by (intro exI [of _ p] exI [of _ h']) simp
  next
    case False
    show ?thesis
    proof (cases "\<exists>c n2 zs. ys = (c, n2, True) # zs \<and> k \<le> n + 32 + n2")
      case True
      then obtain c n2 zs where ys: "ys = (c, n2, True) # zs" "k \<le> n + 32 + n2" by blast
      have cin: "(c, n2, True) \<in> set bs" using bs ys by simp
      have nk: "n < k" using False by simp
      obtain h1 h2 h' bs' fl' n' where E: "remove_from_free_list c h = Some h1"
          "split_block ?a (of_nat k) (join_next ?a c (of_nat (n + 32 + n2) AND NOT 1) h1) = Some h2"
          "h' = scribble (?a + 32 + of_nat n) (of_nat (n' - n)) (set_used ?a h2)" "get_size (umem (set_used ?a h2)) ?a = of_nat n'" "n' < 2 ^ 31"
          "heap_ok h' s bs' fl'" "lives bs' = insert (?a, n') (lives bs - {(?a, n)})" "k \<le> n'"
          "\<And>x. x \<notin> hbs bs' \<union> fdata bs' \<union> (data ?a n' - data ?a n) \<Longrightarrow> umem h' x = umem h x"
        by (rule realloc_extend [OF ok bs [unfolded ys(1)] k(2,3) nk ys(2)]) blast
      have cz: "c \<noteq> 0" "is_free (umem h) c" "get_size (umem h) c = of_nat n2" using rep_addr(1) [OF r cin] rep_fields(1,2) [OF r cin] by auto
      have comb: "(of_nat n + 32 + of_nat n2 :: u32) = of_nat (n + 32 + n2)" by simp
      have "unat (?a) + 32 + n + 32 + n2 < 2 ^ 31" using repD(1,3) [OF r] bs ys by (auto dest: tiles_le)
      then have "unat (of_nat (n + 32 + n2) :: u32) = n + 32 + n2" by (simp only: unat_of_nat) simp
      then have ge: "of_nat k \<le> (of_nat (n + 32 + n2) :: u32)" using u(1) ys(2) by (simp only: word_le_nat_alt)
      have len: "(of_nat n' - of_nat n :: u32) = of_nat (n' - n)" using E(8) nk by simp
      have "unat (of_nat (n' - n) :: u32) = n' - n" using E(5) by (simp add: unat_of_nat)
      then have len0: "(of_nat (n' - n) :: u32) \<noteq> 0" using E(8) nk by (metis not_le unat_0 zero_less_diff le_zero_eq less_le_trans)
      have ne: "(of_nat n' :: u32) \<noteq> of_nat n" using len len0 by auto
      have un: "ucast (of_nat n :: u32) = (of_nat n :: u64)" using u(2) by (metis of_nat_unat)
      have "realloc ok p sz h = Some (p, h')"
        unfolding realloc_def Let_def k(1) old nx ys(1) addr_simps cz(3) comb using LD(4) sz(1) shr False cz(1,2) ge E(1-4) len len0 ne un
        by simp
      moreover note R = resized_in_place [OF ok L p E(6,7,9)]
      moreover have "\<exists>k \<ge> unat sz. heap_inv h' ((L(p := None))(p \<mapsto> k)) \<and> (\<forall>i < min n k. umem h' (p + of_nat i) = umem h (p + of_nat i))"
      using R(1,3) E(8) k(4) by (intro exI [of _ n']) simp
    ultimately show ?thesis using R(2) LD(4) by (intro exI [of _ p] exI [of _ h']) simp
    next
      case no: False
      have cond: "\<not> (fst_addr ys 0 \<noteq> 0 \<and> is_free (umem h) (fst_addr ys 0) \<and> of_nat k \<le> of_nat n + 32 + get_size (umem h) (fst_addr ys 0))"
      proof (cases ys)
        case (Cons y zs)
        obtain c n2 f where y: "y = (c, n2, f)" by (cases y)
        have cin: "(c, n2, f) \<in> set bs" using bs Cons y by simp
        have "unat ?a + 32 + n + 32 + n2 < 2 ^ 31" using repD(1,3) [OF r] bs Cons y by (auto dest: tiles_le)
        then have "unat (of_nat (n + 32 + n2) :: u32) = n + 32 + n2" by (simp only: unat_of_nat) simp
        then have "of_nat k \<le> (of_nat (n + 32 + n2) :: u32) \<longleftrightarrow> k \<le> n + 32 + n2" using u(1) by (simp only: word_le_nat_alt)
        then show ?thesis using no Cons y rep_fields(1,2) [OF r cin] by auto
      qed simp
      have kk: "(of_nat k :: u32) \<noteq> 0" "unat (of_nat k :: u32) < 2 ^ 30" "n < unat (of_nat k :: u32)" using u(1) k(3,5) sz(2) False by auto
      have "unat (sz + 16) = unat sz + 16" using sz(2) by (simp add: unat_word_ariths)
      then have g': "ok \<longrightarrow> can_grow (of_nat k) h" using g u(1) k(5) by (auto simp: can_grow_def)
      have so: "sint (of_nat n :: u32) = int n" using LD(5) by (intro sint_small) simp
      have run: "realloc ok p sz h = Option.bind (malloc ok (of_nat k) h) (\<lambda>(newp, h1). if newp = 0 then Some (0, h1)
          else Option.bind (free p (h1\<lparr>umem := memmoveu (umem h1) newp p (int n)\<rparr>)) (\<lambda>h2. Some (newp, h2)))"
        unfolding realloc_def Let_def k(1) old nx so using LD(4) sz(1) shr False cond by auto
      show ?thesis
      proof (cases rule: realloc_move [OF inv p kk g'])
        case 1
        then show ?thesis using run by simp
      next
        case (2 q h1 h2 j)
        have "\<exists>k \<ge> unat sz. heap_inv h2 ((L(p := None))(q \<mapsto> k)) \<and> (\<forall>i < min n k. umem h2 (q + of_nat i) = umem h (p + of_nat i))"
          using 2(5,6,8) u(1) k(4) by (intro exI [of _ j]) simp
        then show ?thesis using run 2 by (intro exI [of _ q] exI [of _ h2]) simp
      qed
    qed
  qed
qed

section \<open>Histories\<close>

text \<open>
  A program that uses the heap: it starts with no block, calls the allocator with pointers it was
  given and not freed, changes the settings, and writes only to its blocks.
\<close>

inductive heap_run :: "uheap \<Rightarrow> (u64 \<rightharpoonup> nat) \<Rightarrow> bool" where
  hr_init: "head h = 0 \<Longrightarrow> free_list h = 0 \<Longrightarrow> ubrk h \<noteq> 0 \<Longrightarrow> unat (ubrk h) < 2 ^ 31 \<Longrightarrow> heap_run h Map.empty"
| hr_malloc: "heap_run h L \<Longrightarrow> n \<noteq> 0 \<Longrightarrow> unat n < 2 ^ 30 \<Longrightarrow> ok \<longrightarrow> can_grow n h \<Longrightarrow> malloc ok n h = Some (p, h') \<Longrightarrow>
    L' = (if p = 0 then L else L(p \<mapsto> unat (get_size (umem h') (p - 32)))) \<Longrightarrow> heap_run h' L'"
| hr_free: "heap_run h L \<Longrightarrow> L p = Some n \<Longrightarrow> free p h = Some h' \<Longrightarrow> heap_run h' (L(p := None))"
| hr_realloc: "heap_run h L \<Longrightarrow> L p = Some k \<Longrightarrow> n \<noteq> 0 \<Longrightarrow> unat n + 32 < 2 ^ 30 \<Longrightarrow> ok \<longrightarrow> can_grow (n + 16) h \<Longrightarrow> realloc ok p n h = Some (q, h') \<Longrightarrow>
    L' = (if q = 0 then L else (L(p := None))(q \<mapsto> unat (get_size (umem h') (q - 32)))) \<Longrightarrow> heap_run h' L'"
| hr_write: "heap_run h L \<Longrightarrow> \<forall>x. x \<notin> live_bytes L \<longrightarrow> m x = umem h x \<Longrightarrow> heap_run (put_mem m h) L"
| hr_scribble: "heap_run h L \<Longrightarrow> heap_run (malloc_scribble e h) L"
| hr_setfsm: "heap_run h L \<Longrightarrow> heap_run (malloc_setfsm a h) L"

lemma heap_inv_size: "heap_inv h L \<Longrightarrow> L p = Some n \<Longrightarrow> unat (get_size (umem h) (p - 32)) = n"
proof -
  assume "heap_inv h L" "L p = Some n"
  then obtain s bs fl where ok: "heap_ok h s bs fl" "(p - 32, n) \<in> lives bs" by (auto simp: heap_inv_def)
  note LD = live_data [OF ok]
  show ?thesis using rep_fields(1) [OF heap_okD(1) [OF ok(1)] LD(2)] LD(5) by (simp add: unat_of_nat)
qed

lemma heap_inv_settings:
  "heap_inv (h\<lparr>scribble_enabled := e\<rparr>) L = heap_inv h L" "heap_inv (h\<lparr>current_fsm := a\<rparr>) L = heap_inv h L"
  by (simp_all add: heap_inv_def heap_ok_def rep_def)

lemma heap_run_inv: "heap_run h L \<Longrightarrow> heap_inv h L"
proof (induction rule: heap_run.induct)
  case (hr_init h)
  then have "heap_ok h (unat (ubrk h)) [] []" by (simp add: heap_ok_def rep_def unat_gt_0)
  then show ?case unfolding heap_inv_def by (intro exI [of _ "unat (ubrk h)"] exI [of _ "[]"]) simp
next
  case (hr_malloc h L n ok p h' L')
  obtain q h'' where "malloc ok n h = Some (q, h'')" "if q = 0 then \<not> ok \<and> h'' = h else L q = None \<and> (\<exists>k \<ge> unat n. heap_inv h'' (L(q \<mapsto> k)))"
    using malloc_contract [OF hr_malloc.IH hr_malloc.hyps(2,3,4)] by blast
  then show ?case using hr_malloc.hyps(5,6) hr_malloc.IH heap_inv_size [of h' _ p] by (auto split: if_splits)
next
  case (hr_free h L p n h')
  then show ?case using free_contract [OF hr_free.IH hr_free.hyps(2)] by (auto simp del: fun_upd_apply)
next
  case (hr_realloc h L p k n ok q h' L')
  obtain r h'' where "realloc ok p n h = Some (r, h'')" "if r = 0 then \<not> ok \<and> h'' = h
      else (r = p \<or> L r = None) \<and> (\<exists>k' \<ge> unat n. heap_inv h'' ((L(p := None))(r \<mapsto> k')) \<and> (\<forall>i < min k k'. umem h'' (r + of_nat i) = umem h (p + of_nat i)))"
    using realloc_contract [OF hr_realloc.IH hr_realloc.hyps(2-5)] by blast
  then show ?case using hr_realloc.hyps(6,7) hr_realloc.IH heap_inv_size [of h' _ q] by (auto split: if_splits)
next
  case (hr_write h L m)
  then show ?case using umalloc.write_law by blast
qed (simp_all add: malloc_scribble_def malloc_setfsm_def heap_inv_settings)





text \<open>
  C27. \<open>malloc\<close> returns 0, changing nothing, only when the kernel refuses more memory; otherwise it returns a new
  block of at least the wanted size, and the bytes of the blocks in use stay as they are.
\<close>

theorem malloc_fresh_block:
  assumes "heap_run h L" "n \<noteq> 0" "unat n < 2 ^ 30" "ok \<longrightarrow> can_grow n h"
  shows "\<exists>p h'. malloc ok n h = Some (p, h') \<and> (\<forall>x \<in> live_bytes L. umem h' x = umem h x)
    \<and> (if p = 0 then \<not> ok \<and> h' = h else L p = None \<and> (\<exists>k \<ge> unat n. heap_run h' (L(p \<mapsto> k))))"
proof -
  obtain p h' where m: "malloc ok n h = Some (p, h')" "\<forall>x \<in> live_bytes L. umem h' x = umem h x"
      "if p = 0 then \<not> ok \<and> h' = h else L p = None \<and> (\<exists>k \<ge> unat n. heap_inv h' (L(p \<mapsto> k)))"
    using malloc_contract [OF heap_run_inv [OF assms(1)] assms(2-4)] by blast
  have "\<exists>k \<ge> unat n. heap_run h' (L(p \<mapsto> k))" if "p \<noteq> 0"
    using m(3) that hr_malloc [OF assms m(1) refl] heap_inv_size [of h' _ p] by auto
  then show ?thesis using m by auto
qed

text \<open>
  C28. \<open>realloc\<close> of a block in use never loses data: it returns 0 and changes nothing, which happens only
  when the kernel refuses more memory, or it returns a block of at least the wanted size that
  starts with the bytes of the old one, as far as both reach. The other blocks in use stay as they are.
\<close>

theorem realloc_keeps_contents:
  assumes "heap_run h L" "L p = Some n" "sz \<noteq> 0" "unat sz + 32 < 2 ^ 30" "ok \<longrightarrow> can_grow (sz + 16) h"
  shows "\<exists>q h'. realloc ok p sz h = Some (q, h') \<and> (\<forall>x \<in> live_bytes (L(p := None)). umem h' x = umem h x)
    \<and> (if q = 0 then \<not> ok \<and> h' = h
       else (q = p \<or> L q = None) \<and> (\<exists>k \<ge> unat sz. heap_inv h' ((L(p := None))(q \<mapsto> k))
              \<and> (\<forall>i < min n k. umem h' (q + of_nat i) = umem h (p + of_nat i))))"
  by (rule realloc_contract [OF heap_run_inv [OF assms(1)] assms(2-5)])

text \<open>
  \<open>free\<close> of a block in use returns, whatever its neighbours are, and gives back that block alone; the bytes of
  the other blocks stay as they are.
\<close>

theorem free_releases:
  assumes "heap_run h L" "L p = Some n"
  shows "\<exists>h'. free p h = Some h' \<and> heap_run h' (L(p := None)) \<and> (\<forall>x \<in> live_bytes (L(p := None)). umem h' x = umem h x)"
  using free_contract [OF heap_run_inv [OF assms(1)] assms(2)] hr_free [OF assms] by blast

section \<open>A small program\<close>

definition heap0 :: uheap where
  "heap0 = \<lparr>umem = (\<lambda>x. 0), head = 0, free_list = 0, scribble_enabled = True, current_fsm = BEST_FIT, ubrk = 0x4000\<rparr>"

lemma heap0_run: "heap_run heap0 Map.empty"
  by (rule hr_init) (simp_all add: heap0_def)

lemma heap0_one: "\<exists>p h k. malloc True 100 heap0 = Some (p, h) \<and> 100 \<le> k \<and> heap_run h [p \<mapsto> k]"
proof -
  have g: "True \<longrightarrow> can_grow 100 heap0" by (simp add: can_grow_def heap0_def)
  obtain p h where m: "malloc True 100 heap0 = Some (p, h)" "p \<noteq> 0" "\<exists>k \<ge> 100. heap_inv h [p \<mapsto> k]"
    using malloc_contract [OF heap_run_inv [OF heap0_run] _ _ g] by (auto split: if_splits)
  then show ?thesis using hr_malloc [OF heap0_run _ _ g m(1) refl] heap_inv_size [of h _ p] by auto
qed


theorem malloc_fresh_block_witness: "\<exists>p h' k. malloc True 100 heap0 = Some (p, h') \<and> p \<noteq> 0 \<and> 100 \<le> k \<and> heap_run h' [p \<mapsto> k]"
proof -
  have g: "True \<longrightarrow> can_grow 100 heap0" by (simp add: can_grow_def heap0_def)
  show ?thesis using malloc_fresh_block [OF heap0_run _ _ g] by (auto split: if_splits)
qed

theorem realloc_keeps_contents_witness:
  "\<exists>p h q h'. malloc True 100 heap0 = Some (p, h) \<and> realloc False p 50 h = Some (q, h')
    \<and> (q \<noteq> 0 \<longrightarrow> (\<exists>k \<ge> 50. \<forall>i < min 100 k. umem h' (q + of_nat i) = umem h (p + of_nat i)))"
proof -
  obtain p h k where r: "malloc True 100 heap0 = Some (p, h)" "100 \<le> k" "heap_run h [p \<mapsto> k]" using heap0_one by blast
  have pr: "[p \<mapsto> k] p = Some k" "(50 :: u32) \<noteq> 0" "unat (50 :: u32) + 32 < 2 ^ 30" "False \<longrightarrow> can_grow (50 + 16) h" by simp_all
  obtain q h' where q: "realloc False p 50 h = Some (q, h')" "if q = 0 then \<not> False \<and> h' = h else (q = p \<or> [p \<mapsto> k] q = None)
      \<and> (\<exists>j \<ge> unat (50 :: u32). heap_inv h' (([p \<mapsto> k](p := None))(q \<mapsto> j)) \<and> (\<forall>i < min k j. umem h' (q + of_nat i) = umem h (p + of_nat i)))"
    using realloc_keeps_contents [OF r(3) pr] by blast
  then have "q \<noteq> 0 \<longrightarrow> (\<exists>j \<ge> 50. \<forall>i < min k j. umem h' (q + of_nat i) = umem h (p + of_nat i))" by (simp split: if_splits) blast+
  then have "q \<noteq> 0 \<longrightarrow> (\<exists>j \<ge> 50. \<forall>i < min 100 j. umem h' (q + of_nat i) = umem h (p + of_nat i))"
    using r(2) by (meson less_le_trans min.mono order_refl)
  then show ?thesis using r(1) q(1) by blast
qed

theorem free_releases_witness: "\<exists>p h h'. malloc True 100 heap0 = Some (p, h) \<and> free p h = Some h' \<and> heap_run h' Map.empty"
proof -
  obtain p h k where r: "malloc True 100 heap0 = Some (p, h)" "100 \<le> k" "heap_run h [p \<mapsto> k]" using heap0_one by blast
  have "Map.empty(p \<mapsto> k, p := None) = Map.empty" by auto
  moreover obtain h' where "free p h = Some h'" "heap_run h' (Map.empty(p \<mapsto> k, p := None))" using free_releases [OF r(3), of p k] by auto
  ultimately show ?thesis using r(1) by auto
qed

end
