(* ===== verification/Uline.thy ===== *)
theory Uline
  imports Ucontract
begin

text \<open>
  \<open>getline\<close> of \<^verbatim>\<open>user/ulib.c\<close>, which reads a line into a buffer that it grows with the allocator. Its
  correctness is proved once for every allocator that meets the contract, and holds for
  \<^verbatim>\<open>user/umalloc.c\<close> by the interpretation.
\<close>

section \<open>Definitions\<close>

text \<open>
  The operations of the allocator are arguments. \<open>None\<close> is a call that does not return, because it
  writes through a NULL pointer that \<open>malloc\<close> returned or because a list of the allocator is cyclic.
  \<open>ok n\<close> says whether the kernel has memory when \<open>malloc(n)\<close> asks for it. The result is the value returned,
  the buffer, the heap and the input left.
\<close>

record 'h heap_ops =
  hbytes :: "'h \<Rightarrow> mem"
  hstore :: "mem \<Rightarrow> 'h \<Rightarrow> 'h"
  halloc :: "bool \<Rightarrow> u32 \<Rightarrow> 'h \<Rightarrow> (u64 \<times> 'h) option"
  hrelease :: "u64 \<Rightarrow> 'h \<Rightarrow> 'h option"

definition ends_line :: "mem \<Rightarrow> u64 \<Rightarrow> bool" where
  "ends_line m p \<longleftrightarrow> (m p = 10 \<and> m (p + 1) = 0) \<or> (m p = 13 \<and> m (p + 1) = 0)"

partial_function (option) getline_loop ::
    "'h heap_ops \<Rightarrow> (u32 \<Rightarrow> bool) \<Rightarrow> u64 \<Rightarrow> u32 \<Rightarrow> u32 \<Rightarrow> u8 list \<Rightarrow> 'h \<Rightarrow> (int \<times> u64 \<times> 'h \<times> u8 list) option" where
  "getline_loop ops ok buf sz chars_read inp h =
     (if buf = 0 then None
      else case fgets (hbytes ops h) (buf + ucast chars_read) (sz - chars_read) inp of
        (curr_read, m, inp1) \<Rightarrow>
          let h1 = hstore ops m h
          in if curr_read = 0 then Some (sint chars_read, buf, h1, inp1)
             else if curr_read < 0 then Some (-1, buf, h1, inp1)
             else let chars_read = chars_read + of_int curr_read
                  in do { (temp, h2) \<leftarrow> halloc ops (ok (sz * 2)) (sz * 2) h1;
                          if temp = 0 then None
                          else do { let h3 = hstore ops (memcpyu (hbytes ops h2) temp buf (chars_read + 1)) h2;
                                    h4 \<leftarrow> hrelease ops buf h3;
                                    if ends_line (hbytes ops h4) (temp + ucast (chars_read - 1))
                                    then Some (sint chars_read, temp, h4, inp1)
                                    else getline_loop ops ok temp (sz * 2) chars_read inp1 h4 } })"

definition getline_with :: "'h heap_ops \<Rightarrow> (u32 \<Rightarrow> bool) \<Rightarrow> u64 \<Rightarrow> u32 \<Rightarrow> u8 list \<Rightarrow> 'h \<Rightarrow> (int \<times> u64 \<times> 'h \<times> u8 list) option" where
  "getline_with ops ok buf sz inp h =
     (if buf = 0 \<or> sint sz < 2
      then do { h1 \<leftarrow> hrelease ops buf h;
                (buf1, h2) \<leftarrow> halloc ops (ok 2) 2 h1;
                getline_loop ops ok buf1 2 0 inp h2 }
      else getline_loop ops ok buf sz 0 inp h)"

definition umalloc_ops :: "uheap heap_ops" where
  "umalloc_ops = \<lparr>hbytes = umem, hstore = put_mem, halloc = malloc, hrelease = free\<rparr>"

definition getline :: "(u32 \<Rightarrow> bool) \<Rightarrow> u64 \<Rightarrow> u32 \<Rightarrow> u8 list \<Rightarrow> uheap \<Rightarrow> (int \<times> u64 \<times> uheap \<times> u8 list) option" where
  "getline = getline_with umalloc_ops"

section \<open>fgets\<close>

abbreviation is_nl :: "u8 \<Rightarrow> bool" where
  "is_nl c \<equiv> c = 10 \<or> c = 13"

lemma wr_bytes_Cons:
  assumes "Suc (length bs) < 2 ^ 64"
  shows "wr_bytes (m(a := c)) (a + 1) bs = wr_bytes m a (c # bs)"
proof (rule ext)
  fix x
  show "wr_bytes (m(a := c)) (a + 1) bs x = wr_bytes m a (c # bs) x"
  proof (cases "x = a")
    case True
    then have "unat (x - (a + 1)) = 2 ^ 64 - 1" using unat_minus1_u64 by simp
    then show ?thesis using True assms by (simp add: wr_bytes_apply)
  next
    case False
    then have "unat (x - (a + 1)) = unat (x - a) - 1" "0 < unat (x - a)"
      using unat_minus_one [of "x - a"] by (simp_all add: diff_diff_eq unat_gt_0)
    then show ?thesis using False by (auto simp: wr_bytes_apply nth_Cons')
  qed
qed

lemma wr_bytes_one: "m(a := c) = wr_bytes m a [c]"
  by (auto simp: wr_bytes_def unat_eq_zero)

lemma fgets_step: "\<not> is_nl c \<Longrightarrow> fgets_loop (Suc k) m buf i (c # inp) = fgets_loop k (m(buf + of_nat i := c)) buf (Suc i) inp"
  by (simp add: Let_def)

lemma wr_step:
  assumes "Suc (length bs) < 2 ^ 64"
  shows "wr_bytes (m(buf + of_nat i := c)) (buf + of_nat (Suc i)) bs = wr_bytes m (buf + of_nat i) (c # bs)"
  using wr_bytes_Cons [OF assms, of m "buf + of_nat i" c] by (simp add: ac_simps)

text \<open>The line ends in the buffer; the buffer is full; the input ends.\<close>

lemma fgets_line:
  "\<forall>x \<in> set us. \<not> is_nl x \<Longrightarrow> is_nl c \<Longrightarrow> length us < k \<Longrightarrow> k < 2 ^ 40 \<Longrightarrow>
     fgets_loop k m buf i (us @ c # rest) = (int i + int (length us) + 1, wr_bytes m (buf + of_nat i) (us @ [c, 0]), rest)"
proof (induction us arbitrary: k m i)
  case Nil
  then obtain k' where k: "k = Suc k'" by (cases k) auto
  show ?case using Nil wr_step [of "[0]" m buf i c] by (auto simp: k wr_bytes_one)
next
  case (Cons u us)
  then obtain k' where k: "k = Suc k'" by (cases k) auto
  have "wr_bytes (m(buf + of_nat i := u)) (buf + of_nat (Suc i)) (us @ [c, 0]) = wr_bytes m (buf + of_nat i) (u # us @ [c, 0])"
    by (rule wr_step) (use Cons.prems in simp)
  then show ?case using Cons.IH [of k' "m(buf + of_nat i := u)" "Suc i"] Cons.prems fgets_step [of u k' m buf i "us @ c # rest"] by (simp add: k del: fun_upd_apply)
qed

lemma fgets_full:
  "\<forall>x \<in> set us. \<not> is_nl x \<Longrightarrow> length us < 2 ^ 40 \<Longrightarrow>
     fgets_loop (length us) m buf i (us @ rest) = (int i + int (length us), wr_bytes m (buf + of_nat i) (us @ [0]), rest)"
proof (induction us arbitrary: m i)
  case Nil
  then show ?case by (simp add: wr_bytes_one)
next
  case (Cons u us)
  have "wr_bytes (m(buf + of_nat i := u)) (buf + of_nat (Suc i)) (us @ [0]) = wr_bytes m (buf + of_nat i) (u # us @ [0])"
    by (rule wr_step) (use Cons.prems in simp)
  then show ?case using Cons.IH [of "m(buf + of_nat i := u)" "Suc i"] Cons.prems fgets_step [of u "length us" m buf i "us @ rest"] by (simp del: fun_upd_apply)
qed

lemma fgets_eof:
  "\<forall>x \<in> set us. \<not> is_nl x \<Longrightarrow> length us < k \<Longrightarrow> k < 2 ^ 40 \<Longrightarrow> fgets_loop k m buf i us = (-1, wr_bytes m (buf + of_nat i) us, [])"
proof (induction us arbitrary: k m i)
  case Nil
  then obtain k' where k: "k = Suc k'" by (cases k) auto
  show ?case by (simp add: k wr_bytes_def)
next
  case (Cons u us)
  then obtain k' where k: "k = Suc k'" by (cases k) auto
  have "wr_bytes (m(buf + of_nat i := u)) (buf + of_nat (Suc i)) us = wr_bytes m (buf + of_nat i) (u # us)"
    by (rule wr_step) (use Cons.prems in simp)
  then show ?case using Cons.IH [of k' "m(buf + of_nat i := u)" "Suc i"] Cons.prems fgets_step [of u k' m buf i us] by (simp add: k del: fun_upd_apply)
qed

section \<open>getline over any allocator\<close>

lemma rd_wr_prefix:
  assumes "ch + length bs < 2 ^ 64"
  shows "rd_bytes (wr_bytes m (a + of_nat ch) bs) a (ch + length bs) = rd_bytes m a ch @ bs"
proof (rule nth_equalityI)
  fix i assume "i < length (rd_bytes (wr_bytes m (a + of_nat ch) bs) a (ch + length bs))"
  then have i: "i < ch + length bs" by simp
  show "rd_bytes (wr_bytes m (a + of_nat ch) bs) a (ch + length bs) ! i = (rd_bytes m a ch @ bs) ! i"
  proof (cases "i < ch")
    case True
    have "unat (a + of_nat i - (a + of_nat ch)) = 2 ^ 64 + i - ch"
      using True assms by (simp add: unat_sub_if' unat_of_nat64 word_le_nat_alt)
    moreover have "\<not> 2 ^ 64 + i - ch < length bs" using assms by linarith
    ultimately show ?thesis using True i by (simp add: wr_bytes_apply nth_append)
  next
    case False
    then have "a + of_nat i - (a + of_nat ch) = of_nat (i - ch)" by simp
    then have "unat (a + of_nat i - (a + of_nat ch)) = i - ch" using i assms unat_of_nat64 [of "i - ch"] by (simp only:)
    moreover have "i - ch < length bs" using i False by linarith
    ultimately show ?thesis using False i by (simp add: wr_bytes_apply nth_append)
  qed
qed simp

lemma wr_in_block:
  assumes "ch + length bs \<le> k" "k < 2 ^ 64" "x \<notin> block_bytes a k"
  shows "wr_bytes m (a + of_nat ch) bs x = m x"
proof -
  have "\<not> unat (x - (a + of_nat ch)) < length bs"
  proof
    assume lt: "unat (x - (a + of_nat ch)) < length bs"
    have "x - a = (x - (a + of_nat ch)) + of_nat ch" by simp
    then have "unat (x - a) = unat (x - (a + of_nat ch)) + ch" using lt assms(1,2) offset_nat [of "x - (a + of_nat ch)" ch] by simp
    then show False using lt assms(1,3) by (simp add: block_bytes_def)
  qed
  then show ?thesis by (simp add: wr_bytes_apply)
qed

lemma take_rd_bytes: "k \<le> n \<Longrightarrow> take k (rd_bytes m a n) = rd_bytes m a k"
  by (simp add: rd_bytes_def take_map)

lemma in_block: "i < k \<Longrightarrow> k < 2 ^ 64 \<Longrightarrow> a + of_nat i \<in> block_bytes a k"
  by (simp add: block_bytes_def unat_of_nat64)

lemma rd_block_cong: "n \<le> k \<Longrightarrow> k < 2 ^ 64 \<Longrightarrow> \<forall>x \<in> block_bytes a k. m x = m' x \<Longrightarrow> rd_bytes m a n = rd_bytes m' a n"
  by (rule nth_equalityI) (auto simp: in_block)

context allocator
begin

text \<open>One turn of the loop after \<open>fgets\<close> has appended \<open>bs\<close> to the buffer: a larger block, copied and swapped in.\<close>

lemma getline_turn:
  assumes inv: "inv h L" and buf: "L buf = Some k" and fit: "ch + length bs \<le> k" "ch + length bs \<le> 2 * n" and n: "1 \<le> n" "n < 2 ^ 29"
    and rm: "2 * n + 8192 < room h"
  defines "m \<equiv> wr_bytes (bytes h) (buf + of_nat ch) bs"
  obtains temp h2 h4 k2 where "alloc True (of_nat n * 2) (store m h) = Some (temp, h2)" "temp \<noteq> 0" "L temp = None"
    "release buf (store (memcpyu (bytes h2) temp buf (of_nat (ch + length bs))) h2) = Some h4" "2 * n \<le> k2"
    "inv h4 ((L(buf := None))(temp \<mapsto> k2))" "rd_bytes (bytes h4) temp (ch + length bs) = rd_bytes (bytes h) buf ch @ bs"
    "\<forall>x \<in> live_bytes (L(buf := None)). bytes h4 x = bytes h x" "room h \<le> room h4 + 2 * n + 8192"
proof -
  note bb = bound_law [OF inv buf] let ?N = "ch + length bs"
  have "\<forall>x. x \<notin> live_bytes L \<longrightarrow> m x = bytes h x"
    using wr_in_block [OF fit(1), of _ buf] bb buf unfolding m_def live_bytes_def by fastforce
  then have h1: "inv (store m h) L" "bytes (store m h) = m" "room (store m h) = room h" using write_law [OF inv] by auto
  have sz: "unat (of_nat n * 2 :: u32) = 2 * n" using n(2) by (simp add: unat_word_ariths unat_of_nat)
  have szn: "of_nat n * 2 \<noteq> (0 :: u32)" using sz n(1) by auto
  have szb: "unat (of_nat n * 2 :: u32) < 2 ^ 30" using sz n(2) by simp
  have szr: "True \<longrightarrow> unat (of_nat n * 2 :: u32) + 8192 < room (store m h)" using sz rm h1(3) by simp
  obtain temp h2 where A: "alloc True (of_nat n * 2) (store m h) = Some (temp, h2)" "room h \<le> room h2 + 2 * n + 8192"
      "\<forall>x \<in> live_bytes L. bytes h2 x = m x" "temp \<noteq> 0" "L temp = None" "\<exists>k2 \<ge> 2 * n. inv h2 (L(temp \<mapsto> k2))"
    using alloc_law [OF h1(1) szn szb szr] unfolding sz h1(2,3) by (auto split: if_splits)
  obtain k2 where k2: "2 * n \<le> k2" "inv h2 (L(temp \<mapsto> k2))" using A(6) by blast
  have ne: "temp \<noteq> buf" using A(5) buf by auto
  note bt = bound_law [OF k2(2), of temp k2] note bb2 = bound_law [OF k2(2), of buf k]
  have blb: "block_bytes buf k \<subseteq> live_bytes L" using buf by (auto simp: live_bytes_def)
  have rd2: "rd_bytes (bytes h2) buf ?N = rd_bytes (bytes h) buf ch @ bs"
  proof -
    have "rd_bytes (bytes h2) buf ?N = rd_bytes m buf ?N"
      by (rule rd_block_cong [of _ k]) (use fit bb A(3) blb in auto)
    then show ?thesis unfolding m_def using rd_wr_prefix [of ch bs "bytes h" buf] fit bb by simp
  qed
  have u: "sint (of_nat ?N :: u32) = int ?N" using fit n(2) by (intro sint_small) simp
  let ?m3 = "memcpyu (bytes h2) temp buf (of_nat ?N)"
  have m3: "?m3 = wr_bytes (bytes h2) temp (rd_bytes (bytes h) buf ch @ bs)"
    unfolding memcpyu_def u rd2 [symmetric] by (rule memmoveu_copies) (use bt bb2 fit k2(1) ne buf in auto)
  have out3: "?m3 x = bytes h2 x" if "x \<notin> block_bytes temp k2" for x
    using wr_in_block [of 0 "rd_bytes (bytes h) buf ch @ bs" k2 x temp] that fit k2(1) bt unfolding m3 by simp
  have "\<forall>x. x \<notin> live_bytes (L(temp \<mapsto> k2)) \<longrightarrow> ?m3 x = bytes h2 x"
    using out3 unfolding live_bytes_def by (auto split: if_splits)
  then have h3: "inv (store ?m3 h2) (L(temp \<mapsto> k2))" "bytes (store ?m3 h2) = ?m3" "room (store ?m3 h2) = room h2" using write_law [OF k2(2)] by auto
  have Lb: "(L(temp \<mapsto> k2)) buf = Some k" using ne buf by simp
  have tw: "(L(temp \<mapsto> k2))(buf := None) = (L(buf := None))(temp \<mapsto> k2)" using ne by (simp add: fun_upd_twist)
  obtain h4 where R: "release buf (store ?m3 h2) = Some h4" "inv h4 ((L(buf := None))(temp \<mapsto> k2))" "room h4 = room h2"
      "\<forall>x \<in> live_bytes ((L(buf := None))(temp \<mapsto> k2)). bytes h4 x = ?m3 x"
    using release_law [OF h3(1) Lb] unfolding tw h3(2,3) by blast
  have rd4: "rd_bytes (bytes h4) temp ?N = rd_bytes (bytes h) buf ch @ bs"
  proof -
    have "block_bytes temp k2 \<subseteq> live_bytes ((L(buf := None))(temp \<mapsto> k2))" by (auto simp: live_bytes_def)
    then have "rd_bytes (bytes h4) temp ?N = rd_bytes ?m3 temp ?N"
      by (intro rd_block_cong [of _ k2]) (use fit k2(1) bt R(4) in auto)
    then show ?thesis unfolding m3 using rd_wr_bytes [of "rd_bytes (bytes h) buf ch @ bs" ?N] fit bb by simp
  qed
  have keep: "\<forall>x \<in> live_bytes (L(buf := None)). bytes h4 x = bytes h x"
  proof
    fix x assume x: "x \<in> live_bytes (L(buf := None))"
    then obtain p j where p: "L p = Some j" "p \<noteq> buf" "x \<in> block_bytes p j" unfolding live_bytes_def by (auto split: if_splits)
    have pt: "p \<noteq> temp" using p(1) A(5) by auto
    have "x \<in> live_bytes ((L(buf := None))(temp \<mapsto> k2))" using p pt unfolding live_bytes_def by auto
    moreover have "x \<notin> block_bytes temp k2" using disjoint_law [OF k2(2), of p j temp k2] p pt by auto
    moreover have "x \<notin> block_bytes buf k" using disjoint_law [OF inv p(1) buf p(2)] p(3) by auto
    then have "m x = bytes h x" unfolding m_def using wr_in_block [OF fit(1), of x buf] bb by simp
    moreover have "x \<in> live_bytes L" using p by (auto simp: live_bytes_def)
    ultimately show "bytes h4 x = bytes h x" using R(4) out3 A(3) by simp
  qed
  show thesis by (rule that [OF A(1,4,5) R(1) k2(1) R(2) rd4 keep]) (use A(2) R(3) in simp)
qed

text \<open>The loop, by induction on the rest of the line.\<close>

definition line_read :: "'h \<Rightarrow> (u64 \<rightharpoonup> nat) \<Rightarrow> u8 list \<Rightarrow> u8 list \<Rightarrow> (int \<times> u64 \<times> 'h \<times> u8 list) option \<Rightarrow> bool" where
  "line_read h L line rest res \<longleftrightarrow> (\<exists>buf h' k. res = Some (int (length line), buf, h', rest) \<and> inv h' (L(buf \<mapsto> k)) \<and> length line < k
     \<and> rd_bytes (bytes h') buf (length line + 1) = line @ [0] \<and> (\<forall>x \<in> live_bytes L. bytes h' x = bytes h x))"

lemma line_read_from: "line_read h1 L line rest res \<Longrightarrow> \<forall>x \<in> live_bytes L. bytes h1 x = bytes h x \<Longrightarrow> line_read h L line rest res"
  unfolding line_read_def by fastforce

lemma getline_step:
  assumes ops: "ops = \<lparr>hbytes = bytes, hstore = store, halloc = alloc, hrelease = release\<rparr>" and buf: "buf \<noteq> 0"
    and fg: "fgets (bytes h) (buf + of_nat ch) (of_nat (n - ch)) inp = (int r, wr_bytes (bytes h) (buf + of_nat ch) bs, inp1)"
    and r: "1 \<le> r" "length bs = r + 1" "ch < n" "ch + r < 2 ^ 32"
    and al: "alloc True (of_nat n * 2) (store (wr_bytes (bytes h) (buf + of_nat ch) bs) h) = Some (temp, h2)" "temp \<noteq> 0"
    and rl: "release buf (store (memcpyu (bytes h2) temp buf (of_nat (ch + length bs))) h2) = Some h4"
  shows "getline_loop ops (\<lambda>_. True) buf (of_nat n) (of_nat ch) inp h =
    (if ends_line (bytes h4) (temp + of_nat (ch + r - 1)) then Some (sint (of_nat (ch + r) :: u32), temp, h4, inp1)
     else getline_loop ops (\<lambda>_. True) temp (of_nat (n * 2)) (of_nat (ch + r)) inp1 h4)"
proof -
  have w: "ucast (of_nat i :: u32) = (of_nat i :: u64)" if "i < 2 ^ 32" for i
  proof -
    have "unat (of_nat i :: u32) = i" using that by (simp add: unat_of_nat)
    then show ?thesis by (metis of_nat_unat)
  qed
  have e1: "ucast (of_nat ch :: u32) = (of_nat ch :: u64)" using w r(4) by simp
  have e2: "of_nat n - of_nat ch = (of_nat (n - ch) :: u32)" using r(3) by simp
  have op: "hbytes ops = bytes" "hstore ops = store" "halloc ops = alloc" "hrelease ops = release" by (simp_all add: ops)
  have e4: "of_nat (ch + length bs) = (of_nat ch + of_nat r + 1 :: u32)" using r(2) by simp
  have "of_nat ch + of_nat r - 1 = (of_nat (ch + r - 1) :: u32)" using r(1) by (simp add: of_nat_diff)
  then have e5: "ucast (of_nat ch + of_nat r - 1 :: u32) = (of_nat (ch + r - 1) :: u64)" using w [of "ch + r - 1"] r(4) by simp
  show ?thesis
    unfolding getline_loop.simps [of ops "\<lambda>_. True" buf] op e1 e2 fg Let_def prod.case of_int_of_nat_eq of_nat_add of_nat_mult of_nat_numeral al(1) Option.bind.bind_lunit
      rl [unfolded e4] e5 using buf r(1) al(2) by simp
qed

lemma getline_loop_line:
  assumes ops: "ops = \<lparr>hbytes = bytes, hstore = store, halloc = alloc, hrelease = release\<rparr>"
  shows "inv h L \<Longrightarrow> L buf = Some k \<Longrightarrow> n \<le> k \<Longrightarrow> 2 * ch + 2 \<le> n \<Longrightarrow> n < 2 ^ 29 \<Longrightarrow> rd_bytes (bytes h) buf ch = pre \<Longrightarrow>
    \<forall>x \<in> set us. \<not> is_nl x \<Longrightarrow> is_nl c \<Longrightarrow> ch + length us < 2 ^ 27 \<Longrightarrow> 2 * n + 16384 + 16384 * length us < room h \<Longrightarrow>
    line_read h (L(buf := None)) (pre @ us @ [c]) rest (getline_loop ops (\<lambda>_. True) buf (of_nat n) (of_nat ch) (us @ c # rest) h)"
proof (induction "length us" arbitrary: h L buf k n ch pre us rule: less_induct)
  case (less us)
  note pm = less.prems
  let ?d = "n - ch - 1" let ?m = "bytes h" let ?p = "buf + of_nat ch"
  have mx: "unat (of_nat (n - ch) :: u32) = n - ch" using pm(5) by (simp add: unat_of_nat)
  have buf0: "buf \<noteq> 0" "unat buf + k < 2 ^ 31" using bound_law [OF pm(1,2)] by auto
  have fg: "fgets ?m ?p (of_nat (n - ch)) inp = fgets_loop ?d ?m ?p 0 inp" for inp using mx by (simp add: fgets_def)
  have lp: "length pre = ch" using pm(6) by auto
  have n1: "1 \<le> n" "2 * n + 8192 < room h" "ch < n" using pm(4,10) by auto
  show ?case
  proof (cases "length us < ?d")
    case True
    let ?bs = "us @ [c, 0]" let ?r = "length us + 1"
    have fit: "ch + length ?bs \<le> k" "ch + length ?bs \<le> 2 * n" using True pm(3) by auto
    have f: "fgets ?m ?p (of_nat (n - ch)) (us @ c # rest) = (int ?r, wr_bytes ?m ?p ?bs, rest)"
      using fgets_line [OF pm(7,8) True, of ?m ?p 0 rest] pm(5) unfolding fg by simp
    obtain temp h2 h4 k2 where T: "alloc True (of_nat n * 2) (store (wr_bytes ?m ?p ?bs) h) = Some (temp, h2)" "temp \<noteq> 0" "L temp = None"
        "release buf (store (memcpyu (bytes h2) temp buf (of_nat (ch + length ?bs))) h2) = Some h4" "2 * n \<le> k2"
        "inv h4 ((L(buf := None))(temp \<mapsto> k2))" "rd_bytes (bytes h4) temp (ch + length ?bs) = rd_bytes ?m buf ch @ ?bs"
        "\<forall>x \<in> live_bytes (L(buf := None)). bytes h4 x = bytes h x" "room h \<le> room h4 + 2 * n + 8192"
      by (rule getline_turn [OF pm(1,2) fit n1(1) pm(5) n1(2)])
    have rd: "rd_bytes (bytes h4) temp (ch + length us + 2) = pre @ us @ [c, 0]" using T(7) pm(6) by (simp add: add.assoc)
    have nt: "bytes h4 (temp + of_nat i) = (pre @ us @ [c, 0]) ! i" if "i < ch + length us + 2" for i
      using arg_cong [OF rd, of "\<lambda>l. l ! i"] that by simp
    have "ends_line (bytes h4) (temp + of_nat (ch + ?r - 1))"
      using nt [of "ch + length us"] nt [of "Suc (ch + length us)"] pm(8) lp by (simp add: ends_line_def nth_append ac_simps)
    moreover have "sint (of_nat (ch + ?r) :: u32) = int (ch + ?r)" using pm(9) by (intro sint_small) simp
    ultimately have "getline_loop ops (\<lambda>_. True) buf (of_nat n) (of_nat ch) (us @ c # rest) h = Some (int (ch + ?r), temp, h4, rest)"
      using getline_step [OF ops buf0(1) f _ _ n1(3) _ T(1,2,4)] pm(9) by simp
    then show ?thesis unfolding line_read_def using T(5,6,8) rd lp True pm(4)
      by (intro exI [of _ temp] exI [of _ h4] exI [of _ k2]) (simp add: add.assoc)
  next
    case False
    define u1 where "u1 = take ?d us" define u2 where "u2 = drop ?d us"
    have us: "us = u1 @ u2" "length u1 = ?d" using False by (simp_all add: u1_def u2_def)
    have d: "1 \<le> ?d" "n \<le> 2 * ?d" "length us = ?d + length u2" using pm(4) us by auto
    let ?bs = "u1 @ [0]"
    have fit: "ch + length ?bs \<le> k" "ch + length ?bs \<le> 2 * n" using us(2) pm(3,4) by auto
    have nl1: "\<forall>x \<in> set u1. \<not> is_nl x" "\<forall>x \<in> set u2. \<not> is_nl x" using pm(7) us(1) by auto
    have f: "fgets ?m ?p (of_nat (n - ch)) (us @ c # rest) = (int ?d, wr_bytes ?m ?p ?bs, u2 @ c # rest)"
      using fgets_full [OF nl1(1), of ?m ?p 0 "u2 @ c # rest"] us pm(5) unfolding fg by simp
    obtain temp h2 h4 k2 where T: "alloc True (of_nat n * 2) (store (wr_bytes ?m ?p ?bs) h) = Some (temp, h2)" "temp \<noteq> 0" "L temp = None"
        "release buf (store (memcpyu (bytes h2) temp buf (of_nat (ch + length ?bs))) h2) = Some h4" "2 * n \<le> k2"
        "inv h4 ((L(buf := None))(temp \<mapsto> k2))" "rd_bytes (bytes h4) temp (ch + length ?bs) = rd_bytes ?m buf ch @ ?bs"
        "\<forall>x \<in> live_bytes (L(buf := None)). bytes h4 x = bytes h x" "room h \<le> room h4 + 2 * n + 8192"
      by (rule getline_turn [OF pm(1,2) fit n1(1) pm(5) n1(2)])
    have chd: "ch + ?d = n - 1" "n - 1 < n" using n1(3) by auto
    have bnd: "ch + ?d < 2 ^ 32" using chd(1) pm(5) by simp
    have rd: "rd_bytes (bytes h4) temp n = pre @ u1 @ [0]" using T(7) pm(6) us(2) chd n1 by (simp add: add.assoc)
    have nt: "bytes h4 (temp + of_nat i) = (pre @ u1 @ [0]) ! i" if "i < n" for i
      using arg_cong [OF rd, of "\<lambda>l. l ! i"] that by simp
    have "n - 2 < n" "n - 2 - ch < length u1" "\<not> n - 2 < ch" using d(1) us(2) n1 by auto
    then have "bytes h4 (temp + of_nat (n - 2)) \<in> set u1" using nt [of "n - 2"] lp by (simp add: nth_append)
    moreover have "ch + ?d - 1 = n - 2" using chd(1) by simp
    ultimately have "\<not> ends_line (bytes h4) (temp + of_nat (ch + ?d - 1))" using nl1(1) by (simp only: ends_line_def) auto
    then have run: "getline_loop ops (\<lambda>_. True) buf (of_nat n) (of_nat ch) (us @ c # rest) h =
        getline_loop ops (\<lambda>_. True) temp (of_nat (n * 2)) (of_nat (ch + ?d)) (u2 @ c # rest) h4"
      using getline_step [OF ops buf0(1) f d(1) _ n1(3) bnd T(1,2,4)] us(2) by simp
    let ?L = "(L(buf := None))(temp \<mapsto> k2)"
    have pre': "rd_bytes (bytes h4) temp (ch + ?d) = pre @ u1"
      using arg_cong [OF rd, of "take (n - 1)"] take_rd_bytes [of "n - 1" n "bytes h4" temp] chd lp us(2) by simp
    have IH: "line_read h4 (?L(temp := None)) ((pre @ u1) @ u2 @ [c]) rest
        (getline_loop ops (\<lambda>_. True) temp (of_nat (n * 2)) (of_nat (ch + ?d)) (u2 @ c # rest) h4)"
    proof (rule less.hyps [OF _ T(6) _ _ _ _ pre' nl1(2) pm(8)])
      show "length u2 < length us" using d by simp
      show "2 * (n * 2) + 16384 + 16384 * length u2 < room h4" using T(9) pm(10) d by simp
    qed (use T(5) chd d pm(5,9) in auto)
    have Ld: "?L(temp := None) = L(buf := None)" using T(3) by auto
    show ?thesis using line_read_from [OF IH [unfolded Ld] T(8)] run us(1) by simp
  qed
qed

lemma getline_with_line:
  assumes ops: "ops = \<lparr>hbytes = bytes, hstore = store, halloc = alloc, hrelease = release\<rparr>"
    and inv: "inv h L" and line: "\<forall>x \<in> set us. \<not> is_nl x" "is_nl c" "length us < 2 ^ 26"
    and buf: "buf = 0 \<or> L buf = Some k \<and> 2 \<le> n \<and> n \<le> k" "n < 2 ^ 29"
    and rm: "2 * n + 16384 * (length us + 3) < room h"
  shows "line_read h (L(buf := None)) (us @ [c]) rest (getline_with ops (\<lambda>_. True) buf (of_nat n) (us @ c # rest) h)"
proof (cases "buf = 0")
  case True
  have L0: "L 0 = None" using bound_law [OF inv, of 0] by (cases "L 0") auto
  have pr: "(2 :: u32) \<noteq> 0" "unat (2 :: u32) < 2 ^ 30" "True \<longrightarrow> unat (2 :: u32) + 8192 < room h" using rm by auto
  obtain b h2 k2 where A: "alloc True 2 h = Some (b, h2)" "room h \<le> room h2 + 2 + 8192" "\<forall>x \<in> live_bytes L. bytes h2 x = bytes h x"
      "L b = None" "2 \<le> k2" "inv h2 (L(b \<mapsto> k2))"
    using alloc_law [OF inv pr] by (auto split: if_splits)
  have "line_read h2 ((L(b \<mapsto> k2))(b := None)) ([] @ us @ [c]) rest (getline_loop ops (\<lambda>_. True) b (of_nat 2) (of_nat 0) (us @ c # rest) h2)"
    by (rule getline_loop_line [OF ops A(6) _ A(5)]) (use line A(2) rm in auto)
  moreover have "(L(b \<mapsto> k2))(b := None) = L" "L(buf := None) = L" using A(4) L0 True by auto
  moreover have "getline_with ops (\<lambda>_. True) buf (of_nat n) (us @ c # rest) h = getline_loop ops (\<lambda>_. True) b (of_nat 2) (of_nat 0) (us @ c # rest) h2"
    using True release_null [of h] A(1) by (simp add: getline_with_def ops)
  ultimately show ?thesis using A(3) unfolding line_read_def by auto
next
  case False
  then have b: "L buf = Some k" "2 \<le> n" "n \<le> k" using buf(1) by auto
  have "sint (of_nat n :: u32) = int n" using buf(2) by (intro sint_small) simp
  then have "getline_with ops (\<lambda>_. True) buf (of_nat n) (us @ c # rest) h = getline_loop ops (\<lambda>_. True) buf (of_nat n) (of_nat 0) (us @ c # rest) h"
    using False b(2) by (simp add: getline_with_def)
  moreover have "line_read h (L(buf := None)) ([] @ us @ [c]) rest (getline_loop ops (\<lambda>_. True) buf (of_nat n) (of_nat 0) (us @ c # rest) h)"
    by (rule getline_loop_line [OF ops inv b(1,3)]) (use line b buf(2) rm in auto)
  ultimately show ?thesis by simp
qed

end

section \<open>getline with umalloc\<close>

text \<open>
  \<open>getline\<close>, called with a NULL buffer or with a block of the caller and its size, reads the whole next line
  however long it is: it returns its length, the buffer is a block in use that holds the line and a
  NUL, the input continues after the line, the old buffer is freed, and no other block of the
  program changes.
\<close>

theorem getline_reads_line:
  assumes "heap_run h L" "\<forall>x \<in> set us. x \<noteq> 10 \<and> x \<noteq> 13" "c = 10 \<or> c = 13" "length us < 2 ^ 26"
    and "buf = 0 \<or> (\<exists>k. L buf = Some k \<and> 2 \<le> n \<and> n \<le> k)" "n < 2 ^ 29"
    and "unat (ubrk h) + 2 * n + 16384 * (length us + 3) < 2 ^ 31"
  shows "\<exists>buf' h' k. getline (\<lambda>_. True) buf (of_nat n) (us @ c # rest) h = Some (int (length us + 1), buf', h', rest)
    \<and> heap_inv h' ((L(buf := None))(buf' \<mapsto> k)) \<and> length us + 1 < k \<and> rd_bytes (umem h') buf' (length us + 2) = us @ [c, 0]
    \<and> (\<forall>x \<in> live_bytes (L(buf := None)). umem h' x = umem h x)"
proof -
  have rm: "2 * n + 16384 * (length us + 3) < heap_room h" using assms(7) by (simp add: heap_room_def)
  obtain k where "buf = 0 \<or> L buf = Some k \<and> 2 \<le> n \<and> n \<le> k" using assms(5) by blast
  then have "umalloc.line_read h (L(buf := None)) (us @ [c]) rest (getline_with umalloc_ops (\<lambda>_. True) buf (of_nat n) (us @ c # rest) h)"
    using umalloc.getline_with_line [OF umalloc_ops_def heap_run_inv [OF assms(1)] _ assms(3,4) _ assms(6) rm, of buf k rest] assms(2) by blast
  then show ?thesis unfolding umalloc.line_read_def getline_def by (simp add: numeral_2_eq_2)
qed

theorem getline_reads_line_witness:
  "\<exists>buf h' k. getline (\<lambda>_. True) 0 0 [104, 105, 10, 120] heap0 = Some (3, buf, h', [120]) \<and> heap_inv h' [buf \<mapsto> k]
    \<and> rd_bytes (umem h') buf 4 = [104, 105, 10, 0]"
proof -
  have l: "int (length [104 :: u8, 105] + 1) = 3" "length [104 :: u8, 105] + 2 = 4" by simp_all
  have "unat (ubrk heap0) = 16384" by (simp add: heap0_def)
  then show ?thesis using getline_reads_line [OF heap0_run, of "[104, 105]" 10 0 0 "[120]", unfolded l] by simp blast
qed

end
