(* ===== verification/Uprintf.thy ===== *)
theory Uprintf
  imports Ulib
begin

text \<open>
  Formatted output: \<^verbatim>\<open>user/printf.c\<close> and \<^verbatim>\<open>kernel/printf.c\<close>. The output of a call is the list of the bytes it passes to \<open>putc\<close> or
  \<open>consputc\<close>, in order. The two files have the same loop over the format and differ in the width of the number that \<open>printint\<close> keeps and in the
  digits, so the loop has these as arguments. A format is the bytes before its NUL, a string argument the bytes of the string, or \<open>None\<close> for a
  null pointer; an argument that is missing, which is undefined in C, is taken as 0.
\<close>

section \<open>Numbers\<close>

definition udigits :: "u8 list" where
  "udigits = [48, 49, 50, 51, 52, 53, 54, 55, 56, 57, 65, 66, 67, 68, 69, 70]"

definition kdigits :: "u8 list" where
  "kdigits = [48, 49, 50, 51, 52, 53, 54, 55, 56, 57, 97, 98, 99, 100, 101, 102]"

lemma div_shrinks:
  fixes b x :: "'a::len word"
  assumes "1 < b" "x div b \<noteq> 0"
  shows "unat (x div b) < unat x"
proof -
  have "1 < unat b" using assms(1) by (auto simp: word_less_nat_alt unat_1 dest: order_le_less_trans [rotated])
  moreover have "0 < unat x" using assms(2) by (auto simp: unat_gt_0)
  ultimately show ?thesis by (simp add: unat_div)
qed

text \<open>The loop that fills \<open>buf\<close>, least significant digit first. The bases are 10 and 16; others below 2 would not end.\<close>

function digit_loop :: "u8 list \<Rightarrow> 'a::len word \<Rightarrow> 'a word \<Rightarrow> u8 list" where
  "digit_loop ds base x = ds ! unat (x mod base) # (if 1 < base \<and> x div base \<noteq> 0 then digit_loop ds base (x div base) else [])"
  by pat_completeness auto
termination by (relation "measure (\<lambda>(ds, base, x). unat x)") (auto intro: div_shrinks)

declare digit_loop.simps [simp del]

text \<open>\<open>printint\<close> of the user library keeps a \<open>uint\<close>, that of the kernel an \<open>unsigned long long\<close>.\<close>

definition uprintint :: "u64 \<Rightarrow> nat \<Rightarrow> bool \<Rightarrow> u8 list" where
  "uprintint xx base sg =
     (let neg = sg \<and> sint xx < 0;
          x = (ucast (if neg then - xx else xx) :: u32);
          b = digit_loop udigits (of_nat base) x
      in rev (if neg then b @ [45] else b))"

definition kprintint :: "u64 \<Rightarrow> nat \<Rightarrow> bool \<Rightarrow> u8 list" where
  "kprintint xx base sign =
     (let neg = sign \<and> sint xx < 0;
          x = (if neg then - xx else xx);
          b = digit_loop kdigits (of_nat base) x
      in rev (if neg then b @ [45] else b))"

fun ptr_loop :: "u8 list \<Rightarrow> nat \<Rightarrow> u64 \<Rightarrow> u8 list" where
  "ptr_loop ds 0 x = []"
| "ptr_loop ds (Suc n) x = ds ! unat (drop_bit 60 x) # ptr_loop ds n (push_bit 4 x)"

definition uprintptr :: "u64 \<Rightarrow> u8 list" where
  "uprintptr x = [48, 120] @ ptr_loop udigits 16 x"

definition kprintptr :: "u64 \<Rightarrow> u8 list" where
  "kprintptr x = [48, 120] @ ptr_loop kdigits 16 x"

section \<open>Formats\<close>

datatype parg = Num u64 | Str "u8 list option"

fun va_num :: "parg list \<Rightarrow> u64 \<times> parg list" where
  "va_num (Num v # as) = (v, as)"
| "va_num (Str _ # as) = (0, as)"
| "va_num [] = (0, [])"

fun va_str :: "parg list \<Rightarrow> u8 list \<times> parg list" where
  "va_str (Str (Some s) # as) = (s, as)"
| "va_str (_ # as) = ([40, 110, 117, 108, 108, 41], as)"
| "va_str [] = ([40, 110, 117, 108, 108, 41], [])"

definition char_at :: "u8 list \<Rightarrow> nat \<Rightarrow> u8" where
  "char_at f i = (if i < length f then f ! i else 0)"

text \<open>One conversion: \<open>f\<close> starts after the percent sign. The output, how many characters follow the first, and the arguments left.\<close>

definition conversion :: "(u64 \<Rightarrow> nat \<Rightarrow> bool \<Rightarrow> u8 list) \<Rightarrow> (u64 \<Rightarrow> u8 list) \<Rightarrow> (u32 \<Rightarrow> u8 list) \<Rightarrow> u8 list \<Rightarrow> parg list \<Rightarrow> u8 list \<times> nat \<times> parg list" where
  "conversion pint pptr pchr f as =
     (let c0 = char_at f 0;
          c1 = (if c0 \<noteq> 0 then char_at f 1 else 0);
          c2 = (if c1 \<noteq> 0 then char_at f 2 else 0)
      in case va_num as of (v, as1) \<Rightarrow>
        if c0 = 100 then (pint (scast (ucast v :: u32)) 10 True, 0, as1)
        else if c0 = 108 \<and> c1 = 100 then (pint v 10 True, 1, as1)
        else if c0 = 108 \<and> c1 = 108 \<and> c2 = 100 then (pint v 10 True, 2, as1)
        else if c0 = 117 then (pint (ucast (ucast v :: u32)) 10 False, 0, as1)
        else if c0 = 108 \<and> c1 = 117 then (pint v 10 False, 1, as1)
        else if c0 = 108 \<and> c1 = 108 \<and> c2 = 117 then (pint v 10 False, 2, as1)
        else if c0 = 120 then (pint (ucast (ucast v :: u32)) 16 False, 0, as1)
        else if c0 = 108 \<and> c1 = 120 then (pint v 16 False, 1, as1)
        else if c0 = 108 \<and> c1 = 108 \<and> c2 = 120 then (pint v 16 False, 2, as1)
        else if c0 = 112 then (pptr v, 0, as1)
        else if c0 = 99 then (pchr (ucast v), 0, as1)
        else if c0 = 115 then (case va_str as of (s, as2) \<Rightarrow> (s, 0, as2))
        else if c0 = 37 then ([37], 0, as)
        else ([37, c0], 0, as))"

function format_loop :: "(u64 \<Rightarrow> nat \<Rightarrow> bool \<Rightarrow> u8 list) \<Rightarrow> (u64 \<Rightarrow> u8 list) \<Rightarrow> (u32 \<Rightarrow> u8 list) \<Rightarrow> u8 list \<Rightarrow> parg list \<Rightarrow> u8 list" where
  "format_loop pint pptr pchr [] as = []"
| "format_loop pint pptr pchr (c # f) as =
     (if c \<noteq> 37 then c # format_loop pint pptr pchr f as
      else if f = [] then []
      else case conversion pint pptr pchr f as of (out, k, as1) \<Rightarrow> out @ format_loop pint pptr pchr (drop (Suc k) f) as1)"
  by pat_completeness auto
termination by (relation "measure (\<lambda>(pint, pptr, pchr, f, as). length f)") auto

text \<open>\<open>consputc\<close> turns the code of the backspace key, 256, into three characters.\<close>

definition kputc :: "u32 \<Rightarrow> u8 list" where
  "kputc c = (if c = 0x100 then [8, 32, 8] else [ucast c])"

definition vprintf :: "u8 list \<Rightarrow> parg list \<Rightarrow> u8 list" where
  "vprintf fmt ap = format_loop uprintint uprintptr (\<lambda>c. [ucast c]) fmt ap"

definition kprintf :: "u8 list \<Rightarrow> parg list \<Rightarrow> u8 list" where
  "kprintf fmt ap = format_loop kprintint kprintptr kputc fmt ap"

text \<open>What \<open>panic(s)\<close> writes before it stops: \<open>panic: \<close>, the message and a newline.\<close>

definition panic_output :: "u8 list \<Rightarrow> u8 list" where
  "panic_output s = kprintf [112, 97, 110, 105, 99, 58, 32] [] @ kprintf [37, 115, 10] [Str (Some s)]"

section \<open>The digits of a number\<close>

text \<open>The value of a list of digits, the least significant first, and what it means that a table starts with the ten decimal digits.\<close>

fun dval :: "u8 list \<Rightarrow> nat" where
  "dval [] = 0"
| "dval (c # cs) = (unat c - 48) + 10 * dval cs"

definition is_digit :: "u8 \<Rightarrow> bool" where
  "is_digit c \<longleftrightarrow> 48 \<le> c \<and> c \<le> 57"

definition decimal_table :: "u8 list \<Rightarrow> bool" where
  "decimal_table ds \<longleftrightarrow> (\<forall>k<10. ds ! k = of_nat (48 + k))"

lemma decimal_tables [simp]: "decimal_table udigits" "decimal_table kdigits"
  by (auto simp: decimal_table_def udigits_def kdigits_def less_Suc_eq numeral_eq_Suc)

lemma unat_table: "decimal_table ds \<Longrightarrow> k < 10 \<Longrightarrow> unat (ds ! k) = 48 + k"
  by (simp add: decimal_table_def unat_word_ariths unat_of_nat take_bit_eq_mod)

lemma is_digit_table: "decimal_table ds \<Longrightarrow> k < 10 \<Longrightarrow> is_digit (ds ! k)"
  using unat_table [of ds k] by (simp add: is_digit_def word_le_nat_alt)

lemma digit_loop_decimal:
  assumes "decimal_table ds" "unat (10::'a::len word) = 10"
  shows "dval (digit_loop ds (10::'a word) x) = unat x \<and> (\<forall>c\<in>set (digit_loop ds 10 x). is_digit c)"
proof (induction "unat x" arbitrary: x rule: less_induct)
  case less
  have one: "1 < (10::'a word)" using assms(2) by (simp add: word_less_nat_alt)
  have digit: "unat (x mod 10) = unat x mod 10" "unat (x div 10) = unat x div 10" using assms(2) by (simp_all add: unat_mod unat_div)
  show ?case
  proof (cases "x div 10 = 0")
    case True
    then have "unat x div 10 = 0" using digit(2) by simp
    then show ?thesis using True assms(1) digit by (subst (1 2) digit_loop.simps) (simp add: unat_table is_digit_table)
  next
    case False
    have "unat (x div 10) < unat x" using False one by (rule div_shrinks [rotated])
    note ih = less [OF this]
    show ?thesis using False one ih assms(1) digit by (subst (1 2) digit_loop.simps) (simp add: unat_table is_digit_table)
  qed
qed

lemma digit_loop_length:
  fixes b x :: "'a::len word"
  assumes "1 < b" "unat x < unat b ^ k" "0 < k"
  shows "length (digit_loop ds b x) \<le> k"
  using assms(2,3)
proof (induction k arbitrary: x)
  case (Suc k)
  show ?case
  proof (cases "x div b = 0")
    case False
    have "unat (x div b) < unat b ^ k"
      using Suc.prems(1) by (simp add: unat_div less_mult_imp_div_less mult.commute)
    moreover have "0 < k" using calculation False by (cases k) (auto simp: unat_eq_0)
    ultimately have "length (digit_loop ds b (x div b)) \<le> k" by (rule Suc.IH)
    then show ?thesis using False assms(1) by (subst digit_loop.simps) simp
  qed (subst digit_loop.simps, simp)
qed simp

section \<open>\<open>atoi\<close> reads what \<open>printf\<close> writes\<close>



lemma ucast_back: "ucast (ucast (v :: u32) :: u64) = v"
  by (rule bit_word_eqI) (simp add: bit_simps)




section \<open>The numbers of the kernel\<close>

text \<open>The number that a signed decimal stands for.\<close>

definition decimal :: "u8 list \<Rightarrow> int" where
  "decimal s = (case s of c # cs \<Rightarrow> if c = 45 then - int (dval (rev cs)) else int (dval (rev s)) | [] \<Rightarrow> 0)"

lemma decimal_digits:
  "\<forall>c\<in>set cs. is_digit c \<Longrightarrow> decimal (rev cs) = int (dval cs)"
proof -
  assume d: "\<forall>c\<in>set cs. is_digit c"
  show ?thesis
  proof (cases "rev cs")
    case (Cons c r)
    then have "c \<in> set cs" by (metis list.set_intros(1) set_rev)
    then have "c \<noteq> 45" using d by (auto simp: is_digit_def)
    then show ?thesis using Cons by (simp add: decimal_def)
  qed (simp add: decimal_def)
qed

lemma unat_minus_sint:
  fixes x :: u64
  assumes "sint x < 0"
  shows "int (unat (- x)) = - sint x \<and> unat (- x) \<le> 2 ^ 63"
proof -
  have "- (2 ^ 63) \<le> sint x" using sint_range_size [of x] by (simp add: word_size)
  moreover have "- x = word_of_int (- sint x)" by simp
  then have "uint (- x) = - sint x" using assms calculation by (simp only: uint_word_of_int) simp
  then have "int (unat (- x)) = - sint x" by simp
  moreover have "int (unat (- x)) \<le> int (2 ^ 63)" using calculation by simp
  then have "unat (- x) \<le> 2 ^ 63" by (simp only: of_nat_le_iff)
  ultimately show ?thesis by blast
qed

text \<open>
  C39. \<open>printint\<close> of the kernel is exact on every 64-bit value and stays inside its \<open>char buf[20]\<close>: printed as a signed decimal, the output reads back as
  the signed value and has at most twenty characters (the smallest value needs all twenty); printed as an unsigned decimal it reads back as the
  unsigned value, in at most twenty; in base 16 it has at most sixteen characters.
\<close>

theorem kprintint_exact:
  "decimal (kprintint x 10 True) = sint x \<and> length (kprintint x 10 True) \<le> 20 \<and>
   decimal (kprintint x 10 False) = uint x \<and> length (kprintint x 10 False) \<le> 20 \<and>
   length (kprintint x 16 False) \<le> 16"
proof -
  have dec: "decimal (rev (digit_loop kdigits 10 y)) = uint y" "decimal (45 # rev (digit_loop kdigits 10 y)) = - uint y" for y :: u64
    using digit_loop_decimal [of kdigits y] by (simp_all add: decimal_digits) (simp add: decimal_def)
  have len: "length (digit_loop kdigits 10 y) \<le> 20" for y :: u64
    using unat64_less [of y] by (intro digit_loop_length) simp_all
  have len19: "length (digit_loop kdigits 10 y) \<le> 19" if "unat y \<le> 2 ^ 63" for y :: u64
    using that by (intro digit_loop_length) simp_all
  have hex: "length (digit_loop kdigits 16 y) \<le> 16" for y :: u64
    using unat64_less [of y] by (intro digit_loop_length) simp_all
  show ?thesis
  proof (cases "sint x < 0")
    case True
    then show ?thesis using unat_minus_sint [OF True] len19 [of "- x"] dec [of x] dec [of "- x"] len [of x] hex [of x]
      by (simp add: kprintint_def flip: uint_nat)
  next
    case False
    then have "uint x = sint x" using uint_sint [of x] sint_range_size [of x] by (simp add: word_size take_bit_int_eq_self)
    then show ?thesis using False dec [of x] len [of x] hex [of x] by (simp add: kprintint_def)
  qed
qed


text \<open>
  The user library's \<open>printint\<close> keeps the number in a \<open>uint\<close>: \<open>%lu\<close>, \<open>%llu\<close> and \<open>%lx\<close>, which fetch a 64-bit argument, print its low 32 bits, while the
  kernel's print all of it.
\<close>

lemma printf_long_truncates:
  "vprintf [37, 108, 117] [Num v] = vprintf [37, 117] [Num v]"
  by (simp add: vprintf_def conversion_def char_at_def uprintint_def ucast_back)

end
