(* ===== verification/Mkfs.thy ===== *)
theory Mkfs
  imports Fsdata
begin

text \<open>
  \<^verbatim>\<open>mkfs/mkfs.c\<close>: the program that builds the file system image. The image file is its sectors and its length; a sector that was never
  written reads as zeros below the length, and reading above it ends the program, as do the other calls of \<open>die\<close> and a failed \<open>assert\<close>. The byte order
  conversions \<open>xshort\<close> and \<open>xint\<close> make the bytes of a field the little-endian ones, which is how \<open>dinode_bytes\<close> lays out a field. The files and
  directories of the host are a tree.
\<close>

section \<open>Definitions\<close>

abbreviation (input) FSSIZE :: nat where "FSSIZE \<equiv> 4000"
abbreviation (input) MAXFILE :: nat where "MAXFILE \<equiv> 268"

definition nbitmap :: nat where "nbitmap = FSSIZE div (BSIZE * 8) + 1"
definition ninodeblocks :: nat where "ninodeblocks = 200 div IPB + 1"
definition mk_nlog :: nat where "mk_nlog = LOGBLOCKS"
definition nmeta :: nat where "nmeta = 2 + mk_nlog + ninodeblocks + nbitmap"

definition mk_sb :: superblock where
  "mk_sb = \<lparr>magic = FSMAGIC, sbsize = of_nat FSSIZE, nblocks = of_nat (FSSIZE - nmeta), ninodes = 200, nlog = of_nat mk_nlog,
     logstart = 2, inodestart = of_nat (2 + mk_nlog), bmapstart = of_nat (2 + mk_nlog + ninodeblocks)\<rparr>"

definition superblock_bytes :: "superblock \<Rightarrow> u8 list" where
  "superblock_bytes s = concat (map (bytes_of 4) [magic s, sbsize s, nblocks s, ninodes s, nlog s, logstart s, inodestart s, bmapstart s])"

record mkst =
  sectors :: "u32 \<Rightarrow> u8 list"
  nsect :: nat
  freeinode :: u32
  freeblock :: u32

definition wsect :: "u32 \<Rightarrow> u8 list \<Rightarrow> mkst \<Rightarrow> mkst" where
  "wsect sec buf st = st\<lparr>sectors := (sectors st)(sec := buf), nsect := max (nsect st) (unat sec + 1)\<rparr>"

definition rsect :: "u32 \<Rightarrow> mkst \<Rightarrow> u8 list outcome" where
  "rsect sec st = (if unat sec < nsect st then Ret (sectors st sec) else Panic ''read'')"

definition winode :: "u32 \<Rightarrow> dinode \<Rightarrow> mkst \<Rightarrow> mkst outcome" where
  "winode i din st =
     (let bn = IBLOCK i mk_sb
      in obind (rsect bn st) (\<lambda>buf. Ret (wsect bn (put_dinode (unat (i mod 16)) din buf) st)))"

definition rinode :: "u32 \<Rightarrow> mkst \<Rightarrow> dinode outcome" where
  "rinode i st = obind (rsect (IBLOCK i mk_sb) st) (\<lambda>buf. Ret (get_dinode (unat (i mod 16)) buf))"

definition mk_ialloc :: "u16 \<Rightarrow> mkst \<Rightarrow> (u32 \<times> mkst) outcome" where
  "mk_ialloc type st =
     (let i = freeinode st;
          st1 = st\<lparr>freeinode := i + 1\<rparr>;
          din = \<lparr>itype = type, imajor = 0, iminor = 0, nlink = 1, isize = 0, addrs = replicate (NDIRECT + 1) 0\<rparr>
      in obind (winode i din st1) (\<lambda>st2. Ret (i, st2)))"

definition mk_balloc :: "u32 \<Rightarrow> mkst \<Rightarrow> mkst outcome" where
  "mk_balloc usd st =
     (if unat usd < BSIZE * 8
      then Ret (wsect (bmapstart mk_sb) (fold mark_bit [0..<unat usd] (replicate BSIZE 0)) st)
      else Panic ''assert'')"

text \<open>The part of the loop of \<open>iappend\<close> that finds the block of the file, allocating it and the indirect block where they are missing.\<close>

definition mk_bmap :: "nat \<Rightarrow> dinode \<Rightarrow> mkst \<Rightarrow> (u32 \<times> dinode \<times> mkst) outcome" where
  "mk_bmap fbn din st =
     (if fbn < NDIRECT
      then if addrs din ! fbn = 0
           then Ret (freeblock st, din\<lparr>addrs := (addrs din)[fbn := freeblock st]\<rparr>, st\<lparr>freeblock := freeblock st + 1\<rparr>)
           else Ret (addrs din ! fbn, din, st)
      else let (din1, st1) = (if addrs din ! NDIRECT = 0
                              then (din\<lparr>addrs := (addrs din)[NDIRECT := freeblock st]\<rparr>, st\<lparr>freeblock := freeblock st + 1\<rparr>)
                              else (din, st));
               ia = addrs din1 ! NDIRECT; k = fbn - NDIRECT
           in obind (rsect ia st1) (\<lambda>ind.
                if get_le (4 * k) 4 ind = (0 :: u32)
                then let a = freeblock st1
                     in Ret (a, din1, wsect ia (put_bytes (4 * k) (bytes_of 4 a) ind) (st1\<lparr>freeblock := a + 1\<rparr>))
                else Ret (get_le (4 * k) 4 ind, din1, st1)))"

lemma rest_of_block: "0 < (off div 1024 + 1) * 1024 - off" for off :: nat
proof -
  have "off = off div 1024 * 1024 + off mod 1024" "off mod 1024 < 1024" by simp_all
  then have "off < off div 1024 * 1024 + 1024" by linarith
  then show ?thesis by simp
qed

function iappend_loop :: "nat \<Rightarrow> u8 list \<Rightarrow> dinode \<Rightarrow> mkst \<Rightarrow> (nat \<times> dinode \<times> mkst) outcome" where
  "iappend_loop off p din st =
     (if p = [] then Ret (off, din, st)
      else let fbn = off div BSIZE
           in if fbn < MAXFILE
              then obind (mk_bmap fbn din st) (\<lambda>(x, din1, st1).
                     let n1 = min (length p) ((fbn + 1) * BSIZE - off)
                     in obind (rsect x st1) (\<lambda>buf.
                          iappend_loop (off + n1) (drop n1 p) din1 (wsect x (put_bytes (off - fbn * BSIZE) (take n1 p) buf) st1)))
              else Panic ''assert'')"
  by pat_completeness auto
termination
  by (relation "measure (\<lambda>(off, p, din, st). length p)") (use rest_of_block in \<open>simp_all add: min_def\<close>)

declare iappend_loop.simps [simp del]

definition iappend :: "u32 \<Rightarrow> u8 list \<Rightarrow> mkst \<Rightarrow> mkst outcome" where
  "iappend i p st =
     obind (rinode i st) (\<lambda>din.
     obind (iappend_loop (unat (isize din)) p din st) (\<lambda>(off, din1, st1).
     winode i (din1\<lparr>isize := of_nat off\<rparr>) st1))"

text \<open>\<open>while((cc = read(fd, buf, sizeof(buf))) > 0) iappend(inum, buf, cc);\<close>\<close>

function append_file :: "u32 \<Rightarrow> u8 list \<Rightarrow> mkst \<Rightarrow> mkst outcome" where
  "append_file i p st = (if p = [] then Ret st else obind (iappend i (take BSIZE p) st) (\<lambda>st1. append_file i (drop BSIZE p) st1))"
  by pat_completeness auto
termination by (relation "measure (\<lambda>(i, p, st). length p)") auto

declare append_file.simps [simp del]

text \<open>
  A host file with its bytes, a directory with its entries in the order of \<open>readdir\<close>, or anything else; \<open>None\<close> where it cannot be opened. Directory
  entries whose name starts with a dot are skipped. A name is a string without NUL. \<open>strcpy\<close> of a directory's name into the 14 bytes of an entry has
  no defined effect when the name and its NUL do not fit.
\<close>

datatype host = HFile "u8 list option" | HDir "(u8 list \<times> host) list option" | HOther

definition add_entry :: "u32 \<Rightarrow> u8 list \<Rightarrow> u32 \<Rightarrow> mkst \<Rightarrow> mkst outcome" where
  "add_entry dir name i st = iappend dir (make_dirent name i) st"

definition add_file :: "u32 \<Rightarrow> u8 list \<Rightarrow> u8 list option \<Rightarrow> mkst \<Rightarrow> mkst outcome" where
  "add_file parentino filename contents st =
     (case contents of
        None \<Rightarrow> Panic ''open''
      | Some p \<Rightarrow>
          obind (mk_ialloc T_FILE st) (\<lambda>(i, st1).
          obind (add_entry parentino filename i st1) (\<lambda>st2. append_file i p st2)))"

fun hidden :: "u8 list \<Rightarrow> bool" where
  "hidden (c # _) = (c = 46)"
| "hidden [] = False"

lemma size_snds: "size_list (size \<circ> snd) es \<le> size_list (size_prod (\<lambda>_. 0) size) es"
  by (induction es) auto

function (sequential) add_dir :: "u32 \<Rightarrow> u8 list \<Rightarrow> (u8 list \<times> host) list option \<Rightarrow> mkst \<Rightarrow> mkst outcome"
  and add_entries :: "u32 \<Rightarrow> (u8 list \<times> host) list \<Rightarrow> mkst \<Rightarrow> mkst outcome" where
  "add_dir parentino dirname entries st =
     obind (mk_ialloc T_DIR st) (\<lambda>(dino, st1).
     if DIRSIZ \<le> length dirname then Panic ''strcpy''
     else obind (add_entry parentino dirname dino st1) (\<lambda>st2.
          obind (add_entry dino [46] dino st2) (\<lambda>st3.
          obind (add_entry dino [46, 46] parentino st3) (\<lambda>st4.
          case entries of None \<Rightarrow> Ret st4 | Some es \<Rightarrow> add_entries dino es st4))))"
| "add_entries dino [] st = Ret st"
| "add_entries dino ((name, h) # es) st =
     obind (if hidden name then Ret st
            else case h of HFile c \<Rightarrow> add_file dino name c st
                 | HDir ds \<Rightarrow> add_dir dino name ds st
                 | HOther \<Rightarrow> Ret st) (\<lambda>st1. add_entries dino es st1)"
  by pat_completeness auto
termination
  by (relation "measure (case_sum (\<lambda>(_, _, es, _). size (HDir es)) (\<lambda>(_, es, _). size_list (size \<circ> snd) es))")
    (auto simp: less_Suc_eq_le comp_def intro: le_SucI size_snds [unfolded comp_def])

text \<open>
  \<open>main\<close> after the command line is read. An argument is its path with what the host has there; \<open>user/\<close> and an underscore in front of a file's
  name are dropped, and a name with a slash left is refused.
\<close>

definition short_name :: "u8 list \<Rightarrow> u8 list" where
  "short_name path =
     (if take 5 path = [117, 115, 101, 114, 47] then drop 5 path else path)"

definition strip_underscore :: "u8 list \<Rightarrow> u8 list" where
  "strip_underscore s = (case s of c # s' \<Rightarrow> if c = 95 then s' else s | [] \<Rightarrow> [])"

definition add_arg :: "u32 \<Rightarrow> u8 list \<times> host \<Rightarrow> mkst \<Rightarrow> mkst outcome" where
  "add_arg rootino a st =
     (case a of (path, h) \<Rightarrow>
        case h of
          HDir ds \<Rightarrow> add_dir rootino path ds st
        | _ \<Rightarrow> let s = short_name path
               in if 47 \<in> set s then Panic ''assert''
                  else add_file rootino (strip_underscore s) (case h of HFile c \<Rightarrow> c | _ \<Rightarrow> None) st)"

fun add_args :: "u32 \<Rightarrow> (u8 list \<times> host) list \<Rightarrow> mkst \<Rightarrow> mkst outcome" where
  "add_args rootino [] st = Ret st"
| "add_args rootino (a # as) st = obind (add_arg rootino a st) (\<lambda>st1. add_args rootino as st1)"

definition mk_empty :: mkst where
  "mk_empty =
     wsect 1 (put_bytes 0 (superblock_bytes mk_sb) (replicate BSIZE 0))
       (fold (\<lambda>i. wsect (of_nat i) (replicate BSIZE 0)) [0..<FSSIZE]
          \<lparr>sectors = (\<lambda>_. replicate BSIZE 0), nsect = 0, freeinode = 1, freeblock = of_nat nmeta\<rparr>)"

text \<open>The last step: the size of the root directory is rounded up to the end of a block, past it if it is there already.\<close>

definition fix_root :: "u32 \<Rightarrow> mkst \<Rightarrow> mkst outcome" where
  "fix_root rootino st =
     obind (rinode rootino st) (\<lambda>din. winode rootino (din\<lparr>isize := (isize din div 1024 + 1) * 1024\<rparr>) st)"

definition mkfs :: "(u8 list \<times> host) list \<Rightarrow> mkst outcome" where
  "mkfs args =
     obind (mk_ialloc T_DIR mk_empty) (\<lambda>(rootino, st1).
     if rootino \<noteq> ROOTINO then Panic ''assert''
     else obind (add_entry rootino [46] rootino st1) (\<lambda>st2.
          obind (add_entry rootino [46, 46] rootino st2) (\<lambda>st3.
          obind (add_args rootino args st3) (\<lambda>st4.
          obind (fix_root rootino st4) (\<lambda>st5. mk_balloc (freeblock st5) st5)))))"

end
