(* ===== verification/Mkfsimg.thy ===== *)
theory Mkfsimg
  imports Mkfs
begin

text \<open>
  What \<open>iappend\<close> of \<^verbatim>\<open>mkfs/mkfs.c\<close> does to the image: the bytes of one file grow, in blocks of its own, and the blocks of all other files stay.
\<close>

section \<open>A file of the image\<close>

text \<open>The slots and the bytes of a file as its inode \<open>d\<close> and the sectors \<open>B\<close> give them.\<close>

definition dslot :: "dinode \<Rightarrow> (u32 \<Rightarrow> u8 list) \<Rightarrow> nat \<Rightarrow> u32" where
  "dslot d B i =
     (let as = addrs d
      in if i \<le> NDIRECT then as ! i else if as ! NDIRECT = 0 then 0 else get_le (4 * (i - 13)) 4 (B (as ! NDIRECT)))"

definition dbyte :: "dinode \<Rightarrow> (u32 \<Rightarrow> u8 list) \<Rightarrow> nat \<Rightarrow> u8" where
  "dbyte d B k = (let a = dslot d B (six (k div BSIZE)) in if a = 0 then 0 else B a ! (k mod BSIZE))"

text \<open>A file of \<open>len\<close> bytes uses the slots of its blocks, and the indirect block with its thirteenth block.\<close>

definition in_use :: "nat \<Rightarrow> nat \<Rightarrow> bool" where
  "in_use len j \<longleftrightarrow> (if j \<le> NDIRECT then j else j - 1) * BSIZE < len"

definition fblocks :: "nat \<Rightarrow> nat" where
  "fblocks len = (len + 1023) div BSIZE + (if NDIRECT * BSIZE < len then 1 else 0)"

definition slots_ok :: "dinode \<Rightarrow> (u32 \<Rightarrow> u8 list) \<Rightarrow> nat \<Rightarrow> bool" where
  "slots_ok d B fb \<longleftrightarrow> length (addrs d) = NDIRECT + 1
     \<and> (\<forall>j < NSLOT. dslot d B j \<noteq> 0 \<longrightarrow> nmeta \<le> unat (dslot d B j) \<and> unat (dslot d B j) < fb)
     \<and> (\<forall>i < NSLOT. \<forall>j < NSLOT. dslot d B i = dslot d B j \<longrightarrow> dslot d B i \<noteq> 0 \<longrightarrow> i = j)"

definition fstored :: "dinode \<Rightarrow> (u32 \<Rightarrow> u8 list) \<Rightarrow> nat \<Rightarrow> u8 list \<Rightarrow> bool" where
  "fstored d B fb bs \<longleftrightarrow> slots_ok d B fb \<and> length bs \<le> MAXFILEB
     \<and> (\<forall>j < NSLOT. dslot d B j \<noteq> 0 \<longleftrightarrow> in_use (length bs) j)
     \<and> (\<forall>k < MAXFILEB. dbyte d B k = (if k < length bs then bs ! k else 0))"

definition fslots :: "dinode \<Rightarrow> (u32 \<Rightarrow> u8 list) \<Rightarrow> u32 set" where
  "fslots d B = dslot d B ` {..<NSLOT} - {0}"

definition img_ok :: "mkst \<Rightarrow> bool" where
  "img_ok st \<longleftrightarrow> (\<forall>b. length (sectors st b) = BSIZE) \<and> nsect st = FSSIZE \<and> nmeta \<le> unat (freeblock st) \<and> unat (freeblock st) \<le> FSSIZE
     \<and> (\<forall>b. freeblock st \<le> b \<longrightarrow> sectors st b = replicate BSIZE 0)"

lemma img_okD:
  assumes "img_ok st"
  shows "length (sectors st b) = BSIZE" "nsect st = FSSIZE" "nmeta \<le> unat (freeblock st)" "unat (freeblock st) \<le> FSSIZE"
    "freeblock st \<le> b \<Longrightarrow> sectors st b = replicate BSIZE 0"
  using assms by (simp_all add: img_ok_def)

lemma nmeta_eq: "nmeta = 46"
  by (simp add: nmeta_def mk_nlog_def ninodeblocks_def nbitmap_def)

lemma slots_okD:
  assumes "slots_ok d B fb"
  shows "length (addrs d) = 13" "j < NSLOT \<Longrightarrow> dslot d B j \<noteq> 0 \<Longrightarrow> 46 \<le> unat (dslot d B j)"
    "j < NSLOT \<Longrightarrow> dslot d B j \<noteq> 0 \<Longrightarrow> unat (dslot d B j) < fb"
    "i < NSLOT \<Longrightarrow> j < NSLOT \<Longrightarrow> dslot d B i = dslot d B j \<Longrightarrow> dslot d B i \<noteq> 0 \<Longrightarrow> i = j"
  using assms by (auto simp: slots_ok_def nmeta_eq)

lemma dslot_direct: "j \<le> NDIRECT \<Longrightarrow> dslot d B j = addrs d ! j"
  by (simp add: dslot_def Let_def)

lemma dslot_indirect: "NDIRECT < j \<Longrightarrow> addrs d ! NDIRECT \<noteq> 0 \<Longrightarrow> dslot d B j = get_le (4 * (j - 13)) 4 (B (addrs d ! NDIRECT))"
  by (simp add: dslot_def Let_def)

section \<open>Lengths\<close>

lemma in_use_six: "in_use len (six bn) \<longleftrightarrow> bn * BSIZE < len"
  by (auto simp: in_use_def six_def)

lemma block_split:
  fixes len :: nat
  obtains q r where "len = q * BSIZE + r" "r < BSIZE" "len div BSIZE = q" "len mod BSIZE = r"
  by (rule that [of "len div BSIZE" "len mod BSIZE"]) simp_all

lemma in_use_append:
  assumes "0 < c" "len mod BSIZE + c \<le> BSIZE"
  shows "in_use (len + c) j \<longleftrightarrow> in_use len j \<or> (if j \<le> NDIRECT then j else j - 1) = len div BSIZE"
proof -
  have "p * BSIZE < q * BSIZE + r + c \<longleftrightarrow> p * BSIZE < q * BSIZE + r \<or> p = q" if "r + c \<le> BSIZE" for p q r :: nat
    using that assms(1) by auto
  moreover obtain q r where "len = q * BSIZE + r" "len div BSIZE = q" "len mod BSIZE = r" using block_split by blast
  ultimately show ?thesis using assms(2) by (simp add: in_use_def)
qed

text \<open>How many blocks one step of the loop allocates.\<close>

definition fresh :: "nat \<Rightarrow> nat" where
  "fresh len = (if len mod BSIZE \<noteq> 0 then 0 else if len = NDIRECT * BSIZE then 2 else 1)"

lemma fblocks_append:
  assumes "0 < c" "len mod BSIZE + c \<le> BSIZE"
  shows "fblocks (len + c) = fblocks len + fresh len"
proof -
  obtain q r where l: "len = q * BSIZE + r" "r < BSIZE" "len mod BSIZE = r" using block_split [of len] by metis
  have c: "0 < c" "r + c \<le> BSIZE" using assms l(3) by auto
  have 1: "(q * BSIZE + r + c + 1023) div BSIZE = q + 1" using c l(2) by simp
  have 2: "(q * BSIZE + r + 1023) div BSIZE = q + (if r = 0 then 0 else 1)" using l(2) by auto
  have 3: "NDIRECT * BSIZE < q * BSIZE + r + c \<longleftrightarrow> NDIRECT \<le> q" using c by auto
  have 4: "NDIRECT * BSIZE < q * BSIZE + r \<longleftrightarrow> NDIRECT < q \<or> NDIRECT = q \<and> r \<noteq> 0" using l(2) by auto
  have 5: "q * BSIZE + r = NDIRECT * BSIZE \<longleftrightarrow> q = NDIRECT \<and> r = 0" using l(2) by (cases q NDIRECT rule: linorder_cases) auto
  show ?thesis unfolding fblocks_def fresh_def l(3) unfolding l(1) 1 2 3 4 5 by auto
qed

section \<open>Finding a block\<close>

text \<open>
  What \<open>mk_bmap\<close> returns: \<open>x\<close> is the block of the file at its end, slots that were set stay, new ones are fresh blocks, and only the indirect block
  is written.
\<close>

definition mapped_at_end :: "dinode \<Rightarrow> mkst \<Rightarrow> nat \<Rightarrow> u32 \<Rightarrow> dinode \<Rightarrow> mkst \<Rightarrow> bool" where
  "mapped_at_end d st len x d1 st1 \<longleftrightarrow> img_ok st1 \<and> slots_ok d1 (sectors st1) (unat (freeblock st1))
     \<and> unat (freeblock st1) = unat (freeblock st) + fresh len \<and> freeinode st1 = freeinode st \<and> (\<exists>as. d1 = d\<lparr>addrs := as\<rparr>)
     \<and> x \<noteq> 0 \<and> x = dslot d1 (sectors st1) (six (len div BSIZE))
     \<and> (\<forall>j < NSLOT. dslot d (sectors st) j \<noteq> 0 \<longrightarrow> dslot d1 (sectors st1) j = dslot d (sectors st) j)
     \<and> (\<forall>j < NSLOT. dslot d (sectors st) j = 0 \<longrightarrow> dslot d1 (sectors st1) j \<noteq> 0 \<longrightarrow> freeblock st \<le> dslot d1 (sectors st1) j)
     \<and> (\<forall>j < NSLOT. dslot d1 (sectors st1) j \<noteq> 0 \<longleftrightarrow> in_use len j \<or> (if j \<le> NDIRECT then j else j - 1) = len div BSIZE)
     \<and> (\<forall>b. b = 0 \<or> b \<noteq> dslot d1 (sectors st1) NDIRECT \<longrightarrow> sectors st1 b = sectors st b)"

lemma mapped_at_endI:
  assumes "sectors st1 = B1" "freeinode st1 = freeinode st" "img_ok st1" "slots_ok d1 B1 (unat (freeblock st1))"
    "unat (freeblock st1) = unat (freeblock st) + fresh len" "d1 = d\<lparr>addrs := as\<rparr>" "x \<noteq> 0" "x = dslot d1 B1 (six (len div BSIZE))"
    "\<And>j. j < NSLOT \<Longrightarrow> dslot d (sectors st) j \<noteq> 0 \<Longrightarrow> dslot d1 B1 j = dslot d (sectors st) j"
    "\<And>j. j < NSLOT \<Longrightarrow> dslot d (sectors st) j = 0 \<Longrightarrow> dslot d1 B1 j \<noteq> 0 \<Longrightarrow> freeblock st \<le> dslot d1 B1 j"
    "\<And>j. j < NSLOT \<Longrightarrow> dslot d1 B1 j \<noteq> 0 \<longleftrightarrow> in_use len j \<or> (if j \<le> NDIRECT then j else j - 1) = len div BSIZE"
    "\<And>b. b = 0 \<or> b \<noteq> dslot d1 B1 NDIRECT \<Longrightarrow> B1 b = sectors st b"
  shows "mapped_at_end d st len x d1 st1"
  unfolding mapped_at_end_def assms(1,2) using assms(3-12) by blast

text \<open>Slots with a fresh block in slot \<open>k\<close>.\<close>

lemma slots_ok_fresh:
  assumes ok: "slots_ok d B (unat fb)" and k: "k < NSLOT" "dslot d B k = 0" and fb: "46 \<le> unat fb" "unat fb < n"
    and l: "length (addrs d1) = 13" and s: "\<And>j. j < NSLOT \<Longrightarrow> dslot d1 B1 j = (if j = k then fb else dslot d B j)"
  shows "slots_ok d1 B1 n"
proof -
  note O = slots_okD [OF ok]
  have ne: "dslot d B j \<noteq> fb" if "j < NSLOT" for j using O(3) [OF that] fb(1) by (cases "dslot d B j = 0") auto
  have f0: "fb \<noteq> 0" using fb(1) by auto
  show ?thesis
    unfolding slots_ok_def
  proof (intro conjI allI impI)
    fix j assume j: "j < NSLOT" "dslot d1 B1 j \<noteq> 0"
    show "nmeta \<le> unat (dslot d1 B1 j)" "unat (dslot d1 B1 j) < n"
      using s [OF j(1)] j O(2,3) [of j] fb by (auto simp: nmeta_eq split: if_splits)
  next
    fix i j assume "i < NSLOT" "j < NSLOT" "dslot d1 B1 i = dslot d1 B1 j" "dslot d1 B1 i \<noteq> 0"
    then show "i = j" using s [of i] s [of j] O(4) [of i j] ne [of i] ne [of j] by (auto split: if_splits)
  qed (simp add: l)
qed

lemma img_ok_bump:
  assumes "img_ok st" "unat (freeblock st) < FSSIZE"
  shows "img_ok (st\<lparr>freeblock := freeblock st + 1\<rparr>)" "unat (freeblock st + 1) = unat (freeblock st) + 1"
proof -
  show n: "unat (freeblock st + 1) = unat (freeblock st) + 1" using assms(2) by (simp add: unat_word_ariths)
  then show "img_ok (st\<lparr>freeblock := freeblock st + 1\<rparr>)"
    using assms by (auto simp: img_ok_def word_le_nat_alt)
qed

lemma mk_bmap_old:
  assumes ok: "img_ok st" and f: "fstored d (sectors st) (unat (freeblock st)) bs" and l: "length bs < MAXFILEB"
    and old: "length bs mod BSIZE \<noteq> 0"
  shows "\<exists>x d1 st1. mk_bmap (length bs div BSIZE) d st = Ret (x, d1, st1) \<and> mapped_at_end d st (length bs) x d1 st1"
proof -
  let ?n = "length bs div BSIZE"
  let ?x = "dslot d (sectors st) (six ?n)"
  have s: "slots_ok d (sectors st) (unat (freeblock st))" and use: "\<And>j. j < NSLOT \<Longrightarrow> dslot d (sectors st) j \<noteq> 0 \<longleftrightarrow> in_use (length bs) j"
    using f by (auto simp: fstored_def)
  have n: "six ?n < NSLOT" using six_range(2) [OF l] .
  have lt: "?n * BSIZE < length bs" using old by (metis div_mult_mod_eq less_add_same_cancel1 gr0I)
  then have x: "?x \<noteq> 0" using use [OF n] by (simp add: in_use_six)
  have run: "mk_bmap ?n d st = Ret (?x, d, st)"
  proof (cases "?n < NDIRECT")
    case True
    then show ?thesis using x by (simp add: mk_bmap_def six_def dslot_direct)
  next
    case False
    then have j: "six ?n - 13 = ?n - NDIRECT" "NDIRECT < six ?n" by (auto simp: six_def)
    have ia: "addrs d ! NDIRECT \<noteq> 0" using x j(2) by (auto simp: dslot_def Let_def split: if_splits)
    have "unat (addrs d ! NDIRECT) < nsect st"
      using slots_okD(3) [OF s, of NDIRECT] ia img_okD(2,4) [OF ok] by (simp add: dslot_direct)
    then show ?thesis using x False ia dslot_indirect [OF j(2) ia] j(1) by (simp add: mk_bmap_def rsect_def Let_def)
  qed
  have "(if j \<le> NDIRECT then j else j - 1) = ?n \<Longrightarrow> in_use (length bs) j" for j using lt by (simp add: in_use_def)
  then have "mapped_at_end d st (length bs) ?x d st"
    using ok s x old use by (intro mapped_at_endI [where as = "addrs d"]) (auto simp: fresh_def)
  then show ?thesis using run by blast
qed


text \<open>A new direct block; a new block in an indirect block that is there.\<close>

lemma mapped_direct:
  assumes ok: "img_ok st" and f: "fstored d (sectors st) (unat (freeblock st)) bs" and l: "length bs mod BSIZE = 0" "length bs div BSIZE < NDIRECT"
    and fb: "unat (freeblock st) < FSSIZE"
  shows "mapped_at_end d st (length bs) (freeblock st) (d\<lparr>addrs := (addrs d)[length bs div BSIZE := freeblock st]\<rparr>) (st\<lparr>freeblock := freeblock st + 1\<rparr>)"
proof -
  let ?n = "length bs div BSIZE" and ?d1 = "d\<lparr>addrs := (addrs d)[length bs div BSIZE := freeblock st]\<rparr>"
  have len: "length bs = ?n * BSIZE" using l(1) by (metis add.right_neutral div_mult_mod_eq)
  have s: "slots_ok d (sectors st) (unat (freeblock st))" and use: "\<And>j. j < NSLOT \<Longrightarrow> dslot d (sectors st) j \<noteq> 0 \<longleftrightarrow> in_use (length bs) j"
    using f by (auto simp: fstored_def)
  have la: "length (addrs d) = 13" using slots_okD(1) [OF s] .
  have sl: "dslot ?d1 (sectors st) j = (if j = ?n then freeblock st else dslot d (sectors st) j)" if "j < NSLOT" for j
    using la l(2) by (auto simp: dslot_def Let_def nth_list_update)
  have z: "dslot d (sectors st) ?n = 0" using use [of ?n] len l(2) by (simp add: in_use_def)
  have ne: "46 \<le> unat (freeblock st)" using img_okD(3) [OF ok] by (simp add: nmeta_eq)
  then have f0: "freeblock st \<noteq> 0" by auto
  show ?thesis
  proof (rule mapped_at_endI [where ?B1.0 = "sectors st"])
    show "slots_ok ?d1 (sectors st) (unat (freeblock (st\<lparr>freeblock := freeblock st + 1\<rparr>)))"
      using slots_ok_fresh [OF s _ z ne _ _ sl] l(2) la img_ok_bump(2) [OF ok fb] by simp
    have "fresh (length bs) = 1" using l len by (simp add: fresh_def)
    then show "unat (freeblock (st\<lparr>freeblock := freeblock st + 1\<rparr>)) = unat (freeblock st) + fresh (length bs)"
      using img_ok_bump(2) [OF ok fb] by simp
    show "freeblock st = dslot ?d1 (sectors st) (six ?n)" using sl [of ?n] l(2) by (simp add: six_def)
  next
    fix j assume j: "j < NSLOT"
    show "dslot ?d1 (sectors st) j \<noteq> 0 \<longleftrightarrow> in_use (length bs) j \<or> (if j \<le> NDIRECT then j else j - 1) = ?n"
      using sl [OF j] use [OF j] f0 l(2) by auto
    show "dslot d (sectors st) j \<noteq> 0 \<Longrightarrow> dslot ?d1 (sectors st) j = dslot d (sectors st) j" using sl [OF j] z by auto
    show "dslot d (sectors st) j = 0 \<Longrightarrow> dslot ?d1 (sectors st) j \<noteq> 0 \<Longrightarrow> freeblock st \<le> dslot ?d1 (sectors st) j"
      using sl [OF j] by (auto split: if_splits)
  qed (use img_ok_bump(1) [OF ok fb] f0 in simp_all)
qed

text \<open>The block map with an indirect block \<open>ia\<close>: \<open>ia\<close> may be fresh, then all its entries are 0.\<close>

lemma dslot_put:
  assumes "length (B (addrs d ! NDIRECT)) = BSIZE" "addrs d ! NDIRECT \<noteq> 0" "k < NINDIRECT" "j < NSLOT"
  shows "dslot d (B(addrs d ! NDIRECT := put_bytes (4 * k) (bytes_of 4 a) (B (addrs d ! NDIRECT)))) j =
    (if j = 13 + k then a else dslot d B j)"
proof (cases "j \<le> NDIRECT")
  case True
  then show ?thesis by (simp add: dslot_direct)
next
  case False
  then have "4 * (j - 13) + 4 \<le> BSIZE" "4 * k + 4 \<le> BSIZE" using assms(3,4) by auto
  then show ?thesis using False assms(1,2) get_put_le [of k "B (addrs d ! NDIRECT)" "j - 13" a]
    by (auto simp: dslot_indirect)
qed

lemma mapped_indirect:
  assumes ok: "img_ok st" and f: "fstored d (sectors st) (unat (freeblock st)) bs" and l: "length bs mod BSIZE = 0" "NDIRECT \<le> length bs div BSIZE" "length bs < MAXFILEB"
    and d1: "d1 = d\<lparr>addrs := as\<rparr>" "img_ok st1" "sectors st1 = sectors st" "freeinode st1 = freeinode st" "slots_ok d1 (sectors st) (unat (freeblock st1))"
    and s1: "addrs d1 ! NDIRECT \<noteq> 0" "\<And>j. j < NSLOT \<Longrightarrow> j \<noteq> NDIRECT \<Longrightarrow> dslot d1 (sectors st) j = dslot d (sectors st) j"
    and ia: "dslot d (sectors st) NDIRECT \<noteq> 0 \<Longrightarrow> d1 = d" "dslot d (sectors st) NDIRECT = 0 \<Longrightarrow> addrs d1 ! NDIRECT = freeblock st"
    and fb: "unat (freeblock st1) < FSSIZE" "unat (freeblock st1) + 1 = unat (freeblock st) + fresh (length bs)"
  defines "k \<equiv> length bs div BSIZE - NDIRECT" and "a \<equiv> freeblock st1"
  shows "mapped_at_end d st (length bs) a d1
    (wsect (addrs d1 ! NDIRECT) (put_bytes (4 * k) (bytes_of 4 a) (sectors st (addrs d1 ! NDIRECT))) (st1\<lparr>freeblock := a + 1\<rparr>))"
proof -
  let ?n = "length bs div BSIZE" and ?ia = "addrs d1 ! NDIRECT"
  define B1 where "B1 = (sectors st)(?ia := put_bytes (4 * k) (bytes_of 4 a) (sectors st ?ia))"
  define st2 where "st2 = wsect ?ia (put_bytes (4 * k) (bytes_of 4 a) (sectors st ?ia)) (st1\<lparr>freeblock := a + 1\<rparr>)"
  have len: "length bs = ?n * BSIZE" using l(1) by (metis add.right_neutral div_mult_mod_eq)
  have n: "?n < 268" using six_range(1) [OF l(3)] .
  have k: "k < NINDIRECT" "six ?n = 13 + k" using n l(2) by (auto simp: k_def six_def)
  have use: "\<And>j. j < NSLOT \<Longrightarrow> dslot d (sectors st) j \<noteq> 0 \<longleftrightarrow> in_use (length bs) j" using f by (auto simp: fstored_def)
  have z: "dslot d (sectors st) (13 + k) = 0" using use [of "13 + k"] k len l(2) by (simp add: in_use_def k_def)
  have D: "unat ?ia < unat (freeblock st1)" "length (addrs d1) = 13" using slots_okD(1) [OF d1(5)] slots_okD(3) [OF d1(5), of NDIRECT] s1(1) by (simp_all add: dslot_direct)
  have sl: "dslot d1 B1 j = (if j = 13 + k then a else dslot d1 (sectors st) j)" if "j < NSLOT" for j
    unfolding B1_def using img_okD(1) [OF ok] s1(1) k(1) that by (intro dslot_put) auto
  have ne: "46 \<le> unat (freeblock st1)" using img_okD(3) [OF d1(2)] by (simp add: nmeta_eq)
  then have f0: "a \<noteq> 0" unfolding a_def by auto
  have B2: "sectors st2 = B1" "freeblock st2 = a + 1" "freeinode st2 = freeinode st" "nsect st2 = FSSIZE"
    using d1(3,4) D(1) fb(1) img_okD(2) [OF d1(2)] by (simp_all add: st2_def wsect_def B1_def)
  have fb2: "unat (a + 1) = unat a + 1" using img_ok_bump(2) [OF d1(2) fb(1)] by (simp add: a_def)
  have fle: "freeblock st \<le> a" using fb(2) l(1) by (auto simp: word_le_nat_alt a_def fresh_def split: if_splits)
  have "slots_ok d1 B1 (unat (a + 1))"
    using slots_ok_fresh [OF d1(5) _ _ ne _ D(2), where k = "13 + k" and ?B1.0 = B1] sl z s1(2) [of "13 + k"] k(1) fb2 by (simp add: a_def)
  moreover have "img_ok st2"
    using img_ok_bump [OF d1(2) fb(1)] D(1) img_okD(1) [OF ok] k(1) d1(3)
    by (auto simp: img_ok_def B2 B1_def a_def word_le_nat_alt length_put_bytes)
  moreover have "(dslot d1 B1 j \<noteq> 0) = (in_use (length bs) j \<or> (if j \<le> NDIRECT then j else j - 1) = ?n)" if j: "j < NSLOT" for j
  proof (cases "j = NDIRECT")
    case True
    then show ?thesis using sl [OF j] s1(1) len l(2) by (auto simp: dslot_direct in_use_def)
  next
    case False
    then show ?thesis using sl [OF j] use [OF j] s1(2) [OF j] f0 k l(2) by (auto simp: k_def split: if_splits)
  qed
  moreover have "dslot d1 B1 j = dslot d (sectors st) j" if "j < NSLOT" "dslot d (sectors st) j \<noteq> 0" for j
    using sl [OF that(1)] that z s1(2) [OF that(1)] ia(1) by (cases "j = NDIRECT") auto
  moreover have "freeblock st \<le> dslot d1 B1 j" if "j < NSLOT" "dslot d (sectors st) j = 0" "dslot d1 B1 j \<noteq> 0" for j
    using sl [OF that(1)] that s1(2) [OF that(1)] ia(2) fle by (cases "j = NDIRECT") (auto simp: dslot_direct split: if_splits)
  moreover have "a = dslot d1 B1 (six ?n)" "dslot d1 B1 NDIRECT = ?ia" using sl [of "13 + k"] k sl [of NDIRECT] by (simp_all add: dslot_direct)
  ultimately show ?thesis unfolding st2_def [symmetric]
    using f0 fb2 fb(2) d1(1) B2 by (intro mapped_at_endI [where ?B1.0 = B1]) (simp_all add: a_def, use s1(1) in \<open>auto simp: B1_def\<close>)
qed


lemma mk_bmap_spec:
  assumes ok: "img_ok st" and f: "fstored d (sectors st) (unat (freeblock st)) bs" and l: "length bs < MAXFILEB"
    and fb: "unat (freeblock st) + fresh (length bs) \<le> FSSIZE"
  shows "\<exists>x d1 st1. mk_bmap (length bs div BSIZE) d st = Ret (x, d1, st1) \<and> mapped_at_end d st (length bs) x d1 st1"
proof -
  let ?n = "length bs div BSIZE"
  have s: "slots_ok d (sectors st) (unat (freeblock st))" and use: "\<And>j. j < NSLOT \<Longrightarrow> dslot d (sectors st) j \<noteq> 0 \<longleftrightarrow> in_use (length bs) j"
    using f by (auto simp: fstored_def)
  note la = slots_okD(1) [OF s]
  have fpos: "46 \<le> unat (freeblock st)" using img_okD(3) [OF ok] by (simp add: nmeta_eq)
  then have f0: "freeblock st \<noteq> 0" by auto
  consider (old) "length bs mod BSIZE \<noteq> 0" | (direct) "length bs mod BSIZE = 0" "?n < NDIRECT"
    | (both) "length bs mod BSIZE = 0" "?n = NDIRECT" | (indirect) "length bs mod BSIZE = 0" "NDIRECT < ?n" by linarith
  then show ?thesis
  proof cases
    case old
    then show ?thesis by (rule mk_bmap_old [OF ok f l])
  next
    case direct
    have len: "length bs = ?n * BSIZE" using direct(1) by (metis add.right_neutral div_mult_mod_eq)
    then have "addrs d ! ?n = 0" using use [of ?n] direct(2) by (simp add: in_use_def dslot_direct)
    moreover have "unat (freeblock st) < FSSIZE" using fb direct(1) by (simp add: fresh_def split: if_splits)
    ultimately show ?thesis using mapped_direct [OF ok f direct] direct(2) by (auto simp: mk_bmap_def)
  next
    case both
    have len: "length bs = NDIRECT * BSIZE" using both by (metis add.right_neutral div_mult_mod_eq)
    then have z: "addrs d ! NDIRECT = 0" "dslot d (sectors st) NDIRECT = 0" using use [of NDIRECT] by (simp_all add: in_use_def dslot_direct)
    have fr: "unat (freeblock st) + 2 \<le> FSSIZE" using fb len by (simp add: fresh_def)
    then have fb1: "unat (freeblock st) < FSSIZE" by simp
    define d1 where "d1 = d\<lparr>addrs := (addrs d)[NDIRECT := freeblock st]\<rparr>"
    define st1 where "st1 = st\<lparr>freeblock := freeblock st + 1\<rparr>"
    have a: "addrs d1 ! NDIRECT = freeblock st" using la by (simp add: d1_def)
    note b = img_ok_bump [OF ok fb1]
    have zs: "sectors st (freeblock st) = replicate BSIZE 0" using img_okD(5) [OF ok] by simp
    have sl: "dslot d1 (sectors st) j = (if j = NDIRECT then freeblock st else dslot d (sectors st) j)" if "j < NSLOT" for j
      using la z f0 zs by (auto simp: dslot_def Let_def d1_def nth_list_update get_le_zeros)
    have s1: "slots_ok d1 (sectors st) (unat (freeblock st1))"
      using slots_ok_fresh [OF s _ z(2) fpos _ _ sl] la b(2) by (simp add: d1_def st1_def)
    have "mk_bmap ?n d st = Ret (freeblock st1, d1, wsect (addrs d1 ! NDIRECT) (put_bytes (4 * (?n - NDIRECT)) (bytes_of 4 (freeblock st1))
        (sectors st (addrs d1 ! NDIRECT))) (st1\<lparr>freeblock := freeblock st1 + 1\<rparr>))"
      using both z zs fb1 img_okD(2) [OF ok] a by (simp add: mk_bmap_def rsect_def Let_def get_le_zeros flip: d1_def st1_def) (simp add: st1_def get_le_zeros)
    moreover have "mapped_at_end d st (length bs) (freeblock st1) d1 (wsect (addrs d1 ! NDIRECT) (put_bytes (4 * (?n - NDIRECT)) (bytes_of 4 (freeblock st1))
        (sectors st (addrs d1 ! NDIRECT))) (st1\<lparr>freeblock := freeblock st1 + 1\<rparr>))"
      by (rule mapped_indirect [OF ok f both(1) _ l d1_def, of st1]) (use both b s1 a f0 sl z fr len in \<open>simp_all add: st1_def fresh_def\<close>)
    ultimately show ?thesis by blast
  next
    case indirect
    have len: "length bs = ?n * BSIZE" using indirect(1) by (metis add.right_neutral div_mult_mod_eq)
    have use12: "NDIRECT * BSIZE < length bs" using indirect(2) len by linarith
    then have ia: "addrs d ! NDIRECT \<noteq> 0" using use [of NDIRECT] by (simp add: in_use_def dslot_direct)
    have fr: "fresh (length bs) = 1" using use12 indirect(1) by (simp add: fresh_def)
    then have fb1: "unat (freeblock st) < FSSIZE" using fb by simp
    have j: "six ?n = 13 + (?n - NDIRECT)" "six ?n < NSLOT" using indirect(2) six_range(2) [OF l] by (auto simp: six_def)
    have "dslot d (sectors st) (six ?n) = 0" using use [OF j(2)] len by (simp add: in_use_six)
    then have z: "get_le (4 * (?n - NDIRECT)) 4 (sectors st (addrs d ! NDIRECT)) = (0 :: u32)" using ia by (simp add: j(1) dslot_indirect)
    have "unat (addrs d ! NDIRECT) < nsect st" using slots_okD(3) [OF s, of NDIRECT] ia img_okD(2,4) [OF ok] by (simp add: dslot_direct)
    then have "mk_bmap ?n d st = Ret (freeblock st, d, wsect (addrs d ! NDIRECT) (put_bytes (4 * (?n - NDIRECT)) (bytes_of 4 (freeblock st))
        (sectors st (addrs d ! NDIRECT))) (st\<lparr>freeblock := freeblock st + 1\<rparr>))"
      using indirect(2) ia z by (simp add: mk_bmap_def rsect_def Let_def)
    moreover have "mapped_at_end d st (length bs) (freeblock st) d (wsect (addrs d ! NDIRECT) (put_bytes (4 * (?n - NDIRECT)) (bytes_of 4 (freeblock st))
        (sectors st (addrs d ! NDIRECT))) (st\<lparr>freeblock := freeblock st + 1\<rparr>))"
      by (rule mapped_indirect [OF ok f indirect(1) _ l, where as = "addrs d"]) (use indirect ok s ia fb1 fr in \<open>simp_all add: dslot_direct\<close>)
    ultimately show ?thesis by blast
  qed
qed


section \<open>Appending\<close>

lemma mapped_at_endD:
  assumes "mapped_at_end d st len x d1 st1"
  shows "img_ok st1" "slots_ok d1 (sectors st1) (unat (freeblock st1))" "unat (freeblock st1) = unat (freeblock st) + fresh len"
    "freeinode st1 = freeinode st" "\<exists>as. d1 = d\<lparr>addrs := as\<rparr>" "x \<noteq> 0" "x = dslot d1 (sectors st1) (six (len div BSIZE))"
    "j < NSLOT \<Longrightarrow> dslot d (sectors st) j \<noteq> 0 \<Longrightarrow> dslot d1 (sectors st1) j = dslot d (sectors st) j"
    "j < NSLOT \<Longrightarrow> dslot d (sectors st) j = 0 \<Longrightarrow> dslot d1 (sectors st1) j \<noteq> 0 \<Longrightarrow> freeblock st \<le> dslot d1 (sectors st1) j"
    "j < NSLOT \<Longrightarrow> dslot d1 (sectors st1) j \<noteq> 0 \<longleftrightarrow> in_use len j \<or> (if j \<le> NDIRECT then j else j - 1) = len div BSIZE"
    "b = 0 \<or> b \<noteq> dslot d1 (sectors st1) NDIRECT \<Longrightarrow> sectors st1 b = sectors st b"
  using assms unfolding mapped_at_end_def by blast+

text \<open>Finding a block changes no byte of the file.\<close>

lemma mapped_bytes:
  assumes m: "mapped_at_end d st len x d1 st1" and ok: "img_ok st" and k: "k < MAXFILEB"
  shows "dbyte d1 (sectors st1) k = dbyte d (sectors st) k"
proof -
  let ?j = "six (k div BSIZE)"
  note M = mapped_at_endD [OF m]
  have j: "?j < NSLOT" "?j \<noteq> NDIRECT" using six_range(2) [OF k] six_facts(2) by auto
  have ne: "dslot d1 (sectors st1) ?j \<noteq> dslot d1 (sectors st1) NDIRECT" if "dslot d1 (sectors st1) ?j \<noteq> 0"
    using slots_okD(4) [OF M(2), of ?j NDIRECT] j that by auto
  show ?thesis
  proof (cases "dslot d (sectors st) ?j = 0")
    case True
    have "sectors st1 (dslot d1 (sectors st1) ?j) = replicate BSIZE 0" if "dslot d1 (sectors st1) ?j \<noteq> 0"
      using M(11) [OF disjI2 [OF ne [OF that]]] img_okD(5) [OF ok] M(9) [OF j(1) True that] by simp
    then show ?thesis using True by (auto simp: dbyte_def Let_def)
  next
    case False
    then show ?thesis using M(8) [OF j(1) False] M(11) [OF disjI2 [OF ne]] by (simp add: dbyte_def Let_def)
  qed
qed

text \<open>One turn of the loop of \<open>iappend\<close>: the bytes \<open>cs\<close> go into the last block.\<close>

definition appended :: "dinode \<Rightarrow> mkst \<Rightarrow> u8 list \<Rightarrow> u8 list \<Rightarrow> dinode \<Rightarrow> mkst \<Rightarrow> bool" where
  "appended d st bs cs d1 st1 \<longleftrightarrow> img_ok st1 \<and> fstored d1 (sectors st1) (unat (freeblock st1)) (bs @ cs) \<and> (\<exists>as. d1 = d\<lparr>addrs := as\<rparr>)
     \<and> freeinode st1 = freeinode st \<and> unat (freeblock st1) + fblocks (length bs) = unat (freeblock st) + fblocks (length bs + length cs)
     \<and> (\<forall>b. b < freeblock st \<longrightarrow> b \<notin> fslots d (sectors st) \<longrightarrow> sectors st1 b = sectors st b)
     \<and> (\<forall>b \<in> fslots d1 (sectors st1). b < freeblock st \<longrightarrow> b \<in> fslots d (sectors st))"

lemma append_block:
  assumes ok: "img_ok st" and f: "fstored d (sectors st) (unat (freeblock st)) bs"
    and c: "cs \<noteq> []" "length bs mod BSIZE + length cs \<le> BSIZE" "length bs + length cs \<le> MAXFILEB"
    and m: "mapped_at_end d st (length bs) x d1 st1"
  shows "rsect x st1 = Ret (sectors st1 x)"
    "appended d st bs cs d1 (wsect x (put_bytes (length bs mod BSIZE) cs (sectors st1 x)) st1)"
proof -
  let ?n = "length bs div BSIZE" and ?r = "length bs mod BSIZE"
  define st2 where "st2 = wsect x (put_bytes ?r cs (sectors st1 x)) st1"
  note M = mapped_at_endD [OF m]
  note S = slots_okD [OF M(2)]
  have l: "length bs < MAXFILEB" using c(1,3) by (cases cs) auto
  have j: "six ?n < NSLOT" "six ?n \<noteq> NDIRECT" using six_range(2) [OF l] six_facts(2) by auto
  have x: "unat x < unat (freeblock st1)" using S(3) [OF j(1)] M(6,7) by simp
  then have xs: "unat x < FSSIZE" using img_okD(4) [OF M(1)] by linarith
  then show "rsect x st1 = Ret (sectors st1 x)" using img_okD(2) [OF M(1)] by (simp add: rsect_def)
  have B2: "sectors st2 = (sectors st1)(x := put_bytes ?r cs (sectors st1 x))" "nsect st2 = FSSIZE" "freeblock st2 = freeblock st1" "freeinode st2 = freeinode st1"
    using xs img_okD(2) [OF M(1)] by (simp_all add: st2_def wsect_def)
  have xi: "x \<noteq> dslot d1 (sectors st1) NDIRECT" using S(4) [OF j(1), of NDIRECT] j(2) M(6,7) by auto
  have sl: "dslot d1 (sectors st2) i = dslot d1 (sectors st1) i" for i
    using xi by (simp add: dslot_def Let_def B2(1))
  have bsl: "dbyte d1 (sectors st2) k = (let a = dslot d1 (sectors st1) (six (k div BSIZE)) in if a = 0 then 0 else sectors st2 a ! (k mod BSIZE))" for k
    unfolding dbyte_def sl ..
  have bl: "?r + length cs \<le> length (sectors st1 x)" using c(2) img_okD(1) [OF M(1)] by simp
  have ok2: "img_ok st2" using M(1) x bl by (auto simp: img_ok_def B2 length_put_bytes word_le_nat_alt)
  have by2: "dbyte d1 (sectors st2) k = (if k < length (bs @ cs) then (bs @ cs) ! k else 0)" if k: "k < MAXFILEB" for k
  proof (cases "k div BSIZE = ?n")
    case True
    then have "length bs = ?n * BSIZE + ?r" "k = ?n * BSIZE + k mod BSIZE" by (metis div_mult_mod_eq)+
    then have p: "?r \<le> k mod BSIZE \<longleftrightarrow> length bs \<le> k" "k mod BSIZE < ?r + length cs \<longleftrightarrow> k < length bs + length cs" "k mod BSIZE - ?r = k - length bs" by linarith+
    have "dbyte d1 (sectors st2) k = put_bytes ?r cs (sectors st1 x) ! (k mod BSIZE)"
      unfolding bsl Let_def using True M(6) by (simp add: B2(1) flip: M(7))
    also have "\<dots> = (if length bs \<le> k \<and> k < length bs + length cs then cs ! (k - length bs) else sectors st1 x ! (k mod BSIZE))"
      using nth_put_bytes [OF bl, of "k mod BSIZE"] img_okD(1) [OF M(1)] p by simp
    also have "sectors st1 x ! (k mod BSIZE) = dbyte d1 (sectors st1) k" using True M(6) by (simp add: dbyte_def Let_def flip: M(7))
    also have "\<dots> = (if k < length bs then bs ! k else 0)" using mapped_bytes [OF m ok k] f k by (simp add: fstored_def)
    finally show ?thesis by (auto simp: nth_append)
  next
    case False
    have "dslot d1 (sectors st1) (six (k div BSIZE)) \<noteq> x" if "dslot d1 (sectors st1) (six (k div BSIZE)) \<noteq> 0"
      using S(4) [OF six_range(2) [OF k] j(1)] that M(7) False six_facts(3) by auto
    then have "dbyte d1 (sectors st2) k = dbyte d1 (sectors st1) k" unfolding bsl by (auto simp: dbyte_def B2(1) Let_def)
    moreover have "k < length bs \<longleftrightarrow> k < length bs + length cs"
    proof -
      have "?n \<le> k div BSIZE" if "length bs \<le> k" using that by (rule div_le_mono)
      moreover have "k div BSIZE < Suc ?n" if "k < length bs + length cs"
      proof -
        have "length bs = ?n * BSIZE + ?r" by simp
        then have "k < Suc ?n * BSIZE" using that c(2) unfolding mult_Suc by linarith
        then show ?thesis by (rule less_mult_imp_div_less)
      qed
      ultimately show ?thesis using False by fastforce
    qed
    ultimately show ?thesis using mapped_bytes [OF m ok k] f k by (simp add: fstored_def nth_append)
  qed
  have "fstored d1 (sectors st2) (unat (freeblock st2)) (bs @ cs)"
    unfolding fstored_def
  proof (intro conjI allI impI)
    show "slots_ok d1 (sectors st2) (unat (freeblock st2))" using M(2) by (simp add: slots_ok_def sl B2(3))
    show "dslot d1 (sectors st2) i \<noteq> 0 \<longleftrightarrow> in_use (length (bs @ cs)) i" if "i < NSLOT" for i
      using M(10) [OF that] in_use_append [of "length cs" "length bs" i] c(1,2) by (simp add: sl)
  qed (use c(3) by2 in simp_all)
  moreover have "unat (freeblock st2) + fblocks (length bs) = unat (freeblock st) + fblocks (length bs + length cs)"
    using M(3) fblocks_append [of "length cs" "length bs"] c(1,2) by (simp add: B2(3))
  moreover have old: "b \<in> fslots d (sectors st)" if b: "b \<in> fslots d1 (sectors st1)" "b < freeblock st" for b
  proof -
    obtain i where i: "i < NSLOT" "b = dslot d1 (sectors st1) i" "b \<noteq> 0" using b(1) by (auto simp: fslots_def)
    then have "dslot d (sectors st) i \<noteq> 0" using M(9) [OF i(1)] b(2) by auto
    then show ?thesis using M(8) [OF i(1)] i by (auto simp: fslots_def image_iff)
  qed
  moreover have "sectors st2 b = sectors st b" if b: "b < freeblock st" "b \<notin> fslots d (sectors st)" for b
  proof -
    have "b \<notin> fslots d1 (sectors st1)" using old b by blast
    moreover have "x \<in> fslots d1 (sectors st1)" using M(6,7) j(1) by (auto simp: fslots_def)
    moreover have "b = 0 \<or> b \<noteq> dslot d1 (sectors st1) NDIRECT"
      using calculation(1) imageI [of NDIRECT "{..<NSLOT}" "dslot d1 (sectors st1)"] by (auto simp: fslots_def)
    ultimately show ?thesis using M(11) [of b] by (auto simp: B2(1))
  qed
  moreover have "fslots d1 (sectors st2) = fslots d1 (sectors st1)" by (simp add: fslots_def sl)
  ultimately show "appended d st bs cs d1 st2" using ok2 M(4,5) by (simp add: appended_def B2(4))
qed


lemma appendedD:
  assumes "appended d st bs cs d1 st1"
  shows "img_ok st1" "fstored d1 (sectors st1) (unat (freeblock st1)) (bs @ cs)" "\<exists>as. d1 = d\<lparr>addrs := as\<rparr>" "freeinode st1 = freeinode st"
    "unat (freeblock st1) + fblocks (length bs) = unat (freeblock st) + fblocks (length bs + length cs)"
    "b < freeblock st \<Longrightarrow> b \<notin> fslots d (sectors st) \<Longrightarrow> sectors st1 b = sectors st b"
    "b \<in> fslots d1 (sectors st1) \<Longrightarrow> b < freeblock st \<Longrightarrow> b \<in> fslots d (sectors st)"
  using assms by (simp_all add: appended_def)

lemma fblocks_mono: "m \<le> n \<Longrightarrow> fblocks m \<le> fblocks n"
  by (auto simp: fblocks_def intro!: add_mono div_le_mono)

lemma appended_trans:
  assumes "appended d st bs cs d1 st1" "appended d1 st1 (bs @ cs) es d2 st2"
  shows "appended d st bs (cs @ es) d2 st2"
proof -
  note A = appendedD [OF assms(1)]
  note B = appendedD [OF assms(2)]
  have fb: "freeblock st \<le> freeblock st1" using A(5) fblocks_mono [of "length bs" "length bs + length cs"] by (simp add: word_le_nat_alt)
  have "sectors st2 b = sectors st b" if "b < freeblock st" "b \<notin> fslots d (sectors st)" for b
    using A(6) [OF that] A(7) [of b] B(6) [of b] that order_less_le_trans [OF that(1) fb] by auto
  moreover have "b \<in> fslots d (sectors st)" if "b \<in> fslots d2 (sectors st2)" "b < freeblock st" for b
    using A(7) [of b] B(7) [of b] that order_less_le_trans [OF that(2) fb] by auto
  moreover have "\<exists>as. d2 = d\<lparr>addrs := as\<rparr>" using A(3) B(3) by auto
  ultimately show ?thesis using A B by (simp add: appended_def add.assoc)
qed

lemma iappend_loop_spec:
  assumes "img_ok st" "fstored d (sectors st) (unat (freeblock st)) bs" "length bs + length p \<le> MAXFILEB"
    "unat (freeblock st) + fblocks (length bs + length p) \<le> FSSIZE + fblocks (length bs)"
  shows "\<exists>d1 st1. iappend_loop (length bs) p d st = Ret (length bs + length p, d1, st1) \<and> appended d st bs p d1 st1"
  using assms
proof (induction "length p" arbitrary: p bs d st rule: less_induct)
  case less
  show ?case
  proof (cases "p = []")
    case True
    then have "appended d st bs p d st" using less.prems by (auto simp: appended_def intro: exI [of _ "addrs d"])
    then show ?thesis using True by (simp add: iappend_loop.simps)
  next
    case False
    let ?n = "length bs div BSIZE"
    define n1 where "n1 = min (length p) ((?n + 1) * BSIZE - length bs)"
    have n1: "0 < n1" "n1 \<le> length p" using False rest_of_block [of "length bs"] by (auto simp: n1_def)
    have q: "length bs = ?n * BSIZE + length bs mod BSIZE" by simp
    have "n1 + length bs \<le> (?n + 1) * BSIZE" using rest_of_block [of "length bs"] unfolding n1_def by linarith
    then have "n1 + length bs \<le> ?n * BSIZE + BSIZE" by simp
    then have r: "length bs - ?n * BSIZE = length bs mod BSIZE" "length bs mod BSIZE + n1 \<le> BSIZE"
      using q by linarith+
    have l: "length bs < MAXFILEB" "?n < 268" using less.prems(3) False six_range(1) [of "length bs"] by (cases p; simp)+
    have fr: "fblocks (length bs + n1) = fblocks (length bs) + fresh (length bs)" using fblocks_append [OF n1(1) r(2)] .
    have "unat (freeblock st) + fresh (length bs) \<le> FSSIZE"
      using less.prems(4) fr fblocks_mono [of "length bs + n1" "length bs + length p"] n1(2) by simp
    then obtain x d1 st1 where m: "mk_bmap ?n d st = Ret (x, d1, st1)" "mapped_at_end d st (length bs) x d1 st1"
      using mk_bmap_spec [OF less.prems(1,2) l(1)] by blast
    define st2 where "st2 = wsect x (put_bytes (length bs mod BSIZE) (take n1 p) (sectors st1 x)) st1"
    have lt: "length (take n1 p) = n1" using n1(2) by simp
    have tk: "take n1 p \<noteq> []" using lt n1(1) by auto
    have a: "rsect x st1 = Ret (sectors st1 x)" "appended d st bs (take n1 p) d1 st2"
      using append_block [OF less.prems(1,2) tk _ _ m(2)] r(2) n1(2) less.prems(3) unfolding st2_def lt by auto
    note A = appendedD [OF a(2)]
    have "\<exists>d3 st3. iappend_loop (length (bs @ take n1 p)) (drop n1 p) d1 st2 = Ret (length (bs @ take n1 p) + length (drop n1 p), d3, st3)
        \<and> appended d1 st2 (bs @ take n1 p) (drop n1 p) d3 st3"
      using A(5) n1 less.prems(3,4) lt by (intro less.hyps A(1,2)) (simp_all del: take_drop append_take_drop_id)
    then obtain d3 st3 where i: "iappend_loop (length bs + n1) (drop n1 p) d1 st2 = Ret (length bs + length p, d3, st3)"
        "appended d1 st2 (bs @ take n1 p) (drop n1 p) d3 st3" using n1(2) by auto
    have "iappend_loop (length bs) p d st = iappend_loop (length bs + n1) (drop n1 p) d1 st2"
      using False l(2) m(1) a(1) by (subst iappend_loop.simps) (simp add: Let_def r(1) st2_def n1_def)
    then show ?thesis using i(1) appended_trans [OF a(2) i(2)] by auto
  qed
qed


section \<open>The files of the image\<close>

text \<open>A file is stored where its blocks are, whatever happens to the others.\<close>

lemma fstored_cong:
  assumes f: "fstored d B fb bs" and same: "\<And>b. b \<in> fslots d B \<Longrightarrow> B' b = B b" and fb: "fb \<le> fb'"
  shows "fstored d B' fb' bs" "fslots d B' = fslots d B"
proof -
  have s: "slots_ok d B fb" using f by (simp add: fstored_def)
  have "B' (addrs d ! NDIRECT) = B (addrs d ! NDIRECT)" if "addrs d ! NDIRECT \<noteq> 0"
    using that same [of "addrs d ! NDIRECT"] imageI [of NDIRECT "{..<NSLOT}" "dslot d B"] by (simp add: fslots_def dslot_direct)
  then have sl: "dslot d B' j = dslot d B j" for j by (simp add: dslot_def Let_def)
  have "dbyte d B' k = dbyte d B k" if "k < MAXFILEB" for k
    using same [of "dslot d B (six (k div BSIZE))"] six_range(2) [OF that] by (auto simp: dbyte_def Let_def sl fslots_def)
  then show "fstored d B' fb' bs" using f fb unfolding fstored_def slots_ok_def sl by (auto intro: order_less_le_trans)
  show "fslots d B' = fslots d B" by (simp add: fslots_def sl)
qed

lemma fslots_range: "fstored d B fb bs \<Longrightarrow> b \<in> fslots d B \<Longrightarrow> 46 \<le> unat b \<and> unat b < fb"
  by (auto simp: fstored_def slots_ok_def fslots_def nmeta_eq)

definition mk_inode :: "mkst \<Rightarrow> nat \<Rightarrow> dinode" where
  "mk_inode st i = get_dinode (i mod 16) (sectors st (of_nat (32 + i div 16)))"

type_synonym files = "nat \<rightharpoonup> u16 \<times> u8 list"

definition file_at :: "mkst \<Rightarrow> nat \<Rightarrow> u16 \<times> u8 list \<Rightarrow> bool" where
  "file_at st i f \<longleftrightarrow>
     (case f of (t, bs) \<Rightarrow> let d = mk_inode st i
        in fstored d (sectors st) (unat (freeblock st)) bs \<and> itype d = t \<and> nlink d = 1 \<and> isize d = of_nat (length bs))"

definition total_blocks :: "files \<Rightarrow> nat" where
  "total_blocks F = (\<Sum>i \<in> dom F. fblocks (length (snd (the (F i)))))"

text \<open>
  \<open>image st F\<close>: the inodes from 1 on are the files \<open>F\<close>, each in blocks of its own, the blocks handed out are exactly theirs, and the blocks before
  the inodes (boot block, super block, log) are as in the empty image.
\<close>

definition image_of :: "mkst \<Rightarrow> files \<Rightarrow> bool" where
  "image_of st F \<longleftrightarrow> img_ok st \<and> dom F = {1..<unat (freeinode st)} \<and> 1 \<le> unat (freeinode st) \<and> unat (freeinode st) \<le> 208
     \<and> (\<forall>i f. F i = Some f \<longrightarrow> file_at st i f)
     \<and> (\<forall>i \<in> dom F. \<forall>j \<in> dom F. i \<noteq> j \<longrightarrow> fslots (mk_inode st i) (sectors st) \<inter> fslots (mk_inode st j) (sectors st) = {})
     \<and> unat (freeblock st) = nmeta + total_blocks F
     \<and> (\<forall>b. b < 32 \<longrightarrow> sectors st b = sectors mk_empty b)"

lemma image_ofD:
  assumes "image_of st F"
  shows "img_ok st" "dom F = {1..<unat (freeinode st)}" "1 \<le> unat (freeinode st)" "unat (freeinode st) \<le> 208"
    "F i = Some f \<Longrightarrow> file_at st i f"
    "i \<in> dom F \<Longrightarrow> j \<in> dom F \<Longrightarrow> i \<noteq> j \<Longrightarrow> fslots (mk_inode st i) (sectors st) \<inter> fslots (mk_inode st j) (sectors st) = {}"
    "unat (freeblock st) = nmeta + total_blocks F" "b < 32 \<Longrightarrow> sectors st b = sectors mk_empty b"
  using assms unfolding image_of_def by blast+

text \<open>A step that writes neither the inode nor a block of a file keeps the file.\<close>

lemma file_kept:
  assumes im: "image_of st F" and j: "F j = Some g" and ino: "mk_inode st' j = mk_inode st j"
    and same: "\<And>b. b \<in> fslots (mk_inode st j) (sectors st) \<Longrightarrow> 46 \<le> unat b \<Longrightarrow> unat b < unat (freeblock st) \<Longrightarrow> sectors st' b = sectors st b"
    and fb: "freeblock st \<le> freeblock st'"
  shows "file_at st' j g" "fslots (mk_inode st' j) (sectors st') = fslots (mk_inode st j) (sectors st)"
proof -
  have f: "fstored (mk_inode st j) (sectors st) (unat (freeblock st)) (snd g)"
    using image_ofD(5) [OF im j] by (simp add: file_at_def Let_def split: prod.splits)
  have eq: "sectors st' b = sectors st b" if "b \<in> fslots (mk_inode st j) (sectors st)" for b
    using fslots_range [OF f that] same [OF that] by blast
  note C = fstored_cong [OF f eq, of "unat (freeblock st')"]
  show "file_at st' j g" using image_ofD(5) [OF im j] C(1) ino fb by (simp add: file_at_def Let_def word_le_nat_alt split: prod.splits)
  show "fslots (mk_inode st' j) (sectors st') = fslots (mk_inode st j) (sectors st)" using C(2) ino fb by (simp add: word_le_nat_alt)
qed

lemma IBLOCK_mk: "i < 208 \<Longrightarrow> IBLOCK (of_nat i) mk_sb = of_nat (32 + i div 16) \<and> unat (of_nat i mod 16 :: u32) = i mod 16"
proof -
  assume i: "i < 208"
  then have u: "unat (of_nat i :: u32) = i" by (simp add: unat_of_nat)
  then have "unat (of_nat i div 16 :: u32) = i div 16" "unat (of_nat i mod 16 :: u32) = i mod 16" by (simp_all add: unat_div unat_mod)
  then have "(of_nat i div 16 :: u32) = of_nat (i div 16)" using i by (simp add: word_unat_eq_iff unat_of_nat)
  then show ?thesis using \<open>unat (of_nat i mod 16 :: u32) = i mod 16\<close> by (simp add: IBLOCK_def mk_sb_def mk_nlog_def)
qed

lemma inode_block: "i < 208 \<Longrightarrow> unat (of_nat (32 + i div 16) :: u32) = 32 + i div 16"
proof -
  assume "i < 208"
  then have "32 + i div 16 < 2 ^ 32" by simp
  then show ?thesis by (simp only: unat_of_nat) simp
qed

text \<open>Writing an inode changes no other inode and no block of a file.\<close>

lemma winode_spec:
  assumes ok: "img_ok st" and i: "i < 208" and d: "length (addrs d) = NDIRECT + 1"
  obtains st' where "winode (of_nat i) d st = Ret st'" "img_ok st'" "freeblock st' = freeblock st" "freeinode st' = freeinode st"
    "\<And>j. j < 208 \<Longrightarrow> mk_inode st' j = (if j = i then d else mk_inode st j)"
    "\<And>b. unat b < 32 \<or> 45 \<le> unat b \<Longrightarrow> sectors st' b = sectors st b"
proof -
  let ?b = "of_nat (32 + i div 16) :: u32"
  define st' where "st' = wsect ?b (put_dinode (i mod 16) d (sectors st ?b)) st"
  note ib = IBLOCK_mk [OF i]
  have b: "unat ?b = 32 + i div 16" "i div 16 < 13" using inode_block [OF i] i by auto
  have run: "winode (of_nat i) d st = Ret st'"
    using ib b img_okD(2) [OF ok] by (simp add: winode_def rsect_def st'_def Let_def)
  have len: "64 * (k mod 16) + 64 \<le> length (sectors st c)" for k c using img_okD(1) [OF ok] by simp
  have fld: "sectors st' = (sectors st)(?b := put_dinode (i mod 16) d (sectors st ?b))" "nsect st' = nsect st" "freeblock st' = freeblock st" "freeinode st' = freeinode st"
    using b img_okD(2) [OF ok] by (simp_all add: st'_def wsect_def)
  have "\<not> freeblock st \<le> ?b" using img_okD(3) [OF ok] b by (simp add: word_le_nat_alt nmeta_eq)
  then have "img_ok st'"
    using ok len [of i ?b] d by (auto simp: img_ok_def fld put_dinode_def length_put_bytes length_dinode_bytes)
  moreover have "mk_inode st' j = (if j = i then d else mk_inode st j)" if j: "j < 208" for j
  proof (cases "j div 16 = i div 16")
    case True
    then have "j = i \<longleftrightarrow> j mod 16 = i mod 16" by (metis div_mult_mod_eq)
    then show ?thesis using True get_put_dinode [OF d, of "i mod 16" "sectors st ?b"] get_put_dinode_other [OF d, of "i mod 16" "sectors st ?b" "j mod 16"] len [of i ?b] len [of j ?b]
      by (simp add: mk_inode_def fld dinode.truncate_def)
  next
    case False
    have "(of_nat (32 + j div 16) :: u32) \<noteq> ?b"
    proof
      assume "(of_nat (32 + j div 16) :: u32) = ?b"
      then have "unat (of_nat (32 + j div 16) :: u32) = unat ?b" by (rule arg_cong)
      then have "32 + j div 16 = 32 + i div 16" using inode_block [OF j] b(1) by linarith
      then show False using False by simp
    qed
    then show ?thesis using False by (auto simp: mk_inode_def fld)
  qed
  moreover have "sectors st' c = sectors st c" if "unat c < 32 \<or> 45 \<le> unat c" for c
    using that b by (auto simp: fld)
  ultimately show ?thesis using that [OF run] fld by blast
qed


section \<open>The operations on the image\<close>

lemma total_blocks_upd:
  assumes "finite (dom F)"
  shows "total_blocks (F(i \<mapsto> (t, bs))) + (case F i of None \<Rightarrow> 0 | Some f \<Rightarrow> fblocks (length (snd f))) = total_blocks F + fblocks (length bs)"
proof (cases "F i")
  case None
  then have "i \<notin> dom F" by auto
  then have "total_blocks (F(i \<mapsto> (t, bs))) = fblocks (length bs) + (\<Sum>j\<in>dom F. fblocks (length (snd (the ((F(i \<mapsto> (t, bs))) j)))))"
    using assms by (simp add: total_blocks_def)
  also have "(\<Sum>j\<in>dom F. fblocks (length (snd (the ((F(i \<mapsto> (t, bs))) j))))) = total_blocks F"
    unfolding total_blocks_def using \<open>i \<notin> dom F\<close> by (intro sum.cong) auto
  finally show ?thesis using None by (simp add: fun_upd_def)
next
  case (Some f)
  then have d: "dom F = insert i (dom F - {i})" "dom (F(i \<mapsto> (t, bs))) = insert i (dom F - {i})" by auto
  have "(\<Sum>j\<in>dom F - {i}. fblocks (length (snd (the ((F(i \<mapsto> (t, bs))) j))))) = (\<Sum>j\<in>dom F - {i}. fblocks (length (snd (the (F j)))))"
    by (intro sum.cong) auto
  moreover have "total_blocks (F(i \<mapsto> (t, bs))) = fblocks (length bs) + (\<Sum>j\<in>dom F - {i}. fblocks (length (snd (the ((F(i \<mapsto> (t, bs))) j)))))"
    unfolding total_blocks_def d(2) using assms by (subst sum.insert) (simp_all add: fun_upd_def)
  moreover have "total_blocks F = fblocks (length (snd f)) + (\<Sum>j\<in>dom F - {i}. fblocks (length (snd (the (F j)))))"
    unfolding total_blocks_def using assms Some by (subst sum.remove [of "dom F" i]) auto
  ultimately show ?thesis using Some by simp
qed

lemma image_finite: "image_of st F \<Longrightarrow> finite (dom F)"
  by (simp add: image_ofD(2))

lemma mk_ialloc_spec:
  assumes im: "image_of st F" and room: "unat (freeinode st) < 208"
  obtains st' where "mk_ialloc t st = Ret (freeinode st, st')" "image_of st' (F(unat (freeinode st) \<mapsto> (t, [])))"
    "unat (freeinode st') = unat (freeinode st) + 1" "freeblock st' = freeblock st"
proof -
  note I = image_ofD [OF im]
  let ?i = "unat (freeinode st)"
  let ?d = "\<lparr>itype = t, imajor = 0, iminor = 0, nlink = 1, isize = 0, addrs = replicate (NDIRECT + 1) 0\<rparr> :: dinode"
  define st1 where "st1 = st\<lparr>freeinode := freeinode st + 1\<rparr>"
  have ok1: "img_ok st1" using I(1) by (simp add: st1_def img_ok_def)
  have ld: "length (addrs ?d) = NDIRECT + 1" by simp
  obtain st' where W: "winode (of_nat ?i) ?d st1 = Ret st'" "img_ok st'" "freeblock st' = freeblock st1" "freeinode st' = freeinode st1"
      "\<And>j. j < 208 \<Longrightarrow> mk_inode st' j = (if j = ?i then ?d else mk_inode st1 j)"
      "\<And>b. unat b < 32 \<or> 45 \<le> unat b \<Longrightarrow> sectors st' b = sectors st1 b"
    by (rule winode_spec [OF ok1 room ld]) blast
  have run: "mk_ialloc t st = Ret (freeinode st, st')" using W(1) by (simp add: mk_ialloc_def Let_def st1_def)
  have n1: "unat (freeinode st') = ?i + 1" using W(4) room by (simp add: st1_def unat_word_ariths)
  have ino: "mk_inode st' j = mk_inode st j" if "j \<in> dom F" for j
    using W(5) [of j] that I(2,4) by (auto simp: mk_inode_def st1_def)
  have zd: "dslot ?d B j = 0" if "j < NSLOT" for B j using that by (simp add: dslot_def Let_def nth_replicate del: replicate.simps)
  have f0: "fslots ?d B = {}" for B using zd by (auto simp: fslots_def)
  have new: "file_at st' ?i (t, [])"
    using W(5) [OF room] zd six_range(2) by (simp add: file_at_def Let_def fstored_def slots_ok_def in_use_def dbyte_def del: replicate.simps)
  have old: "file_at st' j f" "fslots (mk_inode st' j) (sectors st') = fslots (mk_inode st j) (sectors st)" if j: "F j = Some f" for j f
    by (rule file_kept [OF im j]; use j ino W(3,6) in \<open>auto simp: st1_def\<close>)+
  have "?i \<notin> dom F" using I(2) by simp
  then have tb: "total_blocks (F(?i \<mapsto> (t, []))) = total_blocks F"
    using total_blocks_upd [OF image_finite [OF im], of ?i t "[]"] by (auto simp: fblocks_def split: option.splits)
  have new': "mk_inode st' ?i = ?d" using W(5) [OF room] by simp
  have "image_of st' (F(?i \<mapsto> (t, [])))"
    unfolding image_of_def
  proof (intro conjI ballI allI impI)
    show "dom (F(?i \<mapsto> (t, []))) = {1..<unat (freeinode st')}" using I(2,3) n1 by auto
    show "file_at st' j f" if "(F(?i \<mapsto> (t, []))) j = Some f" for j f using that new old(1) by (auto split: if_splits)
    show "fslots (mk_inode st' j) (sectors st') \<inter> fslots (mk_inode st' k) (sectors st') = {}"
      if "j \<in> dom (F(?i \<mapsto> (t, [])))" "k \<in> dom (F(?i \<mapsto> (t, [])))" "j \<noteq> k" for j k
      using that old(2) I(6) [of j k] f0 new' by (auto split: if_splits simp: domIff)
    show "sectors st' b = sectors mk_empty b" if "b < 32" for b
      using I(8) [OF that] W(6) [of b] that by (simp add: st1_def word_less_nat_alt)
  qed (use W(2,3) I n1 room tb in \<open>simp_all add: st1_def\<close>)
  then show ?thesis using that [OF run] n1 W(3) by (simp add: st1_def)
qed


lemma rinode_spec: "img_ok st \<Longrightarrow> i < 208 \<Longrightarrow> rinode (of_nat i) st = Ret (mk_inode st i)"
  using IBLOCK_mk [of i] inode_block [of i] img_okD(2) [of st]
  by (simp add: rinode_def rsect_def mk_inode_def del: of_nat_add)

lemma iappend_spec:
  assumes im: "image_of st F" and F: "F i = Some (t, bs)" and l: "length bs + length p \<le> MAXFILEB"
    and room: "unat (freeblock st) + fblocks (length bs + length p) \<le> FSSIZE + fblocks (length bs)"
  obtains st' where "iappend (of_nat i) p st = Ret st'" "image_of st' (F(i \<mapsto> (t, bs @ p)))" "freeinode st' = freeinode st"
    "unat (freeblock st') + fblocks (length bs) = unat (freeblock st) + fblocks (length bs + length p)"
proof -
  note I = image_ofD [OF im]
  have i: "i \<in> dom F" using F by auto
  then have i208: "i < 208" using I(2,4) by simp
  let ?d = "mk_inode st i"
  have f: "fstored ?d (sectors st) (unat (freeblock st)) bs" "itype ?d = t" "nlink ?d = 1" "isize ?d = of_nat (length bs)"
    using I(5) [OF F] by (simp_all add: file_at_def Let_def)
  have sz: "unat (of_nat (length bs) :: u32) = length bs" using l by (simp add: unat_of_nat MAXFILEB_def)
  obtain d1 st1 where L: "iappend_loop (length bs) p ?d st = Ret (length bs + length p, d1, st1)" "appended ?d st bs p d1 st1"
    using iappend_loop_spec [OF I(1) f(1) l room] by blast
  note A = appendedD [OF L(2)]
  let ?d2 = "d1\<lparr>isize := of_nat (length bs + length p)\<rparr>"
  have ld: "length (addrs ?d2) = NDIRECT + 1" using A(2) by (simp add: fstored_def slots_ok_def)
  obtain st' where W: "winode (of_nat i) ?d2 st1 = Ret st'" "img_ok st'" "freeblock st' = freeblock st1" "freeinode st' = freeinode st1"
      "\<And>j. j < 208 \<Longrightarrow> mk_inode st' j = (if j = i then ?d2 else mk_inode st1 j)"
      "\<And>b. unat b < 32 \<or> 45 \<le> unat b \<Longrightarrow> sectors st' b = sectors st1 b"
    by (rule winode_spec [OF A(1) i208 ld]) blast
  have run: "iappend (of_nat i) p st = Ret st'"
    using rinode_spec [OF I(1) i208] f(4) sz L(1) W(1) by (simp add: iappend_def)
  have fb: "freeblock st \<le> freeblock st1" "46 \<le> unat (freeblock st)"
    using A(5) fblocks_mono [of "length bs" "length bs + length p"] img_okD(3) [OF I(1)] by (simp_all add: word_le_nat_alt nmeta_eq)
  have low: "sectors st1 b = sectors st b" if "unat b < 46" for b
    using A(6) [of b] fslots_range [OF f(1), of b] that fb(2) by (fastforce simp: word_less_nat_alt)
  have dsl: "dslot ?d2 = dslot d1" by (auto simp: dslot_def fun_eq_iff)
  then have fs: "fslots ?d2 = fslots d1" "dbyte ?d2 = dbyte d1" by (auto simp: fslots_def dbyte_def fun_eq_iff)
  have f2: "fstored ?d2 (sectors st1) (unat (freeblock st1)) (bs @ p)" using A(2) dsl fs ld by (simp add: fstored_def slots_ok_def)
  have hi: "sectors st' b = sectors st1 b" if "b \<in> fslots ?d2 (sectors st1)" for b using fslots_range [OF f2 that] W(6) [of b] by simp
  note C = fstored_cong [OF f2 hi order_refl]
  have new: "file_at st' i (t, bs @ p)" "fslots (mk_inode st' i) (sectors st') = fslots d1 (sectors st1)"
    using C f(2,3) A(3) W(3) W(5) [OF i208] fs by (auto simp: file_at_def Let_def)
  have ino: "mk_inode st' j = mk_inode st j" if j: "j \<in> dom F" "j \<noteq> i" for j
  proof -
    have "j < 208" using j(1) I(2,4) by simp
    then show ?thesis using W(5) [of j] j(2) low [of "of_nat (32 + j div 16)"] inode_block [of j] by (simp add: mk_inode_def del: of_nat_add)
  qed
  have apart: "sectors st' b = sectors st b" "b < freeblock st" "b \<notin> fslots ?d (sectors st)" if j: "j \<in> dom F" "j \<noteq> i" and b: "b \<in> fslots (mk_inode st j) (sectors st)" for j b
  proof -
    obtain g where "F j = Some g" using j(1) by blast
    then have f: "fstored (mk_inode st j) (sectors st) (unat (freeblock st)) (snd g)" using I(5) [of j g] by (simp add: file_at_def Let_def split: prod.splits)
    show l: "b < freeblock st" "b \<notin> fslots ?d (sectors st)"
      using fslots_range [OF f b] I(6) [OF j(1) i j(2)] b by (auto simp: word_less_nat_alt)
    show "sectors st' b = sectors st b" using fslots_range [OF f b] W(6) [of b] A(6) [OF l] by simp
  qed
  have old: "file_at st' j g" "fslots (mk_inode st' j) (sectors st') = fslots (mk_inode st j) (sectors st)" if j: "F j = Some g" "j \<noteq> i" for j g
    by (rule file_kept [OF im j(1)]; use j ino [of j] apart(1) [of j] W(3) fb(1) in auto)+
  have disj: "fslots (mk_inode st' i) (sectors st') \<inter> fslots (mk_inode st' j) (sectors st') = {}" if j: "j \<in> dom F" "j \<noteq> i" for j
  proof -
    obtain g where g: "F j = Some g" using j(1) by auto
    show ?thesis using old(2) [OF g j(2)] apart(2,3) [OF j] new(2) A(7) by blast
  qed
  have "image_of st' (F(i \<mapsto> (t, bs @ p)))"
    unfolding image_of_def
  proof (intro conjI ballI allI impI)
    show "dom (F(i \<mapsto> (t, bs @ p))) = {1..<unat (freeinode st')}" using I(2) i A(4) W(4) by auto
    show "file_at st' j g" if "(F(i \<mapsto> (t, bs @ p))) j = Some g" for j g using that new old(1) by (auto split: if_splits)
    show "fslots (mk_inode st' j) (sectors st') \<inter> fslots (mk_inode st' k) (sectors st') = {}"
      if jk: "j \<in> dom (F(i \<mapsto> (t, bs @ p)))" "k \<in> dom (F(i \<mapsto> (t, bs @ p)))" "j \<noteq> k" for j k
    proof -
      have d: "j \<in> dom F" "k \<in> dom F" using jk i by auto
      then obtain g h where g: "F j = Some g" "F k = Some h" by auto
      consider "j = i" | "k = i" | "j \<noteq> i" "k \<noteq> i" by blast
      then show ?thesis
      proof cases
        case 3
        then show ?thesis using old(2) [OF g(1)] old(2) [OF g(2)] I(6) [OF d jk(3)] by simp
      qed (use disj d jk(3) in blast)+
    qed
    show "unat (freeblock st') = nmeta + total_blocks (F(i \<mapsto> (t, bs @ p)))"
      using total_blocks_upd [OF image_finite [OF im], of i t "bs @ p"] F I(7) A(5) W(3) by simp
    show "sectors st' b = sectors mk_empty b" if "b < 32" for b
      using I(8) [OF that] W(6) [of b] low [of b] that by (simp add: word_less_nat_alt)
  qed (use W(2) A(4) W(4) I in simp_all)
  then show ?thesis using that [OF run] A(4,5) W(3,4) by simp
qed

end
