(* ===== verification/Mkfstree.thy ===== *)
theory Mkfstree
  imports Mkfsimg
begin

text \<open>
  \<^verbatim>\<open>mkfs/mkfs.c\<close> as a whole: the image holds the tree of the host's files and directories that the arguments name, and the kernel reads
  from it what the host has.
\<close>

section \<open>The tree an image should hold\<close>

text \<open>
  Inodes are handed out in the order in which the tree is walked. The number of inodes and of blocks a host tree needs, the entries of a
  directory whose first child gets inode \<open>n\<close>, and whether names and sizes fit.
\<close>

definition skipped :: "u8 list \<Rightarrow> host \<Rightarrow> bool" where
  "skipped name h \<longleftrightarrow> hidden name \<or> h = HOther"

function (sequential) inodes :: "host \<Rightarrow> nat" and inodes_list :: "(u8 list \<times> host) list \<Rightarrow> nat" where
  "inodes (HDir (Some es)) = Suc (inodes_list es)"
| "inodes h = 1"
| "inodes_list [] = 0"
| "inodes_list ((name, h) # es) = (if skipped name h then 0 else inodes h) + inodes_list es"
  by pat_completeness auto
termination
  by (relation "measure (case_sum size (\<lambda>es. size_list (size \<circ> snd) es))")
    (auto simp: less_Suc_eq_le comp_def intro: le_SucI size_snds [unfolded comp_def])

definition nshown :: "(u8 list \<times> host) list \<Rightarrow> nat" where
  "nshown es = length (filter (\<lambda>(name, h). \<not> skipped name h) es)"

lemma nshown_simps [simp]:
  "nshown [] = 0" "nshown ((name, h) # es) = (if skipped name h then nshown es else Suc (nshown es))"
  by (simp_all add: nshown_def)

function (sequential) blocks :: "host \<Rightarrow> nat" and blocks_list :: "(u8 list \<times> host) list \<Rightarrow> nat" where
  "blocks (HFile (Some bs)) = fblocks (length bs)"
| "blocks (HDir (Some es)) = fblocks (32 + 16 * nshown es) + blocks_list es"
| "blocks (HDir None) = fblocks 32"
| "blocks h = 0"
| "blocks_list [] = 0"
| "blocks_list ((name, h) # es) = (if skipped name h then 0 else blocks h) + blocks_list es"
  by pat_completeness auto
termination
  by (relation "measure (case_sum size (\<lambda>es. size_list (size \<circ> snd) es))")
    (auto simp: less_Suc_eq_le comp_def intro: le_SucI size_snds [unfolded comp_def])

fun is_dir :: "host \<Rightarrow> bool" where
  "is_dir (HDir _) = True"
| "is_dir _ = False"

function (sequential) fits :: "host \<Rightarrow> bool" and fits_list :: "(u8 list \<times> host) list \<Rightarrow> bool" where
  "fits (HFile (Some bs)) \<longleftrightarrow> length bs \<le> MAXFILEB"
| "fits (HDir (Some es)) \<longleftrightarrow> 32 + 16 * nshown es \<le> MAXFILEB \<and> fits_list es"
| "fits (HDir None) \<longleftrightarrow> True"
| "fits h \<longleftrightarrow> False"
| "fits_list [] \<longleftrightarrow> True"
| "fits_list ((name, h) # es) \<longleftrightarrow> (skipped name h \<or> fits h \<and> (is_dir h \<longrightarrow> length name < DIRSIZ)) \<and> fits_list es"
  by pat_completeness auto
termination
  by (relation "measure (case_sum size (\<lambda>es. size_list (size \<circ> snd) es))")
    (auto simp: less_Suc_eq_le comp_def intro: le_SucI size_snds [unfolded comp_def])

fun entries :: "nat \<Rightarrow> (u8 list \<times> host) list \<Rightarrow> u8 list" where
  "entries n [] = []"
| "entries n ((name, h) # es) =
     (if skipped name h then entries n es else make_dirent name (of_nat n) @ entries (n + inodes h) es)"

definition dots :: "nat \<Rightarrow> nat \<Rightarrow> u8 list" where
  "dots self parent = make_dirent [46] (of_nat self) @ make_dirent [46, 46] (of_nat parent)"

text \<open>\<open>holds F p i h\<close>: inode \<open>i\<close>, in directory \<open>p\<close>, is the host tree \<open>h\<close>.\<close>

function (sequential) holds :: "files \<Rightarrow> nat \<Rightarrow> nat \<Rightarrow> host \<Rightarrow> bool"
  and holds_list :: "files \<Rightarrow> nat \<Rightarrow> nat \<Rightarrow> (u8 list \<times> host) list \<Rightarrow> bool" where
  "holds F p i (HFile (Some bs)) \<longleftrightarrow> F i = Some (T_FILE, bs)"
| "holds F p i (HDir (Some es)) \<longleftrightarrow> F i = Some (T_DIR, dots i p @ entries (Suc i) es) \<and> holds_list F i (Suc i) es"
| "holds F p i (HDir None) \<longleftrightarrow> F i = Some (T_DIR, dots i p)"
| "holds F p i h \<longleftrightarrow> False"
| "holds_list F d n [] \<longleftrightarrow> True"
| "holds_list F d n ((name, h) # es) \<longleftrightarrow>
     (if skipped name h then holds_list F d n es else holds F d n h \<and> holds_list F d (n + inodes h) es)"
  by pat_completeness auto
termination
  by (relation "measure (case_sum (\<lambda>(_, _, _, h). size h) (\<lambda>(_, _, _, es). size_list (size \<circ> snd) es))")
    (auto simp: less_Suc_eq_le comp_def intro: le_SucI size_snds [unfolded comp_def])

lemma inodes_pos: "0 < inodes h"
  by (cases h rule: inodes.cases) auto

text \<open>The tree at \<open>i\<close> is in the inodes from \<open>i\<close> on.\<close>

lemma holds_cong:
  "holds F p i h \<Longrightarrow> \<forall>j. i \<le> j \<and> j < i + inodes h \<longrightarrow> F' j = F j \<Longrightarrow> holds F' p i h"
  "holds_list F d n es \<Longrightarrow> \<forall>j. n \<le> j \<and> j < n + inodes_list es \<longrightarrow> F' j = F j \<Longrightarrow> holds_list F' d n es"
proof (induction F p i h and F d n es rule: holds_holds_list.induct)
  case (6 F d n name h es)
  then show ?case using inodes_pos [of h] by (auto split: if_splits)
qed auto


section \<open>Building the tree\<close>

lemma append_file_spec:
  assumes "image_of st F" "F i = Some (t, bs)" "length bs + length p \<le> MAXFILEB"
    "unat (freeblock st) + fblocks (length bs + length p) \<le> FSSIZE + fblocks (length bs)"
  shows "\<exists>st'. append_file (of_nat i) p st = Ret st' \<and> image_of st' (F(i \<mapsto> (t, bs @ p))) \<and> freeinode st' = freeinode st
    \<and> unat (freeblock st') + fblocks (length bs) = unat (freeblock st) + fblocks (length bs + length p)"
  using assms
proof (induction "length p" arbitrary: p bs st F rule: less_induct)
  case less
  show ?case
  proof (cases "p = []")
    case True
    then have "F(i \<mapsto> (t, bs @ p)) = F" using less.prems(2) by auto
    then show ?thesis using True less.prems(1) by (subst append_file.simps) simp
  next
    case False
    let ?c = "take BSIZE p" and ?r = "drop BSIZE p"
    have len: "length ?c + length ?r = length p" "length ?r < length p" using False by auto
    have m: "fblocks (length bs + length ?c) \<le> fblocks (length bs + length p)" by (rule fblocks_mono) simp
    have pre: "length bs + length ?c \<le> MAXFILEB" "unat (freeblock st) + fblocks (length bs + length ?c) \<le> FSSIZE + fblocks (length bs)"
      using less.prems(3,4) m len(1) by linarith+
    obtain st1 where A: "iappend (of_nat i) ?c st = Ret st1" "image_of st1 (F(i \<mapsto> (t, bs @ ?c)))" "freeinode st1 = freeinode st"
        "unat (freeblock st1) + fblocks (length bs) = unat (freeblock st) + fblocks (length bs + length ?c)"
      by (rule iappend_spec [OF less.prems(1,2) pre]) (rule that)
    have e: "length (bs @ ?c) + length ?r = length bs + length p" using len(1) by simp
    have "\<exists>st'. append_file (of_nat i) ?r st1 = Ret st' \<and> image_of st' ((F(i \<mapsto> (t, bs @ ?c)))(i \<mapsto> (t, (bs @ ?c) @ ?r))) \<and> freeinode st' = freeinode st1
        \<and> unat (freeblock st') + fblocks (length (bs @ ?c)) = unat (freeblock st1) + fblocks (length (bs @ ?c) + length ?r)"
      by (rule less.hyps [OF len(2) A(2)]) (use A(4) less.prems(3,4) e in \<open>simp_all only: fun_upd_same e, simp_all\<close>)
    then obtain st' where "append_file (of_nat i) ?r st1 = Ret st'" "image_of st' (F(i \<mapsto> (t, bs @ p)))" "freeinode st' = freeinode st"
        "unat (freeblock st') + fblocks (length bs + length ?c) = unat (freeblock st1) + fblocks (length bs + length p)"
      unfolding e using A(3) by auto
    then show ?thesis using False A(1,4) by (subst append_file.simps) auto
  qed
qed

lemma length_entry [simp]: "length (make_dirent name i) = 16"
  by (simp add: make_dirent_def)

lemma length_entries [simp]: "length (entries n es) = 16 * nshown es"
  by (induction n es rule: entries.induct) auto

lemma add_entry_spec:
  assumes "image_of st F" "F d = Some (t, db)" "length db + 16 \<le> MAXFILEB" "unat (freeblock st) + fblocks (length db + 16) \<le> FSSIZE + fblocks (length db)"
  obtains st' where "add_entry (of_nat d) name (of_nat i) st = Ret st'" "image_of st' (F(d \<mapsto> (t, db @ make_dirent name (of_nat i))))"
    "freeinode st' = freeinode st" "unat (freeblock st') + fblocks (length db) = unat (freeblock st) + fblocks (length db + 16)"
proof -
  let ?e = "make_dirent name (of_nat i)"
  have "length db + length ?e \<le> MAXFILEB" "unat (freeblock st) + fblocks (length db + length ?e) \<le> FSSIZE + fblocks (length db)"
    using assms(3,4) by simp_all
  then show ?thesis by (rule iappend_spec [OF assms(1,2)]) (simp add: that add_entry_def)
qed

text \<open>
  What a step that puts the entry \<open>e\<close> for inode \<open>n\<close> into directory \<open>d\<close> and builds the tree \<open>h\<close> there promises.
\<close>

definition added :: "mkst \<Rightarrow> files \<Rightarrow> nat \<Rightarrow> u8 list \<Rightarrow> u8 list \<Rightarrow> nat \<Rightarrow> nat \<Rightarrow> mkst outcome \<Rightarrow> (files \<Rightarrow> bool) \<Rightarrow> bool" where
  "added st F d db e k nb r Q \<longleftrightarrow> (\<exists>st' F'. r = Ret st' \<and> image_of st' F' \<and> F' d = Some (T_DIR, db @ e)
     \<and> (\<forall>j < unat (freeinode st). j \<noteq> d \<longrightarrow> F' j = F j) \<and> Q F'
     \<and> unat (freeinode st') = unat (freeinode st) + k
     \<and> unat (freeblock st') + fblocks (length db) = unat (freeblock st) + nb + fblocks (length db + length e))"

definition room_for :: "mkst \<Rightarrow> files \<Rightarrow> nat \<Rightarrow> u8 list \<Rightarrow> nat \<Rightarrow> nat \<Rightarrow> nat \<Rightarrow> bool" where
  "room_for st F d db m k nb \<longleftrightarrow> image_of st F \<and> F d = Some (T_DIR, db) \<and> length db + m \<le> MAXFILEB \<and> unat (freeinode st) + k \<le> 208
     \<and> unat (freeblock st) + nb + fblocks (length db + m) \<le> FSSIZE + fblocks (length db)"

lemma image_fresh: "image_of st F \<Longrightarrow> F d = Some x \<Longrightarrow> d < unat (freeinode st)"
  using image_ofD(2) [of st F] by (metis atLeastLessThan_iff domI)

lemma add_file_spec:
  assumes r: "room_for st F d db 16 1 (fblocks (length bs))" and l: "length bs \<le> MAXFILEB"
  shows "added st F d db (make_dirent name (freeinode st)) 1 (fblocks (length bs)) (add_file (of_nat d) name (Some bs) st)
    (\<lambda>F'. F' (unat (freeinode st)) = Some (T_FILE, bs))"
proof -
  let ?n = "unat (freeinode st)"
  have R: "image_of st F" "F d = Some (T_DIR, db)" "length db + 16 \<le> MAXFILEB" "?n < 208"
    "unat (freeblock st) + fblocks (length bs) + fblocks (length db + 16) \<le> FSSIZE + fblocks (length db)"
    using r by (auto simp: room_for_def)
  have dn: "d < ?n" using image_fresh [OF R(1,2)] .
  obtain st1 where A: "mk_ialloc T_FILE st = Ret (freeinode st, st1)" "image_of st1 (F(?n \<mapsto> (T_FILE, [])))"
      "unat (freeinode st1) = ?n + 1" "freeblock st1 = freeblock st"
    by (rule mk_ialloc_spec [OF R(1,4)]) (rule that)
  have d1: "(F(?n \<mapsto> (T_FILE, []))) d = Some (T_DIR, db)" using R(2) dn by simp
  have pre: "unat (freeblock st1) + fblocks (length db + 16) \<le> FSSIZE + fblocks (length db)" using R(5) A(4) by simp
  obtain st2 where B: "add_entry (of_nat d) name (of_nat ?n) st1 = Ret st2" "image_of st2 (F(?n \<mapsto> (T_FILE, []), d \<mapsto> (T_DIR, db @ make_dirent name (of_nat ?n))))"
      "freeinode st2 = freeinode st1" "unat (freeblock st2) + fblocks (length db) = unat (freeblock st1) + fblocks (length db + 16)"
    by (rule add_entry_spec [OF A(2) d1 R(3) pre]) (rule that)
  have "\<exists>st'. append_file (of_nat ?n) bs st2 = Ret st' \<and> image_of st' (F(?n \<mapsto> (T_FILE, []), d \<mapsto> (T_DIR, db @ make_dirent name (of_nat ?n)), ?n \<mapsto> (T_FILE, [] @ bs)))
      \<and> freeinode st' = freeinode st2 \<and> unat (freeblock st') + fblocks (length ([] :: u8 list)) = unat (freeblock st2) + fblocks (length ([] :: u8 list) + length bs)"
    by (rule append_file_spec [OF B(2)]) (use dn l A(4) B(4) R(5) in \<open>simp_all add: fblocks_def [of 0]\<close>)
  then obtain st3 where C: "append_file (of_nat ?n) bs st2 = Ret st3" "freeinode st3 = freeinode st2"
      "image_of st3 (F(?n \<mapsto> (T_FILE, []), d \<mapsto> (T_DIR, db @ make_dirent name (of_nat ?n)), ?n \<mapsto> (T_FILE, bs)))"
      "unat (freeblock st3) = unat (freeblock st2) + fblocks (length bs)" by (auto simp: fblocks_def [of 0])
  have run: "add_file (of_nat d) name (Some bs) st = Ret st3" using A(1) B(1) C(1) by (simp add: add_file_def)
  show ?thesis
    unfolding added_def by (rule exI [of _ st3], rule exI) (use run C A B dn in auto)
qed


text \<open>The first three entries: a new directory in its parent, with its dots.\<close>

lemma new_dir_spec:
  assumes r: "room_for st F p pb 16 1 (fblocks 32)" and name: "length name < DIRSIZ"
  obtains st4 where "add_dir (of_nat p) name es st = (case es of None \<Rightarrow> Ret st4 | Some es \<Rightarrow> add_entries (freeinode st) es st4)"
    "image_of st4 (F(p \<mapsto> (T_DIR, pb @ make_dirent name (freeinode st)), unat (freeinode st) \<mapsto> (T_DIR, dots (unat (freeinode st)) p)))"
    "unat (freeinode st4) = unat (freeinode st) + 1"
    "unat (freeblock st4) + fblocks (length pb) = unat (freeblock st) + fblocks 32 + fblocks (length pb + 16)"
proof -
  let ?n = "unat (freeinode st)"
  have R: "image_of st F" "F p = Some (T_DIR, pb)" "length pb + 16 \<le> MAXFILEB" "?n < 208"
    "unat (freeblock st) + fblocks 32 + fblocks (length pb + 16) \<le> FSSIZE + fblocks (length pb)"
    using r by (auto simp: room_for_def)
  have dn: "p < ?n" using image_fresh [OF R(1,2)] .
  have fb: "fblocks 0 = 0" "fblocks 16 = 1" "fblocks 32 = 1" by (simp_all add: fblocks_def)
  obtain st1 where A: "mk_ialloc T_DIR st = Ret (freeinode st, st1)" "image_of st1 (F(?n \<mapsto> (T_DIR, [])))"
      "unat (freeinode st1) = ?n + 1" "freeblock st1 = freeblock st"
    by (rule mk_ialloc_spec [OF R(1,4)]) (rule that)
  have d1: "(F(?n \<mapsto> (T_DIR, []))) p = Some (T_DIR, pb)" using R(2) dn by simp
  have pre: "unat (freeblock st1) + fblocks (length pb + 16) \<le> FSSIZE + fblocks (length pb)" using R(5) A(4) by simp
  obtain st2 where B: "add_entry (of_nat p) name (of_nat ?n) st1 = Ret st2" "image_of st2 (F(?n \<mapsto> (T_DIR, []), p \<mapsto> (T_DIR, pb @ make_dirent name (of_nat ?n))))"
      "freeinode st2 = freeinode st1" "unat (freeblock st2) + fblocks (length pb) = unat (freeblock st1) + fblocks (length pb + 16)"
    by (rule add_entry_spec [OF A(2) d1 R(3) pre]) (rule that)
  define F2 where "F2 = F(?n \<mapsto> (T_DIR, []), p \<mapsto> (T_DIR, pb @ make_dirent name (of_nat ?n)))"
  have d2: "F2 ?n = Some (T_DIR, [])" using dn by (simp add: F2_def)
  have pre2: "length ([] :: u8 list) + 16 \<le> MAXFILEB" "unat (freeblock st2) + fblocks (length ([] :: u8 list) + 16) \<le> FSSIZE + fblocks (length ([] :: u8 list))"
    using R(5) A(4) B(4) fb by (simp_all add: MAXFILEB_def)
  obtain st3 where C: "add_entry (of_nat ?n) [46] (of_nat ?n) st2 = Ret st3" "image_of st3 (F2(?n \<mapsto> (T_DIR, [] @ make_dirent [46] (of_nat ?n))))"
      "freeinode st3 = freeinode st2" "unat (freeblock st3) + fblocks (length ([] :: u8 list)) = unat (freeblock st2) + fblocks (length ([] :: u8 list) + 16)"
    by (rule add_entry_spec [OF B(2) [folded F2_def] d2 pre2]) (rule that)
  define F3 where "F3 = F2(?n \<mapsto> (T_DIR, [] @ make_dirent [46] (of_nat ?n)))"
  let ?e = "make_dirent [46] (of_nat ?n)"
  have d3: "F3 ?n = Some (T_DIR, ?e)" by (simp add: F3_def)
  have pre3: "length ?e + 16 \<le> MAXFILEB" "unat (freeblock st3) + fblocks (length ?e + 16) \<le> FSSIZE + fblocks (length ?e)"
    using R(5) A(4) B(4) C(4) fb by (simp_all add: MAXFILEB_def)
  obtain st4 where D: "add_entry (of_nat ?n) [46, 46] (of_nat p) st3 = Ret st4" "image_of st4 (F3(?n \<mapsto> (T_DIR, ?e @ make_dirent [46, 46] (of_nat p))))"
      "freeinode st4 = freeinode st3" "unat (freeblock st4) + fblocks (length ?e) = unat (freeblock st3) + fblocks (length ?e + 16)"
    by (rule add_entry_spec [OF C(2) [folded F3_def] d3 pre3]) (rule that)
  have F4: "F3(?n \<mapsto> (T_DIR, ?e @ make_dirent [46, 46] (of_nat p))) =
      F(p \<mapsto> (T_DIR, pb @ make_dirent name (freeinode st)), ?n \<mapsto> (T_DIR, dots ?n p))"
    using dn by (auto simp: F3_def F2_def dots_def fun_eq_iff)
  have "add_dir (of_nat p) name es st = (case es of None \<Rightarrow> Ret st4 | Some es \<Rightarrow> add_entries (freeinode st) es st4)"
    using A(1) B(1) C(1) D(1) name by simp
  then show ?thesis using that D A(3,4) B(3,4) C(3,4) fb unfolding F4 by simp
qed


definition builds_list :: "(u8 list \<times> host) list \<Rightarrow> bool" where
  "builds_list es \<longleftrightarrow> (\<forall>st F d db. room_for st F d db (16 * nshown es) (inodes_list es) (blocks_list es) \<longrightarrow>
     added st F d db (entries (unat (freeinode st)) es) (inodes_list es) (blocks_list es) (add_entries (of_nat d) es st)
       (\<lambda>F'. holds_list F' d (unat (freeinode st)) es))"

definition add_child :: "u32 \<Rightarrow> u8 list \<Rightarrow> host \<Rightarrow> mkst \<Rightarrow> mkst outcome" where
  "add_child d name h st = (case h of HFile c \<Rightarrow> add_file d name c st | HDir ds \<Rightarrow> add_dir d name ds st | HOther \<Rightarrow> Ret st)"

lemma add_child_spec:
  assumes r: "room_for st F d db 16 (inodes h) (blocks h)" and h: "fits h" "is_dir h \<Longrightarrow> length name < DIRSIZ"
    and sub: "\<And>ds. h = HDir (Some ds) \<Longrightarrow> builds_list ds"
  shows "added st F d db (make_dirent name (freeinode st)) (inodes h) (blocks h) (add_child (of_nat d) name h st) (\<lambda>F'. holds F' d (unat (freeinode st)) h)"
proof (cases h)
  case (HFile c)
  then obtain bs where c: "c = Some bs" "length bs \<le> MAXFILEB" using h(1) by (cases c) auto
  then show ?thesis using add_file_spec [of st F d db bs name] r HFile by (simp add: add_child_def)
next
  case HOther
  then show ?thesis using h(1) by simp
next
  case (HDir c)
  let ?n = "unat (freeinode st)"
  have R: "F d = Some (T_DIR, db)" "image_of st F" "?n + inodes h \<le> 208"
    "unat (freeblock st) + blocks h + fblocks (length db + 16) \<le> FSSIZE + fblocks (length db)"
    using r by (auto simp: room_for_def)
  have dn: "d < ?n" using image_fresh [OF R(2,1)] .
  have b1: "fblocks 32 \<le> blocks h" using HDir by (cases c) (auto simp: fblocks_mono trans_le_add1)
  have r1: "room_for st F d db 16 1 (fblocks 32)" using r b1 inodes_pos [of h] by (auto simp: room_for_def)
  let ?F4 = "F(d \<mapsto> (T_DIR, db @ make_dirent name (freeinode st)), ?n \<mapsto> (T_DIR, dots ?n d))"
  have nm: "length name < DIRSIZ" using h(2) HDir by simp
  obtain st4 where D: "add_dir (of_nat d) name c st = (case c of None \<Rightarrow> Ret st4 | Some es \<Rightarrow> add_entries (freeinode st) es st4)"
      "image_of st4 ?F4" "unat (freeinode st4) = ?n + 1"
      "unat (freeblock st4) + fblocks (length db) = unat (freeblock st) + fblocks 32 + fblocks (length db + 16)"
    by (rule new_dir_spec [OF r1 nm, of c]) (rule that)
  show ?thesis
  proof (cases c)
    case None
    then show ?thesis using HDir D dn unfolding added_def by (intro exI [of _ st4] exI [of _ ?F4]) (simp add: add_child_def)
  next
    case (Some ds)
    let ?db = "dots ?n d"
    have ld: "length ?db = 32" by (simp add: dots_def)
    have F4: "?F4 ?n = Some (T_DIR, ?db)" by simp
    have "room_for st4 ?F4 ?n ?db (16 * nshown ds) (inodes_list ds) (blocks_list ds)"
      using D(2-4) F4 ld R(3,4) h(1) HDir Some by (simp add: room_for_def)
    then have "added st4 ?F4 ?n ?db (entries (unat (freeinode st4)) ds) (inodes_list ds) (blocks_list ds) (add_entries (of_nat ?n) ds st4)
        (\<lambda>F'. holds_list F' ?n (unat (freeinode st4)) ds)"
      using sub HDir Some unfolding builds_list_def by blast
    then obtain st' F' where E: "add_entries (freeinode st) ds st4 = Ret st'" "image_of st' F'" "F' ?n = Some (T_DIR, ?db @ entries (Suc ?n) ds)"
        "\<forall>j < Suc ?n. j \<noteq> ?n \<longrightarrow> F' j = ?F4 j" "holds_list F' ?n (Suc ?n) ds" "unat (freeinode st') = unat (freeinode st4) + inodes_list ds"
        "unat (freeblock st') + fblocks 32 = unat (freeblock st4) + blocks_list ds + fblocks (32 + 16 * nshown ds)"
      using D(3) ld by (auto simp: added_def)
    have "unat (freeblock st') + fblocks (length db) = unat (freeblock st) + blocks h + fblocks (length db + 16)"
      using E(7) D(4) HDir Some by simp
    moreover have "F' d = Some (T_DIR, db @ make_dirent name (freeinode st))" "\<forall>j < ?n. j \<noteq> d \<longrightarrow> F' j = F j" using E(4) dn by auto
    ultimately show ?thesis using HDir Some D E unfolding added_def
      by (intro exI [of _ st'] exI [of _ F']) (simp add: add_child_def)
  qed
qed

lemma add_entries_child:
  "add_entries d ((name, h) # es) st = (if skipped name h then add_entries d es st else obind (add_child d name h st) (add_entries d es))"
  by (auto simp: skipped_def add_child_def split: host.splits)

lemma builds_Cons:
  assumes vis: "\<not> skipped name h" and h: "fits h" "is_dir h \<Longrightarrow> length name < DIRSIZ" "\<And>ds. h = HDir (Some ds) \<Longrightarrow> builds_list ds"
    and ih: "builds_list es"
  shows "builds_list ((name, h) # es)"
  unfolding builds_list_def
proof (intro allI impI)
  fix st F d db
  assume r: "room_for st F d db (16 * nshown ((name, h) # es)) (inodes_list ((name, h) # es)) (blocks_list ((name, h) # es))"
  let ?n = "unat (freeinode st)"
  have R: "image_of st F" "F d = Some (T_DIR, db)" "length db + 16 + 16 * nshown es \<le> MAXFILEB" "?n + inodes h + inodes_list es \<le> 208"
    "unat (freeblock st) + blocks h + blocks_list es + fblocks (length db + 16 + 16 * nshown es) \<le> FSSIZE + fblocks (length db)"
    using r vis by (auto simp: room_for_def add.assoc)
  have dn: "d < ?n" using image_fresh [OF R(1,2)] .
  have r1: "room_for st F d db 16 (inodes h) (blocks h)"
    using R fblocks_mono [of "length db + 16" "length db + 16 + 16 * nshown es"] by (auto simp: room_for_def)
  let ?e = "make_dirent name (freeinode st)"
  obtain st1 F1 where A: "add_child (of_nat d) name h st = Ret st1" "image_of st1 F1" "F1 d = Some (T_DIR, db @ ?e)"
      "\<forall>j < ?n. j \<noteq> d \<longrightarrow> F1 j = F j" "holds F1 d ?n h" "unat (freeinode st1) = ?n + inodes h"
      "unat (freeblock st1) + fblocks (length db) = unat (freeblock st) + blocks h + fblocks (length db + 16)"
    using add_child_spec [OF r1 h] by (auto simp: added_def)
  have "room_for st1 F1 d (db @ ?e) (16 * nshown es) (inodes_list es) (blocks_list es)"
    using A R by (simp add: room_for_def)
  then have "added st1 F1 d (db @ ?e) (entries (unat (freeinode st1)) es) (inodes_list es) (blocks_list es) (add_entries (of_nat d) es st1)
      (\<lambda>F'. holds_list F' d (unat (freeinode st1)) es)"
    using ih unfolding builds_list_def by blast
  then obtain st' F' where B: "add_entries (of_nat d) es st1 = Ret st'" "image_of st' F'" "F' d = Some (T_DIR, (db @ ?e) @ entries (?n + inodes h) es)"
      "\<forall>j < ?n + inodes h. j \<noteq> d \<longrightarrow> F' j = F1 j" "holds_list F' d (?n + inodes h) es" "unat (freeinode st') = ?n + inodes h + inodes_list es"
      "unat (freeblock st') + fblocks (length db + 16) = unat (freeblock st1) + blocks_list es + fblocks (length db + 16 + 16 * nshown es)"
    using A(6) by (auto simp: added_def)
  have "holds F' d ?n h" by (rule holds_cong(1) [OF A(5)]) (use B(4) dn in auto)
  then show "added st F d db (entries ?n ((name, h) # es)) (inodes_list ((name, h) # es)) (blocks_list ((name, h) # es))
      (add_entries (of_nat d) ((name, h) # es) st) (\<lambda>F'. holds_list F' d ?n ((name, h) # es))"
    unfolding added_def using A B vis
    by (intro exI [of _ st'] exI [of _ F']) (simp add: add_entries_child add.assoc del: add_entries.simps)
qed

lemma builds_tree: "fits_list es \<Longrightarrow> builds_list es"
proof (induction "size_list (size \<circ> snd) es" arbitrary: es rule: less_induct)
  case less
  show ?case
  proof (cases es)
    case Nil
    then show ?thesis by (auto simp: builds_list_def room_for_def added_def)
  next
    case (Cons x es')
    obtain name h where x: "x = (name, h)" by (cases x)
    have ih: "builds_list es'" by (rule less.hyps) (use less.prems Cons x in \<open>auto simp: comp_def\<close>)
    show ?thesis
    proof (cases "skipped name h")
      case True
      then show ?thesis using ih Cons x unfolding builds_list_def by (simp add: add_entries_child del: add_entries.simps)
    next
      case False
      then have h: "fits h" "is_dir h \<Longrightarrow> length name < DIRSIZ" using less.prems Cons x by auto
      have sub: "builds_list ds" if "h = HDir (Some ds)" for ds
      proof (rule less.hyps)
        show "size_list (size \<circ> snd) ds < size_list (size \<circ> snd) es"
          using that Cons x size_snds [of ds] by (auto simp: comp_def)
      qed (use h(1) that in simp)
      show ?thesis unfolding Cons x by (rule builds_Cons [OF False h sub ih])
    qed
  qed
qed

end
