(* ===== verification/Mkfsboot.thy ===== *)
theory Mkfsboot
  imports Mkfstree
begin

text \<open>
  The image \<^verbatim>\<open>mkfs/mkfs.c\<close> writes, as the kernel finds it: the super block, the bitmap, the tree of files, and for every file of it what
  \<open>ilock\<close> and \<open>readi\<close> of \<^verbatim>\<open>kernel/fs.c\<close> return.
\<close>

section \<open>The empty image\<close>

lemma zero_sectors:
  "n \<le> FSSIZE \<Longrightarrow> sectors st = (\<lambda>_. replicate BSIZE 0) \<Longrightarrow> nsect st = 0 \<Longrightarrow>
     fold (\<lambda>i. wsect (of_nat i) (replicate BSIZE 0)) [0..<n] st = st\<lparr>nsect := n\<rparr>"
  by (induction n) (auto simp: wsect_def unat_of_nat fun_upd_idem simp del: replicate.simps)

lemma mk_empty_fields:
  "sectors mk_empty b = (if b = 1 then put_bytes 0 (superblock_bytes mk_sb) (replicate BSIZE 0) else replicate BSIZE 0)"
  "nsect mk_empty = FSSIZE" "freeinode mk_empty = 1" "freeblock mk_empty = of_nat nmeta"
proof -
  let ?s0 = "\<lparr>sectors = (\<lambda>_. replicate BSIZE 0), nsect = 0, freeinode = 1, freeblock = of_nat nmeta\<rparr> :: mkst"
  have "fold (\<lambda>i. wsect (of_nat i) (replicate BSIZE 0)) [0..<FSSIZE] ?s0 = ?s0\<lparr>nsect := FSSIZE\<rparr>"
    by (rule zero_sectors) simp_all
  then have e: "mk_empty = wsect 1 (put_bytes 0 (superblock_bytes mk_sb) (replicate BSIZE 0)) (?s0\<lparr>nsect := FSSIZE\<rparr>)"
    unfolding mk_empty_def by (rule arg_cong)
  show "sectors mk_empty b = (if b = 1 then put_bytes 0 (superblock_bytes mk_sb) (replicate BSIZE 0) else replicate BSIZE 0)"
    "nsect mk_empty = FSSIZE" "freeinode mk_empty = 1" "freeblock mk_empty = of_nat nmeta"
    by (simp_all add: e wsect_def del: replicate.simps)
qed

lemma length_superblock: "length (superblock_bytes s) = 32"
  by (simp add: superblock_bytes_def)

lemma superblock_roundtrip: "superblock_of (put_bytes 0 (superblock_bytes s) (replicate BSIZE 0)) = s"
proof -
  let ?ws = "[magic s, sbsize s, nblocks s, ninodes s, nlog s, logstart s, inodestart s, bmapstart s]"
  have "get_le (4 * i) 4 (put_bytes 0 (superblock_bytes s) (replicate BSIZE 0)) = ?ws ! i" if "i < 8" for i
  proof -
    have "take 4 (drop (4 * i) (put_bytes 0 (superblock_bytes s) (replicate BSIZE 0))) = take 4 (drop (4 * i) (superblock_bytes s))"
      using that length_superblock [of s] by (simp add: put_bytes_def take_append)
    also have "\<dots> = bytes_of 4 (?ws ! i)" unfolding superblock_bytes_def by (rule take_drop_concat_bytes) (use that in simp)
    finally show ?thesis by (simp add: get_le_def)
  qed
  from this [of 0] this [of 1] this [of 2] this [of 3] this [of 4] this [of 5] this [of 6] this [of 7]
  show ?thesis by (simp add: superblock_of_def)
qed

lemma image_empty: "image_of mk_empty (\<lambda>_. None)"
proof -
  have "unat (of_nat nmeta :: u32) = 46" by (simp add: nmeta_eq)
  moreover have "length (put_bytes 0 (superblock_bytes mk_sb) (replicate BSIZE 0)) = BSIZE"
    by (simp add: length_put_bytes length_superblock)
  ultimately show ?thesis
    by (auto simp: image_of_def img_ok_def mk_empty_fields nmeta_eq total_blocks_def word_le_nat_alt simp del: replicate.simps)
qed

section \<open>The arguments\<close>

text \<open>The entry of the root directory for an argument, and the arguments \<open>main\<close> accepts.\<close>

fun arg_entry :: "u8 list \<times> host \<Rightarrow> u8 list \<times> host" where
  "arg_entry (path, h) = (if is_dir h then path else strip_underscore (short_name path), h)"

fun arg_ok :: "u8 list \<times> host \<Rightarrow> bool" where
  "arg_ok (path, h) \<longleftrightarrow> \<not> skipped (fst (arg_entry (path, h))) h \<and> (is_dir h \<or> 47 \<notin> set (short_name path))"

lemma add_args_entries:
  "list_all arg_ok args \<Longrightarrow> add_args root args st = add_entries root (map arg_entry args) st"
proof (induction args arbitrary: st)
  case (Cons a args)
  obtain path h where a: "a = (path, h)" by (cases a)
  have "add_arg root a st = add_child root (fst (arg_entry a)) h st"
    using Cons.prems a by (cases h) (auto simp: add_arg_def add_child_def skipped_def Let_def)
  moreover have "add_args root args = add_entries root (map arg_entry args)" using Cons by auto
  ultimately show ?case using Cons.prems a by (simp add: add_entries_child del: add_entries.simps)
qed simp

section \<open>The last two steps\<close>

lemma in_use_pad: "len mod BSIZE \<noteq> 0 \<Longrightarrow> in_use ((len div BSIZE + 1) * BSIZE) j = in_use len j"
proof -
  assume m: "len mod BSIZE \<noteq> 0"
  obtain q r where l: "len = q * BSIZE + r" "r < BSIZE" "len div BSIZE = q" "len mod BSIZE = r" using block_split by blast
  have "p * BSIZE < (q + 1) * BSIZE \<longleftrightarrow> p * BSIZE < q * BSIZE + r" for p
    using l(2) m [unfolded l(4)] by (cases "p \<le> q") auto
  then show ?thesis unfolding in_use_def l(3) using l(1) by simp
qed

lemma fblocks_pad: "len mod BSIZE \<noteq> 0 \<Longrightarrow> fblocks ((len div BSIZE + 1) * BSIZE) = fblocks len"
proof -
  assume m: "len mod BSIZE \<noteq> 0"
  obtain q r where l: "len = q * BSIZE + r" "r < BSIZE" "len div BSIZE = q" "len mod BSIZE = r" using block_split by blast
  have "((q + 1) * BSIZE + 1023) div BSIZE = q + 1" "(q * BSIZE + r + 1023) div BSIZE = q + 1" using l(2) m [unfolded l(4)] by simp_all
  moreover have "NDIRECT * BSIZE < (q + 1) * BSIZE \<longleftrightarrow> NDIRECT * BSIZE < q * BSIZE + r" using l(2) m [unfolded l(4)] by auto
  ultimately show ?thesis unfolding fblocks_def l(3) using l(1) by simp
qed


lemma fix_root_spec:
  assumes im: "image_of st F" and F: "F 1 = Some (t, bs)" and m: "length bs mod BSIZE \<noteq> 0"
  defines "n \<equiv> (length bs div BSIZE + 1) * BSIZE"
  obtains st' where "fix_root 1 st = Ret st'" "image_of st' (F(1 \<mapsto> (t, bs @ replicate (n - length bs) 0)))"
    "freeinode st' = freeinode st" "freeblock st' = freeblock st" 
proof -
  note I = image_ofD [OF im]
  let ?d = "mk_inode st 1" and ?bs = "bs @ replicate (n - length bs) 0"
  have f: "fstored ?d (sectors st) (unat (freeblock st)) bs" "itype ?d = t" "nlink ?d = 1" "isize ?d = of_nat (length bs)"
    using I(5) [OF F] by (simp_all add: file_at_def Let_def)
  have l: "length bs \<le> MAXFILEB" using f(1) by (simp add: fstored_def)
  obtain q r where s: "length bs = q * BSIZE + r" "r < BSIZE" "length bs div BSIZE = q" "length bs mod BSIZE = r" using block_split by blast
  have n: "length bs \<le> n" "n \<le> MAXFILEB" "length ?bs = n"
  proof -
    show "length bs \<le> n" using s(1,2) by (simp add: n_def s(3))
    then show "length ?bs = n" by simp
    have "q < 268" using s(1) l m s(4) by (auto simp: MAXFILEB_def)
    then show "n \<le> MAXFILEB" by (simp add: n_def s(3) MAXFILEB_def)
  qed
  let ?d2 = "?d\<lparr>isize := of_nat n\<rparr>"
  have sz: "(of_nat (length bs) div 1024 + 1) * 1024 = (of_nat n :: u32)"
  proof -
    have "length bs < 2 ^ 32" using l by (simp add: MAXFILEB_def)
    then have "unat (of_nat (length bs) div 1024 :: u32) = q" by (simp add: unat_div unat_of_nat s(3))
    then have "(of_nat (length bs) div 1024 :: u32) = of_nat q" by (metis of_nat_unat ucast_id)
    then show ?thesis by (simp add: n_def s(3))
  qed
  have ld: "length (addrs ?d2) = NDIRECT + 1" using f(1) by (simp add: fstored_def slots_ok_def)
  have i1: "(1 :: nat) < 208" by simp
  obtain st' where W: "winode (of_nat 1) ?d2 st = Ret st'" "img_ok st'" "freeblock st' = freeblock st" "freeinode st' = freeinode st"
      "\<And>j. j < 208 \<Longrightarrow> mk_inode st' j = (if j = 1 then ?d2 else mk_inode st j)"
      "\<And>b. unat b < 32 \<or> 45 \<le> unat b \<Longrightarrow> sectors st' b = sectors st b"
    by (rule winode_spec [OF I(1) i1 ld]) blast
  have run: "fix_root 1 st = Ret st'"
    using rinode_spec [OF I(1) i1] f(4) sz W(1) by (simp add: fix_root_def)
  have dsl: "dslot ?d2 = dslot ?d" by (auto simp: dslot_def fun_eq_iff)
  then have fs: "fslots ?d2 = fslots ?d" "dbyte ?d2 = dbyte ?d" by (auto simp: fslots_def dbyte_def fun_eq_iff)
  have f2: "fstored ?d2 (sectors st) (unat (freeblock st)) ?bs"
    using f(1) dsl fs n in_use_pad [OF m] by (auto simp: fstored_def slots_ok_def nth_append n_def)
  have each: "file_at st' j g" "fslots (mk_inode st' j) (sectors st') = fslots (mk_inode st j) (sectors st)"
    if j: "(F(1 \<mapsto> (t, ?bs))) j = Some g" for j g
  proof -
    have jd: "j \<in> dom F" using j F by (auto split: if_splits)
    then have "j < 208" using I(2,4) by auto
    note ij = W(5) [OF this]
    have fj: "fstored (mk_inode st' j) (sectors st) (unat (freeblock st)) (snd g)"
      using j f2 ij I(5) [of j g] by (auto simp: file_at_def Let_def split: if_splits prod.splits)
    have same: "sectors st' b = sectors st b" if "b \<in> fslots (mk_inode st' j) (sectors st)" for b
      using fslots_range [OF fj that] W(6) [of b] by simp
    note C = fstored_cong [OF fj same order_refl]
    show "file_at st' j g" using j C(1) ij f(2,3) n(3) W(3) I(5) [of j g] by (auto simp: file_at_def Let_def split: if_splits prod.splits)
    show "fslots (mk_inode st' j) (sectors st') = fslots (mk_inode st j) (sectors st)" using C(2) ij fs by (auto split: if_splits)
  qed
  have "image_of st' (F(1 \<mapsto> (t, ?bs)))"
    unfolding image_of_def
  proof (intro conjI ballI allI impI)
    show "dom (F(1 \<mapsto> (t, ?bs))) = {1..<unat (freeinode st')}" using I(2) F W(4) by auto
    show "file_at st' j g" if "(F(1 \<mapsto> (t, ?bs))) j = Some g" for j g using each(1) [OF that] .
    show "fslots (mk_inode st' j) (sectors st') \<inter> fslots (mk_inode st' k) (sectors st') = {}"
      if jk: "j \<in> dom (F(1 \<mapsto> (t, ?bs)))" "k \<in> dom (F(1 \<mapsto> (t, ?bs)))" "j \<noteq> k" for j k
    proof -
      obtain g h where g: "(F(1 \<mapsto> (t, ?bs))) j = Some g" "(F(1 \<mapsto> (t, ?bs))) k = Some h" using jk by blast
      have "j \<in> dom F" "k \<in> dom F" using jk F by (auto split: if_splits)
      then show ?thesis using each(2) [OF g(1)] each(2) [OF g(2)] I(6) [of j k] jk(3) by simp
    qed
    show "unat (freeblock st') = nmeta + total_blocks (F(1 \<mapsto> (t, ?bs)))"
      using total_blocks_upd [OF image_finite [OF im], of 1 t ?bs] F I(7) W(3) fblocks_pad [OF m] n(3) by (simp add: n_def)
    show "sectors st' b = sectors mk_empty b" if "b < 32" for b using I(8) [OF that] W(6) [of b] that by (simp add: word_less_nat_alt)
  qed (use W(2,4) I in simp_all)
  then show ?thesis using that [OF run] W(3,4) by blast
qed


lemma length_marked: "length (fold mark_bit bs d) = length d"
  by (induction bs arbitrary: d) auto

lemma marked: "n \<le> 8 * length d \<Longrightarrow> b < 8 * length d \<Longrightarrow> bit_used (fold mark_bit [0..<n] d) b \<longleftrightarrow> b < n \<or> bit_used d b"
  by (induction n) (auto simp: bit_used_mark length_marked)

lemma bit_used_zeros: "b < 8192 \<Longrightarrow> \<not> bit_used (replicate BSIZE 0) b"
proof -
  assume "b < 8192"
  then have "b div 8 < BSIZE" by simp
  then show ?thesis by (simp add: bit_used_def del: replicate.simps)
qed

text \<open>The bitmap marks exactly the blocks handed out and the blocks before them.\<close>

definition bitmap_ok :: "mkst \<Rightarrow> bool" where
  "bitmap_ok st \<longleftrightarrow> (\<forall>b < FSSIZE. bit_used (sectors st (bmapstart mk_sb)) b \<longleftrightarrow> b < unat (freeblock st))"

lemma bmap_sector: "bmapstart mk_sb = 45" "unat (45 :: u32) = 45"
  by (simp_all add: mk_sb_def mk_nlog_def ninodeblocks_def)

lemma mk_balloc_spec:
  assumes im: "image_of st F"
  obtains st' where "mk_balloc (freeblock st) st = Ret st'" "image_of st' F" "bitmap_ok st'"
proof -
  note I = image_ofD [OF im]
  let ?bm = "fold mark_bit [0..<unat (freeblock st)] (replicate BSIZE 0)"
  define st' where "st' = wsect 45 ?bm st"
  have u: "unat (freeblock st) \<le> FSSIZE" using img_okD(4) [OF I(1)] .
  have run: "mk_balloc (freeblock st) st = Ret st'" using u by (simp add: mk_balloc_def st'_def bmap_sector del: replicate.simps)
  have S: "sectors st' b = (if b = 45 then ?bm else sectors st b)" "nsect st' = FSSIZE" "freeblock st' = freeblock st" "freeinode st' = freeinode st" for b
    using img_okD(2) [OF I(1)] by (auto simp: st'_def wsect_def simp del: replicate.simps)
  have "length ?bm = BSIZE" by (simp add: length_marked del: replicate.simps)
  then have ok: "img_ok st'" using I(1) by (auto simp: img_ok_def S nmeta_eq word_le_nat_alt simp del: replicate.simps)
  have low: "sectors st' b = sectors st b" if "unat b < 45 \<or> 46 \<le> unat b" for b using that by (auto simp: S)
  have ino: "mk_inode st' j = mk_inode st j" if j: "j \<in> dom F" for j
  proof -
    have "j < 208" "j div 16 < 13" using j I(2,4) by auto
    then show ?thesis using low [of "of_nat (32 + j div 16)"] inode_block [of j] by (simp add: mk_inode_def del: of_nat_add)
  qed
  have each: "file_at st' j g" "fslots (mk_inode st' j) (sectors st') = fslots (mk_inode st j) (sectors st)" if j: "F j = Some g" for j g
    by (rule file_kept [OF im j]; use j ino [of j] low S(3) in auto)+
  have "image_of st' F"
    unfolding image_of_def
  proof (intro conjI ballI allI impI)
    show "fslots (mk_inode st' j) (sectors st') \<inter> fslots (mk_inode st' k) (sectors st') = {}"
      if jk: "j \<in> dom F" "k \<in> dom F" "j \<noteq> k" for j k
      using jk each(2) I(6) [OF jk] by auto
    show "sectors st' b = sectors mk_empty b" if "b < 32" for b using I(8) [OF that] low [of b] that by (simp add: word_less_nat_alt)
  qed (use ok each(1) I S in simp_all)
  moreover have "bitmap_ok st'"
    using u marked [of "unat (freeblock st)" "replicate BSIZE 0"] bit_used_zeros
    by (auto simp: bitmap_ok_def S bmap_sector simp del: replicate.simps)
  ultimately show ?thesis using that run by blast
qed

section \<open>The whole program\<close>

text \<open>The arguments are well formed, and names, sizes, inodes and blocks fit; the root directory does not end at the end of a block.\<close>

definition tree_fits :: "(u8 list \<times> host) list \<Rightarrow> bool" where
  "tree_fits args \<longleftrightarrow> list_all arg_ok args \<and> fits (HDir (Some (map arg_entry args))) \<and> inodes (HDir (Some (map arg_entry args))) \<le> 207
     \<and> nmeta + blocks (HDir (Some (map arg_entry args))) \<le> FSSIZE \<and> (32 + 16 * length args) mod BSIZE \<noteq> 0"

lemma nshown_args: "list_all arg_ok args \<Longrightarrow> nshown (map arg_entry args) = length args"
  by (induction args) auto

lemma root_spec:
  obtains st1 st2 st3 where "mk_ialloc T_DIR mk_empty = Ret (1, st1)" "add_entry 1 [46] 1 st1 = Ret st2" "add_entry 1 [46, 46] 1 st2 = Ret st3"
    "image_of st3 [1 \<mapsto> (T_DIR, dots 1 1)]" "unat (freeinode st3) = 2" "unat (freeblock st3) = nmeta + fblocks 32"
proof -
  have fb: "fblocks 0 = 0" "fblocks 16 = 1" "fblocks 32 = 1" by (simp_all add: fblocks_def)
  have n: "unat (freeblock mk_empty) = 46" "unat (freeinode mk_empty) = 1" by (simp_all add: mk_empty_fields nmeta_eq)
  have n2: "unat (freeinode mk_empty) < 208" by (simp add: n)
  obtain st1 where A: "mk_ialloc T_DIR mk_empty = Ret (freeinode mk_empty, st1)" "image_of st1 ((\<lambda>_. None)(unat (freeinode mk_empty) \<mapsto> (T_DIR, [])))"
      "unat (freeinode st1) = unat (freeinode mk_empty) + 1" "freeblock st1 = freeblock mk_empty"
    by (rule mk_ialloc_spec [OF image_empty n2]) (rule that)
  have A2: "image_of st1 [1 \<mapsto> (T_DIR, [])]" using A(2) n by simp
  have p1: "[1 \<mapsto> (T_DIR, [])] 1 = Some (T_DIR, [] :: u8 list)" "length ([] :: u8 list) + 16 \<le> MAXFILEB"
    "unat (freeblock st1) + fblocks (length ([] :: u8 list) + 16) \<le> FSSIZE + fblocks (length ([] :: u8 list))"
    using A(4) n fb by (simp_all add: MAXFILEB_def)
  obtain st2 where B: "add_entry (of_nat 1) [46] (of_nat 1) st1 = Ret st2" "image_of st2 ([1 \<mapsto> (T_DIR, [])](1 \<mapsto> (T_DIR, [] @ make_dirent [46] (of_nat 1))))"
      "freeinode st2 = freeinode st1" "unat (freeblock st2) + fblocks (length ([] :: u8 list)) = unat (freeblock st1) + fblocks (length ([] :: u8 list) + 16)"
    by (rule add_entry_spec [OF A2 p1]) (rule that)
  let ?e = "make_dirent [46] (of_nat 1)"
  have B2: "image_of st2 [1 \<mapsto> (T_DIR, ?e)]" using B(2) by simp
  have p2: "[1 \<mapsto> (T_DIR, ?e)] 1 = Some (T_DIR, ?e)" "length ?e + 16 \<le> MAXFILEB"
    "unat (freeblock st2) + fblocks (length ?e + 16) \<le> FSSIZE + fblocks (length ?e)"
    using A(4) B(4) n fb by (simp_all add: MAXFILEB_def)
  obtain st3 where C: "add_entry (of_nat 1) [46, 46] (of_nat 1) st2 = Ret st3" "image_of st3 ([1 \<mapsto> (T_DIR, ?e)](1 \<mapsto> (T_DIR, ?e @ make_dirent [46, 46] (of_nat 1))))"
      "freeinode st3 = freeinode st2" "unat (freeblock st3) + fblocks (length ?e) = unat (freeblock st2) + fblocks (length ?e + 16)"
    by (rule add_entry_spec [OF B2 p2]) (rule that)
  show ?thesis
    by (rule that [of st1 st2 st3]) (use A B C n fb in \<open>simp_all add: mk_empty_fields dots_def nmeta_eq\<close>)
qed


lemma mkfs_spec:
  assumes "tree_fits args"
  defines "es \<equiv> map arg_entry args"
  shows "\<exists>st F pad. mkfs args = Ret st \<and> image_of st F \<and> bitmap_ok st \<and> superblock_of (sectors st 1) = mk_sb
    \<and> F 1 = Some (T_DIR, dots 1 1 @ entries 2 es @ replicate pad 0) \<and> holds_list F 1 2 es"
proof -
  have T: "list_all arg_ok args" "32 + 16 * nshown es \<le> MAXFILEB" "fits_list es" "inodes_list es \<le> 206"
      "nmeta + (fblocks (32 + 16 * nshown es) + blocks_list es) \<le> FSSIZE" "(32 + 16 * nshown es) mod BSIZE \<noteq> 0"
    using assms(1) nshown_args [of args] unfolding tree_fits_def es_def by auto
  obtain st1 st2 st3 where R: "mk_ialloc T_DIR mk_empty = Ret (1, st1)" "add_entry 1 [46] 1 st1 = Ret st2" "add_entry 1 [46, 46] 1 st2 = Ret st3"
      "image_of st3 [1 \<mapsto> (T_DIR, dots 1 1)]" "unat (freeinode st3) = 2" "unat (freeblock st3) = nmeta + fblocks 32"
    by (rule root_spec) (rule that)
  have ld: "length (dots 1 1) = 32" by (simp add: dots_def)
  have "room_for st3 [1 \<mapsto> (T_DIR, dots 1 1)] 1 (dots 1 1) (16 * nshown es) (inodes_list es) (blocks_list es)"
    using R(4-6) T(2,4,5) ld by (simp add: room_for_def)
  then have "added st3 [1 \<mapsto> (T_DIR, dots 1 1)] 1 (dots 1 1) (entries (unat (freeinode st3)) es) (inodes_list es) (blocks_list es)
      (add_entries (of_nat 1) es st3) (\<lambda>F'. holds_list F' 1 (unat (freeinode st3)) es)"
    using builds_tree [OF T(3)] unfolding builds_list_def by blast
  then obtain st4 F4 where A: "add_entries 1 es st3 = Ret st4" "image_of st4 F4" "F4 1 = Some (T_DIR, dots 1 1 @ entries 2 es)" "holds_list F4 1 2 es"
    using R(5) by (auto simp: added_def)
  let ?bs = "dots 1 1 @ entries 2 es"
  have len: "length ?bs = 32 + 16 * nshown es" using ld by simp
  then have m: "length ?bs mod BSIZE \<noteq> 0" using T(6) by simp
  obtain st5 where B: "fix_root 1 st4 = Ret st5"
      "image_of st5 (F4(1 \<mapsto> (T_DIR, ?bs @ replicate ((length ?bs div BSIZE + 1) * BSIZE - length ?bs) 0)))"
    by (rule fix_root_spec [OF A(2,3) m]) (rule that)
  define F5 where "F5 = F4(1 \<mapsto> (T_DIR, ?bs @ replicate ((length ?bs div BSIZE + 1) * BSIZE - length ?bs) 0))"
  obtain st6 where C: "mk_balloc (freeblock st5) st5 = Ret st6" "image_of st6 F5" "bitmap_ok st6"
    by (rule mk_balloc_spec [OF B(2) [folded F5_def]]) (rule that)
  have "mkfs args = Ret st6"
    using R(1-3) A(1) B(1) C(1) add_args_entries [OF T(1), of 1 st3] by (simp add: mkfs_def es_def)
  moreover have "superblock_of (sectors st6 1) = mk_sb"
    using image_ofD(8) [OF C(2), of 1] superblock_roundtrip [of mk_sb] by (simp add: mk_empty_fields)
  moreover have "holds_list F5 1 2 es" by (rule holds_cong(2) [OF A(4)]) (simp add: F5_def)
  moreover have "\<exists>pad. F5 1 = Some (T_DIR, ?bs @ replicate pad 0)" unfolding F5_def by (intro exI) (rule fun_upd_same)
  ultimately show ?thesis using C(2,3) by auto
qed

section \<open>The kernel on the image\<close>

text \<open>
  The kernel has booted from the image and is in a transaction; inode \<open>ip\<close> of its table has been obtained for file \<open>i\<close> and not been read yet.
\<close>

definition booted_from :: "mkst \<Rightarrow> fsst \<Rightarrow> bool" where
  "booted_from img st \<longleftrightarrow> blk st = sectors img \<and> sb st = superblock_of (sectors img 1) \<and> bheld st = [] \<and> log_wf (flog st)"

definition unread :: "fsst \<Rightarrow> nat \<Rightarrow> nat \<Rightarrow> bool" where
  "unread st ip i \<longleftrightarrow> ip < length (itab st) \<and> inum (itab st ! ip) = of_nat i \<and> 1 \<le> iref (itab st ! ip) \<and> slocked (ilk (itab st ! ip)) = 0
     \<and> \<not> ivalid (itab st ! ip)"

lemma used_image:
  assumes "booted_from img st" "bitmap_ok img" "superblock_of (sectors img 1) = mk_sb" "unat b < FSSIZE"
  shows "used st b \<longleftrightarrow> unat b < unat (freeblock img)"
proof -
  have "b div 8192 = 0" using assms(4) by (simp add: word_unat_eq_iff unat_mod8192)
  then have "BBLOCK b mk_sb = bmapstart mk_sb" by (simp add: BBLOCK_def)
  moreover have "unat (b mod 8192) = unat b" using assms(4) by (simp add: unat_mod8192)
  ultimately show ?thesis using assms by (simp add: used_def booted_from_def bitmap_ok_def)
qed

lemma image_store_ok:
  assumes "booted_from img st" "image_of img F" "bitmap_ok img" "superblock_of (sectors img 1) = mk_sb"
  shows "store_ok st" "fsize st = FSSIZE" "BM st = {45}"
proof -
  have fs: "fsize st = FSSIZE" using assms by (simp add: fsize_def booted_from_def mk_sb_def)
  then show "fsize st = FSSIZE" .
  have "b div 8192 = 0" if "unat b < FSSIZE" for b :: u32 using that by (simp add: word_unat_eq_iff unat_mod8192)
  then show bm: "BM st = {45}"
    using assms(1,4) fs bmap_sector(1) by (auto simp: BM_def BBLOCK_def booted_from_def intro!: exI [of _ 0])
  have "46 \<le> unat (freeblock img)" using img_okD(3) [OF image_ofD(1) [OF assms(2)]] by (simp add: nmeta_eq)
  then show "store_ok st"
    using assms(1) fs bm used_image [OF assms(1,3,4), of 0] used_image [OF assms(1,3,4), of 45] img_okD(1) [OF image_ofD(1) [OF assms(2)]]
    by (auto simp: store_ok_def booted_from_def)
qed


lemma ilock_image:
  assumes b: "booted_from img st" and im: "image_of img F" and bm: "bitmap_ok img" and sup: "superblock_of (sectors img 1) = mk_sb"
    and F: "F i = Some (t, bs)" "t \<noteq> 0" and u: "unread st ip i"
  obtains st' where "ilock pid (Some ip) st = KRet () st'" "ino_ok st' ip" "synced st' ip" "itype (itab st' ! ip) = t"
    "unat (isize (itab st' ! ip)) = length bs" "bheld st' = []" "\<And>k. k < MAXFILEB \<Longrightarrow> file_byte st' ip k = (if k < length bs then bs ! k else 0)"
    "\<And>k. k < length bs \<Longrightarrow> slot st' ip (six (k div BSIZE)) \<noteq> 0"
proof -
  note I = image_ofD [OF im]
  let ?d = "mk_inode img i"
  have i: "i < 208" using I(2,4) F(1) by (metis atLeastLessThan_iff domI less_le_trans)
  have f: "fstored ?d (sectors img) (unat (freeblock img)) bs" "itype ?d = t" "isize ?d = of_nat (length bs)"
    using I(5) [OF F(1)] by (simp_all add: file_at_def Let_def)
  have s: "slots_ok ?d (sectors img) (unat (freeblock img))" using f(1) by (simp add: fstored_def)
  note S = slots_okD [OF s]
  have B: "blk st = sectors img" "sb st = mk_sb" "bheld st = []" using b sup by (simp_all add: booted_from_def)
  have ib: "IBLOCK (of_nat i) mk_sb = of_nat (32 + i div 16)" "unat (of_nat i mod 16 :: u32) = i mod 16" using IBLOCK_mk [OF i] by simp_all
  define lk where "lk = (ilk (itab st ! ip))\<lparr>slocked := 1, spid := pid\<rparr>"
  define x where "x = (load_dinode ?d ((itab st ! ip)\<lparr>ilk := lk\<rparr>))\<lparr>ivalid := True\<rparr>"
  define st' where "st' = st\<lparr>itab := (itab st)[ip := x]\<rparr>"
  have l: "ip < length (itab st)" using u by (simp add: unread_def)
  have run: "ilock pid (Some ip) st = KRet () st'"
    using u l B ib f(2) F(2)
    by (simp add: ilock_def unread_def acquiresleep_def upd_inode_def getblk_def putblk_def Let_def mk_inode_def load_dinode_def st'_def x_def lk_def)
  have x: "itab st' ! ip = x" "addrs x = addrs ?d" "inum x = of_nat i" "itype x = t" "isize x = of_nat (length bs)"
    using l u f by (simp_all add: st'_def x_def load_dinode_def unread_def)
  have st': "blk st' = sectors img" "sb st' = mk_sb" "bheld st' = []" "flog st' = flog st" "length (itab st') = length (itab st)"
    using B by (simp_all add: st'_def)
  have slot: "slot st' ip j = dslot ?d (sectors img) j" for j using x(1,2) st'(1) by (simp add: slot_def dslot_def Let_def)
  have iblk: "iblk st' ip = of_nat (32 + i div 16)" using x st' ib by (simp add: iblk_def)
  have b': "booted_from img st'" using b st' sup by (simp add: booted_from_def)
  note K = image_store_ok [OF b' im bm sup]
  have fb: "46 \<le> unat (freeblock img)" "unat (freeblock img) \<le> FSSIZE" using img_okD(3,4) [OF I(1)] by (simp_all add: nmeta_eq)
  have db: "data_block st' c" if "unat c < unat (freeblock img)" "c \<noteq> 45" for c
    using that fb used_image [OF b' bm sup, of c] K(2,3) st'(3) by (simp add: data_block_def)
  have "unat (iblk st' ip) = 32 + i div 16" unfolding iblk by (rule inode_block [OF i])
  moreover have "i div 16 < 13" using i by simp
  ultimately have ub: "unat (iblk st' ip) = 32 + i div 16" "i div 16 < 13" .
  have ok: "ino_ok st' ip"
    unfolding ino_ok_def
  proof (intro conjI allI impI)
    show "data_block st' (iblk st' ip)" by (rule db) (use ub fb in auto)
    show "iblk st' ip \<noteq> 0" using ub by auto
    show "data_block st' (slot st' ip j)" "slot st' ip j \<noteq> iblk st' ip" if "j < NSLOT" "slot st' ip j \<noteq> 0" for j
      using S(2,3) [of j] that db ub unfolding slot by (force+)
    show "i = j" if "i < NSLOT" "j < NSLOT" "slot st' ip i = slot st' ip j" "slot st' ip i \<noteq> 0" for i j
      using S(4) [of i j] that unfolding slot by blast
  qed (use K(1) l x S(1) st'(5) in simp_all)
  have bytes: "file_byte st' ip k = (if k < length bs then bs ! k else 0)" if "k < MAXFILEB" for k
  proof -
    have "file_byte st' ip k = dbyte ?d (sectors img) k" by (simp add: file_byte_def dbyte_def slot st'(1) Let_def)
    then show ?thesis using f(1) that by (simp add: fstored_def)
  qed
  have lb: "length bs \<le> MAXFILEB" using f(1) by (simp add: fstored_def)
  have map: "slot st' ip (six (k div BSIZE)) \<noteq> 0" if k: "k < length bs" for k
  proof -
    have "k div BSIZE * BSIZE < length bs" using k div_times_less_eq_dividend [of k BSIZE] by linarith
    then show ?thesis using f(1) six_range(2) [of k] k lb by (simp add: slot fstored_def in_use_six)
  qed
  have "synced st' ip"
    unfolding synced_def iblk using x st'(1) ib by (simp add: mk_inode_def dinode.truncate_def x_def load_dinode_def del: of_nat_add)
  moreover have "unat (isize (itab st' ! ip)) = length bs" using x lb by (simp add: unat_of_nat MAXFILEB_def)
  ultimately show ?thesis using that [OF run ok] x st'(3) bytes map by simp
qed


section \<open>Properties\<close>

text \<open>
  C11. \<open>mkfs\<close> builds the file system it is asked for: when the arguments fit, it does not stop early, and the image it leaves has the super block, a bitmap
  that marks exactly the blocks in use, and in its inodes the tree of the host: the root directory with one entry per argument behind its dots,
  padded with zeros, every directory with its entries in order, and every file with its bytes, each in blocks of its own.
\<close>

theorem mkfs_builds_tree:
  assumes "tree_fits args"
  shows "\<exists>st F pad. mkfs args = Ret st \<and> image_of st F \<and> bitmap_ok st \<and> superblock_of (sectors st 1) = mk_sb
    \<and> F 1 = Some (T_DIR, dots 1 1 @ entries 2 (map arg_entry args) @ replicate pad 0) \<and> holds_list F 1 2 (map arg_entry args)"
  by (rule mkfs_spec [OF assms])

lemma holds_list_append:
  "holds_list F d n (as @ bs) \<longleftrightarrow> holds_list F d n as \<and> holds_list F d (n + inodes_list as) bs"
  by (induction as arbitrary: n) (auto simp: add.assoc)

text \<open>
  C10. The kernel reads from the image what the host had: after \<open>mkfs\<close> with a file \<open>path\<close> of contents \<open>bs\<close> among its arguments, a kernel that has
  booted from the image locks the inode of that file, finds a plain file of that size for which every invariant of the file system code holds, and a
  read from its beginning, of \<open>n\<close> bytes to any destination that takes them, returns the first \<open>n\<close> bytes of \<open>bs\<close>, or all of them if there are fewer.
\<close>

theorem kernel_reads_mkfs_file:
  assumes "tree_fits args" "args = as @ (path, HFile (Some bs)) # cs" "mkfs args = Ret img" "booted_from img st"
    "unread st ip (2 + inodes_list (map arg_entry as))" "sink out dst n put" "n < 2 ^ 32"
  shows "\<exists>st'. ilock pid (Some ip) st = KRet () st' \<and> ino_ok st' ip \<and> itype (itab st' ! ip) = T_FILE \<and> unat (isize (itab st' ! ip)) = length bs
    \<and> readi out ip dst 0 (of_nat n) mm st' = KRet (int (min n (length bs)), put 0 (take n bs) mm) st'"
proof -
  let ?es = "map arg_entry args" and ?i = "2 + inodes_list (map arg_entry as)"
  obtain F where M: "image_of img F" "bitmap_ok img" "superblock_of (sectors img 1) = mk_sb" "holds_list F 1 2 ?es"
    using mkfs_spec [OF assms(1)] assms(3) by auto
  have "\<not> skipped (fst (arg_entry (path, HFile (Some bs)))) (HFile (Some bs))" using assms(1,2) by (simp add: tree_fits_def)
  then have F: "F ?i = Some (T_FILE, bs)" using M(4) assms(2) by (simp add: holds_list_append)
  have t: "T_FILE \<noteq> (0 :: u16)" by simp
  obtain st' where K: "ilock pid (Some ip) st = KRet () st'" "ino_ok st' ip" "synced st' ip" "itype (itab st' ! ip) = T_FILE"
      "unat (isize (itab st' ! ip)) = length bs" "bheld st' = []" "\<And>k. k < MAXFILEB \<Longrightarrow> file_byte st' ip k = (if k < length bs then bs ! k else 0)"
      "\<And>k. k < length bs \<Longrightarrow> slot st' ip (six (k div BSIZE)) \<noteq> 0"
    by (rule ilock_image [OF assms(4) M(1-3) F t assms(5), of pid]) (rule that)
  have lb: "length bs \<le> MAXFILEB" using image_ofD(5) [OF M(1) F] by (simp add: file_at_def Let_def fstored_def)
  have n: "unat (of_nat n :: u32) = n" using assms(7) by (simp add: unat_of_nat)
  have "range_ok st' ip (unat 0) (min (unat 0 + unat (of_nat n :: u32)) (unat (isize (itab st' ! ip))))"
    using K(5,6,8) lb store_okD(1) [OF ino_okD(1) [OF K(2)]] by (auto simp: range_ok_def)
  moreover have "file_bytes st' ip 0 (min n (length bs)) = take n bs"
    using K(7) lb by (intro nth_equalityI) (auto simp: file_bytes_def)
  ultimately have "readi out ip dst 0 (of_nat n) mm st' = KRet (int (min n (length bs)), put 0 (take n bs) mm) st'"
    using sink.readi_spec [OF assms(6), of st' ip 0 "of_nat n" mm] n K(5) by simp
  then show ?thesis using K by blast
qed

section \<open>Witnesses\<close>

text \<open>An image with the files \<open>user/_cat\<close>, three bytes long, and a directory \<open>bin\<close> with one file.\<close>

definition sample_args :: "(u8 list \<times> host) list" where
  "sample_args = [([117, 115, 101, 114, 47, 95, 99, 97, 116], HFile (Some [7, 8, 9])), ([98, 105, 110], HDir (Some [([97], HFile (Some [1])), ([46], HOther)]))]"

lemma sample_fits: "tree_fits sample_args"
  by (simp add: tree_fits_def sample_args_def skipped_def short_name_def strip_underscore_def nshown_def fblocks_def nmeta_eq MAXFILEB_def)

theorem mkfs_builds_tree_witness:
  "\<exists>st F. mkfs sample_args = Ret st \<and> image_of st F \<and> F 2 = Some (T_FILE, [7, 8, 9]) \<and> F 4 = Some (T_FILE, [1])"
  using mkfs_builds_tree [OF sample_fits]
  by (auto simp: sample_args_def skipped_def short_name_def strip_underscore_def)

definition sample_boot :: "mkst \<Rightarrow> fsst" where
  "sample_boot img = \<lparr>sb = superblock_of (sectors img 1), blk = sectors img, bheld = [],
     flog = \<lparr>lstart = 2, outstanding = 1, committing = False, lh_n = 0, lh_block = replicate LOGBLOCKS 0\<rparr>,
     itab = [\<lparr>itype = 0, imajor = 0, iminor = 0, nlink = 0, isize = 0, addrs = replicate 13 0,
              idev = 1, inum = 2, iref = 1, ilk = initsleeplock, ivalid = False\<rparr>]\<rparr>"

theorem kernel_reads_mkfs_file_witness:
  "\<exists>img st'. mkfs sample_args = Ret img \<and> ilock 1 (Some 0) (sample_boot img) = KRet () st'
    \<and> readi kcopyout 0 0 0 2 [0, 0] st' = KRet (2, [7, 8]) st'"
proof -
  obtain img where m: "mkfs sample_args = Ret img" using mkfs_spec [OF sample_fits] by blast
  have b: "booted_from img (sample_boot img)" by (simp add: booted_from_def sample_boot_def log_wf_def)
  have u: "unread (sample_boot img) 0 (2 + inodes_list (map arg_entry []))" by (simp add: unread_def sample_boot_def initsleeplock_def)
  have s: "sink kcopyout 0 2 put_bytes" by (rule kcopyout_sink) simp
  have "sample_args = [] @ (hd (map fst sample_args), HFile (Some [7, 8, 9])) # tl sample_args" by (simp add: sample_args_def)
  from kernel_reads_mkfs_file [OF sample_fits this m b u s, of 1 "[0, 0]"]
  show ?thesis using m by (auto simp: put_bytes_def)
qed

end
