(* ===== verification/Usort.thy ===== *)
theory Usort
  imports Ulib "HOL-Library.Multiset" "HOL-Library.List_Lexorder"
begin

text \<open>
  \<^verbatim>\<open>user/sort.c\<close> and \<^verbatim>\<open>user/wc.c\<close>. The array \<open>lines\<close> of \<open>sort\<close> is the list of the strings in its rows; every row is filled from a
  buffer of its own size, so that \<open>strcpy\<close> always fits. Input is the bytes still to be read, output the bytes written.
\<close>

section \<open>Definitions\<close>

abbreviation (input) MAXLINES :: nat where "MAXLINES \<equiv> 256"
abbreviation (input) MAXLEN :: nat where "MAXLEN \<equiv> 128"

text \<open>\<open>strcmp\<close> of two strings, by their bytes before the NUL.\<close>

fun strcmp_bytes :: "u8 list \<Rightarrow> u8 list \<Rightarrow> int" where
  "strcmp_bytes [] [] = 0"
| "strcmp_bytes [] (d # q) = - uint d"
| "strcmp_bytes (c # p) [] = uint c"
| "strcmp_bytes (c # p) (d # q) = (if c = d then strcmp_bytes p q else uint c - uint d)"

text \<open>The flags: the error message of an unknown one, or whether \<open>-u\<close> and \<open>-r\<close> were given and the last argument that is not a flag.\<close>

definition is_flag :: "u8 list \<Rightarrow> bool" where
  "is_flag s = (take 1 s = [45])"

fun sort_flags :: "u8 list list \<Rightarrow> bool \<Rightarrow> bool \<Rightarrow> u8 list option \<Rightarrow> u8 list + bool \<times> bool \<times> u8 list option" where
  "sort_flags [] unique reverse filename = Inr (unique, reverse, filename)"
| "sort_flags (a # argv) unique reverse filename =
     (if is_flag a
      then if strcmp_bytes a [45, 117] = 0 then sort_flags argv True reverse filename
           else if strcmp_bytes a [45, 114] = 0 then sort_flags argv unique True filename
           else Inl a
      else sort_flags argv unique reverse (Some a))"

text \<open>Lines of the standard input. \<open>gets\<close> never returns 0, so the loop ends only with the array full.\<close>

fun gets_line :: "nat \<Rightarrow> u8 list \<Rightarrow> u8 list \<times> u8 list" where
  "gets_line 0 inp = ([], inp)"
| "gets_line (Suc n) [] = ([], [])"
| "gets_line (Suc n) (c # inp) = (if c = 10 \<or> c = 13 then ([c], inp) else case gets_line n inp of (l, r) \<Rightarrow> (c # l, r))"

fun read_stdin :: "nat \<Rightarrow> u8 list \<Rightarrow> u8 list list" where
  "read_stdin 0 inp = []"
| "read_stdin (Suc n) inp = (case gets_line (MAXLEN - 1) inp of (l, r) \<Rightarrow> takeWhile (\<lambda>c. c \<noteq> 0) l # read_stdin n r)"

text \<open>
  Lines of a file: every buffer of up to 127 bytes is cut at its newlines. A newline that ends the buffer leaves nothing behind it, and the rest of a line
  that the buffer does not hold becomes a line of its own.
\<close>

fun cut_buf :: "u8 list \<Rightarrow> u8 list \<Rightarrow> u8 list list" where
  "cut_buf l [] = (if l = [] then [] else [rev l])"
| "cut_buf l (c # p) = (if c = 10 then rev l # cut_buf [] p else cut_buf (c # l) p)"

function read_file :: "u8 list \<Rightarrow> u8 list list" where
  "read_file inp =
     (if inp = [] then []
      else cut_buf [] (takeWhile (\<lambda>c. c \<noteq> 0) (take (MAXLEN - 1) inp)) @ read_file (drop (MAXLEN - 1) inp))"
  by pat_completeness auto
termination by (relation "measure length") auto

declare read_file.simps [simp del]

text \<open>The two loops that sort, and the loop that prints.\<close>

definition exchange :: "bool \<Rightarrow> nat \<Rightarrow> nat \<Rightarrow> u8 list list \<Rightarrow> u8 list list" where
  "exchange reverse i j ls =
     (let cmp = strcmp_bytes (ls ! i) (ls ! j)
      in if reverse \<and> cmp < 0 \<or> \<not> reverse \<and> cmp > 0 then ls[i := ls ! j, j := ls ! i] else ls)"

definition sort_lines :: "bool \<Rightarrow> u8 list list \<Rightarrow> u8 list list" where
  "sort_lines reverse ls = fold (\<lambda>i. fold (exchange reverse i) [Suc i..<length ls]) [0..<length ls] ls"

fun print_lines :: "bool \<Rightarrow> u8 list option \<Rightarrow> u8 list list \<Rightarrow> u8 list" where
  "print_lines unique prev [] = []"
| "print_lines unique prev (l # ls) =
     (if unique \<and> (case prev of None \<Rightarrow> False | Some p \<Rightarrow> strcmp_bytes l p = 0) then [] else l @ [10]) @ print_lines unique (Some l) ls"

text \<open>\<open>main\<close>: \<open>files\<close> gives the contents of a file that can be opened. The output, or the message of an error.\<close>

definition sort_main :: "(u8 list \<Rightarrow> u8 list option) \<Rightarrow> u8 list list \<Rightarrow> u8 list \<Rightarrow> string + u8 list" where
  "sort_main files argv inp =
     (case sort_flags argv False False None of
        Inl a \<Rightarrow> Inl ''unknown flag''
      | Inr (unique, reverse, filename) \<Rightarrow>
          (case filename of
             None \<Rightarrow> Inr (print_lines unique None (sort_lines reverse (read_stdin MAXLINES inp)))
           | Some f \<Rightarrow> (case files f of
                          None \<Rightarrow> Inl ''cannot open''
                        | Some d \<Rightarrow> Inr (print_lines unique None (sort_lines reverse (take MAXLINES (read_file d)))))))"

text \<open>\<open>wc\<close>: lines, words and characters, counted byte by byte in 32 bits.\<close>

definition is_space :: "u8 \<Rightarrow> bool" where
  "is_space c \<longleftrightarrow> c \<in> {32, 13, 9, 10, 11}"

fun wc_step :: "u8 \<Rightarrow> u32 \<times> u32 \<times> u32 \<times> bool \<Rightarrow> u32 \<times> u32 \<times> u32 \<times> bool" where
  "wc_step ch (l, w, c, inword) =
     (let c1 = c + 1; l1 = (if ch = 10 then l + 1 else l)
      in if is_space ch then (l1, w, c1, False)
         else if \<not> inword then (l1, w + 1, c1, True) else (l1, w, c1, inword))"

definition wc :: "u8 list \<Rightarrow> u32 \<times> u32 \<times> u32" where
  "wc inp = (case fold wc_step inp (0, 0, 0, False) of (l, w, c, _) \<Rightarrow> (l, w, c))"

section \<open>Comparing strings\<close>

lemma strcmp_bytes_less:
  "0 \<notin> set p \<Longrightarrow> 0 \<notin> set q \<Longrightarrow> (strcmp_bytes p q < 0 \<longleftrightarrow> p < q) \<and> (strcmp_bytes p q = 0 \<longleftrightarrow> p = q)"
  by (induction p q rule: strcmp_bytes.induct) (auto simp: word_less_alt word_uint_eq_iff, simp_all add: order_less_le)

lemma strcmp_bytes_greater: "0 \<notin> set p \<Longrightarrow> 0 \<notin> set q \<Longrightarrow> 0 < strcmp_bytes p q \<longleftrightarrow> q < p"
  using strcmp_bytes_less [of p q] by (metis linorder_less_linear order_less_asym)

text \<open>\<open>strcmp\<close> of the library, on two strings in memory.\<close>

lemma strcmp_memory:
  assumes "rd_bytes m p (length xs) = xs" "rd_bytes m q (length ys) = ys" "0 \<notin> set xs" "0 \<notin> set ys"
    "m (p + of_nat (length xs)) = 0" "m (q + of_nat (length ys)) = 0"
  shows "strcmp m p q = Some (strcmp_bytes xs ys)"
  using assms
proof (induction xs ys arbitrary: p q rule: strcmp_bytes.induct)
  case (4 c xs d ys)
  have h: "m p = c" "m q = d" "rd_bytes m (p + 1) (length xs) = xs" "rd_bytes m (q + 1) (length ys) = ys"
    using "4.prems"(1,2) by (simp_all add: rd_bytes_Suc)
  show ?case
  proof (cases "c = d")
    case True
    then have "strcmp m (p + 1) (q + 1) = Some (strcmp_bytes xs ys)" using "4.IH" "4.prems" h by (simp add: add.assoc)
    then show ?thesis using True h "4.prems"(3) by (subst strcmp.simps) simp
  next
    case False
    then show ?thesis using h by (subst strcmp.simps) simp
  qed
qed (auto simp: strcmp.simps rd_bytes_Suc)


section \<open>The exchange sort\<close>

text \<open>Sorting by a total order \<open>le\<close>: the inner loop brings the least line of the rest to place \<open>i\<close>.\<close>

definition exch :: "('a \<Rightarrow> 'a \<Rightarrow> bool) \<Rightarrow> nat \<Rightarrow> nat \<Rightarrow> 'a list \<Rightarrow> 'a list" where
  "exch le i j xs = (if le (xs ! i) (xs ! j) then xs else xs[i := xs ! j, j := xs ! i])"

definition exch_sort :: "('a \<Rightarrow> 'a \<Rightarrow> bool) \<Rightarrow> 'a list \<Rightarrow> 'a list" where
  "exch_sort le xs = fold (\<lambda>i. fold (exch le i) [Suc i..<length xs]) [0..<length xs] xs"

lemma length_exch [simp]: "length (exch le i j xs) = length xs"
  by (simp add: exch_def)

lemma mset_exch: "i < length xs \<Longrightarrow> j < length xs \<Longrightarrow> mset (exch le i j xs) = mset xs"
  by (simp add: exch_def mset_swap)

lemma inner_loop:
  assumes tot: "\<And>x y. le x y \<or> le y x" and tr: "\<And>x y z. le x y \<Longrightarrow> le y z \<Longrightarrow> le x z"
    and n: "i < n" "n \<le> length xs"
  defines "ys \<equiv> fold (exch le i) [Suc i..<n] xs"
  shows "length ys = length xs \<and> mset ys = mset xs \<and> take i ys = take i xs \<and> set (drop i ys) = set (drop i xs)
    \<and> (\<forall>k. i \<le> k \<longrightarrow> k < n \<longrightarrow> le (ys ! i) (ys ! k))"
  using n unfolding ys_def
proof (induction n)
  case (Suc n)
  show ?case
  proof (cases "i = n")
    case True
    then show ?thesis using tot by (auto simp: le_Suc_eq less_Suc_eq)
  next
    case False
    define zs where "zs = fold (exch le i) [Suc i..<n] xs"
    have i: "i < n" using False Suc.prems by simp
    then have Z: "length zs = length xs" "mset zs = mset xs" "take i zs = take i xs" "set (drop i zs) = set (drop i xs)"
        "\<And>k. i \<le> k \<Longrightarrow> k < n \<Longrightarrow> le (zs ! i) (zs ! k)"
      using Suc unfolding zs_def by simp_all
    have y: "fold (exch le i) [Suc i..<Suc n] xs = exch le i n zs" using i by (simp add: zs_def)
    have ln: "i < length zs" "n < length zs" using Suc.prems i Z(1) by simp_all
    let ?ys = "exch le i n zs"
    have t: "take i ?ys = take i zs" using i by (simp add: exch_def)
    have m: "mset ?ys = mset zs" using ln by (rule mset_exch)
    have "mset (drop i ?ys) = mset (drop i zs)"
      using m t by (metis add_left_cancel append_take_drop_id mset_append)
    then have s: "set (drop i ?ys) = set (drop i zs)" by (metis set_mset_mset)
    have "le (?ys ! i) (?ys ! k)" if "i \<le> k" "k < Suc n" for k
    proof (cases "le (zs ! i) (zs ! n)")
      case True
      then show ?thesis using Z(5) [of k] that by (cases "k = n") (auto simp: exch_def)
    next
      case False
      then have nle: "le (zs ! n) (zs ! i)" using tot by blast
      have "?ys ! i = zs ! n" "?ys ! n = zs ! i" "k \<noteq> i \<Longrightarrow> k \<noteq> n \<Longrightarrow> ?ys ! k = zs ! k"
        using False ln i by (simp_all add: exch_def)
      then show ?thesis using nle tot tr [OF nle Z(5)] that by (metis less_SucE)
    qed
    then show ?thesis unfolding y using Z t m s by simp
  qed
qed simp


lemma exch_sort_sorted:
  assumes tot: "\<And>x y. le x y \<or> le y x" and tr: "\<And>x y z. le x y \<Longrightarrow> le y z \<Longrightarrow> le x z"
  shows "mset (exch_sort le xs) = mset xs \<and> sorted_wrt le (exch_sort le xs)"
proof -
  have "n \<le> length xs \<Longrightarrow> (let ys = fold (\<lambda>i. fold (exch le i) [Suc i..<length xs]) [0..<n] xs in length ys = length xs \<and> mset ys = mset xs
      \<and> sorted_wrt le (take n ys) \<and> (\<forall>x \<in> set (take n ys). \<forall>y \<in> set (drop n ys). le x y))" for n
  proof (induction n)
    case (Suc n)
    define ys where "ys = fold (\<lambda>i. fold (exch le i) [Suc i..<length xs]) [0..<n] xs"
    define zs where "zs = fold (exch le n) [Suc n..<length xs] ys"
    have Y: "length ys = length xs" "mset ys = mset xs" "sorted_wrt le (take n ys)" "\<forall>x \<in> set (take n ys). \<forall>y \<in> set (drop n ys). le x y"
      using Suc unfolding ys_def by (simp_all add: Let_def)
    have n: "n < length ys" using Suc.prems Y(1) by simp
    have Z: "length zs = length ys" "mset zs = mset ys" "take n zs = take n ys" "set (drop n zs) = set (drop n ys)"
        "\<And>k. n \<le> k \<Longrightarrow> k < length ys \<Longrightarrow> le (zs ! n) (zs ! k)"
      using inner_loop [of le n "length ys" ys, OF tot tr n order_refl] Y(1) unfolding zs_def by auto
    have tk: "take (Suc n) zs = take n ys @ [zs ! n]" using n Z(1,3) by (simp add: take_Suc_conv_app_nth)
    have mem: "zs ! n \<in> set (drop n ys)" using n Z(1) Cons_nth_drop_Suc [of n zs] by (metis Z(4) list.set_intros(1))
    have "le (zs ! n) y" if y: "y \<in> set (drop (Suc n) zs)" for y
    proof -
      obtain k where "k < length zs - Suc n" "y = zs ! (Suc n + k)" using y n Z(1) by (auto simp: in_set_conv_nth)
      then show ?thesis using Z(1,5) by simp
    qed
    moreover have "set (drop (Suc n) zs) \<subseteq> set (drop n ys)" using Z(4) set_drop_subset_set_drop [of n "Suc n" zs] by auto
    ultimately show ?case using Y Z tk mem unfolding zs_def ys_def by (auto simp: Let_def sorted_wrt_append)
  qed simp
  from this [of "length xs"] show ?thesis by (auto simp: exch_sort_def Let_def)
qed

lemma sort_lines_exch:
  assumes "\<forall>l \<in> set ls. 0 \<notin> set l"
  shows "sort_lines r ls = exch_sort (if r then (\<ge>) else (\<le>)) ls"
proof -
  let ?le = "if r then (\<ge>) else (\<le>) :: u8 list \<Rightarrow> _"
  have ex: "exchange r i j xs = exch ?le i j xs" if "set xs = set ls" "i < length xs" "j < length xs" for i j xs
  proof -
    have "0 \<notin> set (xs ! i)" "0 \<notin> set (xs ! j)" using assms that nth_mem by metis+
    then show ?thesis using strcmp_bytes_less [of "xs ! i" "xs ! j"] strcmp_bytes_greater [of "xs ! i" "xs ! j"]
      by (auto simp: exchange_def exch_def Let_def)
  qed
  have keep: "set (exch ?le i j xs) = set xs" if "i < length xs" "j < length xs" for i j xs
    using mset_exch [OF that] by (metis set_mset_mset)
  have inner: "fold (exchange r i) js xs = fold (exch ?le i) js xs \<and> set (fold (exch ?le i) js xs) = set ls \<and> length (fold (exch ?le i) js xs) = length xs"
    if "set xs = set ls" "i < length xs" "\<forall>j \<in> set js. j < length xs" for i js xs
    using that by (induction js arbitrary: xs) (simp_all add: ex keep)
  have "fold (\<lambda>i. fold (exchange r i) [Suc i..<n]) is xs = fold (\<lambda>i. fold (exch ?le i) [Suc i..<n]) is xs"
    if "set xs = set ls" "length xs = n" "\<forall>i \<in> set is. i < n" for "is" n xs
    using that by (induction "is" arbitrary: xs) (simp_all add: inner)
  then show ?thesis unfolding sort_lines_def exch_sort_def by simp
qed

lemma sort_lines_sort:
  assumes "\<forall>l \<in> set ls. 0 \<notin> set l"
  shows "sort_lines False ls = sort ls" "sort_lines True ls = rev (sort ls)"
proof -
  have "mset (exch_sort (\<le>) ls) = mset ls \<and> sorted_wrt (\<le>) (exch_sort (\<le>) ls)" by (rule exch_sort_sorted) auto
  then show "sort_lines False ls = sort ls" using sort_lines_exch [OF assms, of False] by (metis properties_for_sort)
  have "mset (exch_sort (\<ge>) ls) = mset ls \<and> sorted_wrt (\<ge>) (exch_sort (\<ge>) ls)" by (rule exch_sort_sorted) auto
  then have "mset (rev (exch_sort (\<ge>) ls)) = mset ls" "sorted (rev (exch_sort (\<ge>) ls))" by (simp_all add: sorted_wrt_rev)
  then show "sort_lines True ls = rev (sort ls)" using sort_lines_exch [OF assms, of True] by (metis properties_for_sort rev_rev_ident)
qed


section \<open>Reading and printing\<close>

lemma cut_buf_no_nul: "0 \<notin> set l \<Longrightarrow> 0 \<notin> set p \<Longrightarrow> \<forall>x \<in> set (cut_buf l p). 0 \<notin> set x"
  by (induction l p rule: cut_buf.induct) auto

lemma read_file_no_nul: "\<forall>x \<in> set (read_file inp). 0 \<notin> set x"
proof (induction inp rule: read_file.induct)
  case (1 inp)
  have "0 \<notin> set (takeWhile (\<lambda>c. c \<noteq> 0) (take (MAXLEN - 1) inp))" by (auto dest: set_takeWhileD)
  then show ?case using 1 cut_buf_no_nul [of "[]"] by (subst read_file.simps) auto
qed

text \<open>A file that fits in one buffer is read line by line.\<close>

lemma cut_buf_lines:
  "\<forall>x \<in> set ls. 10 \<notin> set x \<Longrightarrow> cut_buf [] (concat (map (\<lambda>l. l @ [10]) ls)) = ls"
proof (induction ls)
  case (Cons l ls)
  have "cut_buf acc (l @ 10 # r) = (rev acc @ l) # cut_buf [] r" if "10 \<notin> set l" for acc l r
    using that by (induction l arbitrary: acc) auto
  then show ?case using Cons by simp
qed simp

lemma print_all: "print_lines False p ls = concat (map (\<lambda>l. l @ [10]) ls)"
  by (induction ls arbitrary: p) auto

lemma print_unique:
  assumes "\<forall>l \<in> set ls. 0 \<notin> set l"
  shows "print_lines True None ls = concat (map (\<lambda>l. l @ [10]) (remdups_adj ls))"
proof -
  have "print_lines True (Some p) ls = concat (map (\<lambda>l. l @ [10]) (tl (remdups_adj (p # ls))))"
    if "0 \<notin> set p" "\<forall>l \<in> set ls. 0 \<notin> set l" for p ls
    using that
  proof (induction ls arbitrary: p)
    case (Cons l ls)
    then have "strcmp_bytes l p = 0 \<longleftrightarrow> l = p" using strcmp_bytes_less [of l p] by simp
    then show ?case using Cons by (auto simp: remdups_adj_Cons split: list.splits)
  qed simp
  then show ?thesis using assms by (cases ls) (auto simp: remdups_adj_Cons split: list.splits)
qed


lemma distinct_remdups_sorted: "sorted xs \<Longrightarrow> distinct (remdups_adj xs)" for xs :: "'a::linorder list"
  by (induction xs rule: remdups_adj.induct) (auto simp: order_antisym)

lemma remdups_adj_sort: "remdups_adj (sort xs) = sorted_list_of_set (set xs)" for xs :: "'a::linorder list"
proof (rule sorted_distinct_set_unique)
  show "sorted (remdups_adj (sort xs))" by (simp add: sorted_remdups_adj)
  show "distinct (remdups_adj (sort xs))" by (simp add: distinct_remdups_sorted)
qed simp_all

text \<open>
  C29. \<open>sort\<close> of a file prints its lines in the order of \<open>strcmp\<close>, or in the opposite order with \<open>-r\<close>, each once with \<open>-u\<close>: the two loops that exchange lines
  compute the sorted permutation of the lines that were read, and the comparison with the line before leaves exactly one of equal lines.
\<close>

theorem sort_prints_sorted:
  assumes "sort_flags argv False False None = Inr (u, r, Some f)" "files f = Some d"
  defines "ls \<equiv> take MAXLINES (read_file d)"
  shows "sort_main files argv inp =
    Inr (concat (map (\<lambda>l. l @ [10]) ((if r then rev else id) (if u then sorted_list_of_set (set ls) else sort ls))))"
proof -
  have nul: "\<forall>l \<in> set ls. 0 \<notin> set l" using read_file_no_nul [of d] by (auto simp: ls_def dest: in_set_takeD)
  have sl: "sort_lines r ls = (if r then rev else id) (sort ls)" using sort_lines_sort [OF nul] by simp
  then have "\<forall>l \<in> set (sort_lines r ls). 0 \<notin> set l" using nul by simp
  then have pu: "print_lines True None (sort_lines r ls) = concat (map (\<lambda>l. l @ [10]) (remdups_adj (sort_lines r ls)))" by (rule print_unique)
  have "remdups_adj (sort_lines r ls) = (if r then rev else id) (sorted_list_of_set (set ls))"
    unfolding sl by (simp add: remdups_adj_rev remdups_adj_sort)
  moreover have "sort_main files argv inp = Inr (print_lines u None (sort_lines r ls))" by (simp add: sort_main_def assms(1,2) ls_def)
  ultimately show ?thesis using pu by (cases u) (simp_all add: print_all sl)
qed

theorem sort_prints_sorted_witness:
  "sort_main (\<lambda>_. Some [98, 10, 97, 10, 98, 10]) [[45, 117], [45, 114], [102]] [] = Inr [98, 10, 97, 10]"
proof -
  let ?d = "[98, 10, 97, 10, 98, 10] :: u8 list"
  have f: "sort_flags [[45, 117], [45, 114], [102]] False False None = Inr (True, True, Some [102])" by (simp add: is_flag_def)
  have "read_file ?d = [[98], [97], [98]]" by (simp add: read_file.simps)
  then show ?thesis using sort_prints_sorted [OF f, of "\<lambda>_. Some ?d" ?d "[]"] by (simp add: insert_commute)
qed

text \<open>Without a file name the array is always filled, with empty lines where the input has ended.\<close>

lemma gets_line_end: "gets_line n [] = ([], [])"
  by (cases n) simp_all

lemma read_stdin_pads: "length (read_stdin n inp) = n" "read_stdin n [] = replicate n []"
  by (induction n arbitrary: inp) (auto simp: gets_line_end split: prod.splits)

section \<open>Counting\<close>

text \<open>The words of the input: the characters that are not a blank and follow a blank or the beginning.\<close>

fun word_starts :: "bool \<Rightarrow> u8 list \<Rightarrow> nat" where
  "word_starts inword [] = 0"
| "word_starts inword (c # cs) = (if is_space c then word_starts False cs else (if inword then 0 else 1) + word_starts True cs)"

lemma wc_counts:
  "fold wc_step inp (l, w, c, b) =
     (l + of_nat (count_list inp 10), w + of_nat (word_starts b inp), c + of_nat (length inp),
      if inp = [] then b else \<not> is_space (last inp))"
  by (induction inp arbitrary: l w c b) (auto simp: is_space_def Let_def)

end
