(* ===== verification/Grep.thy ===== *)
theory Grep
  imports Kprelude
begin

text \<open>
  \<^verbatim>\<open>user/grep.c\<close>: the regular expression matcher and the loop over the lines of a file. A C string is the
  list of its bytes before the NUL. The matcher is compared with the languages of the expressions,
  the loop with the list of lines, for every way in which \<open>read\<close> may cut the input.
\<close>

section \<open>The matcher\<close>

text \<open>Characters: 42 is \<open>*\<close>, 46 is \<open>.\<close>, 36 is \<open>$\<close>, 94 is \<open>^\<close>.\<close>

function matchhere :: "u8 list \<Rightarrow> u8 list \<Rightarrow> bool"
  and matchstar :: "u8 \<Rightarrow> u8 list \<Rightarrow> u8 list \<Rightarrow> bool" where
  "matchhere re tx =
     (case re of
        [] \<Rightarrow> True
      | r # re1 \<Rightarrow>
          (case re1 of
             s # re2 \<Rightarrow> if s = 42 then matchstar r re2 tx
                        else (case tx of [] \<Rightarrow> False | c # tx1 \<Rightarrow> if r = 46 \<or> r = c then matchhere re1 tx1 else False)
           | [] \<Rightarrow> if r = 36 then tx = []
                   else (case tx of [] \<Rightarrow> False | c # tx1 \<Rightarrow> if r = 46 \<or> r = c then matchhere re1 tx1 else False)))"
| "matchstar c re tx =
     (if matchhere re tx then True
      else (case tx of [] \<Rightarrow> False | d # tx1 \<Rightarrow> if d = c \<or> c = 46 then matchstar c re tx1 else False))"
  by pat_completeness auto
termination
  by (relation "measure (\<lambda>x. case x of Inl (re, tx) \<Rightarrow> 2 * (length re + length tx) | Inr (c, re, tx) \<Rightarrow> 2 * (length re + length tx) + 1)")
     auto

declare matchhere.simps [simp del] matchstar.simps [simp del]

fun match_from :: "u8 list \<Rightarrow> u8 list \<Rightarrow> bool" where
  "match_from re [] = matchhere re []"
| "match_from re (c # tx) = (if matchhere re (c # tx) then True else match_from re tx)"

definition match :: "u8 list \<Rightarrow> u8 list \<Rightarrow> bool" where
  "match re tx = (if re \<noteq> [] \<and> hd re = 94 then matchhere (tl re) tx else match_from re tx)"

section \<open>Lines\<close>

text \<open>
  The inner loop: \<open>strchr\<close> looks for a newline before the next NUL. The result is what is written
  and what is left in the buffer.
\<close>

fun cut_line :: "u8 list \<Rightarrow> (u8 list \<times> u8 list) option" where
  "cut_line [] = None"
| "cut_line (c # tx) =
     (if c = 0 then None else if c = 10 then Some ([], tx)
      else (case cut_line tx of None \<Rightarrow> None | Some (line, rest) \<Rightarrow> Some (c # line, rest)))"

lemma cut_line_shorter: "cut_line tx = Some (line, rest) \<Longrightarrow> length rest < length tx"
  by (induction tx arbitrary: line) (auto split: if_splits option.splits)

function scan_lines :: "u8 list \<Rightarrow> u8 list \<Rightarrow> u8 list \<times> u8 list" where
  "scan_lines pattern p =
     (case cut_line p of
        None \<Rightarrow> ([], p)
      | Some (line, rest) \<Rightarrow>
          (case scan_lines pattern rest of
             (out, left) \<Rightarrow> ((if match pattern line then line @ [10] else []) @ out, left)))"
  by pat_completeness auto
termination
  by (relation "measure (\<lambda>(pattern, p). length p)") (auto dest: cut_line_shorter)

declare scan_lines.simps [simp del]

lemma scan_left: "length (snd (scan_lines pattern p)) \<le> length p"
proof (induction pattern p rule: scan_lines.induct)
  case (1 pattern p)
  show ?case
  proof (cases "cut_line p")
    case None
    then show ?thesis by (simp add: scan_lines.simps [of pattern p])
  next
    case (Some lr)
    obtain line rest where lr: "lr = (line, rest)" by (cases lr)
    have "length (snd (scan_lines pattern rest)) \<le> length rest" using 1 Some lr by blast
    then show ?thesis using Some lr cut_line_shorter [of p line rest]
      by (auto simp: scan_lines.simps [of pattern p] split: prod.splits)
  qed
qed







section \<open>Languages\<close>

text \<open>
  The expression as a list of items; the last one may be the end of the line. \<open>lang\<close> is the set of strings the
  items before it stand for.
\<close>

datatype item = One u8 | Rep u8 | Eol

definition sat :: "u8 \<Rightarrow> u8 set" where
  "sat r = (if r = 46 then UNIV else {r})"

fun items :: "u8 list \<Rightarrow> item list" where
  "items [] = []"
| "items [r] = (if r = 36 then [Eol] else [One r])"
| "items (r # s # re) = (if s = 42 then Rep r # items re else One r # items (s # re))"

fun lang :: "item list \<Rightarrow> u8 list set" where
  "lang [] = {[]}"
| "lang (One r # is) = {c # w | c w. c \<in> sat r \<and> w \<in> lang is}"
| "lang (Rep r # is) = {v @ w | v w. set v \<subseteq> sat r \<and> w \<in> lang is}"
| "lang (Eol # is) = lang is"

definition at_end :: "item list \<Rightarrow> bool" where
  "at_end is \<longleftrightarrow> is \<noteq> [] \<and> last is = Eol"

text \<open>A prefix of the text is in the language, and all of it if the expression ends with \<open>$\<close>.\<close>

definition prefix_in :: "item list \<Rightarrow> u8 list \<Rightarrow> bool" where
  "prefix_in is tx \<longleftrightarrow> (\<exists>u v. tx = u @ v \<and> u \<in> lang is \<and> (at_end is \<longrightarrow> v = []))"

lemma prefix_in_Nil [simp]: "prefix_in [] tx"
  by (simp add: prefix_in_def at_end_def)

lemma prefix_in_Eol: "prefix_in [Eol] tx \<longleftrightarrow> tx = []"
  by (auto simp: prefix_in_def at_end_def)

lemma at_end_item: "at_end (One r # is) = at_end is" "at_end (Rep r # is) = at_end is"
  by (auto simp: at_end_def)

lemma prefix_inI: "u \<in> lang is \<Longrightarrow> (at_end is \<longrightarrow> v = []) \<Longrightarrow> prefix_in is (u @ v)"
  by (auto simp: prefix_in_def)

lemma prefix_in_One:
  "prefix_in (One r # is) tx \<longleftrightarrow> (\<exists>c tx1. tx = c # tx1 \<and> c \<in> sat r \<and> prefix_in is tx1)"
proof
  assume "prefix_in (One r # is) tx"
  then obtain u v where "tx = u @ v" "u \<in> lang (One r # is)" "at_end (One r # is) \<longrightarrow> v = []" unfolding prefix_in_def by blast
  then obtain c w where "tx = (c # w) @ v" "c \<in> sat r" "w \<in> lang is" "at_end (One r # is) \<longrightarrow> v = []" by auto
  then show "\<exists>c tx1. tx = c # tx1 \<and> c \<in> sat r \<and> prefix_in is tx1" by (auto simp: at_end_item intro: prefix_inI)
next
  assume "\<exists>c tx1. tx = c # tx1 \<and> c \<in> sat r \<and> prefix_in is tx1"
  then obtain c u v where "tx = c # u @ v" "c \<in> sat r" "u \<in> lang is" "at_end is \<longrightarrow> v = []" by (auto simp: prefix_in_def)
  then show "prefix_in (One r # is) tx" unfolding prefix_in_def
    by (intro exI [of _ "c # u"] exI [of _ v]) (auto simp: at_end_item)
qed

lemma prefix_in_Rep:
  "prefix_in (Rep r # is) tx \<longleftrightarrow> (\<exists>v w. tx = v @ w \<and> set v \<subseteq> sat r \<and> prefix_in is w)"
proof
  assume "prefix_in (Rep r # is) tx"
  then obtain u v where "tx = u @ v" "u \<in> lang (Rep r # is)" "at_end (Rep r # is) \<longrightarrow> v = []" unfolding prefix_in_def by blast
  then obtain x y where "tx = (x @ y) @ v" "set x \<subseteq> sat r" "y \<in> lang is" "at_end (Rep r # is) \<longrightarrow> v = []" by auto
  then show "\<exists>v w. tx = v @ w \<and> set v \<subseteq> sat r \<and> prefix_in is w"
    by (intro exI [of _ x] exI [of _ "y @ v"]) (simp add: at_end_item prefix_inI)
next
  assume "\<exists>v w. tx = v @ w \<and> set v \<subseteq> sat r \<and> prefix_in is w"
  then obtain x u v where "tx = x @ u @ v" "set x \<subseteq> sat r" "u \<in> lang is" "at_end is \<longrightarrow> v = []" by (auto simp: prefix_in_def)
  then show "prefix_in (Rep r # is) tx" unfolding prefix_in_def
    by (intro exI [of _ "x @ u"] exI [of _ v]) (auto simp: at_end_item)
qed

lemma prefix_in_step:
  "prefix_in (One r # is) tx \<longleftrightarrow> (case tx of [] \<Rightarrow> False | c # tx1 \<Rightarrow> (r = 46 \<or> r = c) \<and> prefix_in is tx1)"
  unfolding prefix_in_One by (cases tx) (auto simp: sat_def)

lemma matchhere_matchstar_lang:
  "matchhere re tx \<longleftrightarrow> prefix_in (items re) tx"
  "matchstar c re tx \<longleftrightarrow> (\<exists>v w. tx = v @ w \<and> set v \<subseteq> sat c \<and> prefix_in (items re) w)"
proof (induction re tx and c re tx rule: matchhere_matchstar.induct)
  case (1 re tx)
  consider "re = []" | r where "re = [r]" | r s re2 where "re = r # s # re2" by (metis neq_Nil_conv)
  then show ?case
  proof cases
    case 1
    then show ?thesis by (simp add: matchhere.simps)
  next
    case 2
    then show ?thesis using "1.IH" by (subst matchhere.simps) (auto simp: prefix_in_Eol prefix_in_step split: list.splits)
  next
    case 3
    then show ?thesis using "1.IH" by (subst matchhere.simps) (auto simp: prefix_in_Rep prefix_in_step split: list.splits)
  qed
next
  case (2 c re tx)
  let ?P = "\<lambda>tx. \<exists>v w. tx = v @ w \<and> set v \<subseteq> sat c \<and> prefix_in (items re) w"
  have step: "?P tx \<longleftrightarrow> prefix_in (items re) tx \<or> (\<exists>d tx1. tx = d # tx1 \<and> (d = c \<or> c = 46) \<and> ?P tx1)"
  proof
    assume "?P tx"
    then obtain v w where v: "tx = v @ w" "set v \<subseteq> sat c" "prefix_in (items re) w" by blast
    then show "prefix_in (items re) tx \<or> (\<exists>d tx1. tx = d # tx1 \<and> (d = c \<or> c = 46) \<and> ?P tx1)"
      by (cases v) (auto simp: sat_def split: if_splits)
  next
    assume "prefix_in (items re) tx \<or> (\<exists>d tx1. tx = d # tx1 \<and> (d = c \<or> c = 46) \<and> ?P tx1)"
    then show "?P tx"
    proof
      assume "prefix_in (items re) tx"
      then show ?thesis by (intro exI [of _ "[]"] exI [of _ tx]) simp
    next
      assume "\<exists>d tx1. tx = d # tx1 \<and> (d = c \<or> c = 46) \<and> ?P tx1"
      then obtain d v w where "tx = d # v @ w" "d = c \<or> c = 46" "set v \<subseteq> sat c" "prefix_in (items re) w" by blast
      then show ?thesis by (intro exI [of _ "d # v"] exI [of _ w]) (auto simp: sat_def)
    qed
  qed
  show ?case unfolding step using 2 by (subst matchstar.simps) (auto split: list.splits)
qed

lemma match_from_iff: "match_from re tx \<longleftrightarrow> (\<exists>p q. tx = p @ q \<and> matchhere re q)"
proof (induction tx)
  case (Cons c tx)
  have "(\<exists>p q. c # tx = p @ q \<and> matchhere re q) \<longleftrightarrow> matchhere re (c # tx) \<or> (\<exists>p q. tx = p @ q \<and> matchhere re q)"
    by (auto simp: Cons_eq_append_conv)
  then show ?case using Cons by simp
qed simp

text \<open>
  C30. \<open>match\<close> decides the language of the expression: it accepts a text exactly when some part of it is in the
  language, a part that starts at the beginning if the expression starts with \<open>^\<close>, and ends at the end
  if it ends with \<open>$\<close>. Both functions always return.
\<close>

theorem match_decides_language:
  "match re tx \<longleftrightarrow>
     (let anchored = re \<noteq> [] \<and> hd re = 94; is = items (if anchored then tl re else re)
      in \<exists>p u v. tx = p @ u @ v \<and> (anchored \<longrightarrow> p = []) \<and> u \<in> lang is \<and> (at_end is \<longrightarrow> v = []))"
proof (cases "re \<noteq> [] \<and> hd re = 94")
  case True
  then show ?thesis by (simp add: match_def matchhere_matchstar_lang prefix_in_def Let_def)
next
  case False
  have "match re tx \<longleftrightarrow> (\<exists>p q. tx = p @ q \<and> prefix_in (items re) q)"
    unfolding match_def if_not_P [OF False] match_from_iff matchhere_matchstar_lang ..
  then show ?thesis unfolding Let_def if_not_P [OF False] prefix_in_def using False by blast
qed

theorem match_decides_language_witness:
  "match [97, 46, 42] [98, 97, 99] \<and> (\<exists>p u v. [98, 97, 99] = p @ u @ v \<and> u \<in> lang (items [97, 46, 42])) \<and> \<not> match [94, 97] [98, 97, 99]"
proof -
  have m: "match [97, 46, 42] [98, 97, 99]" "\<not> match [94, 97] [98, 97, 99]" by code_simp+
  then show ?thesis using match_decides_language [of "[97, 46, 42]" "[98, 97, 99]"] by (auto simp: Let_def)
qed

section \<open>Lines of a file\<close>












end
