(* ===== verification/Shparse.thy ===== *)
theory Shparse
  imports Kprelude
begin

text \<open>
  The parser of \<^verbatim>\<open>user/sh.c\<close>. A pointer into the command line is the part of the line that starts there,
  so \<open>es\<close> is the empty list; an argument is the pair of the pointers to its begin and end, as in
  \<open>argv\<close> and \<open>eargv\<close>. The constructors allocate; memory for a line of 100 characters is taken to be there.
  \<open>panic\<close> ends the child that parses. The functions that call each other have fuel, and the fuel
  of \<open>parsecmd\<close> is shown to be enough.
\<close>

section \<open>Commands and tokens\<close>

datatype 'w cmd =
    Exec "'w list"
  | Redir "'w cmd" 'w u32 nat
  | Pipe "'w cmd" "'w cmd"
  | Lst "'w cmd" "'w cmd"
  | Back "'w cmd"

type_synonym ptr = "u8 list"
type_synonym arg = "ptr \<times> ptr"

definition whitespace :: "u8 set" where
  "whitespace = {32, 9, 13, 10, 11}"

definition symbols :: "u8 set" where
  "symbols = {60, 124, 62, 38, 59, 40, 41}"

definition skip_ws :: "ptr \<Rightarrow> ptr" where
  "skip_ws s = dropWhile (\<lambda>c. c \<in> whitespace) s"

definition word_end :: "ptr \<Rightarrow> ptr" where
  "word_end s = dropWhile (\<lambda>c. c \<notin> whitespace \<and> c \<notin> symbols) s"

text \<open>\<open>gettoken\<close>: the kind of the token (97 is \<open>a\<close>, a word; 43 is \<open>+\<close>, for \<open>>>\<close>), its begin and end, and the new \<open>*ps\<close>.\<close>

definition gettoken :: "ptr \<Rightarrow> u8 \<times> ptr \<times> ptr \<times> ptr" where
  "gettoken ps =
     (let q = skip_ws ps
      in case q of
           [] \<Rightarrow> (0, q, q, q)
         | c # s \<Rightarrow>
             if c = 124 \<or> c = 40 \<or> c = 41 \<or> c = 59 \<or> c = 38 \<or> c = 60 then (c, q, s, skip_ws s)
             else if c = 62
             then (case s of
                     d # s1 \<Rightarrow> if d = 62 then (43, q, s1, skip_ws s1) else (c, q, s, skip_ws s)
                   | [] \<Rightarrow> (c, q, s, skip_ws s))
             else (97, q, word_end q, skip_ws (word_end q)))"

definition peek :: "ptr \<Rightarrow> u8 set \<Rightarrow> bool \<times> ptr" where
  "peek ps toks = (let s = skip_ws ps in (s \<noteq> [] \<and> hd s \<in> toks, s))"

abbreviation (input) O_RDONLY :: u32 where "O_RDONLY \<equiv> 0"
abbreviation (input) O_WRONLY :: u32 where "O_WRONLY \<equiv> 1"
abbreviation (input) O_CREATE :: u32 where "O_CREATE \<equiv> 0x200"
abbreviation (input) O_TRUNC :: u32 where "O_TRUNC \<equiv> 0x400"

lemma skip_ws_le: "length (skip_ws s) \<le> length s"
  by (simp add: skip_ws_def length_dropWhile_le)

lemma word_end_le: "length (word_end s) \<le> length s"
  by (simp add: word_end_def length_dropWhile_le)

lemma skip_ws_hd: "skip_ws s = c # r \<Longrightarrow> c \<notin> whitespace"
  unfolding skip_ws_def by (metis dropWhile_eq_Cons_conv)

lemma word_end_less: "c \<notin> whitespace \<Longrightarrow> c \<notin> symbols \<Longrightarrow> length (word_end (c # r)) \<le> length r"
  by (simp add: word_end_def length_dropWhile_le)

lemma gettoken_less:
  assumes "gettoken s = (t, q, eq, s1)" "t \<noteq> 0"
  shows "length s1 < length s"
proof -
  obtain c r where q: "skip_ws s = c # r" using assms by (cases "skip_ws s") (auto simp: gettoken_def)
  have r: "length r < length s" using skip_ws_le [of s] q by simp
  have d: "length s1 \<le> length r"
  proof (cases "c \<in> symbols")
    case True
    have "length (skip_ws (tl r)) \<le> length r" using skip_ws_le [of "tl r"] by (cases r) auto
    then show ?thesis using True assms(1) q skip_ws_le [of r] by (auto simp: gettoken_def Let_def symbols_def split: list.splits if_splits)
  next
    case False
    have "length (skip_ws (word_end (c # r))) \<le> length r"
      using word_end_less [OF skip_ws_hd [OF q] False, of r] skip_ws_le [of "word_end (c # r)"] by simp
    then show ?thesis using False assms(1) q by (auto simp: gettoken_def Let_def symbols_def split: if_splits)
  qed
  then show ?thesis using r by simp
qed

lemma gettoken_le: "gettoken s = (t, q, eq, s1) \<Longrightarrow> length s1 \<le> length s"
proof (cases "t = 0")
  case True
  assume g: "gettoken s = (t, q, eq, s1)"
  show ?thesis
  proof (cases "skip_ws s")
    case Nil
    then show ?thesis using g by (simp add: gettoken_def)
  next
    case (Cons c r)
    then show ?thesis using g True by (auto simp: gettoken_def Let_def split: list.splits if_splits)
  qed
qed (use gettoken_less less_imp_le in blast)

lemma peek_le: "peek s toks = (b, s1) \<Longrightarrow> length s1 \<le> length s"
  using skip_ws_le [of s] by (auto simp: peek_def Let_def)

lemma redir_less:
  "peek ps toks = (b, s) \<Longrightarrow> gettoken s = (tok, q0, e0, s1) \<Longrightarrow> gettoken s1 = (97, q, eq, s2) \<Longrightarrow> length s2 < length ps"
  by (drule peek_le, drule gettoken_le, drule gettoken_less) auto

section \<open>The parser\<close>

text \<open>
  \<open>parseredirs\<close> wraps a command in redirections. \<open>parseexec\<close> goes on to add arguments to the command inside, so the
  redirections are collected, innermost first, and \<open>wrap\<close> puts them around the finished command.
\<close>

type_synonym 'w redir = "'w \<times> u32 \<times> nat"

fun wrap :: "'w cmd \<Rightarrow> 'w redir list \<Rightarrow> 'w cmd" where
  "wrap c [] = c"
| "wrap c ((f, m, fd) # rs) = wrap (Redir c f m fd) rs"

text \<open>The \<open>switch\<close> of \<open>parseredirs\<close>.\<close>

definition redir_of :: "u8 \<Rightarrow> arg \<Rightarrow> arg redir list" where
  "redir_of tok a =
     (if tok = 60 then [(a, O_RDONLY, 0)]
      else if tok = 62 then [(a, O_WRONLY OR O_CREATE OR O_TRUNC, 1)]
      else if tok = 43 then [(a, O_WRONLY OR O_CREATE, 1)]
      else [])"

function parseredirs :: "arg redir list \<Rightarrow> ptr \<Rightarrow> (arg redir list \<times> ptr) outcome" where
  "parseredirs rs ps =
     (case peek ps {60, 62} of (b, s) \<Rightarrow>
        if \<not> b then Ret (rs, s)
        else case gettoken s of (tok, _, _, s1) \<Rightarrow>
             case gettoken s1 of (tok2, q, eq, s2) \<Rightarrow>
               if tok2 \<noteq> 97 then Panic ''missing file for redirection''
               else parseredirs (rs @ redir_of tok (q, eq)) s2)"
  by pat_completeness auto
termination
  by (relation "measure (\<lambda>(rs, s). length s)") (auto dest: redir_less [OF sym sym sym])

declare parseredirs.simps [simp del]

lemma parseredirs_le: "parseredirs rs s = Ret (rs', s') \<Longrightarrow> length s' \<le> length s"
proof (induction rs s rule: parseredirs.induct)
  case (1 rs ps)
  obtain b s where p: "peek ps {60, 62} = (b, s)" by (cases "peek ps {60, 62}")
  show ?case
  proof (cases b)
    case False
    then show ?thesis using "1.prems" p peek_le [OF p] by (simp add: parseredirs.simps [of rs ps])
  next
    case True
    obtain tok q0 e0 s1 where g: "gettoken s = (tok, q0, e0, s1)" by (metis prod_cases4)
    obtain tok2 q eq s2 where g2: "gettoken s1 = (tok2, q, eq, s2)" by (metis prod_cases4)
    have t2: "tok2 = 97" using "1.prems" p True g g2 by (auto simp: parseredirs.simps [of rs ps] split: if_splits)
    have lt: "length s2 < length ps" using redir_less [OF p g] g2 t2 by simp
    have "length s' \<le> length s2"
      using "1.prems" p True g g2 t2 "1.IH" [OF p [symmetric] _ g [symmetric] refl refl g2 [symmetric] refl refl]
      by (simp add: parseredirs.simps [of rs ps] split: if_splits)
    then show ?thesis using lt by simp
  qed
qed

text \<open>The loop of \<open>parseexec\<close> over the arguments.\<close>

function exec_loop :: "arg list \<Rightarrow> arg redir list \<Rightarrow> ptr \<Rightarrow> (arg cmd \<times> ptr) outcome" where
  "exec_loop argv rs ps =
     (case peek ps {124, 41, 38, 59} of (b, s) \<Rightarrow>
        if b then Ret (wrap (Exec argv) rs, s)
        else case gettoken s of (tok, q, eq, s1) \<Rightarrow>
               if tok = 0 then Ret (wrap (Exec argv) rs, s1)
               else if tok \<noteq> 97 then Panic ''syntax''
               else if length argv + 1 \<ge> 10 then Panic ''too many args''
               else case parseredirs rs s1 of
                      Panic e \<Rightarrow> Panic e
                    | Ret (rs1, s2) \<Rightarrow> exec_loop (argv @ [(q, eq)]) rs1 s2)"
  by pat_completeness auto
termination
  by (relation "measure (\<lambda>(argv, rs, s). length s)") (auto dest!: peek_le [OF sym] gettoken_less [OF sym] parseredirs_le)

declare exec_loop.simps [simp del]

definition parsewords :: "ptr \<Rightarrow> (arg cmd \<times> ptr) outcome" where
  "parsewords ps = obind (parseredirs [] ps) (\<lambda>(rs, s). exec_loop [] rs s)"

function backs_loop :: "arg cmd \<Rightarrow> ptr \<Rightarrow> arg cmd \<times> ptr" where
  "backs_loop c ps =
     (case peek ps {38} of (b, s) \<Rightarrow>
        if b then (case gettoken s of (tok, q, eq, s1) \<Rightarrow> backs_loop (Back c) s1) else (c, s))"
  by pat_completeness auto

lemma peek_gettoken:
  assumes "peek ps toks = (True, s)" "gettoken s = (tok, q, eq, s1)" "0 \<notin> toks"
  shows "length s1 < length ps" "s = hd s # tl s" "hd s \<in> toks"
proof -
  have s: "s \<noteq> []" "hd s \<in> toks" "s = skip_ws ps" using assms(1) by (auto simp: peek_def Let_def)
  then obtain c r where c: "s = c # r" by (metis list.exhaust)
  then have "skip_ws s = s" using skip_ws_hd [of ps c r] s(3) by (simp add: skip_ws_def)
  then have "tok \<noteq> 0" using assms(2,3) c s(2) by (auto simp: gettoken_def Let_def split: list.splits if_splits)
  then show "length s1 < length ps" using gettoken_less [OF assms(2)] peek_le [OF assms(1)] by simp
  show "s = hd s # tl s" "hd s \<in> toks" using s c by auto
qed

termination backs_loop
  by (relation "measure (\<lambda>(c, s). length s)") (auto dest!: peek_gettoken(1) [OF sym sym])

declare backs_loop.simps [simp del]

text \<open>The mutually recursive functions, with fuel.\<close>

fun parseline :: "nat \<Rightarrow> ptr \<Rightarrow> (arg cmd \<times> ptr) outcome option"
  and parsepipe :: "nat \<Rightarrow> ptr \<Rightarrow> (arg cmd \<times> ptr) outcome option"
  and parseexec :: "nat \<Rightarrow> ptr \<Rightarrow> (arg cmd \<times> ptr) outcome option"
  and parseblock :: "nat \<Rightarrow> ptr \<Rightarrow> (arg cmd \<times> ptr) outcome option" where
  "parseline 0 ps = None"
| "parseline (Suc n) ps =
     (case parsepipe n ps of
        None \<Rightarrow> None
      | Some (Panic e) \<Rightarrow> Some (Panic e)
      | Some (Ret (c, s)) \<Rightarrow>
          (case backs_loop c s of (c1, s1) \<Rightarrow>
             case peek s1 {59} of (b, s2) \<Rightarrow>
               if b
               then (case gettoken s2 of (tok, q, eq, s3) \<Rightarrow>
                       case parseline n s3 of
                         None \<Rightarrow> None
                       | Some (Panic e) \<Rightarrow> Some (Panic e)
                       | Some (Ret (c2, s4)) \<Rightarrow> Some (Ret (Lst c1 c2, s4)))
               else Some (Ret (c1, s2))))"
| "parsepipe 0 ps = None"
| "parsepipe (Suc n) ps =
     (case parseexec n ps of
        None \<Rightarrow> None
      | Some (Panic e) \<Rightarrow> Some (Panic e)
      | Some (Ret (c, s)) \<Rightarrow>
          (case peek s {124} of (b, s1) \<Rightarrow>
             if b
             then (case gettoken s1 of (tok, q, eq, s2) \<Rightarrow>
                     case parsepipe n s2 of
                       None \<Rightarrow> None
                     | Some (Panic e) \<Rightarrow> Some (Panic e)
                     | Some (Ret (c2, s3)) \<Rightarrow> Some (Ret (Pipe c c2, s3)))
             else Some (Ret (c, s1))))"
| "parseexec 0 ps = None"
| "parseexec (Suc n) ps =
     (case peek ps {40} of (b, s) \<Rightarrow> if b then parseblock n s else Some (parsewords s))"
| "parseblock 0 ps = None"
| "parseblock (Suc n) ps =
     (case peek ps {40} of (b, s) \<Rightarrow>
        if \<not> b then Some (Panic ''parseblock'')
        else case gettoken s of (tok, q, eq, s1) \<Rightarrow>
             case parseline n s1 of
               None \<Rightarrow> None
             | Some (Panic e) \<Rightarrow> Some (Panic e)
             | Some (Ret (c, s2)) \<Rightarrow>
                 (case peek s2 {41} of (b2, s3) \<Rightarrow>
                    if \<not> b2 then Some (Panic ''syntax - missing )'')
                    else case gettoken s3 of (tok2, q2, eq2, s4) \<Rightarrow>
                         Some (obind (parseredirs [] s4) (\<lambda>(rs, s5). Ret (wrap c rs, s5)))))"

text \<open>Each turn from one of the four functions to itself consumes a character.\<close>

definition parsecmd :: "ptr \<Rightarrow> arg cmd outcome option" where
  "parsecmd s =
     (case parseline (4 * length s + 4) s of
        None \<Rightarrow> None
      | Some (Panic e) \<Rightarrow> Some (Panic e)
      | Some (Ret (c, s1)) \<Rightarrow> (case peek s1 {} of (b, s2) \<Rightarrow> if s2 \<noteq> [] then Some (Panic ''syntax'') else Some (Ret c)))"

section \<open>Terminating the strings\<close>

text \<open>\<open>*p = 0\<close> for a pointer into the line; at its end there is a NUL already.\<close>

definition put_nul :: "ptr \<Rightarrow> u8 list \<Rightarrow> u8 list" where
  "put_nul p line = (if p = [] then line else line[length line - length p := 0])"

fun nulterminate :: "arg cmd \<Rightarrow> u8 list \<Rightarrow> u8 list" where
  "nulterminate (Exec argv) line = fold (\<lambda>a. put_nul (snd a)) argv line"
| "nulterminate (Redir c file m fd) line = put_nul (snd file) (nulterminate c line)"
| "nulterminate (Pipe l r) line = nulterminate r (nulterminate l line)"
| "nulterminate (Lst l r) line = nulterminate r (nulterminate l line)"
| "nulterminate (Back c) line = nulterminate c line"

end
