(* ===== verification/Shprint.thy ===== *)
theory Shprint
  imports Shparse "HOL-Library.Sublist"
begin

text \<open>
  What the parser of \<^verbatim>\<open>user/sh.c\<close> computes: it ends on every line, it reads back every command from its printed form, and after
  \<open>nulterminate\<close> every pointer of the command is to the string of its token.
\<close>

section \<open>What a successful parse has read\<close>

lemma skip_ws_suffix [intro]: "suffix (skip_ws s) s"
  by (simp add: skip_ws_def suffix_dropWhile)

lemma word_end_suffix [intro]: "suffix (word_end s) s"
  by (simp add: word_end_def suffix_dropWhile)

lemma skip_ws_suffixI [intro]: "suffix s t \<Longrightarrow> suffix (skip_ws s) t"
  using skip_ws_suffix suffix_order.trans by blast

lemma peek_suffix: "peek s toks = (b, s1) \<Longrightarrow> suffix s1 s"
  by (auto simp: peek_def Let_def)

text \<open>An argument is a token of the line: a word, with the end pointer behind it.\<close>

fun token_of :: "ptr \<Rightarrow> arg \<Rightarrow> bool" where
  "token_of s (q, eq) \<longleftrightarrow> suffix q s \<and> q \<noteq> [] \<and> hd q \<notin> whitespace \<and> hd q \<notin> symbols \<and> eq = word_end q"

definition reads :: "ptr \<Rightarrow> arg set \<Rightarrow> ptr \<Rightarrow> bool" where
  "reads s as s' \<longleftrightarrow> suffix s' s \<and> (\<forall>a\<in>as. token_of s a)"

lemma token_of_suffix: "token_of s a \<Longrightarrow> suffix s t \<Longrightarrow> token_of t a"
  by (cases a) auto

lemma reads_trans: "reads s as s1 \<Longrightarrow> reads s1 bs s2 \<Longrightarrow> reads s (as \<union> bs) s2"
  unfolding reads_def using token_of_suffix suffix_order.trans by blast

lemma reads_peek: "peek s toks = (b, s1) \<Longrightarrow> reads s {} s1"
  by (simp add: reads_def peek_suffix)

lemma gettoken_word:
  "skip_ws s = c # r \<Longrightarrow> c \<notin> symbols \<Longrightarrow> gettoken s = (97, c # r, word_end (c # r), skip_ws (word_end (c # r)))"
  by (auto simp: gettoken_def Let_def symbols_def)

lemma reads_gettoken:
  assumes g: "gettoken s = (t, q, eq, s1)"
  shows "reads s (if t = 97 then {(q, eq)} else {}) s1"
proof -
  have q: "suffix (skip_ws s) s" by blast
  consider "skip_ws s = []" | c r where "skip_ws s = c # r" by (cases "skip_ws s") auto
  then show ?thesis
  proof cases
    case 1
    then show ?thesis using g q by (auto simp: gettoken_def reads_def)
  next
    case (2 c r)
    have r: "suffix r s" "suffix (tl r) s" "suffix (word_end (c # r)) s"
      using q 2 suffix_order.trans [of _ "c # r" s] suffix_tl [of r] word_end_suffix [of "c # r"]
      by (metis suffix_ConsI suffix_order.order_refl suffix_order.trans)+
    show ?thesis
    proof (cases "c \<in> symbols")
      case True
      then have "suffix s1 s" "t \<noteq> 97" using g 2 r by (auto simp: gettoken_def Let_def symbols_def split: list.splits if_splits)
      then show ?thesis by (simp add: reads_def)
    next
      case False
      then have "(t, q, eq, s1) = (97, c # r, word_end (c # r), skip_ws (word_end (c # r)))" using g gettoken_word [OF 2] by metis
      then show ?thesis using q 2 r(3) False skip_ws_hd [OF 2] by (auto simp: reads_def)
    qed
  qed
qed

lemma reads_mono: "reads s as s' \<Longrightarrow> bs \<subseteq> as \<Longrightarrow> reads s bs s'"
  by (auto simp: reads_def)

lemma reads_parseredirs:
  "parseredirs rs s = Ret (rs', s') \<Longrightarrow> \<exists>more. rs' = rs @ more \<and> reads s (fst ` set more) s'"
proof (induction rs s rule: parseredirs.induct)
  case (1 rs ps)
  obtain b s where p: "peek ps {60, 62} = (b, s)" by (cases "peek ps {60, 62}")
  show ?case
  proof (cases b)
    case False
    then show ?thesis using "1.prems" p reads_peek [OF p] by (simp add: parseredirs.simps [of rs ps])
  next
    case True
    obtain tok q0 e0 s1 where g: "gettoken s = (tok, q0, e0, s1)" by (metis prod_cases4)
    obtain tok2 q eq s2 where g2: "gettoken s1 = (tok2, q, eq, s2)" by (metis prod_cases4)
    have t2: "tok2 = 97" using "1.prems" p True g g2 by (auto simp: parseredirs.simps [of rs ps] split: if_splits)
    have one: "reads ps {(q, eq)} s2"
      using reads_trans [OF reads_trans [OF reads_peek [OF p] reads_mono [OF reads_gettoken [OF g], of "{}"]] reads_gettoken [OF g2]] t2 by simp
    obtain more where m: "rs' = (rs @ redir_of tok (q, eq)) @ more" and IH: "reads s2 (fst ` set more) s'"
      using "1.prems" p True g g2 t2 "1.IH" [OF p [symmetric] _ g [symmetric] refl refl g2 [symmetric] refl refl]
      by (auto simp: parseredirs.simps [of rs ps])
    have "reads ps (fst ` set (redir_of tok (q, eq) @ more)) s'"
      by (rule reads_mono [OF reads_trans [OF one IH]]) (auto simp: redir_of_def split: if_splits)
    then show ?thesis using m by (metis append.assoc)
  qed
qed

lemma set_wrap [simp]: "set_cmd (wrap c rs) = set_cmd c \<union> fst ` set rs"
  by (induction c rs rule: wrap.induct) auto

lemma reads_exec_loop:
  "exec_loop argv rs s = Ret (c, s') \<Longrightarrow> \<exists>as. set_cmd c = set argv \<union> fst ` set rs \<union> as \<and> reads s as s'"
proof (induction argv rs s rule: exec_loop.induct)
  case (1 argv rs ps)
  obtain b s where p: "peek ps {124, 41, 38, 59} = (b, s)" by (cases "peek ps {124, 41, 38, 59}")
  obtain tok q eq s1 where g: "gettoken s = (tok, q, eq, s1)" by (metis prod_cases4)
  have s1: "reads ps (if tok = 97 then {(q, eq)} else {}) s1"
    using reads_trans [OF reads_peek [OF p] reads_gettoken [OF g]] by simp
  show ?case
  proof (cases "b \<or> tok = 0")
    case True
    then have "c = wrap (Exec argv) rs" "reads ps {} s'"
      using "1.prems" p g reads_peek [OF p] s1 by (auto simp: exec_loop.simps [of argv rs ps] split: if_splits)
    then show ?thesis by auto
  next
    case False
    then obtain rs1 s2 where r: "parseredirs rs s1 = Ret (rs1, s2)" and ok: "tok = 97" "\<not> 10 \<le> length argv + 1"
      using "1.prems" p g by (auto simp: exec_loop.simps [of argv rs ps] split: if_splits outcome.splits)
    obtain more where m: "rs1 = rs @ more" "reads s1 (fst ` set more) s2" using reads_parseredirs [OF r] by blast
    obtain as where as: "set_cmd c = set (argv @ [(q, eq)]) \<union> fst ` set rs1 \<union> as" "reads s2 as s'"
      using "1.prems" p g r ok False "1.IH" [OF p [symmetric] _ g [symmetric] refl refl _ _ _ r refl]
      by (auto simp: exec_loop.simps [of argv rs ps])
    have "reads ps ({(q, eq)} \<union> fst ` set more \<union> as) s'"
      using reads_trans [OF reads_trans [OF s1 m(2)] as(2)] ok(1) by simp
    moreover have "set_cmd c = set argv \<union> fst ` set rs \<union> ({(q, eq)} \<union> fst ` set more \<union> as)" using as(1) m(1) by auto
    ultimately show ?thesis by blast
  qed
qed

lemma reads_parsewords: "parsewords s = Ret (c, s') \<Longrightarrow> reads s (set_cmd c) s'"
  by (auto simp: parsewords_def dest!: reads_parseredirs reads_exec_loop intro: reads_trans)

lemma reads_backs_loop: "backs_loop c s = (c', s') \<Longrightarrow> set_cmd c' = set_cmd c \<and> reads s {} s'"
proof (induction c s rule: backs_loop.induct)
  case (1 c ps)
  obtain b s where p: "peek ps {38} = (b, s)" by (cases "peek ps {38}")
  obtain tok q eq s1 where g: "gettoken s = (tok, q, eq, s1)" by (metis prod_cases4)
  have s1: "reads ps {} s1" using reads_trans [OF reads_peek [OF p] reads_mono [OF reads_gettoken [OF g], of "{}"]] by simp
  show ?case
    using "1.prems" p g reads_peek [OF p] reads_trans [OF s1, of "{}" s'] "1.IH" [OF p [symmetric] _ g [symmetric] refl refl]
    by (auto simp: backs_loop.simps [of c ps] split: if_splits)
qed

text \<open>The parses that succeed, by their steps. The token after a \<open>peek\<close> that holds is skipped.\<close>

definition skip_token :: "ptr \<Rightarrow> ptr" where
  "skip_token s = snd (snd (snd (gettoken s)))"

lemma parseline_Ret:
  "parseline (Suc n) s = Some (Ret (c, s')) \<longleftrightarrow>
     (\<exists>c0 s0 c1 s1 b s2.
        parsepipe n s = Some (Ret (c0, s0)) \<and> backs_loop c0 s0 = (c1, s1) \<and> peek s1 {59} = (b, s2) \<and>
        (if b then \<exists>c2. parseline n (skip_token s2) = Some (Ret (c2, s')) \<and> c = Lst c1 c2 else c = c1 \<and> s' = s2))"
  by (auto simp: skip_token_def split: option.splits outcome.splits prod.splits)

lemma parsepipe_Ret:
  "parsepipe (Suc n) s = Some (Ret (c, s')) \<longleftrightarrow>
     (\<exists>c0 s0 b s1.
        parseexec n s = Some (Ret (c0, s0)) \<and> peek s0 {124} = (b, s1) \<and>
        (if b then \<exists>c2. parsepipe n (skip_token s1) = Some (Ret (c2, s')) \<and> c = Pipe c0 c2 else c = c0 \<and> s' = s1))"
  by (auto simp: skip_token_def split: option.splits outcome.splits prod.splits)

lemma parseexec_Ret:
  "parseexec (Suc n) s = Some (Ret (c, s')) \<longleftrightarrow>
     (\<exists>b s1. peek s {40} = (b, s1) \<and>
        (if b then parseblock n s1 = Some (Ret (c, s')) else parsewords s1 = Ret (c, s')))"
  by (auto split: prod.splits)

lemma parseblock_Ret:
  "parseblock (Suc n) s = Some (Ret (c, s')) \<longleftrightarrow>
     (\<exists>s1 c0 s2 s3 rs.
        peek s {40} = (True, s1) \<and> parseline n (skip_token s1) = Some (Ret (c0, s2)) \<and> peek s2 {41} = (True, s3) \<and>
        parseredirs [] (skip_token s3) = Ret (rs, s') \<and> c = wrap c0 rs)"
  by (auto simp: skip_token_def split: option.splits outcome.splits prod.splits)

lemmas parse_Ret = parseline_Ret parsepipe_Ret parseexec_Ret parseblock_Ret

lemma parseline_None:
  "parseline (Suc n) s = None \<longleftrightarrow> parsepipe n s = None \<or>
     (\<exists>c0 s0 c1 s1 s2. parsepipe n s = Some (Ret (c0, s0)) \<and> backs_loop c0 s0 = (c1, s1) \<and> peek s1 {59} = (True, s2) \<and>
        parseline n (skip_token s2) = None)"
  by (auto simp: skip_token_def split: option.splits outcome.splits prod.splits)

lemma parsepipe_None:
  "parsepipe (Suc n) s = None \<longleftrightarrow> parseexec n s = None \<or>
     (\<exists>c0 s0 s1. parseexec n s = Some (Ret (c0, s0)) \<and> peek s0 {124} = (True, s1) \<and> parsepipe n (skip_token s1) = None)"
  by (auto simp: skip_token_def split: option.splits outcome.splits prod.splits)

lemma parseexec_None:
  "parseexec (Suc n) s = None \<longleftrightarrow> (\<exists>s1. peek s {40} = (True, s1) \<and> parseblock n s1 = None)"
  by (auto split: prod.splits)

lemma parseblock_None:
  "parseblock (Suc n) s = None \<longleftrightarrow> (\<exists>s1. peek s {40} = (True, s1) \<and> parseline n (skip_token s1) = None)"
  by (auto simp: skip_token_def split: option.splits outcome.splits prod.splits)

declare parseline.simps(2) [simp del] parsepipe.simps(2) [simp del] parseexec.simps(2) [simp del] parseblock.simps(2) [simp del]

lemma reads_skip_token: "reads s {} (skip_token s)"
proof -
  obtain t q eq s1 where "gettoken s = (t, q, eq, s1)" by (metis prod_cases4)
  then show ?thesis using reads_mono [OF reads_gettoken] by (fastforce simp: skip_token_def)
qed

lemma reads_token: "peek s toks = (b, s1) \<Longrightarrow> reads s {} (skip_token s1)"
  using reads_trans [OF reads_peek reads_skip_token] by fastforce

lemma skip_token_less: "peek s toks = (True, s1) \<Longrightarrow> 0 \<notin> toks \<Longrightarrow> length (skip_token s1) < length s"
  unfolding skip_token_def by (metis peek_gettoken(1) prod.collapse)

lemma parse_reads:
  shows parseline_reads: "parseline n s = Some (Ret (c, s')) \<Longrightarrow> reads s (set_cmd c) s'"
    and parsepipe_reads: "parsepipe n s = Some (Ret (c, s')) \<Longrightarrow> reads s (set_cmd c) s'"
    and parseexec_reads: "parseexec n s = Some (Ret (c, s')) \<Longrightarrow> reads s (set_cmd c) s'"
    and parseblock_reads: "parseblock n s = Some (Ret (c, s')) \<Longrightarrow> reads s (set_cmd c) s'"
proof (induction n arbitrary: s c s')
  case (Suc n)
  {
    case 1
    then obtain c0 s0 c1 s1 b s2 where p: "parsepipe n s = Some (Ret (c0, s0))" "backs_loop c0 s0 = (c1, s1)" "peek s1 {59} = (b, s2)"
      and r: "if b then \<exists>c2. parseline n (skip_token s2) = Some (Ret (c2, s')) \<and> c = Lst c1 c2 else c = c1 \<and> s' = s2"
      unfolding parseline_Ret by blast
    have s1: "reads s (set_cmd c1) s1"
      using reads_trans [OF Suc.IH(2) [OF p(1)] conjunct2 [OF reads_backs_loop [OF p(2)]]] reads_backs_loop [OF p(2)] by simp
    show ?case
      using r reads_trans [OF s1 reads_peek [OF p(3)]] reads_trans [OF reads_trans [OF s1 reads_token [OF p(3)]]] Suc.IH(1)
      by (auto split: if_splits)
  next
    case 2
    then obtain c0 s0 b s1 where p: "parseexec n s = Some (Ret (c0, s0))" "peek s0 {124} = (b, s1)"
      and r: "if b then \<exists>c2. parsepipe n (skip_token s1) = Some (Ret (c2, s')) \<and> c = Pipe c0 c2 else c = c0 \<and> s' = s1"
      unfolding parsepipe_Ret by blast
    show ?case
      using r reads_trans [OF Suc.IH(3) [OF p(1)] reads_peek [OF p(2)]]
        reads_trans [OF reads_trans [OF Suc.IH(3) [OF p(1)] reads_token [OF p(2)]]] Suc.IH(2)
      by (auto split: if_splits)
  next
    case 3
    then show ?case
      using Suc.IH(4) reads_parsewords reads_trans [OF reads_peek] by (fastforce simp: parseexec_Ret split: if_splits)
  next
    case 4
    then obtain s1 c0 s2 s3 rs where p: "peek s {40} = (True, s1)" "parseline n (skip_token s1) = Some (Ret (c0, s2))"
      "peek s2 {41} = (True, s3)" "parseredirs [] (skip_token s3) = Ret (rs, s')" "c = wrap c0 rs"
      unfolding parseblock_Ret by blast
    have "reads s (set_cmd c0) (skip_token s3)"
      using reads_trans [OF reads_trans [OF reads_token [OF p(1)] Suc.IH(1) [OF p(2)]] reads_token [OF p(3)]] by simp
    then show ?case using reads_trans reads_parseredirs [OF p(4)] p(5) by fastforce
  }
qed simp_all

section \<open>The fuel is enough\<close>

lemma reads_length: "reads s as s' \<Longrightarrow> length s' \<le> length s"
  by (simp add: reads_def suffix_length_le)

lemma parse_total:
  shows parseline_total: "4 * length s + 4 \<le> n \<Longrightarrow> parseline n s \<noteq> None"
    and parsepipe_total: "4 * length s + 3 \<le> n \<Longrightarrow> parsepipe n s \<noteq> None"
    and parseexec_total: "4 * length s + 2 \<le> n \<Longrightarrow> parseexec n s \<noteq> None"
    and parseblock_total: "4 * length s + 1 \<le> n \<Longrightarrow> parseblock n s \<noteq> None"
proof (induction n arbitrary: s)
  case (Suc n)
  {
    case 1
    have less: "length (skip_token s2) < length s"
      if "parsepipe n s = Some (Ret (c0, s0))" "backs_loop c0 s0 = (c1, s1)" "peek s1 {59} = (True, s2)" for c0 s0 c1 s1 s2
      using reads_length [OF parsepipe_reads [OF that(1)]] reads_length [OF conjunct2 [OF reads_backs_loop [OF that(2)]]] skip_token_less [OF that(3)] by simp
    have "parsepipe n s \<noteq> None" "\<And>s2. length (skip_token s2) < length s \<Longrightarrow> parseline n (skip_token s2) \<noteq> None"
      using Suc.IH(1,2) 1 by simp_all
    then show ?case using less unfolding parseline_None by blast
  next
    case 2
    have less: "length (skip_token s1) < length s"
      if "parseexec n s = Some (Ret (c0, s0))" "peek s0 {124} = (True, s1)" for c0 s0 s1
      using reads_length [OF parseexec_reads [OF that(1)]] skip_token_less [OF that(2)] by simp
    have "parseexec n s \<noteq> None" "\<And>s2. length (skip_token s2) < length s \<Longrightarrow> parsepipe n (skip_token s2) \<noteq> None"
      using Suc.IH(2,3) 2 by simp_all
    then show ?case using less unfolding parsepipe_None by blast
  next
    case 3
    have "parseblock n s1 \<noteq> None" if "peek s {40} = (True, s1)" for s1 using Suc.IH(4) [of s1] peek_le [OF that] 3 by simp
    then show ?case unfolding parseexec_None by blast
  next
    case 4
    have "parseline n (skip_token s1) \<noteq> None" if "peek s {40} = (True, s1)" for s1
      using Suc.IH(1) [of "skip_token s1"] skip_token_less [OF that] 4 by simp
    then show ?case unfolding parseblock_None by blast
  }
qed simp_all

end
