(* ===== verification/Shround.thy ===== *)
theory Shround
  imports Shprint
begin

text \<open>
  The round trip of the shell's parser: a command printed as a line, with parentheses where the grammar needs them, is parsed
  back to the same command. The printer is part of the specification, not of the program.
\<close>

section \<open>Printing a command\<close>

type_synonym bytes = "u8 list"

fun arg_text :: "arg \<Rightarrow> bytes" where
  "arg_text (q, eq) = take (length q - length eq) q"

definition cmd_text :: "arg cmd \<Rightarrow> bytes cmd" where
  "cmd_text = map_cmd arg_text"

definition word_char :: "u8 \<Rightarrow> bool" where
  "word_char c \<longleftrightarrow> c \<notin> whitespace \<and> c \<notin> symbols \<and> c \<noteq> 0"

definition is_word :: "bytes \<Rightarrow> bool" where
  "is_word w \<longleftrightarrow> w \<noteq> [] \<and> list_all word_char w"

definition is_redir :: "bytes redir \<Rightarrow> bool" where
  "is_redir r \<longleftrightarrow> is_word (fst r) \<and> snd r \<in> {(O_RDONLY, 0), (O_WRONLY OR O_CREATE OR O_TRUNC, 1), (O_WRONLY OR O_CREATE, 1)}"

fun wf_cmd :: "bytes cmd \<Rightarrow> bool" where
  "wf_cmd (Exec ws) \<longleftrightarrow> length ws < 10 \<and> list_all is_word ws"
| "wf_cmd (Redir c f m fd) \<longleftrightarrow> wf_cmd c \<and> is_redir (f, m, fd)"
| "wf_cmd (Pipe l r) \<longleftrightarrow> wf_cmd l \<and> wf_cmd r"
| "wf_cmd (Lst l r) \<longleftrightarrow> wf_cmd l \<and> wf_cmd r"
| "wf_cmd (Back c) \<longleftrightarrow> wf_cmd c"

definition show_redir :: "bytes redir \<Rightarrow> bytes" where
  "show_redir r =
     (if fst (snd r) = O_RDONLY then [60] else if fst (snd r) = O_WRONLY OR O_CREATE OR O_TRUNC then [62] else [62, 62]) @ fst r @ [32]"

definition show_redirs :: "bytes redir list \<Rightarrow> bytes" where
  "show_redirs rs = concat (map show_redir rs)"

definition show_words :: "bytes list \<Rightarrow> bytes" where
  "show_words ws = concat (map (\<lambda>w. w @ [32]) ws)"

definition paren :: "bool \<Rightarrow> bytes \<Rightarrow> bytes" where
  "paren b s = (if b then [40] @ s @ [41] else s)"

text \<open>Level 0 is a line, 1 its first command with the \<open>&\<close> behind it, 2 a pipe, 3 one command of a pipe.\<close>

fun show_cmd :: "nat \<Rightarrow> bytes cmd \<Rightarrow> bytes" where
  "show_cmd l (Exec ws) = show_words ws"
| "show_cmd l (Redir c f m fd) = show_cmd 3 c @ show_redir (f, m, fd)"
| "show_cmd l (Pipe a b) = paren (2 < l) (show_cmd 3 a @ [124] @ show_cmd 2 b)"
| "show_cmd l (Back c) = paren (1 < l) (show_cmd 1 c @ [38])"
| "show_cmd l (Lst a b) = paren (0 < l) (show_cmd 1 a @ [59] @ show_cmd 0 b)"

section \<open>Leading blanks do not matter\<close>

lemma skip_ws_idem [simp]: "skip_ws (skip_ws s) = skip_ws s"
  by (simp add: skip_ws_def dropWhile_idem)

lemma skip_ws_Cons: "skip_ws (c # s) = (if c \<in> whitespace then skip_ws s else c # s)"
  by (simp add: skip_ws_def)

lemma skip_ws_Nil [simp]: "skip_ws [] = []"
  by (simp add: skip_ws_def)

lemma peek_skip_ws [simp]: "peek (skip_ws s) toks = peek s toks"
  by (simp add: peek_def)

lemma gettoken_skip_ws [simp]: "gettoken (skip_ws s) = gettoken s"
  by (simp add: gettoken_def)

lemma parseredirs_skip_ws [simp]: "parseredirs rs (skip_ws s) = parseredirs rs s"
  by (subst (1 2) parseredirs.simps) simp

lemma parsewords_skip_ws [simp]: "parsewords (skip_ws s) = parsewords s"
  by (simp add: parsewords_def)

lemma backs_loop_skip_ws [simp]: "backs_loop c (skip_ws s) = backs_loop c s"
  by (subst (1 2) backs_loop.simps) simp

lemma exec_loop_skip_ws [simp]: "exec_loop av rs (skip_ws s) = exec_loop av rs s"
  by (subst (1 2) exec_loop.simps) simp

lemma parseexec_skip_ws [simp]: "parseexec n (skip_ws s) = parseexec n s"
  by (cases n) (simp_all add: parseexec.simps)

lemma parsepipe_skip_ws [simp]: "parsepipe n (skip_ws s) = parsepipe n s"
  by (cases n) (simp_all add: parsepipe.simps)

lemma parseline_skip_ws [simp]: "parseline n (skip_ws s) = parseline n s"
  by (cases n) (simp_all add: parseline.simps)

section \<open>Tokens of the printed line\<close>

lemma symbol_chars [simp]:
  "c \<in> symbols \<longleftrightarrow> c = 60 \<or> c = 124 \<or> c = 62 \<or> c = 38 \<or> c = 59 \<or> c = 40 \<or> c = 41"
  by (auto simp: symbols_def)

lemma whitespace_chars [simp]: "c \<in> whitespace \<longleftrightarrow> c = 32 \<or> c = 9 \<or> c = 13 \<or> c = 10 \<or> c = 11"
  by (auto simp: whitespace_def)

lemma is_word_Cons: "is_word w \<Longrightarrow> \<exists>c r. w = c # r \<and> word_char c \<and> list_all word_char r"
  by (cases w) (auto simp: is_word_def)

lemma word_end_word: "list_all word_char w \<Longrightarrow> word_end (w @ 32 # k) = 32 # k"
  by (induction w) (auto simp: word_end_def word_char_def)

lemma skip_ws_word: "is_word w \<Longrightarrow> skip_ws (w @ k) = w @ k"
  by (auto dest!: is_word_Cons simp: skip_ws_Cons word_char_def)

lemma skip_ws_blank [simp]: "skip_ws (32 # k) = skip_ws k"
  by (simp add: skip_ws_Cons)

lemma gettoken_is_word:
  assumes "is_word w"
  shows "gettoken (w @ 32 # k) = (97, w @ 32 # k, 32 # k, skip_ws k)"
proof -
  obtain c r where c: "w = c # r" "word_char c" using is_word_Cons [OF assms] by blast
  have "skip_ws (w @ 32 # k) = c # (r @ 32 # k)" using skip_ws_word [OF assms, of "32 # k"] c by simp
  from gettoken_word [OF this] show ?thesis using word_end_word [of w k] assms c by (simp add: is_word_def word_char_def)
qed

lemma peek_is_word: "is_word w \<Longrightarrow> toks \<subseteq> symbols \<Longrightarrow> peek (w @ k) toks = (False, w @ k)"
  using skip_ws_word [of w k] by (auto dest!: is_word_Cons simp: peek_def word_char_def subset_iff)

lemma peek_char: "c \<in> symbols \<Longrightarrow> peek (c # k) toks = (c \<in> toks, c # k)"
  by (auto simp: peek_def skip_ws_Cons)

lemma skip_token_char: "c \<in> symbols \<Longrightarrow> c \<noteq> 62 \<Longrightarrow> skip_token (c # k) = skip_ws k"
  by (auto simp: skip_token_def gettoken_def skip_ws_Cons)

text \<open>What may come behind the printed command.\<close>

definition follow :: "u8 set \<Rightarrow> ptr \<Rightarrow> bool" where
  "follow F k \<longleftrightarrow> skip_ws k = [] \<or> hd (skip_ws k) \<in> F"

lemma follow_Cons [simp]: "c \<in> symbols \<Longrightarrow> follow F (c # k) \<longleftrightarrow> c \<in> F"
  by (auto simp: follow_def skip_ws_Cons)

lemma follow_mono: "follow F k \<Longrightarrow> F \<subseteq> G \<Longrightarrow> follow G k"
  by (auto simp: follow_def)

lemma peek_follow: "follow F k \<Longrightarrow> F \<inter> toks = {} \<Longrightarrow> peek k toks = (False, skip_ws k)"
  by (auto simp: follow_def peek_def Let_def)

lemma parseredirs_follow: "follow F k \<Longrightarrow> F \<inter> {60, 62} = {} \<Longrightarrow> parseredirs rs k = Ret (rs, skip_ws k)"
  by (subst parseredirs.simps) (simp add: peek_follow)

section \<open>The parsers on printed commands\<close>

fun redir_text :: "arg redir \<Rightarrow> bytes redir" where
  "redir_text (a, m, fd) = (arg_text a, m, fd)"

lemma cmd_text_simps [simp]:
  "cmd_text (Exec av) = Exec (map arg_text av)"
  "cmd_text (Redir c f m fd) = Redir (cmd_text c) (arg_text f) m fd"
  "cmd_text (Pipe a b) = Pipe (cmd_text a) (cmd_text b)"
  "cmd_text (Lst a b) = Lst (cmd_text a) (cmd_text b)"
  "cmd_text (Back c) = Back (cmd_text c)"
  by (simp_all add: cmd_text_def)

lemma cmd_text_wrap [simp]: "cmd_text (wrap c rs) = wrap (cmd_text c) (map redir_text rs)"
  by (induction c rs rule: wrap.induct) auto

lemma arg_text_word [simp]: "arg_text (w @ k, k) = w"
  by simp

lemma parseredirs_step:
  assumes "is_redir r"
  shows "\<exists>a. redir_text a = r \<and> parseredirs rs (show_redir r @ k) = parseredirs (rs @ [a]) k"
proof -
  obtain w m fd where r: "r = (w, m, fd)" by (cases r)
  have w: "is_word w" using assms r by (simp add: is_redir_def)
  define a where "a = (w @ 32 # k, 32 # k)"
  have g: "gettoken (w @ 32 # k) = (97, w @ 32 # k, 32 # k, skip_ws k)" by (rule gettoken_is_word [OF w])
  have s: "skip_ws (w @ 32 # k) = w @ 32 # k" by (rule skip_ws_word [OF w])
  have hd: "hd (w @ 32 # k) \<noteq> 62" "w @ 32 # k \<noteq> []" using is_word_Cons [OF w] by (auto simp: word_char_def)
  consider "m = O_RDONLY" "fd = 0" | "m = O_WRONLY OR O_CREATE OR O_TRUNC" "fd = 1" | "m = O_WRONLY OR O_CREATE" "fd = 1"
    using assms r by (auto simp: is_redir_def)
  then have "\<exists>tok q e. show_redir r @ k \<noteq> [] \<and> hd (show_redir r @ k) \<in> {60, 62} \<and> skip_ws (show_redir r @ k) = show_redir r @ k \<and>
      gettoken (show_redir r @ k) = (tok, q, e, w @ 32 # k) \<and> redir_of tok a = [(a, m, fd)]"
  proof cases
    case 1
    then show ?thesis using r s by (auto simp: show_redir_def gettoken_def skip_ws_Cons redir_of_def Let_def)
  next
    case 2
    then show ?thesis using r s hd by (intro exI [of _ 62]) (auto simp: show_redir_def gettoken_def skip_ws_Cons redir_of_def Let_def split: list.splits)
  next
    case 3
    then show ?thesis using r s by (auto simp: show_redir_def gettoken_def skip_ws_Cons redir_of_def Let_def)
  qed
  then have "parseredirs rs (show_redir r @ k) = parseredirs (rs @ [(a, m, fd)]) (skip_ws k)"
    by (subst parseredirs.simps) (auto simp: peek_def g a_def Let_def)
  then show ?thesis using r by (intro exI [of _ "(a, m, fd)"]) (simp add: a_def)
qed

lemma parseredirs_show:
  assumes "list_all is_redir rs" "follow F k" "F \<inter> {60, 62} = {}"
  shows "\<exists>as. map redir_text as = rs \<and> parseredirs rs0 (show_redirs rs @ k) = Ret (rs0 @ as, skip_ws k)"
  using assms(1)
proof (induction rs arbitrary: rs0)
  case Nil
  then show ?case using parseredirs_follow [OF assms(2,3)] by (simp add: show_redirs_def)
next
  case (Cons r rs)
  then obtain a where a: "redir_text a = r" "parseredirs rs0 (show_redir r @ show_redirs rs @ k) = parseredirs (rs0 @ [a]) (show_redirs rs @ k)"
    using parseredirs_step [of r rs0 "show_redirs rs @ k"] by auto
  obtain as where "map redir_text as = rs" "parseredirs (rs0 @ [a]) (show_redirs rs @ k) = Ret ((rs0 @ [a]) @ as, skip_ws k)"
    using Cons by fastforce
  then show ?case using a by (intro exI [of _ "a # as"]) (simp add: show_redirs_def)
qed

lemma exec_loop_end:
  assumes "follow {124, 41, 38, 59} k"
  shows "exec_loop av rs k = Ret (wrap (Exec av) rs, skip_ws k)"
proof (cases "skip_ws k")
  case Nil
  then show ?thesis by (subst exec_loop.simps) (simp add: peek_def gettoken_def Let_def)
next
  case (Cons c r)
  then show ?thesis using assms by (subst exec_loop.simps) (simp add: peek_def follow_def Let_def)
qed

lemma parsewords_show:
  assumes "list_all is_redir rs" "follow {124, 41, 38, 59} k"
  shows "list_all is_word ws \<Longrightarrow> length av + length ws < 10 \<Longrightarrow>
    \<exists>as bs. map arg_text as = ws \<and> map redir_text bs = rs \<and>
      obind (parseredirs rs0 (show_words ws @ show_redirs rs @ k)) (\<lambda>(r, s). exec_loop av r s) =
      Ret (wrap (Exec (av @ as)) (rs0 @ bs), skip_ws k)"
proof (induction ws arbitrary: av)
  case Nil
  obtain bs where "map redir_text bs = rs" "parseredirs rs0 (show_redirs rs @ k) = Ret (rs0 @ bs, skip_ws k)"
    using parseredirs_show [OF assms] by fastforce
  then show ?case using exec_loop_end [OF assms(2)] by - (rule exI [of _ "[]"], rule exI [of _ bs], simp add: show_words_def)
next
  case (Cons w ws)
  let ?k = "show_words ws @ show_redirs rs @ k"
  define a where "a = (w @ 32 # ?k, 32 # ?k)"
  have w: "is_word w" using Cons.prems by simp
  have s: "show_words (w # ws) @ show_redirs rs @ k = w @ 32 # ?k" by (simp add: show_words_def)
  have p: "peek (w @ 32 # ?k) toks = (False, w @ 32 # ?k)" if "toks \<subseteq> symbols" for toks by (rule peek_is_word [OF w that])
  have r: "parseredirs rs0 (w @ 32 # ?k) = Ret (rs0, w @ 32 # ?k)" by (subst parseredirs.simps) (simp add: p)
  have e: "exec_loop av rs0 (w @ 32 # ?k) = obind (parseredirs rs0 ?k) (\<lambda>(r, s). exec_loop (av @ [a]) r s)"
    using Cons.prems by (subst exec_loop.simps) (auto simp: p gettoken_is_word [OF w] a_def split: outcome.splits)
  obtain as bs where "map arg_text as = ws" "map redir_text bs = rs"
    "obind (parseredirs rs0 ?k) (\<lambda>(r, s). exec_loop (av @ [a]) r s) = Ret (wrap (Exec ((av @ [a]) @ as)) (rs0 @ bs), skip_ws k)"
    using Cons.IH [of "av @ [a]"] Cons.prems by auto
  then show ?case using e r s by - (rule exI [of _ "a # as"], rule exI [of _ bs], simp add: a_def)
qed

section \<open>The round trip, level by level\<close>

text \<open>If the parse has enough fuel, it gives the command \<open>c\<close> and stops in front of \<open>k\<close>.\<close>

fun yields :: "(arg cmd \<times> ptr) outcome option \<Rightarrow> bytes cmd \<Rightarrow> ptr \<Rightarrow> bool" where
  "yields None c k = True"
| "yields (Some (Panic e)) c k = False"
| "yields (Some (Ret (c', s))) c k = (cmd_text c' = c \<and> s = skip_ws k)"

definition exec_ok :: "bytes cmd \<Rightarrow> bool" where
  "exec_ok c \<longleftrightarrow> (\<forall>n rs k. list_all is_redir rs \<longrightarrow> follow {124, 41, 38, 59} k \<longrightarrow>
     yields (parseexec n (show_cmd 3 c @ show_redirs rs @ k)) (wrap c rs) k)"

definition pipe_ok :: "bytes cmd \<Rightarrow> bool" where
  "pipe_ok c \<longleftrightarrow> (\<forall>n k. follow {41, 38, 59} k \<longrightarrow> yields (parsepipe n (show_cmd 2 c @ k)) c k)"

definition back_ok :: "bytes cmd \<Rightarrow> bool" where
  "back_ok c \<longleftrightarrow> (\<forall>n j k. follow {41, 59} k \<longrightarrow>
     yields (map_option (\<lambda>r. obind r (\<lambda>(c0, s0). Ret (backs_loop c0 s0))) (parsepipe n (show_cmd 1 c @ replicate j 38 @ k))) ((Back ^^ j) c) k)"

definition line_ok :: "bytes cmd \<Rightarrow> bool" where
  "line_ok c \<longleftrightarrow> (\<forall>n k. follow {41} k \<longrightarrow> yields (parseline n (show_cmd 0 c @ k)) c k)"

lemma yields_iff:
  "yields r c k \<longleftrightarrow> (\<forall>x. r = Some x \<longrightarrow> (\<exists>c'. x = Ret (c', skip_ws k) \<and> cmd_text c' = c))"
  by (cases "(r, c, k)" rule: yields.cases) auto

lemma backs_loop_show: "follow {41, 59} k \<Longrightarrow> backs_loop c (replicate j 38 @ k) = ((Back ^^ j) c, skip_ws k)"
proof (induction j arbitrary: c)
  case 0
  then show ?case by (subst backs_loop.simps) (simp add: peek_follow)
next
  case (Suc j)
  then show ?case
    by (subst backs_loop.simps) (simp add: peek_char gettoken_def skip_ws_Cons Let_def funpow_swap1)
qed

lemma cmd_text_Back [simp]: "cmd_text ((Back ^^ j) c) = (Back ^^ j) (cmd_text c)"
  by (induction j) auto

lemma pipe_of_exec:
  assumes "exec_ok c" "show_cmd 2 c = show_cmd 3 c"
  shows "pipe_ok c"
  unfolding pipe_ok_def
proof (intro allI impI)
  fix n k assume k: "follow {41, 38, 59} k"
  show "yields (parsepipe n (show_cmd 2 c @ k)) c k"
  proof (cases n)
    case (Suc m)
    have "yields (parseexec m (show_cmd 3 c @ k)) c k"
      using assms(1) [unfolded exec_ok_def, rule_format, of "[]" k m] follow_mono [OF k, of "{124, 41, 38, 59}"] by (auto simp: show_redirs_def)
    then show ?thesis
      using Suc assms(2) peek_follow [OF k, of "{124}"] by (auto simp: yields_iff parsepipe.simps split: option.splits)
  qed simp
qed

lemma back_of_pipe:
  assumes "pipe_ok c" "show_cmd 1 c = show_cmd 2 c"
  shows "back_ok c"
  unfolding back_ok_def
proof (intro allI impI)
  fix n j k assume k: "follow {41, 59} k"
  have "follow {41, 38, 59} (replicate j 38 @ k)" using follow_mono [OF k, of "{41, 38, 59}"] by (cases j) auto
  then have "yields (parsepipe n (show_cmd 2 c @ replicate j 38 @ k)) c (replicate j 38 @ k)" using assms(1) by (simp add: pipe_ok_def)
  then show "yields (map_option (\<lambda>r. obind r (\<lambda>(c0, s0). Ret (backs_loop c0 s0))) (parsepipe n (show_cmd 1 c @ replicate j 38 @ k))) ((Back ^^ j) c) k"
    using assms(2) backs_loop_show [OF k] by (auto simp: yields_iff)
qed

lemma back_line:
  assumes "back_ok c" "follow {41, 59} k" "parseline n (show_cmd 1 c @ k) \<noteq> None"
  obtains m c' s' where "n = Suc m" "parsepipe m (show_cmd 1 c @ k) = Some (Ret (c', s'))" "\<exists>c1. backs_loop c' s' = (c1, skip_ws k) \<and> cmd_text c1 = c"
proof (cases n)
  case (Suc m)
  have "parsepipe m (show_cmd 1 c @ k) \<noteq> None" by (metis Suc assms(3) parseline_None)
  moreover have "yields (map_option (\<lambda>r. obind r (\<lambda>(c0, s0). Ret (backs_loop c0 s0))) (parsepipe m (show_cmd 1 c @ k))) c k"
    using assms(1,2) by (force simp: back_ok_def dest: spec [of _ 0])
  ultimately show ?thesis using that Suc by (fastforce simp: yields_iff)
qed (use assms(3) in simp)

lemma line_of_back:
  assumes "back_ok c" "show_cmd 0 c = show_cmd 1 c"
  shows "line_ok c"
  unfolding line_ok_def
proof (intro allI impI)
  fix n k assume k: "follow {41} k"
  have k': "follow {41, 59} k" by (rule follow_mono [OF k]) simp
  show "yields (parseline n (show_cmd 0 c @ k)) c k"
  proof (cases "parseline n (show_cmd 1 c @ k)")
    case (Some r)
    then obtain m c' s' c1 where "n = Suc m" "parsepipe m (show_cmd 1 c @ k) = Some (Ret (c', s'))" "backs_loop c' s' = (c1, skip_ws k)" "cmd_text c1 = c"
      using back_line [OF assms(1) k', of n] by (metis option.distinct(1))
    then show ?thesis using assms(2) peek_follow [OF k, of "{59}"] by (simp add: parseline.simps)
  qed (simp add: assms(2))
qed

lemma exec_of_line:
  assumes "line_ok c" "show_cmd 3 c = [40] @ show_cmd 0 c @ [41]"
  shows "exec_ok c"
  unfolding exec_ok_def
proof (intro allI impI)
  fix n rs k assume rs: "list_all is_redir rs" and k: "follow {124, 41, 38, 59} k"
  let ?k = "41 # show_redirs rs @ k"
  obtain as where as: "map redir_text as = rs" "parseredirs [] (show_redirs rs @ k) = Ret (as, skip_ws k)"
    using parseredirs_show [OF rs k, of "[]"] by auto
  have l: "yields (parseline m (show_cmd 0 c @ ?k)) c ?k" for m using assms(1) by (simp add: line_ok_def)
  have sh: "show_cmd 3 c @ show_redirs rs @ k = 40 # show_cmd 0 c @ ?k" using assms(2) by simp
  have "yields (parseblock m (40 # show_cmd 0 c @ ?k)) (wrap c rs) k" for m
  proof (cases m)
    case (Suc i)
    then show ?thesis
      using l [of i] as by (auto simp: parseblock.simps peek_char gettoken_def skip_ws_Cons Let_def yields_iff split: option.splits)
  qed simp
  then show "yields (parseexec n (show_cmd 3 c @ show_redirs rs @ k)) (wrap c rs) k"
    unfolding sh by (cases n) (simp_all add: parseexec.simps peek_char)
qed

lemma exec_ok_Exec:
  assumes "wf_cmd (Exec ws)"
  shows "exec_ok (Exec ws)"
  unfolding exec_ok_def
proof (intro allI impI)
  fix n rs k assume rs: "list_all is_redir rs" and k: "follow {124, 41, 38, 59} k"
  let ?s = "show_words ws @ show_redirs rs @ k"
  obtain as bs where ab: "map arg_text as = ws" "map redir_text bs = rs" "parsewords ?s = Ret (wrap (Exec as) bs, skip_ws k)"
    using parsewords_show [OF rs k, of ws "[]" "[]"] assms by (auto simp: parsewords_def)
  have "peek ?s {40} = (False, skip_ws ?s)"
  proof (cases ws)
    case (Cons w us)
    then show ?thesis using peek_is_word [of w "{40}"] skip_ws_word [of w] assms by (simp add: show_words_def)
  next
    case Nil
    show ?thesis
    proof (cases rs)
      case Nil
      then show ?thesis using \<open>ws = []\<close> peek_follow [OF k] by (simp add: show_words_def show_redirs_def)
    next
      case (Cons r us)
      have "\<exists>c t. show_redirs rs @ k = c # t \<and> c \<in> {60, 62}" by (simp add: Cons show_redirs_def show_redir_def)
      then obtain c t where "show_redirs rs @ k = c # t" "c \<in> {60, 62}" by blast
      then show ?thesis using \<open>ws = []\<close> by (auto simp: show_words_def peek_def skip_ws_Cons)
    qed
  qed
  then show "yields (parseexec n (show_cmd 3 (Exec ws) @ show_redirs rs @ k)) (wrap (Exec ws) rs) k"
    using ab by (cases n) (simp_all add: parseexec.simps)
qed

lemma exec_ok_Redir:
  assumes "exec_ok c" "is_redir (f, m, fd)"
  shows "exec_ok (Redir c f m fd)"
  using assms(1) [unfolded exec_ok_def, rule_format, of "(f, m, fd) # rs" for rs] assms(2)
  by (auto simp: exec_ok_def show_redirs_def)

lemma pipe_ok_Pipe:
  assumes "exec_ok a" "pipe_ok b"
  shows "pipe_ok (Pipe a b)"
  unfolding pipe_ok_def
proof (intro allI impI)
  fix n k assume k: "follow {41, 38, 59} k"
  let ?k = "124 # show_cmd 2 b @ k"
  have b: "yields (parsepipe m (show_cmd 2 b @ k)) b k" for m using assms(2) k by (simp add: pipe_ok_def)
  have a: "yields (parseexec m (show_cmd 3 a @ ?k)) a ?k" for m
    using assms(1) [unfolded exec_ok_def, rule_format, of "[]" ?k m] by (simp add: show_redirs_def)
  have sh: "show_cmd 2 (Pipe a b) @ k = show_cmd 3 a @ ?k" by (simp add: paren_def)
  show "yields (parsepipe n (show_cmd 2 (Pipe a b) @ k)) (Pipe a b) k"
  proof (cases n)
    case (Suc m)
    then show ?thesis
      unfolding sh using a [of m] b [of m]
      by (auto simp: parsepipe.simps yields_iff peek_char gettoken_def skip_ws_Cons Let_def split: option.splits)
  qed simp
qed

lemma back_ok_Back:
  assumes "back_ok c"
  shows "back_ok (Back c)"
  unfolding back_ok_def
proof (intro allI impI)
  fix n j k assume k: "follow {41, 59} k"
  show "yields (map_option (\<lambda>r. obind r (\<lambda>(c0, s0). Ret (backs_loop c0 s0))) (parsepipe n (show_cmd 1 (Back c) @ replicate j 38 @ k))) ((Back ^^ j) (Back c)) k"
    using assms [unfolded back_ok_def, rule_format, OF k, of n "Suc j"] by (simp add: paren_def funpow_swap1)
qed

lemma line_ok_Lst:
  assumes "back_ok a" "line_ok b"
  shows "line_ok (Lst a b)"
  unfolding line_ok_def
proof (intro allI impI)
  fix n k assume k: "follow {41} k"
  let ?k = "59 # show_cmd 0 b @ k"
  have b: "yields (parseline m (show_cmd 0 b @ k)) b k" for m using assms(2) k by (simp add: line_ok_def)
  have sh: "show_cmd 0 (Lst a b) @ k = show_cmd 1 a @ ?k" by (simp add: paren_def)
  show "yields (parseline n (show_cmd 0 (Lst a b) @ k)) (Lst a b) k"
  proof (cases "parseline n (show_cmd 1 a @ ?k)")
    case (Some r)
    then obtain m c' s' c1 where "n = Suc m" "parsepipe m (show_cmd 1 a @ ?k) = Some (Ret (c', s'))" "backs_loop c' s' = (c1, skip_ws ?k)" "cmd_text c1 = a"
      using back_line [OF assms(1), of ?k n] follow_Cons [of 59 "{41, 59}"] by (metis insertCI option.distinct(1) symbol_chars)
    then show ?thesis
      unfolding sh using b [of m]
      by (auto simp: parseline.simps yields_iff peek_char gettoken_def skip_ws_Cons Let_def split: option.splits)
  qed (simp only: sh yields.simps)
qed

lemma levels_ok: "wf_cmd c \<Longrightarrow> exec_ok c \<and> pipe_ok c \<and> back_ok c \<and> line_ok c"
proof (induction c)
  case (Exec ws)
  then show ?case using exec_ok_Exec pipe_of_exec back_of_pipe line_of_back by (metis show_cmd.simps(1))
next
  case (Redir c f m fd)
  then show ?case using exec_ok_Redir pipe_of_exec back_of_pipe line_of_back by (metis show_cmd.simps(2) wf_cmd.simps(2))
next
  case (Pipe a b)
  then have p: "pipe_ok (Pipe a b)" by (simp add: pipe_ok_Pipe)
  then have l: "back_ok (Pipe a b)" "line_ok (Pipe a b)" by (auto intro!: line_of_back back_of_pipe simp: paren_def)
  then show ?case using p exec_of_line [OF l(2)] by (simp add: paren_def)
next
  case (Lst a b)
  then have l: "line_ok (Lst a b)" by (simp add: line_ok_Lst)
  then have "exec_ok (Lst a b)" by (rule exec_of_line) (simp add: paren_def)
  then show ?case using l by (auto intro!: back_of_pipe pipe_of_exec simp: paren_def)
next
  case (Back c)
  then have b: "back_ok (Back c)" by (simp add: back_ok_Back)
  then have l: "line_ok (Back c)" by (auto intro!: line_of_back simp: paren_def)
  then have "exec_ok (Back c)" by (rule exec_of_line) (simp add: paren_def)
  then show ?case using l b by (auto intro!: pipe_of_exec simp: paren_def)
qed

section \<open>What \<open>parsecmd\<close> returns\<close>

lemma parseline_fuel: "parseline (4 * length s + 4) s \<noteq> None"
  by (rule parseline_total) simp

text \<open>C14. Parsing reads back what was printed: the line of a command whose words have no blanks or symbols, whose
  argument lists fit \<open>MAXARGS\<close> and whose redirections are the three the grammar has, gives that command, with every
  nesting of lists, background commands, pipes, redirections and parentheses.\<close>

theorem parsecmd_reads_back:
  assumes "wf_cmd c"
  shows "\<exists>c'. parsecmd (show_cmd 0 c) = Some (Ret c') \<and> cmd_text c' = c"
proof -
  let ?s = "show_cmd 0 c"
  have "yields (parseline (4 * length ?s + 4) ?s) c []"
    using levels_ok [OF assms] by (force simp: line_ok_def follow_def dest: spec [of _ "[]"])
  then obtain c' where "parseline (4 * length ?s + 4) ?s = Some (Ret (c', []))" "cmd_text c' = c"
    using parseline_fuel [of ?s] by (auto simp: yields_iff)
  then show ?thesis by (simp add: parsecmd_def peek_def)
qed

definition demo_cmd :: "bytes cmd" where
  "demo_cmd = Lst (Back (Pipe (Redir (Exec [[99, 97, 116], [120]]) [102] O_RDONLY 0) (Exec [[119, 99]])))
     (Redir (Lst (Exec [[97]]) (Exec [[98]])) [103] (O_WRONLY OR O_CREATE OR O_TRUNC) 1)"

theorem parsecmd_reads_back_witness:
  "wf_cmd demo_cmd \<and> (\<exists>c'. parsecmd (show_cmd 0 demo_cmd) = Some (Ret c') \<and> cmd_text c' = demo_cmd)"
proof -
  have w: "wf_cmd demo_cmd" by (simp add: demo_cmd_def is_redir_def is_word_def word_char_def)
  show ?thesis using w parsecmd_reads_back [OF w] by blast
qed

section \<open>\<open>nulterminate\<close>\<close>

lemma parsecmd_tokens:
  assumes "parsecmd s = Some (Ret c)" "a \<in> set_cmd c"
  shows "token_of s a"
proof -
  obtain s1 where "parseline (4 * length s + 4) s = Some (Ret (c, s1))"
    using assms(1) by (auto simp: parsecmd_def split: option.splits outcome.splits prod.splits if_splits)
  from parseline_reads [OF this] show ?thesis using assms(2) by (simp add: reads_def)
qed

text \<open>The bytes that are cleared are the end pointers of the arguments.\<close>

definition cleared :: "arg set \<Rightarrow> nat \<Rightarrow> nat \<Rightarrow> bool" where
  "cleared as n i \<longleftrightarrow> (\<exists>a\<in>as. snd a \<noteq> [] \<and> i = n - length (snd a))"

lemma cleared_simps [simp]:
  "cleared {} n i \<longleftrightarrow> False"
  "cleared (as \<union> bs) n i \<longleftrightarrow> cleared as n i \<or> cleared bs n i"
  "cleared (insert a as) n i \<longleftrightarrow> (snd a \<noteq> [] \<and> i = n - length (snd a)) \<or> cleared as n i"
  by (auto simp: cleared_def)

lemma put_nul_nth:
  "length (put_nul p line) = length line"
  "i < length line \<Longrightarrow> put_nul p line ! i = (if p \<noteq> [] \<and> i = length line - length p then 0 else line ! i)"
  by (auto simp: put_nul_def nth_list_update)

lemma nulterminate_args:
  "length (fold (\<lambda>a. put_nul (snd a)) argv line) = length line \<and>
   (\<forall>i<length line. fold (\<lambda>a. put_nul (snd a)) argv line ! i = (if cleared (set argv) (length line) i then 0 else line ! i))"
  by (induction argv arbitrary: line) (auto simp: put_nul_nth)

lemma nulterminate_nth:
  "length (nulterminate c line) = length line \<and>
   (\<forall>i<length line. nulterminate c line ! i = (if cleared (set_cmd c) (length line) i then 0 else line ! i))"
proof (induction c arbitrary: line)
  case (Exec argv)
  then show ?case using nulterminate_args by simp
qed (auto simp: put_nul_nth)

lemma suffix_nth: "suffix q s \<Longrightarrow> i < length q \<Longrightarrow> s ! (length s - length q + i) = q ! i"
  by (auto simp: suffix_def nth_append)

lemma word_end_hd: "word_end q \<noteq> [] \<Longrightarrow> \<not> word_char (hd (word_end q))"
  unfolding word_end_def word_char_def by (induction q) (auto simp del: symbol_chars whitespace_chars dropWhile_eq_Nil_conv)

lemma token_end_nth:
  assumes "token_of s a" "snd a \<noteq> []"
  shows "length s - length (snd a) < length s \<and> \<not> word_char (s ! (length s - length (snd a)))"
proof -
  obtain q eq where a: "a = (q, eq)" by (cases a)
  have e: "suffix eq s" "eq = word_end q" using assms(1) a word_end_suffix [of q] suffix_order.trans by auto
  have "\<not> word_char (hd eq)" using e(2) assms(2) a word_end_hd by auto
  moreover have "s ! (length s - length eq) = hd eq" using suffix_nth [OF e(1), of 0] assms(2) a by (simp add: hd_conv_nth)
  moreover have "length s - length eq < length s"
    using suffix_length_le [OF e(1)] assms(2) a by (intro diff_less) (auto simp: length_greater_0_conv)
  ultimately show ?thesis using a by simp
qed

text \<open>The string that a C function reads at the pointer \<open>q\<close> into the line.\<close>

definition string_at :: "bytes \<Rightarrow> ptr \<Rightarrow> bytes" where
  "string_at line q = takeWhile (\<lambda>c. c \<noteq> 0) (drop (length line - length q) line)"

lemma takeWhile_prefix:
  assumes "take n xs = w" "drop n xs = [] \<or> hd (drop n xs) = z" "\<forall>x\<in>set w. x \<noteq> z"
  shows "takeWhile (\<lambda>c. c \<noteq> z) xs = w"
proof -
  define zs where "zs = drop n xs"
  have xs: "xs = w @ zs" using assms(1) unfolding zs_def by auto
  have "takeWhile (\<lambda>c. c \<noteq> z) zs = []" using assms(2) unfolding zs_def [symmetric] by (cases zs) auto
  then show ?thesis unfolding xs using assms(3) by (simp add: takeWhile_append2)
qed

lemma arg_text_prefix:
  assumes "token_of s (q, eq)" "0 \<notin> set s"
  shows "q = arg_text (q, eq) @ eq" "list_all word_char (arg_text (q, eq))"
proof -
  have q: "q = takeWhile (\<lambda>c. c \<notin> whitespace \<and> c \<notin> symbols) q @ eq"
    using assms(1) by (simp add: word_end_def del: symbol_chars whitespace_chars)
  then have t: "arg_text (q, eq) = takeWhile (\<lambda>c. c \<notin> whitespace \<and> c \<notin> symbols) q" by (metis arg_text_word)
  show "q = arg_text (q, eq) @ eq" using q t by simp
  have "0 \<notin> set q" using assms set_mono_suffix by fastforce
  then show "list_all word_char (arg_text (q, eq))"
    unfolding t list_all_iff word_char_def by (metis set_takeWhileD)
qed

text \<open>C35. After \<open>nulterminate\<close> every argument and file name of the parsed command is a C string of the line whose text is
  the token: the NUL bytes that are put fall behind words, never into another word.\<close>

theorem nulterminate_strings:
  assumes "parsecmd s = Some (Ret c)" "0 \<notin> set s" "(q, eq) \<in> set_cmd c"
  shows "string_at (nulterminate c s) q = arg_text (q, eq) \<and> arg_text (q, eq) \<noteq> []"
proof -
  let ?l = "nulterminate c s" and ?w = "arg_text (q, eq)" and ?b = "length s - length q"
  have tok: "token_of s (q, eq)" by (rule parsecmd_tokens [OF assms(1,3)])
  note w = arg_text_prefix [OF tok assms(2)]
  have b: "length ?w + length eq = length q" using w(1) by (metis length_append)
  have b2: "length q \<le> length s" using tok suffix_length_le by auto
  note b = b b2
  have keep: "?l ! (?b + i) = ?w ! i" if i: "i < length ?w" for i
  proof -
    have "q ! i = ?w ! i" using w(1) i by (metis nth_append)
    then have eq: "s ! (?b + i) = ?w ! i" using suffix_nth [of q s i] tok i b(1) by simp
    moreover have "word_char (?w ! i)" using w(2) i by (simp add: list_all_length)
    ultimately have "\<not> cleared (set_cmd c) (length s) (?b + i)"
      using token_end_nth [OF parsecmd_tokens [OF assms(1)]] unfolding cleared_def by metis
    moreover have "?b + i < length s" using i b by simp
    ultimately have "?l ! (?b + i) = s ! (?b + i)" using nulterminate_nth [of c s] by simp
    then show ?thesis using eq by simp
  qed
  have len: "length ?l = length s" using nulterminate_nth by blast
  have "take (length ?w) (drop ?b ?l) = ?w" using keep b len by (intro nth_equalityI) auto
  moreover have "drop (length ?w) (drop ?b ?l) = [] \<or> hd (drop (length ?w) (drop ?b ?l)) = 0"
  proof (cases "eq = []")
    case False
    then have lt: "length s - length eq < length s" using b by (intro diff_less) auto
    moreover have "cleared (set_cmd c) (length s) (length s - length eq)" using False assms(3) by (force simp: cleared_def)
    ultimately have "?l ! (length s - length eq) = 0" using nulterminate_nth [of c s] by simp
    moreover have "length s - length q + length ?w = length s - length eq" using b by linarith
    ultimately have "hd (drop (length s - length eq) ?l) = 0" "drop (length ?w) (drop ?b ?l) = drop (length s - length eq) ?l"
      using len lt by (simp_all only: hd_drop_conv_nth drop_drop add.commute)
    then show ?thesis by simp
  qed (use b len in simp)
  moreover have "\<forall>x\<in>set ?w. x \<noteq> 0" using w(2) by (auto simp: list_all_iff word_char_def)
  ultimately have "string_at ?l q = ?w" unfolding string_at_def len by (rule takeWhile_prefix)
  moreover have "length eq < length q" using tok word_end_less [of "hd q" "tl q"] by (cases q) auto
  then have "?w \<noteq> []" using b by auto
  ultimately show ?thesis by blast
qed

theorem nulterminate_strings_witness:
  "\<exists>c q eq. parsecmd [97, 62, 98] = Some (Ret c) \<and> (q, eq) \<in> set_cmd c \<and> string_at (nulterminate c [97, 62, 98]) q = arg_text (q, eq)"
proof -
  let ?q = "([98], [])" and ?s = "[97, 62, 98] :: bytes"
  let ?c = "Redir (Exec [([97, 62, 98], [62, 98])]) ?q (O_WRONLY OR O_CREATE OR O_TRUNC) 1"
  have p: "parsecmd ?s = Some (Ret ?c)" by code_simp
  have "string_at (nulterminate ?c ?s) (fst ?q) = arg_text (fst ?q, snd ?q)"
    using nulterminate_strings [OF p, of "fst ?q" "snd ?q"] by simp
  then show ?thesis using p by (intro exI [of _ ?c] exI [of _ "fst ?q"] exI [of _ "snd ?q"]) auto
qed

section \<open>The parser is total and its commands are well formed\<close>

definition redir_mode :: "u32 \<times> nat \<Rightarrow> bool" where
  "redir_mode r \<longleftrightarrow> r \<in> {(O_RDONLY, 0), (O_WRONLY OR O_CREATE OR O_TRUNC, 1), (O_WRONLY OR O_CREATE, 1)}"

fun shape :: "'w cmd \<Rightarrow> bool" where
  "shape (Exec ws) \<longleftrightarrow> length ws < 10"
| "shape (Redir c f m fd) \<longleftrightarrow> shape c \<and> redir_mode (m, fd)"
| "shape (Pipe l r) \<longleftrightarrow> shape l \<and> shape r"
| "shape (Lst l r) \<longleftrightarrow> shape l \<and> shape r"
| "shape (Back c) \<longleftrightarrow> shape c"

lemma shape_wrap [simp]: "shape (wrap c rs) \<longleftrightarrow> shape c \<and> list_all (\<lambda>r. redir_mode (snd r)) rs"
  by (induction c rs rule: wrap.induct) auto

lemma redir_of_mode [simp]: "list_all (\<lambda>r. redir_mode (snd r)) (redir_of tok a)"
  by (auto simp: redir_of_def redir_mode_def)

lemma parseredirs_mode:
  "parseredirs rs s = Ret (rs', s') \<Longrightarrow> list_all (\<lambda>r. redir_mode (snd r)) rs \<Longrightarrow> list_all (\<lambda>r. redir_mode (snd r)) rs'"
proof (induction rs s rule: parseredirs.induct)
  case (1 rs ps)
  obtain b s where p: "peek ps {60, 62} = (b, s)" by (cases "peek ps {60, 62}")
  obtain tok q0 e0 s1 where g: "gettoken s = (tok, q0, e0, s1)" by (metis prod_cases4)
  obtain tok2 q eq s2 where g2: "gettoken s1 = (tok2, q, eq, s2)" by (metis prod_cases4)
  show ?case
    using "1.prems" p g g2 "1.IH" [OF p [symmetric] _ g [symmetric] refl refl g2 [symmetric] refl refl]
    by (simp add: parseredirs.simps [of rs ps] split: if_splits)
qed

lemma exec_loop_shape:
  "exec_loop argv rs s = Ret (c, s') \<Longrightarrow> length argv < 10 \<Longrightarrow> list_all (\<lambda>r. redir_mode (snd r)) rs \<Longrightarrow> shape c"
proof (induction argv rs s rule: exec_loop.induct)
  case (1 argv rs ps)
  obtain b s where p: "peek ps {124, 41, 38, 59} = (b, s)" by (cases "peek ps {124, 41, 38, 59}")
  obtain tok q eq s1 where g: "gettoken s = (tok, q, eq, s1)" by (metis prod_cases4)
  show ?case
  proof (cases "b \<or> tok = 0")
    case True
    then show ?thesis using "1.prems" p g by (auto simp: exec_loop.simps [of argv rs ps] split: if_splits)
  next
    case False
    then obtain rs1 s2 where r: "parseredirs rs s1 = Ret (rs1, s2)" and ok: "tok = 97" "\<not> 10 \<le> length argv + 1"
      using "1.prems"(1) p g by (auto simp: exec_loop.simps [of argv rs ps] split: if_splits outcome.splits)
    then show ?thesis
      using "1.prems" p g False parseredirs_mode [OF r] "1.IH" [OF p [symmetric] _ g [symmetric] refl refl _ _ _ r refl]
      by (simp add: exec_loop.simps [of argv rs ps])
  qed
qed

lemma parsewords_shape: "parsewords s = Ret (c, s') \<Longrightarrow> shape c"
  using parseredirs_mode [of "[]"] by (fastforce simp: parsewords_def intro: exec_loop_shape)

lemma backs_loop_shape: "backs_loop c s = (c', s') \<Longrightarrow> shape c \<Longrightarrow> shape c'"
proof (induction c s rule: backs_loop.induct)
  case (1 c ps)
  obtain b s where p: "peek ps {38} = (b, s)" by (cases "peek ps {38}")
  obtain tok q eq s1 where g: "gettoken s = (tok, q, eq, s1)" by (metis prod_cases4)
  show ?case
    using "1.prems" p g "1.IH" [OF p [symmetric] _ g [symmetric] refl refl]
    by (simp add: backs_loop.simps [of c ps] split: if_splits)
qed

lemma parse_shape:
  shows parseline_shape: "parseline n s = Some (Ret (c, s')) \<Longrightarrow> shape c"
    and parsepipe_shape: "parsepipe n s = Some (Ret (c, s')) \<Longrightarrow> shape c"
    and parseexec_shape: "parseexec n s = Some (Ret (c, s')) \<Longrightarrow> shape c"
    and parseblock_shape: "parseblock n s = Some (Ret (c, s')) \<Longrightarrow> shape c"
proof (induction n arbitrary: s c s')
  case (Suc n)
  {
    case 1
    then show ?case using Suc.IH(1,2) backs_loop_shape unfolding parseline_Ret by (fastforce split: if_splits)
  next
    case 2
    then show ?case using Suc.IH(2,3) unfolding parsepipe_Ret by (fastforce split: if_splits)
  next
    case 3
    then show ?case using Suc.IH(4) parsewords_shape unfolding parseexec_Ret by (fastforce split: if_splits)
  next
    case 4
    then show ?case using Suc.IH(1) parseredirs_mode [of "[]"] unfolding parseblock_Ret by fastforce
  }
qed simp_all

lemma wf_cmd_text: "shape c \<Longrightarrow> (\<And>a. a \<in> set_cmd c \<Longrightarrow> is_word (arg_text a)) \<Longrightarrow> wf_cmd (cmd_text c)"
  by (induction c) (auto simp: list_all_iff is_redir_def redir_mode_def)

lemma token_is_word:
  assumes "token_of s a" "0 \<notin> set s"
  shows "is_word (arg_text a)"
proof -
  obtain q eq where a: "a = (q, eq)" by (cases a)
  note t = arg_text_prefix [OF assms(1) [unfolded a] assms(2)]
  have "length eq < length q" using assms(1) a word_end_less [of "hd q" "tl q"] by (cases q) auto
  then have "arg_text (q, eq) \<noteq> []" using t(1) by (metis append_Nil less_irrefl)
  then show ?thesis using t(2) a by (simp add: is_word_def)
qed

lemma parsecmd_is_Some: "\<exists>r. parsecmd s = Some r"
proof -
  obtain x where "parseline (4 * length s + 4) s = Some x" using parseline_fuel by blast
  then show ?thesis by (cases x) (auto simp: parsecmd_def split: prod.splits)
qed

text \<open>C34. The parser ends on every line, whatever the nesting of parentheses, pipes and lists: the four calls per
  character that \<open>parsecmd\<close> is given are enough. It panics or returns a well-formed command: at most nine arguments in
  each list, so that \<open>argv\<close> and its terminating 0 fit \<open>MAXARGS\<close>, words that are not empty and have no blanks or symbols, and
  redirections with the three modes of \<open>parseredirs\<close> and their descriptors.\<close>

theorem parsecmd_well_formed:
  assumes "0 \<notin> set s"
  shows "\<exists>r. parsecmd s = Some r \<and> (\<forall>c. r = Ret c \<longrightarrow> wf_cmd (cmd_text c))"
proof -
  obtain r where r: "parsecmd s = Some r" using parsecmd_is_Some by blast
  have "wf_cmd (cmd_text c)" if c: "parsecmd s = Some (Ret c)" for c
  proof (rule wf_cmd_text)
    obtain s1 where "parseline (4 * length s + 4) s = Some (Ret (c, s1))"
      using c by (auto simp: parsecmd_def split: option.splits outcome.splits prod.splits if_splits)
    then show "shape c" by (rule parseline_shape)
    show "is_word (arg_text a)" if "a \<in> set_cmd c" for a using token_is_word [OF parsecmd_tokens [OF c that] assms] .
  qed
  then show ?thesis using r by blast
qed

theorem parsecmd_well_formed_witness:
  "\<exists>r. parsecmd [97, 59, 40, 98, 41] = Some r \<and> (\<forall>c. r = Ret c \<longrightarrow> wf_cmd (cmd_text c))"
  using parsecmd_well_formed [of "[97, 59, 40, 98, 41]"] by simp

end
