(* ===== verification/Shrun.thy ===== *)
theory Shrun
  imports Sysfile Shround
begin

text \<open>
  How the shell runs a parsed command: \<open>runcmd\<close> and the main loop of \<^verbatim>\<open>user/sh.c\<close>. The descriptors of a process are the table the kernel keeps, with
  what each descriptor stands for; a new descriptor is the lowest free one, as \<open>fdalloc\<close> gives it. What a process does from here on is a tree, with
  a child at every \<open>fork\<close>, so that all interleavings of the processes are covered. Whether a file can be opened is an argument.
\<close>

section \<open>Definitions\<close>









text \<open>
  The main loop, for a line as \<open>gets\<close> stores it: leading blanks are skipped, an empty line and a comment do nothing, \<open>cd\<close> followed by a blank takes
  the rest of the line without its last character, and anything else is parsed and run in a child, for which the shell waits.
\<close>

datatype action = Skip | Cd bytes | Run bytes

fun skip_blank :: "bytes \<Rightarrow> bytes" where
  "skip_blank (c # s) = (if c = 32 \<or> c = 9 then skip_blank s else c # s)"
| "skip_blank [] = []"

definition sh_line :: "bytes \<Rightarrow> action" where
  "sh_line buf =
     (let cmd = skip_blank buf
      in if take 1 cmd = [10] then Skip
         else if take 1 cmd = [35] then Skip
         else if take 3 cmd = [99, 100, 32] then Cd (drop 3 (butlast cmd))
         else Run cmd)"

text \<open>\<open>gets(buf, sizeof(buf))\<close> takes a line, or 99 bytes of a longer one; \<open>getcmd\<close> ends the loop when nothing is left.\<close>

fun take_line :: "nat \<Rightarrow> bytes \<Rightarrow> bytes \<times> bytes" where
  "take_line 0 inp = ([], inp)"
| "take_line (Suc n) [] = ([], [])"
| "take_line (Suc n) (c # inp) =
     (if c = 10 \<or> c = 13 then ([c], inp) else case take_line n inp of (l, r) \<Rightarrow> (c # l, r))"

lemma take_line_split: "take_line n inp = (l, r) \<Longrightarrow> inp = l @ r"
  by (induction n inp arbitrary: l r rule: take_line.induct) (auto split: if_splits prod.splits)

lemma take_line_shorter: "take_line n inp = (l, r) \<Longrightarrow> l \<noteq> [] \<Longrightarrow> length r < length inp"
  by (drule take_line_split) simp

function sh_main :: "bytes \<Rightarrow> action list" where
  "sh_main inp =
     (case take_line 99 inp of
        (l, r) \<Rightarrow> if l = [] \<or> hd l = 0 then [] else sh_line (takeWhile (\<lambda>c. c \<noteq> 0) l) # sh_main r)"
  by pat_completeness auto
termination by (relation "measure length") (auto dest: sym take_line_shorter)

declare sh_main.simps [simp del]

section \<open>Wiring\<close>
















section \<open>Properties\<close>



end
