(* ===== verification/Spec2Isabelle.thy ===== *)
theory Spec2Isabelle
  imports Console Family Reap Vmuser Fsdir Fsdisk Ftable Virtioq Uline Uprintf Mkfsboot Usort Grep Shrun
begin

text \<open>
  Verification of the operating system in this repository: a kernel for RISC-V in the xv6 tradition (\<^verbatim>\<open>kernel/\<close>) with its user library
  and programs (\<^verbatim>\<open>user/\<close>) and the program that builds its disk image (\<^verbatim>\<open>mkfs/\<close>). The sources are C; the theories translate them function by function into executable definitions
  and prove what makes each part correct.

  \<^bold>\<open>How the system is put together.\<close> A trap enters the kernel (\<^verbatim>\<open>trap.c\<close>), which dispatches a system call
  (\<^verbatim>\<open>syscall.c\<close>, \<^verbatim>\<open>sysproc.c\<close>, \<^verbatim>\<open>sysfile.c\<close>) or serves a device. System calls work on processes
  (\<^verbatim>\<open>proc.c\<close>, \<^verbatim>\<open>exec.c\<close>), on their memory (\<^verbatim>\<open>vm.c\<close> over \<^verbatim>\<open>kalloc.c\<close>) and on open files
  (\<^verbatim>\<open>file.c\<close>), which are pipes (\<^verbatim>\<open>pipe.c\<close>), devices (\<^verbatim>\<open>console.c\<close> over \<^verbatim>\<open>uart.c\<close>) or inodes
  (\<^verbatim>\<open>fs.c\<close>). The file system stores blocks through transactions (\<^verbatim>\<open>log.c\<close>) in the buffer cache (\<^verbatim>\<open>bio.c\<close>), which
  calls the disk driver (\<^verbatim>\<open>virtio_disk.c\<close>). Spin locks and sleep locks (\<^verbatim>\<open>spinlock.c\<close>, \<^verbatim>\<open>sleeplock.c\<close>) protect all of it.

  \<^bold>\<open>Conventions.\<close> Machine integers are words of their width. Memory is a function from 64-bit addresses to bytes, and what the C code
  keeps in memory (free list, page tables, heap headers, strings) is kept there. A kernel operation is a function from a state to
  \<open>KRet\<close> a result and a state, \<open>KSleep\<close> the state in which it gives up the CPU, or \<open>KPanic\<close> with the message; smaller parts use
  \<open>outcome\<close> (\<open>Ret\<close> or \<open>Panic\<close>) and \<open>option\<close>. A body between \<open>acquire\<close> and \<open>release\<close> is one step, which is what
  the theorem on spin locks justifies; interleavings of such steps are inductive relations. A loop that ends is a function with its
  termination proof; one that runs until a NUL byte or a device answers is a partial function whose value \<open>None\<close> is not returning, and
  the theorems that use it prove that it returns. Fuel occurs where the data bounds the loop: \<open>NUM + 1\<close> turns for a descriptor chain,
  three levels for a page table, the number of table entries for the process, inode and file tables, and the length of the line, plus a constant,
  for the calls of the shell's parser, which is shown to be enough for every line.

  \<^bold>\<open>The theories.\<close>

  \<^item> \<^verbatim>\<open>Kprelude\<close>: results, words, little-endian bytes and memory; \<^verbatim>\<open>Kstring\<close>: \<^verbatim>\<open>kernel/string.c\<close>;
    \<^verbatim>\<open>Ring\<close> and \<^verbatim>\<open>Pool\<close>: the interfaces (locales) of a byte queue and of a pool of resources.
  \<^item> Memory: \<^verbatim>\<open>Kalloc\<close> (\<^verbatim>\<open>kalloc.c\<close>, a \<open>pool\<close> of pages), \<^verbatim>\<open>Vm\<close> (\<^verbatim>\<open>vm.c\<close>), \<^verbatim>\<open>Pagetable\<close> (a page table as a
    partial map from addresses to entries), \<^verbatim>\<open>Vmops\<close> (mapping, unmapping, page faults), \<^verbatim>\<open>Vmcopy\<close> (\<open>uvmcopy\<close> gives \<open>fork\<close> a private
    copy), \<^verbatim>\<open>Vmuser\<close> (\<open>copyout\<close> and \<open>copyin\<close>), \<^verbatim>\<open>Vmfree\<close> (freeing an address space).
  \<^item> Locks: \<^verbatim>\<open>Locks\<close> (mutual exclusion over interleaved CPUs, nesting of \<open>push_off\<close>, sleep locks).
  \<^item> Storage: \<^verbatim>\<open>Bio\<close> (the cache as a linked list of buffers), \<^verbatim>\<open>Log\<close> and \<^verbatim>\<open>Logcrash\<close> (\<^verbatim>\<open>log.c\<close>; the locale
    \<open>log_device\<close> states what a commit needs of the cache, and the atomicity of a commit under crashes is proved in it), \<^verbatim>\<open>Virtio\<close> and
    \<^verbatim>\<open>Virtioq\<close> (the driver, its descriptors as a \<open>pool\<close>, all interleavings of requests, device and interrupts).
  \<^item> File system: \<^verbatim>\<open>Fs\<close> (\<^verbatim>\<open>fs.c\<close> over a block store), \<^verbatim>\<open>Fsblocks\<close> (\<open>balloc\<close>, \<open>bfree\<close>), \<^verbatim>\<open>Fsfile\<close> (\<open>bmap\<close>),
    \<^verbatim>\<open>Fsdata\<close> (\<open>readi\<close>, \<open>writei\<close>, the size of a transaction; the locale \<open>sink\<close> is where a read goes), \<^verbatim>\<open>Fsnames\<close> (paths, the inode
    table), \<^verbatim>\<open>Fsdir\<close> (directories), \<^verbatim>\<open>Fsdisk\<close> (cache and log implement the block store, by simulation).
  \<^item> Disk image: \<^verbatim>\<open>Mkfs\<close> (\<^verbatim>\<open>mkfs.c\<close>), \<^verbatim>\<open>Mkfsimg\<close> (\<open>iappend\<close> and the files of an image), \<^verbatim>\<open>Mkfstree\<close> (the tree of the host
    in the image), \<^verbatim>\<open>Mkfsboot\<close> (the whole program, and the kernel's \<open>ilock\<close> and \<open>readi\<close> on its image).
  \<^item> Files and processes: \<^verbatim>\<open>Pipe\<close> (a \<open>byte_queue\<close>), \<^verbatim>\<open>Console\<close> (line discipline, uart), \<^verbatim>\<open>Kern\<close> (the kernel state, sleep and wakeup,
    arguments of system calls), \<^verbatim>\<open>File\<close>, \<^verbatim>\<open>Ftable\<close> (reference counts), \<^verbatim>\<open>Sysfile\<close>, \<^verbatim>\<open>Proc\<close>, \<^verbatim>\<open>Sched\<close> (one pass of the
    scheduler), \<^verbatim>\<open>Exec\<close>, \<^verbatim>\<open>Syscall\<close> (dispatch and traps).
  \<^item> The kernel as a whole: \<^verbatim>\<open>Callinv\<close> (the locales \<open>frame_invariant\<close> and \<open>call_invariant\<close>: what every call keeps of a property of the
    process table), \<^verbatim>\<open>Family\<close> (their interpretations; the process tree over all interleavings after boot), \<^verbatim>\<open>Reap\<close> (a dead process gives
    all its memory back).
  \<^item> User side: \<^verbatim>\<open>Ulib\<close> (\<^verbatim>\<open>ulib.c\<close>), \<^verbatim>\<open>Umalloc\<close>, \<^verbatim>\<open>Uheap\<close>, \<^verbatim>\<open>Ualloc\<close>, \<^verbatim>\<open>Ucontract\<close>
    (\<^verbatim>\<open>umalloc.c\<close>: the heap as blocks that tile the memory, the contract of an allocator as the locale \<open>allocator\<close> and its interpretation),
    \<^verbatim>\<open>Uline\<close> (\<open>getline\<close>), \<^verbatim>\<open>Uprintf\<close> (both \<^verbatim>\<open>printf.c\<close>), \<^verbatim>\<open>Grep\<close> (\<^verbatim>\<open>grep.c\<close>), \<^verbatim>\<open>Shparse\<close>, \<^verbatim>\<open>Shprint\<close>,
    \<^verbatim>\<open>Shround\<close> (the parser of \<^verbatim>\<open>sh.c\<close>: it ends on every line, returns well-formed commands and reads back printed ones),
    \<^verbatim>\<open>Shrun\<close> (how the shell runs them), \<^verbatim>\<open>Usort\<close> (\<^verbatim>\<open>sort.c\<close> and \<^verbatim>\<open>wc.c\<close>).

  \<^bold>\<open>What the theorems show.\<close> A commit is atomic under a crash after any of its disk writes, and no interleaving of transactions overflows
  the log; cache and log implement the block store, over which file reads and writes, block allocation, directories and path names do what a
  file of bytes and a list of entries say. The image that \<open>mkfs\<close> writes satisfies what these theorems
  ask of a file, and the kernel reads from it the bytes the host had. Page tables implement maps; \<open>fork\<close> clones memory, \<open>wait\<close> reclaims it, copies between kernel and user
  arrive. Spin locks exclude; pipes are queues that lose and reorder nothing; disk requests use disjoint descriptors and are completed
  once; a runnable process is dispatched in every pass of the scheduler; the process tree is consistent in every reachable state, so no
  exit is missed by \<open>wait\<close>. The user allocator hands out disjoint blocks that keep their contents, \<open>grep\<close> decides the language of its
  pattern, numbers survive printing and reading, \<open>sort\<close> prints the sorted permutation of its lines, the shell's parser inverts printing, and the shell connects
  the programs of a line as its pipes and redirections say.

  \<^bold>\<open>Not modelled.\<close> Start-up code and the interrupt controller (register writes only); assembly (the context switch is a step); the
  hardware (uart and disk answer as the environment, the virtio device completes requests in any order); the memory model of several CPUs
  below single atomic accesses; \<open>procdump\<close>, the printing of \<open>strace\<close>, and \<open>getcwd_path\<close>, which nothing calls; test programs and the
  remaining user programs, which are short sequences of system calls.
\<close>

end
